(* ===== verification/Prelude.thy ===== *)
theory Prelude
  imports Main "HOL-Library.Sublist"
begin

text \<open>
  Shared vocabulary of the development: the collections of rewrite and preservation facts the
  component theories extend, the result type of operations that can fail or panic, and generic
  facts about lists and maps that several components use.
\<close>

section \<open>Collections\<close>

text \<open>
  \<open>go_unfold\<close> collects the definitions that a component's small operations unfold to,
  \<open>op_preserves\<close> the facts that an operation keeps its component's invariant.
\<close>

named_theorems go_unfold
named_theorems op_preserves

section \<open>Results of operations\<close>

text \<open>
  A Go function that returns \<open>(T, error)\<close> is modelled by a sum with the error on the left.
  A function that can panic returns \<open>outcome\<close>: \<open>Panic\<close> is a run-time panic (nil dereference,
  index out of range, write to a nil map), \<open>Returns\<close> a normal return.
\<close>

datatype 'a outcome = Panic | Returns 'a

fun outcome_bind :: "'a outcome \<Rightarrow> ('a \<Rightarrow> 'b outcome) \<Rightarrow> 'b outcome" where
  "outcome_bind Panic f = Panic"
| "outcome_bind (Returns x) f = f x"

lemma outcome_bind_Returns_iff:
  "outcome_bind m f = Returns y \<longleftrightarrow> (\<exists>x. m = Returns x \<and> f x = Returns y)"
  by (cases m) auto

lemma outcome_bind_Panic_iff:
  "outcome_bind m f = Panic \<longleftrightarrow> m = Panic \<or> (\<exists>x. m = Returns x \<and> f x = Panic)"
  by (cases m) auto

section \<open>Lists\<close>

lemma length_snoc_update: "i < length xs \<Longrightarrow> (xs @ [x])[i := y] = xs[i := y] @ [x]"
  by (simp add: list_update_append)

lemma butlast_take_length: "xs \<noteq> [] \<Longrightarrow> take (length xs - 1) xs = butlast xs"
  by (simp add: butlast_conv_take)

lemma nth_in_set_take: "i < n \<Longrightarrow> i < length xs \<Longrightarrow> xs ! i \<in> set (take n xs)"
  by (metis length_take min_less_iff_conj nth_mem nth_take)

lemma rotate_nth_mod:
  "xs \<noteq> [] \<Longrightarrow> i < length xs \<Longrightarrow> rotate h xs ! i = xs ! ((h + i) mod length xs)"
  by (simp add: nth_rotate add.commute)

lemma distinct_by_count: "(\<And>x. count_list xs x \<le> 1) \<Longrightarrow> distinct xs"
proof (induction xs)
  case (Cons a xs)
  have "count_list xs a = 0" using Cons.prems [of a] by simp
  moreover have "count_list xs x \<le> 1" for x using Cons.prems [of x] by (auto split: if_splits)
  ultimately show ?case using Cons.IH by (simp add: count_list_0_iff)
qed simp

lemma distinct_map_filter_fst: "distinct (map fst xs) \<Longrightarrow> distinct (map fst (filter P xs))"
  by (induction xs) auto

lemma set_tlD: "x \<in> set (tl xs) \<Longrightarrow> x \<in> set xs"
  by (cases xs) auto

section \<open>Maps\<close>

lemma dom_restrict_minus: "dom (m(k := None)) = dom m - {k}"
  by auto

lemma finite_dom_upd: "finite (dom m) \<Longrightarrow> finite (dom (m(k := v)))"
  by (cases v) auto

lemma card_dom_insert: "finite (dom m) \<Longrightarrow> m k = None \<Longrightarrow> card (dom (m(k \<mapsto> v))) = Suc (card (dom m))"
  by (simp add: domIff)

lemma card_dom_delete: "finite (dom m) \<Longrightarrow> m k \<noteq> None \<Longrightarrow> card (dom (m(k := None))) = card (dom m) - 1"
  by (simp add: domIff)

end
