(* ===== verification/UrlQueue.thy ===== *)
theory UrlQueue
  imports Prelude "HOL-Library.Multiset"
begin

text \<open>
  The in-memory crawl queue of \<open>internal/queue\<close>: \<open>PriorityQueue\<close> (types.go, heap.go, ops.go) on
  top of the standard library's \<open>container/heap\<close>. An item is \<open>URLItem\<close>, the queue a record of
  the backing slice, the seen map and the size limit. Every exported method holds the queue's mutex
  for its whole body, so a method is one function from state to state. The locale \<open>url_queue\<close> is
  the contract the crawler relies on (interface \<open>Queue\<close> of types.go), its extension
  \<open>depth_first_queue\<close> adds the order, and the interpretation at the end discharges both.
\<close>

section \<open>Data\<close>

record url_item =
  itemURL :: string
  itemDepth :: int
  itemIndex :: int

record pqueue =
  pq_items :: "url_item list"
  pq_seen :: "string \<rightharpoonup> bool"
  pq_maxSize :: int

definition DefaultMaxQueueSize :: int where
  "DefaultMaxQueueSize = 100000"

section \<open>heap.go: the heap interface of the queue\<close>

definition Less :: "url_item list \<Rightarrow> nat \<Rightarrow> nat \<Rightarrow> bool" where
  "Less xs i j \<longleftrightarrow> itemDepth (xs ! i) < itemDepth (xs ! j)"

definition Swap :: "url_item list \<Rightarrow> nat \<Rightarrow> nat \<Rightarrow> url_item list" where
  "Swap xs i j =
     (let xs1 = xs[i := xs ! j, j := xs ! i];
          xs2 = xs1[i := (xs1 ! i)\<lparr>itemIndex := int i\<rparr>]
      in xs2[j := (xs2 ! j)\<lparr>itemIndex := int j\<rparr>])"

definition Push :: "url_item list \<Rightarrow> url_item \<Rightarrow> url_item list" where
  "Push xs item = xs @ [item\<lparr>itemIndex := int (length xs)\<rparr>]"

text \<open>\<open>Pop\<close> indexes \<open>old[n-1]\<close>; it panics on an empty slice.\<close>

definition Pop :: "url_item list \<Rightarrow> (url_item \<times> url_item list) outcome" where
  "Pop xs =
     (if xs = [] then Panic
      else Returns ((last xs)\<lparr>itemIndex := -1\<rparr>, butlast xs))"

section \<open>container/heap\<close>

text \<open>The sift-up and sift-down loops of the standard library and its three entry points.\<close>

function heap_up :: "url_item list \<Rightarrow> nat \<Rightarrow> url_item list" where
  "heap_up xs j =
     (let i = (j - 1) div 2
      in if i = j \<or> \<not> Less xs j i then xs else heap_up (Swap xs i j) i)"
  by pat_completeness auto
termination
  by (relation "measure snd") (auto simp: Less_def Let_def)

function heap_down :: "url_item list \<Rightarrow> nat \<Rightarrow> nat \<Rightarrow> url_item list" where
  "heap_down xs i n =
     (let j1 = 2 * i + 1
      in if n \<le> j1 then xs
         else let j = (if j1 + 1 < n \<and> Less xs (j1 + 1) j1 then j1 + 1 else j1)
              in if \<not> Less xs j i then xs else heap_down (Swap xs i j) j n)"
  by pat_completeness auto
termination
  by (relation "measure (\<lambda>(xs, i, n). n - i)") (auto simp: Let_def)

declare heap_up.simps [simp del] heap_down.simps [simp del]

fun heap_init_from :: "nat \<Rightarrow> url_item list \<Rightarrow> url_item list" where
  "heap_init_from 0 xs = xs"
| "heap_init_from (Suc i) xs = heap_init_from i (heap_down xs i (length xs))"

definition heap_Init :: "url_item list \<Rightarrow> url_item list" where
  "heap_Init xs = heap_init_from (length xs div 2) xs"

definition heap_Push :: "url_item list \<Rightarrow> url_item \<Rightarrow> url_item list" where
  "heap_Push xs item = (let ys = Push xs item in heap_up ys (length ys - 1))"

definition heap_Pop :: "url_item list \<Rightarrow> (url_item \<times> url_item list) outcome" where
  "heap_Pop xs =
     (if xs = [] then Panic
      else let n = length xs - 1 in Pop (heap_down (Swap xs 0 n) 0 n))"

section \<open>ops.go: the methods\<close>

definition NewPriorityQueueWithMaxSize :: "int \<Rightarrow> pqueue" where
  "NewPriorityQueueWithMaxSize maxSize =
     \<lparr>pq_items = heap_Init [], pq_seen = Map.empty, pq_maxSize = maxSize\<rparr>"

definition NewPriorityQueue :: pqueue where
  "NewPriorityQueue = NewPriorityQueueWithMaxSize DefaultMaxQueueSize"

definition MaxSize :: "pqueue \<Rightarrow> int" where
  "MaxSize q = pq_maxSize q"

definition SetMaxSize :: "pqueue \<Rightarrow> int \<Rightarrow> pqueue" where
  "SetMaxSize q maxSize = q\<lparr>pq_maxSize := maxSize\<rparr>"

text \<open>A Go map read with a missing key gives the zero value, \<open>false\<close>.\<close>

definition HasSeen :: "pqueue \<Rightarrow> string \<Rightarrow> bool" where
  "HasSeen q url \<longleftrightarrow> pq_seen q url = Some True"

definition MarkSeen :: "pqueue \<Rightarrow> string \<Rightarrow> pqueue" where
  "MarkSeen q url = q\<lparr>pq_seen := (pq_seen q)(url \<mapsto> True)\<rparr>"

definition PushURL :: "pqueue \<Rightarrow> string \<Rightarrow> int \<Rightarrow> bool \<times> pqueue" where
  "PushURL q url depth =
     (if HasSeen q url then (False, q)
      else if int (length (pq_items q)) \<ge> pq_maxSize q then (False, q)
      else (True, q\<lparr>pq_seen := (pq_seen q)(url \<mapsto> True),
                    pq_items := heap_Push (pq_items q)
                      \<lparr>itemURL = url, itemDepth = depth, itemIndex = 0\<rparr>\<rparr>))"

text \<open>\<open>PopURL\<close> guards \<open>heap.Pop\<close> by the length, so its result is a panic only if \<open>heap.Pop\<close> is.\<close>

definition PopURL :: "pqueue \<Rightarrow> ((url_item \<times> bool) \<times> pqueue) outcome" where
  "PopURL q =
     (if length (pq_items q) = 0
      then Returns ((\<lparr>itemURL = [], itemDepth = 0, itemIndex = 0\<rparr>, False), q)
      else outcome_bind (heap_Pop (pq_items q))
             (\<lambda>(item, rest). Returns ((item, True), q\<lparr>pq_items := rest\<rparr>)))"

definition Size :: "pqueue \<Rightarrow> nat" where
  "Size q = length (pq_items q)"

definition Items :: "pqueue \<Rightarrow> url_item list" where
  "Items q = pq_items q"

definition AllVisited :: "pqueue \<Rightarrow> (string \<rightharpoonup> bool)" where
  "AllVisited q = pq_seen q"

definition Snapshot :: "pqueue \<Rightarrow> url_item list \<times> (string \<rightharpoonup> bool)" where
  "Snapshot q = (pq_items q, pq_seen q)"

definition LoadFromCheckpoint :: "pqueue \<Rightarrow> url_item list \<Rightarrow> (string \<rightharpoonup> bool) \<Rightarrow> pqueue" where
  "LoadFromCheckpoint q items visited =
     q\<lparr>pq_items := heap_Init items, pq_seen := visited\<rparr>"

section \<open>The heap order\<close>

abbreviation key :: "url_item list \<Rightarrow> nat \<Rightarrow> int" where
  "key xs i \<equiv> itemDepth (xs ! i)"

abbreviation par :: "nat \<Rightarrow> nat" where
  "par c \<equiv> (c - 1) div 2"

definition heap_above :: "nat \<Rightarrow> nat \<Rightarrow> url_item list \<Rightarrow> bool" where
  "heap_above k n xs \<longleftrightarrow>
     (\<forall>c. 0 < c \<longrightarrow> c < n \<longrightarrow> k \<le> par c \<longrightarrow> key xs (par c) \<le> key xs c)"

abbreviation heap_ordered :: "url_item list \<Rightarrow> bool" where
  "heap_ordered xs \<equiv> heap_above 0 (length xs) xs"

text \<open>What an item is to the crawler: its URL and depth, without the position bookkeeping.\<close>

definition payload :: "url_item \<Rightarrow> string \<times> int" where
  "payload x = (itemURL x, itemDepth x)"

definition payloads :: "url_item list \<Rightarrow> (string \<times> int) multiset" where
  "payloads xs = mset (map payload xs)"

lemma payload_index [simp]: "payload (x\<lparr>itemIndex := i\<rparr>) = payload x"
  by (simp add: payload_def)

lemma length_Swap [simp]: "length (Swap xs i j) = length xs"
  by (simp add: Swap_def Let_def)

lemma key_Swap:
  "i < length xs \<Longrightarrow> j < length xs \<Longrightarrow> c < length xs \<Longrightarrow>
     key (Swap xs i j) c = (if c = i then key xs j else if c = j then key xs i else key xs c)"
  by (auto simp: Swap_def Let_def nth_list_update)

lemma map_payload_Swap:
  "i < length xs \<Longrightarrow> j < length xs \<Longrightarrow>
     map payload (Swap xs i j) = (map payload xs)[i := payload (xs ! j), j := payload (xs ! i)]"
  by (auto simp: Swap_def Let_def nth_list_update map_update intro!: nth_equalityI)

lemma payloads_Swap [simp]:
  "i < length xs \<Longrightarrow> j < length xs \<Longrightarrow> payloads (Swap xs i j) = payloads xs"
  using mset_swap [of i "map payload xs" j]
  by (simp add: payloads_def map_payload_Swap) (metis list_update_swap)

lemma nth_Swap_other:
  "c \<noteq> i \<Longrightarrow> c \<noteq> j \<Longrightarrow> Swap xs i j ! c = xs ! c"
  by (simp add: Swap_def Let_def)

subsection \<open>Sift down\<close>

lemma length_heap_down [simp]: "length (heap_down xs i n) = length xs"
proof (induction xs i n rule: heap_down.induct)
  case (1 xs i n)
  then show ?case by (subst heap_down.simps) (auto simp: Let_def)
qed

lemma payloads_heap_down [simp]: "n \<le> length xs \<Longrightarrow> payloads (heap_down xs i n) = payloads xs"
proof (induction xs i n rule: heap_down.induct)
  case (1 xs i n)
  then show ?case by (subst heap_down.simps) (auto simp: Let_def)
qed

lemma heap_down_above: "n \<le> c \<Longrightarrow> heap_down xs i n ! c = xs ! c"
proof (induction xs i n rule: heap_down.induct)
  case (1 xs i n)
  then show ?case by (subst heap_down.simps) (auto simp: Let_def nth_Swap_other)
qed

text \<open>
  The loop invariant of \<open>down\<close> at position \<open>i\<close>: every parent from \<open>k\<close> on other than \<open>i\<close> is in order
  with its children, and the parent of \<open>i\<close> is in order with the children of \<open>i\<close>.
\<close>

definition down_inv :: "nat \<Rightarrow> nat \<Rightarrow> url_item list \<Rightarrow> nat \<Rightarrow> bool" where
  "down_inv k n xs i \<longleftrightarrow>
     (\<forall>c. 0 < c \<longrightarrow> c < n \<longrightarrow> k \<le> par c \<longrightarrow> par c \<noteq> i \<longrightarrow> key xs (par c) \<le> key xs c) \<and>
     (\<forall>c. 0 < c \<longrightarrow> c < n \<longrightarrow> par c = i \<longrightarrow> 0 < i \<longrightarrow> k \<le> par i \<longrightarrow> key xs (par i) \<le> key xs c)"

lemma down_inv_other:
  "down_inv k n xs i \<Longrightarrow> 0 < c \<Longrightarrow> c < n \<Longrightarrow> k \<le> par c \<Longrightarrow> par c \<noteq> i \<Longrightarrow>
     key xs (par c) \<le> key xs c"
  unfolding down_inv_def by blast

lemma down_inv_up:
  "down_inv k n xs i \<Longrightarrow> 0 < c \<Longrightarrow> c < n \<Longrightarrow> par c = i \<Longrightarrow> 0 < i \<Longrightarrow> k \<le> par i \<Longrightarrow>
     key xs (par i) \<le> key xs c"
  unfolding down_inv_def by blast

lemma children: "0 < c \<Longrightarrow> par c = i \<longleftrightarrow> c = 2 * i + 1 \<or> c = 2 * i + 2"
  by presburger

lemma down_inv_done:
  "down_inv k n xs i \<Longrightarrow>
   (\<And>c. c = 2 * i + 1 \<or> c = 2 * i + 2 \<Longrightarrow> c < n \<Longrightarrow> key xs i \<le> key xs c) \<Longrightarrow> heap_above k n xs"
proof -
  assume inv: "down_inv k n xs i"
    and ch: "\<And>c. c = 2 * i + 1 \<or> c = 2 * i + 2 \<Longrightarrow> c < n \<Longrightarrow> key xs i \<le> key xs c"
  have "key xs (par c) \<le> key xs c" if c: "0 < c" "c < n" "k \<le> par c" for c
  proof (cases "par c = i")
    case True
    then have "c = 2 * i + 1 \<or> c = 2 * i + 2" using children c by blast
    then show ?thesis using ch c True by simp
  next
    case False
    then show ?thesis using inv c unfolding down_inv_def by blast
  qed
  then show ?thesis by (auto simp: heap_above_def)
qed

lemma down_inv_step:
  assumes inv: "down_inv k n xs i" and n: "n \<le> length xs" and i: "k \<le> i"
    and j: "j = 2 * i + 1 \<or> j = 2 * i + 2" "j < n" "key xs j < key xs i"
    and least: "\<And>c. c = 2 * i + 1 \<or> c = 2 * i + 2 \<Longrightarrow> c < n \<Longrightarrow> key xs j \<le> key xs c"
  shows "down_inv k n (Swap xs i j) j"
proof -
  let ?ys = "Swap xs i j"
  have ij: "i < j" "i < length xs" "j < length xs" and pj: "par j = i" using j n by auto
  have k: "key ?ys c = (if c = i then key xs j else if c = j then key xs i else key xs c)" if "c < n" for c
    using key_Swap [of i xs j c] ij that n by simp
  have kn: "key ?ys c = key xs c" if "c < n" "c \<noteq> i" "c \<noteq> j" for c using k that by simp
  have ki: "key ?ys i = key xs j" and kj: "key ?ys j = key xs i" using k ij j(2) by simp_all
  have A: "key ?ys (par c) \<le> key ?ys c" if c: "0 < c" "c < n" "k \<le> par c" "par c \<noteq> j" for c
  proof -
    have pc: "par c < c" using c(1) by linarith
    consider (child) "par c = i" | (pos) "par c \<noteq> i" "c = i" | (other) "par c \<noteq> i" "c \<noteq> i" by blast
    then show ?thesis
    proof cases
      case child
      then have "c = 2 * i + 1 \<or> c = 2 * i + 2" using c(1) children by blast
      then have "key xs j \<le> key xs c" by (rule least) (rule c(2))
      moreover have "key ?ys c = (if c = j then key xs i else key xs c)"
        using kn [OF c(2)] kj pc child by auto
      ultimately show ?thesis using child ki j(3) by simp
    next
      case pos
      then have "key xs (par i) \<le> key xs j" using down_inv_up [OF inv, of j] ij j(2) pj c by simp
      moreover have "key ?ys (par i) = key xs (par i)" by (rule kn) (use pos pc c in auto)
      ultimately show ?thesis using pos(2) ki by simp
    next
      case other
      have "c \<noteq> j" using other(1) pj by blast
      moreover have "par c < n" using pc c(2) by simp
      ultimately show ?thesis
        using down_inv_other [OF inv c(1-3) other(1)] kn [OF c(2) other(2)] kn [of "par c", OF _ other(1) c(4)]
        by simp
    qed
  qed
  have B: "key ?ys (par j) \<le> key ?ys c" if c: "0 < c" "c < n" "par c = j" for c
  proof -
    have pc: "par c < c" using c(1) by linarith
    then have "key ?ys c = key xs c" using kn [OF c(2)] c(3) ij(1) by simp
    moreover have "key xs j \<le> key xs c"
      using down_inv_other [OF inv c(1,2)] c(3) i ij(1) by simp
    ultimately show ?thesis using pj ki by simp
  qed
  from A B show ?thesis by (auto simp: down_inv_def)
qed

lemma heap_down_heap_above:
  "down_inv k n xs i \<Longrightarrow> n \<le> length xs \<Longrightarrow> k \<le> i \<Longrightarrow> heap_above k n (heap_down xs i n)"
proof (induction xs i n rule: heap_down.induct)
  case (1 xs i n)
  let ?j1 = "2 * i + 1"
  let ?j = "if ?j1 + 1 < n \<and> Less xs (?j1 + 1) ?j1 then ?j1 + 1 else ?j1"
  consider (leaf) "n \<le> ?j1" | (stop) "\<not> n \<le> ?j1" "\<not> Less xs ?j i" | (go) "\<not> n \<le> ?j1" "Less xs ?j i"
    by blast
  then show ?case
  proof cases
    case leaf
    then have "heap_above k n xs" using down_inv_done [OF "1.prems"(1)] by auto
    with leaf show ?thesis by (subst heap_down.simps) (simp add: Let_def)
  next
    case stop
    have "heap_above k n xs"
    proof (rule down_inv_done [OF "1.prems"(1)])
      fix c assume "c = 2 * i + 1 \<or> c = 2 * i + 2" "c < n"
      then show "key xs i \<le> key xs c"
        using stop(2) by (cases "Less xs (?j1 + 1) ?j1") (auto simp: Less_def split: if_splits)
    qed
    with stop show ?thesis by (subst heap_down.simps) (auto simp: Let_def)
  next
    case go
    have "down_inv k n (Swap xs i ?j) ?j"
      by (rule down_inv_step [OF "1.prems"(1-3)]) (use go in \<open>auto simp: Less_def split: if_splits\<close>)
    then have "heap_above k n (heap_down (Swap xs i ?j) ?j n)"
      using "1.IH" [OF refl _ refl] go "1.prems" by (simp add: Let_def)
    with go show ?thesis by (subst heap_down.simps) (auto simp: Let_def)
  qed
qed

subsection \<open>Sift up\<close>

lemma length_heap_up [simp]: "length (heap_up xs j) = length xs"
proof (induction xs j rule: heap_up.induct)
  case (1 xs j)
  then show ?case by (subst heap_up.simps) (auto simp: Let_def)
qed

lemma payloads_heap_up [simp]: "j < length xs \<Longrightarrow> payloads (heap_up xs j) = payloads xs"
proof (induction xs j rule: heap_up.induct)
  case (1 xs j)
  then show ?case by (subst heap_up.simps) (auto simp: Let_def)
qed

definition up_inv :: "url_item list \<Rightarrow> nat \<Rightarrow> bool" where
  "up_inv xs j \<longleftrightarrow>
     (\<forall>c. 0 < c \<longrightarrow> c < length xs \<longrightarrow> c \<noteq> j \<longrightarrow> key xs (par c) \<le> key xs c) \<and>
     (\<forall>c. 0 < c \<longrightarrow> c < length xs \<longrightarrow> par c = j \<longrightarrow> 0 < j \<longrightarrow> key xs (par j) \<le> key xs c)"

lemma up_inv_other:
  "up_inv xs j \<Longrightarrow> 0 < c \<Longrightarrow> c < length xs \<Longrightarrow> c \<noteq> j \<Longrightarrow> key xs (par c) \<le> key xs c"
  unfolding up_inv_def by blast

lemma up_inv_up:
  "up_inv xs j \<Longrightarrow> 0 < c \<Longrightarrow> c < length xs \<Longrightarrow> par c = j \<Longrightarrow> 0 < j \<Longrightarrow>
     key xs (par j) \<le> key xs c"
  unfolding up_inv_def by blast

lemma up_inv_step:
  assumes inv: "up_inv xs j" and j: "0 < j" "j < length xs" "key xs j < key xs (par j)"
  shows "up_inv (Swap xs (par j) j) (par j)"
proof -
  define i where "i = par j"
  define ys where "ys = Swap xs i j"
  have ij: "i < j" "i < length xs" using j(1,2) unfolding i_def by linarith+
  have len: "length ys = length xs" by (simp add: ys_def)
  have k: "key ys c = (if c = i then key xs j else if c = j then key xs i else key xs c)"
    if "c < length xs" for c
    unfolding ys_def by (rule key_Swap [OF ij(2) j(2) that])
  have kn: "key ys c = key xs c" if "c < length xs" "c \<noteq> i" "c \<noteq> j" for c using k that by simp
  have ki: "key ys i = key xs j" and kj: "key ys j = key xs i" using k ij j(2) by simp_all
  have lt: "key xs j < key xs i" using j(3) by (simp add: i_def)
  have A: "key ys (par c) \<le> key ys c" if c: "0 < c" "c < length xs" "c \<noteq> i" for c
  proof (cases "c = j")
    case True
    then have pc: "par c = i" by (simp add: i_def)
    show ?thesis unfolding pc using True ki kj lt by simp
  next
    case cj: False
    have pc: "par c < c" using c(1) by linarith
    have J: "key xs (par c) \<le> key xs c" by (rule up_inv_other [OF inv c(1,2) cj])
    have kc: "key ys c = key xs c" by (rule kn [OF c(2,3) cj])
    consider (a) "par c = i" | (b) "par c = j" | (o) "par c \<noteq> i" "par c \<noteq> j" by blast
    then show ?thesis
    proof cases
      case a
      with kc J lt ki show ?thesis by simp
    next
      case b
      have "key xs i \<le> key xs c" unfolding i_def by (rule up_inv_up [OF inv c(1,2) b j(1)])
      then show ?thesis unfolding b kc kj .
    next
      case o
      have "par c < length xs" using pc c(2) by simp
      then show ?thesis using kn [OF _ o] kc J by simp
    qed
  qed
  have B: "key ys (par i) \<le> key ys c" if c: "0 < c" "c < length xs" "par c = i" "0 < i" for c
  proof -
    have pi: "par i < i" using c(4) by linarith
    have "i \<noteq> j" using ij by simp
    have up: "key xs (par i) \<le> key xs i" by (rule up_inv_other [OF inv c(4) ij(2) \<open>i \<noteq> j\<close>])
    have kp: "key ys (par i) = key xs (par i)" by (rule kn) (use pi ij in auto)
    have ci: "c \<noteq> i" using c(1,3) by linarith
    show ?thesis
    proof (cases "c = j")
      case True
      with kp kj up show ?thesis by simp
    next
      case False
      have "key xs i \<le> key xs c" using up_inv_other [OF inv c(1,2) False] c(3) by simp
      with kn [OF c(2) ci False] kp up show ?thesis by simp
    qed
  qed
  have "up_inv ys i" using A B len by (auto simp: up_inv_def)
  then show ?thesis by (simp add: ys_def i_def)
qed

lemma heap_up_heap_ordered: "up_inv xs j \<Longrightarrow> j < length xs \<Longrightarrow> heap_ordered (heap_up xs j)"
proof (induction xs j rule: heap_up.induct)
  case (1 xs j)
  show ?case
  proof (cases "par j = j \<or> \<not> Less xs j (par j)")
    case True
    have "heap_above 0 (length xs) xs"
    proof (cases "j = 0")
      case True
      then show ?thesis using "1.prems"(1) by (simp add: up_inv_def heap_above_def)
    next
      case False
      with True have "key xs (par j) \<le> key xs j" by (auto simp: Less_def)
      then have "key xs (par c) \<le> key xs c" if "0 < c" "c < length xs" for c
        using up_inv_other [OF "1.prems"(1) that] by (cases "c = j") auto
      then show ?thesis by (simp add: heap_above_def)
    qed
    with True show ?thesis by (subst (1 2) heap_up.simps) (simp add: Let_def)
  next
    case False
    then have j: "0 < j" "key xs j < key xs (par j)" by (auto simp: Less_def)
    have "heap_ordered (heap_up (Swap xs (par j) j) (par j))"
      using "1.IH" [OF refl False] up_inv_step [OF "1.prems"(1) j(1) "1.prems"(2) j(2)] "1.prems"(2) by simp
    with False show ?thesis by (subst (1 2) heap_up.simps) (simp add: Let_def)
  qed
qed

subsection \<open>The entry points keep the heap order and the items\<close>

lemma heap_root_least: "heap_ordered xs \<Longrightarrow> c < length xs \<Longrightarrow> key xs 0 \<le> key xs c"
proof (induction c rule: less_induct)
  case (less c)
  show ?case
  proof (cases "c = 0")
    case False
    then have "par c < c" by linarith
    then have "key xs 0 \<le> key xs (par c)" using less by simp
    also have "\<dots> \<le> key xs c" using less.prems False by (simp add: heap_above_def)
    finally show ?thesis .
  qed simp
qed

lemma down_inv_start: "heap_above (Suc i) n xs \<Longrightarrow> down_inv i n xs i"
proof -
  assume "heap_above (Suc i) n xs"
  then have "key xs (par c) \<le> key xs c" if "0 < c" "c < n" "i \<le> par c" "par c \<noteq> i" for c
    using that by (simp add: heap_above_def)
  moreover have "\<not> i \<le> par i" if "0 < i" using that by linarith
  ultimately show ?thesis by (auto simp: down_inv_def)
qed

lemma heap_init_from_ordered:
  "heap_above i (length xs) xs \<Longrightarrow> heap_ordered (heap_init_from i xs)"
proof (induction i xs rule: heap_init_from.induct)
  case (2 i xs)
  have "heap_above i (length xs) (heap_down xs i (length xs))"
    by (rule heap_down_heap_above [OF down_inv_start [OF "2.prems"]]) simp_all
  then show ?case using "2.IH" by simp
qed simp

lemma length_heap_init_from [simp]: "length (heap_init_from i xs) = length xs"
  by (induction i xs rule: heap_init_from.induct) simp_all

lemma payloads_heap_init_from [simp]: "payloads (heap_init_from i xs) = payloads xs"
  by (induction i xs rule: heap_init_from.induct) simp_all

lemma heap_Init_ordered: "heap_ordered (heap_Init xs)"
  unfolding heap_Init_def
proof (rule heap_init_from_ordered)
  have "\<not> length xs div 2 \<le> par c" if "0 < c" "c < length xs" for c using that by linarith
  then show "heap_above (length xs div 2) (length xs) xs" by (simp add: heap_above_def)
qed

lemma heap_Init_simps [simp]:
  "length (heap_Init xs) = length xs" "payloads (heap_Init xs) = payloads xs"
  by (simp_all add: heap_Init_def)

lemma heap_Push_ordered: "heap_ordered xs \<Longrightarrow> heap_ordered (heap_Push xs x)"
proof -
  assume ord: "heap_ordered xs"
  let ?ys = "Push xs x" and ?n = "length xs"
  have len: "length ?ys = Suc ?n" by (simp add: Push_def)
  have same: "?ys ! c = xs ! c" if "c < ?n" for c using that by (simp add: Push_def nth_append)
  have "key ?ys (par c) \<le> key ?ys c" if c: "0 < c" "c < Suc ?n" "c \<noteq> ?n" for c
  proof -
    have "c < ?n" "par c < ?n" using c by linarith+
    then show ?thesis using ord c by (simp add: same heap_above_def)
  qed
  moreover have "\<not> (par c = ?n \<and> 0 < c \<and> c < Suc ?n)" for c by linarith
  ultimately have "up_inv ?ys ?n" unfolding up_inv_def len by blast
  then show ?thesis using heap_up_heap_ordered [of ?ys ?n] by (simp add: heap_Push_def Let_def len)
qed

lemma heap_Push_simps [simp]:
  "length (heap_Push xs x) = Suc (length xs)"
  "payloads (heap_Push xs x) = add_mset (payload x) (payloads xs)"
  by (simp_all add: heap_Push_def Push_def Let_def) (simp add: payloads_def)

lemma heap_Pop_correct:
  assumes "heap_ordered xs" "xs \<noteq> []"
  obtains x rest where "heap_Pop xs = Returns (x, rest)" "heap_ordered rest"
    "length xs = Suc (length rest)" "payloads xs = add_mset (payload x) (payloads rest)"
    "itemURL x = itemURL (xs ! 0)" "itemDepth x = itemDepth (xs ! 0)"
proof -
  define n where "n = length xs - 1"
  define sw where "sw = Swap xs 0 n"
  define ys where "ys = heap_down sw 0 n"
  have n: "length xs = Suc n" "n < length xs" using assms(2) by (simp_all add: n_def)
  have len: "length sw = Suc n" "length ys = Suc n" by (simp_all add: sw_def ys_def n)
  have above: "heap_above (Suc 0) n sw"
  proof -
    have "key sw (par c) \<le> key sw c" if c: "0 < c" "c < n" "Suc 0 \<le> par c" for c
    proof -
      have "par c < n" "par c \<noteq> 0" using c by linarith+
      then have "sw ! par c = xs ! par c" "sw ! c = xs ! c" using c by (simp_all add: sw_def nth_Swap_other)
      then show ?thesis using assms(1) c n by (simp add: heap_above_def)
    qed
    then show ?thesis by (simp add: heap_above_def)
  qed
  have ord: "heap_above 0 n ys"
    unfolding ys_def by (rule heap_down_heap_above [OF down_inv_start [OF above]]) (simp_all add: len)
  have last: "ys ! n = sw ! n" unfolding ys_def by (rule heap_down_above) simp
  have root: "payload (sw ! n) = payload (xs ! 0)"
    using n by (cases "n = 0") (auto simp: sw_def Swap_def Let_def)
  have ne: "ys \<noteq> []" using len by auto
  have lst: "last ys = ys ! n" using ne len by (simp add: last_conv_nth)
  have "heap_Pop xs = Returns ((last ys)\<lparr>itemIndex := -1\<rparr>, butlast ys)"
    using assms(2) ne by (simp add: heap_Pop_def Pop_def Let_def ys_def sw_def n_def)
  moreover have "heap_ordered (butlast ys)"
  proof -
    have "key (butlast ys) (par c) \<le> key (butlast ys) c" if c: "0 < c" "c < n" for c
    proof -
      have "par c < n" using c by linarith
      then show ?thesis using ord c len by (simp add: heap_above_def nth_butlast)
    qed
    then show ?thesis using len by (simp add: heap_above_def)
  qed
  moreover have "payloads xs = add_mset (payload (last ys)) (payloads (butlast ys))"
  proof -
    have "payloads xs = payloads ys" using n by (simp add: ys_def sw_def)
    also have "ys = butlast ys @ [last ys]" using ne by simp
    finally show ?thesis by (simp add: payloads_def)
  qed
  ultimately show ?thesis
    using that [of "(last ys)\<lparr>itemIndex := -1\<rparr>" "butlast ys"] len n root lst last
    by (simp add: payload_def)
qed

section \<open>The queue contract\<close>

text \<open>
  A client performs a sequence of pushes and pops. \<open>queue_run\<close> is that sequence on any provider; its
  result collects the popped items in order.
\<close>

datatype ('u, 'd) queue_op = OpPush 'u 'd | OpPop

fun queue_run :: "('q \<Rightarrow> 'u \<Rightarrow> 'd \<Rightarrow> bool \<times> 'q) \<Rightarrow> ('q \<Rightarrow> (('i \<times> bool) \<times> 'q) outcome) \<Rightarrow>
    'q \<Rightarrow> ('u, 'd) queue_op list \<Rightarrow> ('i list \<times> 'q) outcome" where
  "queue_run psh pp q [] = Returns ([], q)"
| "queue_run psh pp q (OpPush u d # ops) = queue_run psh pp (snd (psh q u d)) ops"
| "queue_run psh pp q (OpPop # ops) =
     outcome_bind (pp q) (\<lambda>((i, ok), q').
       outcome_bind (queue_run psh pp q' ops) (\<lambda>(is, q'').
         Returns (if ok then i # is else is, q'')))"

locale url_queue =
  fixes psh :: "'q \<Rightarrow> 'u \<Rightarrow> 'd \<Rightarrow> bool \<times> 'q"
    and pp :: "'q \<Rightarrow> (('i \<times> bool) \<times> 'q) outcome"
    and item :: "'i \<Rightarrow> 'u \<times> 'd"
    and pending :: "'q \<Rightarrow> ('u \<times> 'd) multiset"
    and visited :: "'q \<Rightarrow> 'u set"
    and inv :: "'q \<Rightarrow> bool"
  assumes push_new:
      "inv q \<Longrightarrow> psh q u d = (True, q') \<Longrightarrow>
         u \<notin> visited q \<and> visited q' = insert u (visited q) \<and>
         pending q' = add_mset (u, d) (pending q) \<and> inv q'"
    and push_old: "psh q u d = (False, q') \<Longrightarrow> q' = q"
    and pop_returns: "inv q \<Longrightarrow> \<exists>i ok q'. pp q = Returns ((i, ok), q')"
    and pop_item:
      "inv q \<Longrightarrow> pp q = Returns ((i, True), q') \<Longrightarrow>
         pending q = add_mset (item i) (pending q') \<and> visited q' = visited q \<and> inv q'"
    and pop_empty: "inv q \<Longrightarrow> pp q = Returns ((i, False), q') \<Longrightarrow> pending q = {#} \<and> q' = q"
    and pending_once:
      "inv q \<Longrightarrow> (\<forall>u. size (filter_mset (\<lambda>p. fst p = u) (pending q)) \<le> (if u \<in> visited q then 1 else 0))"
begin

lemma push_inv: "inv q \<Longrightarrow> inv (snd (psh q u d))"
  using push_new [of q u d] push_old [of q u d] by (cases "psh q u d") (auto split: prod.splits bool.splits; metis)

lemma pop_inv: "inv q \<Longrightarrow> pp q = Returns ((i, ok), q') \<Longrightarrow> inv q'"
  using pop_item [of q i q'] pop_empty [of q i q'] by (cases ok) auto

text \<open>The number of times \<open>u\<close> can still leave the queue: once if it is pending or not yet visited.\<close>

definition budget :: "'q \<Rightarrow> 'u \<Rightarrow> nat" where
  "budget q u = size (filter_mset (\<lambda>p. fst p = u) (pending q)) + (if u \<in> visited q then 0 else 1)"

lemma budget_le_one: "inv q \<Longrightarrow> budget q u \<le> 1"
  using pending_once [of q, THEN spec, of u] unfolding budget_def by (simp split: if_splits)

lemma budget_push: "inv q \<Longrightarrow> budget (snd (psh q v d)) u = budget q u"
proof -
  assume inv: "inv q"
  obtain b q' where p: "psh q v d = (b, q')" by fastforce
  show ?thesis
  proof (cases b)
    case True
    with p inv push_new [of q v d q'] show ?thesis
      by (auto simp: budget_def)
  next
    case False
    with p push_old [of q v d q'] show ?thesis by simp
  qed
qed

lemma budget_pop:
  "inv q \<Longrightarrow> pp q = Returns ((i, True), q') \<Longrightarrow>
     budget q u = budget q' u + (if fst (item i) = u then 1 else 0)"
  using pop_item by (auto simp: budget_def)

lemma run_budget:
  "inv q \<Longrightarrow> \<exists>is q'. queue_run psh pp q ops = Returns (is, q') \<and> inv q' \<and>
     (\<forall>u. count_list (map (\<lambda>i. fst (item i)) is) u + budget q' u = budget q u)"
proof (induction ops arbitrary: q)
  case Nil
  then show ?case by simp
next
  case (Cons opn ops)
  show ?case
  proof (cases opn)
    case (OpPush u d)
    with Cons.IH [OF push_inv [OF Cons.prems, of u d]] budget_push [OF Cons.prems, of u d]
    show ?thesis by simp
  next
    case OpPop
    obtain i ok q1 where p: "pp q = Returns ((i, ok), q1)" using pop_returns [OF Cons.prems] by blast
    obtain "is" q2 where r: "queue_run psh pp q1 ops = Returns (is, q2)" "inv q2"
      "\<And>u. count_list (map (\<lambda>i. fst (item i)) is) u + budget q2 u = budget q1 u"
      using Cons.IH [OF pop_inv [OF Cons.prems p]] by blast
    show ?thesis
    proof (cases ok)
      case True
      with p r budget_pop [OF Cons.prems, of i q1] OpPop show ?thesis by auto
    next
      case False
      with p r pop_empty [OF Cons.prems, of i q1] OpPop show ?thesis by auto
    qed
  qed
qed

lemma run_never_twice:
  assumes "inv q"
  shows "\<exists>is q'. queue_run psh pp q ops = Returns (is, q') \<and> inv q' \<and>
           distinct (map (\<lambda>i. fst (item i)) is)"
proof -
  obtain "is" q' where r: "queue_run psh pp q ops = Returns (is, q')" "inv q'"
    "\<And>u. count_list (map (\<lambda>i. fst (item i)) is) u + budget q' u = budget q u"
    using run_budget [OF assms, of ops] by blast
  have "count_list (map (\<lambda>i. fst (item i)) is) u \<le> 1" for u
    using r(3) [of u] budget_le_one [OF assms, of u] by linarith
  then have "distinct (map (\<lambda>i. fst (item i)) is)" by (rule distinct_by_count)
  with r show ?thesis by blast
qed

end

text \<open>
  The queue of the crawler also promises an order: a popped item has the least depth of all pending
  ones. A client that only pops therefore sees the depths in order.
\<close>

locale depth_first_queue = url_queue psh pp item pending visited inv
  for psh :: "'q \<Rightarrow> 'u \<Rightarrow> ('d::linorder) \<Rightarrow> bool \<times> 'q"
    and pp :: "'q \<Rightarrow> (('i \<times> bool) \<times> 'q) outcome"
    and item pending visited inv +
  assumes pop_least:
    "inv q \<Longrightarrow> pp q = Returns ((i, True), q') \<Longrightarrow> p \<in># pending q \<Longrightarrow> snd (item i) \<le> snd p"
begin

lemma drain:
  "inv q \<Longrightarrow> \<exists>is q'. queue_run psh pp q (replicate n OpPop) = Returns (is, q') \<and> inv q' \<and>
     sorted (map (\<lambda>i. snd (item i)) is) \<and> mset (map item is) + pending q' = pending q \<and>
     length is = min n (size (pending q))"
proof (induction n arbitrary: q)
  case 0
  then show ?case by simp
next
  case (Suc n)
  obtain i ok q1 where p: "pp q = Returns ((i, ok), q1)" using pop_returns [OF Suc.prems] by blast
  obtain "is" q2 where r: "queue_run psh pp q1 (replicate n OpPop) = Returns (is, q2)" "inv q2"
    "sorted (map (\<lambda>i. snd (item i)) is)" "mset (map item is) + pending q2 = pending q1"
    "length is = min n (size (pending q1))"
    using Suc.IH [OF pop_inv [OF Suc.prems p]] by blast
  show ?case
  proof (cases ok)
    case True
    then have pT: "pp q = Returns ((i, True), q1)" using p by simp
    note it = pop_item [OF Suc.prems pT]
    have "snd (item i) \<le> snd (item j)" if "j \<in> set is" for j
    proof (rule pop_least [OF Suc.prems pT])
      have "item j \<in># mset (map item is)" using that by auto
      then have "item j \<in># pending q1" using r(4) by (metis union_iff)
      then show "item j \<in># pending q" using it by simp
    qed
    then show ?thesis using p r True it by (auto simp flip: r(4))
  next
    case False
    then have "pp q = Returns ((i, False), q1)" using p by simp
    note e = pop_empty [OF Suc.prems this]
    then show ?thesis using p r False by auto
  qed
qed

end

section \<open>The priority queue provides the contract\<close>

definition visitedSet :: "pqueue \<Rightarrow> string set" where
  "visitedSet q = {u. HasSeen q u}"

definition pendingItems :: "pqueue \<Rightarrow> (string \<times> int) multiset" where
  "pendingItems q = payloads (pq_items q)"

definition pq_wf :: "pqueue \<Rightarrow> bool" where
  "pq_wf q \<longleftrightarrow> heap_ordered (pq_items q) \<and>
     (\<forall>u. count (image_mset fst (pendingItems q)) u \<le> (if HasSeen q u then 1 else 0))"

lemma size_filter_fst: "size (filter_mset (\<lambda>p. fst p = u) M) = count (image_mset fst M) u"
  by (induction M) auto

lemma pq_wf_New: "pq_wf (NewPriorityQueueWithMaxSize n)"
  by (simp add: pq_wf_def NewPriorityQueueWithMaxSize_def pendingItems_def payloads_def
      heap_Init_def heap_above_def)

lemma PushURL_new:
  assumes "pq_wf q" "PushURL q u d = (True, q')"
  shows "u \<notin> visitedSet q \<and> visitedSet q' = insert u (visitedSet q) \<and>
    pendingItems q' = add_mset (u, d) (pendingItems q) \<and> pq_wf q'"
proof -
  have g: "\<not> HasSeen q u" and q': "q' = q\<lparr>pq_seen := (pq_seen q)(u \<mapsto> True),
      pq_items := heap_Push (pq_items q) \<lparr>itemURL = u, itemDepth = d, itemIndex = 0\<rparr>\<rparr>"
    using assms(2) by (auto simp: PushURL_def split: if_splits)
  have seen: "HasSeen q' v \<longleftrightarrow> v = u \<or> HasSeen q v" for v by (simp add: q' HasSeen_def)
  have pend: "pendingItems q' = add_mset (u, d) (pendingItems q)"
    by (simp add: q' pendingItems_def payload_def)
  have "heap_ordered (pq_items q')"
    using heap_Push_ordered assms(1) by (simp add: q' pq_wf_def)
  moreover have "count (image_mset fst (pendingItems q')) v \<le> (if HasSeen q' v then 1 else 0)" for v
  proof -
    have "count (image_mset fst (pendingItems q)) v \<le> (if HasSeen q v then 1 else 0)"
      using assms(1) unfolding pq_wf_def by blast
    then show ?thesis using g by (auto simp add: pend seen simp del: count_eq_zero_iff)
  qed
  ultimately have "pq_wf q'" by (simp add: pq_wf_def)
  with g seen pend show ?thesis by (auto simp: visitedSet_def)
qed

lemma PopURL_cases:
  assumes "pq_wf q"
  obtains (empty) "pq_items q = []" "PopURL q = Returns ((\<lparr>itemURL = [], itemDepth = 0, itemIndex = 0\<rparr>, False), q)"
  | (item) i q' where "PopURL q = Returns ((i, True), q')" "pq_wf q'" "visitedSet q' = visitedSet q"
    "pendingItems q = add_mset (payload i) (pendingItems q')" "Size q = Suc (Size q')"
    "\<And>p. p \<in># pendingItems q \<Longrightarrow> itemDepth i \<le> snd p"
proof (cases "pq_items q = []")
  case True
  then show ?thesis using empty by (simp add: PopURL_def)
next
  case False
  have ord: "heap_ordered (pq_items q)" using assms by (simp add: pq_wf_def)
  obtain i rest where h: "heap_Pop (pq_items q) = Returns (i, rest)" "heap_ordered rest"
    "length (pq_items q) = Suc (length rest)"
    "payloads (pq_items q) = add_mset (payload i) (payloads rest)"
    "itemDepth i = itemDepth (pq_items q ! 0)"
    using heap_Pop_correct [OF ord False] by metis
  define q' where "q' = q\<lparr>pq_items := rest\<rparr>"
  have pend: "pendingItems q = add_mset (payload i) (pendingItems q')"
    by (simp add: pendingItems_def q'_def h(4))
  have "count (image_mset fst (pendingItems q')) v \<le> (if HasSeen q' v then 1 else 0)" for v
  proof -
    have "count (image_mset fst (pendingItems q)) v \<le> (if HasSeen q v then 1 else 0)"
      using assms by (simp add: pq_wf_def)
    then show ?thesis by (auto simp: pend HasSeen_def q'_def split: if_splits)
  qed
  then have wf: "pq_wf q'" using h(2) by (simp add: pq_wf_def q'_def)
  have least: "itemDepth i \<le> snd p" if "p \<in># pendingItems q" for p
  proof -
    obtain x where "x \<in> set (pq_items q)" "p = payload x"
      using \<open>p \<in># pendingItems q\<close> by (auto simp: pendingItems_def payloads_def)
    then show ?thesis
      using heap_root_least [OF ord] h(5) by (auto simp: payload_def in_set_conv_nth)
  qed
  show ?thesis
    by (rule item [of i q']) (use False h wf pend least in
      \<open>auto simp: PopURL_def q'_def visitedSet_def HasSeen_def Size_def\<close>)
qed

interpretation pq: depth_first_queue PushURL PopURL payload pendingItems visitedSet pq_wf
proof unfold_locales
  fix q u d q' assume "pq_wf q" "PushURL q u d = (True, q')"
  then show "u \<notin> visitedSet q \<and> visitedSet q' = insert u (visitedSet q) \<and>
      pendingItems q' = add_mset (u, d) (pendingItems q) \<and> pq_wf q'"
    by (rule PushURL_new)
next
  fix q u d q' assume "PushURL q u d = (False, q')"
  then show "q' = q" by (auto simp: PushURL_def split: if_splits)
next
  fix q assume "pq_wf q"
  then show "\<exists>i ok q'. PopURL q = Returns ((i, ok), q')" by (cases rule: PopURL_cases) auto
next
  fix q i q' assume "pq_wf q" "PopURL q = Returns ((i, True), q')"
  then show "pendingItems q = add_mset (payload i) (pendingItems q') \<and>
      visitedSet q' = visitedSet q \<and> pq_wf q'"
    by (cases rule: PopURL_cases) auto
next
  fix q i q' assume "pq_wf q" "PopURL q = Returns ((i, False), q')"
  then show "pendingItems q = {#} \<and> q' = q"
    by (cases rule: PopURL_cases) (auto simp: pendingItems_def payloads_def)
next
  fix q assume "pq_wf q"
  then show "\<forall>u. size (filter_mset (\<lambda>p. fst p = u) (pendingItems q)) \<le> (if u \<in> visitedSet q then 1 else 0)"
    by (simp add: pq_wf_def size_filter_fst visitedSet_def)
next
  fix q i q' p assume "pq_wf q" "PopURL q = Returns ((i, True), q')" "p \<in># pendingItems q"
  then show "snd (payload i) \<le> snd p"
    by (cases rule: PopURL_cases) (auto simp: payload_def)
qed

lemma pq_wf_Load:
  assumes "distinct (map itemURL items)" "\<forall>it \<in> set items. visited (itemURL it) = Some True"
  shows "pq_wf (LoadFromCheckpoint q items visited)"
proof -
  have pend: "pendingItems (LoadFromCheckpoint q items visited) = payloads items"
    by (simp add: pendingItems_def LoadFromCheckpoint_def)
  have urls: "image_mset fst (payloads items) = mset (map itemURL items)"
    by (simp add: payloads_def payload_def image_mset.compositionality comp_def)
  have cnt: "count (mset (map itemURL items)) u \<le> (if visited u = Some True then 1 else 0)" for u
  proof (cases "u \<in> set (map itemURL items)")
    case True
    then have "visited u = Some True" using assms(2) by auto
    moreover have "count (mset (map itemURL items)) u = 1"
      using True assms(1) by (simp add: distinct_count_atmost_1 del: set_map mset_map)
    ultimately show ?thesis by simp
  next
    case False
    then have "count (mset (map itemURL items)) u = 0"
      by (rule count_mset_0_iff [THEN iffD2])
    then show ?thesis by simp
  qed
  have seen: "HasSeen (LoadFromCheckpoint q items visited) u \<longleftrightarrow> visited u = Some True" for u
    by (simp add: HasSeen_def LoadFromCheckpoint_def)
  have "heap_ordered (pq_items (LoadFromCheckpoint q items visited))"
    using heap_Init_ordered by (simp add: LoadFromCheckpoint_def)
  then show ?thesis unfolding pq_wf_def pend urls seen using cnt by blast
qed

text \<open>The ledger of a run: how many accepted URLs have left the queue so far.\<close>

definition pq_ledger :: "int \<Rightarrow> nat \<Rightarrow> pqueue \<Rightarrow> bool" where
  "pq_ledger n k q \<longleftrightarrow> pq_wf q \<and> pq_maxSize q = n \<and> int (Size q) \<le> max 0 n \<and>
     finite (visitedSet q) \<and> card (visitedSet q) = k + Size q"

lemma pq_ledger_push: "pq_ledger n k q \<Longrightarrow> pq_ledger n k (snd (PushURL q u d))"
proof -
  assume L: "pq_ledger n k q"
  show ?thesis
  proof (cases "fst (PushURL q u d)")
    case True
    then have p: "PushURL q u d = (True, snd (PushURL q u d))" by (metis prod.collapse)
    have "Size (snd (PushURL q u d)) = Suc (Size q) \<and> int (Suc (Size q)) \<le> max 0 n \<and>
          pq_maxSize (snd (PushURL q u d)) = n"
      using True L by (auto simp: PushURL_def Size_def pq_ledger_def split: if_splits)
    then show ?thesis using PushURL_new [OF _ p] L by (simp add: pq_ledger_def)
  next
    case False
    then have "snd (PushURL q u d) = q" by (auto simp: PushURL_def)
    with L show ?thesis by simp
  qed
qed

lemma PopURL_maxSize: "PopURL q = Returns (r, q') \<Longrightarrow> pq_maxSize q' = pq_maxSize q"
  by (auto simp: PopURL_def outcome_bind_Returns_iff split: if_splits)

lemma pq_ledger_run:
  "pq_ledger n k q \<Longrightarrow> \<exists>is q'. queue_run PushURL PopURL q ops = Returns (is, q') \<and>
     pq_ledger n (k + length is) q'"
proof (induction ops arbitrary: q k)
  case Nil
  then show ?case by simp
next
  case (Cons opn ops)
  show ?case
  proof (cases opn)
    case (OpPush u d)
    then show ?thesis using Cons.IH [OF pq_ledger_push [OF Cons.prems]] by simp
  next
    case OpPop
    have wf: "pq_wf q" using Cons.prems by (simp add: pq_ledger_def)
    show ?thesis
      using wf
    proof (cases rule: PopURL_cases)
      case empty
      then show ?thesis using Cons.IH [OF Cons.prems] OpPop by auto
    next
      case (item i q1)
      then have "pq_ledger n (Suc k) q1"
        using Cons.prems PopURL_maxSize [OF item(1)] by (simp add: pq_ledger_def)
      from Cons.IH [OF this] item(1) OpPop show ?thesis by auto
    qed
  qed
qed

section \<open>Properties\<close>

text \<open>C1: Starting from a fresh queue of any size limit, whatever sequence of \<open>PushURL\<close> and
  \<open>PopURL\<close> calls the crawler makes, no call panics and no URL is handed out twice.\<close>
theorem PQ_never_dispatches_twice:
  "\<exists>is q. queue_run PushURL PopURL (NewPriorityQueueWithMaxSize n) ops = Returns (is, q) \<and>
     distinct (map itemURL is)"
  using pq.run_never_twice [OF pq_wf_New, of n ops] by (auto simp: payload_def)

text \<open>C2: Restoring a checkpoint whose items have distinct visited URLs and popping until the queue is
  empty hands out exactly the checkpoint's items, in order of depth.\<close>
theorem PQ_checkpoint_drains_by_depth:
  assumes "distinct (map itemURL items)" "\<forall>it \<in> set items. visited (itemURL it) = Some True"
  shows "\<exists>is q'. queue_run PushURL PopURL (LoadFromCheckpoint q items visited)
             (replicate (length items) OpPop) = Returns (is, q') \<and>
           sorted (map itemDepth is) \<and> mset (map payload is) = mset (map payload items) \<and>
           Size q' = 0"
proof -
  let ?q = "LoadFromCheckpoint q items visited"
  have pend: "pendingItems ?q = payloads items" by (simp add: pendingItems_def LoadFromCheckpoint_def)
  obtain "is" q' where r: "queue_run PushURL PopURL ?q (replicate (length items) OpPop) = Returns (is, q')"
    "sorted (map (\<lambda>i. snd (payload i)) is)" "mset (map payload is) + pendingItems q' = payloads items"
    "length is = min (length items) (size (payloads items))"
    using pq.drain [OF pq_wf_Load [OF assms], of q "length items"] unfolding pend by blast
  have "size (payloads items) = length items" by (simp add: payloads_def)
  with r(3,4) have "size (pendingItems q') = 0"
    by (metis add_cancel_left_right min.idem length_map size_mset size_union)
  then have "pendingItems q' = {#}" by simp
  then show ?thesis using r by (auto simp: payload_def payloads_def Size_def pendingItems_def)
qed

theorem PQ_checkpoint_drains_by_depth_witness:
  "\<exists>is q'. queue_run PushURL PopURL
       (LoadFromCheckpoint NewPriorityQueue
          [\<lparr>itemURL = ''b'', itemDepth = 2, itemIndex = 0\<rparr>, \<lparr>itemURL = ''a'', itemDepth = 1, itemIndex = 1\<rparr>]
          [''a'' \<mapsto> True, ''b'' \<mapsto> True]) (replicate 2 OpPop) = Returns (is, q') \<and>
     sorted (map itemDepth is) \<and> mset (map payload is) = {#(''b'', 2), (''a'', 1)#} \<and> Size q' = 0"
  using PQ_checkpoint_drains_by_depth
    [of "[\<lparr>itemURL = ''b'', itemDepth = 2, itemIndex = 0\<rparr>, \<lparr>itemURL = ''a'', itemDepth = 1, itemIndex = 1\<rparr>]"
        "[''a'' \<mapsto> True, ''b'' \<mapsto> True]" NewPriorityQueue]
  by (simp add: payload_def numeral_2_eq_2 add_mset_commute)

text \<open>From a fresh queue with limit \<open>n\<close>, after any sequence of calls the queue is within its limit
  and every URL ever accepted is either still pending or was handed out: none is lost.\<close>
theorem PQ_bounded_and_lossless:
  "\<exists>is q. queue_run PushURL PopURL (NewPriorityQueueWithMaxSize n) ops = Returns (is, q) \<and>
     int (Size q) \<le> max 0 n \<and> finite (visitedSet q) \<and> card (visitedSet q) = length is + Size q"
proof -
  have "pq_ledger n 0 (NewPriorityQueueWithMaxSize n)"
    using pq_wf_New [of n]
    by (simp add: pq_ledger_def NewPriorityQueueWithMaxSize_def visitedSet_def HasSeen_def Size_def)
  from pq_ledger_run [OF this, of ops] show ?thesis by (auto simp: pq_ledger_def)
qed

end
