(* ===== verification/GoStrings.thy ===== *)
theory GoStrings
  imports Prelude
begin

text \<open>
  The operations of Go's package \<open>strings\<close> (and the byte operations of package \<open>bytes\<close> with the
  same names) that the crawler uses, on strings as lists of bytes. A Go string is a sequence of
  bytes and \<open>len\<close> counts bytes, so a \<open>char\<close> here is one byte.
  \<open>ToLower\<close> and \<open>TrimSpace\<close> are modelled on the ASCII range: bytes of multi-byte UTF-8 sequences
  are left as they are. This theory is the library the components share; nothing here is code of
  the repository.
\<close>

section \<open>Prefixes, suffixes and search\<close>

fun has_prefix :: "string \<Rightarrow> string \<Rightarrow> bool" where
  "has_prefix s [] \<longleftrightarrow> True"
| "has_prefix [] (p # ps) \<longleftrightarrow> False"
| "has_prefix (c # s) (p # ps) \<longleftrightarrow> c = p \<and> has_prefix s ps"

definition has_suffix :: "string \<Rightarrow> string \<Rightarrow> bool" where
  "has_suffix s p \<longleftrightarrow> has_prefix (rev s) (rev p)"

fun index_of :: "string \<Rightarrow> string \<Rightarrow> nat option" where
  "index_of [] p = (if p = [] then Some 0 else None)"
| "index_of (c # s) p =
     (if has_prefix (c # s) p then Some 0 else map_option Suc (index_of s p))"

definition contains :: "string \<Rightarrow> string \<Rightarrow> bool" where
  "contains s p \<longleftrightarrow> index_of s p \<noteq> None"

fun index_byte :: "string \<Rightarrow> char \<Rightarrow> nat option" where
  "index_byte [] c = None"
| "index_byte (x # s) c = (if x = c then Some 0 else map_option Suc (index_byte s c))"

fun last_index_byte :: "string \<Rightarrow> char \<Rightarrow> nat option" where
  "last_index_byte [] c = None"
| "last_index_byte (x # s) c =
     (case last_index_byte s c of
        Some i \<Rightarrow> Some (Suc i)
      | None \<Rightarrow> if x = c then Some 0 else None)"

definition trim_prefix :: "string \<Rightarrow> string \<Rightarrow> string" where
  "trim_prefix s p = (if has_prefix s p then drop (length p) s else s)"

definition trim_suffix :: "string \<Rightarrow> string \<Rightarrow> string" where
  "trim_suffix s p = (if has_suffix s p then take (length s - length p) s else s)"

lemma has_prefix_iff: "has_prefix s p \<longleftrightarrow> (\<exists>r. s = p @ r)"
  by (induction s p rule: has_prefix.induct) auto

lemma has_prefix_length: "has_prefix s p \<Longrightarrow> length p \<le> length s"
  by (auto simp: has_prefix_iff)

lemma has_prefix_prefix: "has_prefix s p \<longleftrightarrow> prefix p s"
  by (simp add: has_prefix_iff prefix_def)

lemma has_prefix_append [simp]: "has_prefix (p @ r) p"
  by (auto simp: has_prefix_iff)

lemma has_prefix_self [simp]: "has_prefix p p"
  by (auto simp: has_prefix_iff)

lemma has_prefix_Cons1: "has_prefix s [c] \<longleftrightarrow> (\<exists>r. s = c # r)"
  by (cases s) auto

lemma has_suffix_iff: "has_suffix s p \<longleftrightarrow> (\<exists>r. s = r @ p)"
proof
  assume "has_suffix s p"
  then obtain r where "rev s = rev p @ r"
    by (auto simp: has_suffix_def has_prefix_iff)
  then have "rev (rev s) = rev (rev p @ r)" by simp
  then have "s = rev r @ p" by simp
  then show "\<exists>r. s = r @ p" ..
next
  assume "\<exists>r. s = r @ p"
  then show "has_suffix s p"
    by (auto simp: has_suffix_def)
qed

lemma has_suffix_append [simp]: "has_suffix (r @ p) p"
  by (auto simp: has_suffix_iff)

lemma has_suffix_self [simp]: "has_suffix p p"
  by (simp add: has_suffix_def)

lemma has_suffix_single: "has_suffix s [c] \<longleftrightarrow> s \<noteq> [] \<and> last s = c"
  by (metis append_butlast_last_id has_suffix_iff last_snoc snoc_eq_iff_butlast)

lemma contains_iff: "contains s p \<longleftrightarrow> (\<exists>a b. s = a @ p @ b)"
proof (induction s)
  case Nil
  then show ?case by (simp add: contains_def)
next
  case (Cons c s)
  show ?case
  proof (cases "has_prefix (c # s) p")
    case True
    then obtain b where "c # s = [] @ p @ b" by (auto simp: has_prefix_iff)
    then have "\<exists>a b. c # s = a @ p @ b" by blast
    with True show ?thesis by (simp add: contains_def)
  next
    case False
    then have no: "\<nexists>b. c # s = p @ b" by (auto simp: has_prefix_iff)
    have "contains (c # s) p \<longleftrightarrow> contains s p" using False by (simp add: contains_def)
    also have "\<dots> \<longleftrightarrow> (\<exists>a b. s = a @ p @ b)" by (rule Cons.IH)
    also have "\<dots> \<longleftrightarrow> (\<exists>a b. c # s = a @ p @ b)" using no by (metis append_Cons append_Nil list.exhaust list.inject)
    finally show ?thesis .
  qed
qed

lemma contains_sublist: "contains s p \<longleftrightarrow> sublist p s"
  by (simp add: contains_iff sublist_def)

lemma contains_single: "contains s [c] \<longleftrightarrow> c \<in> set s"
  by (auto simp: contains_iff in_set_conv_decomp)

lemma contains_Nil [simp]: "contains s []"
  by (simp add: contains_sublist)

lemma index_of_SomeD: "index_of s p = Some i \<Longrightarrow> has_prefix (drop i s) p \<and> i \<le> length s"
  by (induction s arbitrary: i) (auto split: if_splits)

lemma index_byte_Some: "index_byte s c = Some i \<Longrightarrow> i < length s \<and> s ! i = c \<and> c \<notin> set (take i s)"
  by (induction s arbitrary: i) (auto split: if_splits)

lemma index_byte_None: "index_byte s c = None \<longleftrightarrow> c \<notin> set s"
  by (induction s) auto

lemma last_index_byte_None: "last_index_byte s c = None \<longleftrightarrow> c \<notin> set s"
  by (induction s) (auto split: option.splits)

lemma last_index_byte_Some:
  "last_index_byte s c = Some i \<Longrightarrow> i < length s \<and> s ! i = c \<and> c \<notin> set (drop (Suc i) s)"
proof (induction s arbitrary: i)
  case Nil
  then show ?case by simp
next
  case (Cons x s)
  show ?case
  proof (cases "last_index_byte s c")
    case None
    with Cons.prems show ?thesis by (auto simp: last_index_byte_None split: if_splits)
  next
    case (Some j)
    with Cons show ?thesis by auto
  qed
qed

lemma trim_prefix_length: "length (trim_prefix s p) \<le> length s"
  by (simp add: trim_prefix_def)

lemma trim_suffix_snoc [simp]: "trim_suffix (s @ p) p = s"
  by (simp add: trim_suffix_def)

section \<open>Splitting and joining\<close>

text \<open>\<open>strings.Split(s, sep)\<close> for a one-byte separator, the only kind the paths use.\<close>

fun split_byte :: "char \<Rightarrow> string \<Rightarrow> string list" where
  "split_byte c [] = [[]]"
| "split_byte c (x # s) =
     (if x = c then [] # split_byte c s
      else (case split_byte c s of [] \<Rightarrow> [[x]] | y # ys \<Rightarrow> (x # y) # ys))"

fun join :: "string \<Rightarrow> string list \<Rightarrow> string" where
  "join sep [] = []"
| "join sep [x] = x"
| "join sep (x # y # ys) = x @ sep @ join sep (y # ys)"

lemma split_byte_nonempty [simp]: "split_byte c s \<noteq> []"
  by (induction s) (auto split: list.splits)

lemma join_Cons: "ys \<noteq> [] \<Longrightarrow> join sep (x # ys) = x @ sep @ join sep ys"
  by (cases ys) auto

lemma join_append: "xs \<noteq> [] \<Longrightarrow> ys \<noteq> [] \<Longrightarrow> join sep (xs @ ys) = join sep xs @ sep @ join sep ys"
proof (induction xs)
  case (Cons x xs)
  then show ?case by (cases "xs = []") (simp_all add: join_Cons)
qed simp

lemma join_split_byte [simp]: "join [c] (split_byte c s) = s"
proof (induction s)
  case Nil
  then show ?case by simp
next
  case (Cons x s)
  obtain y ys where sp: "split_byte c s = y # ys"
    by (cases "split_byte c s") auto
  from Cons sp show ?case by (cases ys) (auto simp: join_Cons)
qed

lemma split_byte_no_sep: "p \<in> set (split_byte c s) \<Longrightarrow> c \<notin> set p"
proof (induction s arbitrary: p)
  case Nil
  then show ?case by simp
next
  case (Cons x s)
  obtain y ys where sp: "split_byte c s = y # ys"
    by (cases "split_byte c s") auto
  from Cons sp show ?case by (auto split: if_splits)
qed

lemma split_byte_notin: "c \<notin> set s \<Longrightarrow> split_byte c s = [s]"
  by (induction s) auto

lemma split_byte_append_sep:
  "c \<notin> set a \<Longrightarrow> split_byte c (a @ c # b) = a # split_byte c b"
  by (induction a) auto

lemma split_byte_append: "split_byte c (a @ c # b) = split_byte c a @ split_byte c b"
proof (induction a)
  case (Cons x a)
  obtain y ys where "split_byte c a = y # ys" by (cases "split_byte c a") auto
  with Cons show ?case by simp
qed simp

lemma split_byte_append_notin:
  "c \<notin> set a \<Longrightarrow> split_byte c (a @ b) = (a @ hd (split_byte c b)) # tl (split_byte c b)"
proof (induction a)
  case Nil
  then show ?case by simp
next
  case (Cons x a)
  then have "x \<noteq> c" "c \<notin> set a" by auto
  with Cons.IH show ?case by simp
qed

lemma split_byte_join:
  "xs \<noteq> [] \<Longrightarrow> (\<And>x. x \<in> set xs \<Longrightarrow> c \<notin> set x) \<Longrightarrow> split_byte c (join [c] xs) = xs"
proof (induction xs)
  case Nil
  then show ?case by simp
next
  case (Cons x xs)
  show ?case
  proof (cases "xs = []")
    case True
    with Cons.prems show ?thesis by (simp add: split_byte_notin)
  next
    case False
    then have "split_byte c (join [c] (x # xs)) = split_byte c (x @ c # join [c] xs)"
      by (simp add: join_Cons)
    also have "\<dots> = x # split_byte c (join [c] xs)"
      using Cons.prems(2) by (simp add: split_byte_append_sep)
    also have "\<dots> = x # xs" using Cons False by simp
    finally show ?thesis .
  qed
qed

lemma set_join_byte: "set (join [c] xs) \<subseteq> {c} \<union> (\<Union>x\<in>set xs. set x)"
  by (induction "[c]" xs rule: join.induct) auto

lemma set_split_byte_sub: "p \<in> set (split_byte c s) \<Longrightarrow> set p \<subseteq> set s"
proof (induction s arbitrary: p)
  case Nil
  then show ?case by simp
next
  case (Cons x s)
  obtain y ys where sp: "split_byte c s = y # ys"
    by (cases "split_byte c s") auto
  from Cons sp show ?case by (fastforce split: if_splits)
qed

text \<open>\<open>strings.Split(s, sep)\<close> for a non-empty separator.\<close>

function split_str :: "string \<Rightarrow> string \<Rightarrow> string list" where
  "split_str sep s =
     (if sep = [] then [s]
      else case index_of s sep of
             None \<Rightarrow> [s]
           | Some i \<Rightarrow> take i s # split_str sep (drop (i + length sep) s))"
  by pat_completeness auto
termination
proof (relation "measure (\<lambda>(sep, s). length s)")
  fix sep s :: string and i
  assume a: "sep \<noteq> []" "index_of s sep = Some i"
  then have "has_prefix (drop i s) sep" using index_of_SomeD by blast
  then have "length sep \<le> length s - i" using has_prefix_length by fastforce
  moreover have "0 < length sep" using a by simp
  ultimately have "length s - (i + length sep) < length s" by linarith
  then show "((sep, drop (i + length sep) s), (sep, s)) \<in> measure (\<lambda>(sep, s). length s)" by simp
qed simp

declare split_str.simps [simp del]

lemma split_str_nonempty [simp]: "split_str sep s \<noteq> []"
  by (subst split_str.simps) (simp split: option.split)

section \<open>Replacement\<close>

text \<open>
  \<open>strings.ReplaceAll(s, old, new)\<close> for a non-empty \<open>old\<close>: the occurrences are taken from the left
  and do not overlap. (Go inserts \<open>new\<close> between all characters for an empty \<open>old\<close>; the code never
  passes one, and the model leaves the string alone there.)
\<close>

function replace_all :: "string \<Rightarrow> string \<Rightarrow> string \<Rightarrow> string" where
  "replace_all [] old new = []"
| "replace_all (c # s) old new =
     (if old \<noteq> [] \<and> has_prefix (c # s) old
      then new @ replace_all (drop (length old) (c # s)) old new
      else c # replace_all s old new)"
  by pat_completeness auto
termination
  by (relation "measure (\<lambda>(s, old, new). length s)") (auto simp: neq_Nil_conv)

lemma replace_all_byte: "replace_all s [a] [b] = map (\<lambda>c. if c = a then b else c) s"
proof (induction s)
  case Nil
  then show ?case by simp
next
  case (Cons c s)
  then show ?case by simp
qed

lemma replace_all_no_occurrence: "\<not> contains s old \<Longrightarrow> replace_all s old new = s"
proof (induction s old new rule: replace_all.induct)
  case (1 old new)
  then show ?case by simp
next
  case (2 c s old new)
  then have "\<not> has_prefix (c # s) old" and "\<not> contains s old"
    by (auto simp: contains_def split: if_splits)
  with 2 show ?case by simp
qed

lemma length_replace_all_le:
  "length new \<le> length old \<Longrightarrow> length (replace_all s old new) \<le> length s"
proof (induction s old new rule: replace_all.induct)
  case (2 c s old new)
  show ?case
  proof (cases "old \<noteq> [] \<and> has_prefix (c # s) old")
    case True
    then have "length old \<le> length (c # s)" using has_prefix_length by blast
    moreover have "length (replace_all (drop (length old) (c # s)) old new) \<le> length (c # s) - length old"
      using "2.IH"(1) [OF True "2.prems"] by simp
    ultimately show ?thesis using True "2.prems" by simp
  next
    case False
    with 2 have "length (replace_all s old new) \<le> length s" by blast
    then show ?thesis unfolding replace_all.simps using False by (simp only: if_False) simp
  qed
qed simp

lemma length_replace_all_less:
  "length new < length old \<Longrightarrow> contains s old \<Longrightarrow> length (replace_all s old new) < length s"
proof (induction s old new rule: replace_all.induct)
  case (1 old new)
  then show ?case by (simp add: contains_sublist)
next
  case (2 c s old new)
  show ?case
  proof (cases "old \<noteq> [] \<and> has_prefix (c # s) old")
    case True
    then have "length old \<le> length (c # s)" using has_prefix_length by blast
    moreover have "length (replace_all (drop (length old) (c # s)) old new) \<le> length (c # s) - length old"
      using length_replace_all_le [of new old "drop (length old) (c # s)"] "2.prems"(1) by simp
    ultimately show ?thesis using True "2.prems" by simp
  next
    case False
    moreover have "contains s old"
      using "2.prems" False by (auto simp: contains_def split: if_splits)
    ultimately show ?thesis using 2 by auto
  qed
qed

lemma replace_all_prefix: "old \<noteq> [] \<Longrightarrow> replace_all (old @ s) old new = new @ replace_all s old new"
  by (cases old) simp_all

lemma replace_all_ne: "new \<noteq> [] \<Longrightarrow> s \<noteq> [] \<Longrightarrow> replace_all s old new \<noteq> []"
  by (cases s) auto

text \<open>Replacement works inside the pieces when the separator is in neither pattern.\<close>

lemma split_byte_replace_all:
  "old \<noteq> [] \<Longrightarrow> c \<notin> set old \<Longrightarrow> c \<notin> set new \<Longrightarrow>
     split_byte c (replace_all s old new) = map (\<lambda>p. replace_all p old new) (split_byte c s)"
proof (induction s old new rule: replace_all.induct)
  case (1 old new)
  then show ?case by simp
next
  case (2 x s old new)
  obtain y ys where sp: "split_byte c s = y # ys" by (cases "split_byte c s") auto
  show ?case
  proof (cases "has_prefix (x # s) old")
    case True
    then obtain r where r: "x # s = old @ r" by (auto simp: has_prefix_iff)
    obtain z zs where sr: "split_byte c r = z # zs" by (cases "split_byte c r") auto
    have "split_byte c (x # s) = (old @ z) # zs" using r sr 2 by (simp add: split_byte_append_notin)
    moreover have "replace_all (x # s) old new = new @ replace_all r old new"
      using r 2 by (simp add: replace_all_prefix)
    moreover have "split_byte c (replace_all r old new) = map (\<lambda>p. replace_all p old new) (z # zs)"
      using "2.IH"(1) True "2.prems" r sr by simp
    ultimately show ?thesis using 2 by (simp add: split_byte_append_notin replace_all_prefix)
  next
    case False
    have "\<not> has_prefix (x # y) old"
    proof
      assume "has_prefix (x # y) old"
      moreover have "\<exists>b. s = y @ b" using sp by (metis join_split_byte join.simps(2) append_Nil2 join_Cons list.discI)
      ultimately show False using False unfolding has_prefix_iff by (metis append_Cons append_assoc)
    qed
    with False 2 sp show ?thesis by simp
  qed
qed

section \<open>Case folding and trimming\<close>

definition lower_byte :: "char \<Rightarrow> char" where
  "lower_byte c = (if 65 \<le> (of_char c :: nat) \<and> (of_char c :: nat) \<le> 90
                   then char_of (of_char c + 32 :: nat) else c)"

definition to_lower :: "string \<Rightarrow> string" where
  "to_lower s = map lower_byte s"

lemma length_to_lower [simp]: "length (to_lower s) = length s"
  by (simp add: to_lower_def)

lemma lower_byte_not_upper:
  "\<not> (65 \<le> (of_char (lower_byte c) :: nat) \<and> (of_char (lower_byte c) :: nat) \<le> 90)"
  by (auto simp: lower_byte_def)

lemma lower_byte_idem [simp]: "lower_byte (lower_byte c) = lower_byte c"
  using lower_byte_not_upper [of c] unfolding lower_byte_def [of "lower_byte c"] by auto

lemma to_lower_idem [simp]: "to_lower (to_lower s) = to_lower s"
  by (simp add: to_lower_def)

lemma to_lower_append: "to_lower (a @ b) = to_lower a @ to_lower b"
  by (simp add: to_lower_def)

definition is_space_byte :: "char \<Rightarrow> bool" where
  "is_space_byte c \<longleftrightarrow> (of_char c :: nat) \<in> {9, 10, 11, 12, 13, 32}"

definition trim_left_by :: "(char \<Rightarrow> bool) \<Rightarrow> string \<Rightarrow> string" where
  "trim_left_by P s = dropWhile P s"

definition trim_by :: "(char \<Rightarrow> bool) \<Rightarrow> string \<Rightarrow> string" where
  "trim_by P s = rev (dropWhile P (rev (dropWhile P s)))"

definition trim_space :: "string \<Rightarrow> string" where
  "trim_space s = trim_by is_space_byte s"

lemma trim_by_sub: "\<exists>a b. s = a @ trim_by P s @ b"
proof -
  let ?t = "dropWhile P s"
  have "?t = trim_by P s @ rev (takeWhile P (rev ?t))"
    unfolding trim_by_def by (metis rev_append rev_rev_ident takeWhile_dropWhile_id)
  moreover have "s = takeWhile P s @ ?t" by simp
  ultimately show ?thesis by metis
qed

lemma trim_by_id: "s = [] \<or> \<not> P (hd s) \<and> \<not> P (last s) \<Longrightarrow> trim_by P s = s"
  by (cases s) (auto simp: trim_by_def hd_rev [symmetric] dropWhile_eq_self_iff)

end
