(* ===== verification/GoNetURL.thy ===== *)
theory GoNetURL
  imports GoStrings "HOL-Library.Char_ord" "HOL-Library.List_Lexorder"
begin

text \<open>
  The parts of Go's package \<open>net/url\<close> (release 1.26, the one go.mod names) that the crawler uses:
  \<open>Parse\<close>, \<open>Hostname\<close>, \<open>Port\<close>, \<open>PathUnescape\<close>, \<open>QueryUnescape\<close>, \<open>ParseQuery\<close> and \<open>Encode\<close>, on byte
  strings. Callers only test whether an error is nil, so a failing function returns \<open>None\<close>. Nothing
  here is code of the repository: it is the standard library the components are modelled over.
\<close>

section \<open>Bytes\<close>

abbreviation byte_of :: "char \<Rightarrow> nat" where
  "byte_of c \<equiv> of_char c"

definition is_lower :: "char \<Rightarrow> bool" where
  "is_lower c \<longleftrightarrow> 97 \<le> byte_of c \<and> byte_of c \<le> 122"

definition is_upper :: "char \<Rightarrow> bool" where
  "is_upper c \<longleftrightarrow> 65 \<le> byte_of c \<and> byte_of c \<le> 90"

definition is_digit :: "char \<Rightarrow> bool" where
  "is_digit c \<longleftrightarrow> 48 \<le> byte_of c \<and> byte_of c \<le> 57"

definition is_alnum :: "char \<Rightarrow> bool" where
  "is_alnum c \<longleftrightarrow> is_lower c \<or> is_upper c \<or> is_digit c"

definition unhex :: "char \<Rightarrow> nat option" where
  "unhex c =
     (if is_digit c then Some (byte_of c - 48)
      else if 97 \<le> byte_of c \<and> byte_of c \<le> 102 then Some (byte_of c - 97 + 10)
      else if 65 \<le> byte_of c \<and> byte_of c \<le> 70 then Some (byte_of c - 65 + 10)
      else None)"

definition upperhex :: "nat \<Rightarrow> char" where
  "upperhex n = char_of (if n < 10 then 48 + n else 55 + n)"

section \<open>Escaping\<close>

datatype encoding =
    EncodePath | EncodePathSegment | EncodeHost | EncodeZone | EncodeUserPassword
  | EncodeQueryComponent | EncodeFragment

definition host_marks :: string where
  "host_marks = CHR 0x22 # CHR 0x27 # ''!$&()*+,;=:[]<>''"

definition should_escape :: "char \<Rightarrow> encoding \<Rightarrow> bool" where
  "should_escape c mode =
     (if is_alnum c then False
      else if (mode = EncodeHost \<or> mode = EncodeZone) \<and> c \<in> set host_marks then False
      else if c \<in> set ''-_.~'' then False
      else if c \<in> set ''$&+,/:;=?@'' then
        (case mode of
           EncodePath \<Rightarrow> c = CHR ''?''
         | EncodePathSegment \<Rightarrow> c \<in> set ''/;,?''
         | EncodeUserPassword \<Rightarrow> c \<in> set ''@/?:''
         | EncodeFragment \<Rightarrow> False
         | _ \<Rightarrow> True)
      else if mode = EncodeFragment \<and> c \<in> set ''!()*'' then False
      else True)"

fun unescape :: "encoding \<Rightarrow> string \<Rightarrow> string option" where
  "unescape mode [] = Some []"
| "unescape mode (c # s) =
     (if c = CHR ''%'' then
        (case s of
           h # l # r \<Rightarrow>
             (case (unhex h, unhex l) of
                (Some x, Some y) \<Rightarrow>
                  if mode = EncodeHost \<and> x < 8 \<and> \<not> (h = CHR ''2'' \<and> l = CHR ''5'') then None
                  else if mode = EncodeZone \<and> \<not> (h = CHR ''2'' \<and> l = CHR ''5'')
                       \<and> char_of (16 * x + y) \<noteq> CHR '' '' \<and> should_escape (char_of (16 * x + y)) EncodeHost
                  then None
                  else map_option ((#) (char_of (16 * x + y))) (unescape mode r)
              | _ \<Rightarrow> None)
         | _ \<Rightarrow> None)
      else if c = CHR ''+'' then
        map_option ((#) (if mode = EncodeQueryComponent then CHR '' '' else c)) (unescape mode s)
      else if (mode = EncodeHost \<or> mode = EncodeZone) \<and> byte_of c < 128 \<and> should_escape c mode then None
      else map_option ((#) c) (unescape mode s))"

definition path_unescape :: "string \<Rightarrow> string option" where
  "path_unescape s = unescape EncodePathSegment s"

definition query_unescape :: "string \<Rightarrow> string option" where
  "query_unescape s = unescape EncodeQueryComponent s"

definition escape_byte :: "encoding \<Rightarrow> char \<Rightarrow> string" where
  "escape_byte mode c =
     (if \<not> should_escape c mode then [c]
      else if mode = EncodeQueryComponent \<and> c = CHR '' '' then ''+''
      else [CHR ''%'', upperhex (byte_of c div 16), upperhex (byte_of c mod 16)])"

definition escape :: "encoding \<Rightarrow> string \<Rightarrow> string" where
  "escape mode s = concat (map (escape_byte mode) s)"

section \<open>Cutting at a byte\<close>

text \<open>\<open>strings.Cut\<close> at a one-byte separator: before, after, found.\<close>

fun cut_byte :: "char \<Rightarrow> string \<Rightarrow> string \<times> string \<times> bool" where
  "cut_byte c [] = ([], [], False)"
| "cut_byte c (x # s) =
     (if x = c then ([], s, True)
      else (let (a, b, f) = cut_byte c s in (x # a, b, f)))"

lemma cut_byte_notin: "c \<notin> set s \<Longrightarrow> cut_byte c s = (s, [], False)"
  by (induction s) auto

lemma cut_byte_append: "c \<notin> set a \<Longrightarrow> cut_byte c (a @ c # b) = (a, b, True)"
  by (induction a) auto

lemma cut_byte_before: "cut_byte c s = (a, b, f) \<Longrightarrow> c \<notin> set a \<and> s = a @ (if f then c # b else [])"
  by (induction s arbitrary: a b f) (auto split: if_splits prod.splits)

section \<open>Hosts and ports\<close>

definition valid_optional_port :: "string \<Rightarrow> bool" where
  "valid_optional_port p \<longleftrightarrow>
     (case p of [] \<Rightarrow> True | c # ds \<Rightarrow> c = CHR '':'' \<and> list_all is_digit ds)"

text \<open>
  \<open>netip.ParseAddr\<close> on the text between the brackets: eight groups of one to four hex digits, at
  most one \<open>::\<close>, an optional dotted quad at the end and an optional non-empty zone after \<open>%\<close>. An
  IPv4 address is refused there.
\<close>

definition ip4_field :: "string \<Rightarrow> bool" where
  "ip4_field s \<longleftrightarrow> s \<noteq> [] \<and> list_all is_digit s \<and> length s \<le> 3 \<and>
     (length s > 1 \<longrightarrow> hd s \<noteq> CHR ''0'') \<and>
     foldl (\<lambda>n c. 10 * n + (byte_of c - 48)) 0 s \<le> 255"

definition is_ip4 :: "string \<Rightarrow> bool" where
  "is_ip4 s \<longleftrightarrow> (let fs = split_byte CHR ''.'' s in length fs = 4 \<and> list_all ip4_field fs)"

definition ip6_group :: "string \<Rightarrow> bool" where
  "ip6_group s \<longleftrightarrow> s \<noteq> [] \<and> length s \<le> 4 \<and> list_all (\<lambda>c. unhex c \<noteq> None) s"

text \<open>The number of 16-bit groups of a colon-separated part, if every field is one.\<close>

definition ip6_part :: "bool \<Rightarrow> string \<Rightarrow> nat option" where
  "ip6_part tail s =
     (if s = [] then Some 0
      else let fs = split_byte CHR '':'' s
           in if list_all ip6_group fs then Some (length fs)
              else if tail \<and> list_all ip6_group (butlast fs) \<and> is_ip4 (last fs) then Some (length fs + 1)
              else None)"

definition is_ip6 :: "string \<Rightarrow> bool" where
  "is_ip6 s =
     (let (addr, zone, hasZone) = cut_byte CHR ''%'' s
      in (hasZone \<longrightarrow> zone \<noteq> []) \<and>
         (case index_of addr ''::'' of
            None \<Rightarrow> ip6_part True addr = Some 8
          | Some i \<Rightarrow>
              (case (ip6_part False (take i addr), ip6_part True (drop (i + 2) addr)) of
                 (Some a, Some b) \<Rightarrow> a + b \<le> 7
               | _ \<Rightarrow> False)))"

definition parse_host :: "string \<Rightarrow> string \<Rightarrow> string option" where
  "parse_host scheme host =
     (case last_index_byte host CHR ''['' of
        Some (Suc _) \<Rightarrow> None
      | Some 0 \<Rightarrow>
          (case last_index_byte host CHR '']'' of
             None \<Rightarrow> None
           | Some close \<Rightarrow>
               (let colonPort = drop (close + 1) host;
                    hostname = drop 1 (take close host)
                in if \<not> valid_optional_port colonPort then None
                   else (case (case index_of hostname ''%25'' of
                                 Some z \<Rightarrow>
                                   (case (unescape EncodeHost (take z hostname), unescape EncodeZone (drop z hostname)) of
                                      (Some a, Some b) \<Rightarrow> Some (a @ b) | _ \<Rightarrow> None)
                               | None \<Rightarrow> unescape EncodeHost hostname) of
                           None \<Rightarrow> None
                         | Some h \<Rightarrow> if is_ip6 h then Some (''['' @ h @ '']'' @ colonPort) else None)))
      | None \<Rightarrow>
          (case (if scheme \<in> {''postgresql'', ''postgres''} then last_index_byte host CHR '':''
                 else index_byte host CHR '':'') of
             Some i \<Rightarrow> if valid_optional_port (drop i host) then unescape EncodeHost host else None
           | None \<Rightarrow> unescape EncodeHost host))"

definition valid_userinfo :: "string \<Rightarrow> bool" where
  "valid_userinfo s \<longleftrightarrow> list_all (\<lambda>c. is_alnum c \<or> c = CHR 0x27 \<or> c \<in> set ''-._:~!$&()*+,;=%@'') s"

type_synonym userinfo = "string \<times> string option"

definition parse_authority :: "string \<Rightarrow> string \<Rightarrow> (userinfo option \<times> string) option" where
  "parse_authority scheme authority =
     (case last_index_byte authority CHR ''@'' of
        None \<Rightarrow> map_option (\<lambda>h. (None, h)) (parse_host scheme authority)
      | Some i \<Rightarrow>
          (case parse_host scheme (drop (i + 1) authority) of
             None \<Rightarrow> None
           | Some h \<Rightarrow>
               (let ui = take i authority
                in if \<not> valid_userinfo ui then None
                   else case cut_byte CHR '':'' ui of (name, pass, colon) \<Rightarrow>
                     if colon then
                       (case (unescape EncodeUserPassword name, unescape EncodeUserPassword pass) of
                          (Some n, Some p) \<Rightarrow> Some (Some (n, Some p), h) | _ \<Rightarrow> None)
                     else map_option (\<lambda>n. (Some (n, None), h)) (unescape EncodeUserPassword name))))"

section \<open>Parse\<close>

record go_url =
  u_scheme :: string
  u_opaque :: string
  u_user :: "userinfo option"
  u_host :: string
  u_path :: string
  u_rawpath :: string
  u_omithost :: bool
  u_forcequery :: bool
  u_rawquery :: string
  u_fragment :: string
  u_rawfragment :: string

definition empty_url :: go_url where
  "empty_url = \<lparr>u_scheme = [], u_opaque = [], u_user = None, u_host = [], u_path = [], u_rawpath = [],
     u_omithost = False, u_forcequery = False, u_rawquery = [], u_fragment = [], u_rawfragment = []\<rparr>"

text \<open>The result of \<open>getScheme\<close>: \<open>None\<close> for a missing scheme before a colon.\<close>

fun scheme_end :: "string \<Rightarrow> nat \<Rightarrow> nat option option" where
  "scheme_end [] i = Some None"
| "scheme_end (c # s) i =
     (if is_lower c \<or> is_upper c then scheme_end s (Suc i)
      else if is_digit c \<or> c \<in> set ''+-.'' then (if i = 0 then Some None else scheme_end s (Suc i))
      else if c = CHR '':'' then (if i = 0 then None else Some (Some i))
      else Some None)"

definition get_scheme :: "string \<Rightarrow> (string \<times> string) option" where
  "get_scheme raw =
     (case scheme_end raw 0 of
        None \<Rightarrow> None
      | Some None \<Rightarrow> Some ([], raw)
      | Some (Some i) \<Rightarrow> Some (take i raw, drop (i + 1) raw))"

definition has_ctl_byte :: "string \<Rightarrow> bool" where
  "has_ctl_byte s \<longleftrightarrow> list_ex (\<lambda>c. byte_of c < 32 \<or> byte_of c = 127) s"

definition set_path :: "go_url \<Rightarrow> string \<Rightarrow> go_url option" where
  "set_path u p =
     (case unescape EncodePath p of
        None \<Rightarrow> None
      | Some path \<Rightarrow> Some (u\<lparr>u_path := path,
                              u_rawpath := (if p = escape EncodePath path then [] else p)\<rparr>))"

definition cut_query :: "string \<Rightarrow> string \<times> string \<times> bool" where
  "cut_query rest =
     (case cut_byte CHR ''?'' rest of (a, q, f) \<Rightarrow> (a, q, f \<and> q = []))"

definition parse_nofrag :: "string \<Rightarrow> go_url option" where
  "parse_nofrag raw =
     (if has_ctl_byte raw then None
      else if raw = ''*'' then Some (empty_url\<lparr>u_path := ''*''\<rparr>)
      else case get_scheme raw of None \<Rightarrow> None | Some (sch0, rest0) \<Rightarrow>
        (let sch = to_lower sch0;
             (rest, query, force) = cut_query rest0;
             u = empty_url\<lparr>u_scheme := sch, u_rawquery := query, u_forcequery := force\<rparr>
         in if \<not> has_prefix rest ''/'' \<and> sch \<noteq> [] then Some (u\<lparr>u_opaque := rest\<rparr>)
            else if \<not> has_prefix rest ''/'' \<and> CHR '':'' \<in> set (fst (cut_byte CHR ''/'' rest)) then None
            else if (sch \<noteq> [] \<or> \<not> has_prefix rest ''///'') \<and> has_prefix rest ''//'' then
              (let (authority, path, slash) = cut_byte CHR ''/'' (drop 2 rest)
               in case parse_authority sch authority of
                    None \<Rightarrow> None
                  | Some (user, host) \<Rightarrow>
                      set_path (u\<lparr>u_user := user, u_host := host\<rparr>) (if slash then CHR ''/'' # path else []))
            else set_path (u\<lparr>u_omithost := (sch \<noteq> [] \<and> has_prefix rest ''/'')\<rparr>) rest))"

definition url_parse :: "string \<Rightarrow> go_url option" where
  "url_parse raw =
     (let (r, frag, f) = cut_byte CHR ''#'' raw
      in case parse_nofrag r of
           None \<Rightarrow> None
         | Some u \<Rightarrow> if frag = [] then Some u
                     else map_option (\<lambda>x. u\<lparr>u_fragment := x,
                             u_rawfragment := (if frag = escape EncodeFragment x then [] else frag)\<rparr>) (unescape EncodeFragment frag))"

definition split_host_port :: "string \<Rightarrow> string \<times> string" where
  "split_host_port hp =
     (let (h, p) = (case last_index_byte hp CHR '':'' of
                      Some i \<Rightarrow> if valid_optional_port (drop i hp) then (take i hp, drop (i + 1) hp) else (hp, [])
                    | None \<Rightarrow> (hp, []))
      in (if has_prefix h ''['' \<and> has_suffix h '']'' then butlast (drop 1 h) else h, p))"

definition hostname :: "go_url \<Rightarrow> string" where
  "hostname u = fst (split_host_port (u_host u))"

definition port :: "go_url \<Rightarrow> string" where
  "port u = snd (split_host_port (u_host u))"

section \<open>Query strings\<close>

text \<open>
  \<open>url.Values\<close> is a map from keys to value lists; the association list keeps one entry per key and
  the values of a key in the order they were added. The flag says whether an error was met: bad
  pairs are skipped and the first error is returned with the rest of the map.
\<close>

fun values_add :: "string \<Rightarrow> string \<Rightarrow> (string \<times> string list) list \<Rightarrow> (string \<times> string list) list" where
  "values_add k v [] = [(k, [v])]"
| "values_add k v ((k', vs) # m) =
     (if k = k' then (k', vs @ [v]) # m else (k', vs) # values_add k v m)"

fun parse_pairs :: "string list \<Rightarrow> (string \<times> string list) list \<Rightarrow> bool \<Rightarrow> (string \<times> string list) list \<times> bool" where
  "parse_pairs [] m err = (m, err)"
| "parse_pairs (p # ps) m err =
     (if CHR '';'' \<in> set p then parse_pairs ps m True
      else if p = [] then parse_pairs ps m err
      else (let (k, v, eq) = cut_byte CHR ''='' p
            in case (query_unescape k, query_unescape v) of
                 (Some k', Some v') \<Rightarrow> parse_pairs ps (values_add k' v' m) err
               | _ \<Rightarrow> parse_pairs ps m True))"

definition parse_query :: "string \<Rightarrow> (string \<times> string list) list \<times> bool" where
  "parse_query q = parse_pairs (split_byte CHR ''&'' q) [] False"

definition encode_key :: "string \<times> string list \<Rightarrow> string list" where
  "encode_key kvs =
     map (\<lambda>v. escape EncodeQueryComponent (fst kvs) @ ''='' @ escape EncodeQueryComponent v) (snd kvs)"

text \<open>\<open>Values.Encode\<close> sorts the keys bytewise, as Go compares strings.\<close>

definition values_encode :: "(string \<times> string list) list \<Rightarrow> string" where
  "values_encode m = join ''&'' (concat (map encode_key (sort_key fst m)))"

section \<open>A host has no slash\<close>

lemma unhex_bound: "unhex c = Some x \<Longrightarrow> x < 16"
  by (auto simp: unhex_def is_digit_def split: if_splits)

lemma unescape_host_no_slash:
  "unescape mode s = Some t \<Longrightarrow> mode = EncodeHost \<or> mode = EncodeZone \<Longrightarrow> CHR ''/'' \<notin> set t"
proof (induction mode s arbitrary: t rule: unescape.induct)
  case (2 mode c s)
  consider (pc) "c = CHR ''%''" | (plus) "c = CHR ''+''" | (byte) "c \<noteq> CHR ''%''" "c \<noteq> CHR ''+''" by blast
  then show ?case
  proof cases
    case pc
    then obtain h l r where s: "s = h # l # r" using 2(4) by (auto split: list.splits)
    then obtain x y where xy: "unhex h = Some x" "unhex l = Some y" using 2(4) pc by (auto split: option.splits)
    have ok: "(mode = EncodeHost \<longrightarrow> 8 \<le> x \<or> (h = CHR ''2'' \<and> l = CHR ''5'')) \<and>
       (mode = EncodeZone \<longrightarrow> (h = CHR ''2'' \<and> l = CHR ''5'') \<or> char_of (16 * x + y) = CHR '' '' \<or>
          \<not> should_escape (char_of (16 * x + y)) EncodeHost)"
      using 2(4) pc s xy by (auto split: if_splits)
    obtain t' where t: "unescape mode r = Some t'" "t = char_of (16 * x + y) # t'"
      using 2(4) pc s xy by (auto split: if_splits)
    have b: "x < 16" "y < 16" using xy unhex_bound by auto
    have "char_of (16 * x + y) \<noteq> CHR ''/''"
    proof
      assume e: "char_of (16 * x + y) = CHR ''/''"
      then have "of_char (char_of (16 * x + y) :: char) = (47::nat)" by (simp only: e) simp
      then have 47: "16 * x + y = 47" using b by simp
      have "\<not> (h = CHR ''2'' \<and> l = CHR ''5'')"
      proof
        assume "h = CHR ''2'' \<and> l = CHR ''5''"
        then have "unhex h = Some 2" "unhex l = Some 5" by (simp_all add: unhex_def is_digit_def)
        then show False using xy 47 by simp
      qed
      moreover have "should_escape (CHR ''/'') EncodeHost" by code_simp
      ultimately show False using ok 47 2(5) e by auto
    qed
    moreover have "CHR ''/'' \<notin> set t'"
      by (rule 2(1) [OF pc s refl refl xy]) (use ok t(1) 2(5) in auto)
    ultimately show ?thesis using t by auto
  next
    case plus
    then show ?thesis using 2 by auto
  next
    case byte
    have "c \<noteq> CHR ''/''"
    proof
      assume "c = CHR ''/''"
      moreover have "should_escape (CHR ''/'') EncodeHost" "should_escape (CHR ''/'') EncodeZone" by code_simp+
      ultimately show False using 2(4,5) by auto
    qed
    then show ?thesis using 2 byte by (auto split: if_splits)
  qed
qed simp

lemma parse_host_no_slash: "parse_host sch h = Some t \<Longrightarrow> CHR ''/'' \<notin> set t"
proof -
  assume a: "parse_host sch h = Some t"
  have port: "CHR ''/'' \<notin> set p" if "valid_optional_port p" for p
    using that by (cases p) (auto simp: valid_optional_port_def list_all_iff is_digit_def)
  show ?thesis
  proof (cases "last_index_byte h CHR ''[''")
    case None
    then have "unescape EncodeHost h = Some t" using a by (auto simp: parse_host_def split: option.splits if_splits)
    then show ?thesis using unescape_host_no_slash by blast
  next
    case (Some n)
    then have n: "n = 0" using a by (cases n) (auto simp: parse_host_def)
    obtain close where cl: "last_index_byte h CHR '']'' = Some close"
      using a Some n by (auto simp: parse_host_def split: option.splits)
    let ?hn = "drop 1 (take close h)"
    have vp: "valid_optional_port (drop (close + 1) h)"
      using a Some n cl by (auto simp: parse_host_def Let_def split: if_splits)
    obtain b where b: "(case index_of ?hn ''%25'' of
         Some z \<Rightarrow> (case (unescape EncodeHost (take z ?hn), unescape EncodeZone (drop z ?hn)) of
                      (Some a, Some b) \<Rightarrow> Some (a @ b) | _ \<Rightarrow> None)
       | None \<Rightarrow> unescape EncodeHost ?hn) = Some b" "t = ''['' @ b @ '']'' @ drop (close + 1) h"
      using a Some n cl vp by (simp add: parse_host_def Let_def split: option.splits if_splits)
    have "CHR ''/'' \<notin> set b"
      using b(1) unescape_host_no_slash by (auto split: option.splits)
    then show ?thesis using b(2) port [OF vp] by simp
  qed
qed

lemma parse_authority_no_slash: "parse_authority sch a = Some (usr, h) \<Longrightarrow> CHR ''/'' \<notin> set h"
  using parse_host_no_slash by (auto simp: parse_authority_def Let_def split: option.splits prod.splits if_splits)

lemma set_path_host [simp]: "set_path u p = Some v \<Longrightarrow> u_host v = u_host u"
  by (auto simp: set_path_def split: option.splits)

lemma parse_nofrag_no_slash: "parse_nofrag raw = Some u \<Longrightarrow> CHR ''/'' \<notin> set (u_host u)"
  by (auto simp: parse_nofrag_def Let_def empty_url_def dest!: parse_authority_no_slash set_path_host
      split: if_splits option.splits prod.splits)

lemma url_parse_no_slash: "url_parse raw = Some u \<Longrightarrow> CHR ''/'' \<notin> set (u_host u)"
  by (auto simp: url_parse_def Let_def dest!: parse_nofrag_no_slash split: prod.splits option.splits if_splits)

lemma hostname_sub: "set (hostname u) \<subseteq> set (u_host u)"
proof -
  have "set (fst (split_host_port hp)) \<subseteq> set hp" for hp
    by (auto simp: split_host_port_def Let_def split: option.splits if_splits
        dest!: in_set_butlastD in_set_dropD in_set_takeD)
  then show ?thesis by (simp add: hostname_def)
qed

lemma hostname_no_slash: "url_parse raw = Some u \<Longrightarrow> CHR ''/'' \<notin> set (hostname u)"
  using url_parse_no_slash hostname_sub by fastforce

end
