(* ===== verification/GoURLString.thy ===== *)
theory GoURLString
  imports GoNetURL
begin

text \<open>
  The way back in Go's \<open>net/url\<close>: \<open>EscapedPath\<close>, \<open>EscapedFragment\<close>, \<open>String\<close> and \<open>ResolveReference\<close>, with
  the lemmas that unescaping undoes escaping and that parsing undoes printing for the URLs of plain
  hosts. As in \<open>GoNetURL\<close> nothing here is code of the repository.
\<close>

section \<open>Printing\<close>

definition valid_encoded :: "encoding \<Rightarrow> string \<Rightarrow> bool" where
  "valid_encoded mode s \<longleftrightarrow>
     list_all (\<lambda>c. c \<in> set ''!$&()*+,;=:@[]%'' \<or> c = CHR 0x27 \<or> \<not> should_escape c mode) s"

definition escaped_path :: "go_url \<Rightarrow> string" where
  "escaped_path u =
     (if u_rawpath u \<noteq> [] \<and> valid_encoded EncodePath (u_rawpath u) \<and> unescape EncodePath (u_rawpath u) = Some (u_path u)
      then u_rawpath u
      else if u_path u = ''*'' then ''*''
      else escape EncodePath (u_path u))"

definition escaped_fragment :: "go_url \<Rightarrow> string" where
  "escaped_fragment u =
     (if u_rawfragment u \<noteq> [] \<and> valid_encoded EncodeFragment (u_rawfragment u)
         \<and> unescape EncodeFragment (u_rawfragment u) = Some (u_fragment u)
      then u_rawfragment u
      else escape EncodeFragment (u_fragment u))"

definition userinfo_string :: "userinfo \<Rightarrow> string" where
  "userinfo_string ui =
     escape EncodeUserPassword (fst ui) @
     (case snd ui of Some pass \<Rightarrow> '':'' @ escape EncodeUserPassword pass | None \<Rightarrow> [])"

definition url_String :: "go_url \<Rightarrow> string" where
  "url_String u =
     (let sch = (if u_scheme u \<noteq> [] then u_scheme u @ '':'' else []);
          body =
            (if u_opaque u \<noteq> [] then sch @ u_opaque u
             else
               (let auth = (if u_scheme u = [] \<and> u_host u = [] \<and> u_user u = None then []
                            else if u_omithost u \<and> u_host u = [] \<and> u_user u = None then []
                            else (if u_host u \<noteq> [] \<or> u_path u \<noteq> [] \<or> u_user u \<noteq> None then ''//'' else []) @
                                 (case u_user u of Some ui \<Rightarrow> userinfo_string ui @ ''@'' | None \<Rightarrow> []) @
                                 (if u_host u \<noteq> [] then escape EncodeHost (u_host u) else []));
                    path = escaped_path u;
                    front = sch @ auth @ (if path \<noteq> [] \<and> hd path \<noteq> CHR ''/'' \<and> u_host u \<noteq> [] then ''/'' else []);
                    dot = (if front = [] \<and> CHR '':'' \<in> set (fst (cut_byte CHR ''/'' path)) then ''./'' else [])
                in front @ dot @ path))
      in body @ (if u_forcequery u \<or> u_rawquery u \<noteq> [] then ''?'' @ u_rawquery u else [])
              @ (if u_fragment u \<noteq> [] then ''#'' @ escaped_fragment u else []))"

section \<open>Resolving\<close>

text \<open>
  The loop of \<open>resolvePath\<close> over the segments: what has been written after the leading slash, the
  flag \<open>first\<close>, and the segments that are left.
\<close>

fun resolve_segs :: "string \<Rightarrow> bool \<Rightarrow> string list \<Rightarrow> string" where
  "resolve_segs dst first [] = dst"
| "resolve_segs dst first (e # es) =
     (if e = ''.'' then resolve_segs dst False es
      else if e = ''..'' then
        (case last_index_byte dst CHR ''/'' of
           None \<Rightarrow> resolve_segs [] True es
         | Some i \<Rightarrow> resolve_segs (take i dst) first es)
      else resolve_segs (dst @ (if first then [] else ''/'') @ e) False es)"

definition resolve_path :: "string \<Rightarrow> string \<Rightarrow> string" where
  "resolve_path base ref =
     (let full = (if ref = [] then base
                  else if hd ref \<noteq> CHR ''/''
                  then (case last_index_byte base CHR ''/'' of Some i \<Rightarrow> take (i + 1) base | None \<Rightarrow> []) @ ref
                  else ref)
      in if full = [] then []
         else let elems = split_byte CHR ''/'' full;
                  dst = resolve_segs [] True elems;
                  r = ''/'' @ dst @ (if last elems = ''.'' \<or> last elems = ''..'' then ''/'' else [])
              in if length r > 1 \<and> r ! 1 = CHR ''/'' then drop 1 r else r)"

text \<open>\<open>setPath\<close> cannot fail on what \<open>resolvePath\<close> makes of escaped paths; an error would leave the URL as it is.\<close>

definition set_path' :: "go_url \<Rightarrow> string \<Rightarrow> go_url" where
  "set_path' u p = (case set_path u p of Some v \<Rightarrow> v | None \<Rightarrow> u)"

definition resolve_reference :: "go_url \<Rightarrow> go_url \<Rightarrow> go_url" where
  "resolve_reference u ref =
     (let url = (if u_scheme ref = [] then ref\<lparr>u_scheme := u_scheme u\<rparr> else ref)
      in if u_scheme ref \<noteq> [] \<or> u_host ref \<noteq> [] \<or> u_user ref \<noteq> None
         then set_path' url (resolve_path (escaped_path ref) [])
         else if u_opaque ref \<noteq> [] then url\<lparr>u_user := None, u_host := [], u_path := []\<rparr>
         else
           let url1 = (if u_path ref = [] \<and> \<not> u_forcequery ref \<and> u_rawquery ref = []
                       then (let v = url\<lparr>u_rawquery := u_rawquery u\<rparr>
                             in if u_fragment ref = []
                                then v\<lparr>u_fragment := u_fragment u, u_rawfragment := u_rawfragment u\<rparr> else v)
                       else url)
           in if u_path ref = [] \<and> u_opaque u \<noteq> []
              then url1\<lparr>u_opaque := u_opaque u, u_user := None, u_host := [], u_path := []\<rparr>
              else set_path' (url1\<lparr>u_host := u_host u, u_user := u_user u\<rparr>) (resolve_path (escaped_path u) (escaped_path ref)))"

section \<open>Unescaping undoes escaping\<close>

lemma unhex_upperhex: "n < 16 \<Longrightarrow> unhex (upperhex n) = Some n"
proof -
  assume "n < 16"
  then have "n \<in> {0..<16}" by simp
  moreover have "\<forall>n \<in> set [0..<16]. unhex (upperhex n) = Some n" by code_simp
  ultimately show ?thesis by simp
qed

lemma byte_hex: "char_of (16 * (byte_of c div 16) + byte_of c mod 16) = c"
  by simp

lemma byte_of_lt: "byte_of c < 256"
  using range_nat_of_char by auto

lemma upperhex_alnum: "n < 16 \<Longrightarrow> is_alnum (upperhex n)"
proof -
  assume "n < 16"
  then have "n \<in> set [0..<16]" by simp
  moreover have "\<forall>n \<in> set [0..<16]. is_alnum (upperhex n)" by code_simp
  ultimately show ?thesis by blast
qed

lemma byte_div_lt: "byte_of c div 16 < 16"
  using byte_of_lt [of c] by (simp add: div_less_iff_less_mult)

lemma percent_escaped: "should_escape (CHR ''%'') mode"
proof -
  have "\<forall>m \<in> set [EncodePath, EncodePathSegment, EncodeHost, EncodeZone, EncodeUserPassword, EncodeQueryComponent,
      EncodeFragment]. should_escape (CHR ''%'') m" by code_simp
  then show ?thesis by (cases mode) simp_all
qed

lemma plus_space_escaped: "should_escape (CHR ''+'') EncodeQueryComponent" "should_escape (CHR '' '') EncodeQueryComponent"
  by code_simp+

lemma unescape_escape_byte:
  assumes "mode \<noteq> EncodeHost" "mode \<noteq> EncodeZone"
  shows "unescape mode (escape_byte mode c @ r) = map_option ((#) c) (unescape mode r)"
proof -
  consider (plain) "\<not> should_escape c mode" | (space) "c = CHR '' ''" "mode = EncodeQueryComponent"
    | (hex) "should_escape c mode" "\<not> (mode = EncodeQueryComponent \<and> c = CHR '' '')" by blast
  then show ?thesis
  proof cases
    case plain
    then have "c \<noteq> CHR ''%''" "mode = EncodeQueryComponent \<Longrightarrow> c \<noteq> CHR ''+''"
      using percent_escaped plus_space_escaped by auto
    then show ?thesis using plain assms by (simp add: escape_byte_def)
  next
    case space
    then show ?thesis using plus_space_escaped by (simp add: escape_byte_def)
  next
    case hex
    have u: "unhex (upperhex (byte_of c div 16)) = Some (byte_of c div 16)"
      "unhex (upperhex (byte_of c mod 16)) = Some (byte_of c mod 16)"
      using unhex_upperhex byte_div_lt [of c] by simp_all
    show ?thesis using hex assms byte_hex [of c] by (simp add: escape_byte_def u del: char_of_mod_256)
  qed
qed

lemma unescape_escape: "mode \<noteq> EncodeHost \<Longrightarrow> mode \<noteq> EncodeZone \<Longrightarrow> unescape mode (escape mode s) = Some s"
proof (induction s)
  case (Cons c s)
  then show ?case using unescape_escape_byte [of mode c "escape mode s"] by (simp add: escape_def)
qed (simp add: escape_def)

text \<open>What escaping leaves: the byte itself, or a percent sign and two digits.\<close>

lemma escape_byte_chars:
  "x \<in> set (escape_byte mode c) \<Longrightarrow> x = c \<and> \<not> should_escape c mode \<or> x = CHR ''%'' \<or> is_alnum x \<or>
     x = CHR ''+'' \<and> mode = EncodeQueryComponent"
  using upperhex_alnum [of "byte_of c div 16"] upperhex_alnum [of "byte_of c mod 16"] byte_div_lt [of c]
  by (auto simp: escape_byte_def split: if_splits)

lemma alnum_plain: "is_alnum x \<Longrightarrow> x \<notin> set ''?#/:@[]%'' \<and> 32 \<le> byte_of x \<and> byte_of x \<noteq> 127"
  by (auto simp: is_alnum_def is_lower_def is_upper_def is_digit_def)

lemma path_escapes: "should_escape (CHR ''?'') EncodePath" "should_escape (CHR ''#'') EncodePath"
  "byte_of c < 32 \<or> byte_of c = 127 \<Longrightarrow> should_escape c EncodePath"
proof -
  show "should_escape (CHR ''?'') EncodePath" "should_escape (CHR ''#'') EncodePath" by code_simp+
  assume a: "byte_of c < 32 \<or> byte_of c = 127"
  have "c \<notin> set ''-_.~$&+,/:;=?@''" using a by (auto simp: )
  then show "should_escape c EncodePath"
    using a by (auto simp: should_escape_def is_alnum_def is_lower_def is_upper_def is_digit_def)
qed

lemma escaped_path_chars:
  assumes "x \<in> set (escape EncodePath p)"
  shows "x \<noteq> CHR ''?'' \<and> x \<noteq> CHR ''#'' \<and> 32 \<le> byte_of x \<and> byte_of x \<noteq> 127"
proof -
  obtain c where c: "x \<in> set (escape_byte EncodePath c)" using assms by (auto simp: escape_def)
  then consider "x = c" "\<not> should_escape c EncodePath" | "x = CHR ''%''" | "is_alnum x"
    using escape_byte_chars [OF c] by auto
  then show ?thesis
  proof cases
    case 1
    then have "c \<noteq> CHR ''?''" "c \<noteq> CHR ''#''" "\<not> (byte_of c < 32 \<or> byte_of c = 127)" using path_escapes by auto
    then show ?thesis using 1 by simp
  next
    case 2
    then show ?thesis by simp
  next
    case 3
    then show ?thesis using alnum_plain [OF 3] by auto
  qed
qed

section \<open>Parsing undoes printing\<close>

text \<open>A host name in the usual characters, without a port.\<close>

definition plain_host :: "string \<Rightarrow> bool" where
  "plain_host h \<longleftrightarrow> h \<noteq> [] \<and> list_all (\<lambda>c. is_alnum c \<or> c \<in> set ''-._~'') h"

lemma plain_hostD:
  assumes "plain_host h" "c \<in> set h"
  shows "\<not> should_escape c EncodeHost \<and> c \<notin> set ''?#/:@[]%+'' \<and> 32 \<le> byte_of c \<and> byte_of c \<noteq> 127"
proof -
  consider "is_alnum c" | "c \<in> set ''-._~''" using assms by (auto simp: plain_host_def list_all_iff)
  then show ?thesis
  proof cases
    case 1
    have "\<not> is_alnum (CHR ''+'')" by code_simp
    then have "c \<noteq> CHR ''+''" using 1 by blast
    then show ?thesis using 1 alnum_plain [OF 1] by (simp add: should_escape_def)
  next
    case 2
    have "\<forall>c \<in> set ''-._~''. \<not> should_escape c EncodeHost \<and> c \<notin> set ''?#/:@[]%+'' \<and> 32 \<le> byte_of c \<and> byte_of c \<noteq> 127"
      by code_simp
    then show ?thesis using 2 by blast
  qed
qed

lemma escape_slash: "escape EncodePath (CHR ''/'' # p) = CHR ''/'' # escape EncodePath p"
proof -
  have "\<not> should_escape (CHR ''/'') EncodePath" by code_simp
  then show ?thesis by (simp add: escape_def escape_byte_def)
qed

lemma escape_host: "plain_host h \<Longrightarrow> escape EncodeHost h = h"
proof -
  assume "plain_host h"
  then have "\<forall>c\<in>set h. escape_byte EncodeHost c = [c]" using plain_hostD by (auto simp: escape_byte_def)
  then show ?thesis by (induction h) (auto simp: escape_def)
qed

lemma unescape_host: "plain_host h \<Longrightarrow> unescape EncodeHost h = Some h"
proof -
  assume "plain_host h"
  then have "\<forall>c\<in>set h. c \<noteq> CHR ''%'' \<and> c \<noteq> CHR ''+'' \<and> \<not> should_escape c EncodeHost" using plain_hostD by auto
  then show ?thesis by (induction h) auto
qed

lemma parse_plain_host: "plain_host h \<Longrightarrow> parse_authority sch h = Some (None, h)"
proof -
  assume h: "plain_host h"
  then have "CHR ''@'' \<notin> set h" "CHR ''['' \<notin> set h" "CHR '':'' \<notin> set h" using plain_hostD by fastforce+
  then have "last_index_byte h CHR ''@'' = None" "last_index_byte h CHR ''['' = None" "index_byte h CHR '':'' = None"
      "last_index_byte h CHR '':'' = None"
    by (simp_all add: last_index_byte_None index_byte_None)
  then show ?thesis by (simp add: parse_authority_def parse_host_def unescape_host [OF h])
qed

definition https_url :: "string \<Rightarrow> string \<Rightarrow> go_url" where
  "https_url host path = empty_url\<lparr>u_scheme := ''https'', u_host := host, u_path := path\<rparr>"

lemma String_https_url:
  assumes "plain_host h"
  shows "url_String (https_url h (CHR ''/'' # p)) = ''https://'' @ h @ ''/'' @ escape EncodePath p"
proof -
  have "h \<noteq> []" using assms by (simp add: plain_host_def)
  then show ?thesis
    by (simp add: url_String_def https_url_def empty_url_def escaped_path_def escape_host [OF assms] escape_slash)
qed

lemma parse_https_url:
  assumes "plain_host h"
  shows "url_parse (''https://'' @ h @ ''/'' @ escape EncodePath p) = Some (https_url h (CHR ''/'' # p))"
proof -
  let ?e = "escape EncodePath p"
  let ?raw = "''https://'' @ h @ ''/'' @ ?e"
  have hc: "c \<in> set h \<Longrightarrow> c \<noteq> CHR ''#'' \<and> c \<noteq> CHR ''?'' \<and> c \<noteq> CHR ''/'' \<and> 32 \<le> byte_of c \<and> byte_of c \<noteq> 127" for c
    using plain_hostD [OF assms, of c] by auto
  have frag: "cut_byte CHR ''#'' ?raw = (?raw, [], False)"
    by (rule cut_byte_notin) (use hc escaped_path_chars [of _ p] in auto)
  have ctl: "\<not> has_ctl_byte ?raw"
    using hc escaped_path_chars [of _ p] by (fastforce simp: has_ctl_byte_def list_ex_iff)
  have sch: "get_scheme ?raw = Some (''https'', ''//'' @ h @ ''/'' @ ?e)"
    by (simp add: get_scheme_def is_lower_def is_upper_def is_digit_def)
  have q: "cut_byte CHR ''?'' (''//'' @ h @ ''/'' @ ?e) = (''//'' @ h @ ''/'' @ ?e, [], False)"
    by (rule cut_byte_notin) (use hc escaped_path_chars [of _ p] in auto)
  have cut: "cut_byte CHR ''/'' (h @ CHR ''/'' # ?e) = (h, ?e, True)"
    by (rule cut_byte_append) (use hc in auto)
  have low: "to_lower ''https'' = ''https''" by (simp add: to_lower_def lower_byte_def)
  have "parse_nofrag ?raw = set_path (empty_url\<lparr>u_scheme := ''https'', u_host := h\<rparr>) (CHR ''/'' # ?e)"
    using ctl sch q cut low parse_plain_host [OF assms, of "''https''"]
    by (simp add: parse_nofrag_def cut_query_def empty_url_def)
  also have "\<dots> = Some (https_url h (CHR ''/'' # p))"
    by (simp add: set_path_def unescape_escape escape_slash https_url_def empty_url_def)
  finally show ?thesis unfolding url_parse_def frag by simp
qed

end
