(* ===== verification/UrlNormalize.thy ===== *)
theory UrlNormalize
  imports GoURLString
begin

text \<open>
  URL normalisation of \<open>internal/queue\<close>: the table of tracking parameters (params.go) and
  \<open>NormalizeURL\<close> with its helpers (strip.go). The properties: path and query normalisation are
  idempotent, the surviving query parameters are exactly the ones that are no trackers, in key
  order, and two ways in which a normalised URL is no longer the URL it came from.
\<close>

section \<open>params.go\<close>

definition trackingParams :: "string list" where
  "trackingParams =
    [''utm_source'', ''utm_medium'', ''utm_campaign'', ''utm_term'', ''utm_content'',
     ''utm_id'', ''utm_cid'', ''utm_reader'', ''utm_name'', ''utm_social'',
     ''utm_social-type'', ''fbclid'', ''gclid'', ''gclsrc'', ''dclid'', ''gbraid'', ''wbraid'',
     ''msclkid'', ''twclid'', ''li_fat_id'', ''mc_cid'', ''mc_eid'', ''_ga'', ''_gl'',
     ''oly_anon_id'', ''oly_enc_id'', ''ref'', ''source'', ''campaign_id'', ''campaign'',
     ''medium'', ''content'', ''keyword'', ''affiliate_id'', ''click_id'', ''fb_action_ids'',
     ''fb_action_types'', ''fb_ref'', ''fb_source'', ''hsa_cam'', ''hsa_grp'', ''hsa_mt'',
     ''hsa_src'', ''hsa_ad'', ''hsa_acc'', ''hsa_net'', ''hsa_ver'', ''hsa_la'', ''hsa_ol'',
     ''hsa_kw'', ''hsa_tgt'', ''hsa_bal'', ''hsa_bgt'', ''hsa_wn'', ''hsa_cr'', ''hsa_og'',
     ''hsa_mi'', ''_kx'', ''vero_id'', ''wickedid'', ''yclid'', ''__s'', ''_hsmi'', ''_hsenc'',
     ''si'', ''ss'', ''spm'', ''scm'', ''pk_campaign'', ''pk_kwd'', ''pk_source'',
     ''pk_medium'', ''pk_content'', ''_openstat'', ''vov'', ''vzmid'', ''from'', ''spm_'']"

definition shouldStripParam :: "string \<Rightarrow> bool" where
  "shouldStripParam k =
     (let lower = to_lower k
      in if lower \<in> set trackingParams then True
         else if has_prefix lower ''utm_'' then True
         else if has_prefix lower ''_hs'' then True
         else False)"

section \<open>strip.go\<close>

text \<open>The loop \<open>for strings.Contains(path, "//")\<close>; every round shortens the path.\<close>

function collapse_slashes :: "string \<Rightarrow> string" where
  "collapse_slashes path =
     (if contains path ''//'' then collapse_slashes (replace_all path ''//'' ''/'') else path)"
  by pat_completeness auto
termination
  by (relation "measure length") (auto intro: length_replace_all_less)

declare collapse_slashes.simps [simp del]

fun resolve_segments :: "string list \<Rightarrow> string list \<Rightarrow> string list" where
  "resolve_segments [] resolved = resolved"
| "resolve_segments (seg # segs) resolved =
     (if seg = ''..'' then
        resolve_segments segs (if length resolved > 0 then butlast resolved else resolved)
      else if seg \<noteq> ''.'' then resolve_segments segs (resolved @ [seg])
      else resolve_segments segs resolved)"

definition normalizePath :: "string \<Rightarrow> string" where
  "normalizePath path0 =
     (if path0 = [] then ''/''
      else let path1 = collapse_slashes (replace_all path0 ''/./'' ''/'');
               path2 = join ''/'' (resolve_segments (split_byte CHR ''/'' path1) []);
               path3 = (if length path2 > 1 \<and> has_suffix path2 ''/'' then trim_suffix path2 ''/'' else path2);
               path4 = (if path3 = [] then ''/'' else path3)
           in replace_all path4 ''%7E'' ''~'')"

definition sortQueryParams :: "string \<Rightarrow> string" where
  "sortQueryParams rawQuery =
     (if rawQuery = [] then []
      else case parse_query rawQuery of (params, err) \<Rightarrow>
        if err then rawQuery
        else let kept = filter (\<lambda>kv. \<not> shouldStripParam (fst kv)) params
             in if kept = [] then [] else values_encode kept)"

definition NormalizeURL :: "string \<Rightarrow> string" where
  "NormalizeURL rawURL =
     (if rawURL = [] then []
      else case url_parse rawURL of None \<Rightarrow> rawURL | Some u \<Rightarrow>
        (let scheme = to_lower (u_scheme u)
         in if scheme \<noteq> ''http'' \<and> scheme \<noteq> ''https'' then rawURL
            else let host = to_lower (hostname u)
                 in if host = [] then rawURL
                    else let prt0 = port u;
                             prt = (if (scheme = ''http'' \<and> prt0 = ''80'') \<or> (scheme = ''https'' \<and> prt0 = ''443'')
                                    then [] else prt0);
                             hostStr = (if prt \<noteq> [] then host @ '':'' @ prt else host);
                             path = normalizePath (if u_path u = [] then ''/'' else u_path u);
                             cleanURL = scheme @ ''://'' @ hostStr @ path
                         in if u_rawquery u \<noteq> []
                            then let sorted = sortQueryParams (u_rawquery u)
                                 in if sorted \<noteq> [] then cleanURL @ ''?'' @ sorted else cleanURL
                            else cleanURL))"

definition NormalizeAndClean :: "string \<Rightarrow> string" where
  "NormalizeAndClean rawURL =
     (let fragment = (case url_parse rawURL of None \<Rightarrow> []
                      | Some u \<Rightarrow> if u_fragment u \<noteq> [] \<and>
                                     (has_prefix (u_fragment u) ''/'' \<or> has_prefix (u_fragment u) ''!/'')
                                  then ''#'' @ u_fragment u else []);
          normalized = NormalizeURL rawURL
      in if fragment \<noteq> [] \<and> \<not> has_suffix normalized fragment then normalized @ fragment else normalized)"

section \<open>Paths\<close>

text \<open>A path in normal form, before \<open>%7E\<close> is rewritten, told by its segments.\<close>

abbreviation segs :: "string \<Rightarrow> string list" where
  "segs \<equiv> split_byte CHR ''/''"

definition clean_path :: "string \<Rightarrow> bool" where
  "clean_path p \<longleftrightarrow> p \<noteq> [] \<and> ''.'' \<notin> set (segs p) \<and> ''..'' \<notin> set (segs p) \<and>
     (p = ''/'' \<or> [] \<notin> set (tl (segs p)))"

lemma tl_append_ne: "xs \<noteq> [] \<Longrightarrow> tl (xs @ ys) = tl xs @ ys"
  by (cases xs) auto

lemma segs_double_slash: "contains p ''//'' \<Longrightarrow> [] \<in> set (tl (segs p)) \<and> p \<noteq> ''/''"
proof -
  assume "contains p ''//''"
  then obtain a b where p: "p = a @ CHR ''/'' # CHR ''/'' # b" by (auto simp: contains_iff)
  then have "segs p = segs a @ [] # segs b" by (simp add: split_byte_append)
  then have "[] \<in> set (tl (segs p))" by (simp add: tl_append_ne)
  moreover have "p \<noteq> ''/''" using p by (cases a) auto
  ultimately show ?thesis ..
qed

lemma segs_dot_slash: "contains p ''/./'' \<Longrightarrow> ''.'' \<in> set (segs p)"
proof -
  assume "contains p ''/./''"
  then obtain a b where "p = a @ CHR ''/'' # CHR ''.'' # CHR ''/'' # b" by (auto simp: contains_iff)
  then have "segs p = segs a @ ''.'' # segs b" by (simp add: split_byte_append)
  then show ?thesis by simp
qed

lemma segs_trailing_slash: "has_suffix p ''/'' \<Longrightarrow> [] \<in> set (tl (segs p))"
proof -
  assume "has_suffix p ''/''"
  then obtain r where "p = r @ CHR ''/'' # []" by (auto simp: has_suffix_iff)
  then have "segs p = segs r @ segs []" by (simp only: split_byte_append)
  then show ?thesis by (auto simp: tl_append_ne)
qed

lemma resolve_segments_plain:
  "''.'' \<notin> set ss \<Longrightarrow> ''..'' \<notin> set ss \<Longrightarrow> resolve_segments ss acc = acc @ ss"
  by (induction ss acc rule: resolve_segments.induct) auto

lemma normalizePath_clean:
  assumes "clean_path p"
  shows "normalizePath p = replace_all p ''%7E'' ''~''"
proof -
  have p: "p \<noteq> []" "''.'' \<notin> set (segs p)" "''..'' \<notin> set (segs p)" "p = ''/'' \<or> [] \<notin> set (tl (segs p))"
    using assms by (simp_all add: clean_path_def)
  have "replace_all p ''/./'' ''/'' = p"
    using segs_dot_slash p(2) replace_all_no_occurrence by blast
  moreover have "collapse_slashes p = p"
    using segs_double_slash [of p] p(4) by (subst collapse_slashes.simps) auto
  moreover have "\<not> (length p > 1 \<and> has_suffix p ''/'')"
    using segs_trailing_slash [of p] p(4) by auto
  ultimately show ?thesis
    using p(1-3) by (auto simp add: normalizePath_def Let_def resolve_segments_plain)
qed

subsection \<open>The rewriting of \<open>%7E\<close>\<close>

abbreviation tilde :: "string \<Rightarrow> string" where
  "tilde p \<equiv> replace_all p ''%7E'' ''~''"

lemma tilde_marks: "contains p ''%7E'' \<Longrightarrow> CHR ''~'' \<in> set (tilde p)"
proof (induction p rule: length_induct)
  case (1 p)
  show ?case
  proof (cases p)
    case Nil
    then show ?thesis using 1 by (simp add: contains_def)
  next
    case (Cons c s)
    show ?thesis
    proof (cases "has_prefix (c # s) ''%7E''")
      case True
      then show ?thesis using Cons by simp
    next
      case False
      then have "contains s ''%7E''" using 1(2) Cons by (auto simp: contains_def split: if_splits)
      then have "CHR ''~'' \<in> set (tilde s)" using 1(1) Cons by simp
      then show ?thesis using Cons False by simp
    qed
  qed
qed

lemma tilde_fixed: "CHR ''~'' \<notin> set (tilde p) \<Longrightarrow> tilde p = p"
  using tilde_marks replace_all_no_occurrence by blast

lemma tilde_eq_iff: "CHR ''~'' \<notin> set q \<Longrightarrow> tilde p = q \<longleftrightarrow> p = q \<and> \<not> contains q ''%7E''"
  using tilde_fixed tilde_marks replace_all_no_occurrence by metis

lemma tilde_hd: "s \<noteq> [] \<Longrightarrow> hd (tilde s) = hd s \<or> hd (tilde s) = CHR ''~''"
  by (cases s) auto

lemma has_prefix_tilde:
  "has_prefix (tilde s) q \<Longrightarrow> CHR ''~'' \<notin> set q \<Longrightarrow> has_prefix s q"
proof (induction q arbitrary: s)
  case (Cons x q)
  then obtain c s' where s: "s = c # s'" by (cases s) auto
  show ?case
  proof (cases "has_prefix (c # s') ''%7E''")
    case True
    then have "tilde s = CHR ''~'' # tilde (drop 2 s')" using s by (simp add: numeral_eq_Suc)
    then show ?thesis using Cons.prems by simp
  next
    case False
    then have "tilde s = c # tilde s'" using s by simp
    then show ?thesis using Cons s by auto
  qed
qed simp

lemma tilde_no_escape: "\<not> contains (tilde p) ''%7E''"
proof (induction p rule: length_induct)
  case (1 p)
  show ?case
  proof (cases p)
    case Nil
    then show ?thesis by (simp add: contains_def)
  next
    case (Cons c s)
    show ?thesis
    proof (cases "has_prefix (c # s) ''%7E''")
      case True
      then have t: "tilde p = CHR ''~'' # tilde (drop 3 p)" using Cons by (simp add: numeral_eq_Suc)
      have "\<not> contains (tilde (drop 3 p)) ''%7E''" using 1 Cons by simp
      then show ?thesis by (simp add: t contains_def)
    next
      case False
      then have t: "tilde p = c # tilde s" using Cons by simp
      have "\<not> contains (tilde s) ''%7E''" using 1 Cons by simp
      moreover have "\<not> has_prefix (c # tilde s) ''%7E''"
        using False has_prefix_tilde [of s "''7E''"] by auto
      ultimately show ?thesis by (simp add: t contains_def)
    qed
  qed
qed

lemma tilde_idem: "tilde (tilde p) = tilde p"
  using tilde_no_escape replace_all_no_occurrence by blast

lemma clean_path_tilde: "clean_path p \<Longrightarrow> clean_path (tilde p)"
proof -
  assume c: "clean_path p"
  have sg: "segs (tilde p) = map tilde (segs p)" by (rule split_byte_replace_all) simp_all
  have ne: "tilde p \<noteq> []" using c replace_all_ne [of "''~''" p] by (simp add: clean_path_def)
  have keep: "q \<notin> set (segs (tilde p))" if "q \<notin> set (segs p)" "CHR ''~'' \<notin> set q" for q
  proof
    assume "q \<in> set (segs (tilde p))"
    then obtain s where s: "s \<in> set (segs p)" "tilde s = q" unfolding sg set_map by (elim imageE) simp
    then have "s = q" using iffD1 [OF tilde_eq_iff [OF that(2)] s(2)] by blast
    with s(1) that(1) show False by simp
  qed
  have dots: "''.'' \<notin> set (segs (tilde p))" "''..'' \<notin> set (segs (tilde p))"
    using c keep by (simp_all add: clean_path_def)
  have "tilde p = ''/'' \<or> [] \<notin> set (tl (segs (tilde p)))"
  proof (cases "p = ''/''")
    case True
    then show ?thesis by simp
  next
    case False
    then have "[] \<notin> set (tl (segs p))" using c by (simp add: clean_path_def)
    then have "[] \<notin> set (map tilde (tl (segs p)))"
      using iffD1 [OF tilde_eq_iff [of "[]"]] unfolding set_map by (auto elim!: imageE simp del: replace_all.simps dest: sym)
    then show ?thesis unfolding sg map_tl by simp
  qed
  with ne dots show ?thesis by (simp add: clean_path_def)
qed

subsection \<open>Resolution produces a normal form\<close>

lemma collapse_no_double: "\<not> contains (collapse_slashes p) ''//''"
proof (induction p rule: collapse_slashes.induct)
  case (1 p)
  then show ?case by (subst collapse_slashes.simps) auto
qed

lemma collapse_ne: "p \<noteq> [] \<Longrightarrow> collapse_slashes p \<noteq> []"
proof (induction p rule: collapse_slashes.induct)
  case (1 p)
  then show ?case using replace_all_ne [of "''/''" p "''//''"]
    by (subst collapse_slashes.simps) auto
qed

lemma segs_interior: "\<not> contains p ''//'' \<Longrightarrow> [] \<notin> set (butlast (tl (segs p)))"
proof
  assume no: "\<not> contains p ''//''" and "[] \<in> set (butlast (tl (segs p)))"
  then obtain us vs where "butlast (tl (segs p)) = us @ [] # vs" by (auto dest: split_list)
  then have "tl (segs p) = us @ [] # vs @ [last (tl (segs p))]"
    by (metis append.assoc append_Cons append_butlast_last_id append_is_Nil_conv butlast.simps(1) list.discI)
  then obtain ws where ws: "ws \<noteq> []" "tl (segs p) = us @ [] # ws" by blast
  then have "segs p = (hd (segs p) # us) @ [] # ws" by (metis append_Cons list.collapse split_byte_nonempty)
  then have "p = join ''/'' ((hd (segs p) # us) @ [] # ws)" by (metis join_split_byte)
  also have "\<dots> = join ''/'' (hd (segs p) # us) @ ''//'' @ join ''/'' ws"
    using ws(1) by (simp add: join_append join_Cons del: append_Cons)
  finally show False using no by (metis contains_iff)
qed

text \<open>The invariant of the resolution loop: no dot segments, and only the first segment may be empty.\<close>

definition resolved_ok :: "string list \<Rightarrow> bool" where
  "resolved_ok acc \<longleftrightarrow> ''.'' \<notin> set acc \<and> ''..'' \<notin> set acc \<and> [] \<notin> set (tl acc) \<and>
     (\<forall>s \<in> set acc. CHR ''/'' \<notin> set s)"

lemma resolved_ok_butlast: "resolved_ok acc \<Longrightarrow> resolved_ok (butlast acc)"
  by (cases acc) (auto simp: resolved_ok_def butlast_tl dest: in_set_butlastD)

lemma resolved_ok_snoc:
  "resolved_ok acc \<Longrightarrow> s \<noteq> ''.'' \<Longrightarrow> s \<noteq> ''..'' \<Longrightarrow> CHR ''/'' \<notin> set s \<Longrightarrow> s \<noteq> [] \<or> acc = [] \<Longrightarrow>
     resolved_ok (acc @ [s])"
  by (cases acc) (auto simp: resolved_ok_def)

lemma resolve_segments_ok:
  "resolved_ok acc \<Longrightarrow> (\<forall>s \<in> set ss. CHR ''/'' \<notin> set s) \<Longrightarrow> [] \<notin> set (butlast ss) \<Longrightarrow>
     \<exists>acc'. resolved_ok acc' \<and> resolve_segments ss acc \<in> {acc', acc' @ [[]]}"
proof (induction ss acc rule: resolve_segments.induct)
  case (1 resolved)
  then show ?case by auto
next
  case (2 seg sgs resolved)
  have tail: "[] \<notin> set (butlast sgs)" "\<forall>s \<in> set sgs. CHR ''/'' \<notin> set s"
    using "2.prems" by (auto split: if_splits)
  consider (up) "seg = ''..''" | (dot) "seg = ''.''" | (last) "seg = []" "sgs = []"
    | (keep) "seg \<noteq> ''..''" "seg \<noteq> ''.''" "seg \<noteq> []"
    using "2.prems"(3) by (auto split: if_splits)
  then show ?case
  proof cases
    case up
    then show ?thesis
      using "2.IH"(1) [OF up] tail "2.prems"(1) resolved_ok_butlast [of resolved]
      by (cases "resolved = []") simp_all
  next
    case dot
    then show ?thesis using "2.IH"(3) tail "2.prems"(1) by simp
  next
    case last
    then show ?thesis using "2.prems"(1) by auto
  next
    case keep
    then have "resolved_ok (resolved @ [seg])" using "2.prems" resolved_ok_snoc by simp
    then show ?thesis using "2.IH"(2) keep tail by simp
  qed
qed

lemma segs_join: "xs \<noteq> [] \<Longrightarrow> resolved_ok xs \<Longrightarrow> segs (join ''/'' xs) = xs"
  by (rule split_byte_join) (auto simp: resolved_ok_def)

lemma join_resolved_ne: "resolved_ok xs \<Longrightarrow> join ''/'' xs = [] \<longleftrightarrow> xs = [] \<or> xs = [[]]"
  by (cases "(''/'', xs)" rule: join.cases) (auto simp: resolved_ok_def)

lemma clean_join: "resolved_ok xs \<Longrightarrow> xs \<noteq> [] \<Longrightarrow> xs \<noteq> [[]] \<Longrightarrow> clean_path (join ''/'' xs)"
  using segs_join [of xs] join_resolved_ne [of xs] by (simp add: clean_path_def resolved_ok_def)

lemma clean_root: "clean_path ''/''"
  by (simp add: clean_path_def)

lemma resolved_clean:
  assumes "resolved_ok acc" "xs \<in> {acc, acc @ [[]]}"
  defines "p \<equiv> join ''/'' xs"
  defines "q \<equiv> (if length p > 1 \<and> has_suffix p ''/'' then trim_suffix p ''/'' else p)"
  shows "clean_path (if q = [] then ''/'' else q)"
proof -
  have no_tail: "\<not> has_suffix (join ''/'' acc) ''/''" if "acc \<noteq> []" "acc \<noteq> [[]]"
    using segs_trailing_slash [of "join ''/'' acc"] segs_join [OF that(1) assms(1)] assms(1)
    by (auto simp: resolved_ok_def)
  have J: "join ''/'' (acc @ [[]]) = join ''/'' acc @ ''/''" if "acc \<noteq> []"
    using join_append [OF that, of "[[]]"] by simp
  consider (e) "acc = []" | (r) "acc = [[]]" | (n) "acc \<noteq> []" "acc \<noteq> [[]]" by blast
  then show ?thesis
  proof cases
    case e
    then show ?thesis using assms(2) clean_root by (auto simp: p_def q_def)
  next
    case r
    then show ?thesis using assms(2) clean_root by (auto simp: p_def q_def)
  next
    case n
    have ne: "join ''/'' acc \<noteq> []" using join_resolved_ne [OF assms(1)] n by simp
    have "q = join ''/'' acc"
    proof (cases "xs = acc")
      case True
      then show ?thesis using no_tail [OF n] by (simp add: q_def p_def)
    next
      case False
      then have "p = join ''/'' acc @ ''/''" using assms(2) J n by (simp add: p_def)
      then show ?thesis using ne by (simp add: q_def)
    qed
    then show ?thesis using clean_join [OF assms(1) n] ne by simp
  qed
qed

lemma normalizePath_form: "\<exists>q. clean_path q \<and> normalizePath p = tilde q"
proof (cases "p = []")
  case True
  then show ?thesis using clean_root by (intro exI [of _ "''/''"]) (simp add: normalizePath_def)
next
  case False
  define p1 where "p1 = collapse_slashes (replace_all p ''/./'' ''/'')"
  have int: "[] \<notin> set (butlast (tl (segs p1)))"
    unfolding p1_def by (rule segs_interior [OF collapse_no_double])
  obtain y ys where sp: "segs p1 = y # ys" by (cases "segs p1") auto
  have nosl: "\<forall>s \<in> set (y # ys). CHR ''/'' \<notin> set s" using split_byte_no_sep sp by metis
  define a0 where "a0 = resolve_segments [y] []"
  have "resolved_ok a0" using nosl by (auto simp: a0_def resolved_ok_def)
  moreover have "resolve_segments (y # ys) [] = resolve_segments ys a0" by (simp add: a0_def)
  ultimately obtain acc where acc: "resolved_ok acc" "resolve_segments (segs p1) [] \<in> {acc, acc @ [[]]}"
    using resolve_segments_ok [of a0 ys] nosl int sp by auto
  then show ?thesis
    using resolved_clean [OF acc] False by (auto simp: normalizePath_def Let_def p1_def)
qed

section \<open>Query strings\<close>

lemma query_marks_escaped: "c \<in> {CHR ''%'', CHR ''+'', CHR ''&'', CHR ''='', CHR '';'', CHR '' ''} \<Longrightarrow>
    should_escape c EncodeQueryComponent"
proof -
  assume "c \<in> {CHR ''%'', CHR ''+'', CHR ''&'', CHR ''='', CHR '';'', CHR '' ''}"
  then have "c \<in> set ''%+&=; ''" by simp
  moreover have "\<forall>c \<in> set ''%+&=; ''. should_escape c EncodeQueryComponent" by code_simp
  ultimately show ?thesis by blast
qed

lemma query_unescape_escape: "query_unescape (escape EncodeQueryComponent s) = Some s"
  by (simp add: query_unescape_def unescape_escape)

lemma escape_byte_plain:
  "x \<in> set (escape_byte EncodeQueryComponent c) \<Longrightarrow> x \<notin> {CHR ''&'', CHR ''='', CHR '';''}"
proof -
  assume x: "x \<in> set (escape_byte EncodeQueryComponent c)"
  have "byte_of c div 16 < 16" using byte_of_lt [of c] by (simp add: div_less_iff_less_mult)
  then have "is_alnum (upperhex (byte_of c div 16))" "is_alnum (upperhex (byte_of c mod 16))"
    using upperhex_alnum by simp_all
  moreover have "\<not> is_alnum CHR ''&''" "\<not> is_alnum CHR ''=''" "\<not> is_alnum CHR '';''" by code_simp+
  ultimately show ?thesis
    using x query_marks_escaped [of c] by (auto simp: escape_byte_def split: if_splits)
qed

lemma escape_plain:
  "CHR ''&'' \<notin> set (escape EncodeQueryComponent s)" "CHR ''='' \<notin> set (escape EncodeQueryComponent s)"
  "CHR '';'' \<notin> set (escape EncodeQueryComponent s)"
  using escape_byte_plain by (fastforce simp: escape_def)+

text \<open>One encoded pair, and what parsing a list of them does.\<close>

definition encode_pair :: "string \<times> string \<Rightarrow> string" where
  "encode_pair kv = escape EncodeQueryComponent (fst kv) @ ''='' @ escape EncodeQueryComponent (snd kv)"

lemma parse_pairs_encoded:
  "parse_pairs (map encode_pair kvs) m err = (foldl (\<lambda>m kv. values_add (fst kv) (snd kv) m) m kvs, err)"
proof (induction kvs arbitrary: m)
  case (Cons kv kvs)
  have cut: "cut_byte CHR ''='' (encode_pair kv) =
      (escape EncodeQueryComponent (fst kv), escape EncodeQueryComponent (snd kv), True)"
    using cut_byte_append escape_plain(2) by (simp add: encode_pair_def)
  have "CHR '';'' \<notin> set (encode_pair kv)" "encode_pair kv \<noteq> []"
    using escape_plain(3) by (auto simp: encode_pair_def)
  then show ?case using Cons by (simp add: cut query_unescape_escape)
qed simp

definition values_wf :: "(string \<times> string list) list \<Rightarrow> bool" where
  "values_wf m \<longleftrightarrow> distinct (map fst m) \<and> [] \<notin> set (map snd m)"

lemma values_add_keys: "set (map fst (values_add k v m)) = insert k (set (map fst m))"
  by (induction k v m rule: values_add.induct) auto

lemma values_add_wf: "values_wf m \<Longrightarrow> values_wf (values_add k v m)"
proof (induction k v m rule: values_add.induct)
  case (2 k v k' vs m)
  then show ?case using values_add_keys [of k v m] by (auto simp: values_wf_def)
qed (simp add: values_wf_def)

lemma parse_pairs_wf: "values_wf m \<Longrightarrow> values_wf (fst (parse_pairs ps m err))"
  by (induction ps m err rule: parse_pairs.induct)
     (auto simp: values_add_wf split: option.splits prod.splits)

lemma parse_query_wf: "parse_query q = (m, err) \<Longrightarrow> values_wf m"
  using parse_pairs_wf [of "[]" "split_byte CHR ''&'' q" False] by (simp add: parse_query_def values_wf_def)

lemma values_add_end: "k \<notin> set (map fst m) \<Longrightarrow> values_add k v (m @ [(k, vs)]) = m @ [(k, vs @ [v])]"
  by (induction m) auto

lemma values_add_new: "k \<notin> set (map fst m) \<Longrightarrow> values_add k v m = m @ [(k, [v])]"
  by (induction m) auto

lemma fold_values_key:
  "k \<notin> set (map fst m) \<Longrightarrow>
     foldl (\<lambda>m kv. values_add (fst kv) (snd kv) m) (m @ [(k, us)]) (map (Pair k) vs) = m @ [(k, us @ vs)]"
  by (induction vs arbitrary: us) (simp_all add: values_add_end)

lemma fold_values_all:
  "values_wf (m @ m') \<Longrightarrow>
     foldl (\<lambda>m kv. values_add (fst kv) (snd kv) m) m (concat (map (\<lambda>(k, vs). map (Pair k) vs) m')) = m @ m'"
proof (induction m' arbitrary: m)
  case (Cons kvs m')
  obtain k v vs where kvs: "kvs = (k, v # vs)"
    using Cons.prems by (cases kvs; cases "snd kvs") (auto simp: values_wf_def)
  have k: "k \<notin> set (map fst m)" using Cons.prems kvs by (auto simp: values_wf_def)
  have "values_wf ((m @ [kvs]) @ m')" using Cons.prems by simp
  from Cons.IH [OF this] show ?case
    using fold_values_key [OF k, of "[v]" vs] values_add_new [OF k] by (simp add: kvs)
qed simp

lemma concat_encode_key:
  "concat (map encode_key m) = map encode_pair (concat (map (\<lambda>(k, vs). map (Pair k) vs) m))"
  by (induction m) (auto simp: encode_key_def encode_pair_def)

lemma parse_query_encode: "values_wf m \<Longrightarrow> parse_query (values_encode m) = (sort_key fst m, False)"
proof -
  assume wf: "values_wf m"
  let ?s = "sort_key fst m"
  let ?ps = "map encode_pair (concat (map (\<lambda>(k, vs). map (Pair k) vs) ?s))"
  have wfs: "values_wf ([] @ ?s)" using wf
    by (auto simp: values_wf_def distinct_map) 
  have enc: "values_encode m = join ''&'' ?ps" by (simp only: values_encode_def concat_encode_key)
  show ?thesis
  proof (cases "?ps = []")
    case True
    then have e: "concat (map (\<lambda>(k, vs). map (Pair k) vs) ?s) = []" by (simp only: map_is_Nil_conv)
    have "?s = []" using fold_values_all [OF wfs] unfolding e by simp
    moreover have "values_encode m = []" unfolding enc True by simp
    ultimately show ?thesis by (simp add: parse_query_def)
  next
    case False
    have "split_byte CHR ''&'' (join ''&'' ?ps) = ?ps"
      by (rule split_byte_join [OF False]) (auto simp: encode_pair_def escape_plain)
    then show ?thesis
      using fold_values_all [OF wfs] by (simp add: parse_query_def enc parse_pairs_encoded)
  qed
qed

lemma values_wf_filter: "values_wf m \<Longrightarrow> values_wf (filter P m)"
  by (auto simp: values_wf_def distinct_map_filter_fst)

section \<open>Properties of the path\<close>

text \<open>Normalising a path twice is normalising it once.\<close>
theorem normalizePath_idempotent: "normalizePath (normalizePath p) = normalizePath p"
proof -
  obtain q where q: "clean_path q" "normalizePath p = tilde q" using normalizePath_form by blast
  then show ?thesis using normalizePath_clean [OF clean_path_tilde [OF q(1)]] tilde_idem by simp
qed

section \<open>Properties of the query\<close>

text \<open>C11: Parsing the normalised form of a well-formed query string gives exactly the parameters
  that are no trackers, each with its values in their order, sorted by name.\<close>
theorem sortQueryParams_parses_to_kept:
  assumes "parse_query q = (m, False)"
  shows "parse_query (sortQueryParams q) =
           (sort_key fst (filter (\<lambda>kv. \<not> shouldStripParam (fst kv)) m), False)"
proof -
  let ?k = "filter (\<lambda>kv. \<not> shouldStripParam (fst kv)) m"
  have wf: "values_wf ?k" by (rule values_wf_filter [OF parse_query_wf [OF assms]])
  have e: "parse_query [] = ([], False)" by (simp add: parse_query_def)
  show ?thesis
  proof (cases "q = []")
    case True
    then show ?thesis using assms e by (simp add: sortQueryParams_def)
  next
    case False
    then show ?thesis using assms e parse_query_encode [OF wf]
      by (cases "?k = []") (simp_all add: sortQueryParams_def)
  qed
qed

theorem sortQueryParams_parses_to_kept_witness:
  "parse_query (sortQueryParams ''b=2&utm_x=1&a=3'') = ([(''a'', [''3'']), (''b'', [''2''])], False)"
proof -
  have "parse_query ''b=2&utm_x=1&a=3'' = ([(''b'', [''2'']), (''utm_x'', [''1'']), (''a'', [''3''])], False)"
    by code_simp
  from sortQueryParams_parses_to_kept [OF this]
  have "parse_query (sortQueryParams ''b=2&utm_x=1&a=3'') =
    (sort_key fst (filter (\<lambda>kv. \<not> shouldStripParam (fst kv))
       [(''b'', [''2'']), (''utm_x'', [''1'']), (''a'', [''3''])]), False)" .
  also have "\<dots> = ([(''a'', [''3'']), (''b'', [''2''])], False)" by code_simp
  finally show ?thesis .
qed

text \<open>Two URLs that differ in whether a question mark is escaped, and so name different
  resources, get the same normal form: the path is written back unescaped. And a dot-dot segment
  at the root is resolved by dropping the root slash, which glues the path to the host. An IPv6
  host loses its brackets, and the result is no URL any more.\<close>
theorem NormalizeURL_conflates:
  "NormalizeURL ''http://a.org/x%3Fy=1'' = NormalizeURL ''http://a.org/x?y=1'' \<and>
   NormalizeURL ''http://a.org/../evil'' = ''http://a.orgevil'' \<and>
   NormalizeURL ''http://[::1]:8080/'' = ''http://::1:8080/'' \<and> url_parse ''http://::1:8080/'' = None"
  by (intro conjI) code_simp+

end
