(* ===== verification/Glob.thy ===== *)
theory Glob
  imports GoNetURL
begin

text \<open>
  The glob matcher of \<open>internal/queue/glob.go\<close>, which filters URLs by include and exclude patterns.
  The loops keep the code's indices \<open>p\<close> (pattern) and \<open>i\<close> (string); \<open>matchBracket\<close> moves \<open>p\<close> through
  a pointer, so it returns the new index. A slice beyond the end of the string panics. The
  properties say exactly what literal patterns, question marks, and patterns with one star or a
  final double star match.
\<close>

section \<open>matchBracket\<close>

text \<open>The loop \<open>for *p < len(pattern) && pattern[*p] != ']'\<close> that skips the rest of a class.\<close>

function skip_class :: "string \<Rightarrow> nat \<Rightarrow> nat" where
  "skip_class pattern p =
     (if p < length pattern \<and> pattern ! p \<noteq> CHR '']'' then skip_class pattern (p + 1) else p)"
  by pat_completeness auto
termination by (relation "measure (\<lambda>(pattern, p). length pattern - p)") auto

function class_loop :: "string \<Rightarrow> bool \<Rightarrow> char \<Rightarrow> nat \<Rightarrow> bool \<times> nat" where
  "class_loop pattern negate c p =
     (if p < length pattern \<and> pattern ! p \<noteq> CHR '']'' then
        (if p + 2 < length pattern \<and> pattern ! (p + 1) = CHR ''-'' \<and> pattern ! (p + 2) \<noteq> CHR '']'' then
           (if byte_of (pattern ! p) \<le> byte_of c \<and> byte_of c \<le> byte_of (pattern ! (p + 2))
            then (\<not> negate, skip_class pattern (p + 3))
            else class_loop pattern negate c (p + 3))
         else if pattern ! p = c then (\<not> negate, skip_class pattern (p + 1))
         else class_loop pattern negate c (p + 1))
      else (negate, p))"
  by pat_completeness auto
termination by (relation "measure (\<lambda>(pattern, negate, c, p). length pattern - p)") auto

declare skip_class.simps [simp del] class_loop.simps [simp del]

definition matchBracket :: "string \<Rightarrow> nat \<Rightarrow> char \<Rightarrow> bool \<times> nat" where
  "matchBracket pattern p0 c =
     (let p = p0 + 1
      in if p \<ge> length pattern then (False, p)
         else let negate = (pattern ! p = CHR ''!'' \<or> pattern ! p = CHR ''^'')
              in class_loop pattern negate c (if negate then p + 1 else p))"

section \<open>globMatchSimple\<close>

text \<open>The inner loop of the star case. The class is tried at every byte, moving \<open>p\<close> each time.\<close>

function star_scan :: "string \<Rightarrow> string \<Rightarrow> bool \<Rightarrow> char \<Rightarrow> nat \<Rightarrow> nat \<Rightarrow> nat \<times> nat" where
  "star_scan pattern s pathStyle nextPat p i =
     (if i < length s then
        (if pathStyle \<and> s ! i = CHR ''/'' then (p, i)
         else if s ! i = nextPat \<or> (nextPat = CHR ''?'' \<and> s ! i \<noteq> CHR ''/'') then (p, i)
         else if nextPat = CHR ''['' then
           (case matchBracket pattern p (s ! i) of
              (True, p') \<Rightarrow> (p', i)
            | (False, p') \<Rightarrow> star_scan pattern s pathStyle nextPat p' (i + 1))
         else star_scan pattern s pathStyle nextPat p (i + 1))
      else (p, i))"
  by pat_completeness auto
termination
  by (relation "measure (\<lambda>(pattern, s, pathStyle, nextPat, p, i). length s - i)") auto

declare star_scan.simps [simp del]

lemma star_scan_forward: "star_scan pattern s ps np p i = (p', i') \<Longrightarrow> i \<le> i'"
proof (induction pattern s ps np p i arbitrary: p' i' rule: star_scan.induct)
  case (1 pattern s ps np p i)
  show ?case
    using 1 by (subst (asm) (3) star_scan.simps) (fastforce split: if_splits prod.splits bool.splits)
qed

function trailing_stars :: "string \<Rightarrow> nat \<Rightarrow> bool" where
  "trailing_stars pattern p =
     (if p < length pattern \<and> pattern ! p = CHR ''*'' then trailing_stars pattern (p + 1)
      else p = length pattern)"
  by pat_completeness auto
termination by (relation "measure (\<lambda>(pattern, p). length pattern - p)") auto

declare trailing_stars.simps [simp del]

function glob_from :: "string \<Rightarrow> string \<Rightarrow> bool \<Rightarrow> nat \<Rightarrow> nat \<Rightarrow> bool" where
  "glob_from pattern s pathStyle p i =
     (if i < length s then
        (if p \<ge> length pattern then False
         else if pattern ! p = CHR ''*'' then
           (if p + 1 \<ge> length pattern then
              (if pathStyle then \<not> contains (drop i s) ''/'' else True)
            else case star_scan pattern s pathStyle (pattern ! (p + 1)) (p + 1) i of (p', i') \<Rightarrow>
                   if i' \<ge> length s then False else glob_from pattern s pathStyle p' (i' + 1))
         else if pattern ! p = CHR ''?'' then
           (if pathStyle \<and> s ! i = CHR ''/'' then False else glob_from pattern s pathStyle (p + 1) (i + 1))
         else if pattern ! p = CHR ''['' then
           (case matchBracket pattern p (s ! i) of
              (True, p') \<Rightarrow> glob_from pattern s pathStyle (p' + 1) (i + 1)
            | (False, p') \<Rightarrow> False)
         else if pattern ! p \<noteq> s ! i then False
         else glob_from pattern s pathStyle (p + 1) (i + 1))
      else trailing_stars pattern p)"
  by pat_completeness auto
termination
  by (relation "measure (\<lambda>(pattern, s, pathStyle, p, i). length s - i)")
     (auto dest!: star_scan_forward [OF sym])

declare glob_from.simps [simp del]

definition globMatchSimple :: "string \<Rightarrow> string \<Rightarrow> bool \<Rightarrow> bool" where
  "globMatchSimple pattern s pathStyle = glob_from pattern s pathStyle 0 0"

section \<open>globMatchWithDoubleStar\<close>

text \<open>The search for the end of a middle part: the first \<open>j\<close> for which \<open>s[idx:j]\<close> matches.\<close>

definition find_part :: "string \<Rightarrow> string \<Rightarrow> bool \<Rightarrow> nat \<Rightarrow> nat option" where
  "find_part part s pathStyle idx =
     List.find (\<lambda>j. globMatchSimple part (drop idx (take j s)) pathStyle) [idx..<length s + 1]"

fun match_parts :: "string list \<Rightarrow> string \<Rightarrow> bool \<Rightarrow> nat \<Rightarrow> nat option" where
  "match_parts [] s pathStyle idx = Some idx"
| "match_parts (part # parts) s pathStyle idx =
     (if part = [] then match_parts parts s pathStyle idx
      else case find_part part s pathStyle idx of
             None \<Rightarrow> None
           | Some j \<Rightarrow> match_parts parts s pathStyle j)"

definition globMatchWithDoubleStar :: "string \<Rightarrow> string \<Rightarrow> bool \<Rightarrow> bool outcome" where
  "globMatchWithDoubleStar pattern s pathStyle =
     (let parts = split_str ''**'' pattern
      in if length parts = 1 then Returns (globMatchSimple pattern s pathStyle)
         else if \<not> has_prefix pattern ''**'' \<and> \<not> globMatchSimple (hd parts) s pathStyle then Returns False
         else let (idx, rest) = (if \<not> has_prefix pattern ''**'' then (length (hd parts), tl parts) else (0, parts))
              in case match_parts (butlast rest) s pathStyle idx of
                   None \<Rightarrow> Returns False
                 | Some idx' \<Rightarrow>
                     if \<not> has_suffix pattern ''**'' then
                       (if idx' > length s then Panic
                        else Returns (globMatchSimple (last rest) (drop idx' s) pathStyle))
                     else Returns True)"

definition globMatchInternal :: "string \<Rightarrow> string \<Rightarrow> bool \<Rightarrow> bool outcome" where
  "globMatchInternal pattern s pathStyle =
     (if contains pattern ''**'' then globMatchWithDoubleStar pattern s pathStyle
      else Returns (globMatchSimple pattern s pathStyle))"

definition GlobMatch :: "string \<Rightarrow> string \<Rightarrow> bool outcome" where
  "GlobMatch pattern s = globMatchInternal pattern s True"

definition PathGlobMatch :: "string \<Rightarrow> string \<Rightarrow> bool outcome" where
  "PathGlobMatch pattern urlPath =
     GlobMatch (replace_all pattern [CHR 0x5C] ''/'') (replace_all urlPath [CHR 0x5C] ''/'')"

definition URLGlobMatch :: "string \<Rightarrow> string \<Rightarrow> bool outcome" where
  "URLGlobMatch pattern rawURL =
     (if has_prefix pattern ''/'' then
        (case url_parse rawURL of
           Some u \<Rightarrow> PathGlobMatch pattern (u_path u)
         | None \<Rightarrow> Returns False)
      else GlobMatch pattern rawURL)"

section \<open>Literal characters\<close>

definition literal :: "char \<Rightarrow> bool" where
  "literal c \<longleftrightarrow> c \<notin> {CHR ''*'', CHR ''?'', CHR ''[''}"

lemma trailing_stars_end: "trailing_stars pattern (length pattern)"
  by (subst trailing_stars.simps) simp

lemma trailing_stars_literal: "p < length pattern \<Longrightarrow> pattern ! p \<noteq> CHR ''*'' \<Longrightarrow> \<not> trailing_stars pattern p"
  by (subst trailing_stars.simps) simp

text \<open>From a position where only literals and question marks remain, the loop compares byte by byte.\<close>

definition matches_byte :: "char \<Rightarrow> char \<Rightarrow> bool" where
  "matches_byte pc c \<longleftrightarrow> (if pc = CHR ''?'' then c \<noteq> CHR ''/'' else pc = c)"

lemma glob_from_tail:
  "\<forall>c \<in> set (drop p pattern). literal c \<or> c = CHR ''?'' \<Longrightarrow> p \<le> length pattern \<Longrightarrow> i \<le> length s \<Longrightarrow>
     glob_from pattern s True p i \<longleftrightarrow> list_all2 matches_byte (drop p pattern) (drop i s)"
proof (induction "length s - i" arbitrary: p i)
  case 0
  then have i: "i = length s" by simp
  show ?case
  proof (cases "p = length pattern")
    case True
    then show ?thesis using i trailing_stars_end by (subst glob_from.simps) simp
  next
    case False
    then have p: "p < length pattern" using "0.prems" by simp
    then have "pattern ! p \<noteq> CHR ''*''"
      using "0.prems"(1) by (auto simp: literal_def dest!: bspec [of _ _ "pattern ! p"] simp flip: Cons_nth_drop_Suc)
    then show ?thesis using i p trailing_stars_literal by (subst glob_from.simps) simp
  qed
next
  case (Suc n)
  then have i: "i < length s" by simp
  show ?case
  proof (cases "p = length pattern")
    case True
    then show ?thesis using i by (subst glob_from.simps) simp
  next
    case False
    then have p: "p < length pattern" using Suc.prems by simp
    have dp: "drop p pattern = pattern ! p # drop (Suc p) pattern" using p by (simp add: Cons_nth_drop_Suc)
    have di: "drop i s = s ! i # drop (Suc i) s" using i by (simp add: Cons_nth_drop_Suc)
    have lit: "literal (pattern ! p) \<or> pattern ! p = CHR ''?''" using Suc.prems(1) dp by simp
    have "glob_from pattern s True (Suc p) (Suc i) \<longleftrightarrow>
        list_all2 matches_byte (drop (Suc p) pattern) (drop (Suc i) s)"
      by (rule Suc.hyps(1)) (use Suc.prems Suc.hyps(2) p i dp in auto)
    then show ?thesis using i p lit unfolding dp di
      by (subst glob_from.simps) (auto simp: literal_def matches_byte_def)
  qed
qed

lemma literal_no_stars: "\<forall>c \<in> set p. literal c \<or> c = CHR ''?'' \<Longrightarrow> CHR ''*'' \<notin> set p"
  by (auto simp: literal_def)

lemma contains_set: "contains s p \<Longrightarrow> set p \<subseteq> set s"
  by (auto simp: contains_iff)

lemma star_scan_literal:
  "literal x \<Longrightarrow> i \<le> length s \<Longrightarrow> star_scan pattern s True x p i =
     (p, i + length (takeWhile (\<lambda>c. c \<noteq> x \<and> c \<noteq> CHR ''/'') (drop i s)))"
proof (induction "length s - i" arbitrary: i)
  case 0
  then show ?case by (subst star_scan.simps) simp
next
  case (Suc n)
  then have i: "i < length s" by simp
  then have di: "drop i s = s ! i # drop (Suc i) s" by (simp add: Cons_nth_drop_Suc)
  have "star_scan pattern s True x p (Suc i) =
     (p, Suc i + length (takeWhile (\<lambda>c. c \<noteq> x \<and> c \<noteq> CHR ''/'') (drop (Suc i) s)))"
    by (rule Suc.hyps(1)) (use Suc i in auto)
  then show ?case using i Suc.prems(1) unfolding di
    by (subst star_scan.simps) (auto simp: literal_def)
qed

lemma list_all2_literal:
  "\<forall>c \<in> set p. literal c \<Longrightarrow> list_all2 matches_byte p s \<longleftrightarrow> s = p"
proof (induction p arbitrary: s)
  case (Cons c p)
  then show ?case by (cases s) (auto simp: matches_byte_def literal_def)
qed simp

lemma takeWhile_unique: "\<forall>c \<in> set u. P c \<Longrightarrow> \<not> P y \<Longrightarrow> takeWhile P (u @ y # r) = u"
  by (induction u) auto

section \<open>Properties\<close>

text \<open>A pattern of literals and question marks matches exactly the strings that agree with it
  byte by byte, where a question mark stands for any byte but a slash.\<close>
theorem GlobMatch_literal_question:
  assumes "\<forall>c \<in> set pattern. literal c \<or> c = CHR ''?''"
  shows "GlobMatch pattern s = Returns (list_all2 matches_byte pattern s)"
proof -
  have "\<not> contains pattern ''**''"
    using literal_no_stars [OF assms] contains_set by fastforce
  then show ?thesis
    using glob_from_tail [of 0 pattern 0 s] assms
    by (simp add: GlobMatch_def globMatchInternal_def globMatchSimple_def)
qed

theorem GlobMatch_literal_question_witness: "GlobMatch ''/a?c'' ''/abc'' = Returns True"
  using GlobMatch_literal_question [of "''/a?c''" "''/abc''"]
  by (simp add: literal_def matches_byte_def)

text \<open>A double star at the end matches nothing after the prefix: the literal prefix is compared
  with the whole string, so \<open>/docs/**\<close> matches only \<open>/docs/\<close> itself.\<close>
theorem GlobMatch_double_star_suffix:
  assumes "prefix0 \<noteq> []" "\<forall>c \<in> set prefix0. literal c"
  shows "GlobMatch (prefix0 @ ''**'') s = Returns (s = prefix0)"
proof -
  let ?p = "prefix0 @ ''**''"
  have idx: "index_of ?p ''**'' = Some (length prefix0)"
    using assms(2) by (induction prefix0) (auto simp: literal_def)
  then have parts: "split_str ''**'' ?p = [prefix0, []]"
    by (subst split_str.simps) (simp add: split_str.simps)
  have pre: "\<not> has_prefix ?p ''**''" using assms by (cases prefix0) (auto simp: literal_def)
  have suf: "has_suffix ?p ''**''" by simp
  have lit: "\<forall>c \<in> set prefix0. literal c \<or> c = CHR ''?''" using assms(2) by blast
  have "globMatchSimple prefix0 s True \<longleftrightarrow> s = prefix0"
    using glob_from_tail [of 0 prefix0 0 s] lit list_all2_literal [OF assms(2)]
    by (simp add: globMatchSimple_def)
  moreover have "contains ?p ''**''" by (auto simp: contains_iff)
  ultimately show ?thesis using pre suf
    by (simp add: GlobMatch_def globMatchInternal_def globMatchWithDoubleStar_def parts Let_def)
qed

theorem GlobMatch_double_star_suffix_witness:
  "GlobMatch ''/docs/**'' ''/docs/guide'' = Returns False"
  using GlobMatch_double_star_suffix [of "''/docs/''" "''/docs/guide''"] by (simp add: literal_def)

text \<open>After a star, the byte the star stopped at is skipped but not the pattern byte it was
  compared with: \<open>*x...\<close> matches only strings in which the star's stop, an \<open>x\<close> or a slash, is
  followed by \<open>x...\<close> once more. So \<open>*.pdf\<close> does not match \<open>a.pdf\<close>, and does match \<open>a/.pdf\<close>.\<close>
theorem GlobMatch_star_literal:
  assumes "literal x" "\<forall>c \<in> set w. literal c"
  shows "GlobMatch (CHR ''*'' # x # w) s =
    Returns (\<exists>u y. CHR ''/'' \<notin> set u \<and> x \<notin> set u \<and> (y = x \<or> y = CHR ''/'') \<and> s = u @ y # x # w)"
proof -
  let ?p = "CHR ''*'' # x # w"
  define u where "u = takeWhile (\<lambda>c. c \<noteq> x \<and> c \<noteq> CHR ''/'') s"
  have ndd: "\<not> contains ?p ''**''"
  proof
    assume "contains ?p ''**''"
    then obtain a b where ab: "?p = a @ CHR ''*'' # CHR ''*'' # b" by (auto simp: contains_iff)
    then have "CHR ''*'' \<in> set (x # w)" by (cases a) auto
    then show False using assms by (auto simp: literal_def)
  qed
  have tail: "glob_from ?p s True 1 (Suc j) \<longleftrightarrow> drop (Suc j) s = x # w" if "j < length s" for j
    using glob_from_tail [of 1 ?p "Suc j" s] list_all2_literal [of "x # w"] assms that by auto
  have ts: "\<not> trailing_stars ?p 0"
    using assms(1) by (subst trailing_stars.simps) (simp add: trailing_stars_literal literal_def)
  have sim: "globMatchSimple ?p s True \<longleftrightarrow> length u < length s \<and> drop (Suc (length u)) s = x # w"
  proof (cases "s = []")
    case True
    then show ?thesis using ts by (simp add: globMatchSimple_def) (subst glob_from.simps, simp)
  next
    case False
    then show ?thesis
      using star_scan_literal [OF assms(1), of 0 s ?p 1] tail [of "length u"]
      unfolding globMatchSimple_def by (subst glob_from.simps) (auto simp: u_def)
  qed
  also have "\<dots> \<longleftrightarrow> (\<exists>u y. CHR ''/'' \<notin> set u \<and> x \<notin> set u \<and> (y = x \<or> y = CHR ''/'') \<and> s = u @ y # x # w)"
  proof
    assume a: "length u < length s \<and> drop (Suc (length u)) s = x # w"
    have "s = u @ drop (length u) s" unfolding u_def by (metis takeWhile_eq_take append_take_drop_id)
    moreover have "drop (length u) s = s ! length u # x # w" using a by (metis Cons_nth_drop_Suc)
    moreover have "s ! length u = x \<or> s ! length u = CHR ''/''"
      using a nth_length_takeWhile [of "\<lambda>c. c \<noteq> x \<and> c \<noteq> CHR ''/''" s] unfolding u_def by blast
    moreover have "CHR ''/'' \<notin> set u" "x \<notin> set u" unfolding u_def by (auto dest: set_takeWhileD)
    ultimately show "\<exists>u y. CHR ''/'' \<notin> set u \<and> x \<notin> set u \<and> (y = x \<or> y = CHR ''/'') \<and> s = u @ y # x # w" by metis
  next
    assume "\<exists>u y. CHR ''/'' \<notin> set u \<and> x \<notin> set u \<and> (y = x \<or> y = CHR ''/'') \<and> s = u @ y # x # w"
    then obtain v y where v: "CHR ''/'' \<notin> set v" "x \<notin> set v" "y = x \<or> y = CHR ''/''" "s = v @ y # x # w" by blast
    then have "u = v" unfolding u_def v(4) by (intro takeWhile_unique) auto
    then show "length u < length s \<and> drop (Suc (length u)) s = x # w" using v(4) by simp
  qed
  finally show ?thesis using ndd by (simp add: GlobMatch_def globMatchInternal_def)
qed

theorem GlobMatch_star_literal_witness: "GlobMatch ''*.pdf'' ''a/.pdf'' = Returns True"
proof -
  have "\<exists>u y. CHR ''/'' \<notin> set u \<and> CHR ''.'' \<notin> set u \<and> (y = CHR ''.'' \<or> y = CHR ''/'') \<and>
      ''a/.pdf'' = u @ y # CHR ''.'' # ''pdf''"
    by (rule exI [of _ "''a''"], rule exI [of _ "CHR ''/''"]) simp
  then show ?thesis
    using GlobMatch_star_literal [of "CHR ''.''" "''pdf''" "''a/.pdf''"] by (simp add: literal_def)
qed

text \<open>The position after a matched prefix is the length of the pattern's text, not of what it
  matched, so a class before a double star can put it past the end of the string and the slice
  that follows panics.\<close>
theorem GlobMatch_class_before_double_star_panics:
  "GlobMatch ''[ab]**c'' ''a'' = Panic"
  by code_simp

end
