(* ===== verification/BoundedQueue.thy ===== *)
theory BoundedQueue
  imports Prelude
begin

text \<open>
  The ring buffer of \<open>internal/util/bounded_queue.go\<close>, which keeps the last network responses and log
  lines. Its reference is a list that drops its oldest element when it is longer than the capacity.
  The names carry a \<open>bq\<close> because the queue of URLs has operations of the same names. An item is an
  \<open>interface{}\<close>, so a slot is an option: \<open>None\<close> is nil.
\<close>

record 'a bounded_queue =
  bq_capacity :: nat
  bq_items :: "'a option list"
  bq_head :: nat
  bq_tail :: nat
  bq_size :: nat

definition NewBoundedQueue :: "int \<Rightarrow> 'a bounded_queue" where
  "NewBoundedQueue capacity =
     (let c = (if capacity \<le> 0 then 1000 else nat capacity)
      in \<lparr>bq_capacity = c, bq_items = replicate c None, bq_head = 0, bq_tail = 0, bq_size = 0\<rparr>)"

definition bqPush :: "'a bounded_queue \<Rightarrow> 'a option \<Rightarrow> 'a bounded_queue" where
  "bqPush q item =
     (if bq_size q = bq_capacity q then
        q\<lparr>bq_items := (bq_items q)[bq_head q := item],
          bq_head := (bq_head q + 1) mod bq_capacity q,
          bq_tail := (bq_tail q + 1) mod bq_capacity q\<rparr>
      else
        q\<lparr>bq_items := (bq_items q)[bq_tail q := item],
          bq_tail := (bq_tail q + 1) mod bq_capacity q,
          bq_size := bq_size q + 1\<rparr>)"

definition bqGetAll :: "'a bounded_queue \<Rightarrow> 'a option list" where
  "bqGetAll q =
     (if bq_size q = 0 then []
      else map (\<lambda>i. bq_items q ! ((bq_head q + i) mod bq_capacity q)) [0..<bq_size q])"

definition bqLen :: "'a bounded_queue \<Rightarrow> nat" where
  "bqLen q = bq_size q"

definition bqClear :: "'a bounded_queue \<Rightarrow> 'a bounded_queue" where
  "bqClear q = q\<lparr>bq_head := 0, bq_tail := 0, bq_size := 0,
                 bq_items := map (\<lambda>_. None) (bq_items q)\<rparr>"

section \<open>Refinement\<close>

text \<open>The ring is well formed; its abstraction is \<open>bqGetAll\<close>.\<close>

definition bq_wf :: "'a bounded_queue \<Rightarrow> bool" where
  "bq_wf q \<longleftrightarrow> 0 < bq_capacity q \<and> length (bq_items q) = bq_capacity q \<and> bq_head q < bq_capacity q \<and>
     bq_size q \<le> bq_capacity q \<and> bq_tail q = (bq_head q + bq_size q) mod bq_capacity q"

lemma bqGetAll_map: "bqGetAll q = map (\<lambda>i. bq_items q ! ((bq_head q + i) mod bq_capacity q)) [0..<bq_size q]"
  by (simp add: bqGetAll_def)

lemma length_bqGetAll [simp]: "length (bqGetAll q) = bq_size q"
  by (simp add: bqGetAll_map)

lemma nth_bqGetAll:
  "i < bq_size q \<Longrightarrow> bqGetAll q ! i = bq_items q ! ((bq_head q + i) mod bq_capacity q)"
  by (simp add: bqGetAll_map)

lemma mod_add_neq:
  assumes "i < (c::nat)" "j < c" "i \<noteq> j"
  shows "(h + i) mod c \<noteq> (h + j) mod c"
proof -
  have *: False if "i < j" "j < c" "(h + j) mod c = (h + i) mod c" for i j
  proof -
    have "c dvd (h + j) - (h + i)" using that mod_eq_dvd_iff_nat [of "h + i" "h + j" c] by simp
    then have "c dvd j - i" by simp
    then show False using that by (auto dest: dvd_imp_le)
  qed
  from assms show ?thesis using * [of i j] * [of j i] by (metis nat_neq_iff)
qed

lemma bq_wf_New: "bq_wf (NewBoundedQueue c)"
  by (simp add: bq_wf_def NewBoundedQueue_def Let_def)

lemma bq_wf_Push: "bq_wf q \<Longrightarrow> bq_wf (bqPush q x)"
  by (auto simp: bq_wf_def bqPush_def mod_simps)

lemma bq_wf_Clear: "bq_wf q \<Longrightarrow> bq_wf (bqClear q)"
  by (simp add: bq_wf_def bqClear_def)

lemma bq_capacity_Push [simp]: "bq_capacity (bqPush q x) = bq_capacity q"
  by (simp add: bqPush_def)

text \<open>The reference: append, then drop from the front what exceeds the capacity.\<close>

definition keep_last :: "nat \<Rightarrow> 'b list \<Rightarrow> 'b list" where
  "keep_last c xs = drop (length xs - c) xs"

lemma bqGetAll_Push:
  assumes "bq_wf q"
  shows "bqGetAll (bqPush q x) = keep_last (bq_capacity q) (bqGetAll q @ [x])"
proof (cases "bq_size q = bq_capacity q")
  case True
  let ?c = "bq_capacity q" and ?h = "bq_head q"
  have wf: "0 < ?c" "length (bq_items q) = ?c" "?h < ?c" using assms by (simp_all add: bq_wf_def)
  show ?thesis
  proof (rule nth_equalityI)
    show "length (bqGetAll (bqPush q x)) = length (keep_last ?c (bqGetAll q @ [x]))"
      using True by (simp add: keep_last_def bqPush_def)
    fix i assume "i < length (bqGetAll (bqPush q x))"
    then have i: "i < ?c" using True by (simp add: bqPush_def)
    have idx: "(Suc ?h mod ?c + i) mod ?c = (?h + Suc i) mod ?c" by (simp add: mod_simps)
    have l: "bqGetAll (bqPush q x) ! i = (bq_items q)[?h := x] ! ((?h + Suc i) mod ?c)"
      using i True idx by (simp add: nth_bqGetAll bqPush_def)
    have r: "keep_last ?c (bqGetAll q @ [x]) ! i = (bqGetAll q @ [x]) ! Suc i"
      using True i nth_drop [of 1 "bqGetAll q @ [x]" i] by (simp add: keep_last_def del: drop_append nth_drop)
    show "bqGetAll (bqPush q x) ! i = keep_last ?c (bqGetAll q @ [x]) ! i"
    proof (cases "Suc i = ?c")
      case last: True
      then have "(?h + Suc i) mod ?c = ?h" using wf by simp
      then show ?thesis using l r last True wf by (simp add: nth_append)
    next
      case False
      then have "(?h + Suc i) mod ?c \<noteq> ?h"
        using mod_add_neq [of "Suc i" ?c 0 ?h] i wf by simp
      then show ?thesis using l r False True i by (simp add: nth_append nth_bqGetAll)
    qed
  qed
next
  case False
  let ?c = "bq_capacity q" and ?h = "bq_head q" and ?n = "bq_size q"
  have wf: "0 < ?c" "length (bq_items q) = ?c" "?h < ?c" "?n < ?c" "bq_tail q = (?h + ?n) mod ?c"
    using assms False by (simp_all add: bq_wf_def)
  show ?thesis
  proof (rule nth_equalityI)
    show "length (bqGetAll (bqPush q x)) = length (keep_last ?c (bqGetAll q @ [x]))"
      using False wf by (simp add: keep_last_def bqPush_def)
    fix i assume "i < length (bqGetAll (bqPush q x))"
    then have i: "i < Suc ?n" using False by (simp add: bqPush_def)
    have l: "bqGetAll (bqPush q x) ! i = (bq_items q)[(?h + ?n) mod ?c := x] ! ((?h + i) mod ?c)"
      using i False wf(5) by (simp add: nth_bqGetAll bqPush_def)
    have r: "keep_last ?c (bqGetAll q @ [x]) ! i = (bqGetAll q @ [x]) ! i"
      using wf by (simp add: keep_last_def)
    show "bqGetAll (bqPush q x) ! i = keep_last ?c (bqGetAll q @ [x]) ! i"
    proof (cases "i = ?n")
      case True
      then show ?thesis using l r wf by (simp add: nth_append)
    next
      case ni: False
      then have "(?h + ?n) mod ?c \<noteq> (?h + i) mod ?c" using mod_add_neq [of ?n ?c i ?h] i wf by simp
      then show ?thesis using l r ni i by (simp add: nth_append nth_bqGetAll)
    qed
  qed
qed

lemma keep_last_append: "0 < c \<Longrightarrow> keep_last c (keep_last c xs @ ys) = keep_last c (xs @ ys)"
  by (cases "length xs \<le> c") (auto simp: keep_last_def add.commute)

lemma bqGetAll_pushes:
  "bq_wf q \<Longrightarrow> bqGetAll (foldl bqPush q xs) = keep_last (bq_capacity q) (bqGetAll q @ xs)"
proof (induction xs arbitrary: q)
  case Nil
  then show ?case by (simp add: keep_last_def bq_wf_def)
next
  case (Cons x xs)
  then show ?case
    using keep_last_append [of "bq_capacity q" "bqGetAll q @ [x]" xs] bq_wf_Push [OF Cons.prems, of x]
    by (simp add: bqGetAll_Push bq_wf_def)
qed

section \<open>Properties\<close>

text \<open>However many items are pushed, the ring holds exactly the last \<open>capacity\<close> of them, in the
  order they came (1000 of them when the constructor is given no positive capacity), and after a
  \<open>Clear\<close> it behaves as a fresh one.\<close>
theorem BoundedQueue_keeps_last:
  "bqGetAll (foldl bqPush (NewBoundedQueue c) xs) = keep_last (if c \<le> 0 then 1000 else nat c) xs \<and>
   bqGetAll (foldl bqPush (bqClear (foldl bqPush (NewBoundedQueue c) ys)) xs) =
     bqGetAll (foldl bqPush (NewBoundedQueue c) xs)"
proof
  let ?c = "if c \<le> 0 then 1000 else nat c"
  have e: "bqGetAll (NewBoundedQueue c) = []" "bq_capacity (NewBoundedQueue c) = ?c"
    by (simp_all add: bqGetAll_def NewBoundedQueue_def Let_def)
  show one: "bqGetAll (foldl bqPush (NewBoundedQueue c) xs) = keep_last ?c xs"
    using bqGetAll_pushes [OF bq_wf_New, of c xs] by (simp add: e)
  define q where "q = foldl bqPush (NewBoundedQueue c) ys"
  have cap: "bq_capacity (foldl bqPush r ys) = bq_capacity r" for r :: "'a bounded_queue"
    by (induction ys arbitrary: r) simp_all
  have "bq_wf (foldl bqPush r ys)" if "bq_wf r" for r :: "'a bounded_queue"
    using that by (induction ys arbitrary: r) (simp_all add: bq_wf_Push)
  then have "bq_wf (bqClear q)" using bq_wf_Clear bq_wf_New unfolding q_def by blast
  moreover have "bqGetAll (bqClear q) = []" "bq_capacity (bqClear q) = ?c"
    using cap e by (simp_all add: bqGetAll_def bqClear_def q_def)
  ultimately show "bqGetAll (foldl bqPush (bqClear q) xs) = bqGetAll (foldl bqPush (NewBoundedQueue c) xs)"
    using bqGetAll_pushes [of "bqClear q" xs] one by simp
qed

end
