(* ===== verification/Lru.thy ===== *)
theory Lru
  imports Prelude "HOL-Library.AList_Mapping"
begin

text \<open>
  The least-recently-used set and cache of \<open>internal/util\<close> (lru_set.go, lru_cache.go). Both keep a
  map from keys to the nodes of a doubly linked list between two sentinels. Nodes live in a store,
  a function from addresses to node records with the address of the next allocation; a node of the
  cache extends a node of the set by its value, so the list operations are written once for both.
  The invariant \<open>lru_rep\<close> ties a store to the list of keys it stands for, most recently used first;
  under it every pointer the code follows is one of a live node or a sentinel.
\<close>

section \<open>Nodes and the linked list\<close>

record lru_node =
  n_key :: string
  n_prev :: nat
  n_next :: nat

record lru_value_node = lru_node +
  n_value :: string

record 'n lru =
  lru_capacity :: nat
  lru_items :: "(string, nat) mapping"
  lru_head :: nat
  lru_tail :: nat
  lru_nodes :: "nat \<Rightarrow> 'n"
  lru_fresh :: nat

definition set_next :: "nat \<Rightarrow> nat \<Rightarrow> ('a lru_node_scheme) lru \<Rightarrow> ('a lru_node_scheme) lru" where
  "set_next a b c = c\<lparr>lru_nodes := (lru_nodes c)(a := (lru_nodes c a)\<lparr>n_next := b\<rparr>)\<rparr>"

definition set_prev :: "nat \<Rightarrow> nat \<Rightarrow> ('a lru_node_scheme) lru \<Rightarrow> ('a lru_node_scheme) lru" where
  "set_prev a b c = c\<lparr>lru_nodes := (lru_nodes c)(a := (lru_nodes c a)\<lparr>n_prev := b\<rparr>)\<rparr>"

definition addToHead :: "nat \<Rightarrow> ('a lru_node_scheme) lru \<Rightarrow> ('a lru_node_scheme) lru" where
  "addToHead node c0 =
     (let c1 = set_prev node (lru_head c0) c0;
          c2 = set_next node (n_next (lru_nodes c1 (lru_head c1))) c1;
          c3 = set_prev (n_next (lru_nodes c2 (lru_head c2))) node c2
      in set_next (lru_head c3) node c3)"

definition removeNode :: "nat \<Rightarrow> ('a lru_node_scheme) lru \<Rightarrow> ('a lru_node_scheme) lru" where
  "removeNode node c0 =
     (let prv = n_prev (lru_nodes c0 node);
          nxt = n_next (lru_nodes c0 node);
          c1 = set_next prv nxt c0
      in set_prev nxt prv c1)"

definition moveToHead :: "nat \<Rightarrow> ('a lru_node_scheme) lru \<Rightarrow> ('a lru_node_scheme) lru" where
  "moveToHead node c = addToHead node (removeNode node c)"

definition removeLRU :: "('a lru_node_scheme) lru \<Rightarrow> ('a lru_node_scheme) lru" where
  "removeLRU c =
     (let node = n_prev (lru_nodes c (lru_tail c))
      in if node = lru_head c then c
         else let c1 = removeNode node c
              in c1\<lparr>lru_items := Mapping.delete (n_key (lru_nodes c1 node)) (lru_items c1)\<rparr>)"

text \<open>\<open>len(s.items)\<close>: the number of entries of the map.\<close>

definition lru_len :: "'n lru \<Rightarrow> nat" where
  "lru_len c = Mapping.size (lru_items c)"

text \<open>Allocation of a node, entry in the map, link at the head, eviction: the tail of \<open>Add\<close>,
  \<open>AddIfAbsent\<close>, \<open>Put\<close> and \<open>PutIfAbsent\<close> when the key is absent.\<close>

definition insertNode :: "string \<Rightarrow> 'a lru_node_scheme \<Rightarrow> ('a lru_node_scheme) lru \<Rightarrow> ('a lru_node_scheme) lru" where
  "insertNode k node c =
     (let a = lru_fresh c;
          c1 = c\<lparr>lru_nodes := (lru_nodes c)(a := node), lru_fresh := a + 1,
                 lru_items := Mapping.update k a (lru_items c)\<rparr>;
          c2 = addToHead a c1
      in if lru_len c2 > lru_capacity c2 then removeLRU c2 else c2)"

text \<open>The constructor: two sentinels linked to each other, at addresses 1 and 2 (0 is nil).\<close>

definition new_lru :: "'a lru_node_scheme \<Rightarrow> int \<Rightarrow> ('a lru_node_scheme) lru" where
  "new_lru blank capacity =
     (let c = (if capacity \<le> 0 then 1000 else nat capacity)
      in set_prev 2 1 (set_next 1 2
           \<lparr>lru_capacity = c, lru_items = Mapping.empty, lru_head = 1, lru_tail = 2,
             lru_nodes = (\<lambda>_. blank), lru_fresh = 3\<rparr>))"

section \<open>lru_set.go\<close>

type_synonym lru_set = "lru_node lru"

definition NewLRUSet :: "int \<Rightarrow> lru_set" where
  "NewLRUSet capacity = new_lru \<lparr>n_key = [], n_prev = 0, n_next = 0\<rparr> capacity"

definition lruAdd :: "lru_set \<Rightarrow> string \<Rightarrow> lru_set" where
  "lruAdd s k =
     (case Mapping.lookup (lru_items s) k of
        Some node \<Rightarrow> moveToHead node s
      | None \<Rightarrow> insertNode k \<lparr>n_key = k, n_prev = 0, n_next = 0\<rparr> s)"

definition lruAddIfAbsent :: "lru_set \<Rightarrow> string \<Rightarrow> bool \<times> lru_set" where
  "lruAddIfAbsent s k =
     (case Mapping.lookup (lru_items s) k of
        Some node \<Rightarrow> (False, s)
      | None \<Rightarrow> (True, insertNode k \<lparr>n_key = k, n_prev = 0, n_next = 0\<rparr> s))"

definition lruContains :: "lru_set \<Rightarrow> string \<Rightarrow> bool" where
  "lruContains s k \<longleftrightarrow> Mapping.lookup (lru_items s) k \<noteq> None"

definition lruClear :: "lru_set \<Rightarrow> lru_set" where
  "lruClear s0 =
     (let s = s0\<lparr>lru_items := Mapping.empty\<rparr>
      in set_prev (lru_tail s) (lru_head s) (set_next (lru_head s) (lru_tail s) s))"

text \<open>\<open>Keys\<close> lists the map's keys in Go's unspecified order, so its value is their set.\<close>

definition lruKeys :: "lru_set \<Rightarrow> string set" where
  "lruKeys s = Mapping.keys (lru_items s)"

section \<open>lru_cache.go\<close>

type_synonym lru_cache = "lru_value_node lru"

definition NewLRUCache :: "int \<Rightarrow> lru_cache" where
  "NewLRUCache capacity = new_lru \<lparr>n_key = [], n_prev = 0, n_next = 0, n_value = []\<rparr> capacity"

definition lruGet :: "lru_cache \<Rightarrow> string \<Rightarrow> (string \<times> bool) \<times> lru_cache" where
  "lruGet c k =
     (case Mapping.lookup (lru_items c) k of
        None \<Rightarrow> (([], False), c)
      | Some node \<Rightarrow> let c' = moveToHead node c in ((n_value (lru_nodes c' node), True), c'))"

definition lruPut :: "lru_cache \<Rightarrow> string \<Rightarrow> string \<Rightarrow> lru_cache" where
  "lruPut c k v =
     (case Mapping.lookup (lru_items c) k of
        Some node \<Rightarrow>
          moveToHead node (c\<lparr>lru_nodes := (lru_nodes c)(node := (lru_nodes c node)\<lparr>n_value := v\<rparr>)\<rparr>)
      | None \<Rightarrow> insertNode k \<lparr>n_key = k, n_prev = 0, n_next = 0, n_value = v\<rparr> c)"

definition lruPutIfAbsent :: "lru_cache \<Rightarrow> string \<Rightarrow> string \<Rightarrow> (string \<times> bool) \<times> lru_cache" where
  "lruPutIfAbsent c k v =
     (case Mapping.lookup (lru_items c) k of
        Some node \<Rightarrow> let c' = moveToHead node c in ((n_value (lru_nodes c' node), False), c')
      | None \<Rightarrow> ((v, True), insertNode k \<lparr>n_key = k, n_prev = 0, n_next = 0, n_value = v\<rparr> c))"

section \<open>The list the store stands for\<close>

fun linked :: "(nat \<Rightarrow> 'a lru_node_scheme) \<Rightarrow> nat list \<Rightarrow> bool" where
  "linked nd (a # b # r) \<longleftrightarrow> n_next (nd a) = b \<and> n_prev (nd b) = a \<and> linked nd (b # r)"
| "linked nd _ \<longleftrightarrow> True"

lemma linked_append: "linked nd (xs @ a # ys) \<longleftrightarrow> linked nd (xs @ [a]) \<and> linked nd (a # ys)"
proof (induction xs)
  case (Cons x xs)
  then show ?case by (cases xs) auto
qed simp

lemma linked_frame:
  "linked nd xs \<Longrightarrow> (\<And>x. x \<in> set (butlast xs) \<Longrightarrow> n_next (nd' x) = n_next (nd x)) \<Longrightarrow>
     (\<And>x. x \<in> set (tl xs) \<Longrightarrow> n_prev (nd' x) = n_prev (nd x)) \<Longrightarrow> linked nd' xs"
proof (induction nd xs rule: linked.induct)
  case (1 nd a b r)
  have "linked nd' (b # r)" by (rule "1.IH") (use 1 in \<open>auto split: if_splits\<close>)
  then show ?case using 1 by simp
qed simp_all

lemma lru_upd_simps [simp]:
  "lru_items (set_next a b c) = lru_items c" "lru_items (set_prev a b c) = lru_items c"
  "lru_head (set_next a b c) = lru_head c" "lru_head (set_prev a b c) = lru_head c"
  "lru_tail (set_next a b c) = lru_tail c" "lru_tail (set_prev a b c) = lru_tail c"
  "lru_fresh (set_next a b c) = lru_fresh c" "lru_fresh (set_prev a b c) = lru_fresh c"
  "lru_capacity (set_next a b c) = lru_capacity c" "lru_capacity (set_prev a b c) = lru_capacity c"
  "n_key (lru_nodes (set_next a b c) x) = n_key (lru_nodes c x)"
  "n_key (lru_nodes (set_prev a b c) x) = n_key (lru_nodes c x)"
  "lru_node.more (lru_nodes (set_next a b c) x) = lru_node.more (lru_nodes c x)"
  "lru_node.more (lru_nodes (set_prev a b c) x) = lru_node.more (lru_nodes c x)"
  "n_next (lru_nodes (set_next a b c) x) = (if x = a then b else n_next (lru_nodes c x))"
  "n_prev (lru_nodes (set_next a b c) x) = n_prev (lru_nodes c x)"
  "n_prev (lru_nodes (set_prev a b c) x) = (if x = a then b else n_prev (lru_nodes c x))"
  "n_next (lru_nodes (set_prev a b c) x) = n_next (lru_nodes c x)"
  by (simp_all add: set_next_def set_prev_def)

lemma lru_op_simps [simp]:
  "lru_items (addToHead a c) = lru_items c" "lru_items (removeNode a c) = lru_items c"
  "lru_head (addToHead a c) = lru_head c" "lru_head (removeNode a c) = lru_head c"
  "lru_tail (addToHead a c) = lru_tail c" "lru_tail (removeNode a c) = lru_tail c"
  "lru_fresh (addToHead a c) = lru_fresh c" "lru_fresh (removeNode a c) = lru_fresh c"
  "lru_capacity (addToHead a c) = lru_capacity c" "lru_capacity (removeNode a c) = lru_capacity c"
  "n_key (lru_nodes (addToHead a c) x) = n_key (lru_nodes c x)"
  "n_key (lru_nodes (removeNode a c) x) = n_key (lru_nodes c x)"
  "lru_node.more (lru_nodes (addToHead a c) x) = lru_node.more (lru_nodes c x)"
  "lru_node.more (lru_nodes (removeNode a c) x) = lru_node.more (lru_nodes c x)"
  by (simp_all add: addToHead_def removeNode_def Let_def)

lemma linked_removeNode:
  assumes "linked (lru_nodes c) (us @ p # a # n # vs)" "distinct (us @ p # a # n # vs)"
  shows "linked (lru_nodes (removeNode a c)) (us @ p # n # vs)"
proof -
  have l: "linked (lru_nodes c) (us @ [p])" "n_prev (lru_nodes c a) = p" "n_next (lru_nodes c a) = n"
    "linked (lru_nodes c) (n # vs)"
    using assms(1) linked_append [of "lru_nodes c" us p "a # n # vs"] by auto
  let ?c = "removeNode a c"
  have nx: "n_next (lru_nodes ?c x) = (if x = p then n else n_next (lru_nodes c x))" for x
    using l(2,3) by (simp add: removeNode_def Let_def)
  have pv: "n_prev (lru_nodes ?c x) = (if x = n then p else n_prev (lru_nodes c x))" for x
    using l(2,3) by (simp add: removeNode_def Let_def)
  have "linked (lru_nodes ?c) (us @ [p])"
    using l(1) by (rule linked_frame) (use assms(2) in \<open>auto simp: nx pv dest!: set_tlD\<close>)
  moreover have "linked (lru_nodes ?c) (n # vs)"
    using l(4) by (rule linked_frame) (use assms(2) in \<open>auto simp: nx pv dest!: in_set_butlastD split: if_splits\<close>)
  ultimately show ?thesis
    using linked_append [of "lru_nodes ?c" us p "n # vs"] by (simp add: nx pv)
qed

lemma linked_addToHead:
  assumes "linked (lru_nodes c) (lru_head c # b # r)" "distinct (a # lru_head c # b # r)"
  shows "linked (lru_nodes (addToHead a c)) (lru_head c # a # b # r)"
proof -
  let ?c = "addToHead a c"
  have b: "n_next (lru_nodes c (lru_head c)) = b" using assms(1) by simp
  have nx: "n_next (lru_nodes ?c x) = (if x = lru_head c then a else if x = a then b else n_next (lru_nodes c x))" for x
    using b assms(2) by (simp add: addToHead_def Let_def)
  have pv: "n_prev (lru_nodes ?c x) = (if x = b then a else if x = a then lru_head c else n_prev (lru_nodes c x))" for x
    using b assms(2) by (auto simp add: addToHead_def Let_def)
  have "linked (lru_nodes c) (b # r)" using assms(1) by simp
  then have "linked (lru_nodes ?c) (b # r)"
    by (rule linked_frame) (use assms(2) in \<open>auto simp: nx pv dest!: in_set_butlastD split: if_splits\<close>)
  then show ?thesis using assms(2) by (auto simp: nx pv)
qed

section \<open>The representation invariant\<close>

definition lru_keys :: "('a lru_node_scheme) lru \<Rightarrow> nat list \<Rightarrow> string list" where
  "lru_keys c as = map (\<lambda>a. n_key (lru_nodes c a)) as"

definition lru_list :: "('a lru_node_scheme) lru \<Rightarrow> nat list \<Rightarrow> bool" where
  "lru_list c as \<longleftrightarrow>
     distinct (lru_head c # as @ [lru_tail c]) \<and>
     (\<forall>a \<in> set (lru_head c # as @ [lru_tail c]). a < lru_fresh c) \<and>
     linked (lru_nodes c) (lru_head c # as @ [lru_tail c]) \<and>
     distinct (lru_keys c as) \<and>
     (\<forall>k a. Mapping.lookup (lru_items c) k = Some a \<longleftrightarrow> a \<in> set as \<and> n_key (lru_nodes c a) = k)"

definition lru_rep :: "('a lru_node_scheme) lru \<Rightarrow> nat list \<Rightarrow> bool" where
  "lru_rep c as \<longleftrightarrow> lru_list c as \<and> length as \<le> lru_capacity c \<and> 0 < lru_capacity c"

lemma lru_items_iff: "lru_list c as \<Longrightarrow> Mapping.lookup (lru_items c) k = Some a \<longleftrightarrow> a \<in> set as \<and> n_key (lru_nodes c a) = k"
  by (simp add: lru_list_def)

lemma lru_dom: "lru_list c as \<Longrightarrow> Mapping.keys (lru_items c) = set (lru_keys c as)"
  by (auto simp: lru_items_iff lru_keys_def keys_dom_lookup)

lemma lru_len_list: "lru_list c as \<Longrightarrow> lru_len c = length as"
proof -
  assume l: "lru_list c as"
  then have "distinct (lru_keys c as)" by (simp add: lru_list_def)
  from distinct_card [OF this] show ?thesis by (simp add: lru_len_def Mapping.size_def lru_dom [OF l] lru_keys_def)
qed

lemma lru_list_moveToHead:
  assumes "lru_list c (xs @ a # ys)"
  shows "lru_list (moveToHead a c) (a # xs @ ys)"
proof -
  let ?h = "lru_head c" and ?t = "lru_tail c"
  define us p where "us = butlast (?h # xs)" and "p = last (?h # xs)"
  have hp: "?h # xs = us @ [p]" by (simp add: us_def p_def)
  obtain n vs where nv: "ys @ [?t] = n # vs" by (cases "ys @ [?t]") auto
  have path: "?h # (xs @ a # ys) @ [?t] = us @ p # a # n # vs"
    using hp nv by (metis append.assoc append_Cons append_Nil)
  have l: "linked (lru_nodes c) (us @ p # a # n # vs)" "distinct (us @ p # a # n # vs)"
    using assms unfolding lru_list_def path by simp_all
  have rest: "us @ p # n # vs = ?h # xs @ ys @ [?t]" using hp nv by (metis append.assoc append_Cons append_Nil)
  obtain b r where br: "xs @ ys @ [?t] = b # r" by (cases "xs @ ys @ [?t]") auto
  have "linked (lru_nodes (removeNode a c)) (lru_head (removeNode a c) # b # r)"
    using linked_removeNode [OF l] unfolding rest by (simp add: br)
  moreover have "distinct (a # ?h # b # r)"
    using l(2) unfolding rest [unfolded br, symmetric] path [symmetric] br [symmetric] using assms
    by (auto simp: lru_list_def)
  ultimately have "linked (lru_nodes (moveToHead a c)) (?h # a # b # r)"
    using linked_addToHead [of "removeNode a c" b r a] by (simp add: moveToHead_def)
  then have "linked (lru_nodes (moveToHead a c)) (?h # (a # xs @ ys) @ [?t])" by (simp add: br)
  then show ?thesis using assms by (auto simp: lru_list_def moveToHead_def lru_keys_def)
qed

lemma lru_list_removeLRU:
  assumes "lru_list c (xs @ [z])"
  shows "lru_list (removeLRU c) xs"
proof -
  let ?h = "lru_head c" and ?t = "lru_tail c"
  define us p where "us = butlast (?h # xs)" and "p = last (?h # xs)"
  have hp: "?h # xs = us @ [p]" by (simp add: us_def p_def)
  have path: "?h # (xs @ [z]) @ [?t] = us @ p # z # ?t # []" using hp by simp
  have l: "linked (lru_nodes c) (us @ p # z # ?t # [])" "distinct (us @ p # z # ?t # [])"
    using assms unfolding lru_list_def path by simp_all
  have "linked (lru_nodes c) (p # z # ?t # [])"
    by (rule iffD1 [OF linked_append, THEN conjunct2, OF l(1)])
  then have last: "n_prev (lru_nodes c ?t) = z" by simp
  have zh: "z \<noteq> ?h" using assms by (auto simp: lru_list_def)
  have eq: "us @ p # ?t # [] = ?h # xs @ [?t]" using hp by simp
  have "linked (lru_nodes (removeNode z c)) (?h # xs @ [?t])" using linked_removeNode [OF l] unfolding eq .
  moreover have "lru_items (removeLRU c) = Mapping.delete (n_key (lru_nodes c z)) (lru_items c)"
    "lru_nodes (removeLRU c) = lru_nodes (removeNode z c)" "lru_head (removeLRU c) = ?h"
    "lru_tail (removeLRU c) = ?t" "lru_fresh (removeLRU c) = lru_fresh c"
    using zh by (simp_all add: removeLRU_def last Let_def)
  moreover have "n_key (lru_nodes c y) \<noteq> n_key (lru_nodes c z)" if "y \<in> set xs" for y
  proof -
    have "distinct (lru_keys c xs @ [n_key (lru_nodes c z)])"
      using assms by (simp add: lru_list_def lru_keys_def)
    moreover have "n_key (lru_nodes c y) \<in> set (lru_keys c xs)" using that by (simp add: lru_keys_def)
    ultimately show ?thesis by auto
  qed
  moreover have "Mapping.lookup (Mapping.delete q (lru_items c)) x =
      (if x = q then None else Mapping.lookup (lru_items c) x)" for q x
    by (simp add: Mapping.lookup_delete_neq)
  ultimately show ?thesis using assms by (auto simp: lru_list_def lru_keys_def)
qed

lemma removeLRU_capacity [simp]: "lru_capacity (removeLRU c) = lru_capacity c"
  by (simp add: removeLRU_def Let_def)

lemma removeLRU_nodes [simp]:
  "n_key (lru_nodes (removeLRU c) x) = n_key (lru_nodes c x)"
  "lru_node.more (lru_nodes (removeLRU c) x) = lru_node.more (lru_nodes c x)"
  by (simp_all add: removeLRU_def Let_def)

lemma lru_rep_insertNode:
  assumes rep: "lru_rep c as" and k: "Mapping.lookup (lru_items c) k = None" and node: "n_key node = k"
  shows "lru_rep (insertNode k node c) (take (lru_capacity c) (lru_fresh c # as))"
proof -
  let ?a = "lru_fresh c"
  define c1 where "c1 = c\<lparr>lru_nodes := (lru_nodes c)(?a := node), lru_fresh := ?a + 1,
                          lru_items := Mapping.update k ?a (lru_items c)\<rparr>"
  have L: "lru_list c as" "length as \<le> lru_capacity c" "0 < lru_capacity c" using rep by (simp_all add: lru_rep_def)
  let ?path = "lru_head c # as @ [lru_tail c]"
  have fresh: "?a \<notin> set ?path" using L(1) by (auto simp: lru_list_def)
  have "linked (lru_nodes c1) ?path"
  proof (rule linked_frame)
    show "linked (lru_nodes c) ?path" using L(1) by (simp add: lru_list_def)
  qed (use fresh in \<open>auto simp: c1_def dest!: in_set_butlastD set_tlD\<close>)
  moreover obtain b r where br: "as @ [lru_tail c] = b # r" by (cases "as @ [lru_tail c]") auto
  ultimately have "linked (lru_nodes (addToHead ?a c1)) (lru_head c # ?a # b # r)"
    using linked_addToHead [of c1 b r ?a] fresh L(1) br by (auto simp: c1_def lru_list_def)
  then have lk: "linked (lru_nodes (addToHead ?a c1)) (lru_head c # (?a # as) @ [lru_tail c])" by (simp add: br)
  have kout: "k \<notin> set (lru_keys c as)" using k lru_dom [OF L(1)] by (auto simp: keys_dom_lookup)
  have items: "Mapping.lookup (lru_items c) x = Some y \<longleftrightarrow> y \<in> set as \<and> n_key (lru_nodes c y) = x" for x y
    by (rule lru_items_iff [OF L(1)])
  have nk: "n_key (lru_nodes c1 y) = n_key (lru_nodes c y)" if "y \<in> set as" for y
    using that fresh by (auto simp: c1_def)
  have keys: "lru_keys (addToHead ?a c1) (?a # as) = k # lru_keys c as"
    using nk node by (simp add: lru_keys_def) (simp add: c1_def node)
  have l2: "lru_list (addToHead ?a c1) (?a # as)"
    unfolding lru_list_def keys
  proof (intro conjI)
    show "distinct (lru_head (addToHead ?a c1) # (?a # as) @ [lru_tail (addToHead ?a c1)])"
      "\<forall>y \<in> set (lru_head (addToHead ?a c1) # (?a # as) @ [lru_tail (addToHead ?a c1)]). y < lru_fresh (addToHead ?a c1)"
      using L(1) fresh by (auto simp: c1_def lru_list_def)
    show "linked (lru_nodes (addToHead ?a c1)) (lru_head (addToHead ?a c1) # (?a # as) @ [lru_tail (addToHead ?a c1)])"
      using lk by (simp add: c1_def)
    show "distinct (k # lru_keys c as)" using kout L(1) by (simp add: lru_list_def)
    show "\<forall>x y. Mapping.lookup (lru_items (addToHead ?a c1)) x = Some y \<longleftrightarrow>
             y \<in> set (?a # as) \<and> n_key (lru_nodes (addToHead ?a c1) y) = x"
    proof (intro allI)
      fix x y
      have "y \<in> set as \<Longrightarrow> n_key (lru_nodes c y) \<noteq> k" using kout by (auto simp: lru_keys_def)
      then show "Mapping.lookup (lru_items (addToHead ?a c1)) x = Some y \<longleftrightarrow>
             y \<in> set (?a # as) \<and> n_key (lru_nodes (addToHead ?a c1) y) = x"
        using items [of x y] fresh node by (auto simp: c1_def Mapping.lookup_update')
    qed
  qed
  show ?thesis
  proof (cases "length as = lru_capacity c")
    case True
    then obtain xs z where xz: "?a # as = xs @ [z]" by (metis list.discI rev_exhaust)
    then have "length xs = lru_capacity c" using True by (metis length_Cons length_append_singleton nat.inject)
    then have t: "take (lru_capacity c) (?a # as) = xs" by (simp add: xz)
    have "insertNode k node c = removeLRU (addToHead ?a c1)"
      using True lru_len_list [OF l2] by (simp add: insertNode_def Let_def c1_def)
    then show ?thesis
      using lru_list_removeLRU [of "addToHead ?a c1" xs z] l2 xz L(3) t \<open>length xs = lru_capacity c\<close>
      by (simp add: lru_rep_def c1_def)
  next
    case False
    then have "length as < lru_capacity c" using L(2) by simp
    moreover from this have "insertNode k node c = addToHead ?a c1"
      using lru_len_list [OF l2] by (simp add: insertNode_def Let_def c1_def)
    ultimately show ?thesis using l2 L(3) by (simp add: lru_rep_def c1_def)
  qed
qed

lemma lru_list_new: "lru_rep (new_lru blank n) []"
  by (auto simp: lru_rep_def lru_list_def new_lru_def Let_def lru_keys_def)

section \<open>Refinement of the set and the cache to lists\<close>

text \<open>The set stands for the list of its keys, most recently used first; the cache for the list of its
  entries.\<close>

definition set_repr :: "lru_set \<Rightarrow> string list \<Rightarrow> bool" where
  "set_repr s ks \<longleftrightarrow> (\<exists>as. lru_rep s as \<and> ks = lru_keys s as)"

definition lru_entries :: "lru_cache \<Rightarrow> nat list \<Rightarrow> (string \<times> string) list" where
  "lru_entries c as = map (\<lambda>a. (n_key (lru_nodes c a), n_value (lru_nodes c a))) as"

definition cache_repr :: "lru_cache \<Rightarrow> (string \<times> string) list \<Rightarrow> bool" where
  "cache_repr c es \<longleftrightarrow> (\<exists>as. lru_rep c as \<and> es = lru_entries c as)"

text \<open>The reference operations.\<close>

definition touch :: "('a \<Rightarrow> bool) \<Rightarrow> 'a list \<Rightarrow> 'a list" where
  "touch P xs = filter P xs @ filter (\<lambda>x. \<not> P x) xs"

definition ref_add :: "nat \<Rightarrow> string \<Rightarrow> string list \<Rightarrow> string list" where
  "ref_add cap k ks = (if k \<in> set ks then touch (\<lambda>x. x = k) ks else take cap (k # ks))"

definition ref_put :: "nat \<Rightarrow> string \<Rightarrow> string \<Rightarrow> (string \<times> string) list \<Rightarrow> (string \<times> string) list" where
  "ref_put cap k v es =
     (if k \<in> fst ` set es then (k, v) # filter (\<lambda>e. fst e \<noteq> k) es else take cap ((k, v) # es))"

lemma filter_split_key:
  assumes "distinct (map f (xs @ a # ys))"
  shows "filter (\<lambda>x. f x = f a) (xs @ a # ys) = [a]" "filter (\<lambda>x. f x \<noteq> f a) (xs @ a # ys) = xs @ ys"
proof -
  have "f a \<notin> f ` set (xs @ ys)" using assms by auto
  then have "f x \<noteq> f a" if "x \<in> set (xs @ ys)" for x using that by (metis image_eqI)
  then have "filter (\<lambda>x. f x = f a) xs = []" "filter (\<lambda>x. f x = f a) ys = []"
    "filter (\<lambda>x. f x \<noteq> f a) xs = xs" "filter (\<lambda>x. f x \<noteq> f a) ys = ys"
    by (auto simp: filter_empty_conv)
  then show "filter (\<lambda>x. f x = f a) (xs @ a # ys) = [a]" "filter (\<lambda>x. f x \<noteq> f a) (xs @ a # ys) = xs @ ys"
    by simp_all
qed

lemma lru_keys_simps [simp]:
  "lru_keys (moveToHead a c) as = lru_keys c as" "lru_keys (addToHead a c) as = lru_keys c as"
  by (simp_all add: lru_keys_def moveToHead_def)

lemma lru_lookup:
  assumes "lru_rep c as" "Mapping.lookup (lru_items c) k = Some a"
  obtains xs ys where "as = xs @ a # ys" "n_key (lru_nodes c a) = k"
    "lru_rep (moveToHead a c) (a # xs @ ys)"
proof -
  have L: "lru_list c as" using assms(1) by (simp add: lru_rep_def)
  then have a: "a \<in> set as" "n_key (lru_nodes c a) = k" using assms(2) lru_items_iff by blast+
  then obtain xs ys where as: "as = xs @ a # ys" by (auto dest: split_list)
  have "lru_rep (moveToHead a c) (a # xs @ ys)"
    using lru_list_moveToHead [of c xs a ys] assms(1) as by (simp add: lru_rep_def moveToHead_def)
  then show thesis using that as a by blast
qed

lemma lru_absent: "lru_rep c as \<Longrightarrow> Mapping.lookup (lru_items c) k = None \<longleftrightarrow> k \<notin> set (lru_keys c as)"
  using lru_dom [of c as] by (auto simp: lru_rep_def keys_dom_lookup)

lemma lru_keys_insertNode:
  assumes "lru_rep c as" "Mapping.lookup (lru_items c) k = None" "n_key node = k"
  shows "lru_keys (insertNode k node c) (take n (lru_fresh c # as)) = take n (k # lru_keys c as)"
proof -
  have "lru_fresh c \<notin> set as" using assms(1) by (auto simp: lru_rep_def lru_list_def)
  then show ?thesis using assms(3)
    by (cases n) (auto simp: lru_keys_def insertNode_def Let_def take_map dest: in_set_takeD)
qed

lemma set_repr_Add:
  assumes "set_repr s ks"
  shows "set_repr (lruAdd s k) (ref_add (lru_capacity s) k ks)" "lru_capacity (lruAdd s k) = lru_capacity s"
proof -
  obtain as where as: "lru_rep s as" "ks = lru_keys s as" using assms by (auto simp: set_repr_def)
  show "set_repr (lruAdd s k) (ref_add (lru_capacity s) k ks)"
  proof (cases "Mapping.lookup (lru_items s) k")
    case None
    let ?n = "\<lparr>n_key = k, n_prev = 0, n_next = 0\<rparr> :: lru_node"
    have "lruAdd s k = insertNode k ?n s" using None by (simp add: lruAdd_def)
    moreover have "ref_add (lru_capacity s) k ks = take (lru_capacity s) (k # ks)"
      using lru_absent [OF as(1)] None as(2) by (simp add: ref_add_def)
    ultimately show ?thesis
      using lru_rep_insertNode [OF as(1) None, of ?n] lru_keys_insertNode [OF as(1) None, of ?n] as(2)
      unfolding set_repr_def by fastforce
  next
    case (Some a)
    obtain xs ys where x: "as = xs @ a # ys" "n_key (lru_nodes s a) = k" "lru_rep (moveToHead a s) (a # xs @ ys)"
      using lru_lookup [OF as(1) Some] by blast
    have ks: "ks = lru_keys s xs @ k # lru_keys s ys" using as(2) x by (simp add: lru_keys_def)
    have "distinct (map (\<lambda>x. x) (lru_keys s xs @ k # lru_keys s ys))"
      using as x(1) ks by (simp add: lru_rep_def lru_list_def)
    from filter_split_key [OF this] have "touch (\<lambda>x. x = k) ks = k # lru_keys s xs @ lru_keys s ys"
      by (simp only: touch_def ks append_Cons append_Nil)
    then have "touch (\<lambda>x. x = k) ks = lru_keys s (a # xs @ ys)" using x(2) by (simp add: lru_keys_def)
    moreover have "k \<in> set ks" using as(2) x by (simp add: lru_keys_def)
    ultimately show ?thesis
      using x(3) Some unfolding set_repr_def by (auto simp: ref_add_def lruAdd_def)
  qed
  show "lru_capacity (lruAdd s k) = lru_capacity s"
    by (auto simp: lruAdd_def insertNode_def moveToHead_def Let_def split: option.split)
qed

lemma set_repr_New: "set_repr (NewLRUSet n) []"
  unfolding set_repr_def NewLRUSet_def using lru_list_new by (force simp: lru_keys_def)

lemma set_repr_Contains: "set_repr s ks \<Longrightarrow> lruContains s k \<longleftrightarrow> k \<in> set ks"
proof -
  assume "set_repr s ks"
  then obtain as where as: "lru_rep s as" "ks = lru_keys s as" by (auto simp: set_repr_def)
  show ?thesis using lru_absent [OF as(1), of k] as(2) by (simp add: lruContains_def)
qed

lemma set_repr_AddIfAbsent:
  assumes "set_repr s ks"
  shows "fst (lruAddIfAbsent s k) \<longleftrightarrow> k \<notin> set ks"
    "k \<notin> set ks \<Longrightarrow> set_repr (snd (lruAddIfAbsent s k)) (take (lru_capacity s) (k # ks))"
    "k \<in> set ks \<Longrightarrow> snd (lruAddIfAbsent s k) = s"
proof -
  have c: "lruContains s k \<longleftrightarrow> k \<in> set ks" by (rule set_repr_Contains [OF assms])
  then show "fst (lruAddIfAbsent s k) \<longleftrightarrow> k \<notin> set ks" "k \<in> set ks \<Longrightarrow> snd (lruAddIfAbsent s k) = s"
    by (auto simp: lruAddIfAbsent_def lruContains_def split: option.split)
  assume k: "k \<notin> set ks"
  then have "snd (lruAddIfAbsent s k) = lruAdd s k"
    using c by (auto simp: lruAddIfAbsent_def lruAdd_def lruContains_def split: option.split)
  then show "set_repr (snd (lruAddIfAbsent s k)) (take (lru_capacity s) (k # ks))"
    using set_repr_Add(1) [OF assms, of k] k by (simp add: ref_add_def)
qed

lemma set_repr_Clear:
  assumes "set_repr s ks"
  shows "set_repr (lruClear s) []"
proof -
  obtain as where "lru_rep s as" using assms by (auto simp: set_repr_def)
  then have "lru_rep (lruClear s) []"
    by (auto simp: lru_rep_def lru_list_def lruClear_def Let_def lru_keys_def set_next_def set_prev_def)
  then show ?thesis unfolding set_repr_def by (force simp: lru_keys_def)
qed

text \<open>What the reference computes from a sequence of additions.\<close>

lemma filter_take_absent:
  "k \<notin> set (take n xs) \<Longrightarrow> m < n \<Longrightarrow> take m (filter (\<lambda>x. x \<noteq> k) xs) = take m xs"
proof (induction xs arbitrary: n m)
  case (Cons x xs)
  then show ?case by (cases n; cases m) auto
qed simp

lemma filter_take_present:
  "k \<in> set (take n xs) \<Longrightarrow> distinct xs \<Longrightarrow>
     filter (\<lambda>x. x \<noteq> k) (take n xs) = take (n - 1) (filter (\<lambda>x. x \<noteq> k) xs)"
proof (induction xs arbitrary: n)
  case (Cons x xs)
  then obtain m where n: "n = Suc m" by (cases n) auto
  show ?case
  proof (cases "x = k")
    case True
    then have "k \<notin> set xs" using Cons.prems(2) by auto
    then have "filter (\<lambda>x. x \<noteq> k) xs = xs" "filter (\<lambda>x. x \<noteq> k) (take m xs) = take m xs"
      by (auto simp: filter_id_conv dest: in_set_takeD)
    then show ?thesis using True n by simp
  next
    case False
    then have "k \<in> set (take m xs)" using Cons.prems(1) n by simp
    moreover from this have "0 < m" by (cases m) auto
    ultimately show ?thesis using Cons False n by (cases m) auto
  qed
qed simp

lemma remdups_snoc: "remdups (xs @ [k]) = filter (\<lambda>x. x \<noteq> k) (remdups xs) @ [k]"
  by (induction xs) auto

lemma filter_only: "distinct xs \<Longrightarrow> k \<in> set xs \<Longrightarrow> filter (\<lambda>x. x = k) xs = [k]"
  by (induction xs) (auto simp: filter_empty_conv)

lemma ref_add_recent:
  assumes "0 < cap"
  shows "ref_add cap k (take cap (rev (remdups xs))) = take cap (rev (remdups (xs @ [k])))"
proof -
  let ?L = "rev (remdups xs)"
  have L': "rev (remdups (xs @ [k])) = k # filter (\<lambda>x. x \<noteq> k) ?L" by (simp add: remdups_snoc rev_filter)
  obtain m where m: "cap = Suc m" using assms by (cases cap) auto
  show ?thesis
  proof (cases "k \<in> set (take cap ?L)")
    case True
    have "filter (\<lambda>x. x = k) (take cap ?L) = [k]" by (rule filter_only) (use True in auto)
    then show ?thesis
      using True filter_take_present [OF True] m unfolding L' by (simp add: ref_add_def touch_def)
  next
    case False
    then show ?thesis
      using filter_take_absent [OF False, of m] m unfolding L' by (simp add: ref_add_def)
  qed
qed

lemma set_repr_adds:
  "set_repr (foldl lruAdd (NewLRUSet n) xs)
     (take (if n \<le> 0 then 1000 else nat n) (rev (remdups xs))) \<and>
   lru_capacity (foldl lruAdd (NewLRUSet n) xs) = (if n \<le> 0 then 1000 else nat n)"
proof (induction xs rule: rev_induct)
  case Nil
  then show ?case using set_repr_New by (simp add: NewLRUSet_def new_lru_def Let_def)
next
  case (snoc x xs)
  have "0 < (if n \<le> 0 then 1000 else nat n)" by simp
  from ref_add_recent [OF this, of x xs] show ?case
    using set_repr_Add [OF conjunct1 [OF snoc], of x] snoc by simp
qed

subsection \<open>The cache\<close>

lemma n_value_more: "n_value r = n_value r' \<longleftrightarrow> lru_node.more r = lru_node.more (r' :: lru_value_node)"
  by (cases r; cases r') (simp add: lru_value_node.defs)

lemma lru_value_simps [simp]:
  fixes c :: lru_cache
  shows "n_value (lru_nodes (moveToHead a c) x) = n_value (lru_nodes c x)"
  "n_value (lru_nodes (addToHead a c) x) = n_value (lru_nodes c x)"
  "n_value (lru_nodes (removeLRU c) x) = n_value (lru_nodes c x)"
  by (simp_all add: n_value_more moveToHead_def)

lemma moveToHead_key [simp]: "n_key (lru_nodes (moveToHead a c) x) = n_key (lru_nodes c x)"
  by (simp add: moveToHead_def)

lemma lru_nodes_insert:
  assumes "lru_rep c as" "y \<in> set as"
  shows "n_key (lru_nodes (insertNode k node c) y) = n_key (lru_nodes c y)"
    "lru_node.more (lru_nodes (insertNode k node c) y) = lru_node.more (lru_nodes c y)"
  using assms by (auto simp: lru_rep_def lru_list_def insertNode_def Let_def)

lemma lru_entries_insert:
  assumes "lru_rep c as" "n_key node = k" "n_value node = v"
  shows "lru_entries (insertNode k node c) (take n (lru_fresh c # as)) = take n ((k, v) # lru_entries c as)"
proof -
  have "n_key (lru_nodes (insertNode k node c) (lru_fresh c)) = k"
    "lru_node.more (lru_nodes (insertNode k node c) (lru_fresh c)) = lru_node.more node"
    using assms(2) by (simp_all add: insertNode_def Let_def)
  moreover from this(2) have "n_value (lru_nodes (insertNode k node c) (lru_fresh c)) = v"
    using assms(3) n_value_more by blast
  moreover have "lru_entries (insertNode k node c) as = lru_entries c as"
    using lru_nodes_insert [OF assms(1)] n_value_more by (auto simp: lru_entries_def)
  ultimately show ?thesis by (cases n) (auto simp add: lru_entries_def take_map dest: in_set_takeD)
qed

lemma map_fst_entries: "map fst (lru_entries c as) = lru_keys c as"
  by (simp add: lru_entries_def lru_keys_def)

lemma lru_rep_value:
  "lru_rep c as \<Longrightarrow> lru_rep (c\<lparr>lru_nodes := (lru_nodes c)(a := (lru_nodes c a)\<lparr>n_value := v\<rparr>)\<rparr>) as"
proof -
  assume rep: "lru_rep c as"
  let ?c = "c\<lparr>lru_nodes := (lru_nodes c)(a := (lru_nodes c a)\<lparr>n_value := v\<rparr>)\<rparr>"
  have "linked (lru_nodes ?c) (lru_head c # as @ [lru_tail c])"
    by (rule linked_frame [where nd = "lru_nodes c"]) (use rep in \<open>auto simp: lru_rep_def lru_list_def\<close>)
  moreover have "lru_keys ?c as = lru_keys c as" by (simp add: lru_keys_def)
  ultimately show ?thesis using rep by (auto simp: lru_rep_def lru_list_def)
qed

lemma cache_repr_Put:
  assumes "cache_repr c es"
  shows "cache_repr (lruPut c k v) (ref_put (lru_capacity c) k v es)"
proof -
  obtain as where as: "lru_rep c as" "es = lru_entries c as" using assms by (auto simp: cache_repr_def)
  have keys: "fst ` set es = set (lru_keys c as)" unfolding as(2) by (metis map_fst_entries set_map)
  show ?thesis
  proof (cases "Mapping.lookup (lru_items c) k")
    case None
    let ?n = "\<lparr>n_key = k, n_prev = 0, n_next = 0, n_value = v\<rparr>"
    have "lruPut c k v = insertNode k ?n c" using None by (simp add: lruPut_def)
    moreover have "ref_put (lru_capacity c) k v es = take (lru_capacity c) ((k, v) # es)"
      using lru_absent [OF as(1)] None keys by (simp add: ref_put_def)
    ultimately show ?thesis
      using lru_rep_insertNode [OF as(1) None, of ?n] lru_entries_insert [OF as(1), of ?n k v] as(2)
      unfolding cache_repr_def by fastforce
  next
    case (Some a)
    let ?c = "c\<lparr>lru_nodes := (lru_nodes c)(a := (lru_nodes c a)\<lparr>n_value := v\<rparr>)\<rparr>"
    have items: "Mapping.lookup (lru_items ?c) k = Some a" using Some by simp
    obtain xs ys where q: "as = xs @ a # ys" "n_key (lru_nodes ?c a) = k" "lru_rep (moveToHead a ?c) (a # xs @ ys)"
      by (rule lru_lookup [OF lru_rep_value [OF as(1)] items])
    have x: "as = xs @ a # ys" "n_key (lru_nodes c a) = k" "lru_rep (moveToHead a ?c) (a # xs @ ys)"
      using q by simp_all
    have "a \<notin> set (xs @ ys)" using as(1) x(1) by (auto simp: lru_rep_def lru_list_def)
    then have e: "lru_entries (moveToHead a ?c) (a # xs @ ys) = (k, v) # lru_entries c (xs @ ys)"
    proof -
      have "lru_entries (moveToHead a ?c) (xs @ ys) = lru_entries c (xs @ ys)"
        unfolding lru_entries_def by (rule map_cong [OF refl]) (use \<open>a \<notin> set (xs @ ys)\<close> in auto)
      then show ?thesis by (simp add: lru_entries_def x(2))
    qed
    have "distinct (map fst (lru_entries c xs @ (k, n_value (lru_nodes c a)) # lru_entries c ys))"
      using as x(1,2) map_fst_entries [of c as] by (simp add: lru_rep_def lru_list_def lru_entries_def)
    from filter_split_key(2) [OF this]
    have "filter (\<lambda>e. fst e \<noteq> k) es = lru_entries c (xs @ ys)"
      using x(1,2) as(2) by (simp add: lru_entries_def)
    moreover have "k \<in> fst ` set es" using keys x by (simp add: lru_keys_def)
    ultimately show ?thesis
      using x(3) Some e unfolding cache_repr_def by (auto simp: ref_put_def lruPut_def)
  qed
qed

lemma cache_repr_Get:
  assumes "cache_repr c es"
  shows "fst (lruGet c k) = (case map_of es k of None \<Rightarrow> ([], False) | Some v \<Rightarrow> (v, True))"
    "cache_repr (snd (lruGet c k)) (touch (\<lambda>e. fst e = k) es)"
proof -
  obtain as where as: "lru_rep c as" "es = lru_entries c as" using assms by (auto simp: cache_repr_def)
  have keys: "fst ` set es = set (lru_keys c as)" unfolding as(2) by (metis map_fst_entries set_map)
  have both: "fst (lruGet c k) = (case map_of es k of None \<Rightarrow> ([], False) | Some v \<Rightarrow> (v, True)) \<and>
     cache_repr (snd (lruGet c k)) (touch (\<lambda>e. fst e = k) es)"
  proof (cases "Mapping.lookup (lru_items c) k")
    case None
    then have k: "k \<notin> fst ` set es" using lru_absent [OF as(1)] keys by simp
    then have "map_of es k = None" by (simp add: map_of_eq_None_iff)
    moreover have "touch (\<lambda>e. fst e = k) es = es"
    proof -
      have "filter (\<lambda>e. fst e = k) es = []" "filter (\<lambda>e. fst e \<noteq> k) es = es"
        using k by (auto simp: filter_empty_conv filter_id_conv)
      then show ?thesis by (simp add: touch_def)
    qed
    ultimately show ?thesis using None assms by (simp add: lruGet_def)
  next
    case (Some a)
    obtain xs ys where x: "as = xs @ a # ys" "n_key (lru_nodes c a) = k" "lru_rep (moveToHead a c) (a # xs @ ys)"
      using lru_lookup [OF as(1) Some] by blast
    let ?v = "n_value (lru_nodes c a)"
    have es: "es = lru_entries c xs @ (k, ?v) # lru_entries c ys" using as(2) x by (simp add: lru_entries_def)
    have d: "distinct (map fst es)" using as map_fst_entries [of c as] by (simp add: lru_rep_def lru_list_def)
    have "(k, ?v) \<in> set es" using es by simp
    then have mo: "map_of es k = Some ?v" using d by (simp add: map_of_eq_Some_iff)
    have "touch (\<lambda>e. fst e = k) es = (k, ?v) # lru_entries c (xs @ ys)"
      using filter_split_key [OF d [unfolded es]] unfolding touch_def es by (simp add: lru_entries_def)
    also have "\<dots> = lru_entries (moveToHead a c) (a # xs @ ys)" using x(2) by (simp add: lru_entries_def)
    finally show ?thesis using mo x(3) Some unfolding cache_repr_def by (auto simp: lruGet_def Let_def)
  qed
  then show "fst (lruGet c k) = (case map_of es k of None \<Rightarrow> ([], False) | Some v \<Rightarrow> (v, True))"
    "cache_repr (snd (lruGet c k)) (touch (\<lambda>e. fst e = k) es)" by blast+
qed

lemma cache_repr_New: "cache_repr (NewLRUCache n) []"
  unfolding cache_repr_def NewLRUCache_def using lru_list_new by (force simp: lru_entries_def)

lemma lruPut_capacity [simp]: "lru_capacity (lruPut c k v) = lru_capacity c"
  by (auto simp: lruPut_def insertNode_def moveToHead_def Let_def split: option.split)

lemma ref_put_recent:
  fixes kvs :: "(string \<times> string) list"
  defines "g \<equiv> \<lambda>ys x. (x, the (map_of (rev ys) x))"
  assumes "0 < cap"
  shows "ref_put cap k v (take cap (map (g kvs) (rev (remdups (map fst kvs))))) =
    take cap (map (g (kvs @ [(k, v)])) (rev (remdups (map fst (kvs @ [(k, v)])))))"
proof -
  let ?L = "rev (remdups (map fst kvs))" and ?g = "g kvs" and ?g' = "g (kvs @ [(k, v)])"
  have L': "rev (remdups (map fst (kvs @ [(k, v)]))) = k # filter (\<lambda>x. x \<noteq> k) ?L"
    by (simp add: remdups_snoc rev_filter)
  obtain m where m: "cap = Suc m" using assms by (cases cap) auto
  have same: "map ?g' (take m (filter (\<lambda>x. x \<noteq> k) ?L)) = map ?g (take m (filter (\<lambda>x. x \<noteq> k) ?L))"
    by (rule map_cong [OF refl]) (auto simp: g_def dest!: in_set_takeD)
  have rhs: "take cap (map ?g' (rev (remdups (map fst (kvs @ [(k, v)]))))) =
      (k, v) # map ?g (take m (filter (\<lambda>x. x \<noteq> k) ?L))"
    unfolding L' using same by (simp add: m take_map) (simp add: g_def)
  have fk: "filter (\<lambda>e. fst e \<noteq> k) (map ?g xs) = map ?g (filter (\<lambda>x. x \<noteq> k) xs)" for xs
    by (simp add: filter_map comp_def g_def)
  have mem: "k \<in> fst ` set (take cap (map ?g ?L)) \<longleftrightarrow> k \<in> set (take cap ?L)"
    by (simp add: take_map g_def image_image)
  show ?thesis
  proof (cases "k \<in> set (take cap ?L)")
    case True
    have "filter (\<lambda>e. fst e \<noteq> k) (take cap (map ?g ?L)) = map ?g (take m (filter (\<lambda>x. x \<noteq> k) ?L))"
      using filter_take_present [OF True] fk [of "take cap ?L"] m by (simp add: take_map)
    then show ?thesis using True mem rhs by (simp add: ref_put_def)
  next
    case False
    have "take m (filter (\<lambda>x. x \<noteq> k) ?L) = take m ?L" using filter_take_absent [OF False, of m] m by simp
    then show ?thesis using False mem rhs m by (simp add: ref_put_def take_map)
  qed
qed

definition put_all :: "lru_cache \<Rightarrow> (string \<times> string) list \<Rightarrow> lru_cache" where
  "put_all c kvs = foldl (\<lambda>c kv. lruPut c (fst kv) (snd kv)) c kvs"

lemma cache_repr_puts:
  defines "cap n \<equiv> (if n \<le> 0 then 1000 else nat n)"
  shows "cache_repr (put_all (NewLRUCache n) kvs)
     (take (cap n) (map (\<lambda>x. (x, the (map_of (rev kvs) x))) (rev (remdups (map fst kvs))))) \<and>
   lru_capacity (put_all (NewLRUCache n) kvs) = cap n"
proof (induction kvs rule: rev_induct)
  case Nil
  then show ?case using cache_repr_New by (simp add: put_all_def NewLRUCache_def new_lru_def Let_def cap_def)
next
  case (snoc kv kvs)
  have "0 < cap n" by (simp add: cap_def)
  from ref_put_recent [OF this, of "fst kv" "snd kv" kvs] show ?case
    using cache_repr_Put [OF conjunct1 [OF snoc], of "fst kv" "snd kv"] snoc by (simp add: put_all_def)
qed

section \<open>Properties\<close>

text \<open>C9: After any sequence of additions the pointer structure of the set holds exactly the keys among
  the last \<open>capacity\<close> distinct ones added, and a cleared set holds none.\<close>
theorem LRUSet_holds_most_recent:
  "lruContains (foldl lruAdd (NewLRUSet n) xs) k \<longleftrightarrow>
     k \<in> set (take (if n \<le> 0 then 1000 else nat n) (rev (remdups xs))) \<and>
   \<not> lruContains (lruClear (foldl lruAdd (NewLRUSet n) ys)) k"
proof -
  have "\<not> lruContains (lruClear (foldl lruAdd (NewLRUSet n) ys)) k"
    using set_repr_Contains [OF set_repr_Clear [OF conjunct1 [OF set_repr_adds]], of n ys k] by simp
  then show ?thesis
    using set_repr_Contains [OF conjunct1 [OF set_repr_adds], of n xs k] by blast
qed

text \<open>After any sequence of insertions into the cache, \<open>Get\<close> finds exactly the keys among the last
  \<open>capacity\<close> distinct ones, each with the value it was last given.\<close>
theorem LRUCache_returns_last_value:
  "fst (lruGet (put_all (NewLRUCache n) kvs) k) =
     (if k \<in> set (take (if n \<le> 0 then 1000 else nat n) (rev (remdups (map fst kvs))))
      then (the (map_of (rev kvs) k), True) else ([], False))"
proof -
  define ks where "ks = take (if n \<le> 0 then 1000 else nat n) (rev (remdups (map fst kvs)))"
  define v where "v x = the (map_of (rev kvs) x)" for x
  have "cache_repr (put_all (NewLRUCache n) kvs) (map (\<lambda>x. (x, v x)) ks)"
    using cache_repr_puts [of n kvs] by (simp add: ks_def v_def take_map)
  from cache_repr_Get(1) [OF this, of k] show ?thesis
    unfolding ks_def [symmetric] v_def [symmetric] by (simp add: map_of_map_restrict restrict_map_def)
qed

end
