(* ===== verification/ShardedMap.thy ===== *)
theory ShardedMap
  imports Prelude "HOL-Library.Word"
begin

unbundle bit_operations_syntax

text \<open>
  The sharded concurrent map of \<open>internal/sync/sharded.go\<close>. The hash function is a parameter (the
  default one is \<open>hash/maphash\<close> with a random seed) and so is the value of
  \<open>runtime.GOMAXPROCS(0)\<close>. Every method locks one shard at a time, and each locked section is one
  function here. Keys are hashed to 32-bit words and masked as in the code; indexing the slice of
  shards out of range panics. The locale \<open>kv_store\<close> is the contract the users of the map rely on.
\<close>

section \<open>shardCount\<close>

definition shardCount :: "int \<Rightarrow> 32 word" where
  "shardCount gomaxprocs =
     (let n0 = gomaxprocs;
          n1 = (if n0 < 4 then 4 else n0);
          n2 = n1 * 4;
          n3 = n2 - 1;
          n4 = n3 OR drop_bit 1 n3;
          n5 = n4 OR drop_bit 2 n4;
          n6 = n5 OR drop_bit 4 n5;
          n7 = n6 OR drop_bit 8 n6;
          n8 = n7 OR drop_bit 16 n7
      in word_of_int (n8 + 1))"

section \<open>The map\<close>

record ('k, 'v) sharded_map =
  sm_shards :: "('k \<rightharpoonup> 'v) list"
  sm_hashFn :: "'k \<Rightarrow> 32 word"
  sm_shardMask :: "32 word"

definition NewShardedMap :: "int \<Rightarrow> ('k \<Rightarrow> 32 word) \<Rightarrow> ('k, 'v) sharded_map" where
  "NewShardedMap gomaxprocs hashFn =
     (let count = shardCount gomaxprocs
      in \<lparr>sm_shards = replicate (unat count) Map.empty, sm_hashFn = hashFn, sm_shardMask = count - 1\<rparr>)"

definition WithHashFn :: "('k \<Rightarrow> 32 word) \<Rightarrow> ('k, 'v) sharded_map \<Rightarrow> ('k, 'v) sharded_map" where
  "WithHashFn fn sm = sm\<lparr>sm_hashFn := fn\<rparr>"

text \<open>\<open>getShard\<close> is the address of a shard: its index, or a panic when it is out of range.\<close>

definition getShard :: "('k, 'v) sharded_map \<Rightarrow> 'k \<Rightarrow> nat outcome" where
  "getShard sm key =
     (let i = unat (sm_hashFn sm key AND sm_shardMask sm)
      in if i < length (sm_shards sm) then Returns i else Panic)"

definition smGet :: "('k, 'v) sharded_map \<Rightarrow> 'k \<Rightarrow> 'v option outcome" where
  "smGet sm key = outcome_bind (getShard sm key) (\<lambda>i. Returns ((sm_shards sm ! i) key))"

definition upd_shard :: "('k, 'v) sharded_map \<Rightarrow> nat \<Rightarrow> ('k \<rightharpoonup> 'v) \<Rightarrow> ('k, 'v) sharded_map" where
  "upd_shard sm i m = sm\<lparr>sm_shards := (sm_shards sm)[i := m]\<rparr>"

definition smSet :: "('k, 'v) sharded_map \<Rightarrow> 'k \<Rightarrow> 'v \<Rightarrow> ('k, 'v) sharded_map outcome" where
  "smSet sm key val =
     outcome_bind (getShard sm key) (\<lambda>i. Returns (upd_shard sm i ((sm_shards sm ! i)(key \<mapsto> val))))"

definition smDelete :: "('k, 'v) sharded_map \<Rightarrow> 'k \<Rightarrow> ('k, 'v) sharded_map outcome" where
  "smDelete sm key =
     outcome_bind (getShard sm key) (\<lambda>i. Returns (upd_shard sm i ((sm_shards sm ! i)(key := None))))"

definition smHas :: "('k, 'v) sharded_map \<Rightarrow> 'k \<Rightarrow> bool outcome" where
  "smHas sm key = outcome_bind (getShard sm key) (\<lambda>i. Returns ((sm_shards sm ! i) key \<noteq> None))"

definition smGetOrSet :: "('k, 'v) sharded_map \<Rightarrow> 'k \<Rightarrow> 'v \<Rightarrow> (('v \<times> bool) \<times> ('k, 'v) sharded_map) outcome" where
  "smGetOrSet sm key val =
     outcome_bind (getShard sm key) (\<lambda>i.
       case (sm_shards sm ! i) key of
         Some existing \<Rightarrow> Returns ((existing, True), sm)
       | None \<Rightarrow> Returns ((val, False), upd_shard sm i ((sm_shards sm ! i)(key \<mapsto> val))))"

definition smLen :: "('k, 'v) sharded_map \<Rightarrow> nat" where
  "smLen sm = sum_list (map (\<lambda>m. card (dom m)) (sm_shards sm))"

definition smClear :: "('k, 'v) sharded_map \<Rightarrow> ('k, 'v) sharded_map" where
  "smClear sm = sm\<lparr>sm_shards := map (\<lambda>_. Map.empty) (sm_shards sm)\<rparr>"

text \<open>
  \<open>Range\<close> walks the shards in order and the entries of a shard in Go's unspecified map order, which
  is a parameter here: \<open>enum\<close> lists the entries of a shard. The callback threads a state and says
  whether to go on.
\<close>

fun range_entries :: "('s \<Rightarrow> 'k \<Rightarrow> 'v \<Rightarrow> bool \<times> 's) \<Rightarrow> 's \<Rightarrow> ('k \<times> 'v) list \<Rightarrow> bool \<times> 's" where
  "range_entries fn s [] = (True, s)"
| "range_entries fn s ((k, v) # es) =
     (case fn s k v of (True, s') \<Rightarrow> range_entries fn s' es | (False, s') \<Rightarrow> (False, s'))"

fun range_shards :: "(('k \<rightharpoonup> 'v) \<Rightarrow> ('k \<times> 'v) list) \<Rightarrow> ('s \<Rightarrow> 'k \<Rightarrow> 'v \<Rightarrow> bool \<times> 's) \<Rightarrow> 's \<Rightarrow>
    ('k \<rightharpoonup> 'v) list \<Rightarrow> 's" where
  "range_shards enum fn s [] = s"
| "range_shards enum fn s (m # ms) =
     (case range_entries fn s (enum m) of
        (True, s') \<Rightarrow> range_shards enum fn s' ms
      | (False, s') \<Rightarrow> s')"

definition smRange :: "(('k \<rightharpoonup> 'v) \<Rightarrow> ('k \<times> 'v) list) \<Rightarrow> ('k, 'v) sharded_map \<Rightarrow>
    ('s \<Rightarrow> 'k \<Rightarrow> 'v \<Rightarrow> bool \<times> 's) \<Rightarrow> 's \<Rightarrow> 's" where
  "smRange enum sm fn s = range_shards enum fn s (sm_shards sm)"

section \<open>The number of shards\<close>

lemma bit_smear_step:
  fixes x n :: int
  assumes "\<And>i. bit x i \<longleftrightarrow> (\<exists>d<k. bit n (i + d))"
  shows "bit (x OR drop_bit k x) i \<longleftrightarrow> (\<exists>d<2 * k. bit n (i + d))"
proof -
  have "bit (x OR drop_bit k x) i \<longleftrightarrow> (\<exists>d<k. bit n (i + d)) \<or> (\<exists>d<k. bit n (k + i + d))"
    by (simp add: bit_or_iff bit_drop_bit_eq assms)
  also have "\<dots> \<longleftrightarrow> (\<exists>d<2 * k. bit n (i + d))"
  proof
    assume "(\<exists>d<k. bit n (i + d)) \<or> (\<exists>d<k. bit n (k + i + d))"
    then show "\<exists>d<2 * k. bit n (i + d)"
    proof
      assume "\<exists>d<k. bit n (i + d)"
      then obtain d where "d < k" "bit n (i + d)" by blast
      then show ?thesis by (intro exI [of _ d]) simp
    next
      assume "\<exists>d<k. bit n (k + i + d)"
      then obtain d where "d < k" "bit n (k + i + d)" by blast
      then show ?thesis by (intro exI [of _ "k + d"]) (simp add: ac_simps)
    qed
  next
    assume "\<exists>d<2 * k. bit n (i + d)"
    then obtain d where d: "d < 2 * k" "bit n (i + d)" by blast
    show "(\<exists>d<k. bit n (i + d)) \<or> (\<exists>d<k. bit n (k + i + d))"
    proof (cases "d < k")
      case False
      then have "bit n (k + i + (d - k))" "d - k < k" using d by (simp_all add: ac_simps)
      then show ?thesis by blast
    qed (use d in blast)
  qed
  finally show ?thesis .
qed

definition smear :: "int \<Rightarrow> int" where
  "smear n3 =
     (let n4 = n3 OR drop_bit 1 n3; n5 = n4 OR drop_bit 2 n4; n6 = n5 OR drop_bit 4 n5;
          n7 = n6 OR drop_bit 8 n6 in n7 OR drop_bit 16 n7)"

lemma bit_smear: "bit (smear n) i \<longleftrightarrow> (\<exists>d<32. bit n (i + d))"
proof -
  let ?n4 = "n OR drop_bit 1 n" let ?n5 = "?n4 OR drop_bit 2 ?n4" let ?n6 = "?n5 OR drop_bit 4 ?n5"
  let ?n7 = "?n6 OR drop_bit 8 ?n6"
  have 1: "bit ?n4 i \<longleftrightarrow> (\<exists>d<2. bit n (i + d))" for i using bit_smear_step [of n 1 n i] by simp
  have 2: "bit ?n5 i \<longleftrightarrow> (\<exists>d<4. bit n (i + d))" for i using bit_smear_step [of ?n4 2 n i] 1 by simp
  have 3: "bit ?n6 i \<longleftrightarrow> (\<exists>d<8. bit n (i + d))" for i using bit_smear_step [of ?n5 4 n i] 2 by simp
  have 4: "bit ?n7 i \<longleftrightarrow> (\<exists>d<16. bit n (i + d))" for i using bit_smear_step [of ?n6 8 n i] 3 by simp
  show ?thesis using bit_smear_step [of ?n7 16 n i] 4 unfolding smear_def Let_def by simp
qed

lemma smear_mask:
  assumes "2 ^ k \<le> n" "n < 2 ^ Suc k" "k < 32"
  shows "smear n = 2 ^ Suc k - 1"
proof -
  have "n div 2 ^ k = 1"
    by (rule int_div_pos_eq [of _ _ _ "n - 2 ^ k"]) (use assms in auto)
  then have top: "bit n k" by (simp add: bit_iff_odd)
  have high: "\<not> bit n j" if "Suc k \<le> j" for j
  proof -
    have "(2::int) ^ Suc k \<le> 2 ^ j" using that by (intro power_increasing) auto
    then have "n < 2 ^ j" using assms(2) by linarith
    moreover have "0 \<le> n" using assms(1) by (rule order_trans [rotated]) simp
    ultimately show ?thesis by (simp add: bit_iff_odd)
  qed
  have "smear n = mask (Suc k)"
  proof (rule bit_eqI)
    fix i
    have "(\<exists>d<32. bit n (i + d)) \<longleftrightarrow> i < Suc k"
    proof
      assume "\<exists>d<32. bit n (i + d)"
      then obtain d where "bit n (i + d)" by blast
      then have "\<not> Suc k \<le> i + d" using high by blast
      then show "i < Suc k" by simp
    next
      assume "i < Suc k"
      then have "k - i < 32" "i + (k - i) = k" using assms(3) by simp_all
      then show "\<exists>d<32. bit n (i + d)" using top by metis
    qed
    then show "bit (smear n) i \<longleftrightarrow> bit (mask (Suc k) :: int) i"
      by (simp add: bit_smear bit_mask_iff)
  qed
  then show ?thesis by (simp add: mask_eq_exp_minus_1)
qed

lemma shardCount_power:
  assumes "0 \<le> n" "n < 2 ^ 28"
  obtains k where "k < 31" "shardCount n = 2 ^ Suc k" "uint (shardCount n) = 2 ^ Suc k"
    "2 ^ k < 4 * max 4 n" "4 * max 4 n \<le> 2 ^ Suc k"
proof -
  define m where "m = 4 * max 4 n - 1"
  have m: "1 \<le> m" "m < 2 ^ 30" using assms by (auto simp: m_def)
  have "1 \<le> nat m" using m(1) by simp
  from ex_power_ivl1 [OF _ this, of 2] obtain k where "2 ^ k \<le> nat m" "nat m < 2 ^ (k + 1)" by auto
  then have k: "2 ^ k \<le> m" "m < 2 ^ Suc k"
    using m(1) by (simp_all add: le_nat_iff nat_less_iff)
  have "(2::int) ^ k < 2 ^ 30" using k(1) m(2) by linarith
  then have k30: "k < 30" using power_less_imp_less_exp [of "2::int" k 30] by linarith
  have sc: "shardCount n = word_of_int (smear m + 1)"
    unfolding shardCount_def smear_def Let_def m_def by (simp add: max_def mult.commute)
  also have "smear m + 1 = 2 ^ Suc k" using smear_mask [OF k] k30 by simp
  finally have s': "shardCount n = word_of_int (2 ^ Suc k)" .
  then have s: "shardCount n = 2 ^ Suc k" by simp
  have "(2::int) ^ Suc k < 2 ^ 32" using k30 by (intro power_strict_increasing) auto
  then have "uint (word_of_int (2 ^ Suc k) :: 32 word) = 2 ^ Suc k"
    using uint_word_of_int [where 'a = 32, of "2 ^ Suc k"]
    by (simp only: mod_pos_pos_trivial zero_le_power len_num1 len_bit0 mult_1_right) simp
  then have "uint (shardCount n) = 2 ^ Suc k" unfolding s' .
  then show thesis using that [of k] k30 k s by (simp add: m_def)
qed

section \<open>Refinement to one map\<close>

definition shard_of :: "('k, 'v) sharded_map \<Rightarrow> 'k \<Rightarrow> nat" where
  "shard_of sm k = unat (sm_hashFn sm k AND sm_shardMask sm)"

definition sm_abs :: "('k, 'v) sharded_map \<Rightarrow> 'k \<rightharpoonup> 'v" where
  "sm_abs sm k = (sm_shards sm ! shard_of sm k) k"

definition sm_wf :: "('k, 'v) sharded_map \<Rightarrow> bool" where
  "sm_wf sm \<longleftrightarrow> unat (sm_shardMask sm) < length (sm_shards sm) \<and>
     (\<forall>i < length (sm_shards sm). finite (dom (sm_shards sm ! i)) \<and>
        (\<forall>k \<in> dom (sm_shards sm ! i). shard_of sm k = i))"

lemma shard_of_in_range: "sm_wf sm \<Longrightarrow> shard_of sm k < length (sm_shards sm)"
proof -
  assume "sm_wf sm"
  moreover have "sm_hashFn sm k AND sm_shardMask sm \<le> sm_shardMask sm" by (rule word_and_le1)
  ultimately show ?thesis by (auto simp: sm_wf_def shard_of_def word_le_nat_alt)
qed

lemma getShard_wf: "sm_wf sm \<Longrightarrow> getShard sm k = Returns (shard_of sm k)"
  using shard_of_in_range [of sm k] by (simp add: getShard_def shard_of_def)

lemma shard_of_upd [simp]: "shard_of (upd_shard sm i m) k = shard_of sm k"
  by (simp add: shard_of_def upd_shard_def)

lemma sm_abs_upd:
  "sm_wf sm \<Longrightarrow> sm_abs (upd_shard sm (shard_of sm k) ((sm_shards sm ! shard_of sm k)(k := v))) = (sm_abs sm)(k := v)"
proof
  fix x assume "sm_wf sm"
  then show "sm_abs (upd_shard sm (shard_of sm k) ((sm_shards sm ! shard_of sm k)(k := v))) x = ((sm_abs sm)(k := v)) x"
    using shard_of_in_range [of sm k] by (auto simp: sm_abs_def upd_shard_def shard_of_def nth_list_update)
qed

lemma sm_wf_upd:
  assumes "sm_wf sm"
  shows "sm_wf (upd_shard sm (shard_of sm k) ((sm_shards sm ! shard_of sm k)(k := v)))"
proof -
  let ?j = "shard_of sm k" let ?m = "(sm_shards sm ! ?j)(k := v)" let ?sm = "upd_shard sm ?j ?m"
  have len: "length (sm_shards ?sm) = length (sm_shards sm)" "sm_shardMask ?sm = sm_shardMask sm"
    by (simp_all add: upd_shard_def)
  have nth: "sm_shards ?sm ! i = (if i = ?j then ?m else sm_shards sm ! i)" if "i < length (sm_shards sm)" for i
    using that by (simp add: upd_shard_def)
  have fin: "finite (dom (sm_shards ?sm ! i))" if i: "i < length (sm_shards sm)" for i
  proof -
    have "finite (dom (sm_shards sm ! i))" using assms i unfolding sm_wf_def by blast
    then show ?thesis using finite_dom_upd [of "sm_shards sm ! i" k v] unfolding nth [OF i] by auto
  qed
  have home: "shard_of ?sm x = i" if i: "i < length (sm_shards sm)" "x \<in> dom (sm_shards ?sm ! i)" for i x
  proof (cases "i = ?j \<and> x = k")
    case False
    then have "x \<in> dom (sm_shards sm ! i)" using i(2) unfolding nth [OF i(1)] by (auto split: if_splits)
    then have "shard_of sm x = i" using assms i(1) unfolding sm_wf_def by blast
    then show ?thesis by simp
  qed simp
  have "unat (sm_shardMask sm) < length (sm_shards sm)" using assms unfolding sm_wf_def by blast
  then show ?thesis unfolding sm_wf_def len using fin home by blast
qed

lemma sm_wf_New:
  assumes "0 \<le> n" "n < 2 ^ 28"
  shows "sm_wf (NewShardedMap n h :: ('k, 'v) sharded_map)"
    "sm_abs (NewShardedMap n h :: ('k, 'v) sharded_map) = Map.empty"
proof -
  obtain k where k: "uint (shardCount n) = 2 ^ Suc k" using shardCount_power [OF assms] by metis
  have "shardCount n \<noteq> 0"
  proof
    assume "shardCount n = 0"
    with k show False by simp
  qed
  then have lt: "unat (shardCount n - 1) < unat (shardCount n)" by (simp add: unat_minus_one unat_gt_0)
  then show wf: "sm_wf (NewShardedMap n h :: ('k, 'v) sharded_map)"
    by (simp add: sm_wf_def NewShardedMap_def Let_def)
  show "sm_abs (NewShardedMap n h :: ('k, 'v) sharded_map) = Map.empty"
  proof
    fix k
    show "sm_abs (NewShardedMap n h :: ('k, 'v) sharded_map) k = Map.empty k"
      using shard_of_in_range [OF wf, of k] by (simp add: sm_abs_def) (simp add: NewShardedMap_def Let_def)
  qed
qed

lemma sm_wf_Clear: "sm_wf sm \<Longrightarrow> sm_wf (smClear sm) \<and> sm_abs (smClear sm) = Map.empty"
  using shard_of_in_range [of sm] by (auto simp: sm_wf_def smClear_def sm_abs_def shard_of_def)

lemma smLen_card: "sm_wf sm \<Longrightarrow> smLen sm = card (dom (sm_abs sm))"
proof -
  assume wf: "sm_wf sm"
  let ?n = "length (sm_shards sm)" and ?d = "\<lambda>i. dom (sm_shards sm ! i)"
  have "dom (sm_abs sm) = (\<Union>i<?n. ?d i)"
  proof (intro equalityI subsetI)
    fix k assume "k \<in> dom (sm_abs sm)"
    then have "k \<in> ?d (shard_of sm k)" by (simp add: sm_abs_def domIff)
    then show "k \<in> (\<Union>i<?n. ?d i)" using shard_of_in_range [OF wf, of k] by blast
  next
    fix k assume "k \<in> (\<Union>i<?n. ?d i)"
    then obtain i where i: "i < ?n" "k \<in> ?d i" by blast
    then have "shard_of sm k = i" using wf unfolding sm_wf_def by blast
    then show "k \<in> dom (sm_abs sm)" using i by (auto simp: sm_abs_def)
  qed
  also have "card (\<Union>i<?n. ?d i) = (\<Sum>i<?n. card (?d i))"
  proof (rule card_UN_disjoint)
    show "\<forall>i \<in> {..<?n}. finite (?d i)" using wf by (simp add: sm_wf_def)
    have "i = j" if "i < ?n" "j < ?n" "k \<in> ?d i" "k \<in> ?d j" for i j k
      using that wf unfolding sm_wf_def by metis
    then show "\<forall>i \<in> {..<?n}. \<forall>j \<in> {..<?n}. i \<noteq> j \<longrightarrow> ?d i \<inter> ?d j = {}" by blast
  qed simp
  also have "\<dots> = smLen sm"
    by (simp add: smLen_def sum_list_sum_nth atLeast0LessThan)
  finally show ?thesis by simp
qed

section \<open>The contract of a key-value store\<close>

locale kv_store =
  fixes lkp :: "'m \<Rightarrow> 'k \<Rightarrow> 'v option outcome"
    and ins :: "'m \<Rightarrow> 'k \<Rightarrow> 'v \<Rightarrow> 'm outcome"
    and del :: "'m \<Rightarrow> 'k \<Rightarrow> 'm outcome"
    and content :: "'m \<Rightarrow> 'k \<rightharpoonup> 'v"
    and inv :: "'m \<Rightarrow> bool"
  assumes lookup: "inv m \<Longrightarrow> lkp m k = Returns (content m k)"
    and insert: "inv m \<Longrightarrow> \<exists>m'. ins m k v = Returns m' \<and> inv m' \<and> content m' = (content m)(k \<mapsto> v)"
    and delete: "inv m \<Longrightarrow> \<exists>m'. del m k = Returns m' \<and> inv m' \<and> content m' = (content m)(k := None)"
begin

lemma delete_all:
  "inv m \<Longrightarrow> \<exists>m'. foldl (\<lambda>r k. outcome_bind r (\<lambda>m. del m k)) (Returns m) ks = Returns m' \<and> inv m' \<and>
     content m' = (\<lambda>k. if k \<in> set ks then None else content m k)"
proof (induction ks arbitrary: m)
  case Nil
  then show ?case by simp
next
  case (Cons k ks)
  obtain m1 where "del m k = Returns m1" "inv m1" "content m1 = (content m)(k := None)"
    using delete [OF Cons.prems, of k] by blast
  with Cons.IH [of m1] show ?case by fastforce
qed

end

lemma outcome_bind_sm: "sm_wf sm \<Longrightarrow> outcome_bind (getShard sm k) f = f (shard_of sm k)"
  by (simp add: getShard_wf)

interpretation sharded: kv_store smGet smSet smDelete sm_abs sm_wf
proof unfold_locales
  fix m :: "('a, 'b) sharded_map" and k v
  assume wf: "sm_wf m"
  show "smGet m k = Returns (sm_abs m k)" using wf by (simp add: smGet_def outcome_bind_sm sm_abs_def)
  show "\<exists>m'. smSet m k v = Returns m' \<and> sm_wf m' \<and> sm_abs m' = (sm_abs m)(k \<mapsto> v)"
    using sm_abs_upd [OF wf] sm_wf_upd [OF wf] by (simp add: smSet_def outcome_bind_sm [OF wf])
  show "\<exists>m'. smDelete m k = Returns m' \<and> sm_wf m' \<and> sm_abs m' = (sm_abs m)(k := None)"
    using sm_abs_upd [OF wf] sm_wf_upd [OF wf] by (simp add: smDelete_def outcome_bind_sm [OF wf])
qed

section \<open>Properties\<close>

text \<open>A sequence of calls and what they return, on the sharded map and on one map.\<close>

datatype ('k, 'v) kv_op = KGet 'k | KSet 'k 'v | KDelete 'k | KHas 'k | KGetOrSet 'k 'v | KLen | KClear

datatype 'v kv_result = RValue "'v option" | RBool bool | RLoaded 'v bool | RLen nat | RUnit

fun sm_step :: "('k, 'v) sharded_map \<Rightarrow> ('k, 'v) kv_op \<Rightarrow> ('v kv_result \<times> ('k, 'v) sharded_map) outcome" where
  "sm_step sm (KGet k) = outcome_bind (smGet sm k) (\<lambda>r. Returns (RValue r, sm))"
| "sm_step sm (KSet k v) = outcome_bind (smSet sm k v) (\<lambda>sm'. Returns (RUnit, sm'))"
| "sm_step sm (KDelete k) = outcome_bind (smDelete sm k) (\<lambda>sm'. Returns (RUnit, sm'))"
| "sm_step sm (KHas k) = outcome_bind (smHas sm k) (\<lambda>b. Returns (RBool b, sm))"
| "sm_step sm (KGetOrSet k v) = outcome_bind (smGetOrSet sm k v) (\<lambda>((a, l), sm'). Returns (RLoaded a l, sm'))"
| "sm_step sm KLen = Returns (RLen (smLen sm), sm)"
| "sm_step sm KClear = Returns (RUnit, smClear sm)"

fun map_step :: "('k \<rightharpoonup> 'v) \<Rightarrow> ('k, 'v) kv_op \<Rightarrow> 'v kv_result \<times> ('k \<rightharpoonup> 'v)" where
  "map_step m (KGet k) = (RValue (m k), m)"
| "map_step m (KSet k v) = (RUnit, m(k \<mapsto> v))"
| "map_step m (KDelete k) = (RUnit, m(k := None))"
| "map_step m (KHas k) = (RBool (m k \<noteq> None), m)"
| "map_step m (KGetOrSet k v) = (case m k of Some e \<Rightarrow> (RLoaded e True, m) | None \<Rightarrow> (RLoaded v False, m(k \<mapsto> v)))"
| "map_step m KLen = (RLen (card (dom m)), m)"
| "map_step m KClear = (RUnit, Map.empty)"

fun sm_run :: "('k, 'v) sharded_map \<Rightarrow> ('k, 'v) kv_op list \<Rightarrow> 'v kv_result list outcome" where
  "sm_run sm [] = Returns []"
| "sm_run sm (c # cs) =
     outcome_bind (sm_step sm c) (\<lambda>(r, sm'). outcome_bind (sm_run sm' cs) (\<lambda>rs. Returns (r # rs)))"

fun map_run :: "('k \<rightharpoonup> 'v) \<Rightarrow> ('k, 'v) kv_op list \<Rightarrow> 'v kv_result list" where
  "map_run m [] = []"
| "map_run m (c # cs) = (case map_step m c of (r, m') \<Rightarrow> r # map_run m' cs)"

lemma sm_step_refines:
  assumes wf: "sm_wf sm"
  shows "\<exists>sm'. sm_step sm c = Returns (fst (map_step (sm_abs sm) c), sm') \<and> sm_wf sm' \<and>
           sm_abs sm' = snd (map_step (sm_abs sm) c)"
proof (cases c)
  case (KSet k v)
  then show ?thesis using sharded.insert [OF wf, of k v] by auto
next
  case (KDelete k)
  then show ?thesis using sharded.delete [OF wf, of k] by auto
next
  case (KGetOrSet k v)
  show ?thesis
  proof (cases "sm_abs sm k")
    case None
    then show ?thesis using KGetOrSet sm_abs_upd [OF wf, of k "Some v"] sm_wf_upd [OF wf, of k "Some v"]
      by (auto simp: smGetOrSet_def outcome_bind_sm [OF wf] sm_abs_def)
  next
    case (Some e)
    then show ?thesis using KGetOrSet wf by (auto simp: smGetOrSet_def outcome_bind_sm [OF wf] sm_abs_def)
  qed
qed (use wf in \<open>simp_all add: sharded.lookup smHas_def outcome_bind_sm smLen_card sm_wf_Clear sm_abs_def\<close>)

lemma sm_run_refines: "sm_wf sm \<Longrightarrow> sm_run sm cs = Returns (map_run (sm_abs sm) cs)"
proof (induction cs arbitrary: sm)
  case (Cons c cs)
  obtain sm' where "sm_step sm c = Returns (fst (map_step (sm_abs sm) c), sm')" "sm_wf sm'"
    "sm_abs sm' = snd (map_step (sm_abs sm) c)"
    using sm_step_refines [OF Cons.prems, of c] by blast
  with Cons.IH [of sm'] show ?case by (simp split: prod.split)
qed simp

text \<open>C10: Whatever the hash function and the number of processors (up to 2^28), every sequence of calls on
  a fresh sharded map returns what it would on one plain map, and no call indexes the shards out of
  range.\<close>
theorem ShardedMap_refines_map:
  assumes "0 \<le> gomaxprocs" "gomaxprocs < 2 ^ 28"
  shows "sm_run (NewShardedMap gomaxprocs h) cs = Returns (map_run Map.empty cs)"
  using sm_run_refines [OF sm_wf_New(1) [OF assms], of h cs] by (simp add: sm_wf_New(2) [OF assms])

theorem ShardedMap_refines_map_witness:
  "sm_run (NewShardedMap 1 (\<lambda>k. 17 * k)) [KSet 3 True, KSet 19 False, KGet 3, KLen] =
     Returns [RUnit, RUnit, RValue (Some True), RLen 2]"
  using ShardedMap_refines_map [of 1 "\<lambda>k :: 32 word. 17 * k" "[KSet 3 True, KSet 19 False, KGet 3, KLen]"]
  by simp

text \<open>The number of shards is a power of two at least four times the number of processors (counted
  as at least four) and less than twice that, so the mask selects exactly the valid indices.\<close>
theorem shardCount_is_power_of_two:
  assumes "0 \<le> gomaxprocs" "gomaxprocs < 2 ^ 28"
  shows "(\<exists>k. uint (shardCount gomaxprocs) = 2 ^ k) \<and>
     4 * max 4 gomaxprocs \<le> uint (shardCount gomaxprocs) \<and>
     uint (shardCount gomaxprocs) < 2 * (4 * max 4 gomaxprocs)"
proof -
  obtain k where "uint (shardCount gomaxprocs) = 2 ^ Suc k" "2 ^ k < 4 * max 4 gomaxprocs"
    "4 * max 4 gomaxprocs \<le> 2 ^ Suc k"
    using shardCount_power [OF assms] by metis
  then show ?thesis by (intro conjI exI [of _ "Suc k"]) simp_all
qed

theorem shardCount_is_power_of_two_witness:
  "4 * max 4 (6::int) \<le> uint (shardCount 6) \<and> uint (shardCount 6) < 48"
  using shardCount_is_power_of_two [of 6] by simp

end
