(* ===== verification/CircuitBreaker.thy ===== *)
theory CircuitBreaker
  imports ShardedMap
begin

text \<open>
  The per-host circuit breaker of \<open>internal/resilience/circuit_breaker.go\<close>. A time is a number of
  nanoseconds since Go's zero time, a duration a number of nanoseconds; every method takes the value
  of \<open>time.Now()\<close> it sees. The half-open probe counter is an \<open>int32\<close> that is decremented on every
  request, so it is a 32-bit word read as signed. \<open>HostCircuitBreaker\<close> keeps pointers to breakers in
  a sharded map; the breakers live in a store.
\<close>

section \<open>State\<close>

datatype state = StateClosed | StateHalfOpen | StateOpen

definition state_code :: "state \<Rightarrow> int" where
  "state_code s = (case s of StateClosed \<Rightarrow> 0 | StateHalfOpen \<Rightarrow> 1 | StateOpen \<Rightarrow> 2)"

text \<open>Go compares states by their codes; this is the order that says how restricted a breaker is.\<close>

instantiation state :: linorder
begin

definition less_eq_state :: "state \<Rightarrow> state \<Rightarrow> bool" where
  "less_eq_state s t \<longleftrightarrow> state_code s \<le> state_code t"

definition less_state :: "state \<Rightarrow> state \<Rightarrow> bool" where
  "less_state s t \<longleftrightarrow> state_code s < state_code t"

instance
  by standard (auto simp: less_eq_state_def less_state_def state_code_def split: state.splits)

end

definition state_String :: "state \<Rightarrow> string" where
  "state_String s =
     (case s of StateClosed \<Rightarrow> ''closed'' | StateHalfOpen \<Rightarrow> ''half-open'' | StateOpen \<Rightarrow> ''open'')"

record breaker_config =
  FailureThreshold :: int
  SuccessThreshold :: int
  Timeout :: int
  HalfOpenMaxProbes :: int

definition cb_DefaultConfig :: breaker_config where
  "cb_DefaultConfig = \<lparr>FailureThreshold = 5, SuccessThreshold = 2, Timeout = 60 * 10 ^ 9, HalfOpenMaxProbes = 1\<rparr>"

record breaker =
  cb_state :: state
  failureCount :: int
  successCount :: int
  failureThreshold :: int
  successThreshold :: int
  cb_timeout :: int
  lastFailure :: int
  halfOpenSince :: int
  halfOpenProbes :: "32 word"
  maxHalfOpenProbes :: "32 word"

definition NewCircuitBreaker :: "breaker_config option \<Rightarrow> breaker" where
  "NewCircuitBreaker cfg0 =
     (let cfg = (case cfg0 of None \<Rightarrow> cb_DefaultConfig | Some c \<Rightarrow> c)
      in \<lparr>cb_state = StateClosed, failureCount = 0, successCount = 0,
           failureThreshold = FailureThreshold cfg, successThreshold = SuccessThreshold cfg,
           cb_timeout = Timeout cfg, lastFailure = 0, halfOpenSince = 0,
           halfOpenProbes = word_of_int (HalfOpenMaxProbes cfg),
           maxHalfOpenProbes = word_of_int (HalfOpenMaxProbes cfg)\<rparr>)"

text \<open>\<open>time.Since\<close> saturates at the largest and smallest duration.\<close>

definition time_since :: "int \<Rightarrow> int \<Rightarrow> int" where
  "time_since now t = max (- (2 ^ 63)) (min (2 ^ 63 - 1) (now - t))"

section \<open>The methods of a breaker\<close>

text \<open>What \<open>Allow\<close> does after it has won the compare-and-swap from open to half-open.\<close>

definition allow_settle :: "int \<Rightarrow> breaker \<Rightarrow> breaker" where
  "allow_settle now cb =
     (let cb1 = cb\<lparr>successCount := 0, failureCount := 0, halfOpenSince := now\<rparr>
      in cb1\<lparr>halfOpenProbes := maxHalfOpenProbes cb1\<rparr>)"

definition cbAllow :: "int \<Rightarrow> breaker \<Rightarrow> bool \<times> breaker" where
  "cbAllow now cb =
     (case cb_state cb of
        StateClosed \<Rightarrow> (True, cb)
      | StateOpen \<Rightarrow>
          (if time_since now (lastFailure cb) > cb_timeout cb
           then (True, allow_settle now (cb\<lparr>cb_state := StateHalfOpen\<rparr>))
           else (False, cb))
      | StateHalfOpen \<Rightarrow>
          (if time_since now (halfOpenSince cb) > cb_timeout cb
           then (False, cb\<lparr>cb_state := StateOpen, lastFailure := now\<rparr>)
           else let p = halfOpenProbes cb - 1
                in (0 \<le>s p, cb\<lparr>halfOpenProbes := p\<rparr>)))"

definition cbSuccess :: "breaker \<Rightarrow> breaker" where
  "cbSuccess cb =
     (case cb_state cb of
        StateHalfOpen \<Rightarrow>
          (let cb1 = cb\<lparr>successCount := successCount cb + 1\<rparr>
           in if successCount cb1 \<ge> successThreshold cb1
              then cb1\<lparr>cb_state := StateClosed, failureCount := 0, successCount := 0,
                       halfOpenProbes := maxHalfOpenProbes cb1\<rparr>
              else cb1\<lparr>halfOpenProbes := maxHalfOpenProbes cb1\<rparr>)
      | StateClosed \<Rightarrow> cb\<lparr>failureCount := 0\<rparr>
      | StateOpen \<Rightarrow> cb)"

definition cbFailure :: "int \<Rightarrow> breaker \<Rightarrow> breaker" where
  "cbFailure now cb =
     (let cb1 = cb\<lparr>failureCount := failureCount cb + 1, lastFailure := now\<rparr>
      in case cb_state cb1 of
           StateHalfOpen \<Rightarrow> cb1\<lparr>cb_state := StateOpen, successCount := 0\<rparr>
         | _ \<Rightarrow> if failureCount cb1 \<ge> failureThreshold cb1 then cb1\<lparr>cb_state := StateOpen\<rparr> else cb1)"

definition cbReset :: "breaker \<Rightarrow> breaker" where
  "cbReset cb = cb\<lparr>cb_state := StateClosed, failureCount := 0, successCount := 0, lastFailure := 0\<rparr>"

section \<open>HostCircuitBreaker\<close>

record host_breakers =
  hcb_breakers :: "(string, nat) sharded_map"
  hcb_defaultConfig :: breaker_config
  hcb_store :: "nat \<Rightarrow> breaker"
  hcb_next :: nat

definition NewHostCircuitBreaker :: "int \<Rightarrow> (string \<Rightarrow> 32 word) \<Rightarrow> host_breakers" where
  "NewHostCircuitBreaker gomaxprocs hashFn =
     \<lparr>hcb_breakers = NewShardedMap gomaxprocs hashFn, hcb_defaultConfig = cb_DefaultConfig,
       hcb_store = (\<lambda>_. NewCircuitBreaker None), hcb_next = 0\<rparr>"

text \<open>The new breaker gets the next free address; it is allocated only on the slow path.\<close>

definition getOrCreate :: "host_breakers \<Rightarrow> string \<Rightarrow> (nat \<times> host_breakers) outcome" where
  "getOrCreate h host =
     outcome_bind (smGet (hcb_breakers h) host) (\<lambda>r.
       case r of
         Some cb \<Rightarrow> Returns (cb, h)
       | None \<Rightarrow> outcome_bind (smGet (hcb_breakers h) host) (\<lambda>r'.
           case r' of
             Some cb \<Rightarrow> Returns (cb, h)
           | None \<Rightarrow>
               (let cb = hcb_next h;
                    h1 = h\<lparr>hcb_store := (hcb_store h)(cb := NewCircuitBreaker (Some (hcb_defaultConfig h))),
                           hcb_next := cb + 1\<rparr>
                in outcome_bind (smSet (hcb_breakers h1) host cb) (\<lambda>m.
                     Returns (cb, h1\<lparr>hcb_breakers := m\<rparr>)))))"

datatype cb_call = CAllow | CSuccess | CFailure | CState | CReset

datatype cb_result = RAllow bool | RState state | RNone

text \<open>The call of one method on a breaker.\<close>

definition cb_apply :: "int \<Rightarrow> cb_call \<Rightarrow> breaker \<Rightarrow> cb_result \<times> breaker" where
  "cb_apply now c cb =
     (case c of
        CAllow \<Rightarrow> (case cbAllow now cb of (b, cb') \<Rightarrow> (RAllow b, cb'))
      | CSuccess \<Rightarrow> (RNone, cbSuccess cb)
      | CFailure \<Rightarrow> (RNone, cbFailure now cb)
      | CState \<Rightarrow> (RState (cb_state cb), cb)
      | CReset \<Rightarrow> (RNone, cbReset cb))"

definition hcb_call :: "int \<Rightarrow> cb_call \<Rightarrow> host_breakers \<Rightarrow> string \<Rightarrow> (cb_result \<times> host_breakers) outcome" where
  "hcb_call now c h host =
     outcome_bind (getOrCreate h host) (\<lambda>(cb, h1).
       case cb_apply now c (hcb_store h1 cb) of
         (r, cb') \<Rightarrow> Returns (r, h1\<lparr>hcb_store := (hcb_store h1)(cb := cb')\<rparr>))"

definition hcbCleanup :: "((string \<rightharpoonup> nat) \<Rightarrow> (string \<times> nat) list) \<Rightarrow> host_breakers \<Rightarrow> host_breakers outcome" where
  "hcbCleanup enum h =
     (let toDelete = smRange enum (hcb_breakers h)
            (\<lambda>acc k cb. (True, if cb_state (hcb_store h cb) = StateClosed \<and> failureCount (hcb_store h cb) = 0
                               then acc @ [k] else acc)) []
      in outcome_bind (foldl (\<lambda>r k. outcome_bind r (\<lambda>m. smDelete m k)) (Returns (hcb_breakers h)) toDelete)
           (\<lambda>m. Returns (h\<lparr>hcb_breakers := m\<rparr>)))"

definition hcbRangeStates :: "((string \<rightharpoonup> nat) \<Rightarrow> (string \<times> nat) list) \<Rightarrow> host_breakers \<Rightarrow> state list" where
  "hcbRangeStates enum h =
     smRange enum (hcb_breakers h) (\<lambda>acc k cb. (True, acc @ [cb_state (hcb_store h cb)])) []"

section \<open>Equivalent breakers\<close>

text \<open>Two breakers that no sequence of calls can tell apart: fields that the current state does not
  read, and that are written before they are read, may differ.\<close>

definition cb_equiv :: "breaker \<Rightarrow> breaker \<Rightarrow> bool" where
  "cb_equiv a b \<longleftrightarrow>
     failureThreshold a = failureThreshold b \<and> successThreshold a = successThreshold b \<and>
     cb_timeout a = cb_timeout b \<and> maxHalfOpenProbes a = maxHalfOpenProbes b \<and>
     cb_state a = cb_state b \<and> failureCount a = failureCount b \<and>
     (cb_state a = StateOpen \<longrightarrow> lastFailure a = lastFailure b) \<and>
     (cb_state a = StateHalfOpen \<longrightarrow> successCount a = successCount b \<and>
        halfOpenSince a = halfOpenSince b \<and> halfOpenProbes a = halfOpenProbes b)"

lemma cb_equiv_refl [simp]: "cb_equiv a a"
  by (simp add: cb_equiv_def)

lemma cb_apply_equiv:
  assumes "cb_equiv a b"
  shows "fst (cb_apply now c a) = fst (cb_apply now c b) \<and> cb_equiv (snd (cb_apply now c a)) (snd (cb_apply now c b))"
proof (cases c)
  case CAllow
  then show ?thesis using assms
    by (cases "cb_state a") (auto simp: cb_apply_def cbAllow_def cb_equiv_def allow_settle_def Let_def)
next
  case CSuccess
  then show ?thesis using assms
    by (cases "cb_state a") (auto simp: cb_apply_def cbSuccess_def cb_equiv_def Let_def)
next
  case CFailure
  then show ?thesis using assms
    by (cases "cb_state a") (auto simp: cb_apply_def cbFailure_def cb_equiv_def Let_def)
qed (use assms in \<open>auto simp: cb_apply_def cbReset_def cb_equiv_def\<close>)

section \<open>What a host sees\<close>

definition view :: "host_breakers \<Rightarrow> string \<Rightarrow> breaker" where
  "view h host = (case sm_abs (hcb_breakers h) host of
                    Some cb \<Rightarrow> hcb_store h cb
                  | None \<Rightarrow> NewCircuitBreaker (Some (hcb_defaultConfig h)))"

definition hcb_wf :: "host_breakers \<Rightarrow> bool" where
  "hcb_wf h \<longleftrightarrow> sm_wf (hcb_breakers h) \<and>
     (\<forall>host a. sm_abs (hcb_breakers h) host = Some a \<longrightarrow> a < hcb_next h) \<and>
     (\<forall>host host' a. sm_abs (hcb_breakers h) host = Some a \<longrightarrow>
        sm_abs (hcb_breakers h) host' = Some a \<longrightarrow> host = host')"

lemma getOrCreate_wf:
  assumes "hcb_wf h"
  obtains cb h1 where "getOrCreate h host = Returns (cb, h1)" "hcb_wf h1" "view h1 = view h"
    "sm_abs (hcb_breakers h1) host = Some cb" "hcb_defaultConfig h1 = hcb_defaultConfig h"
proof -
  have wf: "sm_wf (hcb_breakers h)" using assms by (simp add: hcb_wf_def)
  show thesis
  proof (cases "sm_abs (hcb_breakers h) host")
    case (Some cb)
    then have "getOrCreate h host = Returns (cb, h)" by (simp add: getOrCreate_def sharded.lookup [OF wf])
    then show thesis using that assms Some by blast
  next
    case None
    let ?cb = "hcb_next h" and ?new = "NewCircuitBreaker (Some (hcb_defaultConfig h))"
    obtain m where m: "smSet (hcb_breakers h) host ?cb = Returns m" "sm_wf m"
      "sm_abs m = (sm_abs (hcb_breakers h))(host \<mapsto> ?cb)"
      using sharded.insert [OF wf, of host ?cb] by blast
    let ?h = "h\<lparr>hcb_store := (hcb_store h)(?cb := ?new), hcb_next := ?cb + 1, hcb_breakers := m\<rparr>"
    have goc: "getOrCreate h host = Returns (?cb, ?h)"
      using None m(1) by (simp add: getOrCreate_def sharded.lookup [OF wf] Let_def)
    have lt: "a < ?cb" if "sm_abs (hcb_breakers h) x = Some a" for x a
      using assms that unfolding hcb_wf_def by blast
    have "hcb_wf ?h"
      unfolding hcb_wf_def
    proof (intro conjI allI impI)
      show "sm_wf (hcb_breakers ?h)" using m(2) by simp
      show "a < hcb_next ?h" if "sm_abs (hcb_breakers ?h) x = Some a" for x a
        using that lt [of x a] by (auto simp: m(3) split: if_splits)
      show "x = y" if "sm_abs (hcb_breakers ?h) x = Some a" "sm_abs (hcb_breakers ?h) y = Some a" for x y a
        using that lt [of x a] lt [of y a] assms unfolding hcb_wf_def by (auto simp: m(3) split: if_splits)
    qed
    moreover have "view ?h x = view h x" for x
      using lt [of x] None by (auto simp: view_def m(3) split: option.split)
    ultimately show thesis using that [OF goc] m(3) by (simp add: fun_eq_iff)
  qed
qed

lemma hcb_call_view:
  assumes "hcb_wf h"
  obtains h' where "hcb_call now c h host = Returns (fst (cb_apply now c (view h host)), h')" "hcb_wf h'"
    "view h' = (view h)(host := snd (cb_apply now c (view h host)))"
    "hcb_defaultConfig h' = hcb_defaultConfig h"
proof -
  obtain cb h1 where g: "getOrCreate h host = Returns (cb, h1)" "hcb_wf h1" "view h1 = view h"
    "sm_abs (hcb_breakers h1) host = Some cb" "hcb_defaultConfig h1 = hcb_defaultConfig h"
    using getOrCreate_wf [OF assms] by blast
  have v: "hcb_store h1 cb = view h host" using g(3,4) by (metis option.simps(5) view_def)
  let ?cb = "snd (cb_apply now c (view h host))"
  let ?h = "h1\<lparr>hcb_store := (hcb_store h1)(cb := ?cb)\<rparr>"
  have "hcb_call now c h host = Returns (fst (cb_apply now c (view h host)), ?h)"
    by (simp add: hcb_call_def g(1) v split: prod.split)
  moreover have "hcb_wf ?h" using g(2) unfolding hcb_wf_def by simp
  moreover have "view ?h x = ((view h)(host := ?cb)) x" for x
  proof (cases "x = host")
    case True
    then show ?thesis using g(4) by (simp add: view_def)
  next
    case False
    then have "sm_abs (hcb_breakers h1) x \<noteq> Some cb" using g(2,4) unfolding hcb_wf_def by blast
    then have "view ?h x = view h1 x" by (auto simp: view_def split: option.split)
    with False g(3) show ?thesis by simp
  qed
  ultimately show thesis using that [of ?h] g(5) by (simp add: fun_eq_iff)
qed

text \<open>A sequence of timed calls on hosts and what they return.\<close>

fun hcb_run :: "host_breakers \<Rightarrow> (int \<times> cb_call \<times> string) list \<Rightarrow> (cb_result list \<times> host_breakers) outcome" where
  "hcb_run h [] = Returns ([], h)"
| "hcb_run h ((now, c, host) # cs) =
     outcome_bind (hcb_call now c h host) (\<lambda>(r, h').
       outcome_bind (hcb_run h' cs) (\<lambda>(rs, h''). Returns (r # rs, h'')))"

lemma hcb_run_equiv:
  "hcb_wf h \<Longrightarrow> hcb_wf k \<Longrightarrow> (\<And>x. cb_equiv (view h x) (view k x)) \<Longrightarrow>
     \<exists>rs h' k'. hcb_run h cs = Returns (rs, h') \<and> hcb_run k cs = Returns (rs, k')"
proof (induction cs arbitrary: h k)
  case (Cons e cs)
  obtain now c host where e: "e = (now, c, host)" by (cases e)
  obtain h1 where h1: "hcb_call now c h host = Returns (fst (cb_apply now c (view h host)), h1)" "hcb_wf h1"
    "view h1 = (view h)(host := snd (cb_apply now c (view h host)))"
    using hcb_call_view [OF Cons.prems(1)] by metis
  obtain k1 where k1: "hcb_call now c k host = Returns (fst (cb_apply now c (view k host)), k1)" "hcb_wf k1"
    "view k1 = (view k)(host := snd (cb_apply now c (view k host)))"
    using hcb_call_view [OF Cons.prems(2)] by metis
  have "cb_equiv (view h1 x) (view k1 x)" for x
    using cb_apply_equiv [OF Cons.prems(3)] Cons.prems(3) by (simp add: h1(3) k1(3))
  from Cons.IH [OF h1(2) k1(2) this] obtain rs h' k'
    where "hcb_run h1 cs = Returns (rs, h')" "hcb_run k1 cs = Returns (rs, k')" by blast
  then show ?case using cb_apply_equiv [OF Cons.prems(3)] h1(1) k1(1) by (simp add: e)
qed simp

definition cb_config :: "breaker \<Rightarrow> int \<times> int \<times> int \<times> 32 word" where
  "cb_config cb = (failureThreshold cb, successThreshold cb, cb_timeout cb, maxHalfOpenProbes cb)"

lemma cb_apply_config: "cb_config (snd (cb_apply now c cb)) = cb_config cb"
  by (cases c; cases "cb_state cb")
     (auto simp: cb_apply_def cbAllow_def cbSuccess_def cbFailure_def cbReset_def allow_settle_def
        cb_config_def Let_def)

definition hcb_ok :: "host_breakers \<Rightarrow> bool" where
  "hcb_ok h \<longleftrightarrow> hcb_wf h \<and>
     (\<forall>x. cb_config (view h x) = cb_config (NewCircuitBreaker (Some (hcb_defaultConfig h))))"

lemma hcb_run_ok: "hcb_ok h \<Longrightarrow> hcb_run h cs = Returns (rs, h') \<Longrightarrow> hcb_ok h'"
proof (induction cs arbitrary: h rs)
  case (Cons e cs)
  obtain now c host where e: "e = (now, c, host)" by (cases e)
  have wf: "hcb_wf h" using Cons.prems(1) by (simp add: hcb_ok_def)
  obtain h1 where h1: "hcb_call now c h host = Returns (fst (cb_apply now c (view h host)), h1)" "hcb_wf h1"
    "view h1 = (view h)(host := snd (cb_apply now c (view h host)))" "hcb_defaultConfig h1 = hcb_defaultConfig h"
    using hcb_call_view [OF wf] by metis
  have "hcb_ok h1" using Cons.prems(1) h1(2-4) cb_apply_config by (simp add: hcb_ok_def)
  with Cons.IH Cons.prems(2) show ?case by (auto simp: e h1(1) outcome_bind_Returns_iff)
qed simp

lemma hcb_ok_New: "0 \<le> n \<Longrightarrow> n < 2 ^ 28 \<Longrightarrow> hcb_ok (NewHostCircuitBreaker n hf)"
  using sm_wf_New [of n, where 'k = string and 'v = nat]
  by (simp add: hcb_ok_def hcb_wf_def view_def NewHostCircuitBreaker_def)

section \<open>Cleanup\<close>

lemma range_entries_filter:
  "range_entries (\<lambda>acc k cb. (True, if P cb then acc @ [k] else acc)) acc es =
     (True, acc @ map fst (filter (\<lambda>e. P (snd e)) es))"
  by (induction es arbitrary: acc) auto

lemma range_shards_filter:
  "range_shards enum (\<lambda>acc k cb. (True, if P cb then acc @ [k] else acc)) acc ms =
     acc @ map fst (filter (\<lambda>e. P (snd e)) (concat (map enum ms)))"
  by (induction ms arbitrary: acc) (auto simp: range_entries_filter)

definition enumerates :: "((string \<rightharpoonup> nat) \<Rightarrow> (string \<times> nat) list) \<Rightarrow> host_breakers \<Rightarrow> bool" where
  "enumerates enum h \<longleftrightarrow> (\<forall>m \<in> set (sm_shards (hcb_breakers h)). \<forall>k v. (k, v) \<in> set (enum m) \<longleftrightarrow> m k = Some v)"

lemma shards_entry:
  assumes "sm_wf m" "s \<in> set (sm_shards m)" "s k = Some v"
  shows "sm_abs m k = Some v"
proof -
  obtain i where i: "i < length (sm_shards m)" "s = sm_shards m ! i" using assms(2) by (auto simp: in_set_conv_nth)
  moreover have "k \<in> dom (sm_shards m ! i)" using assms(3) i by blast
  ultimately have "shard_of m k = i" using assms(1) unfolding sm_wf_def by blast
  then show ?thesis using assms(3) i by (simp add: sm_abs_def)
qed

lemma hcbCleanup_view:
  assumes ok: "hcb_ok h" and en: "enumerates enum h"
  obtains h' where "hcbCleanup enum h = Returns h'" "hcb_wf h'" "\<And>x. cb_equiv (view h x) (view h' x)"
proof -
  have wf: "hcb_wf h" and swf: "sm_wf (hcb_breakers h)" using ok by (simp_all add: hcb_ok_def hcb_wf_def)
  let ?idle = "\<lambda>cb. cb_state (hcb_store h cb) = StateClosed \<and> failureCount (hcb_store h cb) = 0"
  define del where "del = map fst (filter (\<lambda>e. ?idle (snd e)) (concat (map enum (sm_shards (hcb_breakers h)))))"
  have idle: "\<exists>cb. sm_abs (hcb_breakers h) k = Some cb \<and> ?idle cb" if kd: "k \<in> set del" for k
  proof -
    obtain e where "k = fst e" "e \<in> set (filter (\<lambda>e. ?idle (snd e)) (concat (map enum (sm_shards (hcb_breakers h)))))"
      using kd unfolding del_def set_map by (elim imageE)
    then obtain s where s: "s \<in> set (sm_shards (hcb_breakers h))" "(k, snd e) \<in> set (enum s)" "?idle (snd e)"
      by (cases e) auto
    then have "s k = Some (snd e)" using en unfolding enumerates_def by blast
    with shards_entry [OF swf s(1)] s(3) show ?thesis by blast
  qed
  obtain m where m: "foldl (\<lambda>r k. outcome_bind r (\<lambda>m. smDelete m k)) (Returns (hcb_breakers h)) del = Returns m"
    "sm_wf m" "sm_abs m = (\<lambda>k. if k \<in> set del then None else sm_abs (hcb_breakers h) k)"
    using sharded.delete_all [OF swf, of del] by blast
  let ?h = "h\<lparr>hcb_breakers := m\<rparr>"
  have "hcbCleanup enum h = Returns ?h"
    using m(1) by (simp add: hcbCleanup_def smRange_def range_shards_filter del_def)
  moreover have "hcb_wf ?h" using wf m(2) by (auto simp: hcb_wf_def m(3) split: if_splits)
  moreover have "cb_equiv (view h x) (view ?h x)" for x
  proof (cases "x \<in> set del")
    case True
    then obtain cb where cb: "sm_abs (hcb_breakers h) x = Some cb" "?idle cb" using idle by blast
    have "view h x = hcb_store h cb" using cb(1) by (simp add: view_def)
    moreover have "view ?h x = NewCircuitBreaker (Some (hcb_defaultConfig h))"
      using True by (simp add: view_def m(3))
    moreover have "cb_config (view h x) = cb_config (NewCircuitBreaker (Some (hcb_defaultConfig h)))"
      using ok by (simp add: hcb_ok_def)
    ultimately show ?thesis using cb(2) by (auto simp: cb_equiv_def cb_config_def NewCircuitBreaker_def Let_def)
  next
    case False
    then show ?thesis by (simp add: view_def m(3) split: option.split)
  qed
  ultimately show thesis using that by blast
qed

section \<open>Sequences of calls on one breaker\<close>

fun cb_run :: "breaker \<Rightarrow> (int \<times> cb_call) list \<Rightarrow> cb_result list \<times> breaker" where
  "cb_run cb [] = ([], cb)"
| "cb_run cb ((now, c) # cs) =
     (case cb_apply now c cb of (r, cb') \<Rightarrow> case cb_run cb' cs of (rs, cb'') \<Rightarrow> (r # rs, cb''))"

lemma fst_cb_run: "fst (cb_run cb ((t, c) # cs)) = fst (cb_apply t c cb) # fst (cb_run (snd (cb_apply t c cb)) cs)"
  by (simp add: case_prod_beta)

text \<open>The transitions of the state machine, with the call that causes each.\<close>

inductive cb_edge :: "int \<Rightarrow> cb_call \<Rightarrow> breaker \<Rightarrow> state \<Rightarrow> bool" for now where
  trip: "cb_state cb = StateClosed \<Longrightarrow> failureThreshold cb \<le> failureCount cb + 1 \<Longrightarrow>
           cb_edge now CFailure cb StateOpen"
| probe: "cb_state cb = StateOpen \<Longrightarrow> time_since now (lastFailure cb) > cb_timeout cb \<Longrightarrow>
           cb_edge now CAllow cb StateHalfOpen"
| recover: "cb_state cb = StateHalfOpen \<Longrightarrow> successThreshold cb \<le> successCount cb + 1 \<Longrightarrow>
           cb_edge now CSuccess cb StateClosed"
| relapse: "cb_state cb = StateHalfOpen \<Longrightarrow> cb_edge now CFailure cb StateOpen"
| stuck: "cb_state cb = StateHalfOpen \<Longrightarrow> time_since now (halfOpenSince cb) > cb_timeout cb \<Longrightarrow>
           cb_edge now CAllow cb StateOpen"
| reset: "cb_state cb \<noteq> StateClosed \<Longrightarrow> cb_edge now CReset cb StateClosed"

inductive_cases cb_edgeE: "cb_edge now c cb s"

inductive_simps cb_edge_simps [simp]:
  "cb_edge now CAllow cb s" "cb_edge now CSuccess cb s" "cb_edge now CFailure cb s"
  "cb_edge now CState cb s" "cb_edge now CReset cb s"

lemma probe_words:
  assumes "- (2 ^ 31) \<le> j - 1" "j < 2 ^ 31"
  shows "0 \<le>s (word_of_int j - 1 :: 32 word) \<longleftrightarrow> 1 \<le> j"
proof -
  have "sint (word_of_int (j - 1) :: 32 word) = j - 1"
    using assms by (transfer fixing: j) (simp add: signed_take_bit_int_eq_self)
  then show ?thesis by (simp add: word_sle_eq) arith
qed

text \<open>Requests on a half-open breaker whose probes have not yet been settled.\<close>

lemma half_open_requests:
  "cb_state k = StateHalfOpen \<Longrightarrow> halfOpenProbes k = word_of_int j \<Longrightarrow>
   (\<forall>s \<in> set ts. time_since s (halfOpenSince k) \<le> cb_timeout k) \<Longrightarrow>
   - (2 ^ 31) \<le> j - int (length ts) \<Longrightarrow> j < 2 ^ 31 \<Longrightarrow>
     fst (cb_run k (map (\<lambda>s. (s, CAllow)) ts)) = map (\<lambda>i. RAllow (int i < j)) [0..<length ts]"
proof (induction ts arbitrary: k j)
  case (Cons s ts)
  let ?k = "k\<lparr>halfOpenProbes := word_of_int j - 1\<rparr>"
  have ap: "cb_apply s CAllow k = (RAllow (1 \<le> j), ?k)"
    using Cons.prems probe_words [of j] by (simp add: cb_apply_def cbAllow_def Let_def)
  have "fst (cb_run ?k (map (\<lambda>s. (s, CAllow)) ts)) = map (\<lambda>i. RAllow (int i < j - 1)) [0..<length ts]"
    by (rule Cons.IH) (use Cons.prems in auto)
  moreover have "map (\<lambda>i. RAllow (int i < j)) [0..<length (s # ts)] =
      RAllow (1 \<le> j) # map (\<lambda>i. RAllow (int i < j - 1)) [0..<length ts]"
    by (simp add: upt_conv_Cons map_Suc_upt [symmetric] comp_def del: upt_Suc) auto
  ultimately show ?case by (simp only: list.map fst_cb_run ap fst_conv snd_conv)
qed simp

section \<open>Properties\<close>

text \<open>Forgetting the idle breakers of all hosts is invisible: after any history of calls, every
  further sequence of calls on any hosts returns the same whether \<open>Cleanup\<close> ran or not.\<close>
theorem Cleanup_is_invisible:
  assumes "0 \<le> n" "n < 2 ^ 28" "hcb_run (NewHostCircuitBreaker n hf) past = Returns (rs0, h)"
    and "enumerates enum h"
  shows "\<exists>h' rs k k'. hcbCleanup enum h = Returns h' \<and> hcb_run h future = Returns (rs, k) \<and>
           hcb_run h' future = Returns (rs, k')"
proof -
  have ok: "hcb_ok h" using hcb_run_ok [OF hcb_ok_New] assms by blast
  then obtain h' where h': "hcbCleanup enum h = Returns h'" "hcb_wf h'" "\<And>x. cb_equiv (view h x) (view h' x)"
    using hcbCleanup_view assms(4) by blast
  moreover have "hcb_wf h" using ok by (simp add: hcb_ok_def)
  ultimately show ?thesis using hcb_run_equiv [of h h' future] by blast
qed

theorem Cleanup_is_invisible_witness:
  "\<exists>h rs0 h' rs k k'. hcb_run (NewHostCircuitBreaker 1 (\<lambda>_. 0)) [(5, CFailure, ''a'')] = Returns (rs0, h) \<and>
     hcbCleanup (\<lambda>m. case m ''a'' of None \<Rightarrow> [] | Some v \<Rightarrow> [(''a'', v)]) h = Returns h' \<and>
     hcb_run h [(9, CAllow, ''a'')] = Returns (rs, k) \<and> hcb_run h' [(9, CAllow, ''a'')] = Returns (rs, k')"
proof -
  let ?past = "[(5, CFailure, ''a'')] :: (int \<times> cb_call \<times> string) list"
  let ?enum = "\<lambda>m :: string \<rightharpoonup> nat. case m ''a'' of None \<Rightarrow> [] | Some v \<Rightarrow> [(''a'', v)]"
  obtain rs0 h where h: "hcb_run (NewHostCircuitBreaker 1 (\<lambda>_. 0)) ?past = Returns (rs0, h)"
    "set (sm_shards (hcb_breakers h)) \<subseteq> {Map.empty, [''a'' \<mapsto> 0]}"
    using set_update_subset_insert [of "replicate 16 Map.empty" 0 "[''a'' \<mapsto> 0]"]
    by (simp add: NewHostCircuitBreaker_def NewShardedMap_def Let_def hcb_call_def getOrCreate_def
        smGet_def smSet_def getShard_def shardCount_def upd_shard_def cb_apply_def insert_commute)
  have "enumerates ?enum h"
    unfolding enumerates_def
  proof
    fix m assume "m \<in> set (sm_shards (hcb_breakers h))"
    then have "m = Map.empty \<or> m = [''a'' \<mapsto> 0]" using h(2) by blast
    then show "\<forall>k v. (k, v) \<in> set (?enum m) \<longleftrightarrow> m k = Some v" by (auto split: if_splits)
  qed
  from Cleanup_is_invisible [OF _ _ h(1) this, of "[(9, CAllow, ''a'')]"] h(1) show ?thesis by auto
qed

text \<open>The state of a breaker changes only along the edges of the machine: it opens from closed by the
  failure that reaches the threshold, leaves open only by a request after the timeout (or a reset),
  and leaves half-open by enough successes, one failure, or a probe that took longer than the timeout.\<close>
theorem breaker_moves_along_edges:
  "cb_state (snd (cb_apply now c cb)) = cb_state cb \<or>
   cb_edge now c cb (cb_state (snd (cb_apply now c cb)))"
proof (cases c)
  case CAllow
  then show ?thesis by (cases "cb_state cb") (auto simp: cb_apply_def cbAllow_def allow_settle_def Let_def)
next
  case CSuccess
  then show ?thesis by (cases "cb_state cb") (auto simp: cb_apply_def cbSuccess_def Let_def)
next
  case CFailure
  then show ?thesis by (cases "cb_state cb") (auto simp: cb_apply_def cbFailure_def Let_def)
qed (cases "cb_state cb"; simp add: cb_apply_def cbReset_def)+

lemma time_since_le: "now - t \<le> d \<Longrightarrow> 0 \<le> d \<Longrightarrow> time_since now t \<le> d"
  by (simp add: time_since_def)

text \<open>C8: While a breaker is open and its timeout has not passed since the failure that opened it, every
  request is refused, whatever successes and late failures come in between.\<close>
theorem open_breaker_refuses:
  assumes "cb_state cb = StateOpen" "0 \<le> cb_timeout cb"
    and "\<forall>(t, c) \<in> set cs. lastFailure cb \<le> t \<and> t \<le> lastFailure cb + cb_timeout cb \<and> c \<noteq> CReset"
  shows "RAllow True \<notin> set (fst (cb_run cb cs)) \<and> cb_state (snd (cb_run cb cs)) = StateOpen"
proof -
  have "RAllow True \<notin> set (fst (cb_run k cs)) \<and> cb_state (snd (cb_run k cs)) = StateOpen"
    if "cb_state k = StateOpen" "cb_timeout k = cb_timeout cb" "lastFailure cb \<le> lastFailure k"
      "\<forall>(t, c) \<in> set cs. lastFailure cb \<le> t \<and> t \<le> lastFailure cb + cb_timeout cb \<and> c \<noteq> CReset" for k
    using that
  proof (induction cs arbitrary: k)
    case (Cons e cs)
    obtain t c where e: "e = (t, c)" by (cases e)
    have t: "lastFailure cb \<le> t" "t \<le> lastFailure cb + cb_timeout cb" "c \<noteq> CReset" using Cons.prems(4) e by auto
    let ?k = "snd (cb_apply t c k)"
    have "\<not> time_since t (lastFailure k) > cb_timeout k"
      using time_since_le [of t "lastFailure k" "cb_timeout k"] t Cons.prems(2,3) assms(2) by simp
    then have "fst (cb_apply t c k) \<noteq> RAllow True" "cb_state ?k = StateOpen" "cb_timeout ?k = cb_timeout cb"
      "lastFailure cb \<le> lastFailure ?k"
      using Cons.prems(1-3) t
      by (cases c; auto simp: cb_apply_def cbAllow_def cbSuccess_def cbFailure_def Let_def)+
    with Cons.IH [of ?k] Cons.prems(4) e show ?case by (auto split: prod.splits)
  qed simp
  from this [of cb] assms show ?thesis by simp
qed

theorem open_breaker_refuses_witness:
  "RAllow True \<notin> set (fst (cb_run (snd (cb_run (NewCircuitBreaker (Some \<lparr>FailureThreshold = 1, SuccessThreshold = 1,
       Timeout = 10, HalfOpenMaxProbes = 1\<rparr>)) [(100, CFailure)])) [(105, CAllow), (106, CFailure), (110, CAllow)]))"
  using open_breaker_refuses [of "snd (cb_run (NewCircuitBreaker (Some \<lparr>FailureThreshold = 1, SuccessThreshold = 1,
       Timeout = 10, HalfOpenMaxProbes = 1\<rparr>)) [(100, CFailure)])" "[(105, CAllow), (106, CFailure), (110, CAllow)]"]
  by (simp add: NewCircuitBreaker_def cb_apply_def cbFailure_def Let_def)

text \<open>The request that takes the breaker from open to half-open is admitted without using up one of
  the \<open>HalfOpenMaxProbes\<close>: until a probe settles, \<open>HalfOpenMaxProbes + 1\<close> requests are admitted.\<close>
theorem half_open_admits_one_more:
  assumes "cb_state cb = StateOpen" "time_since t (lastFailure cb) > cb_timeout cb"
    and "maxHalfOpenProbes cb = word_of_int (int p)" "p < 2 ^ 31" "length ts < 2 ^ 31"
    and "\<forall>s \<in> set ts. time_since s t \<le> cb_timeout cb"
  shows "fst (cb_run cb ((t, CAllow) # map (\<lambda>s. (s, CAllow)) ts)) =
     RAllow True # map (\<lambda>i. RAllow (i < p)) [0..<length ts]"
proof -
  let ?k = "allow_settle t (cb\<lparr>cb_state := StateHalfOpen\<rparr>)"
  have ap: "cb_apply t CAllow cb = (RAllow True, ?k)"
    using assms(1,2) by (simp add: cb_apply_def cbAllow_def)
  have "fst (cb_run ?k (map (\<lambda>s. (s, CAllow)) ts)) = map (\<lambda>i. RAllow (int i < int p)) [0..<length ts]"
    by (rule half_open_requests) (use assms in \<open>auto simp: allow_settle_def Let_def\<close>)
  then show ?thesis by (simp add: fst_cb_run ap del: cb_run.simps)
qed

theorem half_open_admits_one_more_witness:
  "fst (cb_run (cbFailure 100 (NewCircuitBreaker (Some \<lparr>FailureThreshold = 1, SuccessThreshold = 1,
       Timeout = 10, HalfOpenMaxProbes = 1\<rparr>))) [(120, CAllow), (121, CAllow), (122, CAllow)]) =
     [RAllow True, RAllow True, RAllow False]"
  using half_open_admits_one_more [of "cbFailure 100 (NewCircuitBreaker (Some \<lparr>FailureThreshold = 1,
       SuccessThreshold = 1, Timeout = 10, HalfOpenMaxProbes = 1\<rparr>))" 120 1 "[121, 122]"]
  by (simp add: NewCircuitBreaker_def cbFailure_def Let_def time_since_def)

text \<open>C19: \<open>Allow\<close> publishes the half-open state before it stores the time it was entered. A request that
  falls between the two reads the time of the previous half-open period (or none), takes the probe
  for stuck and opens the breaker again, although the first request is admitted as a probe.\<close>
theorem half_open_race_reopens:
  assumes "cb_state cb = StateOpen" "time_since now (lastFailure cb) > cb_timeout cb"
    and "time_since now (halfOpenSince cb) > cb_timeout cb"
  shows "\<exists>b. cbAllow now (cb\<lparr>cb_state := StateHalfOpen\<rparr>) = (False, b) \<and>
     cb_state (allow_settle now b) = StateOpen \<and> lastFailure (allow_settle now b) = now \<and>
     fst (cbAllow now cb)"
  using assms by (simp add: cbAllow_def allow_settle_def Let_def)

theorem half_open_race_reopens_witness:
  "\<exists>b. cbAllow 120 ((cbFailure 100 (NewCircuitBreaker (Some \<lparr>FailureThreshold = 1, SuccessThreshold = 1,
       Timeout = 10, HalfOpenMaxProbes = 1\<rparr>)))\<lparr>cb_state := StateHalfOpen\<rparr>) = (False, b) \<and>
     cb_state (allow_settle 120 b) = StateOpen"
  using half_open_race_reopens [of "cbFailure 100 (NewCircuitBreaker (Some \<lparr>FailureThreshold = 1,
       SuccessThreshold = 1, Timeout = 10, HalfOpenMaxProbes = 1\<rparr>))" 120]
  by (auto simp add: NewCircuitBreaker_def cbFailure_def Let_def time_since_def)

end
