(* ===== verification/Errors.thy ===== *)
theory Errors
  imports GoStrings
begin

text \<open>
  The structured errors of \<open>internal/errors\<close> (types.go, sentinels.go, crawl.go, classify.go) and
  the retry loop around a page (\<open>internal/crawler\<close>: retry.go, crawl_page.go). Go compares errors by
  identity, so an error that was allocated carries its address; a sentinel is identified by the
  kind it stands for. The chain of wrapped errors is followed as \<open>errors.Is\<close> and \<open>errors.As\<close> of the
  standard library do. The timestamp of an error plays no part and is left out.
\<close>

section \<open>types.go\<close>

datatype kind =
    KindUnknown | KindTimeout | KindNetwork | KindDNS | KindTLS | KindHTTP | KindRateLimit
  | KindBlocked | KindAuth | KindParse | KindResource | KindBrowser | KindOOM | KindCancelled

definition kind_String :: "kind \<Rightarrow> string" where
  "kind_String k =
     (case k of
        KindTimeout \<Rightarrow> ''timeout'' | KindNetwork \<Rightarrow> ''network'' | KindDNS \<Rightarrow> ''dns'' | KindTLS \<Rightarrow> ''tls''
      | KindHTTP \<Rightarrow> ''http'' | KindRateLimit \<Rightarrow> ''rate_limit'' | KindBlocked \<Rightarrow> ''blocked''
      | KindAuth \<Rightarrow> ''auth'' | KindParse \<Rightarrow> ''parse'' | KindResource \<Rightarrow> ''resource''
      | KindBrowser \<Rightarrow> ''browser'' | KindOOM \<Rightarrow> ''oom'' | KindCancelled \<Rightarrow> ''cancelled'' | _ \<Rightarrow> ''unknown'')"

text \<open>
  A Go error: a sentinel of sentinels.go, \<open>context.Canceled\<close>, a foreign error (its address, its text,
  the answer of its \<open>Timeout\<close> method if it has one, and what it wraps), or a \<open>*CrawlError\<close>.
\<close>

datatype error =
    ESentinel kind
  | ECanceled
  | EForeign (e_addr: nat) (e_text: string) (e_timeout: "bool option") (e_inner: "error option")
  | ECrawl crawl_error
and crawl_error =
    CrawlError (ce_addr: nat) (ce_Kind: kind) (ce_Message: string) (ce_Wrapped: "error option")
      (ce_URL: string) (ce_Host: string) (ce_Retryable: bool) (ce_StatusCode: int)

section \<open>sentinels.go\<close>

definition sentinel_text :: "kind \<Rightarrow> string" where
  "sentinel_text k =
     (case k of
        KindTimeout \<Rightarrow> ''crawl: timeout'' | KindNetwork \<Rightarrow> ''crawl: network'' | KindDNS \<Rightarrow> ''crawl: dns''
      | KindTLS \<Rightarrow> ''crawl: tls'' | KindHTTP \<Rightarrow> ''crawl: http'' | KindRateLimit \<Rightarrow> ''crawl: rate limited''
      | KindBlocked \<Rightarrow> ''crawl: blocked'' | KindAuth \<Rightarrow> ''crawl: auth'' | KindParse \<Rightarrow> ''crawl: parse''
      | KindResource \<Rightarrow> ''crawl: resource'' | KindBrowser \<Rightarrow> ''crawl: browser''
      | KindOOM \<Rightarrow> ''crawl: out of memory'' | KindCancelled \<Rightarrow> ''crawl: cancelled''
      | KindUnknown \<Rightarrow> ''crawl: unknown'')"

definition SentinelFor :: "kind \<Rightarrow> error" where
  "SentinelFor k = ESentinel k"

section \<open>crawl.go\<close>

definition IsRetryable :: "kind \<Rightarrow> bool" where
  "IsRetryable k =
     (case k of
        KindTimeout \<Rightarrow> True | KindNetwork \<Rightarrow> True | KindRateLimit \<Rightarrow> True | KindBrowser \<Rightarrow> True
      | KindResource \<Rightarrow> True
      | KindDNS \<Rightarrow> False | KindTLS \<Rightarrow> False | KindHTTP \<Rightarrow> False
      | KindBlocked \<Rightarrow> False | KindAuth \<Rightarrow> False | KindParse \<Rightarrow> False | KindOOM \<Rightarrow> False
      | KindCancelled \<Rightarrow> False
      | _ \<Rightarrow> False)"

text \<open>The constructors take the address of the new object.\<close>

definition New :: "nat \<Rightarrow> kind \<Rightarrow> string \<Rightarrow> crawl_error" where
  "New addr k msg = CrawlError addr k msg None [] [] (IsRetryable k) 0"

definition Wrap :: "nat \<Rightarrow> kind \<Rightarrow> string \<Rightarrow> error option \<Rightarrow> crawl_error" where
  "Wrap addr k msg err = CrawlError addr k msg err [] [] (IsRetryable k) 0"

fun WithURL :: "crawl_error \<Rightarrow> string \<Rightarrow> crawl_error" where
  "WithURL (CrawlError a k m w u h r s) url = CrawlError a k m w url h r s"

fun WithHost :: "crawl_error \<Rightarrow> string \<Rightarrow> crawl_error" where
  "WithHost (CrawlError a k m w u h r s) host = CrawlError a k m w u host r s"

fun WithStatusCode :: "crawl_error \<Rightarrow> int \<Rightarrow> crawl_error" where
  "WithStatusCode (CrawlError a k m w u h r s) code = CrawlError a k m w u h r code"

text \<open>\<open>Error()\<close>: \<open>%s\<close> of a kind prints its name, \<open>%v\<close> of an error its text.\<close>

fun error_text :: "error \<Rightarrow> string"
  and crawl_text :: "crawl_error \<Rightarrow> string" where
  "error_text (ESentinel k) = sentinel_text k"
| "error_text ECanceled = ''context canceled''"
| "error_text (EForeign a t d i) = t"
| "error_text (ECrawl c) = crawl_text c"
| "crawl_text (CrawlError a k m w u h r s) =
     (case w of
        Some e \<Rightarrow> ''['' @ kind_String k @ ''] '' @ m @ '': '' @ error_text e
      | None \<Rightarrow> ''['' @ kind_String k @ ''] '' @ m)"

text \<open>Whether two errors are the same pointer.\<close>

fun same_error :: "error \<Rightarrow> error \<Rightarrow> bool" where
  "same_error (ESentinel k) (ESentinel k') \<longleftrightarrow> k = k'"
| "same_error ECanceled ECanceled \<longleftrightarrow> True"
| "same_error (EForeign a _ _ _) (EForeign b _ _ _) \<longleftrightarrow> a = b"
| "same_error (ECrawl c) (ECrawl d) \<longleftrightarrow> ce_addr c = ce_addr d"
| "same_error _ _ \<longleftrightarrow> False"

text \<open>
  \<open>errors.Is(err, target)\<close> of the standard library: compare, ask the error's own \<open>Is\<close> method, unwrap
  and go on. \<open>CrawlError.Is\<close> is the only such method; both walk down the same chain.
\<close>

fun errors_Is :: "error \<Rightarrow> error \<Rightarrow> bool"
  and crawl_Is :: "crawl_error \<Rightarrow> error \<Rightarrow> bool" where
  "errors_Is (ESentinel k) target = same_error (ESentinel k) target"
| "errors_Is ECanceled target = same_error ECanceled target"
| "errors_Is (EForeign a t d i) target =
     (same_error (EForeign a t d i) target \<or> (case i of Some e \<Rightarrow> errors_Is e target | None \<Rightarrow> False))"
| "errors_Is (ECrawl (CrawlError a k m w u h r s)) target =
     (same_error (ECrawl (CrawlError a k m w u h r s)) target \<or>
      crawl_Is (CrawlError a k m w u h r s) target \<or>
      (case w of Some e \<Rightarrow> errors_Is e target | None \<Rightarrow> False))"
| "crawl_Is (CrawlError a k m w u h r s) target =
     (if same_error target (ECrawl (CrawlError a k m w u h r s)) then True
      else if same_error target (SentinelFor k) then True
      else (case w of Some e \<Rightarrow> same_error target e \<or> errors_Is e target | None \<Rightarrow> False))"

text \<open>\<open>errors.As\<close> for a \<open>*CrawlError\<close>: the first one on the chain.\<close>

fun errors_As :: "error \<Rightarrow> crawl_error option" where
  "errors_As (ECrawl c) = Some c"
| "errors_As (EForeign a t d i) = (case i of Some e \<Rightarrow> errors_As e | None \<Rightarrow> None)"
| "errors_As _ = None"

definition crawl_Unwrap :: "crawl_error option \<Rightarrow> error option" where
  "crawl_Unwrap e = (case e of None \<Rightarrow> None | Some c \<Rightarrow> ce_Wrapped c)"

section \<open>classify.go\<close>

text \<open>The package's own \<open>contains\<close> and \<open>searchString\<close>: the loop over start positions.\<close>

definition searchString :: "string \<Rightarrow> string \<Rightarrow> bool" where
  "searchString s sub = list_ex (\<lambda>i. take (length sub) (drop i s) = sub) [0..<length s - length sub + 1]"

definition contains_str :: "string \<Rightarrow> string \<Rightarrow> bool" where
  "contains_str s sub \<longleftrightarrow> length s \<ge> length sub \<and> searchString s sub"

definition has_timeout :: "error \<Rightarrow> bool" where
  "has_timeout e = (case e of EForeign _ _ (Some True) _ \<Rightarrow> True | _ \<Rightarrow> False)"

definition Classify :: "nat \<Rightarrow> error option \<Rightarrow> crawl_error option" where
  "Classify addr err0 =
     (case err0 of None \<Rightarrow> None | Some err \<Rightarrow>
       (case errors_As err of Some ce \<Rightarrow> Some ce | None \<Rightarrow>
         if has_timeout err then Some (WithStatusCode (New addr KindTimeout ''request timed out'') 408)
         else if errors_Is err ECanceled then Some (New addr KindCancelled (error_text err))
         else let errStr = error_text err in
         if contains_str errStr ''no such host'' \<or> contains_str errStr ''DNS'' \<or> contains_str errStr ''dns''
           then Some (New addr KindDNS errStr)
         else if contains_str errStr ''tls'' \<or> contains_str errStr ''certificate'' \<or> contains_str errStr ''handshake''
           then Some (New addr KindTLS errStr)
         else if contains_str errStr ''timeout'' \<or> contains_str errStr ''deadline''
           then Some (New addr KindTimeout errStr)
         else if contains_str errStr ''429'' \<or> contains_str errStr ''rate limit'' \<or> contains_str errStr ''too many''
           then Some (WithStatusCode (New addr KindRateLimit errStr) 429)
         else if contains_str errStr ''403'' \<or> contains_str errStr ''blocked'' \<or> contains_str errStr ''captcha''
           then Some (WithStatusCode (New addr KindBlocked errStr) 403)
         else if contains_str errStr ''401'' \<or> contains_str errStr ''auth'' \<or> contains_str errStr ''login''
           then Some (WithStatusCode (New addr KindAuth errStr) 401)
         else if contains_str errStr ''connection refused'' \<or> contains_str errStr ''connection reset''
              \<or> contains_str errStr ''broken pipe''
           then Some (New addr KindNetwork errStr)
         else if contains_str errStr ''no memory'' \<or> contains_str errStr ''cannot allocate''
           then Some (New addr KindOOM errStr)
         else if contains_str errStr ''canceled'' \<or> contains_str errStr ''cancelled''
           then Some (New addr KindCancelled errStr)
         else Some (New addr KindUnknown errStr)))"

section \<open>retry.go and crawl_page.go\<close>

definition status_IsRetryable :: "int \<Rightarrow> bool" where
  "status_IsRetryable c =
     (if c = 429 then True else if c = 503 then True else if c = 504 then True else if c = 408 then True
      else if c \<ge> 500 then True else False)"

definition IsRateLimited :: "int \<Rightarrow> bool" where
  "IsRateLimited c \<longleftrightarrow> c = 429 \<or> c = 503"

text \<open>
  One attempt of \<open>crawlPage\<close>, as the environment answers it: whether the backoff wait was cut short
  by a cancelled context, whether the browser pool gave a tab, and the error of \<open>doCrawl\<close>.
\<close>

datatype attempt = Cancelled | NoBrowser | Crawled "error option"

text \<open>What the loop reports to the circuit breaker of the host.\<close>

datatype report = ReportSuccess | ReportFailure | ReportNothing

text \<open>
  The loop from attempt number \<open>n\<close> on; the list holds the answers of the environment. A wait can be
  cancelled only from the second attempt on. The result is the report and the number of crawls done.
\<close>

fun page_loop :: "nat \<Rightarrow> nat \<Rightarrow> error option \<Rightarrow> nat \<Rightarrow> (nat \<Rightarrow> attempt) \<Rightarrow> nat \<Rightarrow> report \<times> nat" where
  "page_loop 0 n lastErr crawls env addr = ((if lastErr \<noteq> None then ReportFailure else ReportNothing), crawls)"
| "page_loop (Suc left) n lastErr crawls env addr =
     (case env n of
        Cancelled \<Rightarrow> (ReportNothing, crawls)
      | NoBrowser \<Rightarrow> (ReportNothing, crawls)
      | Crawled None \<Rightarrow> (ReportSuccess, Suc crawls)
      | Crawled (Some e) \<Rightarrow>
          (case Classify addr (Some e) of
             Some ce \<Rightarrow> if \<not> ce_Retryable ce then (ReportFailure, Suc crawls)
                        else page_loop left (Suc n) (Some e) (Suc crawls) env addr
           | None \<Rightarrow> page_loop left (Suc n) (Some e) (Suc crawls) env addr))"

definition crawlPage :: "int \<Rightarrow> (nat \<Rightarrow> attempt) \<Rightarrow> nat \<Rightarrow> report \<times> nat" where
  "crawlPage maxRetries env addr = page_loop (nat maxRetries) 0 None 0 env addr"

section \<open>Lemmas\<close>

lemma contains_str_contains: "contains_str s sub \<longleftrightarrow> contains s sub"
proof
  assume "contains_str s sub"
  then obtain i where "take (length sub) (drop i s) = sub"
    unfolding contains_str_def searchString_def list_ex_iff by blast
  then have "s = take i s @ sub @ drop (length sub) (drop i s)" by (metis append_take_drop_id)
  then show "contains s sub" unfolding contains_iff by blast
next
  assume "contains s sub"
  then obtain a b where s: "s = a @ sub @ b" by (auto simp: contains_iff)
  then have "take (length sub) (drop (length a) s) = sub" "length a \<in> set [0..<length s - length sub + 1]"
    "length sub \<le> length s" by simp_all
  then show "contains_str s sub"
    unfolding contains_str_def searchString_def list_ex_iff by blast
qed

lemma same_error_refl: "same_error e e"
  by (cases e) auto

lemma errors_Is_kind: "errors_Is (ECrawl ce) (SentinelFor (ce_Kind ce))"
  by (cases ce) (simp add: SentinelFor_def)

lemma errors_Is_wrap: "errors_Is e target \<Longrightarrow> errors_Is (EForeign a t d (Some e)) target"
  by simp

lemma WithStatusCode_simps [simp]:
  "ce_Kind (WithStatusCode c n) = ce_Kind c" "ce_Retryable (WithStatusCode c n) = ce_Retryable c"
  "ce_Message (WithStatusCode c n) = ce_Message c"
  by (cases c; simp)+

lemma New_simps [simp]:
  "ce_Kind (New a k m) = k" "ce_Retryable (New a k m) = IsRetryable k" "ce_Message (New a k m) = m"
  by (simp_all add: New_def)

lemma Classify_total: "Classify addr (Some e) \<noteq> None"
  by (simp add: Classify_def Let_def split: option.splits)

lemma Classify_fresh_retryable:
  "errors_As e = None \<Longrightarrow> Classify addr (Some e) = Some ce \<Longrightarrow> ce_Retryable ce = IsRetryable (ce_Kind ce)"
  by (auto simp: Classify_def Let_def split: if_splits)

text \<open>A chain of \<open>fmt.Errorf("...: %w", ...)\<close> wrappers.\<close>

definition wrap_chain :: "(nat \<times> string \<times> bool option) list \<Rightarrow> error \<Rightarrow> error" where
  "wrap_chain ws e = foldr (\<lambda>(a, t, d) e. EForeign a t d (Some e)) ws e"

lemma errors_As_wrap_chain: "errors_As (wrap_chain ws e) = errors_As e"
  by (induction ws) (auto simp: wrap_chain_def)

lemma errors_Is_wrap_chain: "errors_Is e target \<Longrightarrow> errors_Is (wrap_chain ws e) target"
  by (induction ws) (auto simp: wrap_chain_def)

definition retryable_failure :: "nat \<Rightarrow> attempt \<Rightarrow> bool" where
  "retryable_failure addr a =
     (case a of Crawled (Some e) \<Rightarrow>
        (case Classify addr (Some e) of Some ce \<Rightarrow> ce_Retryable ce | None \<Rightarrow> True) | _ \<Rightarrow> False)"

lemma page_loop_spec:
  "page_loop left n lastErr crawls env addr = (r, m) \<Longrightarrow>
     crawls \<le> m \<and> m \<le> crawls + left \<and>
     (\<forall>i. i + 1 < m - crawls \<longrightarrow> retryable_failure addr (env (n + i))) \<and>
     (r = ReportSuccess \<longrightarrow> crawls < m \<and> env (n + (m - crawls) - 1) = Crawled None) \<and>
     (r = ReportFailure \<longrightarrow> (m = crawls \<and> left = 0 \<and> lastErr \<noteq> None) \<or>
        (crawls < m \<and> (\<exists>e. env (n + (m - crawls) - 1) = Crawled (Some e)) \<and>
         (m = crawls + left \<or> \<not> retryable_failure addr (env (n + (m - crawls) - 1)))))"
proof (induction left arbitrary: n lastErr crawls)
  case 0
  then show ?case by (auto split: if_splits)
next
  case (Suc left)
  consider (stop) "env n = Cancelled \<or> env n = NoBrowser" | (ok) "env n = Crawled None"
    | (fin) e where "env n = Crawled (Some e)" "\<not> retryable_failure addr (env n)"
    | (retry) e where "env n = Crawled (Some e)" "retryable_failure addr (env n)"
    by (cases "env n") (auto intro: not_None_eq [THEN iffD1] elim: option.exhaust)
  then show ?case
  proof cases
    case stop
    then show ?thesis using Suc.prems by auto
  next
    case ok
    then show ?thesis using Suc.prems by auto
  next
    case fin
    then have "r = ReportFailure" "m = Suc crawls"
      using Suc.prems by (auto simp: retryable_failure_def split: option.splits if_splits)
    then show ?thesis using fin by auto
  next
    case retry
    then have "page_loop left (Suc n) (Some e) (Suc crawls) env addr = (r, m)"
      using Suc.prems by (auto simp: retryable_failure_def split: option.splits if_splits)
    note ih = Suc.IH [OF this]
    have first: "retryable_failure addr (env (n + i))" if "i + 1 < m - crawls" for i
      using that retry(2) ih by (cases i) auto
    show ?thesis
      using ih retry first by (auto simp: Suc_diff_Suc)
  qed
qed

section \<open>Properties\<close>

text \<open>However often a crawl error has been wrapped, classifying the result gives that very error, and
  it matches the sentinel of its kind; and a freshly classified error is retryable exactly when its
  kind is, and matches the sentinel of its kind through any number of further wrappers.\<close>
theorem Classify_sees_through_wrapping:
  "Classify addr (Some (wrap_chain ws (ECrawl ce))) = Some ce \<and>
   errors_Is (wrap_chain ws (ECrawl ce)) (SentinelFor (ce_Kind ce)) \<and>
   (\<exists>c. Classify addr (Some e) = Some c \<and>
      errors_Is (wrap_chain ws (ECrawl c)) (SentinelFor (ce_Kind c)) \<and>
      (errors_As e = Some c \<or> ce_Retryable c = IsRetryable (ce_Kind c)))"
proof -
  obtain c where c: "Classify addr (Some e) = Some c" using Classify_total by blast
  have "errors_As e = Some c \<or> ce_Retryable c = IsRetryable (ce_Kind c)"
  proof (cases "errors_As e")
    case None
    then show ?thesis using Classify_fresh_retryable c by blast
  next
    case (Some d)
    then show ?thesis using c by (simp add: Classify_def)
  qed
  moreover have "Classify addr (Some (wrap_chain ws (ECrawl ce))) = Some ce"
    by (simp add: Classify_def errors_As_wrap_chain)
  ultimately show ?thesis using c errors_Is_wrap_chain errors_Is_kind by blast
qed

text \<open>C12: A page is crawled at most \<open>MaxRetries\<close> times; every crawl but the last failed with a retryable
  error; the host's breaker is told of a success only after a crawl that succeeded, and of a failure
  only when the last crawl failed and was not retryable or was the last one allowed.\<close>
theorem crawlPage_retries:
  "crawlPage maxRetries env addr = (r, m) \<longrightarrow>
     int m \<le> max 0 maxRetries \<and>
     (\<forall>i. i + 1 < m \<longrightarrow> retryable_failure addr (env i)) \<and>
     (r = ReportSuccess \<longrightarrow> 0 < m \<and> env (m - 1) = Crawled None) \<and>
     (r = ReportFailure \<longrightarrow> 0 < m \<and> (\<exists>e. env (m - 1) = Crawled (Some e)) \<and>
        (int m = maxRetries \<or> \<not> retryable_failure addr (env (m - 1))))"
proof
  assume "crawlPage maxRetries env addr = (r, m)"
  then have "page_loop (nat maxRetries) 0 None 0 env addr = (r, m)" by (simp add: crawlPage_def)
  from page_loop_spec [OF this]
  show "int m \<le> max 0 maxRetries \<and>
     (\<forall>i. i + 1 < m \<longrightarrow> retryable_failure addr (env i)) \<and>
     (r = ReportSuccess \<longrightarrow> 0 < m \<and> env (m - 1) = Crawled None) \<and>
     (r = ReportFailure \<longrightarrow> 0 < m \<and> (\<exists>e. env (m - 1) = Crawled (Some e)) \<and>
        (int m = maxRetries \<or> \<not> retryable_failure addr (env (m - 1))))"
    by auto
qed

theorem crawlPage_retries_witness:
  "crawlPage 3 (\<lambda>i. if i = 0 then Crawled (Some (EForeign 1 ''x'' (Some True) None)) else Crawled None) 9 =
     (ReportSuccess, 2) \<and> (2::int) \<le> max 0 3"
proof -
  let ?env = "\<lambda>i::nat. if i = 0 then Crawled (Some (EForeign 1 ''x'' (Some True) None)) else Crawled None"
  have run: "crawlPage 3 ?env 9 = (ReportSuccess, 2)" by code_simp
  have "int 2 \<le> max 0 3"
    using crawlPage_retries [of 3 ?env 9 ReportSuccess 2] run by blast
  with run show ?thesis by simp
qed

end
