(* ===== verification/Robots.thy ===== *)
theory Robots
  imports GoNetURL
begin

text \<open>
  The robots.txt support of \<open>internal/robots\<close> (types.go, rules.go, the cache lookup of sitemap.go).
  The HTTP client, the clock and \<open>time.ParseDuration\<close> are parameters: a fetch is a function from the
  robots URL to what the server answered. A rule with stars is compiled to the regular expression
  \<open>^...\<close> with \<open>.*\<close> for each star; \<open>wild_match\<close> is what that expression matches. The cache of compiled
  expressions only saves work and is left out, as is the collapsing of concurrent fetches.
\<close>

section \<open>types.go\<close>

record robots_entry =
  re_Allow :: "string list"
  re_Disallow :: "string list"
  re_CrawlDelay :: int
  re_Sitemaps :: "string list"
  re_fetchedAt :: int
  re_transient :: bool

record robots_parser =
  rp_cache :: "string \<rightharpoonup> robots_entry"
  rp_cacheTTL :: int
  rp_transientTTL :: int
  rp_userAgent :: string

section \<open>rules.go\<close>

definition NewRobotsParser :: robots_parser where
  "NewRobotsParser = \<lparr>rp_cache = Map.empty, rp_cacheTTL = 24 * 3600 * 10 ^ 9,
     rp_transientTTL = 5 * 60 * 10 ^ 9, rp_userAgent = ''*''\<rparr>"

definition SetUserAgent :: "robots_parser \<Rightarrow> string \<Rightarrow> robots_parser" where
  "SetUserAgent rp ua = rp\<lparr>rp_userAgent := ua\<rparr>"

text \<open>
  What \<open>^rule\<close> with \<open>.*\<close> for \<open>*\<close> matches: the rule is anchored at the start and may end anywhere; the
  dot of Go's expressions matches every byte but a newline.
\<close>

fun wild_match :: "string \<Rightarrow> string \<Rightarrow> bool" where
  "wild_match [] s \<longleftrightarrow> True"
| "wild_match (r # rs) [] \<longleftrightarrow> r = CHR ''*'' \<and> wild_match rs []"
| "wild_match (r # rs) (c # s) \<longleftrightarrow>
     (if r = CHR ''*'' then wild_match rs (c # s) \<or> (byte_of c \<noteq> 10 \<and> wild_match (r # rs) s)
      else r = c \<and> wild_match rs s)"

text \<open>\<open>regexp.Compile\<close> refuses a pattern that is not valid UTF-8; a quoted pattern is valid otherwise.\<close>

definition utf8_cont :: "char \<Rightarrow> bool" where
  "utf8_cont c \<longleftrightarrow> 128 \<le> byte_of c \<and> byte_of c < 192"

fun valid_utf8 :: "string \<Rightarrow> bool" where
  "valid_utf8 [] \<longleftrightarrow> True"
| "valid_utf8 (a # s) \<longleftrightarrow>
     (let x = byte_of a in
      if x < 128 then valid_utf8 s
      else case s of
        b # s1 \<Rightarrow>
          if 194 \<le> x \<and> x < 224 then utf8_cont b \<and> valid_utf8 s1
          else (case s1 of
            c # s2 \<Rightarrow>
              if 224 \<le> x \<and> x < 240 then
                utf8_cont b \<and> utf8_cont c \<and> (x = 224 \<longrightarrow> 160 \<le> byte_of b) \<and> (x = 237 \<longrightarrow> byte_of b < 160) \<and> valid_utf8 s2
              else (case s2 of
                d # s3 \<Rightarrow> 240 \<le> x \<and> x < 245 \<and> utf8_cont b \<and> utf8_cont c \<and> utf8_cont d \<and>
                  (x = 240 \<longrightarrow> 144 \<le> byte_of b) \<and> (x = 244 \<longrightarrow> byte_of b < 144) \<and> valid_utf8 s3
              | [] \<Rightarrow> False)
          | [] \<Rightarrow> False)
      | [] \<Rightarrow> False)"

definition compileRule :: "string \<Rightarrow> (string \<Rightarrow> bool) option" where
  "compileRule rule = (if valid_utf8 rule then Some (wild_match rule) else None)"

definition matchPath :: "string \<Rightarrow> string \<Rightarrow> bool" where
  "matchPath rule path =
     (if rule = [] then False
      else if \<not> contains rule ''*'' then has_prefix path rule
      else case compileRule rule of
             None \<Rightarrow> has_prefix path (trim_suffix rule ''*'')
           | Some re \<Rightarrow> re path)"

text \<open>The two loops of \<open>evaluateRules\<close>: the longest matching rule, the first among equals.\<close>

fun best_rule :: "string list \<Rightarrow> string \<Rightarrow> nat \<times> string \<Rightarrow> nat \<times> string" where
  "best_rule [] path best = best"
| "best_rule (rule # rules) path (score, p) =
     best_rule rules path
       (if matchPath rule path \<and> length rule > score then (length rule, rule) else (score, p))"

definition evaluateRules :: "robots_entry \<Rightarrow> string \<Rightarrow> int \<Rightarrow> bool \<times> int" where
  "evaluateRules entry path0 cfgDelay =
     (let path = (if path0 = [] then ''/'' else path0);
          allowScore = fst (best_rule (re_Allow entry) path (0, []));
          disallowScore = fst (best_rule (re_Disallow entry) path (0, []))
      in if (allowScore > 0 \<or> disallowScore > 0) \<and> \<not> allowScore \<ge> disallowScore then (False, 0)
         else (True, if re_CrawlDelay entry > 0 then re_CrawlDelay entry else cfgDelay))"

definition matchUserAgent :: "string \<Rightarrow> string \<Rightarrow> bool" where
  "matchUserAgent pattern ua =
     (if pattern = ''*'' then True else contains (to_lower ua) (to_lower pattern))"

text \<open>The state of the line loop: the entry, \<open>inOurAgent\<close> and \<open>matchedSpecific\<close>.\<close>

definition robots_line :: "(string \<Rightarrow> int option) \<Rightarrow> string \<Rightarrow> robots_entry \<times> bool \<times> bool \<Rightarrow> string \<Rightarrow>
    robots_entry \<times> bool \<times> bool" where
  "robots_line parseDuration ua st line0 =
     (case st of (entry, inOurAgent, matchedSpecific) \<Rightarrow>
       let line = trim_space line0 in
       if line = [] \<or> has_prefix line ''#'' then st
       else case cut_byte CHR '':'' line of (k, v, colon) \<Rightarrow>
         if \<not> colon then st
         else let key = trim_space (to_lower k); val = trim_space v in
           if key = ''user-agent'' then
             (let isWildcard = (val = ''*''); isMatch = matchUserAgent val ua in
              if matchedSpecific then (entry, False, matchedSpecific)
              else if \<not> isWildcard \<and> isMatch then (entry, True, True)
              else if isWildcard \<and> \<not> matchedSpecific then (entry, True, matchedSpecific)
              else (entry, False, matchedSpecific))
           else if key = ''disallow'' then
             (if inOurAgent \<and> val \<noteq> [] then (entry\<lparr>re_Disallow := re_Disallow entry @ [val]\<rparr>, inOurAgent, matchedSpecific) else st)
           else if key = ''allow'' then
             (if inOurAgent \<and> val \<noteq> [] then (entry\<lparr>re_Allow := re_Allow entry @ [val]\<rparr>, inOurAgent, matchedSpecific) else st)
           else if key = ''crawl-delay'' then
             (if inOurAgent then
                (case parseDuration (val @ ''s'') of
                   Some d \<Rightarrow> (entry\<lparr>re_CrawlDelay := d\<rparr>, inOurAgent, matchedSpecific)
                 | None \<Rightarrow> st)
              else st)
           else if key = ''sitemap'' then (entry\<lparr>re_Sitemaps := re_Sitemaps entry @ [val]\<rparr>, inOurAgent, matchedSpecific)
           else st)"

text \<open>What the server answered: no response, or a status and the body, if it could be read.\<close>

datatype http_answer = NoResponse | Response int "string option"

definition fetchRobots :: "(string \<Rightarrow> int option) \<Rightarrow> int \<Rightarrow> http_answer \<Rightarrow> string \<Rightarrow> robots_entry" where
  "fetchRobots parseDuration now answer ua =
     (let entry = \<lparr>re_Allow = [], re_Disallow = [], re_CrawlDelay = 0, re_Sitemaps = [],
                   re_fetchedAt = now, re_transient = False\<rparr>
      in case answer of
           NoResponse \<Rightarrow> entry
         | Response status body \<Rightarrow>
             if status = 404 \<or> status = 410 then entry
             else if status \<ge> 500 then
               entry\<lparr>re_fetchedAt := now, re_Disallow := [''/''], re_transient := True\<rparr>
             else if status \<noteq> 200 then entry
             else case body of
                    None \<Rightarrow> entry
                  | Some b \<Rightarrow> fst (foldl (robots_line parseDuration ua) (entry, False, False)
                                     (split_byte CHR 0x0A (take (500 * 1024) b))))"

definition robots_url :: "go_url \<Rightarrow> string" where
  "robots_url u = u_scheme u @ ''://'' @ hostname u @ ''/robots.txt''"

definition CanCrawl :: "(string \<Rightarrow> int option) \<Rightarrow> (string \<Rightarrow> http_answer) \<Rightarrow> int \<Rightarrow> robots_parser \<Rightarrow> string \<Rightarrow>
    string \<Rightarrow> bool \<Rightarrow> int \<Rightarrow> (bool \<times> int) \<times> robots_parser" where
  "CanCrawl parseDuration fetch now rp rawURL userAgent respectRobots cfgDelay =
     (if \<not> respectRobots then ((True, cfgDelay), rp)
      else let ua = (if userAgent = [] then rp_userAgent rp else userAgent) in
        case url_parse rawURL of
          None \<Rightarrow> ((True, cfgDelay), rp)
        | Some u \<Rightarrow>
            (let robotsURL = robots_url u;
                 fresh = (case rp_cache rp robotsURL of
                            None \<Rightarrow> None
                          | Some entry \<Rightarrow>
                              if now - re_fetchedAt entry < (if re_transient entry then rp_transientTTL rp else rp_cacheTTL rp)
                              then Some entry else None)
             in case fresh of
                  Some entry \<Rightarrow> (evaluateRules entry (u_path u) cfgDelay, rp)
                | None \<Rightarrow>
                    (let entry = fetchRobots parseDuration now (fetch robotsURL) ua
                     in (evaluateRules entry (u_path u) cfgDelay,
                         rp\<lparr>rp_cache := (rp_cache rp)(robotsURL \<mapsto> entry)\<rparr>))))"

definition ClearExpired :: "int \<Rightarrow> robots_parser \<Rightarrow> robots_parser" where
  "ClearExpired now rp =
     rp\<lparr>rp_cache := (\<lambda>k. case rp_cache rp k of
                          Some entry \<Rightarrow> if now - re_fetchedAt entry > rp_cacheTTL rp then None else Some entry
                        | None \<Rightarrow> None)\<rparr>"

text \<open>sitemap.go: the sitemaps of a host, from the cache only.\<close>

definition GetSitemaps :: "robots_parser \<Rightarrow> string \<Rightarrow> string list" where
  "GetSitemaps rp rawURL =
     (case url_parse rawURL of
        None \<Rightarrow> []
      | Some u \<Rightarrow> (case rp_cache rp (robots_url u) of Some entry \<Rightarrow> re_Sitemaps entry | None \<Rightarrow> []))"

section \<open>Lemmas\<close>

lemma matchPath_Nil [simp]: "\<not> matchPath [] path"
  by (simp add: matchPath_def)

text \<open>A score is the length of the longest matching rule, or what it started with.\<close>

lemma best_rule_score:
  "best_rule rules path (n, p) = (s, q) \<Longrightarrow>
     n \<le> s \<and> (\<forall>r \<in> set rules. matchPath r path \<longrightarrow> length r \<le> s) \<and>
     (s = n \<or> (\<exists>r \<in> set rules. matchPath r path \<and> length r = s))"
proof (induction rules arbitrary: n p)
  case (Cons r rules)
  then show ?case
    by (cases "matchPath r path \<and> length r > n") fastforce+
qed simp

lemma best_rule_less:
  "fst (best_rule as path (0, [])) < fst (best_rule ds path (0, [])) \<longleftrightarrow>
     (\<exists>d \<in> set ds. matchPath d path \<and> (\<forall>a \<in> set as. matchPath a path \<longrightarrow> length a < length d))"
proof -
  obtain sa qa where a: "best_rule as path (0, []) = (sa, qa)" by fastforce
  obtain sd qd where d: "best_rule ds path (0, []) = (sd, qd)" by fastforce
  note A = best_rule_score [OF a] and D = best_rule_score [OF d]
  have "sa < sd \<longleftrightarrow> (\<exists>d \<in> set ds. matchPath d path \<and> (\<forall>a \<in> set as. matchPath a path \<longrightarrow> length a < length d))"
  proof
    assume "sa < sd"
    then obtain r where "r \<in> set ds" "matchPath r path" "length r = sd" using D by auto
    then show "\<exists>d \<in> set ds. matchPath d path \<and> (\<forall>a \<in> set as. matchPath a path \<longrightarrow> length a < length d)"
      using A \<open>sa < sd\<close> by fastforce
  next
    assume "\<exists>d \<in> set ds. matchPath d path \<and> (\<forall>a \<in> set as. matchPath a path \<longrightarrow> length a < length d)"
    then obtain r where r: "r \<in> set ds" "matchPath r path" "\<forall>a \<in> set as. matchPath a path \<longrightarrow> length a < length r" by blast
    then have "0 < length r" "length r \<le> sd" using D by (auto simp: matchPath_def)
    then have "0 < sd" by linarith
    then show "sa < sd" using A r(3) \<open>length r \<le> sd\<close> by fastforce
  qed
  then show ?thesis by (simp add: a d)
qed

lemma wild_match_literal: "CHR ''*'' \<notin> set a \<Longrightarrow> wild_match (a @ b) s \<longleftrightarrow> (\<exists>t. s = a @ t \<and> wild_match b t)"
proof (induction a arbitrary: s)
  case (Cons x a)
  then show ?case by (cases s) auto
qed simp

lemma wild_match_star:
  "wild_match (CHR ''*'' # b) s \<longleftrightarrow> (\<exists>m t. s = m @ t \<and> (\<forall>c \<in> set m. byte_of c \<noteq> 10) \<and> wild_match b t)"
proof (induction s)
  case Nil
  then show ?case by simp
next
  case (Cons c s)
  show ?case
  proof
    assume "wild_match (CHR ''*'' # b) (c # s)"
    then consider "wild_match b (c # s)" | "byte_of c \<noteq> 10" "wild_match (CHR ''*'' # b) s" by auto
    then show "\<exists>m t. c # s = m @ t \<and> (\<forall>c \<in> set m. byte_of c \<noteq> 10) \<and> wild_match b t"
    proof cases
      case 1
      then show ?thesis by (intro exI [of _ "[]"] exI [of _ "c # s"]) simp
    next
      case 2
      then obtain m t where "s = m @ t" "\<forall>c \<in> set m. byte_of c \<noteq> 10" "wild_match b t" using Cons.IH by blast
      then show ?thesis using 2(1) by (intro exI [of _ "c # m"] exI [of _ t]) simp
    qed
  next
    assume "\<exists>m t. c # s = m @ t \<and> (\<forall>c \<in> set m. byte_of c \<noteq> 10) \<and> wild_match b t"
    then obtain m t where mt: "c # s = m @ t" "\<forall>c \<in> set m. byte_of c \<noteq> 10" "wild_match b t" by blast
    show "wild_match (CHR ''*'' # b) (c # s)"
    proof (cases m)
      case Nil
      then have "wild_match b (c # s)" using mt by simp
      then show ?thesis by simp
    next
      case (Cons x m')
      then have "byte_of c \<noteq> 10" "wild_match (CHR ''*'' # b) s" using mt Cons.IH by auto
      then show ?thesis by simp
    qed
  qed
qed

text \<open>Lines that open a group.\<close>

definition agent_line :: "string \<Rightarrow> bool" where
  "agent_line l \<longleftrightarrow> (case cut_byte CHR '':'' (trim_space l) of (k, v, colon) \<Rightarrow>
     colon \<and> \<not> has_prefix (trim_space l) ''#'' \<and> trim_space (to_lower k) = ''user-agent'')"

definition agent_value :: "string \<Rightarrow> string" where
  "agent_value l = trim_space (fst (snd (cut_byte CHR '':'' (trim_space l))))"

lemma robots_line_agent:
  assumes "agent_line l"
  shows "robots_line pd ua (e, i, m) l =
    (if m then (e, False, m)
     else if agent_value l \<noteq> ''*'' \<and> matchUserAgent (agent_value l) ua then (e, True, True)
     else if agent_value l = ''*'' then (e, True, m) else (e, False, m))"
proof -
  obtain k v where c: "cut_byte CHR '':'' (trim_space l) = (k, v, True)"
    using assms by (auto simp: agent_line_def split: prod.splits)
  then have "trim_space l \<noteq> []" by auto
  then show ?thesis using assms c
    by (simp add: agent_line_def agent_value_def robots_line_def Let_def)
qed

lemma robots_line_outside:
  assumes "\<not> agent_line l" "robots_line pd ua (e, False, m) l = (e', i', m')"
  shows "re_Allow e' = re_Allow e \<and> re_Disallow e' = re_Disallow e \<and> re_CrawlDelay e' = re_CrawlDelay e \<and>
    \<not> i' \<and> m' = m"
  using assms by (auto simp: robots_line_def agent_line_def Let_def split: prod.splits if_splits)

lemma robots_lines_outside:
  "\<forall>l \<in> set ls. \<not> agent_line l \<Longrightarrow> foldl (robots_line pd ua) (e, False, m) ls = (e', i', m') \<Longrightarrow>
     re_Allow e' = re_Allow e \<and> re_Disallow e' = re_Disallow e \<and> re_CrawlDelay e' = re_CrawlDelay e"
proof (induction ls arbitrary: e)
  case (Cons l ls)
  obtain e1 i1 m1 where s: "robots_line pd ua (e, False, m) l = (e1, i1, m1)" by (metis prod_cases3)
  then show ?case using Cons robots_line_outside [OF _ s] by auto
qed simp

lemma robots_lines_time: "re_fetchedAt (fst (foldl (robots_line pd ua) st ls)) = re_fetchedAt (fst st)"
proof (induction ls arbitrary: st)
  case (Cons l ls)
  have "re_fetchedAt (fst (robots_line pd ua st l)) = re_fetchedAt (fst st)"
    by (auto simp: robots_line_def Let_def split: prod.splits option.splits)
  with Cons show ?case by simp
qed simp

lemma fetchRobots_time: "re_fetchedAt (fetchRobots pd now answer ua) = now"
  by (simp add: fetchRobots_def Let_def robots_lines_time split: http_answer.split option.split)

section \<open>Properties\<close>

text \<open>C13: A path is refused exactly when some matching disallow rule is longer than every matching allow
  rule: the longest match decides and an allow rule wins a tie.\<close>
theorem evaluateRules_longest_match:
  "fst (evaluateRules entry path delay) \<longleftrightarrow>
     \<not> (\<exists>d \<in> set (re_Disallow entry). matchPath d (if path = [] then ''/'' else path) \<and>
          (\<forall>a \<in> set (re_Allow entry). matchPath a (if path = [] then ''/'' else path) \<longrightarrow> length a < length d))"
  unfolding evaluateRules_def Let_def best_rule_less [symmetric] by auto

theorem evaluateRules_longest_match_witness:
  "\<not> fst (evaluateRules \<lparr>re_Allow = [''/a''], re_Disallow = [''/a*c''], re_CrawlDelay = 0, re_Sitemaps = [],
       re_fetchedAt = 0, re_transient = False\<rparr> ''/abc'' 0)"
  unfolding evaluateRules_longest_match by code_simp

text \<open>A group that names several agents is lost for the first of them: once an agent line has matched,
  the next agent line ends the group, so the rules that follow it are not recorded.\<close>
theorem second_agent_line_drops_group:
  assumes "agent_line l1" "agent_value l1 \<noteq> ''*''" "matchUserAgent (agent_value l1) ua"
    and "agent_line l2" "\<forall>l \<in> set ls. \<not> agent_line l"
  shows "re_Disallow (fst (foldl (robots_line pd ua) (entry, i, False) (l1 # l2 # ls))) = re_Disallow entry \<and>
         re_Allow (fst (foldl (robots_line pd ua) (entry, i, False) (l1 # l2 # ls))) = re_Allow entry"
proof -
  have "foldl (robots_line pd ua) (entry, i, False) (l1 # l2 # ls) = foldl (robots_line pd ua) (entry, False, True) ls"
    using assms by (simp add: robots_line_agent)
  then show ?thesis using robots_lines_outside [OF assms(5)] by (metis prod.collapse)
qed

theorem second_agent_line_drops_group_witness:
  "re_Disallow (fetchRobots (\<lambda>_. None) 0 (Response 200 (Some
     (''User-agent: mybot'' @ [CHR 0x0A] @ ''User-agent: other'' @ [CHR 0x0A] @ ''Disallow: /''))) ''mybot'') = []"
proof -
  let ?e = "\<lparr>re_Allow = [], re_Disallow = [], re_CrawlDelay = 0, re_Sitemaps = [], re_fetchedAt = 0, re_transient = False\<rparr>"
  have "split_byte CHR 0x0A (take (500 * 1024) (''User-agent: mybot'' @ [CHR 0x0A] @
      ''User-agent: other'' @ [CHR 0x0A] @ ''Disallow: /'')) =
      [''User-agent: mybot'', ''User-agent: other'', ''Disallow: /'']" by simp
  moreover have "agent_line ''User-agent: mybot''" "agent_value ''User-agent: mybot'' \<noteq> ''*''"
    "matchUserAgent (agent_value ''User-agent: mybot'') ''mybot''" "agent_line ''User-agent: other''"
    "\<forall>l \<in> set [''Disallow: /'']. \<not> agent_line l" by code_simp+
  ultimately show ?thesis
    using second_agent_line_drops_group [of "''User-agent: mybot''" "''mybot''" "''User-agent: other''"
        "[''Disallow: /'']" "\<lambda>_. None" ?e False]
    by (simp add: fetchRobots_def Let_def)
qed

text \<open>The cache is keyed by the robots URL only: while an entry is fresh, every user agent is judged by
  the rules that were selected for the agent that fetched it.\<close>
theorem cached_rules_ignore_user_agent:
  assumes "url_parse url = Some u" "rp_cache rp (robots_url u) = None"
    and "0 \<le> now - t0" "now - t0 < min (rp_transientTTL rp) (rp_cacheTTL rp)"
  shows "fst (CanCrawl pd fetch' now (snd (CanCrawl pd fetch t0 rp url ua True delay)) url ua' True delay) =
         fst (CanCrawl pd fetch t0 rp url ua True delay)"
proof -
  show ?thesis
    using assms fetchRobots_time by (simp add: CanCrawl_def Let_def)
qed

theorem cached_rules_ignore_user_agent_witness:
  "fst (CanCrawl (\<lambda>_. None) (\<lambda>_. Response 200 None) 9
     (snd (CanCrawl (\<lambda>_. None) (\<lambda>_. Response 503 None) 7 NewRobotsParser ''http://h/x'' ''b'' True 0))
     ''http://h/x'' ''a'' True 0) = (False, 0)"
proof -
  let ?fetch = "\<lambda>_ :: string. Response 503 None"
  have "url_parse ''http://h/x'' \<noteq> None" by code_simp
  then obtain u where u: "url_parse ''http://h/x'' = Some u" by blast
  have "fst (CanCrawl (\<lambda>_. None) ?fetch 7 NewRobotsParser ''http://h/x'' ''b'' True 0) = (False, 0)"
    by code_simp
  then show ?thesis
    using cached_rules_ignore_user_agent [OF u, of NewRobotsParser 9 7 "\<lambda>_. None" "\<lambda>_. Response 200 None" ?fetch "''b''" 0 "''a''"]
    by (simp add: NewRobotsParser_def)
qed

end
