(* ===== verification/Config.thy ===== *)
theory Config
  imports GoStrings
begin

text \<open>
  The configuration of \<open>internal/config\<close>: the structs of types.go, \<open>DefaultConfig\<close> (config.go),
  \<open>Validate\<close> and \<open>SanitizeConfig\<close> (validate.go). A pointer to a nested struct is an option, a
  duration a number of nanoseconds, a JSON object a map. The struct of the whole configuration is
  cut into record extensions at its blank lines only to keep each declaration small: its fields are
  those of one flat record. Reading files, the environment and the JSON schema are not modelled.
\<close>

section \<open>types.go\<close>

record smtp_config =
  smtp_Host :: string
  smtp_Port :: int
  smtp_User :: string
  smtp_Pass :: string
  smtp_From :: string
  smtp_To :: "string list"

record dedupe_config =
  dedupe_PreserveQueryParams :: "string list"
  dedupe_PreservePathSegments :: "string list"

record change_config =
  change_Enabled :: bool
  change_SnapshotDir :: string
  change_MaxSnapshots :: int
  change_ReportDir :: string

record basic_auth_config =
  basic_Username :: string
  basic_Password :: string

record header_auth_config =
  header_Headers :: "string \<rightharpoonup> string"

record oauth_config =
  oauth_ClientID :: string
  oauth_ClientSecret :: string
  oauth_AuthURL :: string
  oauth_TokenURL :: string
  oauth_RefreshURL :: string
  oauth_Scopes :: "string list"
  oauth_RedirectURL :: string
  oauth_State :: string

record auth_config =
  auth_Enabled :: bool
  auth_Type :: string
  auth_LoginURL :: string
  auth_FormFields :: "string \<rightharpoonup> string"
  auth_Username :: string
  auth_Password :: string
  auth_SubmitSelector :: string
  auth_WaitAfterLogin :: int
  auth_BasicAuth :: "basic_auth_config option"
  auth_HeaderAuth :: "header_auth_config option"
  auth_OAuthConfig :: "oauth_config option"

record captcha_config =
  captcha_Enabled :: bool
  captcha_Provider :: string
  captcha_APIKey :: string
  captcha_Timeout :: int
  captcha_RetryCount :: int

record queue_config =
  queue_Backend :: string
  queue_RedisURL :: string
  queue_PgDSN :: string
  queue_KafkaURL :: string

record infinite_scroll_config =
  scroll_Enabled :: bool
  scroll_MaxScrolls :: int
  scroll_MaxDuration :: int
  scroll_StablePasses :: int
  scroll_ItemSelector :: string
  scroll_ScrollContainer :: string
  scroll_LoadMoreSelector :: string
  scroll_ScrollDelay :: int
  scroll_ScrollDistance :: int

record cookie =
  cookie_Name :: string
  cookie_Value :: string
  cookie_Domain :: string
  cookie_Path :: string
  cookie_HTTPOnly :: bool
  cookie_Secure :: bool
  cookie_SameSite :: string

record config_crawl =
  cfg_Seeds :: "string list"
  cfg_MaxDepth :: int
  cfg_MaxConcurrentPages :: int
  cfg_AssetConcurrency :: int
  cfg_PageTimeout :: int
  cfg_UserAgent :: string
  cfg_OutputDir :: string
  cfg_CrawlDelay :: int
  cfg_RespectRobots :: bool
  cfg_EnableScreenshot :: bool
  cfg_EnablePDF :: bool
  cfg_EnableWARC :: bool
  cfg_EnableWACZ :: bool
  cfg_EnableSingleFile :: bool
  cfg_EnableArticleExtract :: bool
  cfg_Proxy :: string
  cfg_Proxies :: "string list"
  cfg_Cookies :: nat
  cfg_AllowedDomains :: "string list"
  cfg_ExcludePatterns :: "string list"
  cfg_ScrollHeight :: int
  cfg_MaxRetries :: int
  cfg_MaxURLsPerHost :: int
  cfg_MaxTotalURLs :: int
  cfg_CheckpointInterval :: int
  cfg_CheckpointFile :: string
  cfg_BloomFilterPath :: string
  cfg_RotateUserAgents :: bool
  cfg_UserAgents :: "string list"

record config_wait = config_crawl +
  cfg_WaitStrategy :: string
  cfg_WaitSelector :: string
  cfg_WaitTimeout :: int
  cfg_NetworkIdleQuiet :: int
  cfg_WaitForResponse :: string
  cfg_WaitForPageTimeout :: int
  cfg_WaitStrategyTimeout :: int
  cfg_InfiniteScroll :: "infinite_scroll_config option"
  cfg_InterceptAPIs :: "string list"
  cfg_ClickSelectors :: "string list"
  cfg_JSBeforeLoad :: "string list"
  cfg_JSAfterLoad :: "string list"
  cfg_ExpandSections :: bool
  cfg_DismissOverlays :: bool

record config_page = config_wait +
  cfg_EnableStealth :: bool
  cfg_EnableLazyLoad :: bool
  cfg_EnableShadowDOM :: bool
  cfg_EnableIframes :: bool
  cfg_EnableRouteDiscovery :: bool
  cfg_EnableMediaCapture :: bool
  cfg_EnableStructuredData :: bool
  cfg_MaxSPARoutes :: int
  cfg_EnableInteractionEngine :: bool
  cfg_MaxInteractionsPerPage :: int
  cfg_ViewportWidth :: int
  cfg_ViewportHeight :: int
  cfg_MobileEmulation :: bool
  cfg_MobileDevice :: string
  cfg_MobileUserAgent :: string
  cfg_NormalizeURLs :: bool
  cfg_MaxIframeDepth :: int
  cfg_IframeSkipPatterns :: "string list"

record config_service = config_page +
  cfg_BlockedURLPatterns :: "string list"
  cfg_APIPort :: int
  cfg_WebhookURL :: string
  cfg_SlackURL :: string
  cfg_SMTPConfig :: "smtp_config option"
  cfg_ScheduleCron :: string
  cfg_ScheduleTimezone :: string
  cfg_EnableAPICapture :: bool
  cfg_DisableTLSVerify :: bool
  cfg_Incremental :: bool
  cfg_IncCacheFile :: string
  cfg_Interactive :: bool
  cfg_ManualCapture :: bool

record config = config_service +
  cfg_MinDiskSpace :: int
  cfg_BrowserPoolSize :: int
  cfg_UserDataDir :: string
  cfg_ChromeFlags :: "string list"
  cfg_RemoteChromeURL :: string
  cfg_AuthConfig :: "auth_config option"
  cfg_CAPTCHAConfig :: "captcha_config option"
  cfg_QueueConfig :: "queue_config option"
  cfg_ChangeDetectionConfig :: "change_config option"
  cfg_Dedupe :: "dedupe_config option"

section \<open>config.go\<close>

definition DefaultConfig :: config where
  "DefaultConfig =
    \<lparr>cfg_Seeds = [],
     cfg_MaxDepth = 10,
     cfg_MaxConcurrentPages = 5,
     cfg_AssetConcurrency = 16,
     cfg_PageTimeout = 120 * 10 ^ 9,
     cfg_UserAgent = ''Mozilla/5.0 (X11; Linux x86_64) AppleWebKit/537.36 (KHTML, like Gecko) Chrome/120.0.0.0 Safari/537.36'',
     cfg_OutputDir = ''output'',
     cfg_CrawlDelay = 1 * 10 ^ 9,
     cfg_RespectRobots = True,
     cfg_EnableScreenshot = True,
     cfg_EnablePDF = False,
     cfg_EnableWARC = False,
     cfg_EnableWACZ = False,
     cfg_EnableSingleFile = True,
     cfg_EnableArticleExtract = True,
     cfg_Proxy = [],
     cfg_Proxies = [],
     cfg_Cookies = 0,
     cfg_AllowedDomains = [],
     cfg_ExcludePatterns = [],
     cfg_ScrollHeight = 5000,
     cfg_MaxRetries = 3,
     cfg_MaxURLsPerHost = 10000,
     cfg_MaxTotalURLs = 100000,
     cfg_CheckpointInterval = 5 * 60 * 10 ^ 9,
     cfg_CheckpointFile = '''',
     cfg_BloomFilterPath = '''',
     cfg_RotateUserAgents = False,
     cfg_UserAgents = [''Mozilla/5.0 (X11; Linux x86_64) AppleWebKit/537.36 (KHTML, like Gecko) Chrome/120.0.0.0 Safari/537.36'',
       ''Mozilla/5.0 (Windows NT 10.0; Win64; x64) AppleWebKit/537.36 (KHTML, like Gecko) Chrome/120.0.0.0 Safari/537.36'',
       ''Mozilla/5.0 (Macintosh; Intel Mac OS X 10_15_7) AppleWebKit/537.36 (KHTML, like Gecko) Chrome/120.0.0.0 Safari/537.36''],
     cfg_WaitStrategy = ''adaptive'',
     cfg_WaitSelector = '''',
     cfg_WaitTimeout = 60 * 10 ^ 9,
     cfg_NetworkIdleQuiet = 1 * 10 ^ 9,
     cfg_WaitForResponse = [],
     cfg_WaitForPageTimeout = 30 * 10 ^ 9,
     cfg_WaitStrategyTimeout = 60 * 10 ^ 9,
     cfg_InfiniteScroll = Some \<lparr>scroll_Enabled = True,
       scroll_MaxScrolls = 20,
       scroll_MaxDuration = 10 * 10 ^ 9,
       scroll_StablePasses = 3,
       scroll_ItemSelector = ''article, .card, .list-item, [data-infinite-scroll-item], .feed-item'',
       scroll_ScrollContainer = '''',
       scroll_LoadMoreSelector = '''',
       scroll_ScrollDelay = 2 * 10 ^ 9,
       scroll_ScrollDistance = 500\<rparr>,
     cfg_InterceptAPIs = [],
     cfg_ClickSelectors = [],
     cfg_JSBeforeLoad = [],
     cfg_JSAfterLoad = [],
     cfg_ExpandSections = True,
     cfg_DismissOverlays = True,
     cfg_EnableStealth = True,
     cfg_EnableLazyLoad = True,
     cfg_EnableShadowDOM = True,
     cfg_EnableIframes = True,
     cfg_EnableRouteDiscovery = True,
     cfg_EnableMediaCapture = True,
     cfg_EnableStructuredData = True,
     cfg_MaxSPARoutes = 50,
     cfg_EnableInteractionEngine = False,
     cfg_MaxInteractionsPerPage = 50,
     cfg_ViewportWidth = 1920,
     cfg_ViewportHeight = 1080,
     cfg_MobileEmulation = False,
     cfg_MobileDevice = '''',
     cfg_MobileUserAgent = '''',
     cfg_NormalizeURLs = True,
     cfg_MaxIframeDepth = 2,
     cfg_IframeSkipPatterns = [''googleads'', ''doubleclick'', ''facebook.com/tr''],
     cfg_BlockedURLPatterns = [],
     cfg_APIPort = 0,
     cfg_WebhookURL = [],
     cfg_SlackURL = [],
     cfg_SMTPConfig = None,
     cfg_ScheduleCron = [],
     cfg_ScheduleTimezone = [],
     cfg_EnableAPICapture = True,
     cfg_DisableTLSVerify = False,
     cfg_Incremental = False,
     cfg_IncCacheFile = '''',
     cfg_Interactive = False,
     cfg_ManualCapture = False,
     cfg_MinDiskSpace = 1024 * 1024 * 1024,
     cfg_BrowserPoolSize = 1,
     cfg_UserDataDir = [],
     cfg_ChromeFlags = [],
     cfg_RemoteChromeURL = [],
     cfg_AuthConfig = Some \<lparr>auth_Enabled = False, auth_Type = [], auth_LoginURL = [],
       auth_FormFields = Map.empty, auth_Username = [], auth_Password = [], auth_SubmitSelector =
       [], auth_WaitAfterLogin = 0, auth_BasicAuth = None, auth_HeaderAuth = None, auth_OAuthConfig
       = None\<rparr>,
     cfg_CAPTCHAConfig = Some \<lparr>captcha_Enabled = False, captcha_Provider = [], captcha_APIKey
       = [], captcha_Timeout = 0, captcha_RetryCount = 0\<rparr>,
     cfg_QueueConfig = Some \<lparr>queue_Backend = ''local'', queue_RedisURL = [], queue_PgDSN =
       [], queue_KafkaURL = []\<rparr>,
     cfg_ChangeDetectionConfig = Some \<lparr>change_Enabled = False, change_SnapshotDir = [],
       change_MaxSnapshots = 10, change_ReportDir = []\<rparr>,
     cfg_Dedupe = Some \<lparr>dedupe_PreserveQueryParams = [], dedupe_PreservePathSegments =
       []\<rparr>\<rparr>"

section \<open>validate.go: Validate\<close>

text \<open>
  The checks append their messages; \<open>check b msg\<close> is \<open>if b { addErr(msg) }\<close>. An empty list is the nil
  error. Dereferencing a nil pointer panics, which the checks of the oauth section and the map of
  \<open>validateSecrets\<close> can do.
\<close>

definition check :: "bool \<Rightarrow> string \<Rightarrow> string list" where
  "check b msg = (if b then [msg] else [])"

definition validateBasics :: "config \<Rightarrow> string list" where
  "validateBasics c =
     check (\<not> cfg_ManualCapture c \<and> cfg_Seeds c = []) ''at least one seed URL is required'' @
     check (\<not> cfg_ManualCapture c \<and> cfg_MaxDepth c \<le> 0) ''max_depth must be > 0'' @
     check (cfg_MaxConcurrentPages c \<le> 0) ''max_concurrent_pages must be > 0'' @
     check (cfg_PageTimeout c \<le> 0) ''page_timeout must be > 0'' @
     check (cfg_InfiniteScroll c = None) ''infinite_scroll config is required'' @
     check (cfg_CrawlDelay c < 0) ''crawl_delay must be >= 0'' @
     check (\<not> cfg_ManualCapture c \<and> cfg_MaxURLsPerHost c \<le> 0) ''max_urls_per_host must be > 0'' @
     check (\<not> cfg_ManualCapture c \<and> cfg_MaxTotalURLs c \<le> 0) ''max_total_urls must be > 0'' @
     check (cfg_CheckpointInterval c < 0) ''checkpoint_interval must be >= 0'' @
     check (cfg_MinDiskSpace c < 0) ''min_disk_space must be >= 0'' @
     check (cfg_WaitStrategyTimeout c < cfg_WaitTimeout c) ''wait_strategy_timeout must be >= wait_timeout''"

definition validateAuth :: "auth_config option \<Rightarrow> string list outcome" where
  "validateAuth auth =
     (case auth of None \<Rightarrow> Returns [] | Some a \<Rightarrow>
       if \<not> auth_Enabled a then Returns []
       else if auth_Type a = ''form'' then Returns
         (check (auth_LoginURL a = []) ''form auth requires login_url'' @
          check (auth_Username a = [] \<or> auth_Password a = []) ''form auth requires username and password'')
       else if auth_Type a = ''basic'' then Returns
         (check (case auth_BasicAuth a of None \<Rightarrow> True | Some b \<Rightarrow> basic_Username b = [] \<or> basic_Password b = [])
            ''basic auth requires username and password'')
       else if auth_Type a = ''header'' then Returns
         (check (case auth_HeaderAuth a of None \<Rightarrow> True | Some h \<Rightarrow> dom (header_Headers h) = {})
            ''header auth requires at least one header'')
       else if auth_Type a = ''oauth'' then
         (case auth_OAuthConfig a of
            None \<Rightarrow> Panic
          | Some oa \<Rightarrow> Returns
              (check (oauth_ClientID oa = [] \<or> oauth_ClientSecret oa = []) ''oauth requires client_id and client_secret'' @
               check (oauth_TokenURL oa = []) ''oauth requires token_url''))
       else Returns [])"

definition validateCaptcha :: "captcha_config option \<Rightarrow> string list" where
  "validateCaptcha cap =
     (case cap of None \<Rightarrow> [] | Some k \<Rightarrow>
       if \<not> captcha_Enabled k then []
       else check (captcha_APIKey k = []) ''captcha config requires api_key'' @
            check (captcha_Provider k = []) ''captcha config requires provider'' @
            check (captcha_Timeout k \<le> 0) ''captcha timeout must be > 0'')"

definition validateQueue :: "queue_config option \<Rightarrow> string list" where
  "validateQueue que =
     (case que of None \<Rightarrow> [] | Some q \<Rightarrow>
       if queue_Backend q = ''redis'' then check (queue_RedisURL q = []) ''redis queue backend requires redis_url''
       else if queue_Backend q = ''postgres'' then check (queue_PgDSN q = []) ''postgres queue backend requires pg_dsn''
       else if queue_Backend q = ''kafka'' then check (queue_KafkaURL q = []) ''kafka queue backend requires kafka_url''
       else if queue_Backend q = ''local'' \<or> queue_Backend q = [] then []
       else [''unknown queue backend: '' @ queue_Backend q])"

definition validateChange :: "change_config option \<Rightarrow> string list" where
  "validateChange ch =
     (case ch of None \<Rightarrow> [] | Some d \<Rightarrow>
       check (change_Enabled d \<and> change_MaxSnapshots d \<le> 0) ''change_detection max_snapshots must be > 0'')"

text \<open>
  \<open>validateSecrets\<close> builds a map of secret fields and matches the values against a pattern, but throws
  every result away; what is left is its nil error and the three dereferences of the map literal.
\<close>

definition secretFields :: "config \<Rightarrow> (string \<times> string) list outcome" where
  "secretFields c =
     (case (cfg_AuthConfig c, cfg_CAPTCHAConfig c, cfg_QueueConfig c) of
        (Some a, Some k, Some q) \<Rightarrow> Returns
          [(''auth.password'', auth_Password a),
           (''auth.basic_auth.password'', case auth_BasicAuth a of Some b \<Rightarrow> basic_Password b | None \<Rightarrow> []),
           (''auth.header_auth.headers.Authorization'',
              case auth_HeaderAuth a of
                Some h \<Rightarrow> (case header_Headers h ''Authorization'' of Some v \<Rightarrow> v | None \<Rightarrow> []) | None \<Rightarrow> []),
           (''auth.oauth.client_secret'', case auth_OAuthConfig a of Some oa \<Rightarrow> oauth_ClientSecret oa | None \<Rightarrow> []),
           (''captcha.api_key'', captcha_APIKey k),
           (''queue.redis_url'', queue_RedisURL q),
           (''queue.pg_dsn'', queue_PgDSN q),
           (''queue.kafka_url'', queue_KafkaURL q),
           (''webhook_url'', cfg_WebhookURL c),
           (''slack_url'', cfg_SlackURL c),
           (''smtp.pass'', case cfg_SMTPConfig c of Some s \<Rightarrow> smtp_Pass s | None \<Rightarrow> [])]
      | _ \<Rightarrow> Panic)"

definition validateSecrets :: "config \<Rightarrow> string option outcome" where
  "validateSecrets c = outcome_bind (secretFields c) (\<lambda>_. Returns None)"

definition Validate :: "config \<Rightarrow> string list outcome" where
  "Validate c =
     outcome_bind (validateAuth (cfg_AuthConfig c)) (\<lambda>authErrs.
     outcome_bind (validateSecrets c) (\<lambda>sec.
       Returns (validateBasics c @ authErrs @ validateCaptcha (cfg_CAPTCHAConfig c) @
                validateQueue (cfg_QueueConfig c) @ validateChange (cfg_ChangeDetectionConfig c) @
                (case sec of None \<Rightarrow> [] | Some msg \<Rightarrow> [msg]))))"

section \<open>validate.go: SanitizeConfig\<close>

definition masked :: string where
  "masked = ''***MASKED***''"

definition maskURL :: "string \<Rightarrow> string" where
  "maskURL url =
     (if url = [] then []
      else case index_of url ''://'' of
             None \<Rightarrow> masked
           | Some i \<Rightarrow> (case index_of (drop (i + 3) url) ''/'' of
                          None \<Rightarrow> masked
                        | Some j \<Rightarrow> take (i + 3 + j) url @ ''/***MASKED***''))"

text \<open>\<open>ReplaceAllString\<close> of the expression \<open>://:([^@]+)@\<close>.\<close>

function maskURLPassword :: "string \<Rightarrow> string" where
  "maskURLPassword [] = []"
| "maskURLPassword (c # s) =
     (let r = drop 4 (c # s); pw = takeWhile (\<lambda>x. x \<noteq> CHR ''@'') r
      in if has_prefix (c # s) ''://:'' \<and> pw \<noteq> [] \<and> pw \<noteq> r
         then ''://:***MASKED***@'' @ maskURLPassword (drop (length pw + 1) r)
         else c # maskURLPassword s)"
  by pat_completeness auto
termination by (relation "measure length") auto

text \<open>\<open>ReplaceAllString\<close> of the expression \<open>password=([^\s]+)\<close>.\<close>

definition re_space :: "char \<Rightarrow> bool" where
  "re_space c \<longleftrightarrow> c \<in> {CHR 0x09, CHR 0x0A, CHR 0x0C, CHR 0x0D, CHR '' ''}"

function maskDSNPassword :: "string \<Rightarrow> string" where
  "maskDSNPassword [] = []"
| "maskDSNPassword (c # s) =
     (let r = drop 9 (c # s); pw = takeWhile (\<lambda>x. \<not> re_space x) r
      in if has_prefix (c # s) ''password='' \<and> pw \<noteq> []
         then ''password=***MASKED***'' @ maskDSNPassword (drop (length pw) r)
         else c # maskDSNPassword s)"
  by pat_completeness auto
termination by (relation "measure length") auto

definition sensitive_cookie :: "cookie \<Rightarrow> bool" where
  "sensitive_cookie k \<longleftrightarrow>
     contains (to_lower (cookie_Name k)) ''session'' \<or> contains (to_lower (cookie_Name k)) ''token'' \<or>
     contains (to_lower (cookie_Name k)) ''auth''"

definition sanitizeAuth :: "auth_config \<Rightarrow> auth_config" where
  "sanitizeAuth a =
     a\<lparr>auth_Password := masked,
       auth_BasicAuth := map_option (\<lambda>b. b\<lparr>basic_Password := masked\<rparr>) (auth_BasicAuth a),
       auth_HeaderAuth := map_option (\<lambda>h. h\<lparr>header_Headers := (\<lambda>k.
           case header_Headers h k of
             None \<Rightarrow> None
           | Some v \<Rightarrow> if contains (to_lower k) ''authorization'' \<or> contains (to_lower k) ''token'' \<or>
                          contains (to_lower k) ''secret''
                       then Some masked else Some v)\<rparr>) (auth_HeaderAuth a),
       auth_OAuthConfig := map_option (\<lambda>oa. oa\<lparr>oauth_ClientSecret := masked\<rparr>) (auth_OAuthConfig a)\<rparr>"

definition sanitizeQueue :: "queue_config \<Rightarrow> queue_config" where
  "sanitizeQueue q =
     (let q1 = (if contains (queue_RedisURL q) '':'' then q\<lparr>queue_RedisURL := maskURLPassword (queue_RedisURL q)\<rparr> else q)
      in if contains (queue_PgDSN q1) ''password='' then q1\<lparr>queue_PgDSN := maskDSNPassword (queue_PgDSN q1)\<rparr> else q1)"

text \<open>
  The cookies are a slice: \<open>cfg_Cookies\<close> is the address of its array, and the store maps addresses to
  arrays. \<open>sanitized := *c\<close> copies the address, so the loop at the end writes to the array of the
  original. The pointers to nested structs are replaced by pointers to changed copies, which a value
  expresses as it is.
\<close>

type_synonym cookie_store = "nat \<Rightarrow> cookie list"

definition SanitizeConfig :: "config \<Rightarrow> cookie_store \<Rightarrow> config \<times> cookie_store" where
  "SanitizeConfig c store =
     (c\<lparr>cfg_AuthConfig := map_option sanitizeAuth (cfg_AuthConfig c),
        cfg_CAPTCHAConfig := map_option (\<lambda>k. k\<lparr>captcha_APIKey := masked\<rparr>) (cfg_CAPTCHAConfig c),
        cfg_QueueConfig := map_option sanitizeQueue (cfg_QueueConfig c),
        cfg_SMTPConfig := map_option (\<lambda>s. s\<lparr>smtp_Pass := masked\<rparr>) (cfg_SMTPConfig c),
        cfg_WebhookURL := maskURL (cfg_WebhookURL c),
        cfg_SlackURL := maskURL (cfg_SlackURL c)\<rparr>,
      store(cfg_Cookies c := map (\<lambda>k. if sensitive_cookie k then k\<lparr>cookie_Value := masked\<rparr> else k)
                                 (store (cfg_Cookies c))))"

section \<open>Lemmas\<close>

lemma secretFields_Panic:
  "secretFields c = Panic \<longleftrightarrow> cfg_AuthConfig c = None \<or> cfg_CAPTCHAConfig c = None \<or> cfg_QueueConfig c = None"
  by (auto simp: secretFields_def split: option.splits)

lemma validateAuth_Panic:
  "validateAuth auth = Panic \<longleftrightarrow>
     (\<exists>a. auth = Some a \<and> auth_Enabled a \<and> auth_Type a = ''oauth'' \<and> auth_OAuthConfig a = None)"
  by (auto simp: validateAuth_def split: option.splits)

lemma maskURLPassword_unchanged: "\<not> contains u ''://:'' \<Longrightarrow> maskURLPassword u = u"
proof (induction u rule: maskURLPassword.induct)
  case (2 c s)
  then have np: "\<not> has_prefix (c # s) ''://:''" "\<not> contains s ''://:''"
    by (auto simp: contains_def split: if_splits)
  then have "maskURLPassword s = s" using "2.IH"(2) [OF refl refl] by blast
  then show ?case using np(1) by (auto simp: Let_def)
qed simp

definition set_secrets :: "string \<Rightarrow> string \<Rightarrow> string \<Rightarrow> config \<Rightarrow> config" where
  "set_secrets pw key mail c =
     c\<lparr>cfg_AuthConfig := map_option (\<lambda>a. a\<lparr>auth_Password := pw,
          auth_BasicAuth := map_option (\<lambda>b. b\<lparr>basic_Password := pw\<rparr>) (auth_BasicAuth a),
          auth_OAuthConfig := map_option (\<lambda>oa. oa\<lparr>oauth_ClientSecret := key\<rparr>) (auth_OAuthConfig a)\<rparr>) (cfg_AuthConfig c),
       cfg_CAPTCHAConfig := map_option (\<lambda>k. k\<lparr>captcha_APIKey := key\<rparr>) (cfg_CAPTCHAConfig c),
       cfg_SMTPConfig := map_option (\<lambda>s. s\<lparr>smtp_Pass := mail\<rparr>) (cfg_SMTPConfig c)\<rparr>"

lemma sanitizeAuth_secrets:
  "sanitizeAuth (a\<lparr>auth_Password := pw,
     auth_BasicAuth := map_option (\<lambda>b. b\<lparr>basic_Password := pw\<rparr>) (auth_BasicAuth a),
     auth_OAuthConfig := map_option (\<lambda>oa. oa\<lparr>oauth_ClientSecret := key\<rparr>) (auth_OAuthConfig a)\<rparr>) = sanitizeAuth a"
  by (cases "auth_BasicAuth a"; cases "auth_OAuthConfig a") (simp_all add: sanitizeAuth_def)

section \<open>Properties\<close>

text \<open>C17: \<open>Validate\<close> panics, instead of returning its error, exactly when one of the auth, captcha and
  queue sections is null, or oauth is enabled without its section; the message for the missing oauth
  section is never delivered. The default configuration lacks nothing but a seed.\<close>
theorem Validate_panics_iff:
  "(Validate c = Panic \<longleftrightarrow>
     cfg_AuthConfig c = None \<or> cfg_CAPTCHAConfig c = None \<or> cfg_QueueConfig c = None \<or>
     (\<exists>a. cfg_AuthConfig c = Some a \<and> auth_Enabled a \<and> auth_Type a = ''oauth'' \<and> auth_OAuthConfig a = None)) \<and>
   Validate DefaultConfig = Returns [''at least one seed URL is required''] \<and>
   Validate (DefaultConfig\<lparr>cfg_Seeds := s # ss\<rparr>) = Returns []"
proof (intro conjI)
  show "Validate c = Panic \<longleftrightarrow>
     cfg_AuthConfig c = None \<or> cfg_CAPTCHAConfig c = None \<or> cfg_QueueConfig c = None \<or>
     (\<exists>a. cfg_AuthConfig c = Some a \<and> auth_Enabled a \<and> auth_Type a = ''oauth'' \<and> auth_OAuthConfig a = None)"
    by (cases "validateAuth (cfg_AuthConfig c)"; cases "secretFields c";
        insert validateAuth_Panic [of "cfg_AuthConfig c"] secretFields_Panic [of c])
       (auto simp: Validate_def validateSecrets_def)
qed (simp_all add: Validate_def DefaultConfig_def validateBasics_def validateAuth_def validateSecrets_def
      secretFields_def validateCaptcha_def validateQueue_def validateChange_def check_def)

text \<open>The sanitized configuration does not depend on the passwords, the API key and the client secret,
  so none of them reaches a log; but sanitizing overwrites the values of the original
  configuration's session, token and auth cookies, whose array the copy shares.\<close>
theorem SanitizeConfig_hides_secrets_and_clobbers_cookies:
  "fst (SanitizeConfig (set_secrets pw key mail c) store) = fst (SanitizeConfig c store) \<and>
   cfg_Cookies (fst (SanitizeConfig c store)) = cfg_Cookies c \<and>
   snd (SanitizeConfig c store) (cfg_Cookies c) =
     map (\<lambda>k. if sensitive_cookie k then k\<lparr>cookie_Value := masked\<rparr> else k) (store (cfg_Cookies c))"
proof -
  have "fst (SanitizeConfig (set_secrets pw key mail c) store) = fst (SanitizeConfig c store)"
    by (cases "cfg_AuthConfig c"; cases "cfg_CAPTCHAConfig c"; cases "cfg_SMTPConfig c")
       (simp_all add: SanitizeConfig_def set_secrets_def sanitizeAuth_secrets)
  then show ?thesis by (simp add: SanitizeConfig_def)
qed

text \<open>The password of a Redis URL with a user name is not masked: only an empty user name is.\<close>
theorem redis_password_with_user_leaks:
  assumes "CHR '':'' \<notin> set user" "CHR ''/'' \<notin> set user" "user \<noteq> []" "CHR '':'' \<notin> set pw" "CHR '':'' \<notin> set host"
  shows "maskURLPassword (''redis://'' @ user @ '':'' @ pw @ ''@'' @ host) = ''redis://'' @ user @ '':'' @ pw @ ''@'' @ host"
proof (rule maskURLPassword_unchanged)
  show "\<not> contains (''redis://'' @ user @ '':'' @ pw @ ''@'' @ host) ''://:''"
  proof
    let ?u = "''redis://'' @ user @ '':'' @ pw @ ''@'' @ host"
    assume "contains ?u ''://:''"
    then obtain a b where ab: "?u = a @ ''://:'' @ b" unfolding contains_iff by blast
    have "split_byte CHR '':'' ?u = [''redis'', ''//'' @ user, pw @ ''@'' @ host]"
      using assms by (simp add: split_byte_append_sep [of _ user] split_byte_append_sep split_byte_notin)
    moreover have "split_byte CHR '':'' ?u = split_byte CHR '':'' a @ ''//'' # split_byte CHR '':'' b"
      unfolding ab by (simp add: split_byte_append)
    ultimately have "''//'' \<in> set [''redis'', ''//'' @ user, pw @ ''@'' @ host]" by (metis in_set_conv_decomp)
    moreover have "''//'' \<noteq> pw @ ''@'' @ host"
    proof
      assume e: "''//'' = pw @ ''@'' @ host"
      have "CHR ''@'' \<in> set (pw @ ''@'' @ host)" by simp
      then show False unfolding e [symmetric] by simp
    qed
    ultimately show False using assms(3) by simp
  qed
qed

theorem redis_password_with_user_leaks_witness:
  "maskURLPassword ''redis://app:hunter2@db'' = ''redis://app:hunter2@db''"
  using redis_password_with_user_leaks [of "''app''" "''hunter2''" "''db''"] by simp

end
