(* ===== verification/ChangeDetection.thy ===== *)
theory ChangeDetection
  imports GoStrings "HOL-Library.List_Lexorder" "HOL-Library.Char_ord" "HOL-Library.AList" "HOL-Library.Multiset"
begin

text \<open>
  The page change detector of \<open>internal/changedetection/detector.go\<close>. The hash of a page, the
  formatting of a time and the JSON encoding of a file are parameters. The snapshot and the report
  directory are lists of named entries; a snapshot is never changed after it was made, so a pointer
  to it is its value. Where the code ranges over a map, the order of its keys is an argument. The
  detector's lock makes every method one step; tracing and logging are left out.
\<close>

section \<open>Data\<close>

datatype change_type = ChangeAdded | ChangeRemoved | ChangeModified

record change =
  ch_Type :: change_type
  ch_Selector :: string
  ch_OldValue :: string
  ch_NewValue :: string
  ch_Attributes :: "string \<rightharpoonup> string"
  ch_Timestamp :: int

record structure_element =
  se_TagName :: string
  se_Selector :: string
  se_Attributes :: "string \<rightharpoonup> string"
  se_TextHash :: string
  se_ChildCount :: int

record snapshot =
  sn_URL :: string
  sn_Timestamp :: int
  sn_HTMLHash :: string
  sn_TextContent :: string
  sn_Structure :: "structure_element list"
  sn_Metadata :: "string \<rightharpoonup> string"

record diff_result =
  dr_URL :: string
  dr_OldSnapshot :: "snapshot option"
  dr_NewSnapshot :: "snapshot option"
  dr_Changes :: "change list"
  dr_ChangeCount :: nat
  dr_Timestamp :: int

record detector_config =
  dc_SnapshotDir :: string
  dc_MaxSnapshots :: int
  dc_ReportDir :: string
  dc_EnableDiff :: bool
  dc_IgnoreSelectors :: "string list"
  dc_MinTextLength :: int

record detector =
  dt_config :: detector_config
  dt_snapshots :: "string \<rightharpoonup> snapshot list"

text \<open>An entry of a directory; the content of a file that can be read, or one that cannot.\<close>

datatype dir_entry = RegularFile string | UnreadableFile | SubDirectory

type_synonym directory = "(string \<times> dir_entry) list"

definition write_file :: "string \<Rightarrow> string \<Rightarrow> directory \<Rightarrow> directory" where
  "write_file name content d =
     (case map_of d name of
        Some UnreadableFile \<Rightarrow> d
      | Some SubDirectory \<Rightarrow> d
      | _ \<Rightarrow> AList.update name (RegularFile content) d)"

definition remove_file :: "string \<Rightarrow> directory \<Rightarrow> directory" where
  "remove_file name d = AList.delete name d"

section \<open>Construction and capture\<close>

definition NewDetector :: "detector_config \<Rightarrow> detector" where
  "NewDetector config =
     (let c1 = (if dc_SnapshotDir config = [] then config\<lparr>dc_SnapshotDir := ''./snapshots''\<rparr> else config);
          c2 = (if dc_MaxSnapshots c1 \<le> 0 then c1\<lparr>dc_MaxSnapshots := 10\<rparr> else c1);
          c3 = (if dc_MinTextLength c2 \<le> 0 then c2\<lparr>dc_MinTextLength := 10\<rparr> else c2)
      in \<lparr>dt_config = c3, dt_snapshots = Map.empty\<rparr>)"

text \<open>The file name of a snapshot, which \<open>persistSnapshot\<close> and \<open>CleanupOldSnapshots\<close> both compute.\<close>

definition safeURL :: "string \<Rightarrow> string" where
  "safeURL url = replace_all (replace_all (replace_all url ''/'' ''_'') '':'' ''_'') ''.'' ''_''"

definition snapshot_file :: "(int \<Rightarrow> string) \<Rightarrow> string \<Rightarrow> snapshot \<Rightarrow> string" where
  "snapshot_file stamp url s = safeURL url @ ''_'' @ stamp (sn_Timestamp s) @ ''.json''"

definition persistSnapshot :: "(int \<Rightarrow> string) \<Rightarrow> (snapshot \<Rightarrow> string) \<Rightarrow> string \<Rightarrow> snapshot \<Rightarrow> directory \<Rightarrow> directory" where
  "persistSnapshot stamp enc url s dir = write_file (snapshot_file stamp url s) (enc s) dir"

text \<open>The slice of snapshots of a URL; a missing key reads as the empty slice.\<close>

definition snapshots_of :: "detector \<Rightarrow> string \<Rightarrow> snapshot list" where
  "snapshots_of d url = (case dt_snapshots d url of Some ss \<Rightarrow> ss | None \<Rightarrow> [])"

definition CaptureSnapshot ::
  "(string \<Rightarrow> string) \<Rightarrow> (int \<Rightarrow> string) \<Rightarrow> (snapshot \<Rightarrow> string) \<Rightarrow> int \<Rightarrow> string \<Rightarrow> string \<Rightarrow> string \<Rightarrow>
   structure_element list \<Rightarrow> (string \<rightharpoonup> string) \<Rightarrow> detector \<times> directory \<Rightarrow> snapshot \<times> detector \<times> directory" where
  "CaptureSnapshot sha stamp enc now url html textContent struct meta st =
     (case st of (d, dir) \<Rightarrow>
       let htmlHash = sha html;
           snap = \<lparr>sn_URL = url, sn_Timestamp = now, sn_HTMLHash = htmlHash, sn_TextContent = textContent,
                   sn_Structure = struct, sn_Metadata = meta\<rparr>;
           snaps = snapshots_of d url;
           limit = nat (dc_MaxSnapshots (dt_config d))
       in if snaps \<noteq> [] \<and> sn_HTMLHash (hd snaps) = htmlHash then (hd snaps, d, dir)
          else let snaps1 = snap # snaps;
                   snaps2 = (if length snaps1 > limit then take limit snaps1 else snaps1)
               in (snap, d\<lparr>dt_snapshots := (dt_snapshots d)(url \<mapsto> snaps2)\<rparr>, persistSnapshot stamp enc url snap dir))"

section \<open>Comparison\<close>

definition shouldIgnoreSelector :: "detector \<Rightarrow> string \<Rightarrow> bool" where
  "shouldIgnoreSelector d selector = list_ex (contains selector) (dc_IgnoreSelectors (dt_config d))"

definition structMap :: "structure_element list \<Rightarrow> (string \<rightharpoonup> structure_element)" where
  "structMap es = foldl (\<lambda>m e. m(se_Selector e \<mapsto> e)) Map.empty es"

text \<open>One iteration of the loop for removed elements and of the loop for added and modified ones.\<close>

definition removed_change ::
  "detector \<Rightarrow> (string \<rightharpoonup> structure_element) \<Rightarrow> (string \<rightharpoonup> structure_element) \<Rightarrow> int \<Rightarrow> string \<Rightarrow> change list" where
  "removed_change d oldMap newMap ts selector =
     (case oldMap selector of
        None \<Rightarrow> []
      | Some oldElem \<Rightarrow>
          if newMap selector = None then
            if shouldIgnoreSelector d selector then []
            else [\<lparr>ch_Type = ChangeRemoved, ch_Selector = selector, ch_OldValue = se_TextHash oldElem,
                   ch_NewValue = [], ch_Attributes = se_Attributes oldElem, ch_Timestamp = ts\<rparr>]
          else [])"

definition added_change ::
  "detector \<Rightarrow> (string \<rightharpoonup> structure_element) \<Rightarrow> (string \<rightharpoonup> structure_element) \<Rightarrow> int \<Rightarrow> string \<Rightarrow> change list" where
  "added_change d oldMap newMap ts selector =
     (case newMap selector of
        None \<Rightarrow> []
      | Some newElem \<Rightarrow>
          (case oldMap selector of
             None \<Rightarrow>
               if shouldIgnoreSelector d selector then []
               else [\<lparr>ch_Type = ChangeAdded, ch_Selector = selector, ch_OldValue = [],
                      ch_NewValue = se_TextHash newElem, ch_Attributes = se_Attributes newElem, ch_Timestamp = ts\<rparr>]
           | Some oldElem \<Rightarrow>
               if se_TextHash oldElem \<noteq> se_TextHash newElem then
                 if shouldIgnoreSelector d selector then []
                 else [\<lparr>ch_Type = ChangeModified, ch_Selector = selector, ch_OldValue = se_TextHash oldElem,
                        ch_NewValue = se_TextHash newElem, ch_Attributes = se_Attributes newElem, ch_Timestamp = ts\<rparr>]
               else []))"

text \<open>
  \<open>oldOrder\<close> and \<open>newOrder\<close> list the selectors in the order the runtime ranges over the two maps.
\<close>

definition diffSnapshots :: "detector \<Rightarrow> string list \<Rightarrow> string list \<Rightarrow> snapshot \<Rightarrow> snapshot \<Rightarrow> change list" where
  "diffSnapshots d oldOrder newOrder old new =
     (let oldMap = structMap (sn_Structure old);
          newMap = structMap (sn_Structure new);
          ts = sn_Timestamp new
      in sort_key ch_Selector
           (concat (map (removed_change d oldMap newMap ts) oldOrder) @
            concat (map (added_change d oldMap newMap ts) newOrder)))"

definition report_file :: "(int \<Rightarrow> string) \<Rightarrow> diff_result \<Rightarrow> string" where
  "report_file stamp r =
     ''change_report_'' @ replace_all (dr_URL r) ''/'' ''_'' @ ''_'' @ stamp (dr_Timestamp r) @ ''.json''"

definition generateReport :: "(int \<Rightarrow> string) \<Rightarrow> (diff_result \<Rightarrow> string) \<Rightarrow> diff_result \<Rightarrow> directory \<Rightarrow> directory" where
  "generateReport stamp encReport r reports = write_file (report_file stamp r) (encReport r) reports"

definition CompareWithPrevious ::
  "(int \<Rightarrow> string) \<Rightarrow> (diff_result \<Rightarrow> string) \<Rightarrow> int \<Rightarrow> string list \<Rightarrow> string list \<Rightarrow> string \<Rightarrow> detector \<Rightarrow> directory \<Rightarrow>
   (diff_result \<times> directory) outcome" where
  "CompareWithPrevious stamp encReport now oldOrder newOrder url d reports =
     (case snapshots_of d url of
        [] \<Rightarrow> Panic
      | [s] \<Rightarrow> Returns (\<lparr>dr_URL = url, dr_OldSnapshot = None, dr_NewSnapshot = Some s, dr_Changes = [],
                       dr_ChangeCount = 0, dr_Timestamp = now\<rparr>, reports)
      | newS # oldS # _ \<Rightarrow>
          if sn_HTMLHash newS = sn_HTMLHash oldS then
            Returns (\<lparr>dr_URL = url, dr_OldSnapshot = Some oldS, dr_NewSnapshot = Some newS, dr_Changes = [],
                      dr_ChangeCount = 0, dr_Timestamp = now\<rparr>, reports)
          else
            let changes = diffSnapshots d oldOrder newOrder oldS newS;
                result = \<lparr>dr_URL = url, dr_OldSnapshot = Some oldS, dr_NewSnapshot = Some newS,
                          dr_Changes = changes, dr_ChangeCount = length changes, dr_Timestamp = now\<rparr>
            in Returns (result,
                 if dc_ReportDir (dt_config d) \<noteq> [] \<and> changes \<noteq> [] then generateReport stamp encReport result reports
                 else reports))"

text \<open>\<open>orders\<close> gives the two orders for each URL.\<close>

fun compare_all ::
  "(int \<Rightarrow> string) \<Rightarrow> (diff_result \<Rightarrow> string) \<Rightarrow> int \<Rightarrow> (string \<Rightarrow> string list \<times> string list) \<Rightarrow> string list \<Rightarrow> detector \<Rightarrow>
   directory \<Rightarrow> (string \<rightharpoonup> diff_result) \<Rightarrow> ((string \<rightharpoonup> diff_result) \<times> directory) outcome" where
  "compare_all stamp encReport now orders [] d reports results = Returns (results, reports)"
| "compare_all stamp encReport now orders (url # urls) d reports results =
     outcome_bind
       (CompareWithPrevious stamp encReport now (fst (orders url)) (snd (orders url)) url d reports)
       (\<lambda>(r, reports1).
          compare_all stamp encReport now orders urls d reports1
            (if dr_ChangeCount r > 0 then results(url \<mapsto> r) else results))"

definition CompareAll ::
  "(int \<Rightarrow> string) \<Rightarrow> (diff_result \<Rightarrow> string) \<Rightarrow> int \<Rightarrow> (string \<Rightarrow> string list \<times> string list) \<Rightarrow> string list \<Rightarrow> detector \<Rightarrow>
   directory \<Rightarrow> ((string \<rightharpoonup> diff_result) \<times> directory) outcome" where
  "CompareAll stamp encReport now orders urls d reports =
     compare_all stamp encReport now orders urls d reports Map.empty"

section \<open>Loading, counting and cleaning up\<close>

text \<open>The snapshots read from a directory, grouped by URL in the order of the file names.\<close>

fun read_snapshots :: "(string \<Rightarrow> snapshot option) \<Rightarrow> directory \<Rightarrow> (string \<times> snapshot list) list \<Rightarrow> (string \<times> snapshot list) list" where
  "read_snapshots dec [] acc = acc"
| "read_snapshots dec ((name, entry) # es) acc =
     read_snapshots dec es
       (if entry = SubDirectory \<or> \<not> has_suffix name ''.json'' then acc
        else case entry of
          RegularFile content \<Rightarrow>
            (case dec content of
               Some s \<Rightarrow> AList.update (sn_URL s) ((case map_of acc (sn_URL s) of Some ss \<Rightarrow> ss | None \<Rightarrow> []) @ [s]) acc
             | None \<Rightarrow> acc)
        | _ \<Rightarrow> acc)"

definition newest_first :: "int \<Rightarrow> snapshot list \<Rightarrow> snapshot list" where
  "newest_first limit ss =
     (let sorted = sort_key (\<lambda>s. - sn_Timestamp s) ss
      in if int (length sorted) > limit then take (nat limit) sorted else sorted)"

text \<open>\<open>os.ReadDir\<close> lists the entries by name, or fails, which leaves the detector as it is.\<close>

definition LoadSnapshots :: "(string \<Rightarrow> snapshot option) \<Rightarrow> directory option \<Rightarrow> detector \<Rightarrow> detector" where
  "LoadSnapshots dec listing d =
     (case listing of
        None \<Rightarrow> d
      | Some dir \<Rightarrow>
          d\<lparr>dt_snapshots := dt_snapshots d ++
              map_of (map (\<lambda>(url, ss). (url, newest_first (dc_MaxSnapshots (dt_config d)) ss))
                (read_snapshots dec (sort_key fst dir) []))\<rparr>)"

definition GetSnapshotCount :: "detector \<Rightarrow> string \<Rightarrow> nat" where
  "GetSnapshotCount d url = length (snapshots_of d url)"

definition cleanup_url :: "(int \<Rightarrow> string) \<Rightarrow> detector \<times> directory \<Rightarrow> string \<Rightarrow> detector \<times> directory" where
  "cleanup_url stamp st url =
     (case st of (d, dir) \<Rightarrow>
       let snaps = snapshots_of d url; limit = nat (dc_MaxSnapshots (dt_config d))
       in if length snaps > limit then
            (d\<lparr>dt_snapshots := (dt_snapshots d)(url \<mapsto> take limit snaps)\<rparr>,
             foldl (\<lambda>dir1 s. remove_file (snapshot_file stamp url s) dir1) dir (drop limit snaps))
          else st)"

text \<open>\<open>urls\<close> lists the keys of the map in the order the runtime ranges over it.\<close>

definition CleanupOldSnapshots :: "(int \<Rightarrow> string) \<Rightarrow> string list \<Rightarrow> detector \<times> directory \<Rightarrow> detector \<times> directory" where
  "CleanupOldSnapshots stamp urls st = foldl (cleanup_url stamp) st urls"

section \<open>Lemmas: the diff\<close>

text \<open>
  What the diff of two structures should hold for a selector, said without loops: the change of an
  element that one of the two structures lacks, or whose text differs.
\<close>

definition expected_change :: "detector \<Rightarrow> snapshot \<Rightarrow> snapshot \<Rightarrow> string \<Rightarrow> change option" where
  "expected_change d old new selector =
     (if shouldIgnoreSelector d selector then None
      else case (structMap (sn_Structure old) selector, structMap (sn_Structure new) selector) of
        (None, None) \<Rightarrow> None
      | (Some a, None) \<Rightarrow> Some \<lparr>ch_Type = ChangeRemoved, ch_Selector = selector, ch_OldValue = se_TextHash a,
                             ch_NewValue = [], ch_Attributes = se_Attributes a, ch_Timestamp = sn_Timestamp new\<rparr>
      | (None, Some b) \<Rightarrow> Some \<lparr>ch_Type = ChangeAdded, ch_Selector = selector, ch_OldValue = [],
                             ch_NewValue = se_TextHash b, ch_Attributes = se_Attributes b, ch_Timestamp = sn_Timestamp new\<rparr>
      | (Some a, Some b) \<Rightarrow>
          if se_TextHash a = se_TextHash b then None
          else Some \<lparr>ch_Type = ChangeModified, ch_Selector = selector, ch_OldValue = se_TextHash a,
                     ch_NewValue = se_TextHash b, ch_Attributes = se_Attributes b, ch_Timestamp = sn_Timestamp new\<rparr>)"

definition map_order :: "string list \<Rightarrow> snapshot \<Rightarrow> bool" where
  "map_order ks s \<longleftrightarrow> distinct ks \<and> set ks = dom (structMap (sn_Structure s))"

lemma structMap_snoc [simp]: "structMap (es @ [e]) = (structMap es)(se_Selector e \<mapsto> e)"
  by (simp add: structMap_def)

lemma structMap_dom: "dom (structMap es) = se_Selector ` set es"
proof (induction es rule: rev_induct)
  case (snoc e es)
  then show ?case by (simp only: structMap_snoc dom_fun_upd) simp
qed (simp add: structMap_def)

lemma distinct_map_concat_singletons:
  assumes "distinct ks" "\<And>k c. k \<in> set ks \<Longrightarrow> c \<in> set (f k) \<Longrightarrow> g c = k" "\<And>k. length (f k) \<le> 1"
  shows "distinct (map g (concat (map f ks)))"
  using assms(1,2)
proof (induction ks)
  case (Cons k ks)
  have "distinct (map g (f k))" using assms(3) [of k] by (cases "f k") auto
  moreover have "set (map g (f k)) \<inter> set (map g (concat (map f ks))) = {}"
  proof -
    have "g c = k" if "c \<in> set (f k)" for c using Cons.prems(2) [of k c] that by simp
    moreover have "g c \<noteq> k" if "c \<in> set (concat (map f ks))" for c
    proof -
      obtain k' where "k' \<in> set ks" "c \<in> set (f k')" using \<open>c \<in> _\<close> by auto
      then show ?thesis using Cons.prems(1) Cons.prems(2) [of k' c] by auto
    qed
    ultimately show ?thesis by (simp add: disjoint_iff) blast
  qed
  ultimately show ?case using Cons by simp
qed simp

lemma removed_change_selector: "c \<in> set (removed_change d om nm t k) \<Longrightarrow> ch_Selector c = k \<and> nm k = None"
  by (auto simp: removed_change_def split: option.splits if_splits)

lemma added_change_selector: "c \<in> set (added_change d om nm t k) \<Longrightarrow> ch_Selector c = k \<and> nm k \<noteq> None"
  by (cases "nm k"; cases "om k") (auto simp: added_change_def split: if_splits)

lemma change_lengths: "length (removed_change d om nm t k) \<le> 1" "length (added_change d om nm t k) \<le> 1"
  by (auto simp: removed_change_def added_change_def split: option.splits)

lemma expected_change_iff:
  "expected_change d old new k = Some c \<longleftrightarrow>
     c \<in> set (removed_change d (structMap (sn_Structure old)) (structMap (sn_Structure new)) (sn_Timestamp new) k) \<or>
     c \<in> set (added_change d (structMap (sn_Structure old)) (structMap (sn_Structure new)) (sn_Timestamp new) k)"
  by (auto simp: expected_change_def removed_change_def added_change_def split: option.splits)

lemma diffSnapshots_set:
  assumes "map_order ko old" "map_order kn new"
  shows "set (diffSnapshots d ko kn old new) = {c. \<exists>k. expected_change d old new k = Some c}"
proof -
  let ?r = "removed_change d (structMap (sn_Structure old)) (structMap (sn_Structure new)) (sn_Timestamp new)"
  let ?a = "added_change d (structMap (sn_Structure old)) (structMap (sn_Structure new)) (sn_Timestamp new)"
  have r: "k \<in> set ko" if "c \<in> set (?r k)" for c k
    using that assms(1) by (auto simp: map_order_def removed_change_def split: option.splits)
  have a: "k \<in> set kn" if "c \<in> set (?a k)" for c k
    using that assms(2) by (auto simp: map_order_def added_change_def split: option.splits)
  have "set (diffSnapshots d ko kn old new) = (\<Union>k\<in>set ko. set (?r k)) \<union> (\<Union>k\<in>set kn. set (?a k))"
    by (simp add: diffSnapshots_def Let_def)
  then show ?thesis unfolding expected_change_iff using r a by blast
qed

lemma sorted_sort_key_distinct:
  "distinct (map f xs) \<Longrightarrow> sorted_wrt (<) (map f (sort_key f xs))"
proof -
  assume "distinct (map f xs)"
  moreover have "mset (map f (sort_key f xs)) = mset (map f xs)" by simp
  ultimately have "distinct (map f (sort_key f xs))" by (metis mset_eq_imp_distinct_iff)
  then show ?thesis by (simp add: strict_sorted_iff)
qed

lemma diffSnapshots_sorted:
  assumes "map_order ko old" "map_order kn new"
  shows "sorted_wrt (<) (map ch_Selector (diffSnapshots d ko kn old new))"
proof -
  let ?r = "removed_change d (structMap (sn_Structure old)) (structMap (sn_Structure new)) (sn_Timestamp new)"
  let ?a = "added_change d (structMap (sn_Structure old)) (structMap (sn_Structure new)) (sn_Timestamp new)"
  have "distinct (map ch_Selector (concat (map ?r ko)))"
    by (rule distinct_map_concat_singletons)
       (use assms removed_change_selector change_lengths in \<open>auto simp: map_order_def\<close>)
  moreover have "distinct (map ch_Selector (concat (map ?a kn)))"
    by (rule distinct_map_concat_singletons)
       (use assms added_change_selector change_lengths in \<open>auto simp: map_order_def\<close>)
  moreover have "set (map ch_Selector (concat (map ?r ko))) \<inter> set (map ch_Selector (concat (map ?a kn))) = {}"
    using removed_change_selector added_change_selector by fastforce
  ultimately have "distinct (map ch_Selector (concat (map ?r ko) @ concat (map ?a kn)))" by simp
  from sorted_sort_key_distinct [OF this] show ?thesis by (simp add: diffSnapshots_def Let_def)
qed

text \<open>A strictly sorted list is determined by its elements.\<close>

lemma sorted_key_set_unique:
  fixes f :: "'a \<Rightarrow> 'b::linorder"
  assumes "sorted_wrt (<) (map f xs)" "sorted_wrt (<) (map f ys)" "set xs = set ys"
  shows "xs = ys"
proof -
  have "set (map f xs) = set (map f ys)" using assms(3) by simp
  then have fx: "map f xs = map f ys" by (rule strict_sorted_equal [OF assms(2,1)])
  have "inj_on f (set xs)"
    using assms(1) by (simp add: strict_sorted_iff distinct_map)
  then have "inj_on f (set xs \<union> set ys)" using assms(3) by simp
  with fx show ?thesis by (rule map_inj_on)
qed

section \<open>Lemmas: the history\<close>

datatype det_op =
    OpCapture int string string string "structure_element list" "string \<rightharpoonup> string"
  | OpLoad "directory option"
  | OpCleanup "string list"

fun det_step :: "(string \<Rightarrow> string) \<Rightarrow> (int \<Rightarrow> string) \<Rightarrow> (snapshot \<Rightarrow> string) \<Rightarrow> (string \<Rightarrow> snapshot option) \<Rightarrow>
    det_op \<Rightarrow> detector \<times> directory \<Rightarrow> detector \<times> directory" where
  "det_step sha stamp enc dec (OpCapture now url html txt struct meta) st =
     snd (CaptureSnapshot sha stamp enc now url html txt struct meta st)"
| "det_step sha stamp enc dec (OpLoad listing) st = (LoadSnapshots dec listing (fst st), snd st)"
| "det_step sha stamp enc dec (OpCleanup urls) st = CleanupOldSnapshots stamp urls st"

definition det_run :: "(string \<Rightarrow> string) \<Rightarrow> (int \<Rightarrow> string) \<Rightarrow> (snapshot \<Rightarrow> string) \<Rightarrow> (string \<Rightarrow> snapshot option) \<Rightarrow>
    det_op list \<Rightarrow> detector \<times> directory \<Rightarrow> detector \<times> directory" where
  "det_run sha stamp enc dec ops st = fold (det_step sha stamp enc dec) ops st"

text \<open>Every list of snapshots is non-empty, within the limit and filed under its own URL.\<close>

definition det_inv :: "detector \<Rightarrow> bool" where
  "det_inv d \<longleftrightarrow> 0 < dc_MaxSnapshots (dt_config d) \<and>
     (\<forall>url ss. dt_snapshots d url = Some ss \<longrightarrow>
        ss \<noteq> [] \<and> int (length ss) \<le> dc_MaxSnapshots (dt_config d) \<and> (\<forall>s\<in>set ss. sn_URL s = url))"

lemma NewDetector_inv: "det_inv (NewDetector config)"
  by (simp add: det_inv_def NewDetector_def Let_def)

lemma snapshots_of_inv:
  "det_inv d \<Longrightarrow> int (length (snapshots_of d url)) \<le> dc_MaxSnapshots (dt_config d) \<and>
     (\<forall>s\<in>set (snapshots_of d url). sn_URL s = url)"
  by (auto simp: det_inv_def snapshots_of_def split: option.splits)

lemma Capture_inv:
  assumes "det_inv d"
  shows "det_inv (fst (snd (CaptureSnapshot sha stamp enc now url html txt struct meta (d, dir))))"
proof -
  have take_ok: "sn_URL s = url" if "s \<in> set (take n (snapshots_of d url))" for s n
    using snapshots_of_inv [OF assms] set_take_subset that by fastforce
  show ?thesis
    using assms snapshots_of_inv [OF assms, of url] take_ok
    by (auto simp: CaptureSnapshot_def Let_def det_inv_def take_Cons' dest: in_set_takeD)
qed

definition groups_ok :: "(string \<times> snapshot list) list \<Rightarrow> bool" where
  "groups_ok acc \<longleftrightarrow> (\<forall>(url, ss)\<in>set acc. ss \<noteq> [] \<and> (\<forall>s\<in>set ss. sn_URL s = url))"

lemma groups_ok_update:
  assumes "groups_ok acc"
  shows "groups_ok (AList.update (sn_URL s) ((case map_of acc (sn_URL s) of Some ss \<Rightarrow> ss | None \<Rightarrow> []) @ [s]) acc)"
proof -
  have upd: "kv \<in> set (AList.update k v xs) \<Longrightarrow> kv = (k, v) \<or> kv \<in> set xs" for kv :: "string \<times> snapshot list" and k v xs
    by (induction xs) (auto split: if_splits)
  have "\<forall>x\<in>set (case map_of acc (sn_URL s) of Some ss \<Rightarrow> ss | None \<Rightarrow> []). sn_URL x = sn_URL s"
  proof (cases "map_of acc (sn_URL s)")
    case (Some ss)
    from map_of_SomeD [OF this] show ?thesis using assms Some by (auto simp: groups_ok_def)
  qed simp
  then have new: "\<forall>x\<in>set ((case map_of acc (sn_URL s) of Some ss \<Rightarrow> ss | None \<Rightarrow> []) @ [s]). sn_URL x = sn_URL s"
    by auto
  show ?thesis
    unfolding groups_ok_def
  proof
    fix kv
    assume "kv \<in> set (AList.update (sn_URL s) ((case map_of acc (sn_URL s) of Some ss \<Rightarrow> ss | None \<Rightarrow> []) @ [s]) acc)"
    from upd [OF this] show "case kv of (url, ss) \<Rightarrow> ss \<noteq> [] \<and> (\<forall>s\<in>set ss. sn_URL s = url)"
    proof
      assume "kv \<in> set acc"
      then show ?thesis using assms by (simp add: groups_ok_def)
    next
      assume kv: "kv = (sn_URL s, (case map_of acc (sn_URL s) of Some ss \<Rightarrow> ss | None \<Rightarrow> []) @ [s])"
      show ?thesis unfolding kv prod.case by (rule conjI) (simp, rule new)
    qed
  qed
qed

lemma read_snapshots_ok: "groups_ok acc \<Longrightarrow> groups_ok (read_snapshots dec es acc)"
proof (induction dec es acc rule: read_snapshots.induct)
  case (2 dec name entry es acc)
  then show ?case using groups_ok_update by (auto split: dir_entry.splits option.splits)
qed simp

lemma newest_first_ok:
  "0 < limit \<Longrightarrow> ss \<noteq> [] \<Longrightarrow> newest_first limit ss \<noteq> [] \<and> int (length (newest_first limit ss)) \<le> limit \<and>
     set (newest_first limit ss) \<subseteq> set ss"
proof -
  assume "0 < limit" "ss \<noteq> []"
  moreover have "length (sort_key (\<lambda>s. - sn_Timestamp s) ss) = length ss" by simp
  ultimately show ?thesis
    by (auto simp: newest_first_def Let_def dest: in_set_takeD simp flip: length_greater_0_conv)
qed

lemma Load_inv:
  assumes "det_inv d"
  shows "det_inv (LoadSnapshots dec listing d)"
proof (cases listing)
  case (Some dir)
  let ?g = "read_snapshots dec (sort_key fst dir) []"
  let ?m = "map (\<lambda>(url, ss). (url, newest_first (dc_MaxSnapshots (dt_config d)) ss)) ?g"
  have g: "groups_ok ?g" by (rule read_snapshots_ok) (simp add: groups_ok_def)
  have pos: "0 < dc_MaxSnapshots (dt_config d)" using assms by (simp add: det_inv_def)
  have "ss \<noteq> [] \<and> int (length ss) \<le> dc_MaxSnapshots (dt_config d) \<and> (\<forall>s\<in>set ss. sn_URL s = url)"
    if "(dt_snapshots d ++ map_of ?m) url = Some ss" for url ss
  proof (cases "map_of ?m url")
    case None
    then show ?thesis using that assms by (simp add: det_inv_def map_add_def)
  next
    case (Some v)
    then have "(url, ss) \<in> set ?m" using that by (auto simp: map_add_def dest: map_of_SomeD)
    then obtain ss0 where "(url, ss0) \<in> set ?g" and ss: "ss = newest_first (dc_MaxSnapshots (dt_config d)) ss0" by auto
    then have "ss0 \<noteq> []" "\<forall>s\<in>set ss0. sn_URL s = url" using g by (auto simp: groups_ok_def)
    then show ?thesis using newest_first_ok [OF pos, of ss0] ss by (meson subsetD)
  qed
  then show ?thesis using Some pos by (simp add: LoadSnapshots_def det_inv_def)
qed (simp add: LoadSnapshots_def assms)

lemma Cleanup_noop:
  assumes "det_inv d"
  shows "CleanupOldSnapshots stamp urls (d, dir) = (d, dir)"
proof -
  have step: "cleanup_url stamp (d, dir) url = (d, dir)" for url
    using snapshots_of_inv [OF assms, of url] by (auto simp: cleanup_url_def Let_def)
  show ?thesis
    unfolding CleanupOldSnapshots_def by (induction urls) (simp_all add: step)
qed

lemma det_run_inv:
  "det_inv (fst st) \<Longrightarrow> det_inv (fst (det_run sha stamp enc dec ops st))"
proof (induction ops arbitrary: st)
  case (Cons opn ops)
  obtain d dir where st: "st = (d, dir)" by (cases st)
  have "det_inv (fst (det_step sha stamp enc dec opn st))"
    using Cons.prems by (cases opn) (simp_all add: st Capture_inv Load_inv Cleanup_noop)
  with Cons.IH show ?case by (simp add: det_run_def)
qed (simp add: det_run_def)

text \<open>The pages captured for a URL, in the order of the captures.\<close>

definition page_htmls :: "det_op list \<Rightarrow> string \<Rightarrow> string list" where
  "page_htmls ops url = concat (map (\<lambda>opn. case opn of OpCapture now u html txt str meta \<Rightarrow> if u = url then [html] else [] | _ \<Rightarrow> []) ops)"

definition only_captures :: "det_op list \<Rightarrow> bool" where
  "only_captures ops \<longleftrightarrow> list_all (\<lambda>opn. case opn of OpCapture now u html txt str meta \<Rightarrow> True | _ \<Rightarrow> False) ops"

lemma Capture_config [simp]:
  "dt_config (fst (snd (CaptureSnapshot sha stamp enc now url html txt struct meta st))) = dt_config (fst st)"
  by (simp add: CaptureSnapshot_def Let_def split: prod.split)

lemma take_remdups_adj_step:
  assumes "0 < n" "map f ss = take n (remdups_adj hs)"
  shows "(ss \<noteq> [] \<and> f (hd ss) = h \<longrightarrow> take n (remdups_adj (h # hs)) = map f ss) \<and>
         (\<not> (ss \<noteq> [] \<and> f (hd ss) = h) \<longrightarrow> take n (remdups_adj (h # hs)) = take n (h # map f ss))"
proof (cases "remdups_adj hs")
  case Nil
  then show ?thesis using assms by simp
next
  case (Cons y ys)
  then obtain m where n: "n = Suc m" using assms(1) by (cases n) auto
  then have "map f ss = y # take m ys" using assms(2) Cons by simp
  then obtain t ts where ss: "ss = t # ts" "f t = y" "map f ts = take m ys" by auto
  then show ?thesis using Cons n by (auto simp: remdups_adj_Cons take_Cons')
qed

lemma Capture_hashes:
  assumes "0 < dc_MaxSnapshots (dt_config (fst st))"
    "map sn_HTMLHash (snapshots_of (fst st) u) = take (nat (dc_MaxSnapshots (dt_config (fst st)))) (remdups_adj hs)"
  shows "map sn_HTMLHash (snapshots_of (fst (snd (CaptureSnapshot sha stamp enc now url html txt struct meta st))) u) =
           take (nat (dc_MaxSnapshots (dt_config (fst st)))) (remdups_adj (if u = url then sha html # hs else hs))"
proof (cases "u = url")
  case True
  have pos: "0 < nat (dc_MaxSnapshots (dt_config (fst st)))" using assms(1) by simp
  show ?thesis
    using take_remdups_adj_step [OF pos assms(2), of "sha html"] True
    by (auto simp: CaptureSnapshot_def Let_def snapshots_of_def take_map take_Cons' split: prod.split)
next
  case False
  then show ?thesis
    using assms(2) by (auto simp: CaptureSnapshot_def Let_def snapshots_of_def split: prod.split)
qed

lemma captures_hashes:
  assumes "only_captures ops" "0 < dc_MaxSnapshots (dt_config (fst st))"
    "map sn_HTMLHash (snapshots_of (fst st) u) = take (nat (dc_MaxSnapshots (dt_config (fst st)))) (remdups_adj hs)"
  shows "map sn_HTMLHash (snapshots_of (fst (det_run sha stamp enc dec ops st)) u) =
           take (nat (dc_MaxSnapshots (dt_config (fst st)))) (remdups_adj (rev (map sha (page_htmls ops u)) @ hs))"
  using assms
proof (induction ops arbitrary: st hs)
  case (Cons opn ops)
  then obtain now url html tx str meta where opn: "opn = OpCapture now url html tx str meta"
    by (cases opn) (auto simp: only_captures_def)
  let ?st = "snd (CaptureSnapshot sha stamp enc now url html tx str meta st)"
  have run: "det_run sha stamp enc dec (opn # ops) st = det_run sha stamp enc dec ops ?st"
    by (simp add: det_run_def opn)
  have "only_captures ops" using Cons.prems(1) by (simp add: only_captures_def)
  moreover have "0 < dc_MaxSnapshots (dt_config (fst ?st))" using Cons.prems(2) by simp
  moreover have "map sn_HTMLHash (snapshots_of (fst ?st) u) =
      take (nat (dc_MaxSnapshots (dt_config (fst ?st)))) (remdups_adj (if u = url then sha html # hs else hs))"
    using Capture_hashes [OF Cons.prems(2,3)] by simp
  ultimately show ?case
    using Cons.IH [of ?st "if u = url then sha html # hs else hs"] unfolding run
    by (simp add: opn page_htmls_def)
qed (simp add: det_run_def page_htmls_def)

section \<open>Properties\<close>

text \<open>C14: The diff of two snapshots is the list, sorted strictly by selector, of exactly the changes that
  the two structures call for: removed, added and modified elements whose selector is not ignored.
  It does not depend on the order in which the runtime ranges over the two maps.\<close>
theorem diffSnapshots_is_the_difference:
  assumes "map_order ko old" "map_order kn new" "map_order ko' old" "map_order kn' new"
  shows "set (diffSnapshots d ko kn old new) = {c. \<exists>k. expected_change d old new k = Some c} \<and>
         sorted_wrt (<) (map ch_Selector (diffSnapshots d ko kn old new)) \<and>
         diffSnapshots d ko kn old new = diffSnapshots d ko' kn' old new"
proof -
  have "diffSnapshots d ko kn old new = diffSnapshots d ko' kn' old new"
    by (rule sorted_key_set_unique [OF diffSnapshots_sorted diffSnapshots_sorted])
       (simp_all add: assms diffSnapshots_set)
  then show ?thesis
    using diffSnapshots_set [OF assms(1,2)] diffSnapshots_sorted [OF assms(1,2)] by blast
qed

definition sample_element :: "string \<Rightarrow> string \<Rightarrow> structure_element" where
  "sample_element sel txt =
     \<lparr>se_TagName = ''p'', se_Selector = sel, se_Attributes = Map.empty, se_TextHash = txt, se_ChildCount = 0\<rparr>"

definition sample_snapshot :: "structure_element list \<Rightarrow> snapshot" where
  "sample_snapshot es = \<lparr>sn_URL = ''u'', sn_Timestamp = 1, sn_HTMLHash = ''h'', sn_TextContent = [],
     sn_Structure = es, sn_Metadata = Map.empty\<rparr>"

theorem diffSnapshots_is_the_difference_witness:
  "diffSnapshots (NewDetector \<lparr>dc_SnapshotDir = [], dc_MaxSnapshots = 0, dc_ReportDir = [], dc_EnableDiff = True,
       dc_IgnoreSelectors = [], dc_MinTextLength = 0\<rparr>) [''b'', ''a''] [''c'', ''a'']
     (sample_snapshot [sample_element ''a'' ''1'', sample_element ''b'' ''2''])
     (sample_snapshot [sample_element ''a'' ''3'', sample_element ''c'' ''4'']) =
   diffSnapshots (NewDetector \<lparr>dc_SnapshotDir = [], dc_MaxSnapshots = 0, dc_ReportDir = [], dc_EnableDiff = True,
       dc_IgnoreSelectors = [], dc_MinTextLength = 0\<rparr>) [''a'', ''b''] [''a'', ''c'']
     (sample_snapshot [sample_element ''a'' ''1'', sample_element ''b'' ''2''])
     (sample_snapshot [sample_element ''a'' ''3'', sample_element ''c'' ''4''])"
proof -
  let ?o = "sample_snapshot [sample_element ''a'' ''1'', sample_element ''b'' ''2'']"
  let ?n = "sample_snapshot [sample_element ''a'' ''3'', sample_element ''c'' ''4'']"
  have o: "map_order [''b'', ''a''] ?o" "map_order [''a'', ''b''] ?o"
    by (auto simp: map_order_def structMap_dom sample_snapshot_def sample_element_def)
  have n: "map_order [''c'', ''a''] ?n" "map_order [''a'', ''c''] ?n"
    by (auto simp: map_order_def structMap_dom sample_snapshot_def sample_element_def)
  show ?thesis using diffSnapshots_is_the_difference [OF o(1) n(1) o(2) n(2)] by blast
qed

text \<open>After any captures by a new detector, the history of a URL consists of the newest
  \<open>MaxSnapshots\<close> of its pages, newest first, where a run of captures with the same hash counts once;
  and comparing panics exactly for a URL that was never captured.\<close>
theorem CaptureSnapshot_history:
  assumes "only_captures ops"
  shows "map sn_HTMLHash (snapshots_of (fst (det_run sha stamp enc dec ops (NewDetector config, dir))) url) =
           take (nat (dc_MaxSnapshots (dt_config (NewDetector config))))
             (remdups_adj (rev (map sha (page_htmls ops url)))) \<and>
         (CompareWithPrevious stamp encReport now ko kn url
            (fst (det_run sha stamp enc dec ops (NewDetector config, dir))) reports = Panic \<longleftrightarrow>
          page_htmls ops url = [])"
proof -
  let ?d = "fst (det_run sha stamp enc dec ops (NewDetector config, dir))"
  have pos: "0 < dc_MaxSnapshots (dt_config (NewDetector config))"
    using NewDetector_inv by (simp add: det_inv_def)
  have h: "map sn_HTMLHash (snapshots_of ?d url) =
      take (nat (dc_MaxSnapshots (dt_config (NewDetector config)))) (remdups_adj (rev (map sha (page_htmls ops url))))"
    using captures_hashes [OF assms, of "(NewDetector config, dir)" url "[]"] pos
    by (simp add: snapshots_of_def NewDetector_def Let_def)
  have "snapshots_of ?d url = [] \<longleftrightarrow> page_htmls ops url = []"
    using arg_cong [OF h, of "\<lambda>xs. xs = []"] pos by simp
  moreover have "CompareWithPrevious stamp encReport now ko kn url ?d reports = Panic \<longleftrightarrow> snapshots_of ?d url = []"
    by (auto simp: CompareWithPrevious_def Let_def split: list.splits)
  ultimately show ?thesis using h by simp
qed

theorem CaptureSnapshot_history_witness:
  "map sn_HTMLHash (snapshots_of (fst (det_run (\<lambda>x. x) (\<lambda>t. ''t'') sn_HTMLHash (\<lambda>c. None)
      [OpCapture 1 ''u'' ''a'' [] [] Map.empty, OpCapture 2 ''u'' ''a'' [] [] Map.empty, OpCapture 3 ''u'' ''b'' [] [] Map.empty]
      (NewDetector \<lparr>dc_SnapshotDir = [], dc_MaxSnapshots = 0, dc_ReportDir = [], dc_EnableDiff = True,
         dc_IgnoreSelectors = [], dc_MinTextLength = 0\<rparr>, []))) ''u'') = [''b'', ''a'']"
proof -
  let ?ops = "[OpCapture 1 ''u'' ''a'' [] [] Map.empty, OpCapture 2 ''u'' ''a'' [] [] Map.empty, OpCapture 3 ''u'' ''b'' [] [] Map.empty]"
  have "only_captures ?ops" by (simp add: only_captures_def)
  from CaptureSnapshot_history [OF this, of "\<lambda>x. x" "\<lambda>t. ''t''" sn_HTMLHash "\<lambda>c. None"
      "\<lparr>dc_SnapshotDir = [], dc_MaxSnapshots = 0, dc_ReportDir = [], dc_EnableDiff = True,
         dc_IgnoreSelectors = [], dc_MinTextLength = 0\<rparr>" "[]" "''u''" "\<lambda>r. []" 0 "[]" "[]" "[]"]
  show ?thesis by (simp add: page_htmls_def NewDetector_def)
qed

text \<open>Whatever was captured, loaded and cleaned up before, cleaning up removes no file and no
  snapshot: the list was cut to the limit when the snapshot was added, and the file of a snapshot
  that was cut off stays on the disk.\<close>
theorem CleanupOldSnapshots_removes_nothing:
  "CleanupOldSnapshots stamp urls (det_run sha stamp enc dec ops (NewDetector config, dir)) =
     det_run sha stamp enc dec ops (NewDetector config, dir)"
proof -
  obtain d dir' where run: "det_run sha stamp enc dec ops (NewDetector config, dir) = (d, dir')" by fastforce
  have "det_inv (fst (det_run sha stamp enc dec ops (NewDetector config, dir)))"
    by (rule det_run_inv) (simp add: NewDetector_inv)
  then have "det_inv d" by (simp add: run)
  then show ?thesis unfolding run by (rule Cleanup_noop)
qed

text \<open>Two URLs that differ only in dots, slashes and colons share a file name, so capturing both within
  one second overwrites the first snapshot, and a detector that loads the directory finds only the
  second.\<close>
theorem snapshot_files_collide:
  assumes "dec (enc \<lparr>sn_URL = u2, sn_Timestamp = t2, sn_HTMLHash = sha h2, sn_TextContent = x2, sn_Structure = s2, sn_Metadata = m2\<rparr>) =
             Some \<lparr>sn_URL = u2, sn_Timestamp = t2, sn_HTMLHash = sha h2, sn_TextContent = x2, sn_Structure = s2, sn_Metadata = m2\<rparr>"
    "stamp t1 = stamp t2" "safeURL u1 = safeURL u2" "u1 \<noteq> u2"
  shows "GetSnapshotCount (LoadSnapshots dec
           (Some (snd (det_run sha stamp enc dec0
             [OpCapture t1 u1 h1 x1 s1 m1, OpCapture t2 u2 h2 x2 s2 m2] (NewDetector config, []))))
           (NewDetector config)) u1 = 0 \<and>
         GetSnapshotCount (LoadSnapshots dec
           (Some (snd (det_run sha stamp enc dec0
             [OpCapture t1 u1 h1 x1 s1 m1, OpCapture t2 u2 h2 x2 s2 m2] (NewDetector config, []))))
           (NewDetector config)) u2 = 1"
proof -
  let ?f = "safeURL u2 @ ''_'' @ stamp t2 @ ''.json''"
  let ?s = "\<lparr>sn_URL = u2, sn_Timestamp = t2, sn_HTMLHash = sha h2, sn_TextContent = x2, sn_Structure = s2, sn_Metadata = m2\<rparr>"
  have dir: "snd (det_run sha stamp enc dec0 [OpCapture t1 u1 h1 x1 s1 m1, OpCapture t2 u2 h2 x2 s2 m2]
      (NewDetector config, [])) = [(?f, RegularFile (enc ?s))]"
    using assms(2-4)
    by (simp add: det_run_def CaptureSnapshot_def Let_def snapshots_of_def NewDetector_def persistSnapshot_def
        snapshot_file_def write_file_def)
  have suf: "has_suffix ?f ''.json''"
    using has_suffix_append [of "safeURL u2 @ ''_'' @ stamp t2" "''.json''"] by simp
  have "read_snapshots dec (sort_key fst [(?f, RegularFile (enc ?s))]) [] = [(u2, [?s])]"
    using suf by (simp add: assms(1))
  moreover have "newest_first (dc_MaxSnapshots (dt_config (NewDetector config))) [?s] = [?s]"
    using NewDetector_inv [of config] by (simp add: newest_first_def Let_def det_inv_def)
  ultimately show ?thesis
    unfolding dir using assms(4)
    by (simp add: LoadSnapshots_def GetSnapshotCount_def snapshots_of_def NewDetector_def Let_def)
qed

theorem snapshot_files_collide_witness:
  "GetSnapshotCount (LoadSnapshots (\<lambda>c. if c = ''B'' then Some (sample_snapshot []\<lparr>sn_URL := ''a/b'', sn_HTMLHash := ''y''\<rparr>) else None)
     (Some (snd (det_run (\<lambda>x. x) (\<lambda>t. ''t'') (\<lambda>s. if sn_URL s = ''a/b'' then ''B'' else ''A'') (\<lambda>c. None)
        [OpCapture 1 ''a.b'' ''x'' [] [] Map.empty, OpCapture 1 ''a/b'' ''y'' [] [] Map.empty]
        (NewDetector \<lparr>dc_SnapshotDir = [], dc_MaxSnapshots = 0, dc_ReportDir = [], dc_EnableDiff = True,
           dc_IgnoreSelectors = [], dc_MinTextLength = 0\<rparr>, []))))
     (NewDetector \<lparr>dc_SnapshotDir = [], dc_MaxSnapshots = 0, dc_ReportDir = [], dc_EnableDiff = True,
        dc_IgnoreSelectors = [], dc_MinTextLength = 0\<rparr>)) ''a.b'' = 0"
proof -
  let ?sha = "\<lambda>x::string. x"
  let ?stamp = "\<lambda>t::int. ''t''"
  let ?enc = "\<lambda>s. if sn_URL s = ''a/b'' then ''B'' else ''A''"
  let ?dec = "\<lambda>c. if c = ''B'' then Some (sample_snapshot []\<lparr>sn_URL := ''a/b'', sn_HTMLHash := ''y''\<rparr>) else None"
  have d: "?dec (?enc \<lparr>sn_URL = ''a/b'', sn_Timestamp = 1, sn_HTMLHash = ?sha ''y'', sn_TextContent = [], sn_Structure = [], sn_Metadata = Map.empty\<rparr>) =
      Some \<lparr>sn_URL = ''a/b'', sn_Timestamp = 1, sn_HTMLHash = ?sha ''y'', sn_TextContent = [], sn_Structure = [], sn_Metadata = Map.empty\<rparr>"
    by (simp add: sample_snapshot_def)
  have safe: "safeURL ''a.b'' = safeURL ''a/b''" by code_simp
  have stamp: "?stamp 1 = ?stamp 1" by simp
  have ne: "''a.b'' \<noteq> ''a/b''" by simp
  show ?thesis
    using snapshot_files_collide [where dec = ?dec and enc = ?enc and sha = ?sha and stamp = ?stamp
        and ?u1.0 = "''a.b''" and ?u2.0 = "''a/b''" and ?t1.0 = 1 and ?t2.0 = 1 and ?h2.0 = "''y''" and ?x2.0 = "[]"
        and ?s2.0 = "[]" and ?m2.0 = Map.empty, OF d stamp safe ne] by blast
qed

end
