(* ===== verification/GoPath.thy ===== *)
theory GoPath
  imports GoStrings
begin

text \<open>
  The functions of Go's \<open>path/filepath\<close> that the program uses, for a Unix system: \<open>Clean\<close>, \<open>Join\<close>,
  \<open>Ext\<close> and \<open>Dir\<close>, and that a cleaned path is clean. \<open>FromSlash\<close> is the identity there.
\<close>

section \<open>Definitions\<close>

text \<open>One component of a path, given the components kept so far.\<close>

definition clean_step :: "bool \<Rightarrow> string list \<Rightarrow> string \<Rightarrow> string list" where
  "clean_step rooted acc c =
     (if c = [] \<or> c = ''.'' then acc
      else if c = ''..'' then
        (if acc \<noteq> [] \<and> last acc \<noteq> ''..'' then butlast acc
         else if rooted then acc else acc @ [''..''])
      else acc @ [c])"

definition clean_comps :: "string \<Rightarrow> string list" where
  "clean_comps p = foldl (clean_step (has_prefix p ''/'')) [] (split_byte CHR ''/'' p)"

definition path_of :: "bool \<Rightarrow> string list \<Rightarrow> string" where
  "path_of rooted cs = (if rooted then ''/'' @ join ''/'' cs else if cs = [] then ''.'' else join ''/'' cs)"

definition filepath_Clean :: "string \<Rightarrow> string" where
  "filepath_Clean p = path_of (has_prefix p ''/'') (clean_comps p)"

text \<open>\<open>Join\<close> drops the leading empty elements, joins the others and cleans; no element left gives the empty path.\<close>

definition filepath_Join :: "string list \<Rightarrow> string" where
  "filepath_Join es =
     (case dropWhile (\<lambda>e. e = []) es of [] \<Rightarrow> [] | fs \<Rightarrow> filepath_Clean (join ''/'' fs))"

text \<open>The suffix from the last dot of the last component on.\<close>

definition filepath_Ext :: "string \<Rightarrow> string" where
  "filepath_Ext p =
     (let base = (case last_index_byte p CHR ''/'' of Some i \<Rightarrow> drop (i + 1) p | None \<Rightarrow> p)
      in case last_index_byte base CHR ''.'' of Some i \<Rightarrow> drop i base | None \<Rightarrow> [])"

definition filepath_Dir :: "string \<Rightarrow> string" where
  "filepath_Dir p =
     filepath_Clean (case last_index_byte p CHR ''/'' of Some i \<Rightarrow> take (i + 1) p | None \<Rightarrow> [])"

section \<open>Clean components\<close>

text \<open>A component that cleaning keeps; \<open>norm_comps\<close> says what a list of kept components looks like.\<close>

definition plain_comp :: "string \<Rightarrow> bool" where
  "plain_comp c \<longleftrightarrow> c \<noteq> [] \<and> c \<noteq> ''.'' \<and> c \<noteq> ''..'' \<and> CHR ''/'' \<notin> set c"

definition norm_comps :: "bool \<Rightarrow> string list \<Rightarrow> bool" where
  "norm_comps rooted cs \<longleftrightarrow>
     (\<exists>k ds. cs = replicate k ''..'' @ ds \<and> (\<forall>d\<in>set ds. plain_comp d) \<and> (rooted \<longrightarrow> k = 0))"

lemma norm_comps_Nil [simp]: "norm_comps r []"
  unfolding norm_comps_def by (rule exI [of _ 0], rule exI [of _ "[]"]) simp

lemma norm_comps_snoc_plain: "norm_comps r cs \<Longrightarrow> plain_comp c \<Longrightarrow> norm_comps r (cs @ [c])"
proof -
  assume "norm_comps r cs" and c: "plain_comp c"
  then obtain k ds where "cs = replicate k ''..'' @ ds" "\<forall>d\<in>set ds. plain_comp d" "r \<longrightarrow> k = 0"
    unfolding norm_comps_def by blast
  then show ?thesis using c unfolding norm_comps_def by (intro exI [of _ k] exI [of _ "ds @ [c]"]) auto
qed

lemma norm_comps_append_plain: "norm_comps r cs \<Longrightarrow> \<forall>d\<in>set ds. plain_comp d \<Longrightarrow> norm_comps r (cs @ ds)"
proof (induction ds rule: rev_induct)
  case (snoc d ds)
  then show ?case using norm_comps_snoc_plain [of r "cs @ ds" d] by simp
qed simp

lemma norm_comps_cases:
  assumes "norm_comps r cs"
  obtains (dots) k where "cs = replicate k ''..''" "r \<longrightarrow> k = 0"
    | (plain) cs' d where "cs = cs' @ [d]" "plain_comp d" "norm_comps r cs'"
proof -
  from assms obtain k ds where cs: "cs = replicate k ''..'' @ ds" "\<forall>d\<in>set ds. plain_comp d" "r \<longrightarrow> k = 0"
    unfolding norm_comps_def by blast
  show thesis
  proof (cases ds rule: rev_cases)
    case Nil
    then show ?thesis using cs dots [of k] by simp
  next
    case (snoc ds' d)
    then have "norm_comps r (replicate k ''..'' @ ds')"
      using cs unfolding norm_comps_def by (intro exI [of _ k] exI [of _ ds']) auto
    then show ?thesis using plain [of "replicate k ''..'' @ ds'" d] snoc cs by simp
  qed
qed

lemma norm_comps_dots: "norm_comps r (replicate k ''..'') \<longleftrightarrow> \<not> r \<or> k = 0"
proof
  assume "norm_comps r (replicate k ''..'')"
  then obtain j ds where j: "replicate k ''..'' = replicate j ''..'' @ ds" "\<forall>d\<in>set ds. plain_comp d" "r \<longrightarrow> j = 0"
    unfolding norm_comps_def by blast
  have "set ds \<subseteq> set (replicate k ''..'')" unfolding j(1) by auto
  then have "set ds \<subseteq> {''..''}" by auto
  then have "ds = []" using j(2) by (cases ds) (auto simp: plain_comp_def)
  then show "\<not> r \<or> k = 0" using j by (cases "j = 0") auto
next
  assume "\<not> r \<or> k = 0"
  then show "norm_comps r (replicate k ''..'')" unfolding norm_comps_def by (intro exI [of _ k] exI [of _ "[]"]) auto
qed

lemma clean_step_plain [simp]: "plain_comp c \<Longrightarrow> clean_step r acc c = acc @ [c]"
  by (simp add: clean_step_def plain_comp_def)

lemma clean_step_norm:
  assumes "norm_comps r acc" "CHR ''/'' \<notin> set c"
  shows "norm_comps r (clean_step r acc c)"
proof -
  consider "c = [] \<or> c = ''.''" | "c = ''..''" | "plain_comp c" using assms(2) by (auto simp: plain_comp_def)
  then show ?thesis
  proof cases
    case 1
    then show ?thesis using assms by (auto simp: clean_step_def)
  next
    case 2
    show ?thesis
      using assms(1)
    proof (cases rule: norm_comps_cases)
      case (dots k)
      have "clean_step r acc c = (if r then acc else replicate (Suc k) ''..'')"
        using dots 2 by (cases k) (auto simp: clean_step_def replicate_append_same)
      then show ?thesis using assms(1) norm_comps_dots [of r "Suc k"] by (cases r) simp_all
    next
      case (plain cs' d)
      then have "clean_step r acc c = cs'" using 2 by (simp add: clean_step_def plain_comp_def)
      then show ?thesis using plain by simp
    qed
  next
    case 3
    then show ?thesis using norm_comps_snoc_plain [OF assms(1)] by simp
  qed
qed

lemma foldl_clean_norm:
  "norm_comps r acc \<Longrightarrow> \<forall>c\<in>set cs. CHR ''/'' \<notin> set c \<Longrightarrow> norm_comps r (foldl (clean_step r) acc cs)"
  by (induction cs arbitrary: acc) (simp_all add: clean_step_norm)

lemma clean_comps_norm: "norm_comps (has_prefix p ''/'') (clean_comps p)"
  unfolding clean_comps_def by (rule foldl_clean_norm) (auto dest: split_byte_no_sep)

lemma foldl_clean_plain: "\<forall>c\<in>set cs. plain_comp c \<Longrightarrow> foldl (clean_step r) acc cs = acc @ cs"
  by (induction cs arbitrary: acc) simp_all

lemma foldl_clean_dots: "foldl (clean_step False) (replicate j ''..'') (replicate k ''..'') = replicate (j + k) ''..''"
proof (induction k arbitrary: j)
  case (Suc k)
  have "clean_step False (replicate j ''..'') ''..'' = replicate (Suc j) ''..''"
    by (cases j) (auto simp: clean_step_def replicate_append_same)
  then show ?case using Suc [of "Suc j"] by simp
qed simp

lemma foldl_clean_id: "norm_comps r cs \<Longrightarrow> foldl (clean_step r) [] cs = cs"
proof -
  assume "norm_comps r cs"
  then obtain k ds where cs: "cs = replicate k ''..'' @ ds" "\<forall>d\<in>set ds. plain_comp d" "r \<longrightarrow> k = 0"
    unfolding norm_comps_def by blast
  have "foldl (clean_step r) [] (replicate k ''..'') = replicate k ''..''"
    using foldl_clean_dots [of 0 k] cs(3) by (cases r) simp_all
  then show ?thesis using foldl_clean_plain [OF cs(2), of r "replicate k ''..''"] by (simp add: cs(1))
qed

lemma norm_comps_elem: "norm_comps r cs \<Longrightarrow> c \<in> set cs \<Longrightarrow> c \<noteq> [] \<and> c \<noteq> ''.'' \<and> CHR ''/'' \<notin> set c"
proof -
  assume "norm_comps r cs" and c: "c \<in> set cs"
  then obtain k ds where cs: "cs = replicate k ''..'' @ ds" "\<forall>d\<in>set ds. plain_comp d"
    unfolding norm_comps_def by blast
  have "c = ''..'' \<or> c \<in> set ds" using c unfolding cs(1) by auto
  then show ?thesis
  proof
    assume "c \<in> set ds"
    then show ?thesis using cs(2) unfolding plain_comp_def by blast
  qed simp
qed

lemma split_path_of:
  assumes "norm_comps r cs"
  shows "foldl (clean_step r) [] (split_byte CHR ''/'' (path_of r cs)) = cs \<and> (has_prefix (path_of r cs) ''/'' \<longleftrightarrow> r)"
proof (cases "cs = []")
  case True
  then show ?thesis by (cases r) (simp_all add: path_of_def clean_step_def)
next
  case False
  then obtain c cs' where cs: "cs = c # cs'" by (cases cs) auto
  have c: "c \<noteq> []" "CHR ''/'' \<notin> set c" using norm_comps_elem [OF assms] cs by auto
  have sp: "split_byte CHR ''/'' (join ''/'' cs) = cs"
    using split_byte_join [of cs "CHR ''/''"] False norm_comps_elem [OF assms] by auto
  have np: "\<not> has_prefix (join ''/'' cs) ''/''"
    using c cs by (cases cs'; cases c) (auto simp: has_prefix_Cons1)
  show ?thesis
    using False sp np foldl_clean_id [OF assms] by (cases r) (simp_all add: path_of_def clean_step_def)
qed

lemma filepath_Clean_path_of: "norm_comps r cs \<Longrightarrow> filepath_Clean (path_of r cs) = path_of r cs"
  using split_path_of by (simp add: filepath_Clean_def clean_comps_def)

lemma filepath_Clean_idem [simp]: "filepath_Clean (filepath_Clean p) = filepath_Clean p"
  unfolding filepath_Clean_def [of p] by (rule filepath_Clean_path_of) (rule clean_comps_norm)

lemma filepath_Clean_ne [simp]: "filepath_Clean p \<noteq> []"
proof (cases "clean_comps p")
  case (Cons c cs)
  then have "c \<noteq> []" using norm_comps_elem [OF clean_comps_norm [of p]] by auto
  then show ?thesis using Cons by (cases cs) (auto simp: filepath_Clean_def path_of_def)
qed (simp add: filepath_Clean_def path_of_def)

text \<open>A clean path is the current directory or does not begin with a dot component.\<close>

lemma filepath_Clean_no_dot: "\<not> has_prefix (filepath_Clean p) ''./''"
proof
  assume a: "has_prefix (filepath_Clean p) ''./''"
  let ?r = "has_prefix p ''/''" and ?cs = "clean_comps p"
  note n = clean_comps_norm [of p]
  have "\<not> ?r" using a by (auto simp: filepath_Clean_def path_of_def has_prefix_iff)
  moreover have ne: "?cs \<noteq> []"
  proof
    assume "?cs = []"
    then have "filepath_Clean p = (if ?r then ''/'' else ''.'')" by (simp add: filepath_Clean_def path_of_def)
    then show False using a by (simp split: if_splits)
  qed
  ultimately have p: "filepath_Clean p = join ''/'' ?cs" by (simp add: filepath_Clean_def path_of_def)
  obtain t where "join ''/'' ?cs = ''.'' @ CHR ''/'' # t" using a p by (auto simp: has_prefix_iff)
  then have "split_byte CHR ''/'' (join ''/'' ?cs) = ''.'' # split_byte CHR ''/'' t" by simp
  moreover have "split_byte CHR ''/'' (join ''/'' ?cs) = ?cs"
    using split_byte_join [of ?cs "CHR ''/''"] ne norm_comps_elem [OF n] by auto
  ultimately have "''.'' \<in> set ?cs" by (metis list.set_intros(1))
  then show False using norm_comps_elem [OF n] by blast
qed

lemma filepath_Clean_no_double: "\<not> has_prefix (filepath_Clean p) ''//''"
proof
  assume a: "has_prefix (filepath_Clean p) ''//''"
  note n = clean_comps_norm [of p]
  have r: "has_prefix p ''/''"
    using a split_path_of [OF n] by (auto simp: filepath_Clean_def has_prefix_iff)
  then obtain t where t: "join ''/'' (clean_comps p) = CHR ''/'' # t"
    using a by (auto simp: filepath_Clean_def path_of_def has_prefix_iff)
  have ne: "clean_comps p \<noteq> []" using t by auto
  then obtain c cs where cs: "clean_comps p = c # cs" by (cases "clean_comps p") auto
  then have "c \<noteq> []" "CHR ''/'' \<notin> set c" using norm_comps_elem [OF n] by auto
  then show False using t cs by (cases cs; cases c) auto
qed

section \<open>Joining below a directory\<close>

lemma clean_comps_append_slash:
  assumes "p \<noteq> []"
  shows "clean_comps (p @ ''/'' @ q) = foldl (clean_step (has_prefix p ''/'')) (clean_comps p) (split_byte CHR ''/'' q)"
proof -
  have "has_prefix (p @ ''/'' @ q) ''/'' = has_prefix p ''/''" using assms by (cases p) auto
  then show ?thesis by (simp add: clean_comps_def split_byte_append)
qed

lemma filepath_Clean_below:
  assumes "p \<noteq> []" "foldl (clean_step (has_prefix p ''/'')) (clean_comps p) (split_byte CHR ''/'' q) = clean_comps p @ ds"
    "ds \<noteq> []" "filepath_Clean p \<noteq> ''.''" "filepath_Clean p \<noteq> ''/''"
  shows "has_prefix (filepath_Clean (p @ ''/'' @ q)) (filepath_Clean p @ ''/'')"
proof -
  have r: "has_prefix (p @ ''/'' @ q) ''/'' = has_prefix p ''/''" using assms(1) by (cases p) auto
  have ne: "clean_comps p \<noteq> []"
    using assms(4,5) by (auto simp: filepath_Clean_def path_of_def split: if_splits)
  have "filepath_Clean (p @ ''/'' @ q) = path_of (has_prefix p ''/'') (clean_comps p @ ds)"
    using assms(2) by (simp only: filepath_Clean_def r clean_comps_append_slash [OF assms(1)])
  also have "\<dots> = path_of (has_prefix p ''/'') (clean_comps p) @ ''/'' @ join ''/'' ds"
    using ne assms(3) by (simp add: path_of_def join_append)
  finally show ?thesis by (simp add: filepath_Clean_def has_prefix_iff)
qed

lemma filepath_Join_Cons: "p \<noteq> [] \<Longrightarrow> filepath_Join (p # es) = filepath_Clean (join ''/'' (p # es))"
  by (simp add: filepath_Join_def)

lemma filepath_Clean_Join: "p \<noteq> [] \<Longrightarrow> filepath_Clean (filepath_Join (p # es)) = filepath_Join (p # es)"
  by (simp add: filepath_Join_Cons)

end
