(* ===== verification/Storage.thy ===== *)
theory Storage
  imports GoNetURL GoPath
begin

text \<open>
  The files of a crawl, \<open>internal/storage\<close>: types.go, filesystem.go, path.go and save.go. A save goes to
  the disk, a map from paths to contents; whether the operating system lets it succeed is an
  argument, as is the hash. The index is a map from URLs to what was saved for them.
\<close>

section \<open>types.go and filesystem.go\<close>

record file_info =
  fi_URL :: string
  fi_LocalPath :: string
  fi_SHA256 :: string
  fi_MimeType :: string
  fi_Size :: int

record filesystem =
  fs_outputDir :: string
  fs_index :: "string \<rightharpoonup> file_info"

definition NewFilesystem :: "string \<Rightarrow> filesystem" where
  "NewFilesystem outputDir = \<lparr>fs_outputDir = outputDir, fs_index = Map.empty\<rparr>"

section \<open>path.go\<close>

text \<open>The part of the path below the directory of the host.\<close>

definition storage_name :: "go_url \<Rightarrow> string" where
  "storage_name u =
     (let cleanPath = (if u_path u = [] \<or> u_path u = ''/'' then ''/index.html'' else u_path u);
          d1 = (case path_unescape cleanPath of Some d \<Rightarrow> d | None \<Rightarrow> cleanPath);
          d2 = (if has_suffix d1 ''/'' then d1 @ ''index.html'' else d1);
          d3 = trim_prefix d2 ''/'';
          baseName = (case last_index_byte d3 CHR ''/'' of Some i \<Rightarrow> drop (i + 1) d3 | None \<Rightarrow> d3);
          d4 = (if \<not> contains baseName ''.'' then d3 @ ''/index.html'' else d3);
          d5 = (if contains d4 ''..'' then ''_safe_path'' else d4)
      in if u_rawquery u \<noteq> [] then
           (let ext = filepath_Ext d5;
                base = trim_suffix d5 ext;
                q1 = replace_all (u_rawquery u) ''/'' ''_'';
                q2 = replace_all q1 [CHR 0x5C] ''_'';
                q3 = replace_all q2 '':'' ''_'';
                q4 = replace_all q3 ''?'' ''_'';
                q5 = replace_all q4 ''&'' ''_''
            in base @ ''_'' @ q5 @ ext)
         else d5)"

definition storage_host :: "go_url \<Rightarrow> string" where
  "storage_host u = (if hostname u = [] then ''_unknown'' else hostname u)"

text \<open>\<open>path_in_dir\<close> is the guard both functions end with.\<close>

definition path_in_dir :: "string \<Rightarrow> string \<Rightarrow> bool" where
  "path_in_dir outputDir p \<longleftrightarrow> has_prefix (filepath_Clean p) (filepath_Clean outputDir @ ''/'')"

definition PathForURL :: "filesystem \<Rightarrow> string \<Rightarrow> string" where
  "PathForURL fs rawURL =
     (case url_parse rawURL of
        None \<Rightarrow> filepath_Join [fs_outputDir fs, ''unknown'']
      | Some u \<Rightarrow>
          (let resolved = filepath_Join [fs_outputDir fs, storage_host u, storage_name u]
           in if \<not> path_in_dir (fs_outputDir fs) resolved
              then filepath_Join [fs_outputDir fs, storage_host u, ''_blocked''] else resolved))"

definition PathForAPI :: "filesystem \<Rightarrow> string \<Rightarrow> string" where
  "PathForAPI fs rawURL =
     (case url_parse rawURL of
        None \<Rightarrow> []
      | Some u \<Rightarrow>
          if u_path u = [] \<or> u_path u = ''/'' then []
          else
            (let cleanPath = trim_prefix (u_path u) ''/''
             in if contains cleanPath ''..'' then []
                else
                  (let r0 = filepath_Join [fs_outputDir fs, cleanPath];
                       resolved = (if has_suffix cleanPath ''/'' \<or> filepath_Ext cleanPath = [] then r0 @ ''.json'' else r0)
                   in if \<not> path_in_dir (fs_outputDir fs) resolved then [] else resolved)))"

definition GetLocalPath :: "filesystem \<Rightarrow> string \<Rightarrow> string \<times> bool" where
  "GetLocalPath fs rawURL =
     (case fs_index fs rawURL of None \<Rightarrow> ([], False) | Some info \<Rightarrow> (fi_LocalPath info, True))"

section \<open>save.go\<close>

text \<open>
  What the operating system does with a save: it works, the directory cannot be made, or the write
  fails and leaves the given content behind.
\<close>

datatype io_result = IoOk | MkdirFails | WriteFails "string option"

type_synonym disk = "string \<rightharpoonup> string"

text \<open>\<open>MkdirAll\<close> of the directory and \<open>WriteFile\<close>, which every save does; the result is the success.\<close>

definition write_below :: "io_result \<Rightarrow> string \<Rightarrow> string \<Rightarrow> disk \<Rightarrow> bool \<times> disk" where
  "write_below io path data d =
     (case io of
        MkdirFails \<Rightarrow> (False, d)
      | WriteFails left \<Rightarrow> (False, case left of None \<Rightarrow> d | Some c \<Rightarrow> d(path \<mapsto> c))
      | IoOk \<Rightarrow> (True, d(path \<mapsto> data)))"

definition SaveFile :: "(string \<Rightarrow> string) \<Rightarrow> io_result \<Rightarrow> string \<Rightarrow> string \<Rightarrow> string \<Rightarrow> filesystem \<times> disk \<Rightarrow>
    string option \<times> filesystem \<times> disk" where
  "SaveFile sha io rawURL data mimeType st =
     (case st of (fs, d) \<Rightarrow>
       let path = PathForURL fs rawURL; (ok, d1) = write_below io path data d
       in if \<not> ok then (None, fs, d1)
          else (Some path,
                fs\<lparr>fs_index := (fs_index fs)(rawURL \<mapsto>
                  \<lparr>fi_URL = rawURL, fi_LocalPath = path, fi_SHA256 = sha data, fi_MimeType = mimeType,
                   fi_Size = int (length data)\<rparr>)\<rparr>, d1))"

definition SaveHTML :: "(string \<Rightarrow> string) \<Rightarrow> io_result \<Rightarrow> string \<Rightarrow> string \<Rightarrow> filesystem \<times> disk \<Rightarrow>
    string option \<times> filesystem \<times> disk" where
  "SaveHTML sha io rawURL data st =
     (case st of (fs, d) \<Rightarrow>
       let path = PathForURL fs rawURL; (ok, d1) = write_below io path data d
       in if \<not> ok then (None, fs, d1)
          else (Some path,
                fs\<lparr>fs_index := (fs_index fs)(rawURL \<mapsto>
                  \<lparr>fi_URL = rawURL, fi_LocalPath = path, fi_SHA256 = sha data, fi_MimeType = ''text/html'',
                   fi_Size = int (length data)\<rparr>)\<rparr>, d1))"

text \<open>The saves that leave the index alone differ in what they append to the path.\<close>

definition save_beside :: "string \<Rightarrow> io_result \<Rightarrow> string \<Rightarrow> string \<Rightarrow> filesystem \<times> disk \<Rightarrow> (string \<times> bool) \<times> filesystem \<times> disk" where
  "save_beside sfx io rawURL data st =
     (case st of (fs, d) \<Rightarrow>
       let path = PathForURL fs rawURL @ sfx; (ok, d1) = write_below io path data d
       in ((if io = MkdirFails then [] else path, ok), fs, d1))"

definition SaveScreenshot :: "io_result \<Rightarrow> string \<Rightarrow> string \<Rightarrow> filesystem \<times> disk \<Rightarrow> (string \<times> bool) \<times> filesystem \<times> disk" where
  "SaveScreenshot = save_beside ''.png''"

definition SavePDF :: "io_result \<Rightarrow> string \<Rightarrow> string \<Rightarrow> filesystem \<times> disk \<Rightarrow> (string \<times> bool) \<times> filesystem \<times> disk" where
  "SavePDF = save_beside ''.pdf''"

definition SaveShadowDOM :: "io_result \<Rightarrow> string \<Rightarrow> string \<Rightarrow> filesystem \<times> disk \<Rightarrow> (string \<times> bool) \<times> filesystem \<times> disk" where
  "SaveShadowDOM = save_beside ''-shadowdom.json''"

definition SaveStructuredData :: "io_result \<Rightarrow> string \<Rightarrow> string \<Rightarrow> filesystem \<times> disk \<Rightarrow> (string \<times> bool) \<times> filesystem \<times> disk" where
  "SaveStructuredData = save_beside ''-structured-data.json''"

definition SaveArticle :: "io_result \<Rightarrow> string \<Rightarrow> string \<Rightarrow> filesystem \<times> disk \<Rightarrow> (string \<times> bool) \<times> filesystem \<times> disk" where
  "SaveArticle = save_beside ''-article.json''"

definition SaveSingleFile :: "io_result \<Rightarrow> string \<Rightarrow> string \<Rightarrow> filesystem \<times> disk \<Rightarrow> (string \<times> bool) \<times> filesystem \<times> disk" where
  "SaveSingleFile = save_beside ''-singlefile.html''"


section \<open>Lemmas\<close>

lemma storage_host_no_slash: "url_parse raw = Some u \<Longrightarrow> CHR ''/'' \<notin> set (storage_host u)"
  using hostname_no_slash by (auto simp: storage_host_def)

lemma storage_host_ne [simp]: "storage_host u \<noteq> []"
  by (simp add: storage_host_def)

text \<open>A path of plain components below a proper output directory is in it.\<close>

lemma Join_below:
  assumes "filepath_Clean out \<noteq> ''.''" "filepath_Clean out \<noteq> ''/''"
    "es \<noteq> []" "foldl (clean_step (has_prefix out ''/'')) (clean_comps out) (split_byte CHR ''/'' (join ''/'' es)) = clean_comps out @ ds" "ds \<noteq> []"
  shows "path_in_dir out (filepath_Join (out # es))"
proof -
  have out: "out \<noteq> []" using assms(1) by (auto simp: filepath_Clean_def path_of_def clean_comps_def clean_step_def)
  have "join ''/'' (out # es) = out @ ''/'' @ join ''/'' es" using assms(3) by (simp add: join_Cons)
  then have "has_prefix (filepath_Join (out # es)) (filepath_Clean out @ ''/'')"
    using filepath_Clean_below [OF out assms(4,5,1,2)] by (simp add: filepath_Join_Cons [OF out])
  then show ?thesis by (simp add: path_in_dir_def filepath_Clean_Join [OF out])
qed

lemma PathForURL_in_dir:
  assumes "filepath_Clean (fs_outputDir fs) \<noteq> ''.''" "filepath_Clean (fs_outputDir fs) \<noteq> ''/''"
    "\<And>u. url_parse raw = Some u \<Longrightarrow> hostname u \<noteq> ''..''"
  shows "path_in_dir (fs_outputDir fs) (PathForURL fs raw)"
proof (cases "url_parse raw")
  case None
  have "plain_comp ''unknown''" by (simp add: plain_comp_def)
  then show ?thesis
    using Join_below [OF assms(1,2), of "[''unknown'']" "[''unknown'']"] None by (simp add: PathForURL_def)
next
  case (Some u)
  let ?o = "fs_outputDir fs" and ?h = "storage_host u"
  have b: "plain_comp ''_blocked''" by (simp add: plain_comp_def)
  have h: "?h = ''.'' \<or> plain_comp ?h"
    using storage_host_no_slash [OF Some] assms(3) [OF Some] by (auto simp: plain_comp_def storage_host_def)
  have sp: "split_byte CHR ''/'' (join ''/'' [?h, ''_blocked'']) = [?h, ''_blocked'']"
    using split_byte_append_sep [OF storage_host_no_slash [OF Some], of "''_blocked''"] by simp
  have "path_in_dir ?o (filepath_Join [?o, ?h, ''_blocked''])"
  proof (cases "?h = ''.''")
    case True
    then have "foldl (clean_step (has_prefix ?o ''/'')) (clean_comps ?o) (split_byte CHR ''/'' (join ''/'' [?h, ''_blocked''])) =
        clean_comps ?o @ [''_blocked'']"
      using sp b by (simp add: clean_step_def [of _ _ "''.''"])
    from Join_below [OF assms(1,2) _ this] show ?thesis by simp
  next
    case False
    then have "foldl (clean_step (has_prefix ?o ''/'')) (clean_comps ?o) (split_byte CHR ''/'' (join ''/'' [?h, ''_blocked''])) =
        clean_comps ?o @ [?h, ''_blocked'']"
      using sp b h by simp
    from Join_below [OF assms(1,2) _ this] show ?thesis by simp
  qed
  then show ?thesis using Some by (simp add: PathForURL_def Let_def)
qed

lemma dot_dir_blocks: "filepath_Clean out = ''.'' \<Longrightarrow> \<not> path_in_dir out p"
  using filepath_Clean_no_dot by (simp add: path_in_dir_def)

lemma root_dir_blocks: "filepath_Clean out = ''/'' \<Longrightarrow> \<not> path_in_dir out p"
  using filepath_Clean_no_double by (simp add: path_in_dir_def)

text \<open>A sequence of saves; \<open>Beside\<close> stands for the saves that leave the index alone.\<close>

datatype save_op =
    SvFile io_result string string string
  | SvHTML io_result string string
  | SvBeside string io_result string string

fun save_step :: "(string \<Rightarrow> string) \<Rightarrow> save_op \<Rightarrow> filesystem \<times> disk \<Rightarrow> filesystem \<times> disk" where
  "save_step sha (SvFile io url data mime) st = snd (SaveFile sha io url data mime st)"
| "save_step sha (SvHTML io url data) st = snd (SaveHTML sha io url data st)"
| "save_step sha (SvBeside sfx io url data) st = snd (save_beside sfx io url data st)"

definition save_run :: "(string \<Rightarrow> string) \<Rightarrow> save_op list \<Rightarrow> filesystem \<times> disk \<Rightarrow> filesystem \<times> disk" where
  "save_run sha ops st = fold (save_step sha) ops st"

fun op_target :: "string \<Rightarrow> save_op \<Rightarrow> string" where
  "op_target out (SvFile io url data mime) = PathForURL (NewFilesystem out) url"
| "op_target out (SvHTML io url data) = PathForURL (NewFilesystem out) url"
| "op_target out (SvBeside sfx io url data) = PathForURL (NewFilesystem out) url @ sfx"

text \<open>An indexed save of the URL that does not fail half-way.\<close>

fun own_save :: "string \<Rightarrow> save_op \<Rightarrow> bool" where
  "own_save u (SvFile io url data mime) \<longleftrightarrow> url = u \<and> (io = IoOk \<or> io = MkdirFails)"
| "own_save u (SvHTML io url data) \<longleftrightarrow> url = u \<and> (io = IoOk \<or> io = MkdirFails)"
| "own_save u (SvBeside sfx io url data) \<longleftrightarrow> False"

lemma PathForURL_outputDir: "fs_outputDir fs = out \<Longrightarrow> PathForURL fs url = PathForURL (NewFilesystem out) url"
  by (simp add: PathForURL_def NewFilesystem_def Let_def split: option.split)

lemma save_step_outputDir [simp]: "fs_outputDir (fst (save_step sha op1 st)) = fs_outputDir (fst st)"
  by (cases op1; cases st)
     (simp_all add: SaveFile_def SaveHTML_def save_beside_def write_below_def Let_def split: io_result.splits)

lemma save_run_outputDir [simp]: "fs_outputDir (fst (save_run sha ops st)) = fs_outputDir (fst st)"
  by (induction ops arbitrary: st) (simp_all add: save_run_def)

definition index_entry_ok :: "(string \<Rightarrow> string) \<Rightarrow> string \<Rightarrow> filesystem \<times> disk \<Rightarrow> string \<Rightarrow> bool" where
  "index_entry_ok sha out st u =
     (case fs_index (fst st) u of
        None \<Rightarrow> True
      | Some info \<Rightarrow> fi_URL info = u \<and> fi_LocalPath info = PathForURL (NewFilesystem out) u \<and>
                     snd st (fi_LocalPath info) \<noteq> None)"

definition index_content_ok :: "(string \<Rightarrow> string) \<Rightarrow> filesystem \<times> disk \<Rightarrow> string \<Rightarrow> bool" where
  "index_content_ok sha st u =
     (case fs_index (fst st) u of
        None \<Rightarrow> True
      | Some info \<Rightarrow> (\<exists>data. snd st (fi_LocalPath info) = Some data \<and> fi_SHA256 info = sha data \<and>
                             fi_Size info = int (length data)))"

definition file_entry :: "(string \<Rightarrow> string) \<Rightarrow> string \<Rightarrow> string \<Rightarrow> string \<Rightarrow> string \<Rightarrow> file_info" where
  "file_entry sha out url data mime =
     \<lparr>fi_URL = url, fi_LocalPath = PathForURL (NewFilesystem out) url, fi_SHA256 = sha data, fi_MimeType = mime,
      fi_Size = int (length data)\<rparr>"

text \<open>What a save does: nothing, a file only, or a file and its index entry.\<close>

lemma save_step_cases:
  assumes "fs_outputDir fs = out"
  obtains (nop) "save_step sha op1 (fs, d) = (fs, d)"
    | (wrote) c where "save_step sha op1 (fs, d) = (fs, d(op_target out op1 \<mapsto> c))" "\<And>u. \<not> own_save u op1"
    | (indexed) url data mime where
        "save_step sha op1 (fs, d) =
           (fs\<lparr>fs_index := (fs_index fs)(url \<mapsto> file_entry sha out url data mime)\<rparr>, d(op_target out op1 \<mapsto> data))"
        "op_target out op1 = PathForURL (NewFilesystem out) url" "\<And>u. own_save u op1 \<Longrightarrow> url = u"
proof -
  note p = PathForURL_outputDir [OF assms]
  note unf = SaveFile_def SaveHTML_def save_beside_def write_below_def file_entry_def Let_def p
  have failed: thesis if "\<And>u. \<not> own_save u op1"
    "save_step sha op1 (fs, d) = (fs, case left of None \<Rightarrow> d | Some c \<Rightarrow> d(op_target out op1 \<mapsto> c))" for left
    using that nop wrote by (cases left) auto
  show thesis
  proof (cases op1)
    case (SvFile io url data mime)
    show thesis
    proof (cases io)
      case IoOk
      show thesis by (rule indexed [of url data mime]) (simp_all add: SvFile IoOk unf)
    next
      case MkdirFails
      show thesis by (rule nop) (simp add: SvFile MkdirFails unf)
    next
      case (WriteFails left)
      show thesis by (rule failed [of left]; cases left) (simp_all add: SvFile WriteFails unf)
    qed
  next
    case (SvHTML io url data)
    show thesis
    proof (cases io)
      case IoOk
      show thesis by (rule indexed [of url data "''text/html''"]) (simp_all add: SvHTML IoOk unf)
    next
      case MkdirFails
      show thesis by (rule nop) (simp add: SvHTML MkdirFails unf)
    next
      case (WriteFails left)
      show thesis by (rule failed [of left]; cases left) (simp_all add: SvHTML WriteFails unf)
    qed
  next
    case (SvBeside sfx io url data)
    show thesis
    proof (cases io)
      case IoOk
      show thesis by (rule wrote [of data]) (simp_all add: SvBeside IoOk unf)
    next
      case MkdirFails
      show thesis by (rule nop) (simp add: SvBeside MkdirFails unf)
    next
      case (WriteFails left)
      show thesis by (rule failed [of left]; cases left) (simp_all add: SvBeside WriteFails unf)
    qed
  qed
qed

lemma save_step_entry:
  assumes "fs_outputDir (fst st) = out" "index_entry_ok sha out st u"
  shows "index_entry_ok sha out (save_step sha op1 st) u"
proof -
  obtain fs d where st: "st = (fs, d)" by (cases st)
  then have out: "fs_outputDir fs = out" using assms(1) by simp
  from assms(2) show ?thesis
    unfolding st
    by (cases rule: save_step_cases [OF out, of sha op1 d])
       (auto simp: index_entry_ok_def file_entry_def split: option.splits)
qed

lemma save_step_content:
  assumes "fs_outputDir (fst st) = out" "index_entry_ok sha out st u" "index_content_ok sha st u"
    "op_target out op1 = PathForURL (NewFilesystem out) u \<Longrightarrow> own_save u op1"
  shows "index_content_ok sha (save_step sha op1 st) u"
proof -
  obtain fs d where st: "st = (fs, d)" by (cases st)
  then have out: "fs_outputDir fs = out" using assms(1) by simp
  show ?thesis
  proof (rule save_step_cases [OF out, of sha op1 d], goal_cases nop wrote indexed)
    case nop
    then show ?thesis using assms(3) st by simp
  next
    case (wrote c)
    then have "op_target out op1 \<noteq> PathForURL (NewFilesystem out) u" using assms(4) by blast
    then show ?thesis using wrote(1) assms(2,3)
      by (auto simp: st index_entry_ok_def index_content_ok_def split: option.splits)
  next
    case (indexed url data mime)
    show ?thesis
    proof (cases "url = u")
      case True
      then show ?thesis using indexed(1,2) by (simp add: st index_content_ok_def file_entry_def)
    next
      case False
      then have "op_target out op1 \<noteq> PathForURL (NewFilesystem out) u" using assms(4) indexed(3) by blast
      then show ?thesis using indexed(1) False assms(2,3)
        by (auto simp: st index_entry_ok_def index_content_ok_def split: option.splits)
    qed
  qed
qed

section \<open>Properties\<close>



text \<open>A URL whose host is \<open>..\<close> is stored outside the output directory: the path for a blocked name
  is built with the same host.\<close>
theorem dotdot_host_escapes:
  assumes "plain_comp out" "out \<noteq> ''x''"
  shows "PathForURL (NewFilesystem out) ''http://../x'' = ''_blocked'' \<and>
         \<not> has_prefix ''_blocked'' (filepath_Clean out @ ''/'')"
proof -
  have u: "map_option storage_host (url_parse ''http://../x'') = Some ''..''"
    "map_option storage_name (url_parse ''http://../x'') = Some ''x/index.html''" by code_simp+
  then obtain u where pu: "url_parse ''http://../x'' = Some u" "storage_host u = ''..''" "storage_name u = ''x/index.html''"
    by auto
  have slash: "CHR ''/'' \<notin> set out" and ne: "out \<noteq> []" using assms(1) by (auto simp: plain_comp_def)
  have np: "\<not> has_prefix out ''/''" "\<not> has_prefix (out @ t) ''/''" for t
    using slash ne by (cases out; auto)+
  have sp: "split_byte CHR ''/'' (out @ CHR ''/'' # t) = out # split_byte CHR ''/'' t" for t
    using slash by (rule split_byte_append_sep)
  have st: "clean_step r [] out = [out]" "clean_step r [out] ''..'' = []" for r
    using assms(1) by (simp_all add: clean_step_def plain_comp_def)
  have cl: "filepath_Clean out = out"
    using split_byte_notin [OF slash] np(1) st by (simp add: filepath_Clean_def clean_comps_def path_of_def)
  have j: "filepath_Join [out, ''..'', ''x/index.html''] = ''x/index.html''"
    "filepath_Join [out, ''..'', ''_blocked''] = ''_blocked''"
    by (simp_all add: filepath_Join_Cons [OF ne] filepath_Clean_def clean_comps_def np sp st path_of_def)
       (simp_all add: clean_step_def)
  have cx: "filepath_Clean ''x/index.html'' = ''x/index.html''" by code_simp
  have "\<not> has_prefix ''x/index.html'' (out @ ''/'')"
  proof
    assume "has_prefix ''x/index.html'' (out @ ''/'')"
    then obtain t where "''x/index.html'' = out @ CHR ''/'' # t" by (auto simp: has_prefix_iff)
    then have "split_byte CHR ''/'' ''x/index.html'' = out # split_byte CHR ''/'' t" by (simp only: sp)
    then show False using assms(2) by simp
  qed
  moreover have "\<not> has_prefix ''_blocked'' (out @ ''/'')"
  proof
    assume "has_prefix ''_blocked'' (out @ ''/'')"
    then have "CHR ''/'' \<in> set ''_blocked''" unfolding has_prefix_iff by fastforce
    then show False by simp
  qed
  ultimately show ?thesis
    using pu j cl cx by (simp add: PathForURL_def NewFilesystem_def path_in_dir_def)
qed

theorem dotdot_host_escapes_witness: "PathForURL (NewFilesystem ''output'') ''http://../x'' = ''_blocked''"
  using dotdot_host_escapes [of "''output''"] by (simp add: plain_comp_def)

text \<open>With the current directory or the root as output directory, the guard fails for every path: all
  the pages of a host are stored under one and the same name.\<close>
theorem dot_output_dir_keeps_one_page:
  assumes "filepath_Clean out = ''.'' \<or> filepath_Clean out = ''/''"
    "url_parse raw = Some u" "url_parse raw' = Some u'" "hostname u = hostname u'"
  shows "PathForURL (NewFilesystem out) raw = filepath_Join [out, storage_host u, ''_blocked''] \<and>
         PathForURL (NewFilesystem out) raw' = PathForURL (NewFilesystem out) raw"
proof -
  have "\<not> path_in_dir out p" for p using assms(1) dot_dir_blocks root_dir_blocks by blast
  then show ?thesis using assms(2-4) by (simp add: PathForURL_def NewFilesystem_def storage_host_def)
qed

theorem dot_output_dir_keeps_one_page_witness:
  "PathForURL (NewFilesystem ''./'') ''http://a/x.html'' = PathForURL (NewFilesystem ''./'') ''http://a/y.html?q''"
proof -
  have c: "filepath_Clean ''./'' = ''.'' \<or> filepath_Clean ''./'' = ''/''" by code_simp
  have "map_option hostname (url_parse ''http://a/x.html'') = Some ''a''"
    "map_option hostname (url_parse ''http://a/y.html?q'') = Some ''a''" by code_simp+
  then obtain u u' where "url_parse ''http://a/x.html'' = Some u" "url_parse ''http://a/y.html?q'' = Some u'" "hostname u = hostname u'"
    by auto
  from dot_output_dir_keeps_one_page [OF c this] show ?thesis by simp
qed

text \<open>In any output directory, pages that differ by a trailing slash, by scheme and port, by a slash or
  an ampersand in the query, or by one level of escaping are stored under the same name.\<close>
theorem distinct_pages_share_a_file:
  "PathForURL fs ''http://h/a/'' = PathForURL fs ''http://h/a'' \<and>
   PathForURL fs ''https://h:8443/a'' = PathForURL fs ''http://h/a'' \<and>
   PathForURL fs ''http://h/a?x=1&y=2'' = PathForURL fs ''http://h/a?x=1_y=2'' \<and>
   PathForURL fs ''http://h/%2541'' = PathForURL fs ''http://h/A''"
proof -
  have same: "PathForURL fs r1 = PathForURL fs r2"
    if "map_option (\<lambda>u. (storage_host u, storage_name u)) (url_parse r1) =
        map_option (\<lambda>u. (storage_host u, storage_name u)) (url_parse r2)" for r1 r2
    using that by (cases "url_parse r1"; cases "url_parse r2") (auto simp: PathForURL_def Let_def)
  show ?thesis by (intro conjI; rule same; code_simp)
qed

text \<open>After any sequence of saves, failed ones included, the index maps a URL to the path derived from
  it and a file is there; and if every save that went to that path was a save of this URL that did
  not fail half-way, the file's content has the hash and the size that the index records.\<close>
theorem index_describes_files:
  "case fs_index (fst (save_run sha ops (NewFilesystem out, Map.empty))) u of
     None \<Rightarrow> GetLocalPath (fst (save_run sha ops (NewFilesystem out, Map.empty))) u = ([], False)
   | Some info \<Rightarrow>
       GetLocalPath (fst (save_run sha ops (NewFilesystem out, Map.empty))) u =
         (PathForURL (NewFilesystem out) u, True) \<and>
       snd (save_run sha ops (NewFilesystem out, Map.empty)) (fi_LocalPath info) \<noteq> None \<and>
       ((\<forall>op1\<in>set ops. op_target out op1 = PathForURL (NewFilesystem out) u \<longrightarrow> own_save u op1) \<longrightarrow>
        (\<exists>data. snd (save_run sha ops (NewFilesystem out, Map.empty)) (fi_LocalPath info) = Some data \<and>
           fi_SHA256 info = sha data \<and> fi_Size info = int (length data)))"
proof -
  let ?st = "\<lambda>ops. save_run sha ops (NewFilesystem out, Map.empty)"
  have out: "fs_outputDir (fst (?st ops)) = out" for ops by (simp add: NewFilesystem_def)
  have snoc: "?st (ops @ [op1]) = save_step sha op1 (?st ops)" for ops op1 by (simp add: save_run_def)
  have e: "index_entry_ok sha out (?st ops) u" for ops
  proof (induction ops rule: rev_induct)
    case (snoc op1 ops)
    then show ?case using save_step_entry [OF out] by (simp add: \<open>?st (ops @ [op1]) = _\<close>)
  qed (simp add: save_run_def index_entry_ok_def NewFilesystem_def)
  have c: "(\<forall>op1\<in>set ops. op_target out op1 = PathForURL (NewFilesystem out) u \<longrightarrow> own_save u op1) \<longrightarrow>
      index_content_ok sha (?st ops) u" for ops
  proof (induction ops rule: rev_induct)
    case (snoc op1 ops)
    then show ?case using save_step_content [OF out e] by (simp add: \<open>?st (ops @ [op1]) = _\<close>)
  qed (simp add: save_run_def index_content_ok_def NewFilesystem_def)
  show ?thesis
    using e [of ops] c [of ops]
    by (auto simp: index_entry_ok_def index_content_ok_def GetLocalPath_def split: option.split)
qed

theorem index_describes_files_witness:
  "\<exists>data. snd (save_run (\<lambda>x. x) [SvFile IoOk ''http://a/x.js'' ''code'' ''text/javascript'']
       (NewFilesystem ''output'', Map.empty)) (PathForURL (NewFilesystem ''output'') ''http://a/x.js'') = Some data"
proof -
  let ?ops = "[SvFile IoOk ''http://a/x.js'' ''code'' ''text/javascript'']"
  let ?st = "save_run (\<lambda>x. x) ?ops (NewFilesystem ''output'', Map.empty)"
  obtain info where info: "fs_index (fst ?st) ''http://a/x.js'' = Some info"
    "fi_LocalPath info = PathForURL (NewFilesystem ''output'') ''http://a/x.js''"
    by (simp add: save_run_def SaveFile_def write_below_def Let_def)
  show ?thesis
    using index_describes_files [of "\<lambda>x. x" ?ops "''output''" "''http://a/x.js''"] info by simp
qed

end
