(* ===== verification/CrawlUrls.thy ===== *)
theory CrawlUrls
  imports Config Glob UrlNormalize
begin

text \<open>
  What the crawler asks about a URL: \<open>internal/crawler/urls.go\<close>. The random choice of a user agent is
  an argument. The exclusion function of \<open>NewCrawler\<close> tests for the configured substrings.
\<close>

definition cfgUserAgent :: "config \<Rightarrow> nat \<Rightarrow> string" where
  "cfgUserAgent cfg r =
     (if cfg_RotateUserAgents cfg \<and> length (cfg_UserAgents cfg) > 0
      then cfg_UserAgents cfg ! (r mod length (cfg_UserAgents cfg)) else cfg_UserAgent cfg)"

definition getHost :: "string \<Rightarrow> string" where
  "getHost rawURL = (case url_parse rawURL of None \<Rightarrow> [] | Some u \<Rightarrow> hostname u)"

definition isValidURL :: "string \<Rightarrow> bool" where
  "isValidURL rawURL =
     (case url_parse rawURL of None \<Rightarrow> False | Some u \<Rightarrow> u_scheme u = ''http'' \<or> u_scheme u = ''https'')"

definition isHTMLPageURL :: "string \<Rightarrow> bool" where
  "isHTMLPageURL absURL =
     (case url_parse absURL of
        None \<Rightarrow> False
      | Some u \<Rightarrow>
          (let path = trim_suffix (u_path u) ''/'';
               lastPart = (case last_index_byte path CHR ''/'' of Some i \<Rightarrow> drop (i + 1) path | None \<Rightarrow> path)
           in if lastPart = [] then True
              else case last_index_byte lastPart CHR ''.'' of
                     None \<Rightarrow> True
                   | Some dot \<Rightarrow> to_lower (drop (dot + 1) lastPart) \<in>
                       {''html'', ''htm'', ''php'', ''asp'', ''aspx'', ''jsp'', ''jspx'', ''cfm''}))"

definition crawler_normalizeURL :: "config \<Rightarrow> string \<Rightarrow> string" where
  "crawler_normalizeURL cfg rawURL = (if cfg_NormalizeURLs cfg then NormalizeURL rawURL else rawURL)"

definition isAllowedDomain :: "config \<Rightarrow> string \<Rightarrow> bool" where
  "isAllowedDomain cfg rawURL =
     (if length (cfg_AllowedDomains cfg) = 0 then True
      else let host = getHost rawURL
           in list_ex (\<lambda>domain. host = domain \<or> has_suffix host (''.'' @ domain)) (cfg_AllowedDomains cfg))"

definition isExcluded :: "config \<Rightarrow> string \<Rightarrow> bool" where
  "isExcluded cfg rawURL = list_ex (contains rawURL) (cfg_ExcludePatterns cfg)"

fun match_any :: "string list \<Rightarrow> string \<Rightarrow> bool outcome" where
  "match_any [] rawURL = Returns False"
| "match_any (p # ps) rawURL =
     outcome_bind (URLGlobMatch p rawURL) (\<lambda>b. if b then Returns True else match_any ps rawURL)"

definition blockedPatternMatch :: "config \<Rightarrow> string \<Rightarrow> bool outcome" where
  "blockedPatternMatch cfg rawURL = match_any (cfg_BlockedURLPatterns cfg) rawURL"

definition isSameDomain :: "string \<Rightarrow> string \<Rightarrow> bool" where
  "isSameDomain original target = (if original = [] then True else getHost original = getHost target)"

text \<open>\<open>seeds\<close> is the copy the crawler keeps, not the configured list.\<close>

definition isSeedPage :: "config \<Rightarrow> string list \<Rightarrow> string \<Rightarrow> bool" where
  "isSeedPage cfg seeds urlStr =
     (if length seeds = 0 then False
      else let target = crawler_normalizeURL cfg (NormalizeAndClean urlStr)
           in list_ex (\<lambda>s. crawler_normalizeURL cfg (NormalizeAndClean s) = target) seeds)"

text \<open>A string that is a valid URL for the crawler names a host or not, but its host has no slash.\<close>

lemma getHost_no_slash: "CHR ''/'' \<notin> set (getHost raw)"
  using hostname_no_slash by (auto simp: getHost_def split: option.splits)

lemma isSeedPage_iff:
  "isSeedPage cfg seeds u \<longleftrightarrow>
     (\<exists>s\<in>set seeds. crawler_normalizeURL cfg (NormalizeAndClean s) = crawler_normalizeURL cfg (NormalizeAndClean u))"
  by (auto simp: isSeedPage_def list_ex_iff)

end
