(* ===== verification/Crawler.thy ===== *)
theory Crawler
  imports CrawlUrls Robots CircuitBreaker Lru UrlQueue
begin

text \<open>
  The crawl loop: the dispatcher of \<open>Start\<close> (start.go), the page and asset goroutines it spawns (the
  parts of crawl_page.go, crawl_asset.go and do_crawl.go that touch shared state), queueing.go,
  semaphore.go, and \<open>Pause\<close>, \<open>Resume\<close> and \<open>Stop\<close>. It composes the models of the queue, the exact
  dedup set, the robots parser and the circuit breakers.

  The dispatcher is cut where it can block or where another goroutine can change what it reads next:
  \<open>dpc\<close> is its program counter. A goroutine is a task; a page task offers its links one at a time, each
  in the steps check, admit and push, because \<open>shouldQueue\<close> holds only a read lock. The relation
  \<open>cstep\<close> interleaves all of them. The Bloom filter (a third-party library), the answers to robots.txt
  requests and the parser of durations are parameters, collected in \<open>crawl_env\<close>; so is the time of
  a call. Browser, storage and logging do not touch the state modelled here.
\<close>

section \<open>State\<close>

record 'b crawl_env =
  bl_test :: "'b \<Rightarrow> string \<Rightarrow> bool"
  bl_add :: "'b \<Rightarrow> string \<Rightarrow> 'b"
  env_parseDuration :: "string \<Rightarrow> int option"
  env_robots :: "string \<Rightarrow> http_answer"

datatype dpc =
    AtTop | PauseLoop | LimitCheck | PopPoint | GotItem string int
  | PopFailed | PopWait
  | HostWait string int string | RateWait string int string int | SemWait string int string
  | AssetWait string int string
  | LoopExited | Crashed dpc

datatype phase = Spawned | Running | LinkChecked string | LinkAdmitted string

record task =
  tk_url :: string
  tk_depth :: int
  tk_host :: string
  tk_asset :: bool
  tk_phase :: phase

text \<open>\<open>cw_log\<close> is not in the code: it records every URL a goroutine was spawned for.\<close>

record 'b crawler =
  cw_cfg :: config
  cw_queue :: pqueue
  cw_exact :: lru_set
  cw_bloom :: 'b
  cw_robots :: robots_parser
  cw_breakers :: host_breakers
  cw_hostCount :: "string \<Rightarrow> int"
  cw_hostSem :: "string \<Rightarrow> nat"
  cw_sem :: nat
  cw_assetSem :: nat
  cw_total :: int
  cw_active :: int
  cw_wg :: int
  cw_paused :: bool
  cw_resume :: bool
  cw_cancelled :: bool
  cw_shutdown :: bool
  cw_pc :: dpc
  cw_tasks :: "task list"
  cw_log :: "task list"

text \<open>The capacities of the channels that \<open>NewCrawler\<close> and \<open>getHostSem\<close> make.\<close>

definition maxConcurrent :: "config \<Rightarrow> int" where
  "maxConcurrent cfg = (if cfg_MaxConcurrentPages cfg < 1 \<or> cfg_Interactive cfg then 1 else cfg_MaxConcurrentPages cfg)"

definition assetConcurrency :: "config \<Rightarrow> int" where
  "assetConcurrency cfg = (if cfg_AssetConcurrency cfg < 4 then 16 else cfg_AssetConcurrency cfg)"

definition hostSemCap :: nat where "hostSemCap = 2"

definition maxQueueSize :: nat where "maxQueueSize = 100000"

section \<open>queueing.go\<close>

text \<open>The tests of \<open>shouldQueue\<close>, in their order, and the two insertions that follow them.\<close>

definition limit_reached :: "'b crawler \<Rightarrow> bool" where
  "limit_reached c \<longleftrightarrow> cfg_MaxTotalURLs (cw_cfg c) > 0 \<and> cw_total c \<ge> cfg_MaxTotalURLs (cw_cfg c)"

definition queue_guard :: "'b crawl_env \<Rightarrow> 'b crawler \<Rightarrow> string \<Rightarrow> bool" where
  "queue_guard env c normalized =
     (if \<not> isValidURL normalized then False
      else if \<not> isAllowedDomain (cw_cfg c) normalized then False
      else if isExcluded (cw_cfg c) normalized then False
      else if limit_reached c then False
      else if Size (cw_queue c) \<ge> maxQueueSize then False
      else if lruContains (cw_exact c) normalized then False
      else if bl_test env (cw_bloom c) normalized then False
      else True)"

definition queue_admit :: "'b crawl_env \<Rightarrow> 'b crawler \<Rightarrow> string \<Rightarrow> 'b crawler" where
  "queue_admit env c normalized =
     c\<lparr>cw_bloom := bl_add env (cw_bloom c) normalized, cw_exact := lruAdd (cw_exact c) normalized\<rparr>"

definition shouldQueue :: "'b crawl_env \<Rightarrow> 'b crawler \<Rightarrow> string \<Rightarrow> bool \<times> 'b crawler" where
  "shouldQueue env c normalized =
     (if queue_guard env c normalized then (True, queue_admit env c normalized) else (False, c))"

definition push :: "'b crawler \<Rightarrow> string \<Rightarrow> int \<Rightarrow> 'b crawler" where
  "push c url depth = c\<lparr>cw_queue := snd (PushURL (cw_queue c) url depth)\<rparr>"

section \<open>start.go: seeding\<close>

definition clean_url :: "config \<Rightarrow> string \<Rightarrow> string" where
  "clean_url cfg raw = crawler_normalizeURL cfg (NormalizeAndClean raw)"

definition seed_url :: "'b crawl_env \<Rightarrow> string \<Rightarrow> 'b crawler \<Rightarrow> 'b crawler" where
  "seed_url env normalized c = push (queue_admit env c normalized) normalized 0"

definition seed_sitemap :: "'b crawl_env \<Rightarrow> string \<Rightarrow> 'b crawler \<Rightarrow> 'b crawler" where
  "seed_sitemap env sitemapURL c =
     (let sNorm = clean_url (cw_cfg c) sitemapURL
      in if isValidURL sNorm \<and> \<not> bl_test env (cw_bloom c) sNorm then seed_url env sNorm c else c)"

text \<open>\<open>sitemaps\<close> answers \<open>GetSitemapURLs\<close>, which fetches over the network.\<close>

definition seed_one :: "'b crawl_env \<Rightarrow> (string \<Rightarrow> string list) \<Rightarrow> string \<Rightarrow> 'b crawler \<Rightarrow> 'b crawler" where
  "seed_one env sitemaps seed c =
     (let normalized = clean_url (cw_cfg c) seed
      in if \<not> isValidURL normalized then c
         else if bl_test env (cw_bloom c) normalized then c
         else let c1 = seed_url env normalized c
              in if cfg_RespectRobots (cw_cfg c) then fold (seed_sitemap env) (sitemaps normalized) c1 else c1)"

text \<open>
  A loaded checkpoint: the queue, the visited set with its keys in the order the runtime ranges over
  them, and the counts per host.
\<close>

type_synonym checkpoint = "url_item list \<times> (string \<rightharpoonup> bool) \<times> string list \<times> (string \<Rightarrow> int)"

definition resume_from :: "'b crawl_env \<Rightarrow> checkpoint \<Rightarrow> 'b crawler \<Rightarrow> 'b crawler" where
  "resume_from env cp c =
     (case cp of (items, visited, keys, counts) \<Rightarrow>
       fold (\<lambda>u c1. c1\<lparr>cw_exact := lruAdd (cw_exact c1) u, cw_bloom := bl_add env (cw_bloom c1) u\<rparr>) keys
         (c\<lparr>cw_queue := LoadFromCheckpoint (cw_queue c) items visited, cw_hostCount := counts\<rparr>))"

text \<open>The start of \<open>Start\<close>, from where it resets the pause, up to the test for an empty queue.\<close>

definition seed_crawl :: "'b crawl_env \<Rightarrow> (string \<Rightarrow> string list) \<Rightarrow> checkpoint option \<Rightarrow> string list \<Rightarrow> 'b crawler \<Rightarrow>
    'b crawler" where
  "seed_crawl env sitemaps cp seeds c =
     (let c1 = c\<lparr>cw_paused := False, cw_resume := False\<rparr>;
          c2 = (if cfg_CheckpointFile (cw_cfg c1) \<noteq> []
                then (case cp of Some data \<Rightarrow> resume_from env data c1 | None \<Rightarrow> c1) else c1)
      in fold (seed_one env sitemaps) seeds c2)"

text \<open>The left result is the error.\<close>

definition start_crawl :: "'b crawl_env \<Rightarrow> (string \<Rightarrow> string list) \<Rightarrow> checkpoint option \<Rightarrow> string list \<Rightarrow> 'b crawler \<Rightarrow>
    string + 'b crawler" where
  "start_crawl env sitemaps cp seeds c =
     (let c3 = seed_crawl env sitemaps cp seeds c
      in if Size (cw_queue c3) = 0 then Inl ''no valid http/https seed URLs provided''
         else Inr (c3\<lparr>cw_pc := AtTop\<rparr>))"

section \<open>start.go: the dispatch loop\<close>

definition d_top :: "'b crawler \<Rightarrow> 'b crawler" where
  "d_top c = (if cw_cancelled c then c\<lparr>cw_pc := LoopExited\<rparr> else c\<lparr>cw_pc := PauseLoop\<rparr>)"

text \<open>The test of the pause loop; while paused the dispatcher waits for \<open>d_resume\<close> or \<open>d_abort\<close>.\<close>

definition d_unpaused :: "'b crawler \<Rightarrow> 'b crawler" where
  "d_unpaused c = c\<lparr>cw_pc := LimitCheck\<rparr>"

definition d_resume :: "'b crawler \<Rightarrow> 'b crawler" where
  "d_resume c = c\<lparr>cw_resume := False\<rparr>"

definition d_abort :: "'b crawler \<Rightarrow> 'b crawler" where
  "d_abort c = c\<lparr>cw_pc := LoopExited\<rparr>"

definition d_limit :: "'b crawler \<Rightarrow> 'b crawler" where
  "d_limit c = (if limit_reached c then c\<lparr>cw_pc := LoopExited\<rparr> else c\<lparr>cw_pc := PopPoint\<rparr>)"

definition d_pop :: "'b crawler \<Rightarrow> 'b crawler outcome" where
  "d_pop c = outcome_bind (PopURL (cw_queue c)) (\<lambda>((item, ok), q).
     Returns (c\<lparr>cw_queue := q, cw_pc := (if ok then GotItem (itemURL item) (itemDepth item) else PopFailed)\<rparr>))"

text \<open>After a failed pop the number of active pages is read, which is a step of its own.\<close>

definition d_idle :: "'b crawler \<Rightarrow> 'b crawler" where
  "d_idle c = (if cw_active c = 0 then c\<lparr>cw_pc := LoopExited\<rparr> else c\<lparr>cw_pc := PopWait\<rparr>)"

definition d_again :: "'b crawler \<Rightarrow> 'b crawler" where
  "d_again c = c\<lparr>cw_pc := AtTop\<rparr>"

text \<open>\<open>Allow\<close> of the host's breaker.\<close>

definition ask_breaker :: "int \<Rightarrow> string \<Rightarrow> 'b crawler \<Rightarrow> (bool \<times> 'b crawler) outcome" where
  "ask_breaker now host c =
     outcome_bind (hcb_call now CAllow (cw_breakers c) host)
       (\<lambda>(r, h). Returns (r = RAllow True, c\<lparr>cw_breakers := h\<rparr>))"

text \<open>From the depth test to the first place where the dispatcher blocks.\<close>

definition d_item :: "int \<Rightarrow> string \<Rightarrow> int \<Rightarrow> 'b crawler \<Rightarrow> 'b crawler outcome" where
  "d_item now url depth c =
     (if depth > cfg_MaxDepth (cw_cfg c) then Returns (c\<lparr>cw_pc := AtTop\<rparr>)
      else let host = getHost url
      in if cfg_MaxURLsPerHost (cw_cfg c) > 0 \<and> cw_hostCount c host \<ge> cfg_MaxURLsPerHost (cw_cfg c)
         then Returns (c\<lparr>cw_pc := AtTop\<rparr>)
         else let c1 = c\<lparr>cw_hostCount := (cw_hostCount c)(host := cw_hostCount c host + 1)\<rparr>
         in if \<not> isHTMLPageURL url then
              outcome_bind (blockedPatternMatch (cw_cfg c1) url) (\<lambda>blocked.
                if blocked then Returns (c1\<lparr>cw_pc := AtTop\<rparr>)
                else outcome_bind (ask_breaker now host c1) (\<lambda>(ok, c2).
                  if \<not> ok then Returns (c2\<lparr>cw_pc := AtTop\<rparr>)
                  else Returns (c2\<lparr>cw_wg := cw_wg c2 + 1, cw_pc := AssetWait url depth host\<rparr>)))
            else Returns (c1\<lparr>cw_pc := HostWait url depth host\<rparr>))"

definition new_task :: "string \<Rightarrow> int \<Rightarrow> string \<Rightarrow> bool \<Rightarrow> task" where
  "new_task url depth host asset =
     \<lparr>tk_url = url, tk_depth = depth, tk_host = host, tk_asset = asset, tk_phase = Spawned\<rparr>"

definition d_spawn_asset :: "string \<Rightarrow> int \<Rightarrow> string \<Rightarrow> 'b crawler \<Rightarrow> 'b crawler" where
  "d_spawn_asset url depth host c =
     c\<lparr>cw_assetSem := cw_assetSem c + 1, cw_active := cw_active c + 1,
       cw_tasks := cw_tasks c @ [new_task url depth host True], cw_log := cw_log c @ [new_task url depth host True],
       cw_pc := AtTop\<rparr>"

definition d_asset_abort :: "'b crawler \<Rightarrow> 'b crawler" where
  "d_asset_abort c = c\<lparr>cw_wg := cw_wg c - 1, cw_pc := LoopExited\<rparr>"

definition release_host :: "string \<Rightarrow> 'b crawler \<Rightarrow> 'b crawler" where
  "release_host host c = c\<lparr>cw_hostSem := (cw_hostSem c)(host := cw_hostSem c host - 1)\<rparr>"

text \<open>The slot of the host is taken, then robots.txt is consulted.\<close>

definition d_host :: "'b crawl_env \<Rightarrow> int \<Rightarrow> nat \<Rightarrow> string \<Rightarrow> int \<Rightarrow> string \<Rightarrow> 'b crawler \<Rightarrow> 'b crawler" where
  "d_host env now r url depth host c =
     (let c1 = c\<lparr>cw_hostSem := (cw_hostSem c)(host := cw_hostSem c host + 1)\<rparr>
      in case CanCrawl (env_parseDuration env) (env_robots env) now (cw_robots c1) url
                (cfgUserAgent (cw_cfg c1) r) (cfg_RespectRobots (cw_cfg c1)) (cfg_CrawlDelay (cw_cfg c1)) of
           ((canCrawl, delay), rp) \<Rightarrow>
             let c2 = c1\<lparr>cw_robots := rp\<rparr>
             in if \<not> canCrawl then (release_host host c2)\<lparr>cw_pc := AtTop\<rparr>
                else c2\<lparr>cw_pc := RateWait url depth host delay\<rparr>)"

text \<open>\<open>allowed\<close> is the result of the rate limiter's \<open>Wait\<close>, which fails when the context is done.\<close>

definition d_rate :: "int \<Rightarrow> bool \<Rightarrow> string \<Rightarrow> int \<Rightarrow> string \<Rightarrow> 'b crawler \<Rightarrow> 'b crawler outcome" where
  "d_rate now allowed url depth host c =
     (if \<not> allowed then Returns ((release_host host c)\<lparr>cw_pc := AtTop\<rparr>)
      else outcome_bind (ask_breaker now host c) (\<lambda>(ok, c1).
        if \<not> ok then Returns ((release_host host c1)\<lparr>cw_pc := AtTop\<rparr>)
        else Returns (c1\<lparr>cw_wg := cw_wg c1 + 1, cw_pc := SemWait url depth host\<rparr>)))"

definition d_spawn_page :: "string \<Rightarrow> int \<Rightarrow> string \<Rightarrow> 'b crawler \<Rightarrow> 'b crawler" where
  "d_spawn_page url depth host c =
     c\<lparr>cw_sem := cw_sem c + 1, cw_active := cw_active c + 1,
       cw_tasks := cw_tasks c @ [new_task url depth host False], cw_log := cw_log c @ [new_task url depth host False],
       cw_pc := AtTop\<rparr>"

definition d_page_abort :: "string \<Rightarrow> 'b crawler \<Rightarrow> 'b crawler" where
  "d_page_abort host c = (release_host host c)\<lparr>cw_wg := cw_wg c - 1, cw_pc := LoopExited\<rparr>"

section \<open>The goroutines\<close>

definition set_phase :: "nat \<Rightarrow> phase \<Rightarrow> 'b crawler \<Rightarrow> 'b crawler" where
  "set_phase i p c = c\<lparr>cw_tasks := (cw_tasks c)[i := (cw_tasks c ! i)\<lparr>tk_phase := p\<rparr>]\<rparr>"

text \<open>The first statement of \<open>crawlPage\<close> and of \<open>crawlAsset\<close>.\<close>

definition t_start :: "nat \<Rightarrow> 'b crawler \<Rightarrow> 'b crawler" where
  "t_start i c = (set_phase i Running c)\<lparr>cw_total := cw_total c + 1\<rparr>"

text \<open>A link of the page: the tests of \<open>shouldQueue\<close>, its insertions, the push one level deeper.\<close>

definition t_check :: "'b crawl_env \<Rightarrow> nat \<Rightarrow> string \<Rightarrow> 'b crawler \<Rightarrow> 'b crawler" where
  "t_check env i link c =
     (let normalized = clean_url (cw_cfg c) link
      in if queue_guard env c normalized then set_phase i (LinkChecked normalized) c else c)"

definition t_admit :: "'b crawl_env \<Rightarrow> nat \<Rightarrow> string \<Rightarrow> 'b crawler \<Rightarrow> 'b crawler" where
  "t_admit env i normalized c = set_phase i (LinkAdmitted normalized) (queue_admit env c normalized)"

definition t_push :: "nat \<Rightarrow> string \<Rightarrow> 'b crawler \<Rightarrow> 'b crawler" where
  "t_push i normalized c = push (set_phase i Running c) normalized (tk_depth (cw_tasks c ! i) + 1)"

text \<open>\<open>crawlPage\<close> tells the breaker of the host at its end; \<open>crawlAsset\<close> does not.\<close>

definition t_report :: "int \<Rightarrow> cb_call \<Rightarrow> nat \<Rightarrow> 'b crawler \<Rightarrow> 'b crawler outcome" where
  "t_report now call i c =
     outcome_bind (hcb_call now call (cw_breakers c) (getHost (tk_url (cw_tasks c ! i))))
       (\<lambda>(r, h). Returns (c\<lparr>cw_breakers := h\<rparr>))"

definition remove_at :: "nat \<Rightarrow> 'a list \<Rightarrow> 'a list" where
  "remove_at i xs = take i xs @ drop (Suc i) xs"

text \<open>The deferred calls of the goroutine, run when it returns or panics.\<close>

definition t_finish :: "nat \<Rightarrow> 'b crawler \<Rightarrow> 'b crawler" where
  "t_finish i c =
     (let t = cw_tasks c ! i;
          c1 = (if tk_asset t then c\<lparr>cw_assetSem := cw_assetSem c - 1\<rparr>
                else (release_host (tk_host t) c)\<lparr>cw_sem := cw_sem c - 1\<rparr>)
      in c1\<lparr>cw_active := cw_active c1 - 1, cw_wg := cw_wg c1 - 1, cw_tasks := remove_at i (cw_tasks c1)\<rparr>)"

section \<open>status.go and crawler.go: control\<close>

definition PauseCrawl :: "'b crawler \<Rightarrow> 'b crawler" where
  "PauseCrawl c = (if \<not> cw_paused c then c\<lparr>cw_paused := True\<rparr> else c)"

definition ResumeCrawl :: "'b crawler \<Rightarrow> 'b crawler" where
  "ResumeCrawl c = (if cw_paused c then c\<lparr>cw_paused := False, cw_resume := True\<rparr> else c)"

definition StopCrawl :: "'b crawler \<Rightarrow> 'b crawler" where
  "StopCrawl c = c\<lparr>cw_shutdown := True, cw_cancelled := True\<rparr>"

section \<open>One step of the crawl\<close>

inductive cstep :: "'b crawl_env \<Rightarrow> 'b crawler \<Rightarrow> 'b crawler \<Rightarrow> bool" for env where
  top: "cw_pc c = AtTop \<Longrightarrow> cstep env c (d_top c)"
| unpaused: "cw_pc c = PauseLoop \<Longrightarrow> \<not> cw_paused c \<Longrightarrow> cstep env c (d_unpaused c)"
| resumed: "cw_pc c = PauseLoop \<Longrightarrow> cw_paused c \<Longrightarrow> cw_resume c \<Longrightarrow> cstep env c (d_resume c)"
| pause_abort: "cw_pc c = PauseLoop \<Longrightarrow> cw_paused c \<Longrightarrow> cw_cancelled c \<Longrightarrow> cstep env c (d_abort c)"
| limit: "cw_pc c = LimitCheck \<Longrightarrow> cstep env c (d_limit c)"
| pop: "cw_pc c = PopPoint \<Longrightarrow> d_pop c = Returns c' \<Longrightarrow> cstep env c c'"
| pop_panic: "cw_pc c = PopPoint \<Longrightarrow> d_pop c = Panic \<Longrightarrow> cstep env c (c\<lparr>cw_pc := Crashed (cw_pc c)\<rparr>)"
| idle: "cw_pc c = PopFailed \<Longrightarrow> cstep env c (d_idle c)"
| again: "cw_pc c = PopWait \<Longrightarrow> cstep env c (d_again c)"
| idle_abort: "cw_pc c = PopWait \<Longrightarrow> cw_cancelled c \<Longrightarrow> cstep env c (d_abort c)"
| item: "cw_pc c = GotItem url depth \<Longrightarrow> d_item now url depth c = Returns c' \<Longrightarrow> cstep env c c'"
| item_panic: "cw_pc c = GotItem url depth \<Longrightarrow> d_item now url depth c = Panic \<Longrightarrow> cstep env c (c\<lparr>cw_pc := Crashed (cw_pc c)\<rparr>)"
| asset: "cw_pc c = AssetWait url depth host \<Longrightarrow> int (cw_assetSem c) < assetConcurrency (cw_cfg c) \<Longrightarrow>
    cstep env c (d_spawn_asset url depth host c)"
| asset_abort: "cw_pc c = AssetWait url depth host \<Longrightarrow> cw_cancelled c \<Longrightarrow> cstep env c (d_asset_abort c)"
| host: "cw_pc c = HostWait url depth host \<Longrightarrow> cw_hostSem c host < hostSemCap \<Longrightarrow>
    cstep env c (d_host env now r url depth host c)"
| host_abort: "cw_pc c = HostWait url depth host \<Longrightarrow> cw_cancelled c \<Longrightarrow> cstep env c (d_again c)"
| rate: "cw_pc c = RateWait url depth host delay \<Longrightarrow> allowed \<or> cw_cancelled c \<Longrightarrow>
    d_rate now allowed url depth host c = Returns c' \<Longrightarrow> cstep env c c'"
| rate_panic: "cw_pc c = RateWait url depth host delay \<Longrightarrow> d_rate now allowed url depth host c = Panic \<Longrightarrow>
    cstep env c (c\<lparr>cw_pc := Crashed (cw_pc c)\<rparr>)"
| page: "cw_pc c = SemWait url depth host \<Longrightarrow> int (cw_sem c) < maxConcurrent (cw_cfg c) \<Longrightarrow>
    cstep env c (d_spawn_page url depth host c)"
| page_abort: "cw_pc c = SemWait url depth host \<Longrightarrow> cw_cancelled c \<Longrightarrow> cstep env c (d_page_abort host c)"
| start: "i < length (cw_tasks c) \<Longrightarrow> tk_phase (cw_tasks c ! i) = Spawned \<Longrightarrow> cstep env c (t_start i c)"
| link_check: "i < length (cw_tasks c) \<Longrightarrow> tk_phase (cw_tasks c ! i) = Running \<Longrightarrow> \<not> tk_asset (cw_tasks c ! i) \<Longrightarrow>
    cstep env c (t_check env i link c)"
| link_admit: "i < length (cw_tasks c) \<Longrightarrow> tk_phase (cw_tasks c ! i) = LinkChecked u \<Longrightarrow> cstep env c (t_admit env i u c)"
| link_push: "i < length (cw_tasks c) \<Longrightarrow> tk_phase (cw_tasks c ! i) = LinkAdmitted u \<Longrightarrow> cstep env c (t_push i u c)"
| report: "i < length (cw_tasks c) \<Longrightarrow> tk_phase (cw_tasks c ! i) = Running \<Longrightarrow> \<not> tk_asset (cw_tasks c ! i) \<Longrightarrow>
    call = CSuccess \<or> call = CFailure \<Longrightarrow> t_report now call i c = Returns c' \<Longrightarrow> cstep env c c'"
| finish: "i < length (cw_tasks c) \<Longrightarrow> tk_phase (cw_tasks c ! i) \<noteq> Spawned \<Longrightarrow> cstep env c (t_finish i c)"
| pause: "cstep env c (PauseCrawl c)"
| resume: "cstep env c (ResumeCrawl c)"
| stop: "cstep env c (StopCrawl c)"

section \<open>Lemmas: what the steps change\<close>

lemma length_filter_update:
  "i < length xs \<Longrightarrow> P y = P (xs ! i) \<Longrightarrow> length (filter P (xs[i := y])) = length (filter P xs)"
proof (induction xs arbitrary: i)
  case (Cons x xs)
  then show ?case by (cases i) auto
qed simp

lemma length_filter_change:
  "i < length xs \<Longrightarrow> P (xs ! i) \<Longrightarrow> \<not> P y \<Longrightarrow> length (filter P xs) = Suc (length (filter P (xs[i := y])))"
proof (induction xs arbitrary: i)
  case (Cons x xs)
  then show ?case by (cases i) auto
qed simp

lemma remove_at_Cons [simp]: "remove_at 0 (x # xs) = xs" "remove_at (Suc i) (x # xs) = x # remove_at i xs"
  by (simp_all add: remove_at_def)

lemma length_filter_remove_at:
  "i < length xs \<Longrightarrow>
     length (filter P xs) = length (filter P (remove_at i xs)) + (if P (xs ! i) then 1 else 0)"
proof (induction xs arbitrary: i)
  case (Cons x xs)
  then show ?case by (cases i) auto
qed simp

lemma length_remove_at: "i < length xs \<Longrightarrow> length xs = Suc (length (remove_at i xs))"
  by (simp add: remove_at_def)

lemma set_remove_at: "x \<in> set (remove_at i xs) \<Longrightarrow> x \<in> set xs"
  by (auto simp: remove_at_def dest: in_set_takeD in_set_dropD)

text \<open>The slots and the wait-group entry that the dispatcher itself holds at a program counter.\<close>

fun held_host :: "dpc \<Rightarrow> string \<Rightarrow> nat" where
  "held_host (RateWait u d h delay) h' = (if h' = h then 1 else 0)"
| "held_host (SemWait u d h) h' = (if h' = h then 1 else 0)"
| "held_host (Crashed pc) h' = held_host pc h'"
| "held_host _ h' = 0"

fun held_wg :: "dpc \<Rightarrow> int" where
  "held_wg (SemWait u d h) = 1"
| "held_wg (AssetWait u d h) = 1"
| "held_wg (Crashed pc) = held_wg pc"
| "held_wg _ = 0"

lemma ask_breaker_frame:
  "ask_breaker now host c = Returns (ok, c') \<Longrightarrow> \<exists>br. c' = c\<lparr>cw_breakers := br\<rparr>"
  by (auto simp: ask_breaker_def outcome_bind_Returns_iff)

lemma d_pop_frame:
  assumes "d_pop c = Returns c'"
  obtains (got) i q where "PopURL (cw_queue c) = Returns ((i, True), q)"
      "c' = c\<lparr>cw_queue := q, cw_pc := GotItem (itemURL i) (itemDepth i)\<rparr>"
    | (none) i q where "PopURL (cw_queue c) = Returns ((i, False), q)" "c' = c\<lparr>cw_queue := q, cw_pc := PopFailed\<rparr>"
proof -
  obtain i ok q where p: "PopURL (cw_queue c) = Returns ((i, ok), q)"
    "c' = c\<lparr>cw_queue := q, cw_pc := (if ok then GotItem (itemURL i) (itemDepth i) else PopFailed)\<rparr>"
    using assms by (auto simp: d_pop_def outcome_bind_Returns_iff)
  then show thesis using got none by (cases ok) auto
qed

text \<open>
  What becomes of an item: it is dropped, with or without being counted, or it waits for a slot; then
  its depth is within the limit and the host was counted below its limit.
\<close>

lemma d_item_frame:
  assumes "d_item now url depth c = Returns c'"
  obtains (dropped) br where "c' = c\<lparr>cw_breakers := br, cw_pc := AtTop\<rparr>"
    | (counted) br pc w where
        "c' = c\<lparr>cw_hostCount := (cw_hostCount c)(getHost url := cw_hostCount c (getHost url) + 1),
              cw_breakers := br, cw_wg := cw_wg c + w, cw_pc := pc\<rparr>"
        "depth \<le> cfg_MaxDepth (cw_cfg c)"
        "cfg_MaxURLsPerHost (cw_cfg c) > 0 \<Longrightarrow> cw_hostCount c (getHost url) < cfg_MaxURLsPerHost (cw_cfg c)"
        "(pc = AtTop \<and> w = 0) \<or> (pc = HostWait url depth (getHost url) \<and> w = 0) \<or> (pc = AssetWait url depth (getHost url) \<and> w = 1)"
proof (cases "depth > cfg_MaxDepth (cw_cfg c) \<or>
    (cfg_MaxURLsPerHost (cw_cfg c) > 0 \<and> cw_hostCount c (getHost url) \<ge> cfg_MaxURLsPerHost (cw_cfg c))")
  case True
  then have "c' = c\<lparr>cw_breakers := cw_breakers c, cw_pc := AtTop\<rparr>"
    using assms by (auto simp: d_item_def Let_def split: if_splits)
  then show thesis by (rule dropped)
next
  case False
  let ?h = "getHost url"
  let ?c1 = "c\<lparr>cw_hostCount := (cw_hostCount c)(?h := cw_hostCount c ?h + 1)\<rparr>"
  have ok: "depth \<le> cfg_MaxDepth (cw_cfg c)"
    "cfg_MaxURLsPerHost (cw_cfg c) > 0 \<Longrightarrow> cw_hostCount c ?h < cfg_MaxURLsPerHost (cw_cfg c)" using False by auto
  have guards: "(depth > cfg_MaxDepth (cw_cfg c)) = False"
    "(cfg_MaxURLsPerHost (cw_cfg c) > 0 \<and> cw_hostCount c ?h \<ge> cfg_MaxURLsPerHost (cw_cfg c)) = False" using False by auto
  note assms' = assms [unfolded d_item_def Let_def guards if_False]
  show thesis
  proof (cases "isHTMLPageURL url")
    case True
    then have "c' = c\<lparr>cw_hostCount := (cw_hostCount c)(?h := cw_hostCount c ?h + 1), cw_breakers := cw_breakers c,
        cw_wg := cw_wg c + 0, cw_pc := HostWait url depth ?h\<rparr>"
      using assms' by simp
    then show thesis by (rule counted) (use ok in auto)
  next
    case asset: False
    then obtain blocked where b: "blockedPatternMatch (cw_cfg c) url = Returns blocked"
      and r: "(if blocked then Returns (?c1\<lparr>cw_pc := AtTop\<rparr>)
           else outcome_bind (ask_breaker now ?h ?c1) (\<lambda>(ok, c2).
                  if \<not> ok then Returns (c2\<lparr>cw_pc := AtTop\<rparr>)
                  else Returns (c2\<lparr>cw_wg := cw_wg c2 + 1, cw_pc := AssetWait url depth ?h\<rparr>))) = Returns c'"
      using assms' by (auto simp: outcome_bind_Returns_iff)
    show thesis
    proof (cases blocked)
      case True
      then have "c' = c\<lparr>cw_hostCount := (cw_hostCount c)(?h := cw_hostCount c ?h + 1), cw_breakers := cw_breakers c,
          cw_wg := cw_wg c + 0, cw_pc := AtTop\<rparr>" using r by simp
      then show thesis by (rule counted) (use ok in auto)
    next
      case False
      then obtain a c2 where a: "ask_breaker now ?h ?c1 = Returns (a, c2)"
        "c' = (if \<not> a then c2\<lparr>cw_pc := AtTop\<rparr> else c2\<lparr>cw_wg := cw_wg c2 + 1, cw_pc := AssetWait url depth ?h\<rparr>)"
        using r by (auto simp: outcome_bind_Returns_iff split: if_splits)
      obtain br where "c2 = ?c1\<lparr>cw_breakers := br\<rparr>" using ask_breaker_frame [OF a(1)] by blast
      then have "c' = c\<lparr>cw_hostCount := (cw_hostCount c)(?h := cw_hostCount c ?h + 1), cw_breakers := br,
          cw_wg := cw_wg c + (if a then 1 else 0), cw_pc := (if a then AssetWait url depth ?h else AtTop)\<rparr>"
        using a(2) by simp
      then show thesis by (rule counted) (use ok in auto)
    qed
  qed
qed

lemma d_host_frame:
  obtains (refused) rp where
      "d_host env now r url depth host c =
         (release_host host (c\<lparr>cw_hostSem := (cw_hostSem c)(host := cw_hostSem c host + 1)\<rparr>))\<lparr>cw_robots := rp, cw_pc := AtTop\<rparr>"
    | (admitted) rp delay where
      "d_host env now r url depth host c =
         c\<lparr>cw_hostSem := (cw_hostSem c)(host := cw_hostSem c host + 1), cw_robots := rp,
           cw_pc := RateWait url depth host delay\<rparr>"
proof -
  obtain can delay rp where cc: "CanCrawl (env_parseDuration env) (env_robots env) now (cw_robots c) url
      (cfgUserAgent (cw_cfg c) r) (cfg_RespectRobots (cw_cfg c)) (cfg_CrawlDelay (cw_cfg c)) = ((can, delay), rp)"
    by (metis surj_pair)
  show thesis
  proof (cases can)
    case True
    show thesis by (rule admitted [where rp = rp and delay = delay]) (simp add: d_host_def Let_def cc True)
  next
    case False
    show thesis by (rule refused [of rp]) (simp add: d_host_def Let_def cc False release_host_def)
  qed
qed

lemma d_rate_frame:
  assumes "d_rate now allowed url depth host c = Returns c'"
  obtains (refused) br where "c' = (release_host host c)\<lparr>cw_breakers := br, cw_pc := AtTop\<rparr>"
    | (admitted) br where "c' = c\<lparr>cw_breakers := br, cw_wg := cw_wg c + 1, cw_pc := SemWait url depth host\<rparr>"
proof (cases allowed)
  case False
  then have "c' = (release_host host c)\<lparr>cw_breakers := cw_breakers c, cw_pc := AtTop\<rparr>"
    using assms by (auto simp: d_rate_def release_host_def)
  then show thesis by (rule refused)
next
  case True
  then obtain a c1 where a: "ask_breaker now host c = Returns (a, c1)"
    "c' = (if \<not> a then (release_host host c1)\<lparr>cw_pc := AtTop\<rparr> else c1\<lparr>cw_wg := cw_wg c1 + 1, cw_pc := SemWait url depth host\<rparr>)"
    using assms by (auto simp: d_rate_def outcome_bind_Returns_iff split: if_splits)
  obtain br where "c1 = c\<lparr>cw_breakers := br\<rparr>" using ask_breaker_frame [OF a(1)] by blast
  then show thesis using a(2) refused [of br] admitted [of br] by (cases a) (auto simp: release_host_def)
qed

lemma t_report_frame: "t_report now call i c = Returns c' \<Longrightarrow> \<exists>br. c' = c\<lparr>cw_breakers := br\<rparr>"
  by (auto simp: t_report_def outcome_bind_Returns_iff)

section \<open>The invariant of the slots\<close>

definition slots_ok :: "'b crawler \<Rightarrow> bool" where
  "slots_ok c \<longleftrightarrow>
     cw_sem c = length (filter (\<lambda>t. \<not> tk_asset t) (cw_tasks c)) \<and>
     cw_assetSem c = length (filter tk_asset (cw_tasks c)) \<and>
     (\<forall>h. cw_hostSem c h = length (filter (\<lambda>t. \<not> tk_asset t \<and> tk_host t = h) (cw_tasks c)) + held_host (cw_pc c) h) \<and>
     cw_active c = int (length (cw_tasks c)) \<and>
     cw_wg c = int (length (cw_tasks c)) + held_wg (cw_pc c) \<and>
     int (length (filter (\<lambda>t. \<not> tk_asset t) (cw_tasks c))) \<le> maxConcurrent (cw_cfg c) \<and>
     int (length (filter tk_asset (cw_tasks c))) \<le> assetConcurrency (cw_cfg c) \<and>
     (\<forall>h. length (filter (\<lambda>t. \<not> tk_asset t \<and> tk_host t = h) (cw_tasks c)) + held_host (cw_pc c) h \<le> hostSemCap)"

lemmas d_defs = d_top_def d_unpaused_def d_resume_def d_abort_def d_limit_def d_idle_def d_again_def
  d_spawn_asset_def d_asset_abort_def d_spawn_page_def d_page_abort_def release_host_def new_task_def

lemmas control_defs = PauseCrawl_def ResumeCrawl_def StopCrawl_def

text \<open>Steps of a task other than its end change neither its kind nor its host.\<close>

lemma slots_ok_set_phase: "i < length (cw_tasks c) \<Longrightarrow> slots_ok (set_phase i p c) \<longleftrightarrow> slots_ok c"
  by (simp add: slots_ok_def set_phase_def length_filter_update)

lemma slots_ok_frame [simp]:
  "slots_ok (c\<lparr>cw_total := n\<rparr>) \<longleftrightarrow> slots_ok c"
  "slots_ok (c\<lparr>cw_queue := q\<rparr>) \<longleftrightarrow> slots_ok c"
  "slots_ok (c\<lparr>cw_bloom := b\<rparr>) \<longleftrightarrow> slots_ok c"
  "slots_ok (c\<lparr>cw_exact := e\<rparr>) \<longleftrightarrow> slots_ok c"
  "slots_ok (c\<lparr>cw_breakers := br\<rparr>) \<longleftrightarrow> slots_ok c"
  "slots_ok (c\<lparr>cw_robots := rp\<rparr>) \<longleftrightarrow> slots_ok c"
  "slots_ok (c\<lparr>cw_hostCount := hc\<rparr>) \<longleftrightarrow> slots_ok c"
  "slots_ok (c\<lparr>cw_paused := x\<rparr>) \<longleftrightarrow> slots_ok c"
  "slots_ok (c\<lparr>cw_resume := x\<rparr>) \<longleftrightarrow> slots_ok c"
  "slots_ok (c\<lparr>cw_cancelled := x\<rparr>) \<longleftrightarrow> slots_ok c"
  "slots_ok (c\<lparr>cw_shutdown := x\<rparr>) \<longleftrightarrow> slots_ok c"
  by (simp_all add: slots_ok_def)

text \<open>A move of the dispatcher between places where it holds nothing.\<close>

lemma slots_ok_pc:
  "slots_ok c \<Longrightarrow> held_wg pc = held_wg (cw_pc c) \<Longrightarrow> (\<And>h. held_host pc h = held_host (cw_pc c) h) \<Longrightarrow>
     slots_ok (c\<lparr>cw_pc := pc\<rparr>)"
  by (simp add: slots_ok_def)

lemma slots_ok_finish:
  assumes "slots_ok c" "i < length (cw_tasks c)"
  shows "slots_ok (t_finish i c)"
proof -
  let ?t = "cw_tasks c ! i"
  have cnt: "length (filter P (cw_tasks c)) = length (filter P (remove_at i (cw_tasks c))) + (if P ?t then 1 else 0)" for P
    by (rule length_filter_remove_at [OF assms(2)])
  have len: "length (cw_tasks c) = Suc (length (remove_at i (cw_tasks c)))"
    by (rule length_remove_at [OF assms(2)])
  have tasks: "cw_tasks (t_finish i c) = remove_at i (cw_tasks c)" "cw_cfg (t_finish i c) = cw_cfg c" "cw_pc (t_finish i c) = cw_pc c"
    by (simp_all add: t_finish_def release_host_def Let_def)
  have sems: "cw_sem (t_finish i c) = cw_sem c - (if tk_asset ?t then 0 else 1)"
    "cw_assetSem (t_finish i c) = cw_assetSem c - (if tk_asset ?t then 1 else 0)"
    "cw_hostSem (t_finish i c) h = cw_hostSem c h - (if \<not> tk_asset ?t \<and> tk_host ?t = h then 1 else 0)"
    "cw_active (t_finish i c) = cw_active c - 1" "cw_wg (t_finish i c) = cw_wg c - 1" for h
    by (simp_all add: t_finish_def release_host_def Let_def)
  have old: "cw_sem c = length (filter (\<lambda>t. \<not> tk_asset t) (cw_tasks c))"
    "cw_assetSem c = length (filter tk_asset (cw_tasks c))"
    "cw_hostSem c h = length (filter (\<lambda>t. \<not> tk_asset t \<and> tk_host t = h) (cw_tasks c)) + held_host (cw_pc c) h"
    "length (filter (\<lambda>t. \<not> tk_asset t \<and> tk_host t = h) (cw_tasks c)) + held_host (cw_pc c) h \<le> hostSemCap" for h
    using assms(1) by (simp_all add: slots_ok_def)
  have "cw_hostSem (t_finish i c) h =
      length (filter (\<lambda>t. \<not> tk_asset t \<and> tk_host t = h) (remove_at i (cw_tasks c))) + held_host (cw_pc c) h" for h
    using cnt [of "\<lambda>t. \<not> tk_asset t \<and> tk_host t = h"] by (simp add: sems(3) old(3))
  moreover have "length (filter (\<lambda>t. \<not> tk_asset t \<and> tk_host t = h) (remove_at i (cw_tasks c))) + held_host (cw_pc c) h \<le> hostSemCap" for h
    using cnt [of "\<lambda>t. \<not> tk_asset t \<and> tk_host t = h"] old(4) [of h] by linarith
  moreover have "cw_sem (t_finish i c) = length (filter (\<lambda>t. \<not> tk_asset t) (remove_at i (cw_tasks c)))"
    "cw_assetSem (t_finish i c) = length (filter tk_asset (remove_at i (cw_tasks c)))"
    using cnt [of "\<lambda>t. \<not> tk_asset t"] cnt [of tk_asset] by (simp_all add: sems(1,2) old(1,2))
  moreover have "int (length (filter (\<lambda>t. \<not> tk_asset t) (remove_at i (cw_tasks c)))) \<le> maxConcurrent (cw_cfg c)"
    "int (length (filter tk_asset (remove_at i (cw_tasks c)))) \<le> assetConcurrency (cw_cfg c)"
    using cnt [of "\<lambda>t. \<not> tk_asset t"] cnt [of tk_asset] assms(1) by (simp_all add: slots_ok_def split: if_splits)
  ultimately show ?thesis
    using assms(1) len by (simp add: slots_ok_def tasks sems(4,5))
qed

text \<open>The dispatcher gives back the slot of a host.\<close>

lemma slots_ok_release:
  assumes "slots_ok c" "\<And>h. held_host (cw_pc c) h = (if h = host then 1 else 0)"
    "\<And>h. held_host pc h = 0" "held_wg pc = 0"
  shows "slots_ok ((release_host host c)\<lparr>cw_wg := cw_wg c - held_wg (cw_pc c), cw_pc := pc\<rparr>)"
proof -
  have b: "length (filter (\<lambda>t. \<not> tk_asset t \<and> tk_host t = h) (cw_tasks c)) \<le> hostSemCap" for h
  proof -
    have "length (filter (\<lambda>t. \<not> tk_asset t \<and> tk_host t = h) (cw_tasks c)) + held_host (cw_pc c) h \<le> hostSemCap"
      using assms(1) by (simp add: slots_ok_def)
    then show ?thesis by linarith
  qed
  show ?thesis using assms b by (simp add: slots_ok_def release_host_def)
qed

lemma slots_ok_step: "cstep env c c' \<Longrightarrow> slots_ok c \<Longrightarrow> slots_ok c'"
proof (induction rule: cstep.induct)
  case (item c url depth now c')
  show ?case
    using item.hyps(2)
  proof (cases rule: d_item_frame)
    case (dropped br)
    then show ?thesis using item by (simp add: slots_ok_pc)
  next
    case (counted br pc w)
    then show ?thesis using item by (auto simp: slots_ok_def)
  qed
next
  case (host c url depth host now r)
  show ?case
    by (cases rule: d_host_frame [of env now r url depth host c])
       (use host in \<open>auto simp: slots_ok_def release_host_def\<close>)
next
  case (rate c url depth host delay allowed now c')
  show ?case
    using rate.hyps(3)
  proof (cases rule: d_rate_frame)
    case (refused br)
    have "slots_ok ((release_host host c)\<lparr>cw_wg := cw_wg c - held_wg (cw_pc c), cw_pc := AtTop\<rparr>)"
      by (rule slots_ok_release) (use rate in auto)
    then show ?thesis using refused rate.hyps(1) by (simp add: slots_ok_def release_host_def)
  next
    case (admitted br)
    then show ?thesis using rate by (simp add: slots_ok_def)
  qed
next
  case (pop c c')
  show ?case
    using pop.hyps(2)
    by (cases rule: d_pop_frame) (use pop in \<open>auto simp: slots_ok_def\<close>)
next
  case (report i c call now c')
  then show ?case using t_report_frame by fastforce
next
  case (finish i c)
  then show ?case by (simp add: slots_ok_finish)
next
  case (start i c)
  then show ?case by (simp add: t_start_def slots_ok_set_phase)
next
  case (link_check i c link)
  then show ?case by (simp add: t_check_def Let_def slots_ok_set_phase)
next
  case (link_admit i c u)
  then show ?case by (simp add: t_admit_def queue_admit_def slots_ok_set_phase)
next
  case (link_push i c u)
  then show ?case by (simp add: t_push_def push_def slots_ok_set_phase)
next
  case (page c url depth host)
  have b: "length (filter (\<lambda>t. \<not> tk_asset t \<and> tk_host t = h) (cw_tasks c)) + (if h = host then 1 else 0) \<le> hostSemCap" for h
    using page by (simp add: slots_ok_def)
  have b1: "Suc (length (filter (\<lambda>t. \<not> tk_asset t \<and> tk_host t = host) (cw_tasks c))) \<le> hostSemCap"
    using b [of host] by simp
  have b2: "length (filter (\<lambda>t. \<not> tk_asset t \<and> tk_host t = h) (cw_tasks c)) \<le> hostSemCap" for h
    using b [of h] by (simp split: if_splits)
  from page show ?case by (auto simp: slots_ok_def d_spawn_page_def new_task_def b1 b2)
next
  case (asset c url depth host)
  then show ?case by (auto simp: slots_ok_def d_spawn_asset_def new_task_def)
next
  case (page_abort c url depth host)
  then have "slots_ok ((release_host host c)\<lparr>cw_wg := cw_wg c - held_wg (cw_pc c), cw_pc := LoopExited\<rparr>)"
    by (intro slots_ok_release) auto
  with page_abort show ?case by (simp add: d_page_abort_def release_host_def)
next
  case (asset_abort c url depth host)
  then show ?case by (auto simp: slots_ok_def d_asset_abort_def)
qed (auto simp: d_defs control_defs slots_ok_pc)

section \<open>The invariant of the queue: a URL is dispatched once\<close>

text \<open>The item in the dispatcher's hands.\<close>

fun pc_item :: "dpc \<Rightarrow> (string \<times> int) option" where
  "pc_item (GotItem u d) = Some (u, d)"
| "pc_item (HostWait u d h) = Some (u, d)"
| "pc_item (RateWait u d h delay) = Some (u, d)"
| "pc_item (SemWait u d h) = Some (u, d)"
| "pc_item (AssetWait u d h) = Some (u, d)"
| "pc_item (Crashed pc) = pc_item pc"
| "pc_item _ = None"

definition in_hand :: "dpc \<Rightarrow> string \<Rightarrow> nat" where
  "in_hand pc u = (case pc_item pc of Some (u', d) \<Rightarrow> if u' = u then 1 else 0 | None \<Rightarrow> 0)"

text \<open>\<open>B u\<close> bounds how often \<open>u\<close> was dispatched, is in hand, waits or may still be accepted.\<close>

definition once_ok :: "(string \<Rightarrow> nat) \<Rightarrow> 'b crawler \<Rightarrow> bool" where
  "once_ok B c \<longleftrightarrow> pq_wf (cw_queue c) \<and>
     (\<forall>u. count_list (map tk_url (cw_log c)) u + in_hand (cw_pc c) u + pq.budget (cw_queue c) u \<le> B u)"

lemma once_ok_cong:
  "once_ok B c \<Longrightarrow> cw_queue c' = cw_queue c \<Longrightarrow> cw_log c' = cw_log c \<Longrightarrow> pc_item (cw_pc c') \<in> {None, pc_item (cw_pc c)} \<Longrightarrow> once_ok B c'"
proof -
  assume a: "once_ok B c" "cw_queue c' = cw_queue c" "cw_log c' = cw_log c" "pc_item (cw_pc c') \<in> {None, pc_item (cw_pc c)}"
  have "count_list (map tk_url (cw_log c')) u + in_hand (cw_pc c') u + pq.budget (cw_queue c') u \<le> B u" for u
  proof -
    have "count_list (map tk_url (cw_log c)) u + in_hand (cw_pc c) u + pq.budget (cw_queue c) u \<le> B u"
      using a(1) by (simp add: once_ok_def)
    moreover have "in_hand (cw_pc c') u \<le> in_hand (cw_pc c) u" using a(4) by (auto simp: in_hand_def)
    ultimately show ?thesis using a(2,3) by simp
  qed
  then show ?thesis using a(1,2) by (simp add: once_ok_def)
qed

lemma once_ok_push: "once_ok B c \<Longrightarrow> once_ok B (push c u d)"
  using pq.push_inv pq.budget_push by (simp add: once_ok_def push_def)

text \<open>A goroutine is spawned for the item in hand.\<close>

lemma once_ok_spawn:
  assumes "once_ok B c" "pc_item (cw_pc c) = Some (u, d)" "cw_queue c' = cw_queue c"
    "map tk_url (cw_log c') = map tk_url (cw_log c) @ [u]" "pc_item (cw_pc c') = None"
  shows "once_ok B c'"
proof -
  have "count_list (map tk_url (cw_log c')) v + in_hand (cw_pc c') v + pq.budget (cw_queue c') v \<le> B v" for v
  proof -
    have "count_list (map tk_url (cw_log c)) v + in_hand (cw_pc c) v + pq.budget (cw_queue c) v \<le> B v"
      using assms(1) by (simp add: once_ok_def)
    moreover have "in_hand (cw_pc c) v = (if u = v then 1 else 0)" "in_hand (cw_pc c') v = 0"
      using assms(2,5) by (simp_all add: in_hand_def)
    moreover have "count_list (map tk_url (cw_log c')) v = count_list (map tk_url (cw_log c)) v + (if u = v then 1 else 0)"
      by (simp add: assms(4))
    ultimately show ?thesis using assms(3) by simp
  qed
  then show ?thesis using assms(1,3) by (simp add: once_ok_def)
qed

lemma once_ok_step: "cstep env c c' \<Longrightarrow> once_ok B c \<Longrightarrow> once_ok B c'"
proof (induction rule: cstep.induct)
  case (pop c c')
  show ?case
    using pop.hyps(2)
  proof (cases rule: d_pop_frame)
    case (got i q)
    have wf: "pq_wf (cw_queue c)" using pop.prems by (simp add: once_ok_def)
    have "pq_wf q" using pq.pop_inv [OF wf got(1)] .
    moreover have "count_list (map tk_url (cw_log c)) u + in_hand (GotItem (itemURL i) (itemDepth i)) u + pq.budget q u \<le> B u" for u
    proof -
      have "count_list (map tk_url (cw_log c)) u + in_hand (cw_pc c) u + pq.budget (cw_queue c) u \<le> B u"
        using pop.prems by (simp add: once_ok_def)
      moreover have "pq.budget (cw_queue c) u = pq.budget q u + (if itemURL i = u then 1 else 0)"
        using pq.budget_pop [OF wf got(1)] by (simp add: payload_def)
      ultimately show ?thesis by (simp add: in_hand_def)
    qed
    ultimately show ?thesis using got(2) by (simp add: once_ok_def)
  next
    case (none i q)
    have "q = cw_queue c" using pq.pop_empty [OF _ none(1)] pop.prems by (simp add: once_ok_def)
    then show ?thesis unfolding none(2) by (intro once_ok_cong [OF pop.prems]) simp_all
  qed
next
  case (item c url depth now c')
  show ?case
    using item.hyps(2)
    by (cases rule: d_item_frame) (rule once_ok_cong [OF item.prems]; use item in auto)+
next
  case (host c url depth host now r)
  show ?case
    by (cases rule: d_host_frame [of env now r url depth host c]; rule once_ok_cong [OF host.prems])
       (use host in \<open>auto simp: release_host_def\<close>)
next
  case (rate c url depth host delay allowed now c')
  show ?case
    using rate.hyps(3)
    by (cases rule: d_rate_frame; rule_tac once_ok_cong [OF rate.prems]) (use rate in \<open>auto simp: release_host_def\<close>)
next
  case (report i c call now c')
  obtain br where "c' = c\<lparr>cw_breakers := br\<rparr>" using t_report_frame [OF report.hyps(5)] by blast
  then show ?case by (intro once_ok_cong [OF report.prems]) simp_all
next
  case (page c url depth host)
  show ?case
    by (rule once_ok_spawn [OF page.prems, of url depth]) (use page in \<open>simp_all add: d_spawn_page_def new_task_def\<close>)
next
  case (asset c url depth host)
  show ?case
    by (rule once_ok_spawn [OF asset.prems, of url depth]) (use asset in \<open>simp_all add: d_spawn_asset_def new_task_def\<close>)
next
  case (link_push i c u)
  have "once_ok B (set_phase i Running c)" by (rule once_ok_cong [OF link_push.prems]) (simp_all add: set_phase_def)
  then show ?case by (simp add: t_push_def once_ok_push)
qed (erule once_ok_cong; simp add: d_defs control_defs t_start_def t_check_def t_admit_def t_finish_def queue_admit_def
      set_phase_def Let_def)+

section \<open>The invariant of the limits\<close>

fun past_limit :: "dpc \<Rightarrow> int" where
  "past_limit PopPoint = 1"
| "past_limit (GotItem u d) = 1"
| "past_limit (HostWait u d h) = 1"
| "past_limit (RateWait u d h delay) = 1"
| "past_limit (SemWait u d h) = 1"
| "past_limit (AssetWait u d h) = 1"
| "past_limit (Crashed pc) = past_limit pc"
| "past_limit _ = 0"

fun counted_host :: "dpc \<Rightarrow> (string \<times> string \<times> int) option" where
  "counted_host (HostWait u d h) = Some (u, h, d)"
| "counted_host (RateWait u d h delay) = Some (u, h, d)"
| "counted_host (SemWait u d h) = Some (u, h, d)"
| "counted_host (AssetWait u d h) = Some (u, h, d)"
| "counted_host (Crashed pc) = counted_host pc"
| "counted_host _ = None"

definition host_in_hand :: "dpc \<Rightarrow> string \<Rightarrow> int" where
  "host_in_hand pc h = (case counted_host pc of Some (u, h', d) \<Rightarrow> if h' = h then 1 else 0 | None \<Rightarrow> 0)"

definition spawned :: "'b crawler \<Rightarrow> nat" where
  "spawned c = length (filter (\<lambda>t. tk_phase t = Spawned) (cw_tasks c))"

definition log_host :: "'b crawler \<Rightarrow> string \<Rightarrow> nat" where
  "log_host c h = length (filter (\<lambda>t. tk_host t = h) (cw_log c))"

definition depth_ok :: "'b crawler \<Rightarrow> bool" where
  "depth_ok c \<longleftrightarrow>
     (\<forall>t\<in>set (cw_log c). tk_depth t \<le> cfg_MaxDepth (cw_cfg c) \<and> tk_host t = getHost (tk_url t)) \<and>
     (case counted_host (cw_pc c) of Some (u, h, d) \<Rightarrow> d \<le> cfg_MaxDepth (cw_cfg c) \<and> h = getHost u | None \<Rightarrow> True)"

definition hosts_ok :: "'b crawler \<Rightarrow> bool" where
  "hosts_ok c \<longleftrightarrow>
     (\<forall>h. int (log_host c h) + host_in_hand (cw_pc c) h \<le> cw_hostCount c h) \<and>
     (0 < cfg_MaxURLsPerHost (cw_cfg c) \<longrightarrow>
        (\<forall>h. int (log_host c h) + host_in_hand (cw_pc c) h \<le> cfg_MaxURLsPerHost (cw_cfg c)))"

definition total_ok :: "'b crawler \<Rightarrow> bool" where
  "total_ok c \<longleftrightarrow>
     cw_total c + int (spawned c) = int (length (cw_log c)) \<and>
     (0 < cfg_MaxTotalURLs (cw_cfg c) \<longrightarrow>
        cw_total c + int (spawned c) + past_limit (cw_pc c)
          \<le> cfg_MaxTotalURLs (cw_cfg c) + maxConcurrent (cw_cfg c) + assetConcurrency (cw_cfg c))"

lemma spawned_set_phase:
  "i < length (cw_tasks c) \<Longrightarrow> (p = Spawned) = (tk_phase (cw_tasks c ! i) = Spawned) \<Longrightarrow> spawned (set_phase i p c) = spawned c"
  by (simp add: spawned_def set_phase_def length_filter_update)

lemma depth_ok_cong:
  "depth_ok c \<Longrightarrow> cw_cfg c' = cw_cfg c \<Longrightarrow> cw_log c' = cw_log c \<Longrightarrow>
     counted_host (cw_pc c') \<in> {None, counted_host (cw_pc c)} \<Longrightarrow> depth_ok c'"
  by (auto simp: depth_ok_def split: option.splits)

lemma hosts_ok_cong:
  assumes "hosts_ok c" "cw_cfg c' = cw_cfg c" "cw_log c' = cw_log c"
    "\<And>h. cw_hostCount c h \<le> cw_hostCount c' h" "counted_host (cw_pc c') \<in> {None, counted_host (cw_pc c)}"
  shows "hosts_ok c'"
proof -
  have "int (log_host c' h) + host_in_hand (cw_pc c') h \<le> int (log_host c h) + host_in_hand (cw_pc c) h" for h
    using assms(3,5) by (auto simp: log_host_def host_in_hand_def split: option.splits)
  then show ?thesis
    using assms(1,2,4) unfolding hosts_ok_def by (metis order_trans)
qed

lemma total_ok_cong:
  "total_ok c \<Longrightarrow> cw_cfg c' = cw_cfg c \<Longrightarrow> cw_log c' = cw_log c \<Longrightarrow> cw_total c' + int (spawned c') = cw_total c + int (spawned c) \<Longrightarrow>
     past_limit (cw_pc c') \<le> past_limit (cw_pc c) \<Longrightarrow> total_ok c'"
  by (auto simp: total_ok_def)

lemma past_limit_nonneg [simp]: "0 \<le> past_limit pc"
  by (induction pc rule: past_limit.induct) simp_all

lemma depth_ok_step: "cstep env c c' \<Longrightarrow> depth_ok c \<Longrightarrow> depth_ok c'"
proof (induction rule: cstep.induct)
  case (pop c c')
  show ?case
    using pop.hyps(2) by (cases rule: d_pop_frame) (use pop.prems in \<open>auto simp: depth_ok_def\<close>)
next
  case (item c url depth now c')
  show ?case
    using item.hyps(2) by (cases rule: d_item_frame) (use item.prems in \<open>auto simp: depth_ok_def\<close>)
next
  case (host c url depth host now r)
  show ?case
    by (cases rule: d_host_frame [of env now r url depth host c]; rule depth_ok_cong [OF host.prems])
       (use host in \<open>auto simp: release_host_def\<close>)
next
  case (rate c url depth host delay allowed now c')
  show ?case
    using rate.hyps(3)
    by (cases rule: d_rate_frame; rule_tac depth_ok_cong [OF rate.prems]) (use rate in \<open>auto simp: release_host_def\<close>)
next
  case (report i c call now c')
  obtain br where "c' = c\<lparr>cw_breakers := br\<rparr>" using t_report_frame [OF report.hyps(5)] by blast
  then show ?case by (intro depth_ok_cong [OF report.prems]) simp_all
next
  case (page c url depth host)
  then show ?case by (auto simp: depth_ok_def d_spawn_page_def new_task_def)
next
  case (asset c url depth host)
  then show ?case by (auto simp: depth_ok_def d_spawn_asset_def new_task_def)
qed (erule depth_ok_cong; simp add: d_defs control_defs t_start_def t_check_def t_admit_def t_push_def push_def t_finish_def
      queue_admit_def set_phase_def Let_def)+

text \<open>The count of an item's host goes up before the item waits, and stays up when it is dropped.\<close>

lemma hosts_ok_count:
  assumes "hosts_ok c" "counted_host (cw_pc c) = None"
    "cfg_MaxURLsPerHost (cw_cfg c) > 0 \<Longrightarrow> cw_hostCount c h < cfg_MaxURLsPerHost (cw_cfg c)"
    "cw_cfg c' = cw_cfg c" "cw_log c' = cw_log c" "cw_hostCount c' = (cw_hostCount c)(h := cw_hostCount c h + 1)"
    "counted_host (cw_pc c') \<in> {None, Some (u, h, d)}"
  shows "hosts_ok c'"
proof -
  have logs: "int (log_host c k) \<le> cw_hostCount c k" for k
    using assms(1,2) by (simp add: hosts_ok_def host_in_hand_def)
  have hand: "host_in_hand (cw_pc c') k \<le> (if k = h then 1 else 0)" for k
    using assms(7) by (auto simp: host_in_hand_def)
  have "int (log_host c' k) + host_in_hand (cw_pc c') k \<le> cw_hostCount c' k" for k
    using logs [of k] hand [of k] assms(5,6) by (simp add: log_host_def split: if_splits)
  moreover have "int (log_host c' k) + host_in_hand (cw_pc c') k \<le> cfg_MaxURLsPerHost (cw_cfg c')"
    if "0 < cfg_MaxURLsPerHost (cw_cfg c')" for k
  proof (cases "k = h")
    case True
    then show ?thesis using that logs [of h] hand [of h] assms(3,4,5) by (simp add: log_host_def)
  next
    case False
    have "int (log_host c k) \<le> cfg_MaxURLsPerHost (cw_cfg c)"
      using assms(1,2,4) that by (simp add: hosts_ok_def host_in_hand_def)
    then show ?thesis using False hand [of k] assms(4,5) by (simp add: log_host_def)
  qed
  ultimately show ?thesis by (simp add: hosts_ok_def)
qed

text \<open>A goroutine is spawned for the host counted.\<close>

lemma hosts_ok_spawn:
  assumes "hosts_ok c" "counted_host (cw_pc c) = Some (u, tk_host t, d)" "cw_cfg c' = cw_cfg c"
    "cw_log c' = cw_log c @ [t]" "cw_hostCount c' = cw_hostCount c" "counted_host (cw_pc c') = None"
  shows "hosts_ok c'"
proof -
  have "int (log_host c' h) + host_in_hand (cw_pc c') h = int (log_host c h) + host_in_hand (cw_pc c) h" for h
    using assms(2,4,6) by (auto simp: log_host_def host_in_hand_def)
  then show ?thesis using assms(1,3,5) by (simp add: hosts_ok_def)
qed

lemma hosts_ok_step: "cstep env c c' \<Longrightarrow> hosts_ok c \<Longrightarrow> hosts_ok c'"
proof (induction rule: cstep.induct)
  case (pop c c')
  show ?case
    using pop.hyps(2) by (cases rule: d_pop_frame; rule_tac hosts_ok_cong [OF pop.prems]) auto
next
  case (item c url depth now c')
  show ?case
    using item.hyps(2)
  proof (cases rule: d_item_frame)
    case (dropped br)
    then show ?thesis by (intro hosts_ok_cong [OF item.prems]) auto
  next
    case (counted br pc w)
    then show ?thesis
      using item.hyps(1) by (intro hosts_ok_count [OF item.prems, of "getHost url" _ url depth]) auto
  qed
next
  case (host c url depth host now r)
  show ?case
    by (cases rule: d_host_frame [of env now r url depth host c]; rule hosts_ok_cong [OF host.prems])
       (use host in \<open>auto simp: release_host_def\<close>)
next
  case (rate c url depth host delay allowed now c')
  show ?case
    using rate.hyps(3)
    by (cases rule: d_rate_frame; rule_tac hosts_ok_cong [OF rate.prems]) (use rate in \<open>auto simp: release_host_def\<close>)
next
  case (report i c call now c')
  obtain br where "c' = c\<lparr>cw_breakers := br\<rparr>" using t_report_frame [OF report.hyps(5)] by blast
  then show ?case by (intro hosts_ok_cong [OF report.prems]) simp_all
next
  case (page c url depth host)
  show ?case
    by (rule hosts_ok_spawn [OF page.prems, of url _ depth]) (use page in \<open>auto simp: d_spawn_page_def new_task_def\<close>)
next
  case (asset c url depth host)
  show ?case
    by (rule hosts_ok_spawn [OF asset.prems, of url _ depth]) (use asset in \<open>auto simp: d_spawn_asset_def new_task_def\<close>)
qed (erule hosts_ok_cong; simp add: d_defs control_defs t_start_def t_check_def t_admit_def t_push_def push_def t_finish_def
      queue_admit_def set_phase_def Let_def)+

text \<open>When the limit is tested, at most the running goroutines have not been counted.\<close>

lemma spawned_le_slots: "slots_ok c \<Longrightarrow> int (spawned c) \<le> maxConcurrent (cw_cfg c) + assetConcurrency (cw_cfg c)"
proof -
  assume a: "slots_ok c"
  have "spawned c \<le> length (cw_tasks c)" by (simp add: spawned_def)
  moreover have "length (cw_tasks c) = length (filter tk_asset (cw_tasks c)) + length (filter (\<lambda>t. \<not> tk_asset t) (cw_tasks c))"
    by (rule sum_length_filter_compl [symmetric])
  ultimately show ?thesis using a by (simp add: slots_ok_def)
qed

lemma total_ok_step: "cstep env c c' \<Longrightarrow> slots_ok c \<Longrightarrow> total_ok c \<Longrightarrow> total_ok c'"
proof (induction rule: cstep.induct)
  case (limit c)
  then show ?case
    using spawned_le_slots [OF limit.prems(1)] by (auto simp: total_ok_def d_limit_def limit_reached_def spawned_def)
next
  case (pop c c')
  show ?case
    using pop.hyps(2) by (cases rule: d_pop_frame) (use pop in \<open>auto simp: total_ok_def spawned_def\<close>)
next
  case (item c url depth now c')
  show ?case
    using item.hyps(2)
    by (cases rule: d_item_frame; rule_tac total_ok_cong [OF item.prems(2)]) (use item.hyps(1) in \<open>auto simp: spawned_def\<close>)
next
  case (host c url depth host now r)
  show ?case
    by (cases rule: d_host_frame [of env now r url depth host c]; rule total_ok_cong [OF host.prems(2)])
       (use host in \<open>auto simp: release_host_def spawned_def\<close>)
next
  case (rate c url depth host delay allowed now c')
  show ?case
    using rate.hyps(3)
    by (cases rule: d_rate_frame; rule_tac total_ok_cong [OF rate.prems(2)])
       (use rate in \<open>auto simp: release_host_def spawned_def\<close>)
next
  case (report i c call now c')
  obtain br where "c' = c\<lparr>cw_breakers := br\<rparr>" using t_report_frame [OF report.hyps(5)] by blast
  then show ?case by (intro total_ok_cong [OF report.prems(2)]) (simp_all add: spawned_def)
next
  case (page c url depth host)
  then show ?case by (auto simp: total_ok_def spawned_def d_spawn_page_def new_task_def)
next
  case (asset c url depth host)
  then show ?case by (auto simp: total_ok_def spawned_def d_spawn_asset_def new_task_def)
next
  case (start i c)
  have "spawned c = Suc (spawned (set_phase i Running c))"
    using start.hyps by (simp add: spawned_def set_phase_def length_filter_change)
  then show ?case
    using start.prems(2) by (intro total_ok_cong [OF start.prems(2)]) (simp_all add: t_start_def spawned_def set_phase_def)
next
  case (link_check i c link)
  then show ?case
    by (intro total_ok_cong [OF link_check.prems(2)]) (simp_all add: t_check_def Let_def set_phase_def spawned_def length_filter_update)
next
  case (link_admit i c u)
  then show ?case
    by (intro total_ok_cong [OF link_admit.prems(2)])
       (simp_all add: t_admit_def queue_admit_def set_phase_def spawned_def length_filter_update)
next
  case (link_push i c u)
  then show ?case
    by (intro total_ok_cong [OF link_push.prems(2)])
       (simp_all add: t_push_def push_def set_phase_def spawned_def length_filter_update)
next
  case (finish i c)
  have "spawned (t_finish i c) = spawned c"
    using length_filter_remove_at [OF finish.hyps(1), of "\<lambda>t. tk_phase t = Spawned"] finish.hyps(2)
    by (simp add: spawned_def t_finish_def Let_def release_host_def)
  then show ?case
    by (intro total_ok_cong [OF finish.prems(2)]) (simp_all add: t_finish_def Let_def release_host_def)
qed (erule total_ok_cong; simp add: d_defs control_defs spawned_def)+

section \<open>The reachable states of a crawl\<close>

text \<open>
  The shared state that \<open>NewCrawler\<close> makes when the queue is local; \<open>bloom\<close> is the filter it makes or
  loads. The channels start empty and the counters at zero.
\<close>

definition new_crawler :: "config \<Rightarrow> int \<Rightarrow> (string \<Rightarrow> 32 word) \<Rightarrow> 'b \<Rightarrow> 'b crawler" where
  "new_crawler cfg gomaxprocs hashFn bloom =
     \<lparr>cw_cfg = cfg, cw_queue = NewPriorityQueue,
      cw_exact = NewLRUSet (if cfg_MaxTotalURLs cfg < 100000 then 100000 else cfg_MaxTotalURLs cfg),
      cw_bloom = bloom, cw_robots = SetUserAgent NewRobotsParser (cfg_UserAgent cfg),
      cw_breakers = NewHostCircuitBreaker gomaxprocs hashFn,
      cw_hostCount = (\<lambda>_. 0), cw_hostSem = (\<lambda>_. 0), cw_sem = 0, cw_assetSem = 0,
      cw_total = 0, cw_active = 0, cw_wg = 0,
      cw_paused = False, cw_resume = False, cw_cancelled = False, cw_shutdown = False,
      cw_pc = AtTop, cw_tasks = [], cw_log = []\<rparr>"

text \<open>A checkpoint as the crawler writes it: heap items with their own positions, all of them seen once.\<close>

definition checkpoint_ok :: "checkpoint \<Rightarrow> bool" where
  "checkpoint_ok cp = (case cp of (items, visited, keys, counts) \<Rightarrow>
     distinct (map itemURL items) \<and> (\<forall>i\<in>set items. visited (itemURL i) = Some True) \<and> (\<forall>h. 0 \<le> counts h))"

definition crawl_reaches :: "'b crawl_env \<Rightarrow> (string \<Rightarrow> string list) \<Rightarrow> checkpoint option \<Rightarrow> string list \<Rightarrow> 'b crawler \<Rightarrow>
    'b crawler \<Rightarrow> bool" where
  "crawl_reaches env sitemaps cp seeds c0 c \<longleftrightarrow>
     (\<exists>c1. start_crawl env sitemaps cp seeds c0 = Inr c1 \<and> (cstep env)\<^sup>*\<^sup>* c1 c)"

text \<open>Seeding changes the queue and the dedup sets alone, and keeps the queue's invariant.\<close>

definition seeds_only :: "'b crawler \<Rightarrow> 'b crawler \<Rightarrow> bool" where
  "seeds_only c c' \<longleftrightarrow> (\<exists>q e b. c' = c\<lparr>cw_queue := q, cw_exact := e, cw_bloom := b\<rparr> \<and> 
     (pq_wf (cw_queue c) \<longrightarrow> pq_wf q \<and> pq.budget q = pq.budget (cw_queue c)))"

lemma seeds_onlyI:
  "c' = c\<lparr>cw_queue := q, cw_exact := e, cw_bloom := b\<rparr> \<Longrightarrow> 
     (pq_wf (cw_queue c) \<Longrightarrow> pq_wf q \<and> pq.budget q = pq.budget (cw_queue c)) \<Longrightarrow> seeds_only c c'"
  unfolding seeds_only_def by blast

lemma seeds_only_refl: "seeds_only c c"
  by (rule seeds_onlyI [where q = "cw_queue c" and e = "cw_exact c" and b = "cw_bloom c"]) simp_all

lemma seeds_only_trans:
  assumes "seeds_only a b" "seeds_only b c"
  shows "seeds_only a c"
proof -
  obtain q e f where b: "b = a\<lparr>cw_queue := q, cw_exact := e, cw_bloom := f\<rparr>" "pq_wf (cw_queue a) \<Longrightarrow> pq_wf q \<and> pq.budget q = pq.budget (cw_queue a)"
    using assms(1) unfolding seeds_only_def by blast
  obtain q2 e2 f2 where c: "c = b\<lparr>cw_queue := q2, cw_exact := e2, cw_bloom := f2\<rparr>" "pq_wf (cw_queue b) \<Longrightarrow> pq_wf q2 \<and> pq.budget q2 = pq.budget (cw_queue b)"
    using assms(2) unfolding seeds_only_def by blast
  show ?thesis by (rule seeds_onlyI [where q = q2 and e = e2 and b = f2]) (use b c in simp_all)
qed

lemma seeds_only_fold: "(\<And>x c. seeds_only c (f x c)) \<Longrightarrow> seeds_only c (fold f xs c)"
  by (induction xs arbitrary: c) (auto intro: seeds_only_refl seeds_only_trans)

lemma seeds_only_seed_url: "seeds_only c (seed_url env u c)"
  unfolding seed_url_def push_def queue_admit_def
  by (rule seeds_onlyI [where q = "snd (PushURL (cw_queue c) u 0)" and e = "lruAdd (cw_exact c) u" and b = "bl_add env (cw_bloom c) u"])
     (simp_all add: pq.push_inv pq.budget_push fun_eq_iff)

lemma seeds_only_sitemap: "seeds_only c (seed_sitemap env u c)"
  by (simp add: seed_sitemap_def Let_def seeds_only_seed_url seeds_only_refl)

lemma seeds_only_seed_one: "seeds_only c (seed_one env sitemaps seed c)"
proof -
  have "seeds_only c (fold (seed_sitemap env) us (seed_url env u c))" for u us
    by (rule seeds_only_trans [OF seeds_only_seed_url]) (rule seeds_only_fold, rule seeds_only_sitemap)
  then show ?thesis by (simp add: seed_one_def Let_def seeds_only_seed_url seeds_only_refl)
qed

lemma seeds_only_dedup:
  "seeds_only c (c\<lparr>cw_exact := e, cw_bloom := b\<rparr>)"
  by (rule seeds_onlyI [where q = "cw_queue c" and e = e and b = b]) simp_all

text \<open>The queue that the seeds are pushed to, and the URLs it can still give out.\<close>

definition restored_queue :: "checkpoint option \<Rightarrow> 'b crawler \<Rightarrow> pqueue" where
  "restored_queue cp c = (if cfg_CheckpointFile (cw_cfg c) = [] then cw_queue c else case cp of
       Some (items, visited, keys, counts) \<Rightarrow> LoadFromCheckpoint (cw_queue c) items visited
     | None \<Rightarrow> cw_queue c)"

lemma start_crawl_frame:
  assumes "start_crawl env sitemaps cp seeds c = Inr c'" "pq_wf (cw_queue c)" "\<And>data. cp = Some data \<Longrightarrow> checkpoint_ok data"
    "\<And>h. 0 \<le> cw_hostCount c h"
  obtains q e b hc where
    "c' = c\<lparr>cw_paused := False, cw_resume := False, cw_hostCount := hc, cw_queue := q, cw_exact := e, cw_bloom := b, cw_pc := AtTop\<rparr>"
    "pq_wf q" "\<And>h. 0 \<le> hc h" "pq.budget q = pq.budget (restored_queue cp c)"
proof -
  let ?c1 = "c\<lparr>cw_paused := False, cw_resume := False\<rparr>"
  define c2 where "c2 = (if cfg_CheckpointFile (cw_cfg ?c1) \<noteq> []
                then (case cp of Some data \<Rightarrow> resume_from env data ?c1 | None \<Rightarrow> ?c1) else ?c1)"
  have "\<exists>q hc. pq_wf q \<and> (\<forall>h. 0 \<le> hc h) \<and> q = restored_queue cp c \<and> seeds_only (?c1\<lparr>cw_queue := q, cw_hostCount := hc\<rparr>) c2"
  proof (cases "cfg_CheckpointFile (cw_cfg c) \<noteq> [] \<and> cp \<noteq> None")
    case True
    then obtain items visited keys counts where cp: "cp = Some (items, visited, keys, counts)" by auto
    have ok: "checkpoint_ok (items, visited, keys, counts)" by (rule assms(3) [OF cp])
    then have wf: "pq_wf (LoadFromCheckpoint (cw_queue c) items visited)"
      by (intro pq_wf_Load) (auto simp: checkpoint_ok_def)
    have c2: "c2 = fold (\<lambda>u c1. c1\<lparr>cw_exact := lruAdd (cw_exact c1) u, cw_bloom := bl_add env (cw_bloom c1) u\<rparr>) keys
         (?c1\<lparr>cw_queue := LoadFromCheckpoint (cw_queue c) items visited, cw_hostCount := counts\<rparr>)"
      using True by (simp add: c2_def cp resume_from_def)
    have "seeds_only (?c1\<lparr>cw_queue := LoadFromCheckpoint (cw_queue c) items visited, cw_hostCount := counts\<rparr>) c2"
      unfolding c2 by (intro seeds_only_fold seeds_only_dedup)
    moreover have "restored_queue cp c = LoadFromCheckpoint (cw_queue c) items visited"
      using True by (simp add: restored_queue_def cp)
    ultimately show ?thesis using wf ok
      by (intro exI [of _ "restored_queue cp c"] exI [of _ counts]) (simp add: checkpoint_ok_def)
  next
    case False
    then have "c2 = ?c1" "restored_queue cp c = cw_queue c" by (cases cp; simp add: c2_def restored_queue_def)+
    then show ?thesis using assms(2,4) seeds_only_refl [of ?c1] by (intro exI [of _ "cw_queue c"] exI [of _ "cw_hostCount c"]) simp
  qed
  then obtain q0 hc where q0: "pq_wf q0" "\<And>h. 0 \<le> hc h" "q0 = restored_queue cp c" "seeds_only (?c1\<lparr>cw_queue := q0, cw_hostCount := hc\<rparr>) c2" by blast
  have "c' = (fold (seed_one env sitemaps) seeds c2)\<lparr>cw_pc := AtTop\<rparr>"
    using assms(1) by (simp add: start_crawl_def seed_crawl_def Let_def c2_def split: if_splits)
  moreover have "seeds_only (?c1\<lparr>cw_queue := q0, cw_hostCount := hc\<rparr>) (fold (seed_one env sitemaps) seeds c2)"
    by (rule seeds_only_trans [OF q0(4)]) (intro seeds_only_fold seeds_only_seed_one)
  ultimately show thesis using q0(1,2,3) by (auto simp: seeds_only_def intro: that)
qed

lemma start_crawl_new:
  assumes "start_crawl env sitemaps cp seeds (new_crawler cfg gomaxprocs hashFn bloom) = Inr c"
    "\<And>data. cp = Some data \<Longrightarrow> checkpoint_ok data"
  obtains q e b hc where "c = (new_crawler cfg gomaxprocs hashFn bloom)\<lparr>cw_paused := False, cw_resume := False,
      cw_hostCount := hc, cw_queue := q, cw_exact := e, cw_bloom := b, cw_pc := AtTop\<rparr>" "pq_wf q" "\<And>h. 0 \<le> hc h"
      "pq.budget q = pq.budget (restored_queue cp (new_crawler cfg gomaxprocs hashFn bloom))"
proof -
  have "pq_wf (cw_queue (new_crawler cfg gomaxprocs hashFn bloom))" "0 \<le> cw_hostCount (new_crawler cfg gomaxprocs hashFn bloom) h" for h
    by (simp_all add: new_crawler_def NewPriorityQueue_def pq_wf_New)
  from start_crawl_frame [OF assms(1) this(1) assms(2) this(2)] show thesis using that by metis
qed

definition crawl_inv :: "'b crawler \<Rightarrow> bool" where
  "crawl_inv c \<longleftrightarrow> slots_ok c \<and> once_ok (\<lambda>_. 1) c \<and> depth_ok c \<and> hosts_ok c \<and> total_ok c"

lemma crawl_inv_start:
  assumes "start_crawl env sitemaps cp seeds (new_crawler cfg gomaxprocs hashFn bloom) = Inr c"
    "\<And>data. cp = Some data \<Longrightarrow> checkpoint_ok data"
  shows "crawl_inv c"
proof -
  let ?c = "new_crawler cfg gomaxprocs hashFn bloom"
  obtain q e b hc where c: "c = ?c\<lparr>cw_paused := False, cw_resume := False, cw_hostCount := hc,
      cw_queue := q, cw_exact := e, cw_bloom := b, cw_pc := AtTop\<rparr>" "pq_wf q" "\<And>h. 0 \<le> hc h"
      "pq.budget q = pq.budget (restored_queue cp ?c)"
    by (rule start_crawl_new [OF assms(1)]) (erule assms(2), rule that)
  have caps: "0 \<le> maxConcurrent cfg" "0 \<le> assetConcurrency cfg" by (simp_all add: maxConcurrent_def assetConcurrency_def)
  have "slots_ok c" "depth_ok c" "hosts_ok c" "total_ok c"
    using c(3) caps by (simp_all add: c(1) new_crawler_def slots_ok_def depth_ok_def hosts_ok_def total_ok_def
        spawned_def log_host_def host_in_hand_def hostSemCap_def)
  moreover have "once_ok (\<lambda>_. 1) c"
    using pq.budget_le_one [OF c(2)] c(2) by (simp add: c(1) new_crawler_def once_ok_def in_hand_def)
  ultimately show ?thesis by (simp add: crawl_inv_def)
qed

lemma crawl_inv_step: "cstep env c c' \<Longrightarrow> crawl_inv c \<Longrightarrow> crawl_inv c'"
  unfolding crawl_inv_def
  by (elim conjE, intro conjI; erule slots_ok_step once_ok_step depth_ok_step hosts_ok_step total_ok_step; assumption)

lemma cfg_step: "cstep env c c' \<Longrightarrow> cw_cfg c' = cw_cfg c"
proof (induction rule: cstep.induct)
  case (pop c c')
  then show ?case by (auto elim: d_pop_frame)
next
  case (item c url depth now c')
  show ?case using item.hyps(2) by (cases rule: d_item_frame) simp_all
next
  case (host c url depth host now r)
  show ?case by (cases rule: d_host_frame [of env now r url depth host c]) (simp_all add: release_host_def)
next
  case (rate c url depth host delay allowed now c')
  show ?case using rate.hyps(3) by (cases rule: d_rate_frame) (simp_all add: release_host_def)
next
  case (report i c call now c')
  then show ?case by (auto dest: t_report_frame)
qed (simp_all add: d_defs control_defs t_start_def t_check_def t_admit_def t_push_def push_def t_finish_def
      queue_admit_def set_phase_def Let_def)

text \<open>The induction over a crawl that the properties of reachable states share.\<close>

lemma crawl_reaches_induct:
  assumes "crawl_reaches env sitemaps cp seeds c0 c"
    "\<And>c. start_crawl env sitemaps cp seeds c0 = Inr c \<Longrightarrow> P c"
    "\<And>c c'. cstep env c c' \<Longrightarrow> P c \<Longrightarrow> P c'"
  shows "P c"
proof -
  obtain c1 where c1: "start_crawl env sitemaps cp seeds c0 = Inr c1" "(cstep env)\<^sup>*\<^sup>* c1 c"
    using assms(1) by (auto simp: crawl_reaches_def)
  from c1(2) show ?thesis
    by induction (use c1(1) assms(2,3) in blast)+
qed

lemma crawl_inv_reaches:
  assumes "crawl_reaches env sitemaps cp seeds (new_crawler cfg gomaxprocs hashFn bloom) c"
    "\<And>data. cp = Some data \<Longrightarrow> checkpoint_ok data"
  shows "crawl_inv c \<and> cw_cfg c = cfg"
  using assms(1)
proof (rule crawl_reaches_induct)
  show "crawl_inv c1 \<and> cw_cfg c1 = cfg"
    if st: "start_crawl env sitemaps cp seeds (new_crawler cfg gomaxprocs hashFn bloom) = Inr c1" for c1
  proof
    show "crawl_inv c1" by (rule crawl_inv_start [OF st assms(2)])
    show "cw_cfg c1 = cfg" by (rule start_crawl_new [OF st assms(2)]) (simp_all add: new_crawler_def)
  qed
  show "crawl_inv c2 \<and> cw_cfg c2 = cfg" if "cstep env c1 c2" "crawl_inv c1 \<and> cw_cfg c1 = cfg" for c1 c2
    using that crawl_inv_step cfg_step by metis
qed

text \<open>A goroutine was spawned for the URL of every task.\<close>

lemma set_phase_urls: "tk_url ` set (cw_tasks (set_phase i p c)) = tk_url ` set (cw_tasks c)"
proof -
  have "map tk_url (cw_tasks (set_phase i p c)) = map tk_url (cw_tasks c)"
    by (cases "i < length (cw_tasks c)") (simp_all add: set_phase_def map_update list_update_same_conv list_update_beyond)
  then show ?thesis by (metis list.set_map)
qed

lemma set_phase_log: "cw_log (set_phase i p c) = cw_log c"
  by (simp add: set_phase_def)

lemma tasks_step:
  "cstep env c c' \<Longrightarrow> tk_url ` set (cw_tasks c') - tk_url ` set (cw_tasks c) \<subseteq> tk_url ` set (cw_log c') \<and>
     set (cw_log c) \<subseteq> set (cw_log c')"
proof (induction rule: cstep.induct)
  case (pop c c')
  then show ?case by (auto elim: d_pop_frame)
next
  case (item c url depth now c')
  show ?case using item.hyps(2) by (cases rule: d_item_frame) simp_all
next
  case (host c url depth host now r)
  show ?case by (cases rule: d_host_frame [of env now r url depth host c]) (simp_all add: release_host_def)
next
  case (rate c url depth host delay allowed now c')
  show ?case using rate.hyps(3) by (cases rule: d_rate_frame) (simp_all add: release_host_def)
next
  case (report i c call now c')
  then show ?case by (auto dest: t_report_frame)
next
  case (page c url depth host)
  then show ?case by (auto simp: d_spawn_page_def)
next
  case (asset c url depth host)
  then show ?case by (auto simp: d_spawn_asset_def)
next
  case (finish i c)
  then show ?case by (auto simp: t_finish_def release_host_def Let_def dest: set_remove_at)
qed (simp_all add: d_defs control_defs t_start_def t_check_def t_admit_def t_push_def push_def queue_admit_def Let_def
       set_phase_log set_phase_urls)

lemma tasks_logged:
  assumes "crawl_reaches env sitemaps cp seeds (new_crawler cfg gomaxprocs hashFn bloom) c"
    "\<And>data. cp = Some data \<Longrightarrow> checkpoint_ok data"
  shows "tk_url ` set (cw_tasks c) \<subseteq> tk_url ` set (cw_log c)"
  using assms(1)
proof (rule crawl_reaches_induct)
  show "tk_url ` set (cw_tasks c1) \<subseteq> tk_url ` set (cw_log c1)"
    if "start_crawl env sitemaps cp seeds (new_crawler cfg gomaxprocs hashFn bloom) = Inr c1" for c1
    by (rule start_crawl_new [OF that assms(2)]) (simp_all add: new_crawler_def)
  show "tk_url ` set (cw_tasks c2) \<subseteq> tk_url ` set (cw_log c2)"
    if st: "cstep env c1 c2" and IH: "tk_url ` set (cw_tasks c1) \<subseteq> tk_url ` set (cw_log c1)" for c1 c2
    using tasks_step [OF st] IH by blast
qed

end
