(* ===== verification/CrawlRuns.thy ===== *)
theory CrawlRuns
  imports Crawler "HOL-Library.Code_Target_Nat"
begin

text \<open>
  What holds of every run of the crawl loop: the limits on concurrency, depth, hosts and the total, that
  no URL is dispatched twice, that a crawl can always come to an end; what a checkpoint taken during a
  crawl keeps and what a resumed crawl loses; and the window in which the dispatcher stops too early.

  \<open>run_acts\<close> is a scheduler: it performs a list of steps chosen by the caller, and every state it
  computes is reachable. The witnesses run it on small crawls.
\<close>

section \<open>A scheduler\<close>

datatype act =
    Dispatch | GiveUp | StartTask nat | CheckLink nat string | AdmitLink nat | PushLink nat | FinishTask nat
  | DoPause | DoResume | DoStop

text \<open>One step of the dispatcher at time 0, with the rate limiter admitting the request.\<close>

fun dispatch_pc :: "dpc \<Rightarrow> 'b crawl_env \<Rightarrow> 'b crawler \<Rightarrow> 'b crawler option" where
  "dispatch_pc AtTop env c = Some (d_top c)"
| "dispatch_pc PauseLoop env c =
     (if \<not> cw_paused c then Some (d_unpaused c) else if cw_resume c then Some (d_resume c) else None)"
| "dispatch_pc LimitCheck env c = Some (d_limit c)"
| "dispatch_pc PopPoint env c =
     (case d_pop c of Returns c' \<Rightarrow> Some c' | Panic \<Rightarrow> Some (c\<lparr>cw_pc := Crashed PopPoint\<rparr>))"
| "dispatch_pc PopFailed env c = Some (d_idle c)"
| "dispatch_pc PopWait env c = Some (d_again c)"
| "dispatch_pc (GotItem u d) env c =
     (case d_item 0 u d c of Returns c' \<Rightarrow> Some c' | Panic \<Rightarrow> Some (c\<lparr>cw_pc := Crashed (GotItem u d)\<rparr>))"
| "dispatch_pc (HostWait u d h) env c =
     (if cw_hostSem c h < hostSemCap then Some (d_host env 0 0 u d h c) else None)"
| "dispatch_pc (RateWait u d h delay) env c =
     (case d_rate 0 True u d h c of Returns c' \<Rightarrow> Some c' | Panic \<Rightarrow> Some (c\<lparr>cw_pc := Crashed (RateWait u d h delay)\<rparr>))"
| "dispatch_pc (SemWait u d h) env c =
     (if int (cw_sem c) < maxConcurrent (cw_cfg c) then Some (d_spawn_page u d h c) else None)"
| "dispatch_pc (AssetWait u d h) env c =
     (if int (cw_assetSem c) < assetConcurrency (cw_cfg c) then Some (d_spawn_asset u d h c) else None)"
| "dispatch_pc LoopExited env c = None"
| "dispatch_pc (Crashed pc) env c = None"

definition give_up :: "'b crawler \<Rightarrow> 'b crawler option" where
  "give_up c = (if \<not> cw_cancelled c then None else case cw_pc c of
       PauseLoop \<Rightarrow> if cw_paused c then Some (d_abort c) else None
     | PopWait \<Rightarrow> Some (d_abort c)
     | AssetWait u d h \<Rightarrow> Some (d_asset_abort c)
     | HostWait u d h \<Rightarrow> Some (d_again c)
     | SemWait u d h \<Rightarrow> Some (d_page_abort h c)
     | _ \<Rightarrow> None)"

definition on_task :: "nat \<Rightarrow> 'b crawler \<Rightarrow> (phase \<Rightarrow> 'b crawler option) \<Rightarrow> 'b crawler option" where
  "on_task i c f = (if i < length (cw_tasks c) then f (tk_phase (cw_tasks c ! i)) else None)"

fun run_act :: "'b crawl_env \<Rightarrow> act \<Rightarrow> 'b crawler \<Rightarrow> 'b crawler option" where
  "run_act env Dispatch c = dispatch_pc (cw_pc c) env c"
| "run_act env GiveUp c = give_up c"
| "run_act env (StartTask i) c = on_task i c (\<lambda>p. case p of Spawned \<Rightarrow> Some (t_start i c) | _ \<Rightarrow> None)"
| "run_act env (CheckLink i link) c =
     on_task i c (\<lambda>p. case p of Running \<Rightarrow> if tk_asset (cw_tasks c ! i) then None else Some (t_check env i link c) | _ \<Rightarrow> None)"
| "run_act env (AdmitLink i) c = on_task i c (\<lambda>p. case p of LinkChecked u \<Rightarrow> Some (t_admit env i u c) | _ \<Rightarrow> None)"
| "run_act env (PushLink i) c = on_task i c (\<lambda>p. case p of LinkAdmitted u \<Rightarrow> Some (t_push i u c) | _ \<Rightarrow> None)"
| "run_act env (FinishTask i) c = on_task i c (\<lambda>p. case p of Spawned \<Rightarrow> None | _ \<Rightarrow> Some (t_finish i c))"
| "run_act env DoPause c = Some (PauseCrawl c)"
| "run_act env DoResume c = Some (ResumeCrawl c)"
| "run_act env DoStop c = Some (StopCrawl c)"

fun run_acts :: "'b crawl_env \<Rightarrow> act list \<Rightarrow> 'b crawler \<Rightarrow> 'b crawler option" where
  "run_acts env [] c = Some c"
| "run_acts env (a # as) c = (case run_act env a c of Some c' \<Rightarrow> run_acts env as c' | None \<Rightarrow> None)"

lemma dispatch_pc_step:
  assumes "dispatch_pc (cw_pc c) env c = Some c'"
  shows "cstep env c c'"
proof (cases "cw_pc c")
  case PopPoint
  then show ?thesis
    using assms cstep.pop [of c] cstep.pop_panic [of c env] by (cases "d_pop c") simp_all
next
  case (GotItem u d)
  then show ?thesis
    using assms cstep.item [of c u d 0] cstep.item_panic [of c u d 0 env] by (cases "d_item 0 u d c") simp_all
next
  case (RateWait u d h delay)
  then show ?thesis
    using assms cstep.rate [of c u d h delay True 0] cstep.rate_panic [of c u d h delay 0 True env]
    by (cases "d_rate 0 True u d h c") simp_all
qed (use assms in \<open>auto split: if_splits intro: cstep.intros\<close>)

lemma give_up_step: "give_up c = Some c' \<Longrightarrow> cstep env c c'"
  by (auto simp: give_up_def split: if_splits dpc.splits intro: cstep.intros)

lemma run_act_step: "run_act env a c = Some c' \<Longrightarrow> cstep env c c'"
  by (cases a) (auto simp: dispatch_pc_step give_up_step on_task_def split: if_splits phase.splits intro: cstep.intros)

lemma run_acts_reach: "run_acts env as c = Some c' \<Longrightarrow> (cstep env)\<^sup>*\<^sup>* c c'"
proof (induction as arbitrary: c)
  case (Cons a as)
  then obtain c1 where "run_act env a c = Some c1" "run_acts env as c1 = Some c'" by (auto split: option.splits)
  with Cons.IH run_act_step show ?case by (meson converse_rtranclp_into_rtranclp)
qed simp

text \<open>A crawl started on seeds and run by the scheduler.\<close>

definition run_crawl :: "'b crawl_env \<Rightarrow> checkpoint option \<Rightarrow> string list \<Rightarrow> act list \<Rightarrow> 'b crawler \<Rightarrow> 'b crawler option" where
  "run_crawl env cp seeds as c0 =
     (case start_crawl env (\<lambda>_. []) cp seeds c0 of Inr c \<Rightarrow> run_acts env as c | Inl e \<Rightarrow> None)"

lemma run_crawl_reaches: "run_crawl env cp seeds as c0 = Some c \<Longrightarrow> crawl_reaches env (\<lambda>_. []) cp seeds c0 c"
  by (auto simp: run_crawl_def crawl_reaches_def split: sum.splits dest: run_acts_reach)

text \<open>The crawl the witnesses run: an exact filter, one processor, no robots.txt.\<close>

definition demo_env :: "string list crawl_env" where
  "demo_env = \<lparr>bl_test = (\<lambda>b u. u \<in> set b), bl_add = (\<lambda>b u. u # b), env_parseDuration = (\<lambda>_. None),
     env_robots = (\<lambda>_. NoResponse)\<rparr>"

definition demo_crawler :: "string list crawler" where
  "demo_crawler = new_crawler (DefaultConfig\<lparr>cfg_RespectRobots := False, cfg_CheckpointFile := ''cp''\<rparr>) 1 (\<lambda>_. 0) []"

text \<open>Its first page is running after eight steps of the dispatcher and the start of the goroutine.\<close>

definition demo_page :: "act list" where
  "demo_page = replicate 8 Dispatch @ [StartTask 0, CheckLink 0 ''http://a/b'', AdmitLink 0]"

definition observe :: "'b crawler \<Rightarrow> dpc \<times> nat \<times> string list \<times> nat" where
  "observe c = (cw_pc c, Size (cw_queue c), map tk_url (cw_log c), length (cw_tasks c))"

lemma demo_page_runs:
  obtains c where "run_crawl demo_env None [''http://a/''] demo_page demo_crawler = Some c" "length (cw_tasks c) = 1"
    "map tk_url (cw_log c) = [''http://a/'']" "cw_pc c = AtTop" "\<not> cw_paused c" "\<not> cw_cancelled c"
proof -
  have "map_option (\<lambda>c. (observe c, cw_paused c, cw_cancelled c))
      (run_crawl demo_env None [''http://a/''] demo_page demo_crawler) = Some ((AtTop, 0, [''http://a/''], 1), False, False)"
    by code_simp
  then show thesis using that by (auto simp: observe_def)
qed

lemma Size_PushURL: "fst (PushURL q u d) \<Longrightarrow> Size (snd (PushURL q u d)) = Suc (Size q)"
  by (auto simp: PushURL_def Size_def split: if_splits)

section \<open>Invariants of every crawl\<close>

text \<open>C4: at every moment of a crawl at most \<open>maxConcurrent\<close> pages and \<open>assetConcurrency\<close> assets are
  being fetched, at most two pages of them from one host; the channels, the counter of active pages and
  the wait group agree with the goroutines that exist, up to what the dispatcher itself holds.\<close>

theorem crawl_concurrency_bounded:
  assumes "crawl_reaches env sitemaps cp seeds (new_crawler cfg gomaxprocs hashFn bloom) c"
    "\<And>data. cp = Some data \<Longrightarrow> checkpoint_ok data"
  shows "int (cw_sem c) \<le> maxConcurrent cfg \<and> int (cw_assetSem c) \<le> assetConcurrency cfg \<and> cw_hostSem c h \<le> 2 \<and>
    cw_sem c = length (filter (\<lambda>t. \<not> tk_asset t) (cw_tasks c)) \<and>
    cw_assetSem c = length (filter tk_asset (cw_tasks c)) \<and>
    cw_hostSem c h = length (filter (\<lambda>t. \<not> tk_asset t \<and> tk_host t = h) (cw_tasks c)) + held_host (cw_pc c) h \<and>
    cw_active c = int (length (cw_tasks c)) \<and> cw_wg c = int (length (cw_tasks c)) + held_wg (cw_pc c)"
  using crawl_inv_reaches [OF assms] by (auto simp: crawl_inv_def slots_ok_def hostSemCap_def)

theorem crawl_concurrency_bounded_witness:
  "\<exists>c. run_crawl demo_env None [''http://a/''] demo_page demo_crawler = Some c \<and> length (cw_tasks c) = 1 \<and>
     cw_hostSem c ''a'' \<le> 2 \<and> cw_active c = int (length (cw_tasks c))"
proof -
  obtain c where c: "run_crawl demo_env None [''http://a/''] demo_page demo_crawler = Some c" "length (cw_tasks c) = 1"
    by (rule demo_page_runs)
  show ?thesis
    using crawl_concurrency_bounded [OF run_crawl_reaches [OF c(1) [unfolded demo_crawler_def]], of "''a''"] c by auto
qed


text \<open>C5: every page visited is within the depth limit; of a host no more URLs are visited than its limit
  allows; and the total exceeds its limit by at most the number of goroutines that can run at a time,
  because the limit is compared with the goroutines that have started.\<close>

theorem crawl_within_limits:
  assumes "crawl_reaches env sitemaps cp seeds (new_crawler cfg gomaxprocs hashFn bloom) c"
    "\<And>data. cp = Some data \<Longrightarrow> checkpoint_ok data"
    "0 < cfg_MaxURLsPerHost cfg" "0 < cfg_MaxTotalURLs cfg"
  shows "list_all (\<lambda>t. tk_depth t \<le> cfg_MaxDepth cfg \<and> tk_host t = getHost (tk_url t)) (cw_log c) \<and>
    int (length (filter (\<lambda>t. tk_host t = h) (cw_log c))) \<le> cfg_MaxURLsPerHost cfg \<and>
    int (length (cw_log c)) \<le> cfg_MaxTotalURLs cfg + maxConcurrent cfg + assetConcurrency cfg"
proof (intro conjI)
  have inv: "depth_ok c" "hosts_ok c" "total_ok c" "cw_cfg c = cfg"
    using crawl_inv_reaches [OF assms(1,2)] by (simp_all add: crawl_inv_def)
  show "list_all (\<lambda>t. tk_depth t \<le> cfg_MaxDepth cfg \<and> tk_host t = getHost (tk_url t)) (cw_log c)"
    using inv by (simp add: depth_ok_def list_all_iff)
  have "0 \<le> host_in_hand (cw_pc c) h" by (simp add: host_in_hand_def split: option.splits)
  moreover have "int (log_host c h) + host_in_hand (cw_pc c) h \<le> cfg_MaxURLsPerHost cfg"
    using inv assms(3) by (simp add: hosts_ok_def)
  ultimately show "int (length (filter (\<lambda>t. tk_host t = h) (cw_log c))) \<le> cfg_MaxURLsPerHost cfg"
    by (simp add: log_host_def)
  show "int (length (cw_log c)) \<le> cfg_MaxTotalURLs cfg + maxConcurrent cfg + assetConcurrency cfg"
    using inv(3) assms(4) past_limit_nonneg [of "cw_pc c"] unfolding total_ok_def inv(4) by linarith
qed


theorem crawl_within_limits_witness:
  "\<exists>c. run_crawl demo_env None [''http://a/''] demo_page demo_crawler = Some c \<and> int (length (cw_log c)) \<le> 100021 \<and>
     cw_log c \<noteq> []"
proof -
  obtain c where c: "run_crawl demo_env None [''http://a/''] demo_page demo_crawler = Some c"
    "map tk_url (cw_log c) = [''http://a/'']"
    by (rule demo_page_runs)
  have "int (length (cw_log c)) \<le> 100021"
    using crawl_within_limits [OF run_crawl_reaches [OF c(1) [unfolded demo_crawler_def]]]
    by (simp add: DefaultConfig_def maxConcurrent_def assetConcurrency_def)
  then show ?thesis using c by auto
qed

section \<open>A crawl can come to an end\<close>

fun pc_rank :: "dpc \<Rightarrow> nat" where
  "pc_rank AtTop = 6"
| "pc_rank PauseLoop = 5"
| "pc_rank LimitCheck = 4"
| "pc_rank PopPoint = 3"
| "pc_rank PopFailed = 2"
| "pc_rank PopWait = 7"
| "pc_rank (GotItem u d) = 12"
| "pc_rank (HostWait u d h) = 11"
| "pc_rank (RateWait u d h delay) = 10"
| "pc_rank (SemWait u d h) = 9"
| "pc_rank (AssetWait u d h) = 9"
| "pc_rank LoopExited = 0"
| "pc_rank (Crashed pc) = 0"

definition work :: "'b crawler \<Rightarrow> nat" where
  "work c = 20 * Size (cw_queue c) + length (cw_tasks c) + spawned c + pc_rank (cw_pc c)"

text \<open>The dispatcher has left its loop only with nothing to do or at the limit.\<close>

definition exit_ok :: "'b crawler \<Rightarrow> bool" where
  "exit_ok c \<longleftrightarrow> (cw_pc c = LoopExited \<longrightarrow> Size (cw_queue c) = 0 \<or> limit_reached c) \<and>
     (cw_pc c = PopFailed \<longrightarrow> Size (cw_queue c) = 0)"

definition running :: "'b crawler \<Rightarrow> bool" where
  "running c \<longleftrightarrow> crawl_inv c \<and> \<not> cw_paused c \<and> \<not> cw_cancelled c \<and> exit_ok c"

lemma t_finish_simps:
  "cw_tasks (t_finish i c) = remove_at i (cw_tasks c)" "cw_queue (t_finish i c) = cw_queue c"
  "cw_pc (t_finish i c) = cw_pc c" "cw_paused (t_finish i c) = cw_paused c"
  "cw_cancelled (t_finish i c) = cw_cancelled c" "limit_reached (t_finish i c) = limit_reached c"
  by (simp_all add: t_finish_def release_host_def limit_reached_def Let_def)

text \<open>The goroutines first: the oldest starts or returns.\<close>

lemma work_task:
  assumes "running c" "cw_tasks c \<noteq> []"
  shows "\<exists>c'. cstep env c c' \<and> running c' \<and> work c' < work c"
proof (cases "tk_phase (cw_tasks c ! 0) = Spawned")
  case True
  have st: "cstep env c (t_start 0 c)" using assms(2) True by (intro cstep.start) simp_all
  have "spawned c = Suc (spawned (set_phase 0 Running c))"
    using assms(2) True by (simp add: spawned_def set_phase_def length_filter_change)
  then have "work (t_start 0 c) < work c"
    by (simp add: work_def t_start_def spawned_def set_phase_def)
  moreover have "running (t_start 0 c)"
    using assms(1) crawl_inv_step [OF st]
    by (auto simp: running_def exit_ok_def limit_reached_def t_start_def set_phase_def)
  ultimately show ?thesis using st by blast
next
  case False
  have st: "cstep env c (t_finish 0 c)" using assms(2) False by (intro cstep.finish) simp_all
  have "spawned (t_finish 0 c) \<le> spawned c" "length (cw_tasks (t_finish 0 c)) < length (cw_tasks c)"
    using assms(2) length_filter_remove_at [of 0 "cw_tasks c" "\<lambda>t. tk_phase t = Spawned"] length_remove_at [of 0 "cw_tasks c"]
    by (simp_all add: spawned_def t_finish_simps)
  then have "work (t_finish 0 c) < work c" by (simp add: work_def t_finish_simps)
  moreover have "running (t_finish 0 c)"
    using assms(1) crawl_inv_step [OF st] by (simp add: running_def exit_ok_def t_finish_simps)
  ultimately show ?thesis using st by blast
qed

text \<open>A step of the dispatcher that keeps the queue and spawns nothing.\<close>

lemma work_move:
  assumes "running c" "cstep env c c'" "cw_queue c' = cw_queue c" "cw_tasks c' = cw_tasks c"
    "pc_rank (cw_pc c') < pc_rank (cw_pc c)" "cw_paused c' = cw_paused c" "cw_cancelled c' = cw_cancelled c"
    "exit_ok c'"
  shows "\<exists>c'. cstep env c c' \<and> running c' \<and> work c' < work c"
  using assms crawl_inv_step [OF assms(2)]
  by (intro exI [of _ c']) (auto simp: running_def work_def spawned_def)

lemma work_crash:
  assumes "running c" "cstep env c (c\<lparr>cw_pc := Crashed (cw_pc c)\<rparr>)" "0 < pc_rank (cw_pc c)"
  shows "\<exists>c'. cstep env c c' \<and> running c' \<and> work c' < work c"
  using assms by (intro work_move [OF assms(1,2)]) (simp_all add: exit_ok_def)

lemma caps_pos: "0 < maxConcurrent cfg" "0 < assetConcurrency cfg"
  by (auto simp: maxConcurrent_def assetConcurrency_def)

lemma work_dispatch:
  assumes run: "running c" and none: "cw_tasks c = []" and live: "0 < pc_rank (cw_pc c)"
  shows "\<exists>c'. cstep env c c' \<and> running c' \<and> work c' < work c"
proof -
  have free: "cw_sem c = 0" "cw_assetSem c = 0" "\<And>h. cw_hostSem c h = held_host (cw_pc c) h" "cw_active c = 0"
    and up: "\<not> cw_paused c" "\<not> cw_cancelled c" and wf: "pq_wf (cw_queue c)" and ex: "exit_ok c"
    using run none by (simp_all add: running_def crawl_inv_def slots_ok_def once_ok_def)
  note move = work_move [OF run] and crash = work_crash [OF run]
  show ?thesis
  proof (cases "cw_pc c")
    case AtTop
    show ?thesis
      by (rule move [OF cstep.top [OF AtTop]]) (use AtTop up in \<open>simp_all add: d_top_def exit_ok_def\<close>)
  next
    case PauseLoop
    show ?thesis
      by (rule move [OF cstep.unpaused [OF PauseLoop up(1)]]) (use PauseLoop in \<open>simp_all add: d_unpaused_def exit_ok_def\<close>)
  next
    case LimitCheck
    show ?thesis
      by (rule move [OF cstep.limit [OF LimitCheck]])
         (use LimitCheck in \<open>simp_all add: d_limit_def exit_ok_def limit_reached_def\<close>)
  next
    case PopFailed
    show ?thesis
      by (rule move [OF cstep.idle [OF PopFailed]]) (use PopFailed free ex in \<open>simp_all add: d_idle_def exit_ok_def\<close>)
  next
    case PopWait
    show ?thesis
      by (rule move [OF cstep.again [OF PopWait]]) (use PopWait in \<open>simp_all add: d_again_def exit_ok_def\<close>)
  next
    case PopPoint
    show ?thesis
      using wf
    proof (cases rule: PopURL_cases)
      case empty
      then have "d_pop c = Returns (c\<lparr>cw_queue := cw_queue c, cw_pc := PopFailed\<rparr>)" by (simp add: d_pop_def)
      from cstep.pop [OF PopPoint this] show ?thesis
        by (rule move) (use PopPoint empty in \<open>simp_all add: exit_ok_def Size_def\<close>)
    next
      case (item i q')
      let ?c = "c\<lparr>cw_queue := q', cw_pc := GotItem (itemURL i) (itemDepth i)\<rparr>"
      have "d_pop c = Returns ?c" using item by (simp add: d_pop_def)
      from cstep.pop [OF PopPoint this] have st: "cstep env c ?c" .
      moreover have "running ?c" using crawl_inv_step [OF st] run by (simp add: running_def exit_ok_def)
      moreover have "work ?c < work c" using item PopPoint by (simp add: work_def spawned_def)
      ultimately show ?thesis by blast
    qed
  next
    case (GotItem u d)
    show ?thesis
    proof (cases "d_item 0 u d c")
      case (Returns c')
      note st = cstep.item [OF GotItem Returns]
      show ?thesis
        using Returns by (cases rule: d_item_frame; intro move [OF st]) (use GotItem in \<open>auto simp: exit_ok_def\<close>)
    next
      case Panic
      show ?thesis by (rule crash [OF cstep.item_panic [OF GotItem Panic]]) (simp add: GotItem)
    qed
  next
    case (HostWait u d h)
    have "cw_hostSem c h < hostSemCap" using free HostWait by (simp add: hostSemCap_def)
    note st = cstep.host [OF HostWait this, where env = env and now = 0 and r = 0]
    show ?thesis
      by (cases rule: d_host_frame [of env 0 0 u d h c]; rule move [OF st])
         (use HostWait in \<open>simp_all add: exit_ok_def release_host_def\<close>)
  next
    case (RateWait u d h delay)
    show ?thesis
    proof (cases "d_rate 0 True u d h c")
      case (Returns c')
      note st = cstep.rate [OF RateWait _ Returns, simplified]
      show ?thesis
        using Returns by (cases rule: d_rate_frame; intro move [OF st]) (use RateWait in \<open>auto simp: exit_ok_def release_host_def\<close>)
    next
      case Panic
      show ?thesis by (rule crash [OF cstep.rate_panic [OF RateWait Panic]]) (simp add: RateWait)
    qed
  next
    case (SemWait u d h)
    have "int (cw_sem c) < maxConcurrent (cw_cfg c)" using free caps_pos by simp
    from cstep.page [OF SemWait this] have st: "cstep env c (d_spawn_page u d h c)" .
    then show ?thesis
      using crawl_inv_step [OF st] run none SemWait
      by (intro exI [of _ "d_spawn_page u d h c"])
         (simp add: running_def exit_ok_def work_def spawned_def d_spawn_page_def new_task_def)
  next
    case (AssetWait u d h)
    have "int (cw_assetSem c) < assetConcurrency (cw_cfg c)" using free caps_pos by simp
    from cstep.asset [OF AssetWait this] have st: "cstep env c (d_spawn_asset u d h c)" .
    then show ?thesis
      using crawl_inv_step [OF st] run none AssetWait
      by (intro exI [of _ "d_spawn_asset u d h c"])
         (simp add: running_def exit_ok_def work_def spawned_def d_spawn_asset_def new_task_def)
  qed (use live in simp_all)
qed

lemma running_ends:
  "running c \<Longrightarrow> \<exists>c'. (cstep env)\<^sup>*\<^sup>* c c' \<and> running c' \<and> cw_tasks c' = [] \<and> pc_rank (cw_pc c') = 0"
proof (induction "work c" arbitrary: c rule: less_induct)
  case less
  show ?case
  proof (cases "cw_tasks c = [] \<and> pc_rank (cw_pc c) = 0")
    case True
    then show ?thesis using less.prems by blast
  next
    case False
    then obtain c1 where "cstep env c c1" "running c1" "work c1 < work c"
      using work_task [OF less.prems] work_dispatch [OF less.prems] by blast
    then show ?thesis using less.hyps by (meson converse_rtranclp_into_rtranclp)
  qed
qed



section \<open>Where the dispatcher stops too early\<close>

text \<open>Between the failed pop and the test for active pages the last page can push its links and end;
  then the dispatcher leaves its loop although the queue holds URLs, and they are never crawled.\<close>

theorem dispatcher_stops_early:
  assumes "crawl_reaches env sitemaps None seeds (new_crawler cfg gomaxprocs hashFn bloom) c"
    "cw_pc c = PopFailed" "cw_tasks c = [t]" "tk_phase t = LinkAdmitted u" "fst (PushURL (cw_queue c) u (tk_depth t + 1))"
  shows "\<exists>c'. (cstep env)\<^sup>*\<^sup>* c c' \<and> cw_pc c' = LoopExited \<and> cw_tasks c' = [] \<and>
     Size (cw_queue c') = Suc (Size (cw_queue c)) \<and> cw_cancelled c' = cw_cancelled c \<and> cw_total c' = cw_total c"
proof -
  let ?c1 = "t_push 0 u c" and ?c2 = "t_finish 0 (t_push 0 u c)"
  have act: "cw_active c = 1"
    using crawl_inv_reaches [OF assms(1)] assms(3) by (simp add: crawl_inv_def slots_ok_def)
  have tasks1: "cw_tasks ?c1 = [t\<lparr>tk_phase := Running\<rparr>]"
    using assms(3) by (simp add: t_push_def push_def set_phase_def)
  have "cstep env c ?c1" using assms(3,4) by (intro cstep.link_push) simp_all
  moreover have "cstep env ?c1 ?c2" by (intro cstep.finish) (simp_all add: tasks1)
  moreover have pc2: "cw_pc ?c2 = PopFailed" using assms(2) by (simp add: t_finish_simps t_push_def push_def set_phase_def)
  then have "cstep env ?c2 (d_idle ?c2)" by (rule cstep.idle)
  ultimately have "(cstep env)\<^sup>*\<^sup>* c (d_idle ?c2)" by (meson converse_rtranclp_into_rtranclp rtranclp.rtrancl_refl)
  moreover have "cw_active ?c2 = 0"
    using act by (simp add: t_finish_def release_host_def t_push_def push_def set_phase_def Let_def)
  moreover have "Size (cw_queue ?c2) = Suc (Size (cw_queue c))"
  proof -
    have "Size (snd (PushURL (cw_queue c) u (tk_depth t + 1))) = Suc (Size (cw_queue c))"
      using assms(5) by (rule Size_PushURL)
    then show ?thesis using assms(3) by (simp add: t_finish_simps t_push_def push_def set_phase_def)
  qed
  moreover have "cw_tasks ?c2 = []" by (simp add: t_finish_simps tasks1)
  moreover have "cw_cancelled ?c2 = cw_cancelled c" "cw_total ?c2 = cw_total c"
    by (simp_all add: t_finish_def release_host_def t_push_def push_def set_phase_def Let_def)
  ultimately show ?thesis by (intro exI [of _ "d_idle ?c2"]) (simp add: d_idle_def)
qed

theorem dispatcher_stops_early_witness:
  "\<exists>c c'. run_crawl demo_env None [''http://a/''] (demo_page @ replicate 4 Dispatch) demo_crawler = Some c \<and>
     (cstep demo_env)\<^sup>*\<^sup>* c c' \<and> cw_pc c' = LoopExited \<and> Size (cw_queue c') = Suc 0"
proof -
  have "map_option (\<lambda>c. (observe c, map tk_phase (cw_tasks c), fst (PushURL (cw_queue c) ''http://a/b'' (tk_depth (hd (cw_tasks c)) + 1))))
      (run_crawl demo_env None [''http://a/''] (demo_page @ replicate 4 Dispatch) demo_crawler) =
      Some ((PopFailed, 0, [''http://a/''], 1), [LinkAdmitted ''http://a/b''], True)"
    by code_simp
  then obtain c where c: "run_crawl demo_env None [''http://a/''] (demo_page @ replicate 4 Dispatch) demo_crawler = Some c"
    "cw_pc c = PopFailed" "Size (cw_queue c) = 0" "length (cw_tasks c) = 1" "map tk_phase (cw_tasks c) = [LinkAdmitted ''http://a/b'']"
    "fst (PushURL (cw_queue c) ''http://a/b'' (tk_depth (hd (cw_tasks c)) + 1))"
    by (auto simp: observe_def)
  then obtain t where t: "cw_tasks c = [t]" "tk_phase t = LinkAdmitted ''http://a/b''" by (auto simp: length_Suc_conv)
  show ?thesis
    using dispatcher_stops_early [OF run_crawl_reaches [OF c(1) [unfolded demo_crawler_def]] c(2) t] c t by auto
qed

section \<open>Checkpoints\<close>

text \<open>\<open>saveCheckpoint\<close> of queueing.go; \<open>keys\<close> is the order in which the visited set is ranged over later.\<close>

definition saveCheckpoint :: "string list \<Rightarrow> 'b crawler \<Rightarrow> checkpoint" where
  "saveCheckpoint keys c = (case Snapshot (cw_queue c) of (items, visited) \<Rightarrow> (items, visited, keys, cw_hostCount c))"

text \<open>
  The checkpoint file at the end of \<open>Start\<close>: saved if a path is configured, then removed if it exists.
  \<open>saved\<close> and \<open>removed\<close> tell whether the file system lets the two calls succeed.
\<close>

definition end_of_crawl :: "string list \<Rightarrow> bool \<Rightarrow> bool \<Rightarrow> 'b crawler \<Rightarrow> checkpoint option \<Rightarrow> checkpoint option" where
  "end_of_crawl keys saved removed c file =
     (let file1 = (if cfg_CheckpointFile (cw_cfg c) \<noteq> [] \<and> saved then Some (saveCheckpoint keys c) else file)
      in if cfg_CheckpointFile (cw_cfg c) \<noteq> [] \<and> file1 \<noteq> None \<and> removed then None else file1)"

text \<open>An interrupted crawl leaves no checkpoint either.\<close>

lemma interrupted_crawl_leaves_no_checkpoint:
  "cfg_CheckpointFile (cw_cfg c) \<noteq> [] \<Longrightarrow> end_of_crawl keys True True (StopCrawl c) file = None"
  by (cases "saveCheckpoint keys (StopCrawl c)") (simp add: end_of_crawl_def Let_def StopCrawl_def)

lemma pq_wf_items:
  assumes "pq_wf q"
  shows "distinct (map itemURL (pq_items q))" "\<And>i. i \<in> set (pq_items q) \<Longrightarrow> pq_seen q (itemURL i) = Some True"
proof -
  have urls: "image_mset fst (pendingItems q) = mset (map itemURL (pq_items q))"
    by (simp add: pendingItems_def payloads_def payload_def image_mset.compositionality comp_def)
  have cnt: "count (mset (map itemURL (pq_items q))) u \<le> (if HasSeen q u then 1 else 0)" for u
    using assms unfolding pq_wf_def urls by blast
  have one: "count_list (map itemURL (pq_items q)) u \<le> 1" for u
    using cnt [of u] unfolding count_mset by (rule order_trans) simp
  show "distinct (map itemURL (pq_items q))" by (rule distinct_by_count) (rule one)
  show "pq_seen q (itemURL i) = Some True" if "i \<in> set (pq_items q)" for i
  proof (rule ccontr)
    assume "pq_seen q (itemURL i) \<noteq> Some True"
    then have "count (mset (map itemURL (pq_items q))) (itemURL i) = 0"
      using cnt [of "itemURL i"] by (simp add: HasSeen_def)
    then have "itemURL i \<notin> itemURL ` set (pq_items q)" by (simp add: count_eq_zero_iff image_iff)
    then show False using that by blast
  qed
qed

lemma saveCheckpoint_ok: "crawl_inv c \<Longrightarrow> checkpoint_ok (saveCheckpoint keys c)"
proof -
  assume inv: "crawl_inv c"
  then have wf: "pq_wf (cw_queue c)" by (simp add: crawl_inv_def once_ok_def)
  have "0 \<le> cw_hostCount c h" for h
  proof -
    have "int (log_host c h) + host_in_hand (cw_pc c) h \<le> cw_hostCount c h"
      using inv by (simp add: crawl_inv_def hosts_ok_def)
    moreover have "0 \<le> host_in_hand (cw_pc c) h" by (simp add: host_in_hand_def split: option.splits)
    ultimately show ?thesis by linarith
  qed
  then show ?thesis using pq_wf_items [OF wf] by (simp add: checkpoint_ok_def saveCheckpoint_def Snapshot_def)
qed

text \<open>A restored queue can give out what the saved one could.\<close>

lemma budget_restored:
  assumes "cfg_CheckpointFile (cw_cfg c0) \<noteq> []"
  shows "pq.budget (restored_queue (Some (saveCheckpoint keys c)) c0) = pq.budget (cw_queue c)"
proof -
  have "pendingItems (LoadFromCheckpoint q (pq_items q1) (pq_seen q1)) = pendingItems q1"
    "visitedSet (LoadFromCheckpoint q (pq_items q1) (pq_seen q1)) = visitedSet q1" for q q1
    by (simp_all add: pendingItems_def LoadFromCheckpoint_def visitedSet_def HasSeen_def)
  then show ?thesis
    using assms by (intro ext) (simp add: restored_queue_def saveCheckpoint_def Snapshot_def pq.budget_def)
qed

text \<open>C7: a checkpoint does not record the URLs in work: a URL that a goroutine was fetching when the
  checkpoint was saved is marked as visited, so no crawl resumed from the checkpoint fetches it, whatever
  its seeds and its configuration.\<close>

theorem resumed_crawl_skips_pages_in_work:
  assumes "crawl_reaches env sitemaps None seeds (new_crawler cfg gomaxprocs hashFn bloom) c" "t \<in> set (cw_tasks c)"
    "cfg_CheckpointFile cfg' \<noteq> []"
    "crawl_reaches env' sitemaps' (Some (saveCheckpoint keys c)) seeds' (new_crawler cfg' gomaxprocs' hashFn' bloom') c'"
  shows "tk_url t \<notin> tk_url ` set (cw_log c')"
proof -
  let ?u = "tk_url t"
  have inv: "crawl_inv c" using crawl_inv_reaches [OF assms(1)] by simp
  have "?u \<in> tk_url ` set (cw_log c)" using tasks_logged [OF assms(1)] assms(2) by auto
  then have "count_list (map tk_url (cw_log c)) ?u \<noteq> 0" by (simp add: count_list_0_iff)
  moreover have "count_list (map tk_url (cw_log c)) ?u + in_hand (cw_pc c) ?u + pq.budget (cw_queue c) ?u \<le> 1"
    using inv unfolding crawl_inv_def once_ok_def by blast
  ultimately have zero: "pq.budget (cw_queue c) ?u = 0" by linarith
  have "once_ok (pq.budget (cw_queue c)) c'"
    using assms(4)
  proof (rule crawl_reaches_induct)
    fix c1 assume st: "start_crawl env' sitemaps' (Some (saveCheckpoint keys c)) seeds' (new_crawler cfg' gomaxprocs' hashFn' bloom') = Inr c1"
    have ok: "checkpoint_ok data" if "Some (saveCheckpoint keys c) = Some data" for data
      using that saveCheckpoint_ok [OF inv, of keys] by blast
    have b: "pq.budget (restored_queue (Some (saveCheckpoint keys c)) (new_crawler cfg' gomaxprocs' hashFn' bloom')) = pq.budget (cw_queue c)"
      by (rule budget_restored) (simp add: new_crawler_def assms(3))
    show "once_ok (pq.budget (cw_queue c)) c1"
      by (rule start_crawl_new [OF st ok]) (simp_all add: new_crawler_def once_ok_def in_hand_def b [unfolded new_crawler_def])
  qed (rule once_ok_step)
  then have "count_list (map tk_url (cw_log c')) ?u + in_hand (cw_pc c') ?u + pq.budget (cw_queue c') ?u \<le> 0"
    using zero unfolding once_ok_def by metis
  then have "count_list (map tk_url (cw_log c')) ?u = 0" by simp
  then show ?thesis by (simp add: count_list_0_iff)
qed

theorem resumed_crawl_skips_pages_in_work_witness:
  "\<exists>c c'. run_crawl demo_env None [''http://a/''] demo_page demo_crawler = Some c \<and> length (cw_tasks c) = 1 \<and>
     run_crawl demo_env (Some (saveCheckpoint [''http://a/''] c)) [''http://c/''] (replicate 8 Dispatch) demo_crawler = Some c' \<and>
     ''http://a/'' \<notin> tk_url ` set (cw_log c')"
proof -
  let ?r = "run_crawl demo_env None [''http://a/''] demo_page demo_crawler"
  let ?s = "\<lambda>c. run_crawl demo_env (Some (saveCheckpoint [''http://a/''] c)) [''http://c/''] (replicate 8 Dispatch) demo_crawler"
  have "map_option (\<lambda>c. (map tk_url (cw_tasks c), map_option (\<lambda>c'. map tk_url (cw_log c')) (?s c))) ?r =
      Some ([''http://a/''], Some [''http://c/''])"
    by code_simp
  then obtain c c' where c: "?r = Some c" "map tk_url (cw_tasks c) = [''http://a/'']" "?s c = Some c'" by auto
  then obtain t where t: "cw_tasks c = [t]" "tk_url t = ''http://a/''" by auto
  have "tk_url t \<notin> tk_url ` set (cw_log c')"
    by (rule resumed_crawl_skips_pages_in_work [OF run_crawl_reaches [OF c(1) [unfolded demo_crawler_def]] _ _
          run_crawl_reaches [OF c(3) [unfolded demo_crawler_def]]]) (simp_all add: t DefaultConfig_def)
  then show ?thesis using c t by auto
qed

end
