(* ===== verification/Coordinator.thy ===== *)
theory Coordinator
  imports GoPath
begin

text \<open>
  The parts of \<open>internal/coordinator\<close> that the backends share: types.go, factory.go, and the worker registry
  of file_coordinator.go with its mutex. The locks and the leader election are in \<open>FileLocks\<close> and
  \<open>RedisLocks\<close>. The mutex matters only where a method takes it twice, so it is modelled for the registry
  alone; the registry is written to its file as the map itself, before its encoding as JSON.
\<close>

section \<open>types.go\<close>

record worker_info =
  wi_ID :: string
  wi_Hostname :: string
  wi_PID :: int
  wi_StartTime :: int
  wi_Capabilities :: "string list"
  wi_Metadata :: "string \<rightharpoonup> string"
  wi_LastHeartbeat :: int

record coord_config =
  cc_Backend :: string
  cc_RedisURL :: string
  cc_EtcdEndpoints :: "string list"
  cc_LockDir :: string
  cc_WorkerID :: string
  cc_HeartbeatTTL :: int
  cc_LockTTL :: int

definition coord_DefaultConfig :: coord_config where
  "coord_DefaultConfig = \<lparr>cc_Backend = ''none'', cc_RedisURL = [], cc_EtcdEndpoints = [],
     cc_LockDir = ''/tmp/clone-coordinator'', cc_WorkerID = [],
     cc_HeartbeatTTL = 30 * 10 ^ 9, cc_LockTTL = 10 * 10 ^ 9\<rparr>"

section \<open>factory.go\<close>

datatype backend = NoOp | FileBackend | RedisBackend

text \<open>\<open>pid\<close> is the decimal process id; the left result is the error.\<close>

definition new_worker :: "coord_config \<Rightarrow> string \<Rightarrow> int \<Rightarrow> string \<Rightarrow> int \<Rightarrow> worker_info" where
  "new_worker cfg host pid pidText now =
     \<lparr>wi_ID = (if cc_WorkerID cfg = [] then host @ ''-'' @ pidText else cc_WorkerID cfg),
      wi_Hostname = host, wi_PID = pid, wi_StartTime = now, wi_Capabilities = [''crawl''],
      wi_Metadata = Map.empty, wi_LastHeartbeat = 0\<rparr>"

definition NewCoordinator :: "coord_config \<Rightarrow> string \<Rightarrow> int \<Rightarrow> string \<Rightarrow> int \<Rightarrow> string + backend \<times> worker_info" where
  "NewCoordinator cfg host pid pidText now =
     (let worker = new_worker cfg host pid pidText now
      in if cc_Backend cfg = ''none'' then Inr (NoOp, worker)
         else if cc_Backend cfg = ''file'' then Inr (FileBackend, worker)
         else if cc_Backend cfg = ''redis'' then
           (if cc_RedisURL cfg = [] then Inl ''redis_url required for Redis coordinator'' else Inr (RedisBackend, worker))
         else Inl (''unsupported coordinator backend: '' @ cc_Backend cfg))"

definition WithCoordinator :: "coord_config \<Rightarrow> string \<Rightarrow> string \<Rightarrow> coord_config" where
  "WithCoordinator cfg host pidText =
     (if cc_WorkerID cfg = [] then cfg\<lparr>cc_WorkerID := host @ ''-'' @ pidText\<rparr> else cfg)"

definition noop_IsLeader :: "worker_info \<Rightarrow> bool" where "noop_IsLeader w = True"
definition noop_LeaderID :: "worker_info \<Rightarrow> string" where "noop_LeaderID w = wi_ID w"
definition noop_GetWorkers :: "worker_info \<Rightarrow> worker_info list" where "noop_GetWorkers w = [w]"
definition noop_AcquireLock :: "worker_info \<Rightarrow> string \<Rightarrow> bool" where "noop_AcquireLock w key = True"

section \<open>The worker registry and its mutex\<close>

text \<open>
  \<open>sync.RWMutex\<close>: \<open>None\<close> says that the call blocks. Seen from a method that runs alone a blocked call
  stays blocked: nobody else is there to unlock.
\<close>

datatype rwmutex = Unlocked | RLocked nat | WLocked

fun rw_Lock :: "rwmutex \<Rightarrow> rwmutex option" where
  "rw_Lock Unlocked = Some WLocked"
| "rw_Lock _ = None"

fun rw_RLock :: "rwmutex \<Rightarrow> rwmutex option" where
  "rw_RLock Unlocked = Some (RLocked 1)"
| "rw_RLock (RLocked n) = Some (RLocked (n + 1))"
| "rw_RLock WLocked = None"

fun rw_RUnlock :: "rwmutex \<Rightarrow> rwmutex" where
  "rw_RUnlock (RLocked n) = (if n \<le> 1 then Unlocked else RLocked (n - 1))"
| "rw_RUnlock m = m"

record registry =
  rg_mu :: rwmutex
  rg_self :: worker_info
  rg_workers :: "string \<rightharpoonup> worker_info"
  rg_file :: "(string \<rightharpoonup> worker_info) option"

text \<open>\<open>written\<close> tells whether \<open>os.WriteFile\<close> succeeds; the result is whether there was no error.\<close>

definition persistWorkers :: "bool \<Rightarrow> registry \<Rightarrow> (bool \<times> registry) option" where
  "persistWorkers written g =
     (case rw_RLock (rg_mu g) of
        None \<Rightarrow> None
      | Some m \<Rightarrow> Some (written, g\<lparr>rg_mu := rw_RUnlock m, rg_file := (if written then Some (rg_workers g) else rg_file g)\<rparr>))"

definition RegisterWorker :: "bool \<Rightarrow> worker_info \<Rightarrow> registry \<Rightarrow> (bool \<times> registry) option" where
  "RegisterWorker written worker g =
     (case rw_Lock (rg_mu g) of
        None \<Rightarrow> None
      | Some m \<Rightarrow>
          (case persistWorkers written (g\<lparr>rg_mu := m, rg_workers := (rg_workers g)(wi_ID worker \<mapsto> worker)\<rparr>) of
             None \<Rightarrow> None
           | Some (ok, g') \<Rightarrow> Some (ok, g'\<lparr>rg_mu := Unlocked\<rparr>)))"

definition DeregisterWorker :: "bool \<Rightarrow> string \<Rightarrow> registry \<Rightarrow> (bool \<times> registry) option" where
  "DeregisterWorker written workerID g =
     (case rw_Lock (rg_mu g) of
        None \<Rightarrow> None
      | Some m \<Rightarrow>
          (case persistWorkers written (g\<lparr>rg_mu := m, rg_workers := (rg_workers g)(workerID := None)\<rparr>) of
             None \<Rightarrow> None
           | Some (ok, g') \<Rightarrow> Some (ok, g'\<lparr>rg_mu := Unlocked\<rparr>)))"

text \<open>The heartbeat unlocks before it persists; the registry holds a pointer to the own worker.\<close>

definition updateHeartbeat :: "bool \<Rightarrow> int \<Rightarrow> registry \<Rightarrow> registry option" where
  "updateHeartbeat written now g =
     (case rw_Lock (rg_mu g) of
        None \<Rightarrow> None
      | Some m \<Rightarrow>
          let self = (rg_self g)\<lparr>wi_LastHeartbeat := now\<rparr>;
              ws = (if wi_ID self \<in> dom (rg_workers g) then (rg_workers g)(wi_ID self \<mapsto> self) else rg_workers g)
          in map_option snd (persistWorkers written (g\<lparr>rg_mu := Unlocked, rg_self := self, rg_workers := ws\<rparr>)))"

definition GetWorkers :: "registry \<Rightarrow> worker_info set option" where
  "GetWorkers g = map_option (\<lambda>m. ran (rg_workers g)) (rw_RLock (rg_mu g))"

text \<open>Registering or deregistering a worker never returns: the method holds the write lock when it
  calls \<open>persistWorkers\<close>, which asks for the read lock. The heartbeat, which unlocks first, returns and
  records the workers.\<close>

theorem RegisterWorker_deadlocks:
  "RegisterWorker written worker g = None \<and> DeregisterWorker written workerID g = None \<and>
   (rg_mu g = Unlocked \<longrightarrow> (\<exists>g'. updateHeartbeat True now g = Some g' \<and> rg_mu g' = Unlocked \<and> rg_file g' = Some (rg_workers g')))"
  by (cases "rg_mu g") (simp_all add: RegisterWorker_def DeregisterWorker_def updateHeartbeat_def persistWorkers_def Let_def)

theorem RegisterWorker_deadlocks_witness:
  "\<exists>g. RegisterWorker True (new_worker coord_DefaultConfig ''h'' 1 ''1'' 0) g = None \<and>
     (\<exists>g'. updateHeartbeat True 5 g = Some g' \<and> rg_file g' = Some (rg_workers g'))"
  by (rule exI [of _ "\<lparr>rg_mu = Unlocked, rg_self = new_worker coord_DefaultConfig ''h'' 1 ''1'' 0, rg_workers = Map.empty, rg_file = None\<rparr>"])
     (use RegisterWorker_deadlocks [where now = 5 and workerID = "''w''" and written = True and
        worker = "new_worker coord_DefaultConfig ''h'' 1 ''1'' 0" and
        g = "\<lparr>rg_mu = Unlocked, rg_self = new_worker coord_DefaultConfig ''h'' 1 ''1'' 0, rg_workers = Map.empty, rg_file = None\<rparr>"] in auto)

end
