(* ===== verification/FileLocks.thy ===== *)
theory FileLocks
  imports Coordinator "HOL-Library.Code_Target_Nat"
begin

text \<open>
  The locks and the leader election of \<open>internal/coordinator/file_coordinator.go\<close>, with several worker
  processes on one file system.
\<close>

section \<open>Files, descriptors and flock\<close>

text \<open>
  What the kernel does for \<open>unix.Flock\<close>: \<open>fl_lock\<close> is \<open>LOCK_EX|LOCK_NB\<close> on an inode through a
  descriptor, \<open>fl_unlock\<close> is \<open>LOCK_UN\<close> or closing the descriptor, \<open>fl_owner\<close> the descriptor that holds
  the lock of an inode.
\<close>

record 'l flock_api =
  fl_lock :: "nat \<Rightarrow> nat \<Rightarrow> 'l \<Rightarrow> bool \<times> 'l"
  fl_unlock :: "nat \<Rightarrow> nat \<Rightarrow> 'l \<Rightarrow> 'l"
  fl_owner :: "'l \<Rightarrow> nat \<rightharpoonup> nat"

definition flock_laws :: "'l flock_api \<Rightarrow> bool" where
  "flock_laws fl \<longleftrightarrow>
     (\<forall>i fd l. fst (fl_lock fl i fd l) \<longleftrightarrow> fl_owner fl l i \<in> {None, Some fd}) \<and>
     (\<forall>i fd l. fl_owner fl (snd (fl_lock fl i fd l)) =
        (if fst (fl_lock fl i fd l) then (fl_owner fl l)(i \<mapsto> fd) else fl_owner fl l)) \<and>
     (\<forall>i fd l. fl_owner fl (fl_unlock fl i fd l) =
        (if fl_owner fl l i = Some fd then (fl_owner fl l)(i := None) else fl_owner fl l))"

record 'l files =
  os_path :: "string \<rightharpoonup> nat"
  os_inode :: "nat \<Rightarrow> nat"
  os_content :: "nat \<Rightarrow> string"
  os_next_inode :: nat
  os_next_fd :: nat
  os_locks :: 'l

text \<open>\<open>OpenFile\<close> with \<open>O_CREATE\<close>: the new descriptor.\<close>

definition os_OpenFile :: "string \<Rightarrow> 'l files \<Rightarrow> nat \<times> 'l files" where
  "os_OpenFile p s =
     (let fd = os_next_fd s in
      case os_path s p of
        Some i \<Rightarrow> (fd, s\<lparr>os_inode := (os_inode s)(fd := i), os_next_fd := fd + 1\<rparr>)
      | None \<Rightarrow>
          (let i = os_next_inode s
           in (fd, s\<lparr>os_path := (os_path s)(p \<mapsto> i), os_inode := (os_inode s)(fd := i),
                    os_content := (os_content s)(i := []), os_next_inode := i + 1, os_next_fd := fd + 1\<rparr>)))"

definition os_write :: "nat \<Rightarrow> string \<Rightarrow> 'l files \<Rightarrow> 'l files" where
  "os_write fd data s = s\<lparr>os_content := (os_content s)(os_inode s fd := data)\<rparr>"

definition os_Remove :: "string \<Rightarrow> 'l files \<Rightarrow> 'l files" where
  "os_Remove p s = s\<lparr>os_path := (os_path s)(p := None)\<rparr>"

definition os_ReadFile :: "string \<Rightarrow> 'l files \<Rightarrow> string option" where
  "os_ReadFile p s = map_option (os_content s) (os_path s p)"

definition sys_flock :: "'l flock_api \<Rightarrow> nat \<Rightarrow> 'l files \<Rightarrow> bool \<times> 'l files" where
  "sys_flock fl fd s = (case fl_lock fl (os_inode s fd) fd (os_locks s) of (ok, l) \<Rightarrow> (ok, s\<lparr>os_locks := l\<rparr>))"

definition sys_unlock :: "'l flock_api \<Rightarrow> nat \<Rightarrow> 'l files \<Rightarrow> 'l files" where
  "sys_unlock fl fd s = s\<lparr>os_locks := fl_unlock fl (os_inode s fd) fd (os_locks s)\<rparr>"

section \<open>The workers\<close>

text \<open>
  A call in progress. \<open>AcquireLock\<close> opens the file, locks it, writes the worker's name and records the
  file; \<open>ReleaseLock\<close>, having taken the file from its map, unlocks and closes it and removes the path.
\<close>

datatype job =
    AcqOpen string | AcqFlock string nat | AcqWrite string nat | AcqRecord string nat
  | RelUnlock string nat | RelRemove string

record worker =
  wk_ID :: string
  wk_lockFiles :: "string \<rightharpoonup> nat"
  wk_leaderID :: string
  wk_jobs :: "nat \<rightharpoonup> job"

record 'l system =
  sy_dir :: string
  sy_files :: "'l files"
  sy_worker :: "nat \<Rightarrow> worker"

definition lock_path :: "'l system \<Rightarrow> string \<Rightarrow> string" where
  "lock_path s key = filepath_Join [sy_dir s, key @ ''.lock'']"

definition upd_worker :: "nat \<Rightarrow> (worker \<Rightarrow> worker) \<Rightarrow> 'l system \<Rightarrow> 'l system" where
  "upd_worker w f s = s\<lparr>sy_worker := (sy_worker s)(w := f (sy_worker s w))\<rparr>"

text \<open>Which of the calls that can fail do fail.\<close>

record faults =
  fa_open :: bool
  fa_flock :: bool
  fa_write :: bool

definition no_faults :: faults where
  "no_faults = \<lparr>fa_open = False, fa_flock = False, fa_write = False\<rparr>"

text \<open>What a job becomes (\<open>Inr\<close>) or returns (\<open>Inl\<close>): the lock, \<open>false\<close>, an error, or nothing.\<close>

datatype lock_result = Acquired | Busy | LockError | Done

definition job_step :: "'l flock_api \<Rightarrow> faults \<Rightarrow> nat \<Rightarrow> job \<Rightarrow> 'l system \<Rightarrow> (lock_result + job) \<times> 'l system" where
  "job_step fl fa w j s =
     (case j of
        AcqOpen key \<Rightarrow>
          if fa_open fa then (Inl LockError, s)
          else (case os_OpenFile (lock_path s key) (sy_files s) of (fd, fs) \<Rightarrow> (Inr (AcqFlock key fd), s\<lparr>sy_files := fs\<rparr>))
      | AcqFlock key fd \<Rightarrow>
          if fa_flock fa then (Inl LockError, s\<lparr>sy_files := sys_unlock fl fd (sy_files s)\<rparr>)
          else (case sys_flock fl fd (sy_files s) of (ok, fs) \<Rightarrow>
                  if ok then (Inr (AcqWrite key fd), s\<lparr>sy_files := fs\<rparr>)
                  else (Inl Busy, s\<lparr>sy_files := sys_unlock fl fd fs\<rparr>))
      | AcqWrite key fd \<Rightarrow>
          if fa_write fa then (Inl LockError, s\<lparr>sy_files := sys_unlock fl fd (sy_files s)\<rparr>)
          else (Inr (AcqRecord key fd), s\<lparr>sy_files := os_write fd (wk_ID (sy_worker s w)) (sy_files s)\<rparr>)
      | AcqRecord key fd \<Rightarrow>
          (Inl Acquired, upd_worker w (\<lambda>x. x\<lparr>wk_lockFiles := (wk_lockFiles x)(key \<mapsto> fd)\<rparr>) s)
      | RelUnlock key fd \<Rightarrow> (Inr (RelRemove key), s\<lparr>sy_files := sys_unlock fl fd (sy_files s)\<rparr>)
      | RelRemove key \<Rightarrow> (Inl Done, s\<lparr>sy_files := os_Remove (lock_path s key) (sy_files s)\<rparr>))"

text \<open>The first, locked section of the two methods.\<close>

definition begin_acquire :: "nat \<Rightarrow> string \<Rightarrow> 'l system \<Rightarrow> lock_result + job" where
  "begin_acquire w key s = (if wk_lockFiles (sy_worker s w) key \<noteq> None then Inl Acquired else Inr (AcqOpen key))"

definition begin_release :: "nat \<Rightarrow> string \<Rightarrow> 'l system \<Rightarrow> (lock_result + job) \<times> 'l system" where
  "begin_release w key s =
     (case wk_lockFiles (sy_worker s w) key of
        None \<Rightarrow> (Inl Done, s)
      | Some fd \<Rightarrow> (Inr (RelUnlock key fd), upd_worker w (\<lambda>x. x\<lparr>wk_lockFiles := (wk_lockFiles x)(key := None)\<rparr>) s))"

text \<open>A call run to its end; five steps are enough for both methods.\<close>

fun run_job :: "nat \<Rightarrow> 'l flock_api \<Rightarrow> faults \<Rightarrow> nat \<Rightarrow> (lock_result + job) \<times> 'l system \<Rightarrow> (lock_result + job) \<times> 'l system" where
  "run_job n fl fa w (Inl r, s) = (Inl r, s)"
| "run_job 0 fl fa w (Inr j, s) = (Inr j, s)"
| "run_job (Suc n) fl fa w (Inr j, s) = run_job n fl fa w (job_step fl fa w j s)"

definition AcquireLock :: "'l flock_api \<Rightarrow> faults \<Rightarrow> nat \<Rightarrow> string \<Rightarrow> 'l system \<Rightarrow> (lock_result + job) \<times> 'l system" where
  "AcquireLock fl fa w key s = run_job 5 fl fa w (begin_acquire w key s, s)"

definition ReleaseLock :: "'l flock_api \<Rightarrow> nat \<Rightarrow> string \<Rightarrow> 'l system \<Rightarrow> (lock_result + job) \<times> 'l system" where
  "ReleaseLock fl w key s = run_job 5 fl no_faults w (begin_release w key s)"

text \<open>\<open>checkLeader\<close>; the callback is started only when the leader changes and is left out.\<close>

definition checkLeader :: "'l flock_api \<Rightarrow> faults \<Rightarrow> nat \<Rightarrow> 'l system \<Rightarrow> 'l system" where
  "checkLeader fl fa w s =
     (case AcquireLock fl fa w ''leader'' s of
        (Inl Acquired, s1) \<Rightarrow> upd_worker w (\<lambda>x. x\<lparr>wk_leaderID := wk_ID x\<rparr>) s1
      | (Inl Busy, s1) \<Rightarrow>
          (case os_ReadFile (lock_path s1 ''leader'') (sy_files s1) of
             None \<Rightarrow> s1
           | Some leaderID \<Rightarrow> upd_worker w (\<lambda>x. x\<lparr>wk_leaderID := leaderID\<rparr>) s1)
      | (_, s1) \<Rightarrow> s1)"

definition IsLeader :: "nat \<Rightarrow> 'l system \<Rightarrow> bool" where
  "IsLeader w s \<longleftrightarrow> wk_leaderID (sy_worker s w) = wk_ID (sy_worker s w)"

definition holds :: "'l system \<Rightarrow> nat \<Rightarrow> string \<Rightarrow> bool" where
  "holds s w key \<longleftrightarrow> wk_lockFiles (sy_worker s w) key \<noteq> None"

section \<open>Interleaved calls\<close>

text \<open>A goroutine that runs one of the methods has a number, by which \<open>wk_jobs\<close> finds its job.\<close>

definition set_job :: "nat \<Rightarrow> nat \<Rightarrow> job option \<Rightarrow> 'l system \<Rightarrow> 'l system" where
  "set_job w n j = upd_worker w (\<lambda>x. x\<lparr>wk_jobs := (wk_jobs x)(n := j)\<rparr>)"

inductive lstep :: "'l flock_api \<Rightarrow> 'l system \<Rightarrow> 'l system \<Rightarrow> bool" for fl where
  acquire: "wk_jobs (sy_worker s w) n = None \<Longrightarrow> begin_acquire w key s = Inr j \<Longrightarrow> lstep fl s (set_job w n (Some j) s)"
| release: "wk_jobs (sy_worker s w) n = None \<Longrightarrow> begin_release w key s = (Inr j, s1) \<Longrightarrow>
    lstep fl s (set_job w n (Some j) s1)"
| move: "wk_jobs (sy_worker s w) n = Some j \<Longrightarrow> job_step fl fa w j s = (Inr j', s1) \<Longrightarrow>
    lstep fl s (set_job w n (Some j') s1)"
| return: "wk_jobs (sy_worker s w) n = Some j \<Longrightarrow> job_step fl fa w j s = (Inl r, s1) \<Longrightarrow>
    lstep fl s (set_job w n None s1)"

text \<open>Workers with different names that have not begun.\<close>

definition new_system :: "string \<Rightarrow> (nat \<Rightarrow> string) \<Rightarrow> 'l \<Rightarrow> 'l system" where
  "new_system dir ids l =
     \<lparr>sy_dir = dir,
      sy_files = \<lparr>os_path = Map.empty, os_inode = (\<lambda>_. 0), os_content = (\<lambda>_. []), os_next_inode = 1, os_next_fd = 0, os_locks = l\<rparr>,
      sy_worker = (\<lambda>w. \<lparr>wk_ID = ids w, wk_lockFiles = Map.empty, wk_leaderID = [], wk_jobs = Map.empty\<rparr>)\<rparr>"

text \<open>A table of owners, which is a \<open>flock\<close>.\<close>

definition table_flock :: "(nat \<rightharpoonup> nat) flock_api" where
  "table_flock = \<lparr>
     fl_lock = (\<lambda>i fd l. if l i = None \<or> l i = Some fd then (True, l(i \<mapsto> fd)) else (False, l)),
     fl_unlock = (\<lambda>i fd l. if l i = Some fd then l(i := None) else l),
     fl_owner = (\<lambda>l. l)\<rparr>"

lemma table_flock_laws: "flock_laws table_flock"
  by (auto simp: flock_laws_def table_flock_def)

section \<open>One owner for every lock file\<close>

text \<open>The descriptors a worker uses: those of its locks, and those of the calls in progress.\<close>

fun job_fd :: "job \<Rightarrow> nat option" where
  "job_fd (AcqFlock key fd) = Some fd"
| "job_fd (AcqWrite key fd) = Some fd"
| "job_fd (AcqRecord key fd) = Some fd"
| "job_fd (RelUnlock key fd) = Some fd"
| "job_fd _ = None"

fun job_locked :: "job \<Rightarrow> bool" where
  "job_locked (AcqWrite key fd) = True"
| "job_locked (AcqRecord key fd) = True"
| "job_locked (RelUnlock key fd) = True"
| "job_locked _ = False"

text \<open>
  Where a descriptor is in use: as a lock held by a worker, or in a call in progress; \<open>use\<close> also tells
  whether the lock of its inode has been taken through it.
\<close>

datatype place = Held string | InJob nat

fun use :: "'l system \<Rightarrow> nat \<Rightarrow> place \<Rightarrow> nat \<Rightarrow> bool \<Rightarrow> bool" where
  "use s w (Held key) fd b \<longleftrightarrow> wk_lockFiles (sy_worker s w) key = Some fd \<and> b"
| "use s w (InJob n) fd b \<longleftrightarrow>
     (\<exists>j. wk_jobs (sy_worker s w) n = Some j \<and> job_fd j = Some fd \<and> b = job_locked j)"

definition owner_of :: "'l flock_api \<Rightarrow> 'l system \<Rightarrow> nat \<Rightarrow> nat option" where
  "owner_of fl s fd = fl_owner fl (os_locks (sy_files s)) (os_inode (sy_files s) fd)"

definition files_ok :: "'l flock_api \<Rightarrow> 'l system \<Rightarrow> bool" where
  "files_ok fl s \<longleftrightarrow>
     (\<forall>w p fd b. use s w p fd b \<longrightarrow> fd < os_next_fd (sy_files s)) \<and>
     (\<forall>w p b w' p' b' fd. use s w p fd b \<longrightarrow> use s w' p' fd b' \<longrightarrow> w = w' \<and> p = p') \<and>
     (\<forall>w p fd. use s w p fd True \<longrightarrow> owner_of fl s fd = Some fd)"

text \<open>A step brings at most one descriptor to a new place, where nothing else uses it.\<close>

lemma files_okI:
  assumes ok: "files_ok fl s"
    and new: "\<And>w p fd b. use s' w p fd b \<Longrightarrow> use s w p fd b \<or> (w = w0 \<and> p = p1 \<and> fd = fd1)"
    and alone: "\<And>w p b. use s' w p fd1 b \<Longrightarrow> w = w0 \<and> p = p1"
    and fds: "fd1 < os_next_fd (sy_files s')" "os_next_fd (sy_files s) \<le> os_next_fd (sy_files s')"
    and own: "\<And>w p fd. use s w p fd True \<Longrightarrow> fd \<noteq> fd1 \<Longrightarrow> owner_of fl s' fd = Some fd"
    and own1: "use s' w0 p1 fd1 True \<Longrightarrow> owner_of fl s' fd1 = Some fd1"
  shows "files_ok fl s'"
  unfolding files_ok_def
proof (intro conjI allI impI)
  fix w p fd b assume "use s' w p fd b"
  then consider "use s w p fd b" | "fd = fd1" using new by blast
  then show "fd < os_next_fd (sy_files s')"
  proof cases
    case 1
    then have "fd < os_next_fd (sy_files s)" using ok unfolding files_ok_def by blast
    then show ?thesis using fds(2) by linarith
  qed (simp add: fds(1))
next
  fix w p b w' p' b' fd assume u: "use s' w p fd b" "use s' w' p' fd b'"
  show "w = w'" "p = p'"
    using alone [of w p b] alone [of w' p' b'] new [OF u(1)] new [OF u(2)] u ok unfolding files_ok_def by metis+
next
  fix w p fd assume u: "use s' w p fd True"
  show "owner_of fl s' fd = Some fd"
  proof (cases "fd = fd1")
    case True
    then show ?thesis using alone u own1 by blast
  next
    case False
    then show ?thesis using new [OF u] own by blast
  qed
qed

text \<open>Uses disappear, the files stay as they are or a lock is given up.\<close>

lemma files_ok_less:
  assumes ok: "files_ok fl s"
    and new: "\<And>w p fd b. use s' w p fd b \<Longrightarrow> use s w p fd b"
    and fds: "os_next_fd (sy_files s') = os_next_fd (sy_files s)"
    and own: "\<And>w p fd. use s' w p fd True \<Longrightarrow> owner_of fl s' fd = owner_of fl s fd"
  shows "files_ok fl s'"
  using ok new own unfolding files_ok_def fds by metis

lemma use_upd_other [simp]: "w' \<noteq> w \<Longrightarrow> use (upd_worker w f s) w' p fd b = use s w' p fd b"
  by (cases p) (simp_all add: upd_worker_def)

lemma use_set_job [simp]:
  "use (set_job w n j s) w' (Held key) fd b = use s w' (Held key) fd b"
  "use (set_job w n j s) w' (InJob m) fd b =
     (if w' = w \<and> m = n then (case j of None \<Rightarrow> False | Some j' \<Rightarrow> job_fd j' = Some fd \<and> b = job_locked j')
      else use s w' (InJob m) fd b)"
  by (auto simp: set_job_def upd_worker_def split: option.splits)

lemma use_files [simp]: "use (s\<lparr>sy_files := f\<rparr>) w p fd b = use s w p fd b"
  by (cases p) simp_all

lemmas use_place = use.simps

declare use.simps [simp del]

lemma files_set_job [simp]: "sy_files (set_job w n j s) = sy_files s" "owner_of fl (set_job w n j s) fd = owner_of fl s fd"
  by (simp_all add: set_job_def upd_worker_def owner_of_def)

lemma owner_unlock:
  "flock_laws fl \<Longrightarrow> owner_of fl s fd' = Some fd' \<Longrightarrow> fd' \<noteq> fd \<Longrightarrow>
     owner_of fl (s\<lparr>sy_files := sys_unlock fl fd (sy_files s)\<rparr>) fd' = Some fd'"
  by (auto simp: owner_of_def sys_unlock_def flock_laws_def)

lemma sys_unlock_next [simp]: "os_next_fd (sys_unlock fl fd f) = os_next_fd f"
  by (simp add: sys_unlock_def)

lemma files_okD:
  assumes "files_ok fl s"
  shows "use s w p fd b \<Longrightarrow> fd < os_next_fd (sy_files s)"
    "use s w p fd b \<Longrightarrow> use s w' p' fd b' \<Longrightarrow> w = w' \<and> p = p'"
    "use s w p fd True \<Longrightarrow> owner_of fl s fd = Some fd"
  using assms unfolding files_ok_def by blast+

text \<open>A call gives up its descriptor, and with it its lock.\<close>

lemma files_ok_unlock:
  assumes "flock_laws fl" "files_ok fl s" "use s w (InJob n) fd b"
    "j = None \<or> (\<exists>j'. j = Some j' \<and> job_fd j' = None)"
  shows "files_ok fl (set_job w n j (s\<lparr>sy_files := sys_unlock fl fd (sy_files s)\<rparr>))"
proof -
  let ?s = "set_job w n j (s\<lparr>sy_files := sys_unlock fl fd (sy_files s)\<rparr>)"
  have less: "use s w' p fd' b' \<and> (w' \<noteq> w \<or> p \<noteq> InJob n)" if "use ?s w' p fd' b'" for w' p fd' b'
  proof (cases p)
    case (InJob m)
    then show ?thesis using that assms(4) by (cases "w' = w \<and> m = n") auto
  qed (use that in simp)
  have unique: "w1 = w2 \<and> p1 = p2" if "use s w1 p1 fd' b1" "use s w2 p2 fd' b2" for w1 p1 b1 w2 p2 b2 fd'
    using assms(2) that unfolding files_ok_def by blast
  have ne: "fd' \<noteq> fd" if "use ?s w' p fd' b'" for w' p fd' b'
    using less [OF that] unique [of w' p fd' b' w "InJob n" b] assms(3) by blast
  show ?thesis
    unfolding files_ok_def
  proof (intro conjI allI impI)
    fix w' p fd' b' assume "use ?s w' p fd' b'"
    then have "use s w' p fd' b'" using less by blast
    then show "fd' < os_next_fd (sy_files ?s)" using files_okD(1) [OF assms(2)] by simp
  next
    fix w1 p1 b1 w2 p2 b2 fd' assume "use ?s w1 p1 fd' b1" "use ?s w2 p2 fd' b2"
    then have "use s w1 p1 fd' b1" "use s w2 p2 fd' b2" using less by blast+
    then show "w1 = w2" "p1 = p2" using unique by blast+
  next
    fix w' p fd' assume u: "use ?s w' p fd' True"
    have "owner_of fl s fd' = Some fd'" using less [OF u] assms(2) unfolding files_ok_def by blast
    then show "owner_of fl ?s fd' = Some fd'" using owner_unlock [OF assms(1)] ne [OF u] by simp
  qed
qed

text \<open>A job takes another form with the same descriptor, while nothing happens to the locks of others.\<close>

lemma files_ok_same_fd:
  assumes "files_ok fl s" "use s w p0 fd b0"
    "\<And>w' p fd' b. use s' w' p fd' b \<Longrightarrow> (use s w' p fd' b \<and> \<not> (w' = w \<and> p = p0)) \<or> (w' = w \<and> p = p1 \<and> fd' = fd)"
    "os_next_fd (sy_files s') = os_next_fd (sy_files s)"
    "\<And>w' p fd'. use s w' p fd' True \<Longrightarrow> fd' \<noteq> fd \<Longrightarrow> owner_of fl s' fd' = Some fd'"
    "use s' w p1 fd True \<Longrightarrow> owner_of fl s' fd = Some fd"
  shows "files_ok fl s'"
proof (rule files_okI [OF assms(1), where ?w0.0 = w and ?p1.0 = p1 and ?fd1.0 = fd])
  show "use s' w' p fd' b \<Longrightarrow> use s w' p fd' b \<or> (w' = w \<and> p = p1 \<and> fd' = fd)" for w' p fd' b
    using assms(3) by blast
  show "w' = w \<and> p = p1" if "use s' w' p fd b" for w' p b
    using assms(3) [OF that] files_okD(2) [OF assms(1) _ assms(2)] by blast
qed (use assms(4,5,6) files_okD(1) [OF assms(1,2)] in simp_all)

lemma owner_flock:
  assumes "flock_laws fl" "sys_flock fl fd (sy_files s) = (True, fs)"
  shows "owner_of fl (s\<lparr>sy_files := fs\<rparr>) fd = Some fd" "os_next_fd fs = os_next_fd (sy_files s)"
    "owner_of fl s fd' = Some fd' \<Longrightarrow> fd' \<noteq> fd \<Longrightarrow> owner_of fl (s\<lparr>sy_files := fs\<rparr>) fd' = Some fd'"
proof -
  let ?i = "os_inode (sy_files s) fd"
  obtain l where l: "fl_lock fl ?i fd (os_locks (sy_files s)) = (True, l)" "fs = (sy_files s)\<lparr>os_locks := l\<rparr>"
    using assms(2) by (auto simp: sys_flock_def split: prod.splits)
  have "fst (fl_lock fl ?i fd (os_locks (sy_files s))) \<longleftrightarrow> fl_owner fl (os_locks (sy_files s)) ?i \<in> {None, Some fd}"
    "fl_owner fl (snd (fl_lock fl ?i fd (os_locks (sy_files s)))) =
        (if fst (fl_lock fl ?i fd (os_locks (sy_files s))) then (fl_owner fl (os_locks (sy_files s)))(?i \<mapsto> fd)
         else fl_owner fl (os_locks (sy_files s)))"
    using assms(1) unfolding flock_laws_def by blast+
  then have o: "fl_owner fl l = (fl_owner fl (os_locks (sy_files s)))(?i \<mapsto> fd)"
    "fl_owner fl (os_locks (sy_files s)) ?i \<in> {None, Some fd}"
    using l(1) by simp_all
  show "owner_of fl (s\<lparr>sy_files := fs\<rparr>) fd = Some fd" "os_next_fd fs = os_next_fd (sy_files s)"
    "owner_of fl s fd' = Some fd' \<Longrightarrow> fd' \<noteq> fd \<Longrightarrow> owner_of fl (s\<lparr>sy_files := fs\<rparr>) fd' = Some fd'"
    using o by (auto simp: owner_of_def l(2))
qed

lemma flock_busy:
  "flock_laws fl \<Longrightarrow> sys_flock fl fd (sy_files s) = (False, fs) \<Longrightarrow>
     files_ok fl s \<Longrightarrow> files_ok fl (s\<lparr>sy_files := fs\<rparr>)"
proof -
  assume a: "flock_laws fl" "sys_flock fl fd (sy_files s) = (False, fs)" "files_ok fl s"
  let ?i = "os_inode (sy_files s) fd"
  obtain l where l: "fl_lock fl ?i fd (os_locks (sy_files s)) = (False, l)" "fs = (sy_files s)\<lparr>os_locks := l\<rparr>"
    using a(2) by (auto simp: sys_flock_def split: prod.splits)
  have "fl_owner fl (snd (fl_lock fl ?i fd (os_locks (sy_files s)))) =
        (if fst (fl_lock fl ?i fd (os_locks (sy_files s))) then (fl_owner fl (os_locks (sy_files s)))(?i \<mapsto> fd)
         else fl_owner fl (os_locks (sy_files s)))"
    using a(1) unfolding flock_laws_def by blast
  then have "owner_of fl (s\<lparr>sy_files := fs\<rparr>) = owner_of fl s"
    using l by (simp add: owner_of_def fun_eq_iff)
  then show ?thesis using a(3) l(2) by (simp add: files_ok_def)
qed

lemma files_ok_job:
  assumes "flock_laws fl" "files_ok fl s" "wk_jobs (sy_worker s w) n = Some j" "job_step fl fa w j s = (r, s1)"
  shows "files_ok fl (set_job w n (case r of Inr j' \<Rightarrow> Some j' | Inl _ \<Rightarrow> None) s1)"
proof (cases j)
  case (AcqOpen key)
  show ?thesis
  proof (cases "fa_open fa")
    case True
    then have r: "r = Inl LockError" "s1 = s" using assms(4) AcqOpen by (simp_all add: job_step_def)
    show ?thesis
    proof (rule files_ok_less [OF assms(2)])
      fix w' p fd' b assume "use (set_job w n (case r of Inl _ \<Rightarrow> None | Inr j' \<Rightarrow> Some j') s1) w' p fd' b"
      then show "use s w' p fd' b" by (cases p) (auto simp: r split: if_splits)
    qed (simp_all add: r)
  next
    case False
    obtain fd fs where f: "os_OpenFile (lock_path s key) (sy_files s) = (fd, fs)" by fastforce
    have r: "r = Inr (AcqFlock key fd)" "s1 = s\<lparr>sy_files := fs\<rparr>" using assms(4) AcqOpen False f by (simp_all add: job_step_def)
    have fd: "fd = os_next_fd (sy_files s)" "os_next_fd fs = Suc fd" "os_locks fs = os_locks (sy_files s)"
      "\<And>x. x \<noteq> fd \<Longrightarrow> os_inode fs x = os_inode (sy_files s) x"
      using f by (auto simp: os_OpenFile_def Let_def split: option.splits)
    have fresh: "fd' \<noteq> fd" if "use s w' p fd' b" for w' p fd' b
      using files_okD(1) [OF assms(2) that] fd(1) by simp
    show ?thesis
    proof (rule files_okI [OF assms(2), where ?w0.0 = w and ?p1.0 = "InJob n" and ?fd1.0 = fd])
      fix w' p fd' b assume u: "use (set_job w n (case r of Inl _ \<Rightarrow> None | Inr j' \<Rightarrow> Some j') s1) w' p fd' b"
      then show "use s w' p fd' b \<or> (w' = w \<and> p = InJob n \<and> fd' = fd)"
        by (cases p) (auto simp: r split: if_splits)
    next
      fix w' p b assume u: "use (set_job w n (case r of Inl _ \<Rightarrow> None | Inr j' \<Rightarrow> Some j') s1) w' p fd b"
      then show "w' = w \<and> p = InJob n"
        using fresh [of w' p fd b] by (cases p) (auto simp: r split: if_splits)
    next
      fix w' p fd' assume "use s w' p fd' True" "fd' \<noteq> fd"
      then show "owner_of fl (set_job w n (case r of Inl _ \<Rightarrow> None | Inr j' \<Rightarrow> Some j') s1) fd' = Some fd'"
        using files_okD(3) [OF assms(2)] fd(3,4) by (simp add: r owner_of_def)
    qed (simp_all add: r fd)
  qed
next
  case (AcqFlock key fd)
  have u: "use s w (InJob n) fd False" using assms(3) AcqFlock by (simp add: use_place)
  show ?thesis
  proof (cases "fa_flock fa")
    case True
    then have "r = Inl LockError" "s1 = s\<lparr>sy_files := sys_unlock fl fd (sy_files s)\<rparr>"
      using assms(4) AcqFlock by (simp_all add: job_step_def)
    then show ?thesis using files_ok_unlock [OF assms(1,2) u, of None] by simp
  next
    case False
    obtain ok fs where f: "sys_flock fl fd (sy_files s) = (ok, fs)" by fastforce
    show ?thesis
    proof (cases ok)
      case True
      have r: "r = Inr (AcqWrite key fd)" "s1 = s\<lparr>sy_files := fs\<rparr>" using assms(4) AcqFlock False f True by (simp_all add: job_step_def)
      have "sys_flock fl fd (sy_files s) = (True, fs)" using f True by simp
      note own = owner_flock [OF assms(1) this]
      show ?thesis
      proof (rule files_ok_same_fd [OF assms(2) u, where ?p1.0 = "InJob n"])
        fix w' p fd' b assume "use (set_job w n (case r of Inl _ \<Rightarrow> None | Inr j' \<Rightarrow> Some j') s1) w' p fd' b"
        then show "(use s w' p fd' b \<and> \<not> (w' = w \<and> p = InJob n)) \<or> (w' = w \<and> p = InJob n \<and> fd' = fd)"
          by (cases p) (auto simp: r split: if_splits)
      next
        fix w' p fd' assume "use s w' p fd' True" "fd' \<noteq> fd"
        then show "owner_of fl (set_job w n (case r of Inl _ \<Rightarrow> None | Inr j' \<Rightarrow> Some j') s1) fd' = Some fd'"
          using own(3) files_okD(3) [OF assms(2)] by (simp add: r)
      qed (use own r in simp_all)
    next
      case no: False
      then have r: "r = Inl Busy" "s1 = (s\<lparr>sy_files := fs\<rparr>)\<lparr>sy_files := sys_unlock fl fd (sy_files (s\<lparr>sy_files := fs\<rparr>))\<rparr>"
        using assms(4) AcqFlock False f by (simp_all add: job_step_def)
      have "files_ok fl (s\<lparr>sy_files := fs\<rparr>)" using flock_busy [OF assms(1) _ assms(2), of fd fs] f no by simp
      from files_ok_unlock [OF assms(1) this, of w n fd False None] show ?thesis using u r by simp
    qed
  qed
next
  case (AcqWrite key fd)
  have u: "use s w (InJob n) fd True" using assms(3) AcqWrite by (simp add: use_place)
  show ?thesis
  proof (cases "fa_write fa")
    case True
    then have "r = Inl LockError" "s1 = s\<lparr>sy_files := sys_unlock fl fd (sy_files s)\<rparr>"
      using assms(4) AcqWrite by (simp_all add: job_step_def)
    then show ?thesis using files_ok_unlock [OF assms(1,2) u, of None] by simp
  next
    case False
    then have r: "r = Inr (AcqRecord key fd)" "s1 = s\<lparr>sy_files := os_write fd (wk_ID (sy_worker s w)) (sy_files s)\<rparr>"
      using assms(4) AcqWrite by (simp_all add: job_step_def)
    show ?thesis
    proof (rule files_ok_less [OF assms(2)])
      fix w' p fd' b assume v: "use (set_job w n (case r of Inl _ \<Rightarrow> None | Inr j' \<Rightarrow> Some j') s1) w' p fd' b"
      then show "use s w' p fd' b" using u by (cases p) (auto simp: r split: if_splits)
    qed (simp_all add: r owner_of_def os_write_def set_job_def upd_worker_def)
  qed
next
  case (AcqRecord key fd)
  have u: "use s w (InJob n) fd True" using assms(3) AcqRecord by (simp add: use_place)
  have r: "r = Inl Acquired" "s1 = upd_worker w (\<lambda>x. x\<lparr>wk_lockFiles := (wk_lockFiles x)(key \<mapsto> fd)\<rparr>) s"
    using assms(4) AcqRecord by (simp_all add: job_step_def)
  have f: "sy_files s1 = sy_files s" by (simp add: r upd_worker_def)
  have own: "owner_of fl s1 fd' = owner_of fl s fd'" for fd' by (simp add: f owner_of_def)
  show ?thesis
  proof (rule files_ok_same_fd [OF assms(2) u, where ?p1.0 = "Held key"])
    fix w' p fd' b assume v: "use (set_job w n (case r of Inl _ \<Rightarrow> None | Inr j' \<Rightarrow> Some j') s1) w' p fd' b"
    then show "(use s w' p fd' b \<and> \<not> (w' = w \<and> p = InJob n)) \<or> (w' = w \<and> p = Held key \<and> fd' = fd)"
      by (cases p; cases "w' = w") (auto simp: r use_place set_job_def upd_worker_def split: if_splits)
  qed (use files_okD(3) [OF assms(2)] u in \<open>simp_all add: r(1) f own\<close>)
next
  case (RelUnlock key fd)
  have u: "use s w (InJob n) fd True" using assms(3) RelUnlock by (simp add: use_place)
  have "r = Inr (RelRemove key)" "s1 = s\<lparr>sy_files := sys_unlock fl fd (sy_files s)\<rparr>"
    using assms(4) RelUnlock by (simp_all add: job_step_def)
  then show ?thesis using files_ok_unlock [OF assms(1,2) u, of "Some (RelRemove key)"] by simp
next
  case (RelRemove key)
  have r: "r = Inl Done" "s1 = s\<lparr>sy_files := os_Remove (lock_path s key) (sy_files s)\<rparr>"
    using assms(4) RelRemove by (simp_all add: job_step_def)
  show ?thesis
  proof (rule files_ok_less [OF assms(2)])
    fix w' p fd' b assume v: "use (set_job w n (case r of Inl _ \<Rightarrow> None | Inr j' \<Rightarrow> Some j') s1) w' p fd' b"
    then show "use s w' p fd' b" by (cases p) (auto simp: r split: if_splits)
  qed (simp_all add: r owner_of_def os_Remove_def set_job_def upd_worker_def)
qed

lemma files_ok_step: "lstep fl s s' \<Longrightarrow> flock_laws fl \<Longrightarrow> files_ok fl s \<Longrightarrow> files_ok fl s'"
proof (induction rule: lstep.induct)
  case (acquire s w n key j)
  then have j: "j = AcqOpen key" by (simp add: begin_acquire_def split: if_splits)
  show ?case
  proof (rule files_ok_less [OF acquire.prems(2)])
    fix w' p fd b assume "use (set_job w n (Some j) s) w' p fd b"
    then show "use s w' p fd b" by (cases p) (auto simp: j split: if_splits)
  qed simp_all
next
  case (release s w n key j s1)
  obtain fd where fd: "wk_lockFiles (sy_worker s w) key = Some fd" "j = RelUnlock key fd"
    "s1 = upd_worker w (\<lambda>x. x\<lparr>wk_lockFiles := (wk_lockFiles x)(key := None)\<rparr>) s"
    using release.hyps(2) by (auto simp: begin_release_def split: option.splits)
  have f: "sy_files s1 = sy_files s" by (simp add: fd upd_worker_def)
  have own: "owner_of fl s1 x = owner_of fl s x" for x by (simp add: f owner_of_def)
  have u: "use s w (Held key) fd True" using fd by (simp add: use_place)
  show ?case
  proof (rule files_ok_same_fd [OF release.prems(2) u, where ?p1.0 = "InJob n"])
    fix w' p fd' b assume "use (set_job w n (Some j) s1) w' p fd' b"
    then show "(use s w' p fd' b \<and> \<not> (w' = w \<and> p = Held key)) \<or> (w' = w \<and> p = InJob n \<and> fd' = fd)"
      by (cases p; cases "w' = w") (auto simp: fd use_place set_job_def upd_worker_def split: if_splits)
  qed (use files_okD(3) [OF release.prems(2)] u in \<open>simp_all add: f own\<close>)
next
  case (move s w n j fa j' s1)
  then show ?case using files_ok_job [of fl s w n j fa "Inr j'" s1] by simp
next
  case (return s w n j fa r s1)
  then show ?case using files_ok_job [of fl s w n j fa "Inl r" s1] by simp
qed

lemma files_ok_new: "files_ok fl (new_system dir ids l)"
proof -
  have "\<not> use (new_system dir ids l) w p fd b" for w p fd b
    by (cases p) (simp_all add: use_place new_system_def)
  then show ?thesis by (simp add: files_ok_def)
qed

text \<open>C16: however the calls of the workers interleave and fail, every file a worker holds is locked through
  the worker's own descriptor, and no two workers, nor one worker under two keys, hold the same file; so of
  the workers that hold a key at most one holds the file that the path of the lock leads to.\<close>

theorem lock_files_exclusive:
  assumes "flock_laws fl" "(lstep fl)\<^sup>*\<^sup>* (new_system dir ids l) s"
    "wk_lockFiles (sy_worker s w) key = Some fd" "wk_lockFiles (sy_worker s w') key' = Some fd'"
    "os_inode (sy_files s) fd = os_inode (sy_files s) fd'"
  shows "fl_owner fl (os_locks (sy_files s)) (os_inode (sy_files s) fd) = Some fd \<and> w = w' \<and> key = key'"
proof -
  from assms(2) have ok: "files_ok fl s"
    by induction (auto intro: files_ok_new files_ok_step assms(1))
  have u: "use s w (Held key) fd True" "use s w' (Held key') fd' True" using assms(3,4) by (simp_all add: use_place)
  then have "owner_of fl s fd = Some fd" "owner_of fl s fd' = Some fd'" using files_okD(3) [OF ok] by blast+
  then have "fd = fd'" "owner_of fl s fd = Some fd" using assms(5) by (simp_all add: owner_of_def)
  then show ?thesis using files_okD(2) [OF ok u(1)] u(2) by (auto simp: owner_of_def)
qed

section \<open>Two holders of one lock\<close>

text \<open>What \<open>lstep\<close> does with a table of owners it does with every \<open>flock\<close>.\<close>

definition owners :: "'l flock_api \<Rightarrow> 'l system \<Rightarrow> (nat \<rightharpoonup> nat) system" where
  "owners fl s =
     \<lparr>sy_dir = sy_dir s,
      sy_files = \<lparr>os_path = os_path (sy_files s), os_inode = os_inode (sy_files s), os_content = os_content (sy_files s),
         os_next_inode = os_next_inode (sy_files s), os_next_fd = os_next_fd (sy_files s),
         os_locks = fl_owner fl (os_locks (sy_files s))\<rparr>,
      sy_worker = sy_worker s\<rparr>"

lemma owners_simps [simp]:
  "sy_worker (owners fl s) = sy_worker s" "lock_path (owners fl s) key = lock_path s key"
  "begin_acquire w key (owners fl s) = begin_acquire w key s"
  "owners fl (upd_worker w f s) = upd_worker w f (owners fl s)"
  "owners fl (set_job w n j s) = set_job w n j (owners fl s)"
  "begin_release w key (owners fl s) = (case begin_release w key s of (r, s1) \<Rightarrow> (r, owners fl s1))"
  by (simp_all add: owners_def lock_path_def begin_acquire_def begin_release_def upd_worker_def set_job_def split: option.splits)

lemma owners_unlock:
  "flock_laws fl \<Longrightarrow> owners fl (s\<lparr>sy_files := sys_unlock fl fd f\<rparr>) =
     (owners fl (s\<lparr>sy_files := f\<rparr>))\<lparr>sy_files := sys_unlock table_flock fd (sy_files (owners fl (s\<lparr>sy_files := f\<rparr>)))\<rparr>"
  by (simp add: flock_laws_def owners_def sys_unlock_def table_flock_def)

lemma owners_flock:
  assumes "flock_laws fl" "sys_flock fl fd (sy_files s) = (ok, fs)"
  shows "sys_flock table_flock fd (sy_files (owners fl s)) = (ok, sy_files (owners fl (s\<lparr>sy_files := fs\<rparr>)))"
proof -
  let ?i = "os_inode (sy_files s) fd" and ?l = "os_locks (sy_files s)"
  have "fst (fl_lock fl ?i fd ?l) \<longleftrightarrow> fl_owner fl ?l ?i \<in> {None, Some fd}"
    "fl_owner fl (snd (fl_lock fl ?i fd ?l)) =
        (if fst (fl_lock fl ?i fd ?l) then (fl_owner fl ?l)(?i \<mapsto> fd) else fl_owner fl ?l)"
    using assms(1) unfolding flock_laws_def by blast+
  then show ?thesis
    using assms(2) by (auto simp: sys_flock_def owners_def table_flock_def split: prod.splits if_splits)
qed

lemma job_step_owners:
  assumes "flock_laws fl"
  shows "job_step table_flock fa w j (owners fl s) = (case job_step fl fa w j s of (r, s1) \<Rightarrow> (r, owners fl s1))"
proof (cases j)
  case (AcqOpen key)
  then show ?thesis
    by (simp add: job_step_def os_OpenFile_def Let_def split: option.splits) (simp add: owners_def)
next
  case (AcqFlock key fd)
  obtain ok fs where f: "sys_flock fl fd (sy_files s) = (ok, fs)" by fastforce
  show ?thesis
    using owners_flock [OF assms f] owners_unlock [OF assms, where s = s and fd = fd and f = "sy_files s"] owners_unlock [OF assms, where s = s and fd = fd and f = fs]
    by (simp add: AcqFlock job_step_def f) (simp add: owners_def)
next
  case (AcqWrite key fd)
  then show ?thesis
    using owners_unlock [OF assms, where s = s and fd = fd and f = "sy_files s"] by (simp add: job_step_def) (simp add: owners_def os_write_def)
next
  case (RelUnlock key fd)
  then show ?thesis using owners_unlock [OF assms, where s = s and fd = fd and f = "sy_files s"] by (simp add: job_step_def)
next
  case (RelRemove key)
  then show ?thesis by (simp add: job_step_def os_Remove_def) (simp add: owners_def)
qed (simp add: job_step_def)

text \<open>A scheduler: each entry moves one job, or begins a call of the worker as its job 0.\<close>

datatype turn = BeginAcquire nat string | BeginRelease nat string | Turn nat

fun take_turn :: "'l flock_api \<Rightarrow> turn \<Rightarrow> 'l system \<Rightarrow> 'l system option" where
  "take_turn fl (BeginAcquire w key) s =
     (if wk_jobs (sy_worker s w) 0 = None
      then (case begin_acquire w key s of Inr j \<Rightarrow> Some (set_job w 0 (Some j) s) | Inl _ \<Rightarrow> None) else None)"
| "take_turn fl (BeginRelease w key) s =
     (if wk_jobs (sy_worker s w) 0 = None
      then (case begin_release w key s of (Inr j, s1) \<Rightarrow> Some (set_job w 0 (Some j) s1) | (Inl _, s1) \<Rightarrow> None) else None)"
| "take_turn fl (Turn w) s =
     (case wk_jobs (sy_worker s w) 0 of
        None \<Rightarrow> None
      | Some j \<Rightarrow> (case job_step fl no_faults w j s of
                     (Inr j', s1) \<Rightarrow> Some (set_job w 0 (Some j') s1) | (Inl _, s1) \<Rightarrow> Some (set_job w 0 None s1)))"

fun take_turns :: "'l flock_api \<Rightarrow> turn list \<Rightarrow> 'l system \<Rightarrow> 'l system option" where
  "take_turns fl [] s = Some s"
| "take_turns fl (t # ts) s = (case take_turn fl t s of Some s' \<Rightarrow> take_turns fl ts s' | None \<Rightarrow> None)"

lemma take_turn_step: "take_turn fl t s = Some s' \<Longrightarrow> lstep fl s s'"
  by (cases t) (auto split: if_splits sum.splits prod.splits option.splits intro: lstep.intros)

lemma take_turns_reach: "take_turns fl ts s = Some s' \<Longrightarrow> (lstep fl)\<^sup>*\<^sup>* s s'"
proof (induction ts arbitrary: s)
  case (Cons t ts)
  then obtain s1 where "take_turn fl t s = Some s1" "take_turns fl ts s1 = Some s'" by (auto split: option.splits)
  with Cons.IH take_turn_step show ?case by (meson converse_rtranclp_into_rtranclp)
qed simp

lemma take_turn_owners:
  assumes "flock_laws fl"
  shows "take_turn table_flock t (owners fl s) = map_option (owners fl) (take_turn fl t s)"
  by (cases t) (auto simp: job_step_owners [OF assms] split: sum.splits prod.splits option.splits)

lemma take_turns_owners:
  "flock_laws fl \<Longrightarrow> take_turns table_flock ts (owners fl s) = map_option (owners fl) (take_turns fl ts s)"
  by (induction ts arbitrary: s) (simp_all add: take_turn_owners split: option.splits)

text \<open>Worker 0 holds the lock; 1 has opened the file when 0 unlocks it, locks it, and then 0 removes the
  path; 2 makes a new file at the path and locks that.\<close>

definition lock_race :: "string \<Rightarrow> turn list" where
  "lock_race key = [BeginAcquire 0 key, Turn 0, Turn 0, Turn 0, Turn 0, BeginAcquire 1 key, Turn 1,
     BeginRelease 0 key, Turn 0, Turn 1, Turn 1, Turn 1, Turn 0, BeginAcquire 2 key, Turn 2, Turn 2, Turn 2, Turn 2]"

lemmas lock_defs = job_step_def begin_acquire_def begin_release_def lock_path_def set_job_def upd_worker_def
  os_OpenFile_def os_write_def os_Remove_def sys_flock_def sys_unlock_def no_faults_def holds_def

text \<open>Releasing a lock lets two workers hold it: the path is removed after the lock has been given up,
  so a worker that has locked the old file in between and one that creates the file anew both own it,
  whatever \<open>flock\<close> the system has.\<close>

theorem released_lock_has_two_holders:
  assumes "flock_laws fl" "fl_owner fl l = Map.empty"
  shows "\<exists>s. (lstep fl)\<^sup>*\<^sup>* (new_system dir ids l) s \<and> holds s 1 key \<and> holds s 2 key \<and>
     wk_jobs (sy_worker s 1) 0 = None \<and> wk_jobs (sy_worker s 2) 0 = None"
proof -
  let ?s = "new_system dir ids l" and ?t = "new_system dir ids Map.empty"
  let ?obs = "\<lambda>s. (holds s 1 key \<and> holds s 2 key, wk_jobs (sy_worker s 1) 0, wk_jobs (sy_worker s 2) 0)"
  have start: "owners fl ?s = ?t" by (simp add: owners_def new_system_def assms(2))
  have "map_option ?obs (take_turns table_flock (lock_race key) ?t) = Some (True, None, None)"
    by (simp add: lock_race_def new_system_def table_flock_def lock_defs Let_def)
  then have "map_option ?obs (map_option (owners fl) (take_turns fl (lock_race key) ?s)) = Some (True, None, None)"
    unfolding start [symmetric] take_turns_owners [OF assms(1)] .
  then obtain s where "take_turns fl (lock_race key) ?s = Some s" "holds s 1 key" "holds s 2 key"
    "wk_jobs (sy_worker s 1) 0 = None" "wk_jobs (sy_worker s 2) 0 = None"
    by (auto simp: holds_def)
  then show ?thesis using take_turns_reach by blast
qed

theorem released_lock_has_two_holders_witness:
  "\<exists>s. (lstep table_flock)\<^sup>*\<^sup>* (new_system ''/tmp'' (\<lambda>w. replicate w CHR ''w'') Map.empty) s \<and>
     holds s 1 ''leader'' \<and> holds s 2 ''leader''"
  using released_lock_has_two_holders [OF table_flock_laws, of Map.empty "''/tmp''" "\<lambda>w. replicate w CHR ''w''" "''leader''"]
  by (auto simp: table_flock_def)

theorem lock_files_exclusive_witness:
  "\<exists>s. (lstep table_flock)\<^sup>*\<^sup>* (new_system ''/tmp'' (\<lambda>w. []) Map.empty) s \<and>
     wk_lockFiles (sy_worker s 3) ''k'' = Some 0 \<and> fl_owner table_flock (os_locks (sy_files s)) (os_inode (sy_files s) 0) = Some 0"
proof -
  have "map_option (\<lambda>s. wk_lockFiles (sy_worker s 3) ''k'')
      (take_turns table_flock [BeginAcquire 3 ''k'', Turn 3, Turn 3, Turn 3, Turn 3] (new_system ''/tmp'' (\<lambda>w. []) Map.empty)) =
      Some (Some 0)"
    by (simp add: new_system_def table_flock_def lock_defs Let_def)
  then obtain s where s: "(lstep table_flock)\<^sup>*\<^sup>* (new_system ''/tmp'' (\<lambda>w. []) Map.empty) s"
    "wk_lockFiles (sy_worker s 3) ''k'' = Some 0"
    using take_turns_reach by blast
  from lock_files_exclusive [OF table_flock_laws s(1,2,2) refl] s show ?thesis by blast
qed

section \<open>Leader election\<close>

text \<open>\<open>w0\<close> leads: it holds the lock of the file at the path, which names it.\<close>

definition led_by :: "'l flock_api \<Rightarrow> nat \<Rightarrow> 'l system \<Rightarrow> bool" where
  "led_by fl w0 s \<longleftrightarrow>
     (\<exists>fd i. wk_lockFiles (sy_worker s w0) ''leader'' = Some fd \<and> fd < os_next_fd (sy_files s) \<and>
        os_inode (sy_files s) fd = i \<and> os_path (sy_files s) (lock_path s ''leader'') = Some i \<and>
        fl_owner fl (os_locks (sy_files s)) i = Some fd \<and> os_content (sy_files s) i = wk_ID (sy_worker s w0)) \<and>
     (\<forall>w. w \<noteq> w0 \<longrightarrow> wk_lockFiles (sy_worker s w) ''leader'' = None)"

lemma flock_lawsD:
  assumes "flock_laws fl"
  shows "fl_owner fl l i = None \<Longrightarrow> \<exists>l'. fl_lock fl i fd l = (True, l') \<and> fl_owner fl l' = (fl_owner fl l)(i \<mapsto> fd)"
    "fl_owner fl l i = Some fd' \<Longrightarrow> fd' \<noteq> fd \<Longrightarrow> \<exists>l'. fl_lock fl i fd l = (False, l') \<and> fl_owner fl l' = fl_owner fl l"
    "fl_owner fl l i = Some fd' \<Longrightarrow> fd' \<noteq> fd \<Longrightarrow> fl_owner fl (fl_unlock fl i fd l) = fl_owner fl l"
proof -
  have a: "fst (fl_lock fl i fd l) \<longleftrightarrow> fl_owner fl l i \<in> {None, Some fd}"
    "fl_owner fl (snd (fl_lock fl i fd l)) = (if fst (fl_lock fl i fd l) then (fl_owner fl l)(i \<mapsto> fd) else fl_owner fl l)"
    "fl_owner fl (fl_unlock fl i fd l) = (if fl_owner fl l i = Some fd then (fl_owner fl l)(i := None) else fl_owner fl l)"
    using assms unfolding flock_laws_def by blast+
  show "fl_owner fl l i = None \<Longrightarrow> \<exists>l'. fl_lock fl i fd l = (True, l') \<and> fl_owner fl l' = (fl_owner fl l)(i \<mapsto> fd)"
    using a(1,2) by (intro exI [of _ "snd (fl_lock fl i fd l)"]) (simp add: prod_eq_iff)
  show "fl_owner fl l i = Some fd' \<Longrightarrow> fd' \<noteq> fd \<Longrightarrow> \<exists>l'. fl_lock fl i fd l = (False, l') \<and> fl_owner fl l' = fl_owner fl l"
    using a(1,2) by (intro exI [of _ "snd (fl_lock fl i fd l)"]) (simp add: prod_eq_iff)
  show "fl_owner fl l i = Some fd' \<Longrightarrow> fd' \<noteq> fd \<Longrightarrow> fl_owner fl (fl_unlock fl i fd l) = fl_owner fl l"
    using a(3) by simp
qed

text \<open>The first worker to look finds no file and takes the lock.\<close>

lemma checkLeader_first:
  assumes "flock_laws fl" "fl_owner fl l = Map.empty"
  shows "led_by fl w (checkLeader fl no_faults w (new_system dir ids l))"
    "sy_dir (checkLeader fl no_faults w (new_system dir ids l)) = dir"
    "wk_ID (sy_worker (checkLeader fl no_faults w (new_system dir ids l)) w') = ids w'"
    "wk_leaderID (sy_worker (checkLeader fl no_faults w (new_system dir ids l)) w) = ids w"
proof -
  obtain l' where l': "fl_lock fl 1 0 l = (True, l')" "fl_owner fl l' = [1 \<mapsto> 0]"
    using flock_lawsD(1) [OF assms(1), of l 1 0] assms(2) by auto
  note defs = checkLeader_def AcquireLock_def new_system_def lock_defs eval_nat_numeral
  show "led_by fl w (checkLeader fl no_faults w (new_system dir ids l))"
    "sy_dir (checkLeader fl no_faults w (new_system dir ids l)) = dir"
    "wk_ID (sy_worker (checkLeader fl no_faults w (new_system dir ids l)) w') = ids w'"
    "wk_leaderID (sy_worker (checkLeader fl no_faults w (new_system dir ids l)) w) = ids w"
    using l' by (simp_all add: defs led_by_def)
qed

lemma checkLeader_first_other:
  "flock_laws fl \<Longrightarrow> fl_owner fl l = Map.empty \<Longrightarrow> w' \<noteq> w \<Longrightarrow>
     wk_leaderID (sy_worker (checkLeader fl no_faults w (new_system dir ids l)) w') = []"
  using flock_lawsD(1) [of fl l 1 0]
  by (auto simp: checkLeader_def AcquireLock_def new_system_def lock_defs eval_nat_numeral)

text \<open>Any later worker finds the lock taken and reads the name; the leader keeps the lock.\<close>

lemma checkLeader_later:
  assumes "flock_laws fl" "led_by fl w0 s" "s' = checkLeader fl no_faults w s"
  shows "led_by fl w0 s'" "wk_ID (sy_worker s' w') = wk_ID (sy_worker s w')"
    "wk_leaderID (sy_worker s' w') = (if w' = w then wk_ID (sy_worker s w0) else wk_leaderID (sy_worker s w'))"
proof -
  obtain fd i where led: "wk_lockFiles (sy_worker s w0) ''leader'' = Some fd" "fd < os_next_fd (sy_files s)"
    "os_inode (sy_files s) fd = i" "os_path (sy_files s) (lock_path s ''leader'') = Some i"
    "fl_owner fl (os_locks (sy_files s)) i = Some fd" "os_content (sy_files s) i = wk_ID (sy_worker s w0)"
    "\<And>w. w \<noteq> w0 \<Longrightarrow> wk_lockFiles (sy_worker s w) ''leader'' = None"
    using assms(2) by (auto simp: led_by_def)
  have "led_by fl w0 s' \<and> wk_ID (sy_worker s' w') = wk_ID (sy_worker s w') \<and>
    wk_leaderID (sy_worker s' w') = (if w' = w then wk_ID (sy_worker s w0) else wk_leaderID (sy_worker s w'))"
  proof (cases "w = w0")
    case True
    have "s' = upd_worker w (\<lambda>x. x\<lparr>wk_leaderID := wk_ID x\<rparr>) s"
      unfolding assms(3) using led(1) True by (simp add: checkLeader_def AcquireLock_def begin_acquire_def eval_nat_numeral)
    then show ?thesis using led True by (simp add: led_by_def upd_worker_def lock_path_def)
  next
    case False
    let ?fd = "os_next_fd (sy_files s)" and ?l = "os_locks (sy_files s)"
    have ne: "fd \<noteq> ?fd" using led(2) by simp
    obtain l' where l': "fl_lock fl i ?fd ?l = (False, l')" "fl_owner fl l' = fl_owner fl ?l"
      using flock_lawsD(2) [OF assms(1) led(5) ne] by blast
    have un: "fl_owner fl (fl_unlock fl i ?fd l') = fl_owner fl ?l"
      using flock_lawsD(3) [OF assms(1), of l' i fd ?fd] led(5) ne l'(2) by simp
    have path: "os_path (sy_files s) (filepath_Join [sy_dir s, ''leader'' @ ''.lock'']) = Some i"
      using led(4) by (simp add: lock_path_def)
    have "s' = upd_worker w (\<lambda>x. x\<lparr>wk_leaderID := wk_ID (sy_worker s w0)\<rparr>)
        (s\<lparr>sy_files := (sy_files s)\<lparr>os_inode := (os_inode (sy_files s))(?fd := i), os_next_fd := ?fd + 1,
             os_locks := fl_unlock fl i ?fd l'\<rparr>\<rparr>)"
      unfolding assms(3) using False led(6,7) l'(1) path
      by (simp add: checkLeader_def AcquireLock_def lock_defs eval_nat_numeral os_ReadFile_def Let_def)
    then show ?thesis using led ne False un by (simp add: led_by_def upd_worker_def lock_path_def)
  qed
  then show "led_by fl w0 s'" "wk_ID (sy_worker s' w') = wk_ID (sy_worker s w')"
    "wk_leaderID (sy_worker s' w') = (if w' = w then wk_ID (sy_worker s w0) else wk_leaderID (sy_worker s w'))"
    by blast+
qed

lemma checkLeader_run:
  "flock_laws fl \<Longrightarrow> led_by fl w0 s \<Longrightarrow>
     wk_leaderID (sy_worker (fold (checkLeader fl no_faults) ws s) w) =
       (if w \<in> set ws then wk_ID (sy_worker s w0) else wk_leaderID (sy_worker s w)) \<and>
     wk_ID (sy_worker (fold (checkLeader fl no_faults) ws s) w) = wk_ID (sy_worker s w)"
proof (induction ws arbitrary: s)
  case (Cons v ws)
  note later = checkLeader_later [OF Cons.prems refl]
  from Cons.IH [OF Cons.prems(1) later(1)] show ?case by (auto simp: later(2,3))
qed simp

text \<open>When the workers check for a leader one after the other, without failures and before anybody
  releases the lock, the first one becomes the leader and all that have checked name it; nobody else takes
  itself for the leader.\<close>

theorem leader_is_agreed:
  assumes "flock_laws fl" "fl_owner fl l = Map.empty" "inj ids" "\<forall>w. ids w \<noteq> []"
    "s = fold (checkLeader fl no_faults) (w0 # ws) (new_system dir ids l)"
  shows "(w \<in> set (w0 # ws) \<longrightarrow> wk_leaderID (sy_worker s w) = ids w0) \<and> (IsLeader w s \<longleftrightarrow> w = w0)"
proof -
  let ?s0 = "checkLeader fl no_faults w0 (new_system dir ids l)"
  note first = checkLeader_first [OF assms(1,2), of w0 dir ids]
  have s: "s = fold (checkLeader fl no_faults) ws ?s0" using assms(5) by simp
  have other: "wk_leaderID (sy_worker ?s0 w) = (if w = w0 then ids w0 else [])"
    using checkLeader_first_other [OF assms(1,2)] first(4) by simp
  have run: "wk_leaderID (sy_worker s w) = (if w \<in> set ws then ids w0 else wk_leaderID (sy_worker ?s0 w))"
    "wk_ID (sy_worker s w) = ids w"
    using checkLeader_run [OF assms(1) first(1), of ws w] by (simp_all add: s first(3))
  moreover have "[] \<noteq> ids w" using assms(4) by metis
  ultimately show ?thesis using other assms(3) by (auto simp: IsLeader_def inj_eq)
qed

theorem leader_is_agreed_witness:
  "\<exists>s. s = fold (checkLeader table_flock no_faults) [2, 0, 1] (new_system ''/tmp'' (\<lambda>w. replicate (Suc w) CHR ''w'') Map.empty) \<and>
     IsLeader 2 s \<and> \<not> IsLeader 0 s \<and> wk_leaderID (sy_worker s 1) = ''www''"
proof -
  have "inj (\<lambda>w. replicate (Suc w) CHR ''w'')" by (rule injI) (metis length_replicate nat.inject)
  note l = leader_is_agreed [OF table_flock_laws _ this _ refl, of Map.empty]
  show ?thesis
    using l [where ?w0.0 = 2 and ws = "[0, 1]" and dir = "''/tmp''" and w = 2]
      l [where ?w0.0 = 2 and ws = "[0, 1]" and dir = "''/tmp''" and w = 0]
      l [where ?w0.0 = 2 and ws = "[0, 1]" and dir = "''/tmp''" and w = 1]
    by (simp add: table_flock_def eval_nat_numeral)
qed

end
