(* ===== verification/RedisLocks.thy ===== *)
theory RedisLocks
  imports Coordinator
begin

text \<open>
  The locks and the leader election of \<open>internal/coordinator/redis_coordinator.go\<close>. Redis and its client
  are a parameter (\<open>redis_api\<close>) with the documented laws \<open>redis_laws\<close> of \<open>GET\<close>, \<open>SET NX\<close> with an expiry,
  \<open>DEL\<close> and \<open>EXPIRE\<close>; the two Lua scripts, which Redis runs without interruption, are the code's own and
  are defined from them. A key read at a time \<open>t\<close> is seen as the database stands if no further command
  comes before \<open>t\<close>. Times and durations are in nanoseconds.

  The workers share only the database, so a method is one step: what it does to its own map commutes
  with what other workers do. \<open>rs_until\<close> is not in the code: it records until when the last successful
  acquisition or renewal of a lock is good.
\<close>

section \<open>Redis\<close>

record 'r redis_api =
  rd_get :: "'r \<Rightarrow> int \<Rightarrow> string \<Rightarrow> string option"
  rd_setnx :: "int \<Rightarrow> string \<Rightarrow> string \<Rightarrow> int \<Rightarrow> 'r \<Rightarrow> bool \<times> 'r"
  rd_del :: "int \<Rightarrow> string \<Rightarrow> 'r \<Rightarrow> 'r"
  rd_expire :: "int \<Rightarrow> string \<Rightarrow> int \<Rightarrow> 'r \<Rightarrow> 'r"

text \<open>A time to live that the client passes on exactly; it truncates the others to milliseconds.\<close>

definition whole_ms :: "int \<Rightarrow> bool" where
  "whole_ms ttl \<longleftrightarrow> 0 < ttl \<and> ttl mod 10 ^ 6 = 0"

definition redis_laws :: "'r redis_api \<Rightarrow> bool" where
  "redis_laws rd \<longleftrightarrow>
     (\<forall>now k v ttl r. whole_ms ttl \<longrightarrow> (fst (rd_setnx rd now k v ttl r) \<longleftrightarrow> rd_get rd r now k = None)) \<and>
     (\<forall>now k v ttl r t k'. whole_ms ttl \<longrightarrow> now \<le> t \<longrightarrow> rd_get rd (snd (rd_setnx rd now k v ttl r)) t k' =
        (if rd_get rd r now k = None \<and> k' = k then if t < now + ttl then Some v else None else rd_get rd r t k')) \<and>
     (\<forall>now k r t k'. now \<le> t \<longrightarrow> rd_get rd (rd_del rd now k r) t k' = (if k' = k then None else rd_get rd r t k')) \<and>
     (\<forall>now k secs r t k'. now \<le> t \<longrightarrow> rd_get rd (rd_expire rd now k secs r) t k' =
        (if k' = k then if t < now + secs * 10 ^ 9 then rd_get rd r now k else None else rd_get rd r t k')) \<and>
     (\<forall>r k t t'. t \<le> t' \<longrightarrow> rd_get rd r t k = None \<longrightarrow> rd_get rd r t' k = None)"

section \<open>redis_coordinator.go\<close>

definition lock_key :: "string \<Rightarrow> string" where "lock_key key = ''coordinator:locks:'' @ key"

definition leader_key :: string where "leader_key = ''coordinator:leader''"

definition release_script :: "'r redis_api \<Rightarrow> int \<Rightarrow> string \<Rightarrow> string \<Rightarrow> 'r \<Rightarrow> 'r" where
  "release_script rd now k arg r = (if rd_get rd r now k = Some arg then rd_del rd now k r else r)"

definition renew_script :: "'r redis_api \<Rightarrow> int \<Rightarrow> string \<Rightarrow> string \<Rightarrow> int \<Rightarrow> 'r \<Rightarrow> bool \<times> 'r" where
  "renew_script rd now k arg secs r =
     (if rd_get rd r now k = Some arg then (True, rd_expire rd now k secs r) else (False, r))"

record 'r rsystem =
  rs_db :: 'r
  rs_ID :: "nat \<Rightarrow> string"
  rs_lockKeys :: "nat \<Rightarrow> string \<Rightarrow> bool"
  rs_leaderID :: "nat \<Rightarrow> string"
  rs_until :: "nat \<Rightarrow> string \<Rightarrow> int"

definition redis_AcquireLock :: "'r redis_api \<Rightarrow> int \<Rightarrow> int \<Rightarrow> nat \<Rightarrow> string \<Rightarrow> 'r rsystem \<Rightarrow> bool \<times> 'r rsystem" where
  "redis_AcquireLock rd now ttl w key s =
     (if rs_lockKeys s w key then (True, s)
      else case rd_setnx rd now (lock_key key) (rs_ID s w) ttl (rs_db s) of (acquired, r) \<Rightarrow>
        if acquired
        then (True, s\<lparr>rs_db := r, rs_lockKeys := (rs_lockKeys s)(w := (rs_lockKeys s w)(key := True)),
                     rs_until := (rs_until s)(w := (rs_until s w)(key := now + ttl))\<rparr>)
        else (False, s\<lparr>rs_db := r\<rparr>))"

definition redis_ReleaseLock :: "'r redis_api \<Rightarrow> int \<Rightarrow> nat \<Rightarrow> string \<Rightarrow> 'r rsystem \<Rightarrow> 'r rsystem" where
  "redis_ReleaseLock rd now w key s =
     (if \<not> rs_lockKeys s w key then s
      else s\<lparr>rs_lockKeys := (rs_lockKeys s)(w := (rs_lockKeys s w)(key := False)),
             rs_db := release_script rd now (lock_key key) (rs_ID s w) (rs_db s)\<rparr>)"

text \<open>A tick of \<open>renewLock\<close>; \<open>int(ttl.Seconds())\<close> drops the fraction of a second.\<close>

definition redis_renew :: "'r redis_api \<Rightarrow> int \<Rightarrow> int \<Rightarrow> nat \<Rightarrow> string \<Rightarrow> 'r rsystem \<Rightarrow> 'r rsystem" where
  "redis_renew rd now ttl w key s =
     (if \<not> rs_lockKeys s w key then s
      else case renew_script rd now (lock_key key) (rs_ID s w) (ttl div 10 ^ 9) (rs_db s) of (ok, r) \<Rightarrow>
        if ok then s\<lparr>rs_db := r, rs_until := (rs_until s)(w := (rs_until s w)(key := now + ttl div 10 ^ 9 * 10 ^ 9))\<rparr>
        else s\<lparr>rs_db := r\<rparr>)"

text \<open>The callback and the publication of the change are left out.\<close>

definition runLeaderElection :: "'r redis_api \<Rightarrow> int \<Rightarrow> int \<Rightarrow> nat \<Rightarrow> 'r rsystem \<Rightarrow> 'r rsystem" where
  "runLeaderElection rd now lockTTL w s =
     (case rd_setnx rd now leader_key (rs_ID s w) lockTTL (rs_db s) of (acquired, r) \<Rightarrow>
        if acquired then s\<lparr>rs_db := r, rs_leaderID := (rs_leaderID s)(w := rs_ID s w)\<rparr>
        else case rd_get rd r now leader_key of
               Some leaderID \<Rightarrow> s\<lparr>rs_db := r, rs_leaderID := (rs_leaderID s)(w := leaderID)\<rparr>
             | None \<Rightarrow> s\<lparr>rs_db := r\<rparr>)"

definition redis_IsLeader :: "nat \<Rightarrow> 'r rsystem \<Rightarrow> bool" where
  "redis_IsLeader w s \<longleftrightarrow> rs_leaderID s w = rs_ID s w"

definition new_rsystem :: "'r \<Rightarrow> (nat \<Rightarrow> string) \<Rightarrow> 'r rsystem" where
  "new_rsystem r ids = \<lparr>rs_db = r, rs_ID = ids, rs_lockKeys = (\<lambda>w key. False), rs_leaderID = (\<lambda>w. []), rs_until = (\<lambda>w key. 0)\<rparr>"

section \<open>Runs\<close>

datatype revent = EvAcquire int int nat string | EvRelease int nat string | EvRenew int int nat string | EvElect int int nat

fun ev_time :: "revent \<Rightarrow> int" where
  "ev_time (EvAcquire now ttl w key) = now"
| "ev_time (EvRelease now w key) = now"
| "ev_time (EvRenew now ttl w key) = now"
| "ev_time (EvElect now ttl w) = now"

fun ev_ok :: "revent \<Rightarrow> bool" where
  "ev_ok (EvAcquire now ttl w key) \<longleftrightarrow> whole_ms ttl"
| "ev_ok (EvElect now ttl w) \<longleftrightarrow> whole_ms ttl"
| "ev_ok _ \<longleftrightarrow> True"

fun rev_step :: "'r redis_api \<Rightarrow> revent \<Rightarrow> 'r rsystem \<Rightarrow> 'r rsystem" where
  "rev_step rd (EvAcquire now ttl w key) s = snd (redis_AcquireLock rd now ttl w key s)"
| "rev_step rd (EvRelease now w key) s = redis_ReleaseLock rd now w key s"
| "rev_step rd (EvRenew now ttl w key) s = redis_renew rd now ttl w key s"
| "rev_step rd (EvElect now ttl w) s = runLeaderElection rd now ttl w s"

text \<open>A database as a table of values and the times they expire.\<close>

definition table_redis :: "(string \<rightharpoonup> string \<times> int) redis_api" where
  "table_redis = \<lparr>
     rd_get = (\<lambda>r t k. case r k of Some (v, e) \<Rightarrow> if t < e then Some v else None | None \<Rightarrow> None),
     rd_setnx = (\<lambda>now k v ttl r. case r k of
         Some (v', e) \<Rightarrow> if now < e then (False, r) else (True, r(k \<mapsto> (v, now + ttl)))
       | None \<Rightarrow> (True, r(k \<mapsto> (v, now + ttl)))),
     rd_del = (\<lambda>now k r. r(k := None)),
     rd_expire = (\<lambda>now k secs r. case r k of
         Some (v, e) \<Rightarrow> if now < e then r(k \<mapsto> (v, now + secs * 10 ^ 9)) else r(k := None)
       | None \<Rightarrow> r)\<rparr>"

lemma table_redis_laws: "redis_laws table_redis"
  by (auto simp: redis_laws_def table_redis_def split: option.splits)

section \<open>Leases\<close>

lemma redis_lawsD:
  assumes "redis_laws rd"
  shows "whole_ms ttl \<Longrightarrow> fst (rd_setnx rd now k v ttl r) \<longleftrightarrow> rd_get rd r now k = None"
    "whole_ms ttl \<Longrightarrow> now \<le> t \<Longrightarrow> rd_get rd (snd (rd_setnx rd now k v ttl r)) t k' =
        (if rd_get rd r now k = None \<and> k' = k then if t < now + ttl then Some v else None else rd_get rd r t k')"
    "now \<le> t \<Longrightarrow> rd_get rd (rd_del rd now k r) t k' = (if k' = k then None else rd_get rd r t k')"
    "now \<le> t \<Longrightarrow> rd_get rd (rd_expire rd now k secs r) t k' =
        (if k' = k then if t < now + secs * 10 ^ 9 then rd_get rd r now k else None else rd_get rd r t k')"
    "t \<le> t' \<Longrightarrow> rd_get rd r t k = None \<Longrightarrow> rd_get rd r t' k = None"
proof -
  show "t \<le> t' \<Longrightarrow> rd_get rd r t k = None \<Longrightarrow> rd_get rd r t' k = None"
    using assms unfolding redis_laws_def by blast
qed (use assms in \<open>simp_all add: redis_laws_def\<close>)

lemma lock_key_inject [simp]: "lock_key k = lock_key k' \<longleftrightarrow> k = k'" "lock_key k \<noteq> leader_key"
  by (simp_all add: lock_key_def leader_key_def)

text \<open>At time \<open>now\<close>, while the lease of a worker is good the database holds the worker's name.\<close>

definition leases_ok :: "'r redis_api \<Rightarrow> int \<Rightarrow> 'r rsystem \<Rightarrow> bool" where
  "leases_ok rd now s \<longleftrightarrow>
     (\<forall>w key t. rs_lockKeys s w key \<longrightarrow> now \<le> t \<longrightarrow> t < rs_until s w key \<longrightarrow>
        rd_get rd (rs_db s) t (lock_key key) = Some (rs_ID s w))"

lemma leases_okD:
  "leases_ok rd now s \<Longrightarrow> rs_lockKeys s w key \<Longrightarrow> now \<le> t \<Longrightarrow> t < rs_until s w key \<Longrightarrow>
     rd_get rd (rs_db s) t (lock_key key) = Some (rs_ID s w)"
  unfolding leases_ok_def by blast

lemma leases_ok_later: "leases_ok rd now s \<Longrightarrow> now \<le> now' \<Longrightarrow> leases_ok rd now' s"
  unfolding leases_ok_def by (meson order_trans)

lemma leases_ok_step:
  assumes laws: "redis_laws rd" and inj: "inj (rs_ID s)" and ok: "leases_ok rd (ev_time e) s" "ev_ok e"
  shows "leases_ok rd (ev_time e) (rev_step rd e s) \<and> rs_ID (rev_step rd e s) = rs_ID s"
proof (cases e)
  case (EvAcquire now ttl w key)
  show ?thesis
  proof (cases "rs_lockKeys s w key")
    case True
    then show ?thesis using ok EvAcquire by (simp add: redis_AcquireLock_def)
  next
    case False
    obtain b r where sx: "rd_setnx rd now (lock_key key) (rs_ID s w) ttl (rs_db s) = (b, r)" by fastforce
    have ttl: "whole_ms ttl" using ok(2) EvAcquire by simp
    have b: "b \<longleftrightarrow> rd_get rd (rs_db s) now (lock_key key) = None"
      using redis_lawsD(1) [OF laws ttl, of now "lock_key key" "rs_ID s w" "rs_db s"] sx by simp
    have get: "rd_get rd r t k' = (if b \<and> k' = lock_key key then if t < now + ttl then Some (rs_ID s w) else None
        else rd_get rd (rs_db s) t k')" if "now \<le> t" for t k'
      using redis_lawsD(2) [OF laws ttl that, of "lock_key key" "rs_ID s w" "rs_db s" k'] sx b by simp
    have gone: "rd_get rd (rs_db s) t (lock_key key) = None" if "b" "now \<le> t" for t
      using redis_lawsD(5) [OF laws that(2)] that(1) b by blast
    show ?thesis
      unfolding leases_ok_def
    proof (intro conjI allI impI)
      fix w' key' t
      assume h: "rs_lockKeys (rev_step rd e s) w' key'" "ev_time e \<le> t" "t < rs_until (rev_step rd e s) w' key'"
      have t: "now \<le> t" using h(2) EvAcquire by simp
      show "rd_get rd (rs_db (rev_step rd e s)) t (lock_key key') = Some (rs_ID (rev_step rd e s) w')"
      proof (cases "b \<and> w' = w \<and> key' = key")
        case True
        then show ?thesis using h(3) get [OF t] False sx by (simp add: EvAcquire redis_AcquireLock_def)
      next
        case other: False
        then have "rs_lockKeys s w' key'" "t < rs_until s w' key'"
          using h(1,3) False sx by (auto simp: EvAcquire redis_AcquireLock_def split: if_splits)
        then have "rd_get rd (rs_db s) t (lock_key key') = Some (rs_ID s w')"
          using leases_okD [OF ok(1)] h(2) by blast
        then show ?thesis
          using get [OF t] gone [OF _ t] False sx by (cases b) (auto simp: EvAcquire redis_AcquireLock_def)
      qed
    qed (use False sx in \<open>simp add: EvAcquire redis_AcquireLock_def\<close>)
  qed
next
  case (EvRelease now w key)
  show ?thesis
  proof (cases "rs_lockKeys s w key")
    case False
    then show ?thesis using ok EvRelease by (simp add: redis_ReleaseLock_def)
  next
    case True
    show ?thesis
      unfolding leases_ok_def
    proof (intro conjI allI impI)
      fix w' key' t
      assume h: "rs_lockKeys (rev_step rd e s) w' key'" "ev_time e \<le> t" "t < rs_until (rev_step rd e s) w' key'"
      have t: "now \<le> t" using h(2) EvRelease by simp
      have old: "rs_lockKeys s w' key'" "t < rs_until s w' key'" "\<not> (w' = w \<and> key' = key)"
        using h(1,3) True by (auto simp: EvRelease redis_ReleaseLock_def split: if_splits)
      then have v: "rd_get rd (rs_db s) t (lock_key key') = Some (rs_ID s w')"
        "rd_get rd (rs_db s) now (lock_key key') = Some (rs_ID s w')"
        using leases_okD [OF ok(1) old(1)] h(2) t by (simp_all add: EvRelease)
      have "key' = key \<Longrightarrow> rd_get rd (rs_db s) now (lock_key key) \<noteq> Some (rs_ID s w)"
        using v(2) old(3) inj by (auto simp: inj_eq)
      then show "rd_get rd (rs_db (rev_step rd e s)) t (lock_key key') = Some (rs_ID (rev_step rd e s) w')"
        using v(1) True redis_lawsD(3) [OF laws t] by (auto simp: EvRelease redis_ReleaseLock_def release_script_def)
    qed (use True in \<open>simp add: EvRelease redis_ReleaseLock_def\<close>)
  qed
next
  case (EvRenew now ttl w key)
  show ?thesis
  proof (cases "rs_lockKeys s w key \<and> rd_get rd (rs_db s) now (lock_key key) = Some (rs_ID s w)")
    case False
    then have "rev_step rd e s = s" by (auto simp: EvRenew redis_renew_def renew_script_def)
    then show ?thesis using ok by simp
  next
    case True
    let ?s = "rev_step rd e s" and ?secs = "ttl div 10 ^ 9"
    have s': "?s = s\<lparr>rs_db := rd_expire rd now (lock_key key) ?secs (rs_db s),
        rs_until := (rs_until s)(w := (rs_until s w)(key := now + ?secs * 10 ^ 9))\<rparr>"
      using True by (simp add: EvRenew redis_renew_def renew_script_def)
    have "rd_get rd (rs_db ?s) t (lock_key key') = Some (rs_ID ?s w')"
      if h: "rs_lockKeys ?s w' key'" "ev_time e \<le> t" "t < rs_until ?s w' key'" for w' key' t
    proof -
      have t: "now \<le> t" using h(2) EvRenew by simp
      have get: "rd_get rd (rs_db ?s) t k' = (if k' = lock_key key then if t < now + ?secs * 10 ^ 9
          then rd_get rd (rs_db s) now (lock_key key) else None else rd_get rd (rs_db s) t k')" for k'
        using redis_lawsD(4) [OF laws t, of "lock_key key" ?secs "rs_db s" k'] by (simp add: s')
      show ?thesis
      proof (cases "key' = key")
        case same: True
        have "w' = w"
        proof (rule ccontr)
          assume "w' \<noteq> w"
          then have "rs_lockKeys s w' key'" "t < rs_until s w' key'" using h by (simp_all add: s')
          then have "rd_get rd (rs_db s) now (lock_key key') = Some (rs_ID s w')"
            using leases_okD [OF ok(1)] t by (simp add: EvRenew)
          then show False using True same inj \<open>w' \<noteq> w\<close> by (simp add: inj_eq)
        qed
        then show ?thesis using get [of "lock_key key'"] h(3) True same by (simp add: s')
      next
        case False
        then have "rs_lockKeys s w' key'" "t < rs_until s w' key'" using h by (simp_all add: s' split: if_splits)
        then have "rd_get rd (rs_db s) t (lock_key key') = Some (rs_ID s w')" using leases_okD [OF ok(1)] h(2) by blast
        then show ?thesis using get [of "lock_key key'"] False by (simp add: s')
      qed
    qed
    then show ?thesis unfolding leases_ok_def by (simp add: s')
  qed
next
  case (EvElect now ttl w)
  obtain b r where sx: "rd_setnx rd now leader_key (rs_ID s w) ttl (rs_db s) = (b, r)" by fastforce
  have ttl: "whole_ms ttl" using ok(2) EvElect by simp
  have get: "rd_get rd r t (lock_key k') = rd_get rd (rs_db s) t (lock_key k')" if "now \<le> t" for t k'
    using redis_lawsD(2) [OF laws ttl that, of leader_key "rs_ID s w" "rs_db s" "lock_key k'"] sx by simp
  have "rs_db (rev_step rd e s) = r" "rs_lockKeys (rev_step rd e s) = rs_lockKeys s"
    "rs_until (rev_step rd e s) = rs_until s" "rs_ID (rev_step rd e s) = rs_ID s"
    using sx by (simp_all add: EvElect runLeaderElection_def split: option.splits)
  then show ?thesis using ok(1) get unfolding leases_ok_def by (simp add: EvElect)
qed

lemma leases_ok_run:
  "redis_laws rd \<Longrightarrow> inj (rs_ID s) \<Longrightarrow> leases_ok rd now s \<Longrightarrow> sorted (now # map ev_time evs) \<Longrightarrow> list_all ev_ok evs \<Longrightarrow>
     leases_ok rd (last (now # map ev_time evs)) (fold (rev_step rd) evs s) \<and> rs_ID (fold (rev_step rd) evs s) = rs_ID s"
proof (induction evs arbitrary: now s)
  case (Cons e evs)
  have "leases_ok rd (ev_time e) s" by (rule leases_ok_later [OF Cons.prems(3)]) (use Cons.prems(4) in simp)
  then have st: "leases_ok rd (ev_time e) (rev_step rd e s)" "rs_ID (rev_step rd e s) = rs_ID s"
    using leases_ok_step [OF Cons.prems(1,2)] Cons.prems(5) by simp_all
  have "leases_ok rd (last (ev_time e # map ev_time evs)) (fold (rev_step rd) evs (rev_step rd e s)) \<and>
      rs_ID (fold (rev_step rd) evs (rev_step rd e s)) = rs_ID (rev_step rd e s)"
    by (rule Cons.IH [OF Cons.prems(1) _ st(1)]) (use Cons.prems st(2) in simp_all)
  then show ?case using st(2) by simp
qed simp



section \<open>Where the locks fail\<close>

text \<open>With a time to live below a second the renewal of a lock, meant to keep it, deletes it: the expiry
  is given in whole seconds and zero seconds expire a key at once. Another worker then gets the lock, while
  the first one still counts itself as its holder.\<close>

theorem short_lock_is_lost_on_renewal:
  assumes "redis_laws rd" "whole_ms ttl" "ttl < 10 ^ 9" "rd_get rd r t0 (lock_key key) = None"
    "t0 \<le> t1" "t1 < t0 + ttl" "t1 \<le> t2" "w \<noteq> w'"
    "s = fold (rev_step rd) [EvAcquire t0 ttl w key, EvRenew t1 ttl w key, EvAcquire t2 ttl w' key] (new_rsystem r ids)"
  shows "rs_lockKeys s w key \<and> rs_lockKeys s w' key \<and> fst (redis_AcquireLock rd t2 ttl w key s)"
proof -
  let ?k = "lock_key key" and ?s0 = "new_rsystem r ids"
  obtain r1 where r1: "rd_setnx rd t0 ?k (ids w) ttl r = (True, r1)"
    using redis_lawsD(1) [OF assms(1,2), of t0 ?k "ids w" r] assms(4) by (metis prod.collapse)
  have g1: "rd_get rd r1 t1 ?k = Some (ids w)"
    using redis_lawsD(2) [OF assms(1,2,5), of ?k "ids w" r ?k] assms(4,6) r1 by simp
  have zero: "ttl div 10 ^ 9 = 0" using assms(2,3) by (simp add: whole_ms_def)
  have g2: "rd_get rd (rd_expire rd t1 ?k 0 r1) t2 ?k = None"
    using redis_lawsD(4) [OF assms(1,7), of ?k 0 r1 ?k] assms(7) by simp
  obtain r3 where r3: "rd_setnx rd t2 ?k (ids w') ttl (rd_expire rd t1 ?k 0 r1) = (True, r3)"
    using redis_lawsD(1) [OF assms(1,2), of t2 ?k "ids w'" "rd_expire rd t1 ?k 0 r1"] g2 by (metis prod.collapse)
  have "rs_lockKeys s w key \<and> rs_lockKeys s w' key"
    using assms(8) r1 g1 r3 zero
    by (simp add: assms(9) redis_AcquireLock_def redis_renew_def renew_script_def new_rsystem_def)
  then show ?thesis by (simp add: redis_AcquireLock_def)
qed

theorem short_lock_is_lost_on_renewal_witness:
  "let s = fold (rev_step table_redis) [EvAcquire 0 (6 * 10 ^ 8) 0 ''k'', EvRenew (2 * 10 ^ 8) (6 * 10 ^ 8) 0 ''k'', EvAcquire (3 * 10 ^ 8) (6 * 10 ^ 8) 1 ''k'']
     (new_rsystem Map.empty (\<lambda>w. replicate w CHR ''w''))
   in rs_lockKeys s 0 ''k'' \<and> rs_lockKeys s 1 ''k''"
  using short_lock_is_lost_on_renewal [OF table_redis_laws _ _ _ _ _ _ _ refl,
      of "6 * 10 ^ 8" Map.empty 0 "''k''" "2 * 10 ^ 8" "3 * 10 ^ 8" 0 1 "\<lambda>w. replicate w CHR ''w''"]
  by (simp add: table_redis_def Let_def whole_ms_def)

text \<open>The leader's key is never renewed. When its time to live has passed another worker is elected, and
  until the first one's own next round both take themselves for the leader; an election that the leader
  itself holds in between does not change that.\<close>

theorem leadership_is_not_renewed:
  assumes "redis_laws rd" "whole_ms ttl" "rd_get rd r t0 leader_key = None" "t0 \<le> t1" "t1 < t0 + ttl" "t0 + ttl \<le> t2"
    "ids w \<noteq> ids w'"
    "s = fold (rev_step rd) [EvElect t0 ttl w, EvElect t1 ttl w, EvElect t2 ttl w'] (new_rsystem r ids)"
  shows "redis_IsLeader w s \<and> redis_IsLeader w' s"
proof -
  let ?k = leader_key
  obtain r1 where r1: "rd_setnx rd t0 ?k (ids w) ttl r = (True, r1)"
    using redis_lawsD(1) [OF assms(1,2), of t0 ?k "ids w" r] assms(3) by (metis prod.collapse)
  have g1: "rd_get rd r1 t ?k = (if t < t0 + ttl then Some (ids w) else None)" if "t0 \<le> t" for t
    using redis_lawsD(2) [OF assms(1,2) that, of ?k "ids w" r ?k] assms(3) r1 by simp
  obtain b r2 where r2: "rd_setnx rd t1 ?k (ids w) ttl r1 = (b, r2)" by fastforce
  have "b = (rd_get rd r1 t1 ?k = None)" using redis_lawsD(1) [OF assms(1,2), of t1 ?k "ids w" r1] r2 by simp
  then have b: "\<not> b" using g1 [OF assms(4)] assms(5) by simp
  have g2: "rd_get rd r2 t ?k = (if t < t0 + ttl then Some (ids w) else None)" if "t1 \<le> t" for t
    using redis_lawsD(2) [OF assms(1,2) that, of ?k "ids w" r1 ?k] g1 [OF assms(4)] g1 [of t] that assms(4,5) r2 by simp
  have none: "rd_get rd r2 t2 ?k = None" using g2 [of t2] assms(4,5,6) by simp
  obtain r3 where r3: "rd_setnx rd t2 ?k (ids w') ttl r2 = (True, r3)"
    using redis_lawsD(1) [OF assms(1,2), of t2 ?k "ids w'" r2] none by (metis prod.collapse)
  show ?thesis
    using r1 r2 b g2 [of t1] r3 assms(5,7)
    by (auto simp: assms(8) runLeaderElection_def new_rsystem_def redis_IsLeader_def)
qed

theorem leadership_is_not_renewed_witness:
  "let s = fold (rev_step table_redis) [EvElect 0 (10 ^ 10) 0, EvElect 5 (10 ^ 10) 0, EvElect (10 ^ 10) (10 ^ 10) 1]
     (new_rsystem Map.empty (\<lambda>w. replicate (Suc w) CHR ''w''))
   in redis_IsLeader 0 s \<and> redis_IsLeader 1 s"
  using leadership_is_not_renewed [OF table_redis_laws _ _ _ _ _ _ refl,
      of "10 ^ 10" Map.empty 0 5 "10 ^ 10" "\<lambda>w. replicate (Suc w) CHR ''w''" 0 1]
  by (simp add: table_redis_def Let_def whole_ms_def)

end
