(* ===== verification/ApiServer.thy ===== *)
theory ApiServer
  imports CrawlRuns
begin

text \<open>
  The control server, \<open>internal/api/api.go\<close>, and the methods of the crawler it calls (\<open>status.go\<close>, and
  \<open>Start\<close> and \<open>Stop\<close> of \<open>start.go\<close> and \<open>crawler.go\<close>). The interface \<open>CrawlControl\<close> is a record of
  functions; the locale \<open>crawl_control\<close> holds what the server relies on, and the crawler is an
  interpretation of it. The token bucket of \<open>golang.org/x/time/rate\<close> is a parameter. Bodies are kept as
  the values the JSON encoder is given; a request carries its decoded seeds, if they decode.

  \<open>net/http\<close> runs the handlers concurrently. A handler is a function on the server and on the response;
  what it starts and does not wait for, and what it does after a call that takes time, is a \<open>job\<close>.
  \<open>sstep\<close> interleaves handlers, jobs and the crawl.
\<close>

section \<open>Responses\<close>

record crawl_status =
  st_Running :: bool
  st_Paused :: bool
  st_PagesFetched :: int
  st_AssetsSaved :: int
  st_Errors :: int
  st_BytesTotal :: int
  st_QueueSize :: nat
  st_Elapsed :: int
  st_CurrentURL :: string
  st_SeedURLs :: nat

record health_status =
  hs_Status :: string
  hs_Timestamp :: int
  hs_Checks :: "string \<rightharpoonup> string"

datatype body = PlainText string | JObject string string | JStatus crawl_status | JHealth health_status

record request =
  rq_method :: string
  rq_path :: string
  rq_seeds :: "string list option"

text \<open>\<open>http.ResponseWriter\<close>: the headers count only as they are when the status line is written.\<close>

record writer =
  rw_header :: "string \<rightharpoonup> string"
  rw_sent :: "(nat \<times> (string \<rightharpoonup> string)) option"
  rw_body :: "body list"

definition new_writer :: writer where
  "new_writer = \<lparr>rw_header = Map.empty, rw_sent = None, rw_body = []\<rparr>"

definition header_Set :: "string \<Rightarrow> string \<Rightarrow> writer \<Rightarrow> writer" where
  "header_Set k v w = w\<lparr>rw_header := (rw_header w)(k \<mapsto> v)\<rparr>"

definition WriteHeader :: "nat \<Rightarrow> writer \<Rightarrow> writer" where
  "WriteHeader code w = (if rw_sent w = None then w\<lparr>rw_sent := Some (code, rw_header w)\<rparr> else w)"

definition rw_Write :: "body \<Rightarrow> writer \<Rightarrow> writer" where
  "rw_Write b w = (WriteHeader 200 w)\<lparr>rw_body := rw_body w @ [b]\<rparr>"

definition http_Error :: "writer \<Rightarrow> string \<Rightarrow> nat \<Rightarrow> writer" where
  "http_Error w msg code =
     rw_Write (PlainText (msg @ [CHR 0x0A])) (WriteHeader code
       (header_Set ''X-Content-Type-Options'' ''nosniff'' (header_Set ''Content-Type'' ''text/plain; charset=utf-8'' w)))"

definition send_json :: "writer \<Rightarrow> body \<Rightarrow> writer" where
  "send_json w data = rw_Write data (header_Set ''Content-Type'' ''application/json'' w)"

definition reply_code :: "writer \<Rightarrow> nat" where
  "reply_code w = (case rw_sent w of Some (code, h) \<Rightarrow> code | None \<Rightarrow> 200)"

definition reply_header :: "writer \<Rightarrow> string \<Rightarrow> string option" where
  "reply_header w k = (case rw_sent w of Some (code, h) \<Rightarrow> h k | None \<Rightarrow> None)"

lemmas writer_defs = new_writer_def header_Set_def WriteHeader_def rw_Write_def http_Error_def send_json_def
  reply_code_def reply_header_def

section \<open>The controller and the server\<close>

text \<open>
  \<open>CrawlControl\<close>. \<open>Start\<close> blocks for the whole crawl: \<open>ctl_claim\<close> is its first statement, which returns
  the error \<open>crawl already running\<close> (\<open>False\<close>) or goes on, and \<open>ctl_step\<close> is what it does from then on.
\<close>

record 'c control_api =
  ctl_IsRunning :: "'c \<Rightarrow> bool"
  ctl_Status :: "'c \<Rightarrow> crawl_status"
  ctl_claim :: "string list \<Rightarrow> 'c \<Rightarrow> bool \<times> 'c"
  ctl_Stop :: "'c \<Rightarrow> 'c"
  ctl_Pause :: "'c \<Rightarrow> 'c"
  ctl_Resume :: "'c \<Rightarrow> 'c"
  ctl_step :: "'c \<Rightarrow> 'c \<Rightarrow> bool"

text \<open>
  The goroutine of \<open>handleStart\<close> before \<open>Start\<close>, in it and after it; a handler between a call to the
  controller and what follows, or between its test and its call.
\<close>

datatype job = Launched "string list" | InStart | Returned | Stopping | Pausing | Resuming

record ('c, 'l) server =
  sv_ctl :: 'c
  sv_start :: int
  sv_active :: bool
  sv_limiter :: 'l
  sv_running :: bool
  sv_server :: bool
  sv_jobs :: "job list"

definition New_server :: "'c \<Rightarrow> int \<Rightarrow> 'l \<Rightarrow> ('c, 'l) server" where
  "New_server ctl now lim =
     \<lparr>sv_ctl = ctl, sv_start = now, sv_active = False, sv_limiter = lim, sv_running = False, sv_server = False, sv_jobs = []\<rparr>"

text \<open>\<open>Start\<close> and \<open>Stop\<close> of the server itself: \<open>Start\<close> claims it and then makes the \<open>http.Server\<close>.\<close>

definition server_claim :: "('c, 'l) server \<Rightarrow> bool \<times> ('c, 'l) server" where
  "server_claim sv = (if sv_running sv then (False, sv) else (True, sv\<lparr>sv_running := True\<rparr>))"

definition server_listen :: "('c, 'l) server \<Rightarrow> ('c, 'l) server" where
  "server_listen sv = sv\<lparr>sv_server := True\<rparr>"

definition server_Stop :: "('c, 'l) server \<Rightarrow> ('c, 'l) server outcome" where
  "server_Stop sv =
     (if sv_running sv then (if sv_server sv then Returns (sv\<lparr>sv_running := False\<rparr>) else Panic) else Returns sv)"

definition add_job :: "job \<Rightarrow> ('c, 'l) server \<Rightarrow> ('c, 'l) server" where
  "add_job j sv = sv\<lparr>sv_jobs := sv_jobs sv @ [j]\<rparr>"

section \<open>The handlers\<close>

definition not_allowed :: "writer \<Rightarrow> writer" where
  "not_allowed w = http_Error w ''method not allowed'' 405"

text \<open>\<open>Duration.Round(time.Second)\<close>: halves are rounded away from zero.\<close>

definition round_seconds :: "int \<Rightarrow> int" where
  "round_seconds d = (if d < 0 then - ((- d + 5 * 10 ^ 8) div 10 ^ 9 * 10 ^ 9) else (d + 5 * 10 ^ 8) div 10 ^ 9 * 10 ^ 9)"

definition handleStatus :: "'c control_api \<Rightarrow> int \<Rightarrow> request \<Rightarrow> ('c, 'l) server \<Rightarrow> writer \<Rightarrow> writer \<times> ('c, 'l) server" where
  "handleStatus api now req sv w =
     (if rq_method req \<noteq> ''GET'' then (not_allowed w, sv)
      else (send_json w (JStatus ((ctl_Status api (sv_ctl sv))\<lparr>st_Elapsed := round_seconds (now - sv_start sv)\<rparr>)), sv))"

definition handleStart :: "'c control_api \<Rightarrow> int \<Rightarrow> request \<Rightarrow> ('c, 'l) server \<Rightarrow> writer \<Rightarrow> writer \<times> ('c, 'l) server" where
  "handleStart api now req sv w =
     (if rq_method req \<noteq> ''POST'' then (not_allowed w, sv)
      else let seeds = (case rq_seeds req of Some xs \<Rightarrow> xs | None \<Rightarrow> [])
      in if seeds = [] then (http_Error w ''seeds required'' 400, sv)
      else if sv_active sv \<or> ctl_IsRunning api (sv_ctl sv) then (http_Error w ''crawl already running'' 409, sv)
      else (send_json w (JObject ''status'' ''started''),
            add_job (Launched seeds) (sv\<lparr>sv_active := True, sv_start := now\<rparr>)))"

text \<open>The two statements of \<open>handleStop\<close>, and the calls that \<open>handlePause\<close> and \<open>handleResume\<close> end with.\<close>

definition stop_call :: "'c control_api \<Rightarrow> ('c, 'l) server \<Rightarrow> ('c, 'l) server" where
  "stop_call api sv = sv\<lparr>sv_ctl := ctl_Stop api (sv_ctl sv)\<rparr>"

definition release :: "('c, 'l) server \<Rightarrow> ('c, 'l) server" where
  "release sv = sv\<lparr>sv_active := False\<rparr>"

definition pause_call :: "'c control_api \<Rightarrow> ('c, 'l) server \<Rightarrow> ('c, 'l) server" where
  "pause_call api sv = sv\<lparr>sv_ctl := ctl_Pause api (sv_ctl sv)\<rparr>"

definition resume_call :: "'c control_api \<Rightarrow> ('c, 'l) server \<Rightarrow> ('c, 'l) server" where
  "resume_call api sv = sv\<lparr>sv_ctl := ctl_Resume api (sv_ctl sv)\<rparr>"

text \<open>
  What a handler does after its first call, or after its test, is left as a job: other requests can come in
  between. The reply does not depend on it and is given here at once.
\<close>

definition handleStop :: "'c control_api \<Rightarrow> int \<Rightarrow> request \<Rightarrow> ('c, 'l) server \<Rightarrow> writer \<Rightarrow> writer \<times> ('c, 'l) server" where
  "handleStop api now req sv w =
     (if rq_method req \<noteq> ''POST'' then (not_allowed w, sv)
      else (send_json w (JObject ''status'' ''stopped''), add_job Stopping (stop_call api sv)))"

definition handlePause :: "'c control_api \<Rightarrow> int \<Rightarrow> request \<Rightarrow> ('c, 'l) server \<Rightarrow> writer \<Rightarrow> writer \<times> ('c, 'l) server" where
  "handlePause api now req sv w =
     (if rq_method req \<noteq> ''POST'' then (not_allowed w, sv)
      else if \<not> ctl_IsRunning api (sv_ctl sv) then (http_Error w ''no crawl running'' 409, sv)
      else (send_json w (JObject ''status'' ''paused''), add_job Pausing sv))"

definition handleResume :: "'c control_api \<Rightarrow> int \<Rightarrow> request \<Rightarrow> ('c, 'l) server \<Rightarrow> writer \<Rightarrow> writer \<times> ('c, 'l) server" where
  "handleResume api now req sv w =
     (if rq_method req \<noteq> ''POST'' then (not_allowed w, sv)
      else if \<not> ctl_IsRunning api (sv_ctl sv) then (http_Error w ''no crawl running'' 409, sv)
      else (send_json w (JObject ''status'' ''resumed''), add_job Resuming sv))"

definition handleHealthz :: "'c control_api \<Rightarrow> int \<Rightarrow> request \<Rightarrow> ('c, 'l) server \<Rightarrow> writer \<Rightarrow> writer \<times> ('c, 'l) server" where
  "handleHealthz api now req sv w =
     (if rq_method req \<noteq> ''GET'' then (not_allowed w, sv)
      else (send_json w (JHealth \<lparr>hs_Status = ''healthy'', hs_Timestamp = now,
              hs_Checks = [''api'' \<mapsto> ''ok'',
                ''crawler'' \<mapsto> (if ctl_IsRunning api (sv_ctl sv) then ''running'' else ''idle'')]\<rparr>), sv))"

text \<open>The status line is written before \<open>send_json\<close> sets the content type.\<close>

definition handleReadyz :: "'c control_api \<Rightarrow> int \<Rightarrow> request \<Rightarrow> ('c, 'l) server \<Rightarrow> writer \<Rightarrow> writer \<times> ('c, 'l) server" where
  "handleReadyz api now req sv w =
     (if rq_method req \<noteq> ''GET'' then (not_allowed w, sv)
      else let starting = sv_active sv \<and> \<not> ctl_IsRunning api (sv_ctl sv);
               ready = \<lparr>hs_Status = (if starting then ''not_ready'' else ''ready''), hs_Timestamp = now,
                 hs_Checks = [''api'' \<mapsto> ''ready'', ''crawler'' \<mapsto> (if starting then ''starting'' else ''ready'')]\<rparr>;
               statusCode = (if hs_Status ready = ''not_ready'' then 503 else 200)
      in (send_json (WriteHeader statusCode w) (JHealth ready), sv))"

lemmas handler_defs = handleStatus_def handleStart_def handleStop_def handlePause_def handleResume_def
  handleHealthz_def handleReadyz_def

section \<open>Routing and middleware\<close>

text \<open>\<open>metrics\<close> is the crawler's Prometheus handler.\<close>

definition mux :: "'c control_api \<Rightarrow> (writer \<Rightarrow> writer) \<Rightarrow> int \<Rightarrow> request \<Rightarrow> ('c, 'l) server \<Rightarrow> writer \<Rightarrow> writer \<times> ('c, 'l) server" where
  "mux api metrics now req sv w =
     (let p = rq_path req in
      if p = ''/api/status'' then handleStatus api now req sv w
      else if p = ''/api/start'' then handleStart api now req sv w
      else if p = ''/api/stop'' then handleStop api now req sv w
      else if p = ''/api/pause'' then handlePause api now req sv w
      else if p = ''/api/resume'' then handleResume api now req sv w
      else if p = ''/healthz'' then handleHealthz api now req sv w
      else if p = ''/readyz'' then handleReadyz api now req sv w
      else if p = ''/metrics'' then (metrics w, sv)
      else (http_Error w ''404 page not found'' 404, sv))"

text \<open>\<open>allow\<close> is \<open>Limiter.Allow\<close> at the time of the call.\<close>

definition rateLimitMiddleware :: "('l \<Rightarrow> bool \<times> 'l) \<Rightarrow> (request \<Rightarrow> ('c, 'l) server \<Rightarrow> writer \<Rightarrow> writer \<times> ('c, 'l) server) \<Rightarrow>
    request \<Rightarrow> ('c, 'l) server \<Rightarrow> writer \<Rightarrow> writer \<times> ('c, 'l) server" where
  "rateLimitMiddleware allow nxt req sv w =
     (if rq_path req = ''/healthz'' \<or> rq_path req = ''/readyz'' then nxt req sv w
      else case allow (sv_limiter sv) of (ok, l) \<Rightarrow>
        let sv1 = sv\<lparr>sv_limiter := l\<rparr> in
        if \<not> ok then (rw_Write (JObject ''error'' ''rate limit exceeded'')
                       (WriteHeader 429 (header_Set ''Content-Type'' ''application/json'' w)), sv1)
        else nxt req sv1 w)"

definition corsMiddleware :: "(request \<Rightarrow> ('c, 'l) server \<Rightarrow> writer \<Rightarrow> writer \<times> ('c, 'l) server) \<Rightarrow>
    request \<Rightarrow> ('c, 'l) server \<Rightarrow> writer \<Rightarrow> writer \<times> ('c, 'l) server" where
  "corsMiddleware nxt req sv w =
     (let w1 = header_Set ''Access-Control-Allow-Headers'' ''Content-Type''
                 (header_Set ''Access-Control-Allow-Methods'' ''GET, POST, OPTIONS''
                   (header_Set ''Access-Control-Allow-Origin'' ''*'' w))
      in if rq_method req = ''OPTIONS'' then (WriteHeader 200 w1, sv) else nxt req sv w1)"

definition serve :: "'c control_api \<Rightarrow> (writer \<Rightarrow> writer) \<Rightarrow> ('l \<Rightarrow> bool \<times> 'l) \<Rightarrow> int \<Rightarrow> request \<Rightarrow> ('c, 'l) server \<Rightarrow>
    writer \<times> ('c, 'l) server" where
  "serve api metrics allow now req sv =
     corsMiddleware (rateLimitMiddleware allow (mux api metrics now)) req sv new_writer"

section \<open>Interleaving\<close>

definition drop_job :: "nat \<Rightarrow> ('c, 'l) server \<Rightarrow> ('c, 'l) server" where
  "drop_job i sv = sv\<lparr>sv_jobs := remove_at i (sv_jobs sv)\<rparr>"

definition set_jobs :: "(job \<Rightarrow> job) \<Rightarrow> ('c, 'l) server \<Rightarrow> ('c, 'l) server" where
  "set_jobs f sv = sv\<lparr>sv_jobs := map f (sv_jobs sv)\<rparr>"

text \<open>The goroutine calls \<open>Start\<close>; if that refuses it goes on to clear \<open>active\<close>.\<close>

definition start_call :: "'c control_api \<Rightarrow> nat \<Rightarrow> string list \<Rightarrow> ('c, 'l) server \<Rightarrow> ('c, 'l) server" where
  "start_call api i seeds sv =
     (case ctl_claim api seeds (sv_ctl sv) of (ok, c) \<Rightarrow>
        sv\<lparr>sv_ctl := c, sv_jobs := (sv_jobs sv)[i := if ok then InStart else Returned]\<rparr>)"

text \<open>The crawl moves. When it ends, the call to \<open>Start\<close> returns.\<close>

definition crawl_moved :: "'c control_api \<Rightarrow> 'c \<Rightarrow> ('c, 'l) server \<Rightarrow> ('c, 'l) server" where
  "crawl_moved api c sv =
     (if ctl_IsRunning api (sv_ctl sv) \<and> \<not> ctl_IsRunning api c
      then set_jobs (\<lambda>j. if j = InStart then Returned else j) (sv\<lparr>sv_ctl := c\<rparr>) else sv\<lparr>sv_ctl := c\<rparr>)"

inductive sstep :: "'c control_api \<Rightarrow> (writer \<Rightarrow> writer) \<Rightarrow> ('l \<Rightarrow> bool \<times> 'l) \<Rightarrow> ('c, 'l) server \<Rightarrow> ('c, 'l) server \<Rightarrow> bool"
  for api metrics allow where
  request: "serve api metrics allow now req sv = (w, sv') \<Longrightarrow> sstep api metrics allow sv sv'"
| start: "i < length (sv_jobs sv) \<Longrightarrow> sv_jobs sv ! i = Launched seeds \<Longrightarrow> sstep api metrics allow sv (start_call api i seeds sv)"
| finished: "i < length (sv_jobs sv) \<Longrightarrow> sv_jobs sv ! i = Returned \<Longrightarrow> sstep api metrics allow sv (drop_job i (release sv))"
| stopped: "i < length (sv_jobs sv) \<Longrightarrow> sv_jobs sv ! i = Stopping \<Longrightarrow> sstep api metrics allow sv (drop_job i (release sv))"
| paused: "i < length (sv_jobs sv) \<Longrightarrow> sv_jobs sv ! i = Pausing \<Longrightarrow> sstep api metrics allow sv (drop_job i (pause_call api sv))"
| resumed: "i < length (sv_jobs sv) \<Longrightarrow> sv_jobs sv ! i = Resuming \<Longrightarrow> sstep api metrics allow sv (drop_job i (resume_call api sv))"
| crawl: "ctl_step api (sv_ctl sv) c \<Longrightarrow> sstep api metrics allow sv (crawl_moved api c sv)"

section \<open>The crawler behind the server\<close>

text \<open>
  \<open>Start\<close> of the crawler: claimed; seeding; launching the browsers, the coordinator and the periodic
  goroutines; dispatching, until the clean-up.
\<close>

datatype start_pc = Idle | Seeding "string list" | Launching | Dispatching

record 'b control =
  ct_started :: bool
  ct_pc :: start_pc
  ct_doneClosed :: bool
  ct_seeds :: "string list"
  ct_metrics :: "int \<times> int \<times> int \<times> int"
  ct_crawler :: "'b crawler"

definition new_control :: "'b crawler \<Rightarrow> 'b control" where
  "new_control c = \<lparr>ct_started = False, ct_pc = Idle, ct_doneClosed = False, ct_seeds = cfg_Seeds (cw_cfg c),
     ct_metrics = (0, 0, 0, 0), ct_crawler = c\<rparr>"

definition crawler_IsRunning :: "'b control \<Rightarrow> bool" where
  "crawler_IsRunning ct = ct_started ct"

definition crawler_Status :: "'b control \<Rightarrow> crawl_status" where
  "crawler_Status ct = (case ct_metrics ct of (pages, assets, errors, bytes) \<Rightarrow>
     \<lparr>st_Running = ct_started ct, st_Paused = cw_paused (ct_crawler ct), st_PagesFetched = pages, st_AssetsSaved = assets,
      st_Errors = errors, st_BytesTotal = bytes, st_QueueSize = Size (cw_queue (ct_crawler ct)), st_Elapsed = 0,
      st_CurrentURL = [], st_SeedURLs = length (ct_seeds ct)\<rparr>)"

definition on_crawler :: "('b crawler \<Rightarrow> 'b crawler) \<Rightarrow> 'b control \<Rightarrow> 'b control" where
  "on_crawler f ct = ct\<lparr>ct_crawler := f (ct_crawler ct)\<rparr>"

definition Start_claim :: "string list \<Rightarrow> 'b control \<Rightarrow> bool \<times> 'b control" where
  "Start_claim seeds ct = (if ct_started ct then (False, ct) else (True, ct\<lparr>ct_started := True, ct_pc := Seeding seeds\<rparr>))"

text \<open>The deferred calls of \<open>Start\<close>: the limiter is stopped, the context cancelled, \<open>started\<close> reset.\<close>

definition Start_return :: "'b control \<Rightarrow> 'b control" where
  "Start_return ct = ct\<lparr>ct_started := False, ct_pc := Idle, ct_crawler := (ct_crawler ct)\<lparr>cw_cancelled := True\<rparr>\<rparr>"

definition Start_seed :: "'b crawl_env \<Rightarrow> (string \<Rightarrow> string list) \<Rightarrow> checkpoint option \<Rightarrow> string list \<Rightarrow> 'b control \<Rightarrow> 'b control" where
  "Start_seed env sitemaps cp seeds ct =
     (let ct1 = ct\<lparr>ct_seeds := seeds, ct_crawler := seed_crawl env sitemaps cp seeds (ct_crawler ct)\<rparr>
      in if Size (cw_queue (ct_crawler ct1)) = 0 then Start_return ct1 else ct1\<lparr>ct_pc := Launching\<rparr>)"

text \<open>The loop is entered, unless pages are captured by hand; then \<open>Start\<close> jumps to the clean-up.\<close>

definition Start_dispatch :: "'b control \<Rightarrow> 'b control" where
  "Start_dispatch ct =
     (let c = ct_crawler ct
      in ct\<lparr>ct_pc := Dispatching, ct_crawler := c\<lparr>cw_pc := (if cfg_ManualCapture (cw_cfg c) then LoopExited else AtTop)\<rparr>\<rparr>)"

text \<open>The clean-up closes \<open>checkpointDone\<close>, which \<open>NewCrawler\<close> made; a panic there ends the process.\<close>

definition Start_cleanup :: "'b control \<Rightarrow> 'b control outcome" where
  "Start_cleanup ct = (if ct_doneClosed ct then Panic else Returns (Start_return (ct\<lparr>ct_doneClosed := True\<rparr>)))"

inductive ctstep :: "'b crawl_env \<Rightarrow> (string \<Rightarrow> string list) \<Rightarrow> 'b control \<Rightarrow> 'b control \<Rightarrow> bool" for env sitemaps where
  seed: "ct_pc ct = Seeding seeds \<Longrightarrow> ctstep env sitemaps ct (Start_seed env sitemaps cp seeds ct)"
| launch: "ct_pc ct = Launching \<Longrightarrow> ctstep env sitemaps ct (Start_dispatch ct)"
| launch_failed: "ct_pc ct = Launching \<Longrightarrow> ctstep env sitemaps ct (Start_return ct)"
| move: "cstep env (ct_crawler ct) c \<Longrightarrow> ct_pc ct = Dispatching \<or> cw_pc c = cw_pc (ct_crawler ct) \<Longrightarrow>
    ctstep env sitemaps ct (ct\<lparr>ct_crawler := c\<rparr>)"
| count: "ctstep env sitemaps ct (ct\<lparr>ct_metrics := m\<rparr>)"
| cleanup: "ct_pc ct = Dispatching \<Longrightarrow> cw_pc (ct_crawler ct) = LoopExited \<Longrightarrow> Start_cleanup ct = Returns ct' \<Longrightarrow>
    ctstep env sitemaps ct ct'"

definition crawler_api :: "'b crawl_env \<Rightarrow> (string \<Rightarrow> string list) \<Rightarrow> 'b control control_api" where
  "crawler_api env sitemaps = \<lparr>
     ctl_IsRunning = crawler_IsRunning, ctl_Status = crawler_Status, ctl_claim = Start_claim,
     ctl_Stop = on_crawler StopCrawl, ctl_Pause = on_crawler PauseCrawl, ctl_Resume = on_crawler ResumeCrawl,
     ctl_step = ctstep env sitemaps\<rparr>"

section \<open>What a request does to the server\<close>

lemma add_job_simps [simp]:
  "sv_ctl (add_job j sv) = sv_ctl sv" "sv_active (add_job j sv) = sv_active sv"
  "sv_jobs (add_job j sv) = sv_jobs sv @ [j]"
  by (simp_all add: add_job_def)

lemma serve_cases:
  assumes "serve api metrics allow now req sv = (w, sv')"
  obtains (plain) l where "sv' = sv\<lparr>sv_limiter := l\<rparr>"
    | (started) l seeds where "sv' = add_job (Launched seeds) (sv\<lparr>sv_limiter := l, sv_active := True, sv_start := now\<rparr>)"
        "\<not> sv_active sv" "\<not> ctl_IsRunning api (sv_ctl sv)"
    | (stopping) l where "sv' = add_job Stopping (stop_call api (sv\<lparr>sv_limiter := l\<rparr>))"
    | (pausing) l j where "sv' = add_job j (sv\<lparr>sv_limiter := l\<rparr>)" "j = Pausing \<or> j = Resuming"
proof -
  have mux: thesis if m: "mux api metrics now req (sv\<lparr>sv_limiter := l\<rparr>) w1 = (w, sv')" for l w1
  proof -
    have "sv' = sv\<lparr>sv_limiter := l\<rparr> \<or>
        (\<exists>seeds. sv' = add_job (Launched seeds) (sv\<lparr>sv_limiter := l, sv_active := True, sv_start := now\<rparr>) \<and>
           \<not> sv_active sv \<and> \<not> ctl_IsRunning api (sv_ctl sv)) \<or>
        sv' = add_job Stopping (stop_call api (sv\<lparr>sv_limiter := l\<rparr>)) \<or>
        sv' = add_job Pausing (sv\<lparr>sv_limiter := l\<rparr>) \<or> sv' = add_job Resuming (sv\<lparr>sv_limiter := l\<rparr>)"
      using m by (auto simp: mux_def handler_defs Let_def split: if_splits)
    then show thesis using plain started stopping pausing by blast
  qed
  obtain ok l where a: "allow (sv_limiter sv) = (ok, l)" by fastforce
  have same: "sv = sv\<lparr>sv_limiter := sv_limiter sv\<rparr>" by simp
  show thesis
  proof (cases "rq_method req = ''OPTIONS''")
    case True
    then show thesis using assms plain [of "sv_limiter sv"] by (simp add: serve_def corsMiddleware_def Let_def)
  next
    case False
    note r = assms [unfolded serve_def corsMiddleware_def Let_def rateLimitMiddleware_def a, simplified False]
    show thesis
    proof (cases "rq_path req = ''/healthz'' \<or> rq_path req = ''/readyz''")
      case True
      with r mux [of "sv_limiter sv"] same show thesis by (auto split: if_splits)
    next
      case other: False
      show thesis
      proof (cases ok)
        case True
        with r other mux [of l] show thesis by (auto split: if_splits)
      next
        case False
        with r other plain [of l] show thesis by (auto split: if_splits)
      qed
    qed
  qed
qed

section \<open>The contract of a controller\<close>

fun is_start :: "job \<Rightarrow> bool" where
  "is_start (Launched seeds) = True"
| "is_start InStart = True"
| "is_start Returned = True"
| "is_start _ = False"

definition starts :: "('c, 'l) server \<Rightarrow> nat" where
  "starts sv = length (filter is_start (sv_jobs sv))"

definition in_start :: "('c, 'l) server \<Rightarrow> nat" where
  "in_start sv = length (filter (\<lambda>j. j = InStart) (sv_jobs sv))"

text \<open>Steps of runs without requests to stop.\<close>

definition quiet_step :: "'c control_api \<Rightarrow> (writer \<Rightarrow> writer) \<Rightarrow> ('l \<Rightarrow> bool \<times> 'l) \<Rightarrow> ('c, 'l) server \<Rightarrow> ('c, 'l) server \<Rightarrow> bool" where
  "quiet_step api metrics allow sv sv' \<longleftrightarrow> sstep api metrics allow sv sv' \<and> Stopping \<notin> set (sv_jobs sv')"

lemma count_jobs_update:
  "i < length js \<Longrightarrow> length (filter P (js[i := j])) + (if P (js ! i) then 1 else 0) = length (filter P js) + (if P j then 1 else 0)"
  by (cases "P j"; cases "P (js ! i)") (simp_all add: length_filter_update length_filter_change
    [where P = P] length_filter_change [where P = "P" and xs = "js[i := j]" and y = "js ! i", simplified])

lemma length_filter_mono: "(\<And>x. P x \<Longrightarrow> Q x) \<Longrightarrow> length (filter P xs) \<le> length (filter Q xs)"
  by (induction xs) auto

lemma jobs_distinct_kinds:
  "(\<exists>j\<in>set js. is_start j \<and> j \<noteq> InStart) \<longleftrightarrow> length (filter (\<lambda>j. j = InStart) js) < length (filter is_start js)"
proof (induction js)
  case (Cons j js)
  have "length (filter (\<lambda>j. j = InStart) js) \<le> length (filter is_start js)"
    by (rule length_filter_mono) auto
  with Cons show ?case by (cases j) auto
qed simp

locale crawl_control =
  fixes api :: "'c control_api"
  assumes claim_result: "fst (ctl_claim api seeds c) \<longleftrightarrow> \<not> ctl_IsRunning api c"
    and claim_runs: "ctl_IsRunning api (snd (ctl_claim api seeds c))"
    and control_keeps: "ctl_IsRunning api (ctl_Stop api c) = ctl_IsRunning api c"
      "ctl_IsRunning api (ctl_Pause api c) = ctl_IsRunning api c"
      "ctl_IsRunning api (ctl_Resume api c) = ctl_IsRunning api c"
    and step_starts_nothing: "ctl_step api c c' \<Longrightarrow> ctl_IsRunning api c' \<Longrightarrow> ctl_IsRunning api c"
begin

definition one_in_start :: "('c, 'l) server \<Rightarrow> bool" where
  "one_in_start sv \<longleftrightarrow> in_start sv = (if ctl_IsRunning api (sv_ctl sv) then 1 else 0)"

lemma start_call_running: "ctl_IsRunning api (sv_ctl (start_call api i seeds sv))"
  using claim_runs [of seeds "sv_ctl sv"] by (cases "ctl_claim api seeds (sv_ctl sv)") (simp add: start_call_def)

lemma start_call_jobs:
  "sv_jobs (start_call api i seeds sv) = (sv_jobs sv)[i := if ctl_IsRunning api (sv_ctl sv) then Returned else InStart]"
  using claim_result [of seeds "sv_ctl sv"] by (cases "ctl_claim api seeds (sv_ctl sv)") (simp add: start_call_def)

lemma in_start_step: "sstep api metrics allow sv sv' \<Longrightarrow> one_in_start sv \<Longrightarrow> one_in_start sv'"
proof (induction rule: sstep.induct)
  case (request now req sv w sv')
  from request.hyps show ?case
    by (cases rule: serve_cases) (use request.prems control_keeps in \<open>auto simp: one_in_start_def in_start_def stop_call_def\<close>)
next
  case (start i sv seeds)
  have "in_start (start_call api i seeds sv) = (if ctl_IsRunning api (sv_ctl sv) then in_start sv else Suc (in_start sv))"
    using count_jobs_update [OF start.hyps(1), of "\<lambda>j. j = InStart"] start.hyps(2)
    by (simp add: in_start_def start_call_jobs split: if_splits)
  then show ?case using start.prems by (simp add: one_in_start_def start_call_running)
next
  case (finished i sv)
  then show ?case using length_filter_remove_at [OF finished.hyps(1), of "\<lambda>j. j = InStart"]
    by (simp add: one_in_start_def in_start_def drop_job_def release_def)
next
  case (stopped i sv)
  then show ?case using length_filter_remove_at [OF stopped.hyps(1), of "\<lambda>j. j = InStart"]
    by (simp add: one_in_start_def in_start_def drop_job_def release_def)
next
  case (paused i sv)
  then show ?case using length_filter_remove_at [OF paused.hyps(1), of "\<lambda>j. j = InStart"]
    by (simp add: one_in_start_def in_start_def drop_job_def pause_call_def control_keeps)
next
  case (resumed i sv)
  then show ?case using length_filter_remove_at [OF resumed.hyps(1), of "\<lambda>j. j = InStart"]
    by (simp add: one_in_start_def in_start_def drop_job_def resume_call_def control_keeps)
next
  case (crawl sv c)
  then show ?case using step_starts_nothing [OF crawl.hyps]
    by (auto simp: one_in_start_def in_start_def crawl_moved_def set_jobs_def filter_map comp_def)
qed

text \<open>Between a request to start and the end of its goroutine \<open>active\<close> is set, and no other is accepted.\<close>

definition active_ok :: "('c, 'l) server \<Rightarrow> bool" where
  "active_ok sv \<longleftrightarrow> one_in_start sv \<and> starts sv = (if sv_active sv then 1 else 0) \<and> Stopping \<notin> set (sv_jobs sv)"

lemma active_step: "sstep api metrics allow sv sv' \<Longrightarrow> active_ok sv \<Longrightarrow> Stopping \<notin> set (sv_jobs sv') \<Longrightarrow> active_ok sv'"
proof -
  assume st: "sstep api metrics allow sv sv'" and ok: "active_ok sv" and quiet: "Stopping \<notin> set (sv_jobs sv')"
  have one: "one_in_start sv'" using in_start_step [OF st] ok by (simp add: active_ok_def)
  from st ok quiet have "starts sv' = (if sv_active sv' then 1 else 0)"
  proof (induction rule: sstep.induct)
    case (request now req sv w sv')
    from request.hyps show ?case
      by (cases rule: serve_cases) (use request.prems in \<open>auto simp: active_ok_def starts_def\<close>)
  next
    case (start i sv seeds)
    have "sv_active (start_call api i seeds sv) = sv_active sv" by (simp add: start_call_def split: prod.splits)
    moreover have "starts (start_call api i seeds sv) = starts sv"
      using count_jobs_update [OF start.hyps(1), of is_start "if ctl_IsRunning api (sv_ctl sv) then Returned else InStart"] start.hyps(2)
      by (simp add: starts_def start_call_jobs split: if_splits)
    ultimately show ?case using start.prems by (simp add: active_ok_def)
  next
    case (finished i sv)
    then show ?case using length_filter_remove_at [OF finished.hyps(1), of is_start]
      by (simp add: active_ok_def starts_def drop_job_def release_def split: if_splits)
  next
    case (stopped i sv)
    then have "Stopping \<in> set (sv_jobs sv)" by (metis nth_mem)
    then show ?case using stopped by (simp add: active_ok_def)
  next
    case (paused i sv)
    then show ?case using length_filter_remove_at [OF paused.hyps(1), of is_start]
      by (simp add: active_ok_def starts_def drop_job_def pause_call_def)
  next
    case (resumed i sv)
    then show ?case using length_filter_remove_at [OF resumed.hyps(1), of is_start]
      by (simp add: active_ok_def starts_def drop_job_def resume_call_def)
  next
    case (crawl sv c)
    have "is_start (if j = InStart then Returned else j) = is_start j" for j by (cases j) auto
    then have "starts (crawl_moved api c sv) = starts sv" "sv_active (crawl_moved api c sv) = sv_active sv"
      by (simp_all add: starts_def crawl_moved_def set_jobs_def filter_map comp_def)
    then show ?case using crawl by (simp add: active_ok_def)
  qed
  with one quiet show "active_ok sv'" by (simp add: active_ok_def)
qed

lemma one_in_start_reachable:
  assumes "(sstep api metrics allow)\<^sup>*\<^sup>* (New_server c now lim) sv" "\<not> ctl_IsRunning api c"
  shows "one_in_start sv"
  using assms(1) by induction (use assms(2) in \<open>auto simp: one_in_start_def in_start_def New_server_def dest: in_start_step\<close>)

lemma active_reachable:
  assumes "(quiet_step api metrics allow)\<^sup>*\<^sup>* (New_server c now lim) sv" "\<not> ctl_IsRunning api c"
  shows "active_ok sv"
  using assms(1)
proof induction
  case base
  then show ?case using assms(2) by (simp add: active_ok_def one_in_start_def in_start_def starts_def New_server_def)
next
  case (step sv sv')
  then show ?case using active_step by (auto simp: quiet_step_def)
qed

text \<open>A start that was accepted gets its crawl.\<close>

lemma waiting_start:
  assumes "active_ok sv"
  shows "(\<exists>j\<in>set (sv_jobs sv). is_start j \<and> j \<noteq> InStart) \<longleftrightarrow> sv_active sv \<and> \<not> ctl_IsRunning api (sv_ctl sv)"
  using assms jobs_distinct_kinds [of "sv_jobs sv"]
  by (auto simp: active_ok_def one_in_start_def in_start_def starts_def split: if_splits)

lemma launched_is_claimed:
  "active_ok sv \<Longrightarrow> Launched seeds \<in> set (sv_jobs sv) \<Longrightarrow> fst (ctl_claim api seeds (sv_ctl sv))"
  using waiting_start [of sv] by (auto simp: claim_result intro!: bexI [of _ "Launched seeds"])

end

section \<open>The crawler keeps the contract\<close>

lemmas crawler_api_defs = crawler_api_def crawler_IsRunning_def Start_claim_def on_crawler_def

lemma Start_return_simps [simp]:
  "\<not> ct_started (Start_return ct)" "ct_pc (Start_return ct) = Idle" "cw_cancelled (ct_crawler (Start_return ct))"
  "cw_pc (ct_crawler (Start_return ct)) = cw_pc (ct_crawler ct)" "cw_log (ct_crawler (Start_return ct)) = cw_log (ct_crawler ct)"
  by (simp_all add: Start_return_def)

lemma Start_cleanup_returns: "Start_cleanup ct = Returns ct' \<Longrightarrow> ct' = Start_return (ct\<lparr>ct_doneClosed := True\<rparr>)"
  by (simp add: Start_cleanup_def split: if_splits)

lemma ctstep_started: "ctstep env sitemaps ct ct' \<Longrightarrow> ct_started ct' \<Longrightarrow> ct_started ct"
  by (induction rule: ctstep.induct)
     (auto simp: Start_seed_def Start_dispatch_def Let_def dest: Start_cleanup_returns split: if_splits)

interpretation crawler_control: crawl_control "crawler_api env sitemaps"
  by unfold_locales (auto simp: crawler_api_defs dest: ctstep_started)

lemma crawler_api_simps [simp]:
  "ctl_IsRunning (crawler_api env sitemaps) = ct_started" "ctl_claim (crawler_api env sitemaps) = Start_claim"
  "ctl_step (crawler_api env sitemaps) = ctstep env sitemaps"
  by (simp_all add: crawler_api_def crawler_IsRunning_def fun_eq_iff)

lemma new_control_idle [simp]: "\<not> ct_started (new_control c)"
  by (simp add: new_control_def)

text \<open>C19: however requests, goroutines and the crawl interleave, at most one goroutine is inside \<open>Start\<close>, and it
  is so exactly while \<open>IsRunning\<close> says that a crawl runs.\<close>

theorem one_crawl_at_a_time:
  assumes "(sstep (crawler_api env sitemaps) metrics allow)\<^sup>*\<^sup>* (New_server (new_control c) now lim) sv"
  shows "length (filter (\<lambda>j. j = InStart) (sv_jobs sv)) = (if crawler_IsRunning (sv_ctl sv) then 1 else 0)"
  using crawler_control.one_in_start_reachable [OF assms]
  by (simp add: crawler_control.one_in_start_def in_start_def crawler_IsRunning_def)

text \<open>As long as nobody asks to stop, \<open>active\<close> is set exactly while an accepted start has not been
  finished, so there is never a second one; every start that was answered \<open>started\<close> gets into \<open>Start\<close>, and
  the server answers that it is not ready exactly while such a start waits to begin or to be cleared.\<close>

theorem accepted_starts_run:
  assumes "(quiet_step (crawler_api env sitemaps) metrics allow)\<^sup>*\<^sup>* (New_server (new_control c) now lim) sv"
    "rq_method req = ''GET''"
  shows "length (filter is_start (sv_jobs sv)) = (if sv_active sv then 1 else 0) \<and>
    (\<forall>seeds. Launched seeds \<in> set (sv_jobs sv) \<longrightarrow> fst (Start_claim seeds (sv_ctl sv))) \<and>
    reply_code (fst (handleReadyz (crawler_api env sitemaps) now' req sv new_writer)) =
      (if \<exists>j\<in>set (sv_jobs sv). is_start j \<and> j \<noteq> InStart then 503 else 200)"
proof -
  have ok: "crawler_control.active_ok env sitemaps sv"
    using crawler_control.active_reachable [OF assms(1)] by simp
  show ?thesis
    using crawler_control.launched_is_claimed [OF ok] crawler_control.waiting_start [OF ok] ok assms(2)
    by (auto simp: crawler_control.active_ok_def starts_def handleReadyz_def writer_defs Let_def)
qed

section \<open>A crawler serves one crawl\<close>

text \<open>The dispatcher has no item in hand and will not take one, since its context is cancelled.\<close>

definition halted :: "'b crawler \<Rightarrow> bool" where
  "halted c \<longleftrightarrow> cw_cancelled c \<and> (cw_pc c = AtTop \<or> cw_pc c = LoopExited)"

lemma halted_step: "cstep env c c' \<Longrightarrow> halted c \<Longrightarrow> halted c' \<and> cw_log c' = cw_log c"
proof (induction rule: cstep.induct)
  case (report i c call now c')
  then show ?case by (auto simp: halted_def dest: t_report_frame)
qed (auto simp: halted_def d_defs control_defs t_start_def t_check_def t_admit_def t_push_def push_def t_finish_def
      queue_admit_def set_phase_def Let_def)

lemma cancelled_step: "cstep env c c' \<Longrightarrow> cw_cancelled c \<Longrightarrow> cw_cancelled c'"
proof (induction rule: cstep.induct)
  case (pop c c')
  then show ?case by (auto elim: d_pop_frame)
next
  case (item c url depth now c')
  show ?case using item.hyps(2) item.prems by (cases rule: d_item_frame) simp_all
next
  case (host c url depth host now r)
  show ?case using host.prems by (cases rule: d_host_frame [of env now r url depth host c]) (simp_all add: release_host_def)
next
  case (rate c url depth host delay allowed now c')
  show ?case using rate.hyps(3) rate.prems by (cases rule: d_rate_frame) (simp_all add: release_host_def)
next
  case (report i c call now c')
  then show ?case by (auto dest: t_report_frame)
qed (simp_all add: d_defs control_defs t_start_def t_check_def t_admit_def t_push_def push_def t_finish_def
      queue_admit_def set_phase_def Let_def)

lemma seed_crawl_frame:
  "cw_cancelled (seed_crawl env sitemaps cp seeds c) = cw_cancelled c" (is ?cancelled)
  "cw_pc (seed_crawl env sitemaps cp seeds c) = cw_pc c" (is ?pc)
  "cw_log (seed_crawl env sitemaps cp seeds c) = cw_log c" (is ?log)
  "cw_cfg (seed_crawl env sitemaps cp seeds c) = cw_cfg c" (is ?cfg)
proof -
  let ?same = "\<lambda>a b. cw_cancelled b = cw_cancelled a \<and> cw_pc b = cw_pc a \<and> cw_log b = cw_log a \<and> cw_cfg b = cw_cfg a"
  have only: "seeds_only a b \<Longrightarrow> ?same a b" for a b :: "'a crawler" by (auto simp: seeds_only_def)
  have "?same a (fold (seed_one env sitemaps) seeds a)" for a
    by (rule only) (intro seeds_only_fold seeds_only_seed_one)
  moreover have "?same a (resume_from env data a)" for a data
  proof -
    obtain items visited keys counts where d: "data = (items, visited, keys, counts)" by (cases data)
    have "?same (a\<lparr>cw_queue := LoadFromCheckpoint (cw_queue a) items visited, cw_hostCount := counts\<rparr>) (resume_from env data a)"
      unfolding resume_from_def d prod.case by (rule only) (intro seeds_only_fold seeds_only_dedup)
    then show ?thesis by simp
  qed
  ultimately show ?cancelled ?pc ?log ?cfg
    by (simp_all add: seed_crawl_def Let_def split: option.splits)
qed

text \<open>Outside the loop the dispatcher rests at one of its two ends.\<close>

definition tidy :: "'b control \<Rightarrow> bool" where
  "tidy ct \<longleftrightarrow> (ct_started ct \<longleftrightarrow> ct_pc ct \<noteq> Idle) \<and>
     (ct_pc ct = Dispatching \<or> cw_pc (ct_crawler ct) = AtTop \<or> cw_pc (ct_crawler ct) = LoopExited)"

text \<open>Once a crawl has begun the context is either still to be cancelled by its end or cancelled.\<close>

definition begun :: "'b control \<Rightarrow> bool" where
  "begun ct \<longleftrightarrow> ct_started ct \<or> cw_cancelled (ct_crawler ct)"

lemma begun_ctstep: "ctstep env sitemaps ct ct' \<Longrightarrow> begun ct \<Longrightarrow> begun ct'"
proof (induction rule: ctstep.induct)
  case (move ct c)
  then show ?case using cancelled_step [OF move.hyps(1)] by (auto simp: begun_def)
next
  case (cleanup ct ct')
  then show ?case by (auto simp: begun_def dest: Start_cleanup_returns)
qed (auto simp: begun_def Start_seed_def Start_dispatch_def Let_def seed_crawl_frame)

lemma tidy_ctstep: "ctstep env sitemaps ct ct' \<Longrightarrow> tidy ct \<Longrightarrow> tidy ct'"
proof (induction rule: ctstep.induct)
  case (cleanup ct ct')
  then show ?case by (auto simp: tidy_def dest: Start_cleanup_returns)
qed (auto simp: tidy_def Start_seed_def Start_dispatch_def Let_def seed_crawl_frame)

lemma halted_ctstep:
  "ctstep env sitemaps ct ct' \<Longrightarrow> halted (ct_crawler ct) \<Longrightarrow>
     halted (ct_crawler ct') \<and> cw_log (ct_crawler ct') = cw_log (ct_crawler ct)"
proof (induction rule: ctstep.induct)
  case (move ct c)
  then show ?case using halted_step by auto
next
  case (cleanup ct ct')
  then show ?case by (auto simp: halted_def dest: Start_cleanup_returns)
qed (auto simp: halted_def Start_seed_def Start_dispatch_def Let_def seed_crawl_frame)

text \<open>What a step of the server does to the control of the crawler.\<close>

lemma sstep_control:
  assumes "sstep (crawler_api env sitemaps) metrics allow sv sv'"
  obtains (same) "sv_ctl sv' = sv_ctl sv"
    | (claim) seeds where "sv_ctl sv' = snd (Start_claim seeds (sv_ctl sv))"
    | (control) f where "sv_ctl sv' = on_crawler f (sv_ctl sv)" "f = StopCrawl \<or> f = PauseCrawl \<or> f = ResumeCrawl"
    | (crawl) "ctstep env sitemaps (sv_ctl sv) (sv_ctl sv')"
  using assms
proof cases
  case (request now req w)
  then show thesis
    by (cases rule: serve_cases) (auto simp: stop_call_def crawler_api_def intro: same control)
next
  case (start i seeds)
  then show thesis by (intro claim [of seeds]) (simp add: start_call_def split: prod.splits)
next
  case (crawl c)
  then show thesis using that(4) by (auto simp: crawl_moved_def set_jobs_def)
qed (auto simp: drop_job_def release_def pause_call_def resume_call_def crawler_api_def intro: same control)

lemma control_frames:
  assumes "f = StopCrawl \<or> f = PauseCrawl \<or> f = ResumeCrawl"
  shows "cw_pc (f c) = cw_pc c" "cw_log (f c) = cw_log c" "cw_cancelled c \<Longrightarrow> cw_cancelled (f c)"
  using assms by (auto simp: control_defs)

lemma control_invariant:
  assumes "sstep (crawler_api env sitemaps) metrics allow sv sv'" "P (sv_ctl sv)"
    "\<And>seeds ct. P ct \<Longrightarrow> P (snd (Start_claim seeds ct))"
    "\<And>f ct. P ct \<Longrightarrow> f = StopCrawl \<or> f = PauseCrawl \<or> f = ResumeCrawl \<Longrightarrow> P (on_crawler f ct)"
    "\<And>ct ct'. ctstep env sitemaps ct ct' \<Longrightarrow> P ct \<Longrightarrow> P ct'"
  shows "P (sv_ctl sv')"
  using assms(1) by (cases rule: sstep_control) (use assms(2-5) in auto)

lemma begun_sstep: "sstep (crawler_api env sitemaps) metrics allow sv sv' \<Longrightarrow> begun (sv_ctl sv) \<Longrightarrow> begun (sv_ctl sv')"
  by (erule control_invariant, assumption, auto simp: begun_def Start_claim_def on_crawler_def control_frames)
     (auto dest: begun_ctstep simp: begun_def)

lemma tidy_moves:
  "tidy ct \<Longrightarrow> tidy (snd (Start_claim seeds ct))"
  "tidy ct \<Longrightarrow> f = StopCrawl \<or> f = PauseCrawl \<or> f = ResumeCrawl \<Longrightarrow> tidy (on_crawler f ct)"
  by (auto simp: tidy_def Start_claim_def on_crawler_def control_frames)

lemma tidy_sstep: "sstep (crawler_api env sitemaps) metrics allow sv sv' \<Longrightarrow> tidy (sv_ctl sv) \<Longrightarrow> tidy (sv_ctl sv')"
  by (erule control_invariant, assumption, erule tidy_moves, erule tidy_moves, assumption, rule tidy_ctstep)

lemma halted_sstep:
  "sstep (crawler_api env sitemaps) metrics allow sv sv' \<Longrightarrow>
     halted (ct_crawler (sv_ctl sv)) \<and> cw_log (ct_crawler (sv_ctl sv)) = L \<Longrightarrow>
     halted (ct_crawler (sv_ctl sv')) \<and> cw_log (ct_crawler (sv_ctl sv')) = L"
  by (erule control_invariant, assumption)
     (auto simp: halted_def on_crawler_def control_frames Start_claim_def dest: halted_ctstep [unfolded halted_def])

text \<open>C18: a crawler serves one crawl. Once a crawl has run and ended, for whatever reason, no URL is ever
  dispatched again, though the server goes on to accept requests to start: the context that \<open>Start\<close> cancels
  when it returns is made once, by \<open>NewCrawler\<close>.\<close>

theorem second_crawl_dispatches_nothing:
  assumes "cw_pc c = AtTop" "(sstep (crawler_api env sitemaps) metrics allow)\<^sup>*\<^sup>* (New_server (new_control c) now lim) sv0"
    "crawler_IsRunning (sv_ctl sv0)" "(sstep (crawler_api env sitemaps) metrics allow)\<^sup>*\<^sup>* sv0 sv" "\<not> crawler_IsRunning (sv_ctl sv)"
    "(sstep (crawler_api env sitemaps) metrics allow)\<^sup>*\<^sup>* sv sv'"
  shows "cw_log (ct_crawler (sv_ctl sv')) = cw_log (ct_crawler (sv_ctl sv))"
proof -
  have "tidy (sv_ctl (New_server (new_control c) now lim))"
    by (simp add: New_server_def new_control_def tidy_def assms(1))
  with assms(2) have "tidy (sv_ctl sv0)" by induction (auto dest: tidy_sstep)
  moreover have "begun (sv_ctl sv0)" using assms(3) by (simp add: begun_def crawler_IsRunning_def)
  ultimately have ok: "begun (sv_ctl sv0) \<and> tidy (sv_ctl sv0)" by blast
  from assms(4) have "begun (sv_ctl sv) \<and> tidy (sv_ctl sv)"
    by induction (use ok in \<open>auto dest: begun_sstep tidy_sstep\<close>)
  then have "halted (ct_crawler (sv_ctl sv))"
    using assms(5) by (auto simp: begun_def tidy_def halted_def crawler_IsRunning_def)
  moreover have "halted (ct_crawler (sv_ctl sv')) \<and> cw_log (ct_crawler (sv_ctl sv')) = L"
    if "halted (ct_crawler (sv_ctl sv)) \<and> cw_log (ct_crawler (sv_ctl sv)) = L" for L
    using assms(6) that by (induction rule: rtranclp_induct) (auto dest: halted_sstep)
  ultimately show ?thesis by blast
qed

section \<open>Starts that are lost, and replies\<close>

lemma serve_start:
  assumes "\<forall>l. fst (allow l)" "\<not> sv_active sv" "\<not> ctl_IsRunning api (sv_ctl sv)" "seeds \<noteq> []"
  obtains w l where "serve api metrics allow now \<lparr>rq_method = ''POST'', rq_path = ''/api/start'', rq_seeds = Some seeds\<rparr> sv =
      (w, add_job (Launched seeds) (sv\<lparr>sv_limiter := l, sv_active := True, sv_start := now\<rparr>))" "reply_code w = 200"
proof -
  obtain l where "allow (sv_limiter sv) = (True, l)" using assms(1) by (metis prod.collapse)
  then show thesis using assms(2-4)
    by (intro that) (auto simp: serve_def corsMiddleware_def rateLimitMiddleware_def mux_def handleStart_def writer_defs Let_def)
qed

lemma serve_stop:
  assumes "\<forall>l. fst (allow l)"
  obtains w l where "serve api metrics allow now \<lparr>rq_method = ''POST'', rq_path = ''/api/stop'', rq_seeds = None\<rparr> sv =
      (w, add_job Stopping (stop_call api (sv\<lparr>sv_limiter := l\<rparr>)))"
proof -
  obtain l where "allow (sv_limiter sv) = (True, l)" using assms by (metis prod.collapse)
  then show thesis
    by (intro that) (auto simp: serve_def corsMiddleware_def rateLimitMiddleware_def mux_def handleStop_def writer_defs Let_def)
qed

text \<open>A stop request that arrives before the goroutine of an accepted start has called \<open>Start\<close> clears
  \<open>active\<close>; the next start is accepted too and answered \<open>started\<close>, but finds the first one running and is
  dropped without a trace.\<close>

theorem stop_loses_a_start:
  assumes "\<forall>l. fst (allow l)" "(seeds1 :: string list) \<noteq> []" "seeds2 \<noteq> []"
  shows "\<exists>sv w sv' sv2. (sstep (crawler_api env sitemaps) metrics allow)\<^sup>*\<^sup>* (New_server (new_control c) now lim) sv \<and>
    serve (crawler_api env sitemaps) metrics allow now \<lparr>rq_method = ''POST'', rq_path = ''/api/start'', rq_seeds = Some seeds2\<rparr> sv = (w, sv') \<and>
    reply_code w = 200 \<and> (sstep (crawler_api env sitemaps) metrics allow)\<^sup>*\<^sup>* sv' sv2 \<and>
    sv_jobs sv2 = [InStart, Launched seeds2] \<and>
    start_call (crawler_api env sitemaps) 1 seeds2 sv2 = sv2\<lparr>sv_jobs := [InStart, Returned]\<rparr>"
proof -
  let ?api = "crawler_api env sitemaps" and ?s0 = "New_server (new_control c) now lim"
  let ?S = "sstep ?api metrics allow"
  have idle: "\<not> sv_active ?s0" "\<not> ctl_IsRunning ?api (sv_ctl ?s0)" "sv_jobs ?s0 = []" by (simp_all add: New_server_def)
  obtain w1 l1 where r1: "serve ?api metrics allow now \<lparr>rq_method = ''POST'', rq_path = ''/api/start'', rq_seeds = Some seeds1\<rparr> ?s0 =
      (w1, add_job (Launched seeds1) (?s0\<lparr>sv_limiter := l1, sv_active := True, sv_start := now\<rparr>))"
    using serve_start [OF assms(1) idle(1,2) assms(2)] by metis
  define s1 where "s1 = add_job (Launched seeds1) (?s0\<lparr>sv_limiter := l1, sv_active := True, sv_start := now\<rparr>)"
  obtain w2 l2 where r2: "serve ?api metrics allow now \<lparr>rq_method = ''POST'', rq_path = ''/api/stop'', rq_seeds = None\<rparr> s1 =
      (w2, add_job Stopping (stop_call ?api (s1\<lparr>sv_limiter := l2\<rparr>)))"
    using serve_stop [OF assms(1)] by metis
  define s2 where "s2 = add_job Stopping (stop_call ?api (s1\<lparr>sv_limiter := l2\<rparr>))"
  have s2: "sv_jobs s2 = [Launched seeds1, Stopping]" "\<not> ct_started (sv_ctl s2)"
    by (simp_all add: s2_def s1_def stop_call_def crawler_api_def on_crawler_def New_server_def)
  define s3 where "s3 = drop_job 1 (release s2)"
  have s3: "sv_jobs s3 = [Launched seeds1]" "\<not> sv_active s3" "\<not> ctl_IsRunning ?api (sv_ctl s3)"
    using s2 by (simp_all add: s3_def drop_job_def release_def remove_at_def)
  obtain w4 l4 where r4: "serve ?api metrics allow now \<lparr>rq_method = ''POST'', rq_path = ''/api/start'', rq_seeds = Some seeds2\<rparr> s3 =
      (w4, add_job (Launched seeds2) (s3\<lparr>sv_limiter := l4, sv_active := True, sv_start := now\<rparr>))" "reply_code w4 = 200"
    using serve_start [OF assms(1) s3(2,3) assms(3)] by metis
  define s4 where "s4 = add_job (Launched seeds2) (s3\<lparr>sv_limiter := l4, sv_active := True, sv_start := now\<rparr>)"
  have s4: "sv_jobs s4 = [Launched seeds1, Launched seeds2]" "\<not> ct_started (sv_ctl s4)" using s3 by (simp_all add: s4_def)
  define s5 where "s5 = start_call ?api 0 seeds1 s4"
  have s5: "sv_jobs s5 = [InStart, Launched seeds2]" "ct_started (sv_ctl s5)"
    using s4 by (simp_all add: s5_def start_call_def Start_claim_def)
  have "?S ?s0 s1" "?S s1 s2" using sstep.request [OF r1] sstep.request [OF r2] by (simp_all add: s1_def s2_def)
  moreover have "?S s2 s3" unfolding s3_def by (rule sstep.stopped) (simp_all add: s2)
  ultimately have "?S\<^sup>*\<^sup>* ?s0 s3" by (meson rtranclp.rtrancl_into_rtrancl rtranclp.rtrancl_refl)
  moreover have "?S s4 s5" unfolding s5_def by (rule sstep.start) (simp_all add: s4)
  moreover have "start_call ?api 1 seeds2 s5 = s5\<lparr>sv_jobs := [InStart, Returned]\<rparr>"
    using s5 by (simp add: start_call_def Start_claim_def)
  ultimately show ?thesis
    using r4 s5(1) by (intro exI [of _ s3] exI [of _ w4] exI [of _ s4] exI [of _ s5]) (simp add: s4_def [symmetric])
qed

text \<open>The method that the handler of a path wants.\<close>

definition wanted_method :: "string \<rightharpoonup> string" where
  "wanted_method = [''/api/status'' \<mapsto> ''GET'', ''/api/start'' \<mapsto> ''POST'', ''/api/stop'' \<mapsto> ''POST'', ''/api/pause'' \<mapsto> ''POST'',
     ''/api/resume'' \<mapsto> ''POST'', ''/healthz'' \<mapsto> ''GET'', ''/readyz'' \<mapsto> ''GET'']"

text \<open>A request with another method than the handler wants is answered with 405, or with 429 if the
  limiter turns it away, which the health checks never are; it changes nothing but the limiter. A preflight
  request is answered with 200 and changes nothing at all.\<close>

theorem wrong_methods_are_refused:
  assumes "wanted_method (rq_path req) = Some m" "rq_method req \<noteq> m" "serve api metrics allow now req sv = (w, sv')"
  shows "if rq_method req = ''OPTIONS'' then reply_code w = 200 \<and> sv' = sv
    else if rq_path req \<in> {''/healthz'', ''/readyz''} then reply_code w = 405 \<and> sv' = sv
    else reply_code w = (if fst (allow (sv_limiter sv)) then 405 else 429) \<and> sv' = sv\<lparr>sv_limiter := snd (allow (sv_limiter sv))\<rparr>"
proof -
  have "rq_path req \<in> dom wanted_method" using assms(1) by blast
  then have "rq_path req \<in> {''/api/status'', ''/api/start'', ''/api/stop'', ''/api/pause'', ''/api/resume'', ''/healthz'', ''/readyz''}"
    by (auto simp: wanted_method_def)
  then show ?thesis
    using assms
    by (elim insertE)
       (auto simp: wanted_method_def serve_def corsMiddleware_def rateLimitMiddleware_def mux_def handler_defs not_allowed_def
          writer_defs Let_def split: prod.splits if_splits)
qed

text \<open>The answer to \<open>/readyz\<close> has no content type, because the header is set after the status line is sent.\<close>

lemma readyz_has_no_content_type:
  "rq_method req = ''GET'' \<Longrightarrow> reply_header (fst (handleReadyz api now req sv new_writer)) ''Content-Type'' = None"
  "rq_method req = ''GET'' \<Longrightarrow> reply_header (fst (handleHealthz api now req sv new_writer)) ''Content-Type'' = Some ''application/json''"
  by (simp_all add: handleReadyz_def handleHealthz_def writer_defs Let_def)

text \<open>\<open>Stop\<close> between the two statements of \<open>Start\<close> dereferences the server that is not there yet.\<close>

lemma server_Stop_during_Start:
  "server_Stop (snd (server_claim (New_server ctl now lim))) = Panic"
  "server_Stop (server_listen (snd (server_claim (New_server ctl now lim)))) \<noteq> Panic"
  by (simp_all add: server_Stop_def server_claim_def server_listen_def New_server_def)

section \<open>A server that is asked to start\<close>

text \<open>The run of the witnesses: a limiter that lets everything pass, a start, and the call to \<open>Start\<close>.\<close>

definition demo_api :: "string list control control_api" where
  "demo_api = crawler_api demo_env (\<lambda>_. [])"

definition demo_server :: "(string list control, unit) server" where
  "demo_server = New_server (new_control demo_crawler) 0 ()"

definition start_request :: "string list \<Rightarrow> request" where
  "start_request seeds = \<lparr>rq_method = ''POST'', rq_path = ''/api/start'', rq_seeds = Some seeds\<rparr>"

definition asked :: "string list \<Rightarrow> (string list control, unit) server \<Rightarrow> (string list control, unit) server" where
  "asked seeds sv = snd (serve demo_api id (\<lambda>l. (True, l)) 0 (start_request seeds) sv)"

lemma asked_step: "sstep demo_api id (\<lambda>l. (True, l)) sv (asked seeds sv)"
  by (rule sstep.request [where w = "fst (serve demo_api id (\<lambda>l. (True, l)) 0 (start_request seeds) sv)"]) (simp add: asked_def)

lemma asked_idle:
  assumes "\<not> sv_active sv" "\<not> ct_started (sv_ctl sv)" "seeds \<noteq> []"
  shows "asked seeds sv = add_job (Launched seeds) (sv\<lparr>sv_limiter := (), sv_active := True, sv_start := 0\<rparr>)"
  using assms by (simp add: asked_def start_request_def demo_api_def serve_def corsMiddleware_def rateLimitMiddleware_def
      mux_def handleStart_def Let_def)

definition demo_started :: "(string list control, unit) server" where
  "demo_started = start_call demo_api 0 [[]] (asked [[]] demo_server)"

lemma demo_started:
  "(sstep demo_api id (\<lambda>l. (True, l)))\<^sup>*\<^sup>* demo_server demo_started" "sv_jobs demo_started = [InStart]"
  "ct_started (sv_ctl demo_started)" "ct_pc (sv_ctl demo_started) = Seeding [[]]" "ct_crawler (sv_ctl demo_started) = demo_crawler"
proof -
  have a: "asked [[]] demo_server = add_job (Launched [[]]) (demo_server\<lparr>sv_limiter := (), sv_active := True, sv_start := 0\<rparr>)"
    by (rule asked_idle) (simp_all add: demo_server_def New_server_def)
  then have "sv_jobs (asked [[]] demo_server) = [Launched [[]]]" by (simp add: demo_server_def New_server_def)
  then have "sstep demo_api id (\<lambda>l. (True, l)) (asked [[]] demo_server) demo_started"
    unfolding demo_started_def by (intro sstep.start) simp_all
  with asked_step show "(sstep demo_api id (\<lambda>l. (True, l)))\<^sup>*\<^sup>* demo_server demo_started"
    by (meson rtranclp.rtrancl_into_rtrancl rtranclp.rtrancl_refl)
  show "sv_jobs demo_started = [InStart]" "ct_started (sv_ctl demo_started)" "ct_pc (sv_ctl demo_started) = Seeding [[]]"
    "ct_crawler (sv_ctl demo_started) = demo_crawler"
    by (simp_all add: demo_started_def a start_call_def demo_api_def Start_claim_def) (simp_all add: demo_server_def New_server_def new_control_def)
qed

theorem one_crawl_at_a_time_witness:
  "(sstep demo_api id (\<lambda>l. (True, l)))\<^sup>*\<^sup>* demo_server demo_started \<and>
     length (filter (\<lambda>j. j = InStart) (sv_jobs demo_started)) = (if crawler_IsRunning (sv_ctl demo_started) then 1 else 0)"
  using demo_started(1) one_crawl_at_a_time [OF demo_started(1) [unfolded demo_api_def demo_server_def]] by blast

theorem accepted_starts_run_witness:
  "Launched [[]] \<in> set (sv_jobs (asked [[]] demo_server)) \<and> fst (Start_claim [[]] (sv_ctl (asked [[]] demo_server)))"
proof -
  have a: "asked [[]] demo_server = add_job (Launched [[]]) (demo_server\<lparr>sv_limiter := (), sv_active := True, sv_start := 0\<rparr>)"
    by (rule asked_idle) (simp_all add: demo_server_def New_server_def)
  then have jobs: "sv_jobs (asked [[]] demo_server) = [Launched [[]]]" by (simp add: demo_server_def New_server_def)
  then have "(quiet_step demo_api id (\<lambda>l. (True, l)))\<^sup>*\<^sup>* demo_server (asked [[]] demo_server)"
    by (intro r_into_rtranclp) (simp add: quiet_step_def asked_step)
  from accepted_starts_run [OF this [unfolded demo_api_def demo_server_def], of "\<lparr>rq_method = ''GET'', rq_path = ''/readyz'', rq_seeds = None\<rparr>"]
  show ?thesis using jobs by (simp add: demo_server_def)
qed

theorem second_crawl_dispatches_nothing_witness:
  "\<exists>sv sv'. (sstep demo_api id (\<lambda>l. (True, l)))\<^sup>*\<^sup>* demo_server sv \<and> (sstep demo_api id (\<lambda>l. (True, l)))\<^sup>*\<^sup>* sv sv' \<and>
     Launched [''http://a/''] \<in> set (sv_jobs sv') \<and> cw_log (ct_crawler (sv_ctl sv')) = cw_log (ct_crawler (sv_ctl sv))"
proof -
  let ?S = "sstep demo_api id (\<lambda>l. (True, l))"
  let ?c = "Start_seed demo_env (\<lambda>_. []) None [[]] (sv_ctl demo_started)"
  define sv where "sv = crawl_moved demo_api ?c demo_started"
  have "Size (cw_queue (seed_crawl demo_env (\<lambda>_. []) None [[]] demo_crawler)) = 0" by code_simp
  then have over: "\<not> ct_started ?c" by (simp add: Start_seed_def Let_def demo_started)
  have sv: "?S demo_started sv"
    unfolding sv_def by (rule sstep.crawl) (simp add: demo_api_def ctstep.seed demo_started)
  have jobs: "sv_jobs sv = [Returned]" "\<not> ct_started (sv_ctl sv)"
    using over by (simp_all add: sv_def crawl_moved_def demo_api_def demo_started set_jobs_def)
  define sv1 where "sv1 = drop_job 0 (release sv)"
  have sv1: "?S sv sv1" unfolding sv1_def by (rule sstep.finished) (simp_all add: jobs)
  have idle: "\<not> sv_active sv1" "\<not> ct_started (sv_ctl sv1)" using jobs by (simp_all add: sv1_def drop_job_def release_def)
  have reach: "?S\<^sup>*\<^sup>* sv (asked [''http://a/''] sv1)" "?S\<^sup>*\<^sup>* demo_server sv"
    using sv1 asked_step [of sv1 "[''http://a/'']"] sv demo_started(1) by (meson rtranclp.rtrancl_into_rtrancl rtranclp.rtrancl_refl)+
  have once: "(sstep (crawler_api demo_env (\<lambda>_. [])) id (\<lambda>l. (True, l)))\<^sup>*\<^sup>* demo_started sv"
    using sv unfolding demo_api_def by (rule r_into_rtranclp)
  have "cw_log (ct_crawler (sv_ctl (asked [''http://a/''] sv1))) = cw_log (ct_crawler (sv_ctl sv))"
    by (rule second_crawl_dispatches_nothing [where c = demo_crawler, OF _ demo_started(1) [unfolded demo_api_def demo_server_def]
          _ once _ reach(1) [unfolded demo_api_def]])
       (use jobs in \<open>simp_all add: crawler_IsRunning_def demo_started demo_crawler_def new_crawler_def\<close>)
  moreover have "Launched [''http://a/''] \<in> set (sv_jobs (asked [''http://a/''] sv1))"
    using asked_idle [OF idle] by simp
  ultimately show ?thesis using reach by blast
qed

theorem stop_loses_a_start_witness:
  "\<exists>sv2 :: (string list control, unit) server. sv_jobs sv2 = [InStart, Launched [''http://b/'']] \<and>
     start_call demo_api 1 [''http://b/''] sv2 = sv2\<lparr>sv_jobs := [InStart, Returned]\<rparr>"
  using stop_loses_a_start [where allow = "\<lambda>l::unit. (True, l)" and env = demo_env and sitemaps = "\<lambda>_. []" and metrics = id
      and c = demo_crawler and now = 0 and lim = "()" and ?seeds1.0 = "[''http://a/'']" and ?seeds2.0 = "[''http://b/'']"]
  unfolding demo_api_def by auto

theorem wrong_methods_are_refused_witness:
  "reply_code (fst (serve demo_api id (\<lambda>l. (True, l)) 0 \<lparr>rq_method = ''GET'', rq_path = ''/api/start'', rq_seeds = None\<rparr> demo_server)) = 405"
  using wrong_methods_are_refused [of "\<lparr>rq_method = ''GET'', rq_path = ''/api/start'', rq_seeds = None\<rparr>" "''POST''" demo_api id
      "\<lambda>l. (True, l)" 0 demo_server, OF _ _ surjective_pairing]
  by (simp add: wanted_method_def)

end
