(* ===== verification/GoRel.thy ===== *)
theory GoRel
  imports GoPath
begin

text \<open>
  \<open>filepath.Rel\<close> for a Unix system. The two cleaned paths lose their common leading components; a
  path that would have to leave an unknown directory (\<open>..\<close>) is an error, here \<open>None\<close>. Its law: from
  a rooted directory the relative path leads back to the target.
\<close>

fun strip_common :: "string list \<Rightarrow> string list \<Rightarrow> string list \<times> string list" where
  "strip_common (b # bs) (t # ts) = (if b = t then strip_common bs ts else (b # bs, t # ts))"
| "strip_common bs ts = (bs, ts)"

definition filepath_Rel :: "string \<Rightarrow> string \<Rightarrow> string option" where
  "filepath_Rel basepath targpath =
     (let base = filepath_Clean basepath; targ = filepath_Clean targpath
      in if targ = base then Some ''.''
         else if has_prefix base ''/'' \<noteq> has_prefix targ ''/'' then None
         else case strip_common (clean_comps basepath) (if targ = ''.'' then [''.''] else clean_comps targpath) of (bs, ts) \<Rightarrow>
           if ts \<noteq> [] \<and> bs \<noteq> [] \<and> hd bs = ''..'' then None
           else Some (join ''/'' (replicate (length bs) ''..'' @ ts)))"

lemma strip_common_prefix:
  "strip_common bs ts = (bs', ts') \<Longrightarrow> \<exists>cs. bs = cs @ bs' \<and> ts = cs @ ts' \<and> (bs' \<noteq> [] \<and> ts' \<noteq> [] \<longrightarrow> hd bs' \<noteq> hd ts')"
proof (induction bs ts rule: strip_common.induct)
  case (1 b bs t ts)
  show ?case
  proof (cases "b = t")
    case True
    then obtain cs where "bs = cs @ bs'" "ts = cs @ ts'" "bs' \<noteq> [] \<and> ts' \<noteq> [] \<longrightarrow> hd bs' \<noteq> hd ts'" using 1 by auto
    then show ?thesis using True by (intro exI [of _ "b # cs"]) simp
  next
    case False
    then show ?thesis using 1 by (intro exI [of _ "[]"]) auto
  qed
qed simp_all

lemma norm_comps_rooted: "norm_comps True cs \<longleftrightarrow> (\<forall>c\<in>set cs. plain_comp c)"
  unfolding norm_comps_def by (metis append_Nil replicate_0)

lemma clean_comps_plain: "has_prefix p ''/'' \<Longrightarrow> c \<in> set (clean_comps p) \<Longrightarrow> plain_comp c"
  using clean_comps_norm [of p] by (auto simp: norm_comps_rooted)

lemma plain_no_slash: "plain_comp c \<Longrightarrow> CHR ''/'' \<notin> set c"
  by (simp add: plain_comp_def)

lemma path_of_inject:
  assumes "norm_comps r cs" "norm_comps r ds" "path_of r cs = path_of r ds"
  shows "cs = ds"
  using split_path_of [OF assms(1)] split_path_of [OF assms(2)] assms(3) by metis

lemma Clean_rooted: "has_prefix p ''/'' \<Longrightarrow> filepath_Clean p = path_of True (clean_comps p)"
  by (simp add: filepath_Clean_def)

lemma Clean_rooted_iff [simp]: "has_prefix (filepath_Clean p) ''/'' \<longleftrightarrow> has_prefix p ''/''"
  using split_path_of [OF clean_comps_norm [of p]] by (simp add: filepath_Clean_def)

text \<open>Going up through the components left of the directory and down through those of the target.\<close>

lemma foldl_up: "\<forall>c\<in>set bs. plain_comp c \<Longrightarrow> foldl (clean_step True) (cs @ bs) (replicate (length bs) ''..'') = cs"
proof (induction bs rule: rev_induct)
  case (snoc b bs)
  have b: "b \<noteq> ''..''" using snoc.prems by (auto simp: plain_comp_def)
  have s: "clean_step True (cs @ bs @ [b]) ''..'' = cs @ bs"
    using b by (simp add: clean_step_def butlast_append)
  show ?case using snoc s by simp
qed simp

lemma split_join_plain:
  assumes "xs \<noteq> []" "\<And>x. x \<in> set xs \<Longrightarrow> CHR ''/'' \<notin> set x"
  shows "split_byte CHR ''/'' (join ''/'' xs) = xs"
  using assms split_byte_join [of xs "CHR ''/''"] by blast

lemma has_prefix_dot: "\<not> has_prefix ''.'' ''/''"
  by simp

text \<open>The components of the relative path, unless both paths are the same.\<close>

lemma Rel_rooted:
  assumes "has_prefix base ''/''" "has_prefix targ ''/''" "filepath_Clean targ \<noteq> filepath_Clean base"
  obtains cs bs ts where "clean_comps base = cs @ bs" "clean_comps targ = cs @ ts" "bs \<noteq> [] \<or> ts \<noteq> []"
    "bs \<noteq> [] \<and> ts \<noteq> [] \<longrightarrow> hd bs \<noteq> hd ts"
    "filepath_Rel base targ = Some (join ''/'' (replicate (length bs) ''..'' @ ts))"
proof -
  obtain bs ts where s: "strip_common (clean_comps base) (clean_comps targ) = (bs, ts)" by fastforce
  then obtain cs where cs: "clean_comps base = cs @ bs" "clean_comps targ = cs @ ts" "bs \<noteq> [] \<and> ts \<noteq> [] \<longrightarrow> hd bs \<noteq> hd ts"
    using strip_common_prefix by blast
  have dot: "filepath_Clean targ \<noteq> ''.''" using assms(2) by (metis Clean_rooted_iff has_prefix_dot)
  have "plain_comp b" if "b \<in> set bs" for b
    using clean_comps_plain [OF assms(1), of b] cs(1) that by simp
  then have "bs \<noteq> [] \<Longrightarrow> hd bs \<noteq> ''..''" by (cases bs) (auto simp: plain_comp_def)
  then have r: "filepath_Rel base targ = Some (join ''/'' (replicate (length bs) ''..'' @ ts))"
    using assms s dot by (auto simp: filepath_Rel_def Let_def)
  have "bs \<noteq> [] \<or> ts \<noteq> []" using assms cs by (auto simp: Clean_rooted)
  then show thesis using that cs r by blast
qed

lemma Rel_same: "filepath_Clean targ = filepath_Clean base \<Longrightarrow> filepath_Rel base targ = Some ''.''"
  by (simp add: filepath_Rel_def)

lemma Rel_total: "has_prefix base ''/'' \<Longrightarrow> has_prefix targ ''/'' \<Longrightarrow> \<exists>r. filepath_Rel base targ = Some r \<and> filepath_Clean r = r"
proof (cases "filepath_Clean targ = filepath_Clean base")
  case True
  then show ?thesis by (simp add: Rel_same filepath_Clean_def clean_comps_def clean_step_def path_of_def)
next
  case False
  assume r: "has_prefix base ''/''" "has_prefix targ ''/''"
  obtain cs bs ts where b: "clean_comps base = cs @ bs" and c: "clean_comps targ = cs @ ts" "bs \<noteq> [] \<or> ts \<noteq> []"
      and d: "bs \<noteq> [] \<and> ts \<noteq> [] \<longrightarrow> hd bs \<noteq> hd ts"
      and e: "filepath_Rel base targ = Some (join ''/'' (replicate (length bs) ''..'' @ ts))"
    by (rule Rel_rooted [OF r False])
  let ?q = "replicate (length bs) ''..'' @ ts"
  have n: "norm_comps False ?q"
    unfolding norm_comps_def using clean_comps_plain [OF r(2)] c(1) by (intro exI [of _ "length bs"] exI [of _ ts]) simp
  have "?q \<noteq> []" using c(2) by auto
  then have "path_of False ?q = join ''/'' ?q" by (simp only: path_of_def if_False)
  then show ?thesis using filepath_Clean_path_of [OF n] e by simp
qed

text \<open>From a rooted directory the relative path leads back to the target.\<close>

lemma Join_Rel:
  assumes "has_prefix base ''/''" "has_prefix targ ''/''" "filepath_Rel base targ = Some r"
  shows "filepath_Join [base, r] = filepath_Clean targ"
proof (cases "filepath_Clean targ = filepath_Clean base")
  case True
  then have r: "r = ''.''" using assms(3) by (simp add: Rel_same)
  have ne: "base \<noteq> []" using assms(1) by auto
  have "clean_comps (base @ ''/'' @ ''.'') = clean_comps base"
    using clean_comps_append_slash [OF ne, of "''.''"] by (simp add: clean_step_def)
  moreover have "has_prefix (base @ ''/'' @ ''.'') ''/'' = has_prefix base ''/''" using ne by (cases base) auto
  ultimately show ?thesis using True r ne by (simp add: filepath_Join_Cons filepath_Clean_def)
next
  case False
  obtain cs bs ts where c: "clean_comps base = cs @ bs" "clean_comps targ = cs @ ts" "bs \<noteq> [] \<or> ts \<noteq> []"
      "filepath_Rel base targ = Some (join ''/'' (replicate (length bs) ''..'' @ ts))"
    using Rel_rooted [OF assms(1,2) False] by metis
  let ?q = "replicate (length bs) ''..'' @ ts"
  have ne: "base \<noteq> []" using assms(1) by auto
  have pb: "\<forall>b\<in>set bs. plain_comp b" and pt: "\<forall>t\<in>set ts. plain_comp t"
    using clean_comps_plain [OF assms(1)] clean_comps_plain [OF assms(2)] c(1,2) by auto
  have "split_byte CHR ''/'' (join ''/'' ?q) = ?q"
  proof (rule split_join_plain)
    show "?q \<noteq> []" using c(3) by auto
    show "CHR ''/'' \<notin> set x" if "x \<in> set ?q" for x
      using that pt plain_no_slash by (auto split: if_splits)
  qed
  then have "clean_comps (base @ ''/'' @ join ''/'' ?q) = cs @ ts"
    using clean_comps_append_slash [OF ne, of "join ''/'' ?q"] assms(1) c(1) foldl_up [OF pb, of cs] foldl_clean_plain [OF pt, of True cs]
    by simp
  moreover have "has_prefix (base @ ''/'' @ join ''/'' ?q) ''/''" using assms(1) by (auto simp: has_prefix_iff)
  ultimately show ?thesis
    using assms(2,3) c(2,4) ne by (simp add: filepath_Join_Cons Clean_rooted)
qed

text \<open>A path below a rooted directory is reached without going up, and its components follow those of the directory.\<close>

lemma Rel_below:
  assumes "has_prefix base ''/''" "ds \<noteq> []" "\<forall>d\<in>set ds. plain_comp d"
  shows "filepath_Rel base (filepath_Clean base @ (if clean_comps base = [] then [] else ''/'') @ join ''/'' ds) = Some (join ''/'' ds)"
proof -
  let ?cs = "clean_comps base"
  let ?t = "filepath_Clean base @ (if ?cs = [] then [] else ''/'') @ join ''/'' ds"
  have p: "\<forall>c\<in>set (?cs @ ds). plain_comp c" using clean_comps_plain [OF assms(1)] assms(3) by auto
  have t: "?t = path_of True (?cs @ ds)" using assms(1,2) by (cases "?cs = []") (simp_all add: Clean_rooted path_of_def join_append)
  have n: "norm_comps True (?cs @ ds)" using p by (simp add: norm_comps_rooted)
  have ht: "has_prefix ?t ''/''" using split_path_of [OF n] t by simp
  have ct: "clean_comps ?t = ?cs @ ds" using split_path_of [OF n] t ht by (simp add: clean_comps_def)
  have "filepath_Clean ?t \<noteq> filepath_Clean base"
  proof
    assume "filepath_Clean ?t = filepath_Clean base"
    then have "path_of True (?cs @ ds) = path_of True ?cs" using ht ct assms(1) by (simp add: Clean_rooted)
    then show False using path_of_inject [OF n, of ?cs] p assms(2) by (auto simp: norm_comps_rooted)
  qed
  then obtain cs bs ts where c: "?cs = cs @ bs" "clean_comps ?t = cs @ ts" "bs \<noteq> [] \<and> ts \<noteq> [] \<longrightarrow> hd bs \<noteq> hd ts"
      "filepath_Rel base ?t = Some (join ''/'' (replicate (length bs) ''..'' @ ts))"
    using Rel_rooted [OF assms(1) ht] by metis
  have "bs = [] \<and> ts = ds"
    using c(1,2,3) ct assms(2) by (cases bs) auto
  then show ?thesis using c(4) by simp
qed

end
