(* ===== verification/CssRefs.thy ===== *)
theory CssRefs
  imports GoStrings
begin

text \<open>
  References in style sheets: \<open>extractCSSURLs\<close> of \<open>internal/repair/extract.go\<close> (and its copy in
  \<open>internal/localize/scan.go\<close>), the rewriting of \<open>internal/localize/css.go\<close>, and the walk over imported
  sheets of \<open>internal/rewrite/css.go\<close>. Indices become the part of the text that is still to be read:
  slicing past the end, which the loops do when a reference is not closed, is the \<open>Panic\<close> of an outcome.
  Lower-casing keeps the length of a text here, as it does for ASCII.
\<close>

section \<open>Scanning for url(...)\<close>

definition url_open :: string where "url_open = ''url(''"

definition bs :: char where "bs = CHR 0x5C"

text \<open>
  The inner loop of \<open>extractCSSURLs\<close>: what it collects up to the closing parenthesis, and what follows
  that; \<open>None\<close> if the text ends before.
\<close>

fun scan_ref :: "string \<Rightarrow> nat \<Rightarrow> string \<times> string option" where
  "scan_ref [] d = ([], None)"
| "scan_ref (c # r) d =
     (if c = bs \<and> r \<noteq> [] then (case scan_ref (tl r) d of (v, e) \<Rightarrow> (hd r # v, e))
      else if c = CHR ''('' then (case scan_ref r (d + 1) of (v, e) \<Rightarrow> (c # v, e))
      else if c = CHR '')'' then
        (if d \<le> 1 then ([], Some r) else (case scan_ref r (d - 1) of (v, e) \<Rightarrow> (c # v, e)))
      else (case scan_ref r d of (v, e) \<Rightarrow> (c # v, e)))"

lemma scan_ref_shorter: "scan_ref r d = (v, Some r') \<Longrightarrow> length r' < length r"
proof (induction r d arbitrary: v rule: scan_ref.induct)
  case (2 c r d)
  show ?case
  proof (cases "c = bs \<and> r \<noteq> []")
    case True
    obtain v1 e where s: "scan_ref (tl r) d = (v1, e)" by fastforce
    then have "e = Some r'" using "2.prems" True by simp
    then have "length r' < length (tl r)" using "2.IH"(1) True s by blast
    then show ?thesis by simp
  next
    case False
    then show ?thesis
      using "2.prems" "2.IH"(2-4) by (auto split: if_splits prod.splits)
  qed
qed simp

text \<open>The same loop where the text is kept as it is.\<close>

fun scan_raw :: "string \<Rightarrow> nat \<Rightarrow> string \<times> string option" where
  "scan_raw [] d = ([], None)"
| "scan_raw (c # r) d =
     (if c = bs \<and> r \<noteq> [] then (case scan_raw (tl r) d of (v, e) \<Rightarrow> (c # hd r # v, e))
      else if c = CHR ''('' then (case scan_raw r (d + 1) of (v, e) \<Rightarrow> (c # v, e))
      else if c = CHR '')'' then
        (if d \<le> 1 then ([], Some r) else (case scan_raw r (d - 1) of (v, e) \<Rightarrow> (c # v, e)))
      else (case scan_raw r d of (v, e) \<Rightarrow> (c # v, e)))"

lemma scan_raw_rest: "snd (scan_raw r d) = snd (scan_ref r d)"
  by (induction r d rule: scan_ref.induct) (auto split: prod.splits)

lemma scan_raw_shorter: "scan_raw r d = (v, Some r') \<Longrightarrow> length r' < length r"
  using scan_raw_rest [of r d] scan_ref_shorter [of r d] by (metis prod.collapse snd_conv)

lemma index_of_bound: "index_of s p = Some i \<Longrightarrow> i + length p \<le> length s"
  using index_of_SomeD [of s p i] has_prefix_length [of "drop i s" p] by auto

lemma scan_ref_step:
  assumes "index_of (to_lower css) url_open = Some idx" "scan_ref (drop (idx + 4) css) 1 = (v, Some css')"
  shows "length css' < length css"
  using index_of_bound [OF assms(1)] scan_ref_shorter [OF assms(2)] by (simp add: url_open_def)

lemma scan_raw_step:
  assumes "index_of (to_lower css) url_open = Some idx" "scan_raw (drop (idx + 4) css) 1 = (v, Some css')"
  shows "length css' < length css"
  using index_of_bound [OF assms(1)] scan_raw_shorter [OF assms(2)] by (simp add: url_open_def)

definition quotes :: string where "quotes = [CHR 0x22, CHR 0x27]"

definition ref_value :: "string \<Rightarrow> string" where
  "ref_value v = trim_space (trim_by (\<lambda>c. c \<in> set quotes) (trim_space v))"

function extractCSSURLs :: "string \<Rightarrow> string list outcome" where
  "extractCSSURLs css =
     (case index_of (to_lower css) url_open of
        None \<Rightarrow> Returns []
      | Some idx \<Rightarrow>
          (case scan_ref (drop (idx + 4) css) 1 of
             (v, None) \<Rightarrow> Panic
           | (v, Some css') \<Rightarrow>
               outcome_bind (extractCSSURLs css') (\<lambda>urls. Returns (if ref_value v \<noteq> [] then ref_value v # urls else urls))))"
  by pat_completeness auto
termination
  by (relation "measure length") (auto dest: scan_ref_step [OF _ sym, unfolded One_nat_def])

declare extractCSSURLs.simps [simp del]

section \<open>Rewriting\<close>

text \<open>
  \<open>cssImportQuotedPattern\<close> at the head of a text: \<open>@import\<close> in either case, white space, and a non-empty
  quoted string. The result is the quote, the reference and the rest.
\<close>

definition is_re_space :: "char \<Rightarrow> bool" where
  "is_re_space c \<longleftrightarrow> (of_char c :: nat) \<in> {9, 10, 12, 13, 32}"

definition import_at :: "string \<Rightarrow> (char \<times> string \<times> string) option" where
  "import_at s =
     (if \<not> has_prefix (to_lower s) ''@import'' then None
      else let s1 = drop 7 s; s2 = dropWhile is_re_space s1
      in if s1 = s2 then None
         else case s2 of
             [] \<Rightarrow> None
           | q # s3 \<Rightarrow>
               if q \<notin> set quotes then None
               else let ref = takeWhile (\<lambda>c. c \<noteq> q) s3
                    in if ref = [] \<or> length ref = length s3 then None else Some (q, ref, drop (length ref + 1) s3))"

lemma import_at_shorter:
  assumes "import_at s = Some (q, ref, r)"
  shows "length r < length s" "\<exists>m. s = m @ r \<and> m \<noteq> []"
proof -
  let ?s1 = "drop 7 s"
  obtain s3 where s3: "dropWhile is_re_space ?s1 = q # s3" "r = drop (length ref + 1) s3" "has_prefix (to_lower s) ''@import''"
    using assms by (auto simp: import_at_def Let_def split: if_splits list.splits)
  have l: "length ''@import'' \<le> length (to_lower s)" by (rule has_prefix_length [OF s3(3)])
  have "?s1 = takeWhile is_re_space ?s1 @ q # s3" using s3(1) by (metis takeWhile_dropWhile_id)
  then have s: "s = (take 7 s @ takeWhile is_re_space ?s1 @ q # take (length ref + 1) s3) @ r"
    using s3(2) by (metis append.assoc append_Cons append_take_drop_id)
  then show "\<exists>m. s = m @ r \<and> m \<noteq> []" by blast
  then show "length r < length s" by auto
qed

text \<open>\<open>loc\<close> is \<open>Rewriter.localize\<close> for the sheet at hand.\<close>

definition import_text :: "(string \<Rightarrow> string option) \<Rightarrow> char \<Rightarrow> string \<Rightarrow> string \<Rightarrow> string" where
  "import_text loc q ref0 m =
     (let ref = trim_space ref0
      in if ref = [] \<or> has_prefix ref ''data:'' then m
         else case loc ref of Some rel \<Rightarrow> ''@import '' @ [q] @ rel @ [q] | None \<Rightarrow> m)"

function rewriteCSSImports :: "(string \<Rightarrow> string option) \<Rightarrow> string \<Rightarrow> string" where
  "rewriteCSSImports loc s =
     (if s = [] then []
      else case import_at s of
          None \<Rightarrow> hd s # rewriteCSSImports loc (tl s)
        | Some (q, ref, r) \<Rightarrow> import_text loc q ref (take (length s - length r) s) @ rewriteCSSImports loc r)"
  by pat_completeness auto
termination
  by (relation "measure (\<lambda>(loc, s). length s)") (auto dest: import_at_shorter(1))

declare rewriteCSSImports.simps [simp del]

definition ref_text :: "(string \<Rightarrow> string option) \<Rightarrow> string \<Rightarrow> string" where
  "ref_text loc content =
     (let urlStr = trim_by (\<lambda>c. c \<in> set quotes \<or> c = CHR '' '') (trim_space content)
      in case (if urlStr \<noteq> [] \<and> \<not> has_prefix urlStr ''data:'' then loc urlStr else None) of
           Some rel \<Rightarrow> ''url('' @ [CHR 0x22] @ rel @ [CHR 0x22] @ '')''
         | None \<Rightarrow> ''url('' @ content @ '')'')"

text \<open>An unclosed reference leaves the index one past the end, where the next slice panics.\<close>

function rewrite_urls :: "(string \<Rightarrow> string option) \<Rightarrow> string \<Rightarrow> string outcome" where
  "rewrite_urls loc css =
     (case index_of (to_lower css) url_open of
        None \<Rightarrow> Returns css
      | Some idx \<Rightarrow>
          (case scan_raw (drop (idx + 4) css) 1 of
             (content, None) \<Rightarrow> Panic
           | (content, Some css') \<Rightarrow>
               outcome_bind (rewrite_urls loc css') (\<lambda>out. Returns (take idx css @ ref_text loc content @ out))))"
  by pat_completeness auto
termination
  by (relation "measure (\<lambda>(loc, css). length css)") (auto dest: scan_raw_step [OF _ sym, unfolded One_nat_def])

declare rewrite_urls.simps [simp del]

definition rewriteCSSRefs :: "(string \<Rightarrow> string option) \<Rightarrow> string \<Rightarrow> string outcome" where
  "rewriteCSSRefs loc css = rewrite_urls loc (rewriteCSSImports loc css)"

section \<open>Rendered style sheets\<close>

definition css_escape :: "string \<Rightarrow> string" where
  "css_escape u = concat (map (\<lambda>c. if c \<in> {CHR ''('', CHR '')'', bs} then [bs, c] else [c]) u)"

definition css_ref :: "string \<Rightarrow> string" where
  "css_ref u = url_open @ css_escape u @ '')''"

text \<open>References with the text before each, and the text after the last.\<close>

definition css_text :: "(string \<times> string) list \<Rightarrow> string \<Rightarrow> string" where
  "css_text refs end = concat (map (\<lambda>(junk, u). junk @ css_ref u) refs) @ end"

definition no_ref :: "string \<Rightarrow> bool" where
  "no_ref s \<longleftrightarrow> \<not> contains (to_lower s) url_open"

text \<open>A reference that does not begin or end with white space or a quote.\<close>

definition bare_ref :: "string \<Rightarrow> bool" where
  "bare_ref u \<longleftrightarrow> u \<noteq> [] \<and> \<not> is_space_byte (hd u) \<and> \<not> is_space_byte (last u) \<and> hd u \<notin> set quotes \<and> last u \<notin> set quotes"

lemma css_escape_simps [simp]: "css_escape [] = []"
  "css_escape (c # u) = (if c \<in> {CHR ''('', CHR '')'', bs} then [bs, c] else [c]) @ css_escape u"
  by (simp_all add: css_escape_def)

lemma scan_ref_escape: "scan_ref (css_escape u @ CHR '')'' # r) 1 = (u, Some r)"
  by (induction u) (auto simp: bs_def)

lemma scan_raw_escape: "scan_raw (css_escape u @ CHR '')'' # r) 1 = (css_escape u, Some r)"
  by (induction u) (auto simp: bs_def)

lemma notin_tl: "x \<notin> set r \<Longrightarrow> x \<notin> set (tl r)"
  by (cases r) auto

lemma scan_ref_unclosed: "CHR '')'' \<notin> set r \<Longrightarrow> snd (scan_ref r d) = None"
  by (induction r d rule: scan_ref.induct) (auto simp: notin_tl split: prod.splits)

lemma to_lower_url_open [simp]: "to_lower url_open = url_open"
  by (simp add: url_open_def to_lower_def lower_byte_def)

lemma index_of_Some0: "has_prefix s p \<Longrightarrow> index_of s p = Some 0"
  by (cases s) (auto simp: has_prefix_iff)

text \<open>\<open>url(\<close> does not overlap itself, so the text before it cannot begin an earlier one.\<close>

lemma index_of_open:
  assumes "\<not> contains a url_open"
  shows "index_of (a @ url_open @ b) url_open = Some (length a)"
  using assms
proof (induction a)
  case Nil
  then show ?case by (simp add: index_of_Some0)
next
  case (Cons c a)
  have no: "\<not> has_prefix (c # a @ url_open @ b) url_open"
  proof
    assume p: "has_prefix (c # a @ url_open @ b) url_open"
    show False
    proof (cases "3 \<le> length a")
      case True
      then obtain x y z a' where "a = x # y # z # a'" by (metis Suc_le_length_iff numeral_3_eq_3)
      then have "has_prefix (c # a) url_open" using p by (simp add: url_open_def)
      then have "contains (c # a) url_open" by (simp add: contains_def)
      then show False using Cons.prems by simp
    next
      case False
      then have "length a = 0 \<or> length a = 1 \<or> length a = 2" by arith
      then show False using p by (auto simp: url_open_def length_Suc_conv numeral_2_eq_2)
    qed
  qed
  have "\<not> contains a url_open"
    using Cons.prems by (auto simp: contains_def split: if_splits)
  then show ?case using Cons.IH no by simp
qed

lemma index_of_ref: "no_ref junk \<Longrightarrow> index_of (to_lower (junk @ url_open @ r)) url_open = Some (length junk)"
  using index_of_open [of "to_lower junk" "to_lower r"] by (simp add: no_ref_def to_lower_append)

lemma trim_bare:
  assumes "u \<noteq> []" "\<not> P (hd u)" "\<not> P (last u)"
  shows "trim_by P u = u"
  by (rule trim_by_id) (use assms in simp)

lemma ref_value_bare: "bare_ref u \<Longrightarrow> ref_value u = u"
  by (simp add: bare_ref_def ref_value_def trim_space_def trim_bare)

lemma css_escape_ends:
  assumes "u \<noteq> []"
  shows "css_escape u \<noteq> []" "last (css_escape u) = last u" "hd (css_escape u) = hd u \<or> hd (css_escape u) = bs"
proof -
  show "css_escape u \<noteq> []" using assms by (cases u) auto
  show "last (css_escape u) = last u" using assms by (induction u rule: rev_induct) (auto simp: css_escape_def)
  show "hd (css_escape u) = hd u \<or> hd (css_escape u) = bs" using assms by (cases u) auto
qed

lemma not_space: "\<not> is_space_byte c \<Longrightarrow> c \<noteq> CHR '' ''"
  by (auto simp: is_space_byte_def)

lemma ref_text_bare:
  assumes "bare_ref u"
  shows "ref_text loc (css_escape u) =
    (case (if has_prefix (css_escape u) ''data:'' then None else loc (css_escape u)) of
       Some rel \<Rightarrow> url_open @ [CHR 0x22] @ rel @ [CHR 0x22] @ '')'' | None \<Rightarrow> css_ref u)"
proof -
  note e = css_escape_ends [of u]
  have u: "u \<noteq> []" using assms by (simp add: bare_ref_def)
  have "\<not> is_space_byte (hd (css_escape u))" "hd (css_escape u) \<notin> set quotes \<and> hd (css_escape u) \<noteq> CHR '' ''"
    using e(3) [OF u] assms not_space [of "hd u"] by (auto simp: bare_ref_def quotes_def bs_def is_space_byte_def [of "CHR 0x5C"])
  moreover have "\<not> is_space_byte (last (css_escape u))" "last (css_escape u) \<notin> set quotes \<and> last (css_escape u) \<noteq> CHR '' ''"
    using e(2) [OF u] assms not_space [of "last u"] by (auto simp: bare_ref_def)
  ultimately have "trim_by (\<lambda>c. c \<in> set quotes \<or> c = CHR '' '') (trim_space (css_escape u)) = css_escape u"
    using e(1) [OF u] by (simp add: trim_space_def trim_bare)
  then show ?thesis using e(1) [OF u] by (simp add: ref_text_def Let_def css_ref_def url_open_def split: option.split)
qed

text \<open>One reference of a text, and a text without any.\<close>

lemma no_ref_index: "no_ref s \<Longrightarrow> index_of (to_lower s) url_open = None"
  by (simp add: no_ref_def contains_def)

lemma drop_open [simp]: "length url_open = 4" "drop 4 url_open = []"
  by (simp_all add: url_open_def)

lemma extract_step:
  assumes "no_ref junk" "bare_ref u"
  shows "extractCSSURLs (junk @ css_ref u @ r) = outcome_bind (extractCSSURLs r) (\<lambda>urls. Returns (u # urls))"
proof -
  have u: "u \<noteq> []" using assms(2) by (simp add: bare_ref_def)
  have "junk @ css_ref u @ r = junk @ url_open @ css_escape u @ CHR '')'' # r" by (simp add: css_ref_def)
  then show ?thesis
    using index_of_ref [OF assms(1)] u
    by (subst extractCSSURLs.simps) (simp add: scan_ref_escape [unfolded One_nat_def] ref_value_bare [OF assms(2)])
qed

lemma extract_unclosed:
  assumes "no_ref junk" "CHR '')'' \<notin> set r"
  shows "extractCSSURLs (junk @ url_open @ r) = Panic"
  using index_of_ref [OF assms(1), of r] scan_ref_unclosed [OF assms(2), of 1]
  by (subst extractCSSURLs.simps) (auto split: prod.split option.split)

lemma rewrite_step:
  assumes "no_ref junk" "bare_ref u"
  shows "rewrite_urls loc (junk @ css_ref u @ r) =
    outcome_bind (rewrite_urls loc r) (\<lambda>out. Returns (junk @ ref_text loc (css_escape u) @ out))"
proof -
  have "junk @ css_ref u @ r = junk @ url_open @ css_escape u @ CHR '')'' # r" by (simp add: css_ref_def)
  then show ?thesis
    using index_of_ref [OF assms(1)]
    by (subst rewrite_urls.simps) (simp add: scan_raw_escape [unfolded One_nat_def])
qed

lemma rewrite_unclosed:
  assumes "no_ref junk" "CHR '')'' \<notin> set r"
  shows "rewrite_urls loc (junk @ url_open @ r) = Panic"
  using index_of_ref [OF assms(1), of r] scan_ref_unclosed [OF assms(2), of 1] scan_raw_rest [of r 1]
  by (subst rewrite_urls.simps) (auto split: prod.split option.split)

lemma css_text_Cons: "css_text ((junk, u) # refs) end = junk @ css_ref u @ css_text refs end"
  by (simp add: css_text_def)

definition good_refs :: "(string \<times> string) list \<Rightarrow> bool" where
  "good_refs refs \<longleftrightarrow> (\<forall>(junk, u)\<in>set refs. no_ref junk \<and> bare_ref u)"

lemma extract_refs:
  "good_refs refs \<Longrightarrow> extractCSSURLs (css_text refs end) = outcome_bind (extractCSSURLs end) (\<lambda>urls. Returns (map snd refs @ urls))"
proof (induction refs)
  case Nil
  then show ?case by (cases "extractCSSURLs end") (simp_all add: css_text_def)
next
  case (Cons r refs)
  then show ?case by (cases r; cases "extractCSSURLs end") (simp_all add: css_text_Cons extract_step good_refs_def)
qed

lemma rewrite_refs:
  "good_refs refs \<Longrightarrow> rewrite_urls loc (css_text refs end) =
     outcome_bind (rewrite_urls loc end) (\<lambda>out. Returns (concat (map (\<lambda>(junk, u). junk @ ref_text loc (css_escape u)) refs) @ out))"
proof (induction refs)
  case Nil
  then show ?case by (cases "rewrite_urls loc end") (simp_all add: css_text_def)
next
  case (Cons r refs)
  then show ?case by (cases r; cases "rewrite_urls loc end") (simp_all add: css_text_Cons rewrite_step good_refs_def)
qed

lemma rewriteCSSImports_id: "\<not> contains (to_lower s) ''@import'' \<Longrightarrow> rewriteCSSImports loc s = s"
proof (induction s)
  case Nil
  then show ?case by (simp add: rewriteCSSImports.simps)
next
  case (Cons c s)
  have "\<not> has_prefix (to_lower (c # s)) ''@import''" "\<not> contains (to_lower s) ''@import''"
    using Cons.prems by (auto simp: contains_def to_lower_def split: if_splits)
  then have "import_at (c # s) = None" "rewriteCSSImports loc s = s" using Cons.IH by (simp_all add: import_at_def)
  then show ?case by (subst rewriteCSSImports.simps) simp
qed

section \<open>Extraction, rewriting and their panics\<close>


text \<open>Rewriting a style sheet without imports replaces exactly the references that the mapping knows and
  that are not data URLs, and leaves the rest of the text as it is. The mapping is asked for the reference
  as it stands in the sheet, escapes included, so it does not find one that was saved under its own name.\<close>

theorem rewriteCSSRefs_replaces_known:
  assumes "\<forall>(junk, u)\<in>set refs. no_ref junk \<and> bare_ref u" "no_ref end" "\<not> contains (to_lower (css_text refs end)) ''@import''"
  shows "rewriteCSSRefs loc (css_text refs end) = Returns (concat (map (\<lambda>(junk, u). junk @
    (case (if has_prefix (css_escape u) ''data:'' then None else loc (css_escape u)) of
       Some rel \<Rightarrow> url_open @ [CHR 0x22] @ rel @ [CHR 0x22] @ '')'' | None \<Rightarrow> css_ref u)) refs) @ end)"
proof -
  have "concat (map (\<lambda>(junk, u). junk @ ref_text loc (css_escape u)) refs) =
      concat (map (\<lambda>(junk, u). junk @ (case (if has_prefix (css_escape u) ''data:'' then None else loc (css_escape u)) of
         Some rel \<Rightarrow> url_open @ [CHR 0x22] @ rel @ [CHR 0x22] @ '')'' | None \<Rightarrow> css_ref u)) refs)"
    using assms(1) by (intro arg_cong [where f = concat] map_cong refl) (auto simp: ref_text_bare)
  then show ?thesis
    using rewrite_refs [of refs loc "end"] assms no_ref_index [OF assms(2)]
    by (simp add: rewriteCSSRefs_def rewriteCSSImports_id good_refs_def rewrite_urls.simps [of loc "end"])
qed

text \<open>A reference that is not closed makes both functions panic, wherever it stands in the text.\<close>

theorem unclosed_reference_panics:
  assumes "\<forall>(junk, u)\<in>set refs. no_ref junk \<and> bare_ref u" "no_ref junk'" "CHR '')'' \<notin> set r"
    "\<not> contains (to_lower (css_text refs (junk' @ url_open @ r))) ''@import''"
  shows "extractCSSURLs (css_text refs (junk' @ url_open @ r)) = Panic \<and>
    rewriteCSSRefs loc (css_text refs (junk' @ url_open @ r)) = Panic"
  using extract_refs [of refs "junk' @ url_open @ r"] rewrite_refs [of refs loc "junk' @ url_open @ r"] assms
    extract_unclosed [OF assms(2,3)] rewrite_unclosed [OF assms(2,3)]
  by (simp add: rewriteCSSRefs_def rewriteCSSImports_id good_refs_def)

text \<open>An asset with a parenthesis in its name is extracted under that name, but not found again.\<close>

lemma escaped_reference_is_not_localized:
  "let css = ''a{b:url(x'' @ [bs] @ ''(1'' @ [bs] @ '').png)}''
   in extractCSSURLs css = Returns [''x(1).png''] \<and> rewriteCSSRefs [''x(1).png'' \<mapsto> ''y''] css = Returns css"
  by code_simp


theorem rewriteCSSRefs_replaces_known_witness:
  "rewriteCSSRefs [''x.png'' \<mapsto> ''../x.png''] (css_text [(''a{b:'', ''x.png''), ('';c:'', ''y.png'')] ''}'') =
     Returns (''a{b:url('' @ [CHR 0x22] @ ''../x.png'' @ [CHR 0x22] @ '');c:url(y.png)}'')"
  using rewriteCSSRefs_replaces_known [of "[(''a{b:'', ''x.png''), ('';c:'', ''y.png'')]" "''}''" "[''x.png'' \<mapsto> ''../x.png'']"]
  by (simp add: no_ref_def bare_ref_def contains_def url_open_def to_lower_def lower_byte_def is_space_byte_def quotes_def
      css_text_def css_ref_def css_escape_def bs_def)

theorem unclosed_reference_panics_witness:
  "extractCSSURLs ''a{b:url(x'' = Panic \<and> rewriteCSSRefs Map.empty ''a{b:url(x'' = Panic"
  using unclosed_reference_panics [of "[]" "''a{b:''" "''x''" Map.empty]
  by (simp add: no_ref_def contains_def url_open_def to_lower_def lower_byte_def css_text_def)

section \<open>Imported sheets\<close>

text \<open>
  \<open>processCSSImports\<close>: \<open>files\<close> is what \<open>os.ReadFile\<close> gives, \<open>refs_of\<close> the references the pattern for imports
  finds in a sheet. The recursion is not structural, so it is a partial function in which \<open>None\<close> means
  that it does not return; \<open>visit_imports\<close> is the loop over the references of one sheet, with the
  recursive call in place.
\<close>

definition import_target :: "(string \<rightharpoonup> string) \<Rightarrow> string \<Rightarrow> string option" where
  "import_target mappings ref = mappings (trim_by (\<lambda>c. c \<in> set quotes \<or> c = CHR '' '') ref)"

partial_function (option) visit_imports ::
    "(string \<rightharpoonup> string) \<Rightarrow> (string \<Rightarrow> string list) \<Rightarrow> (string \<rightharpoonup> string) \<Rightarrow> string list \<Rightarrow> string set \<Rightarrow> string set option" where
  "visit_imports files refs_of mappings refs processed =
     (case refs of
        [] \<Rightarrow> Some processed
      | ref # rest \<Rightarrow>
          (case import_target mappings ref of
             None \<Rightarrow> visit_imports files refs_of mappings rest processed
           | Some localPath \<Rightarrow>
               if localPath \<in> processed then visit_imports files refs_of mappings rest processed
               else Option.bind
                 (case files localPath of
                    None \<Rightarrow> Some (insert localPath processed)
                  | Some css \<Rightarrow> visit_imports files refs_of mappings (refs_of css) (insert localPath processed))
                 (\<lambda>processed'. visit_imports files refs_of mappings rest processed')))"

definition processCSSImports ::
    "(string \<rightharpoonup> string) \<Rightarrow> (string \<Rightarrow> string list) \<Rightarrow> (string \<rightharpoonup> string) \<Rightarrow> string \<Rightarrow> string set \<Rightarrow> string set option" where
  "processCSSImports files refs_of mappings cssPath processed =
     (if cssPath \<in> processed then Some processed
      else case files cssPath of
          None \<Rightarrow> Some (insert cssPath processed)
        | Some css \<Rightarrow> visit_imports files refs_of mappings (refs_of css) (insert cssPath processed))"

definition import_edge :: "(string \<rightharpoonup> string) \<Rightarrow> (string \<Rightarrow> string list) \<Rightarrow> (string \<rightharpoonup> string) \<Rightarrow> string \<Rightarrow> string \<Rightarrow> bool" where
  "import_edge files refs_of mappings p q \<longleftrightarrow>
     (\<exists>css ref. files p = Some css \<and> ref \<in> set (refs_of css) \<and> import_target mappings ref = Some q)"

text \<open>What a call on some references adds to the set it is given.\<close>

definition visited_ok ::
    "(string \<rightharpoonup> string) \<Rightarrow> (string \<Rightarrow> string list) \<Rightarrow> (string \<rightharpoonup> string) \<Rightarrow> string list \<Rightarrow> string set \<Rightarrow> string set \<Rightarrow> bool" where
  "visited_ok files refs_of mappings refs P P' \<longleftrightarrow>
     P \<subseteq> P' \<and> (\<forall>ref\<in>set refs. \<forall>q. import_target mappings ref = Some q \<longrightarrow> q \<in> P') \<and>
     (\<forall>p\<in>P' - P. \<forall>q. import_edge files refs_of mappings p q \<longrightarrow> q \<in> P') \<and>
     (\<forall>p\<in>P' - P. \<exists>ref\<in>set refs. \<exists>q. import_target mappings ref = Some q \<and> (import_edge files refs_of mappings)\<^sup>*\<^sup>* q p)"

lemma visited_okD:
  assumes "visited_ok files refs_of mappings refs P P'"
  shows "P \<subseteq> P'"
    "ref \<in> set refs \<Longrightarrow> import_target mappings ref = Some q \<Longrightarrow> q \<in> P'"
    "p \<in> P' \<Longrightarrow> p \<notin> P \<Longrightarrow> import_edge files refs_of mappings p q \<Longrightarrow> q \<in> P'"
    "p \<in> P' \<Longrightarrow> p \<notin> P \<Longrightarrow> \<exists>ref\<in>set refs. \<exists>q. import_target mappings ref = Some q \<and> (import_edge files refs_of mappings)\<^sup>*\<^sup>* q p"
  using assms unfolding visited_ok_def by blast+

lemma visited_ok_trans:
  assumes "import_target mappings ref = Some p" "P1 = insert p P"
    "case files p of None \<Rightarrow> P2 = P1 | Some css \<Rightarrow> visited_ok files refs_of mappings (refs_of css) P1 P2"
    "visited_ok files refs_of mappings rest P2 P3"
  shows "visited_ok files refs_of mappings (ref # rest) P P3"
proof -
  let ?E = "import_edge files refs_of mappings"
  have sub1: "P1 \<subseteq> P2" using assms(3) visited_okD(1) by (cases "files p") auto
  have sub: "P \<subseteq> P2" "p \<in> P2" "P2 \<subseteq> P3" using sub1 assms(2) visited_okD(1) [OF assms(4)] by blast+
  have edges: "q \<in> P2" if x: "x \<in> P2" "x \<notin> P" and xq: "?E x q" for x q
  proof (cases "files p")
    case None
    then have "x = p" using x assms(2,3) by auto
    then show ?thesis using xq None by (simp add: import_edge_def)
  next
    case (Some css)
    then have ok: "visited_ok files refs_of mappings (refs_of css) P1 P2" using assms(3) by simp
    show ?thesis
    proof (cases "x = p")
      case True
      then obtain ref where "ref \<in> set (refs_of css)" "import_target mappings ref = Some q"
        using xq Some by (auto simp: import_edge_def)
      then show ?thesis by (rule visited_okD(2) [OF ok])
    next
      case False
      then have "x \<notin> P1" using x(2) assms(2) by blast
      then show ?thesis using visited_okD(3) [OF ok x(1)] xq by blast
    qed
  qed
  have from_p: "?E\<^sup>*\<^sup>* p x" if inP: "x \<in> P2" "x \<notin> P" for x
  proof (cases "x = p")
    case False
    then have x: "x \<notin> P1" using inP(2) assms(2) by blast
    then obtain css where css: "files p = Some css" using inP(1) assms(3) by (cases "files p") auto
    then have ok: "visited_ok files refs_of mappings (refs_of css) P1 P2" using assms(3) by simp
    then obtain r q where r: "r \<in> set (refs_of css)" "import_target mappings r = Some q" "?E\<^sup>*\<^sup>* q x"
      using visited_okD(4) [OF ok inP(1) x] by blast
    have "?E p q" using css r(1,2) unfolding import_edge_def by blast
    then show ?thesis using r(3) by (rule converse_rtranclp_into_rtranclp)
  qed simp
  show ?thesis
    unfolding visited_ok_def
  proof (intro conjI ballI allI impI)
    show "P \<subseteq> P3" using sub by blast
  next
    fix r q assume r: "r \<in> set (ref # rest)" "import_target mappings r = Some q"
    show "q \<in> P3"
    proof (cases "r = ref")
      case True
      then show ?thesis using r(2) assms(1) sub by auto
    next
      case False
      then show ?thesis using visited_okD(2) [OF assms(4) _ r(2)] r(1) by simp
    qed
  next
    fix x q assume x: "x \<in> P3 - P" "?E x q"
    then show "q \<in> P3" using visited_okD(3) [OF assms(4)] edges [of x q] sub(3) by blast
  next
    fix x assume x: "x \<in> P3 - P"
    show "\<exists>r\<in>set (ref # rest). \<exists>q. import_target mappings r = Some q \<and> ?E\<^sup>*\<^sup>* q x"
      using x assms(1) from_p [of x] visited_okD(4) [OF assms(4), of x] by (cases "x \<in> P2") auto
  qed
qed

lemma visit_imports_returns:
  assumes "finite (ran mappings)" "card (ran mappings - P) \<le> n"
  shows "\<exists>P'. visit_imports files refs_of mappings refs P = Some P' \<and> visited_ok files refs_of mappings refs P P'"
  using assms(2)
proof (induction n arbitrary: refs P rule: less_induct)
  case (less n)
  show ?case
    using less.prems
  proof (induction refs arbitrary: P)
    case Nil
    then show ?case by (simp add: visit_imports.simps visited_ok_def)
  next
    case (Cons ref rest)
    show ?case
    proof (cases "import_target mappings ref")
      case None
      then show ?thesis using Cons.IH [OF Cons.prems] by (subst visit_imports.simps) (auto simp: visited_ok_def)
    next
      case (Some p)
      show ?thesis
      proof (cases "p \<in> P")
        case True
        obtain P' where "visit_imports files refs_of mappings rest P = Some P'" "visited_ok files refs_of mappings rest P P'"
          using Cons.IH [OF Cons.prems] by blast
        then show ?thesis using Some True by (subst visit_imports.simps) (auto simp: visited_ok_def)
      next
        case False
        have p: "p \<in> ran mappings" using Some by (auto simp: import_target_def ran_def)
        have "card (ran mappings - insert p P) < card (ran mappings - P)"
          by (rule psubset_card_mono) (use assms(1) p False in auto)
        then have lt: "card (ran mappings - insert p P) < n" using Cons.prems by simp
        obtain P2 where P2: "(case files p of None \<Rightarrow> Some (insert p P)
              | Some css \<Rightarrow> visit_imports files refs_of mappings (refs_of css) (insert p P)) = Some P2"
            "case files p of None \<Rightarrow> P2 = insert p P | Some css \<Rightarrow> visited_ok files refs_of mappings (refs_of css) (insert p P) P2"
          using less.IH [OF lt order_refl] by (cases "files p") auto
        have "P \<subseteq> P2" using P2(2) by (auto simp: visited_ok_def split: option.splits)
        then have "card (ran mappings - P2) \<le> n"
          using Cons.prems card_mono [of "ran mappings - P" "ran mappings - P2"] assms(1) by fastforce
        then obtain P3 where P3: "visit_imports files refs_of mappings rest P2 = Some P3" "visited_ok files refs_of mappings rest P2 P3"
          using Cons.IH by blast
        have "visited_ok files refs_of mappings (ref # rest) P P3"
          by (rule visited_ok_trans [OF Some refl P2(2) P3(2)])
        then show ?thesis using Some False P2(1) P3(1) by (subst visit_imports.simps) simp
      qed
    qed
  qed
qed

text \<open>C21: the walk over imported sheets ends, also when sheets import each other, and has then read exactly
  the sheets that are reachable through imports of mapped files.\<close>

theorem processCSSImports_terminates:
  assumes "finite (dom mappings)"
  shows "processCSSImports files refs_of mappings cssPath {} = Some {p. (import_edge files refs_of mappings)\<^sup>*\<^sup>* cssPath p}"
proof -
  let ?E = "import_edge files refs_of mappings"
  obtain P where P: "processCSSImports files refs_of mappings cssPath {} = Some P"
    "case files cssPath of None \<Rightarrow> P = {cssPath} | Some css \<Rightarrow> visited_ok files refs_of mappings (refs_of css) {cssPath} P"
  proof (cases "files cssPath")
    case None
    then show thesis using that by (simp add: processCSSImports_def)
  next
    case (Some css)
    then show thesis
      using that visit_imports_returns [OF finite_ran [OF assms] order_refl, where P = "{cssPath}" and files = files and refs_of = refs_of and refs = "refs_of css"]
      by (auto simp: processCSSImports_def)
  qed
  have closed: "q \<in> P" if "p \<in> P" "?E p q" for p q
  proof (cases "files cssPath")
    case None
    then show ?thesis using that P(2) by (auto simp: import_edge_def)
  next
    case (Some css)
    then have ok: "visited_ok files refs_of mappings (refs_of css) {cssPath} P" using P(2) by simp
    show ?thesis
      using that visited_okD(3) [OF ok that(1)] visited_okD(2) [OF ok] Some
      by (cases "p = cssPath") (auto simp: import_edge_def)
  qed
  have start: "cssPath \<in> P" using P(2) by (cases "files cssPath") (auto dest: visited_okD(1))
  have "p \<in> P" if "?E\<^sup>*\<^sup>* cssPath p" for p
    using that by induction (use start closed in auto)
  moreover have "?E\<^sup>*\<^sup>* cssPath p" if inP: "p \<in> P" for p
  proof (cases "p = cssPath")
    case False
    then obtain css where css: "files cssPath = Some css" using inP P(2) by (cases "files cssPath") auto
    then have "visited_ok files refs_of mappings (refs_of css) {cssPath} P" using P(2) by simp
    then obtain ref q where r: "ref \<in> set (refs_of css)" "import_target mappings ref = Some q" "?E\<^sup>*\<^sup>* q p"
      using visited_okD(4) [OF _ inP] False by blast
    have "?E cssPath q" using css r(1,2) unfolding import_edge_def by blast
    then show ?thesis using r(3) by (rule converse_rtranclp_into_rtranclp)
  qed simp
  ultimately have "P = {p. ?E\<^sup>*\<^sup>* cssPath p}" by blast
  with P(1) show ?thesis by simp
qed

text \<open>Two sheets that import each other.\<close>

theorem processCSSImports_terminates_witness:
  "\<exists>P. processCSSImports [''a'' \<mapsto> ''x'', ''b'' \<mapsto> ''y''] (\<lambda>css. if css = ''x'' then [''ub''] else [''ua'']) [''ua'' \<mapsto> ''a'', ''ub'' \<mapsto> ''b''] ''a'' {} = Some P
     \<and> ''b'' \<in> P \<and> ''c'' \<notin> P"
proof -
  let ?E = "import_edge [''a'' \<mapsto> ''x'', ''b'' \<mapsto> ''y''] (\<lambda>css. if css = ''x'' then [''ub''] else [''ua'']) [''ua'' \<mapsto> ''a'', ''ub'' \<mapsto> ''b'']"
  have e: "?E ''a'' ''b''" "\<And>p. \<not> ?E p ''c''"
    by (auto simp: import_edge_def import_target_def trim_by_def quotes_def split: if_splits)
  have "\<not> ?E\<^sup>*\<^sup>* ''a'' ''c''"
  proof
    assume "?E\<^sup>*\<^sup>* ''a'' ''c''"
    then show False by (cases rule: rtranclp.cases) (use e(2) in auto)
  qed
  then show ?thesis
    using processCSSImports_terminates [of "[''ua'' \<mapsto> ''a'', ''ub'' \<mapsto> ''b'']" "[''a'' \<mapsto> ''x'', ''b'' \<mapsto> ''y'']"
        "\<lambda>css. if css = ''x'' then [''ub''] else [''ua'']" "''a''"] e(1) by auto
qed

end
