(* ===== verification/LocalLinks.thy ===== *)
theory LocalLinks
  imports GoRel GoURLString Storage CssRefs
begin

text \<open>
  The links of an offline copy, \<open>internal/localize\<close>: scan.go (names of files), paths.go, map.go, the
  mapping that localize.go builds and the attribute values of rewrite.go. \<open>rw_urlToLocal\<close> and
  \<open>rw_pageURLs\<close> are the maps of a \<open>Rewriter\<close>; whether a path is a regular file (\<open>os.Stat\<close>) and the
  working directory are arguments. Go's map iteration is a list in the order it takes.
\<close>

section \<open>scan.go\<close>

definition urlFromLocalPath :: "string \<Rightarrow> string \<Rightarrow> string" where
  "urlFromLocalPath root localPath =
     (case filepath_Rel root localPath of
        None \<Rightarrow> []
      | Some rel \<Rightarrow>
          (let segments = split_byte CHR ''/'' rel;
               host = hd segments;
               rest0 = join ''/'' (tl segments);
               rest = (if rest0 = [] then ''/'' else rest0)
           in url_String (https_url host (''/'' @ rest))))"

definition isHTMLPagePath :: "string \<Rightarrow> bool" where
  "isHTMLPagePath p \<longleftrightarrow> to_lower (filepath_Ext p) = ''.html'' \<or> to_lower (filepath_Ext p) = ''.htm''"

definition isCSSPath :: "string \<Rightarrow> bool" where
  "isCSSPath p \<longleftrightarrow> to_lower (filepath_Ext p) = ''.css''"

section \<open>paths.go\<close>

definition relPath :: "string \<Rightarrow> string \<Rightarrow> string" where
  "relPath base target = (case filepath_Rel base target of None \<Rightarrow> target | Some rel \<Rightarrow> rel)"

definition has_http :: "string \<Rightarrow> bool" where
  "has_http ref \<longleftrightarrow> has_prefix ref ''http://'' \<or> has_prefix ref ''https://''"

definition resolveURL :: "string \<Rightarrow> string \<Rightarrow> string" where
  "resolveURL base ref =
     (if ref = [] then []
      else if has_http ref then ref
      else if base = [] then []
      else case url_parse base of None \<Rightarrow> [] | Some b \<Rightarrow>
        (case url_parse ref of None \<Rightarrow> [] | Some rr \<Rightarrow> url_String (resolve_reference b rr)))"

section \<open>map.go\<close>

record rewriter =
  rw_urlToLocal :: "string \<rightharpoonup> string"
  rw_pageURLs :: "string \<rightharpoonup> string"
  rw_localRoot :: string

definition not_host_prefixes :: "string list" where
  "not_host_prefixes = [''http://'', ''https://'', ''/'', ''./'', ''../'', ''#'', ''javascript:'', ''mailto:'', ''tel:'', ''data:'', ''blob:'']"

definition first_segment :: "string \<Rightarrow> string" where
  "first_segment ref =
     (case index_byte ref CHR ''/'' of Some i \<Rightarrow> take i ref | None \<Rightarrow>
       (case index_byte ref CHR ''?'' of Some i \<Rightarrow> take i ref | None \<Rightarrow>
         (case index_byte ref CHR ''#'' of Some i \<Rightarrow> take i ref | None \<Rightarrow> ref)))"

definition isProtocolRelativeURL :: "string \<Rightarrow> bool" where
  "isProtocolRelativeURL ref0 =
     (let ref = trim_space ref0
      in if ref = [] then False
         else if list_ex (has_prefix ref) not_host_prefixes then False
         else if \<not> contains ref ''.'' \<or> contains ref '' '' then False
         else let firstSeg = first_segment ref
              in if \<not> contains firstSeg ''.'' then False
                 else list_all (\<lambda>c. is_alnum c \<or> c \<in> set ''.-:'') firstSeg)"

definition pathForURL :: "string \<Rightarrow> string \<Rightarrow> string" where
  "pathForURL localRoot rawURL =
     (case url_parse rawURL of
        None \<Rightarrow> []
      | Some u \<Rightarrow>
          if u_scheme u \<noteq> ''http'' \<and> u_scheme u \<noteq> ''https'' then []
          else if hostname u = [] then []
          else
            (let cleanPath = (if u_path u = [] \<or> u_path u = ''/'' then ''/index.html'' else u_path u);
                 d1 = (case path_unescape cleanPath of Some d \<Rightarrow> d | None \<Rightarrow> cleanPath);
                 d2 = (if has_suffix d1 ''/'' then d1 @ ''index.html'' else d1);
                 d3 = trim_prefix d2 ''/'';
                 baseName = (case last_index_byte d3 CHR ''/'' of Some i \<Rightarrow> drop (i + 1) d3 | None \<Rightarrow> d3);
                 d4 = (if \<not> contains baseName ''.'' then d3 @ ''/index.html'' else d3)
             in if contains d4 ''..'' then []
                else let d5 = (if u_rawquery u \<noteq> [] then
                                 (let ext = filepath_Ext d4;
                                      base = trim_suffix d4 ext;
                                      safeQuery = map (\<lambda>c. if c \<in> set ''/:?&'' \<or> c = CHR 0x5C then CHR ''_'' else c) (u_rawquery u)
                                  in base @ ''_'' @ safeQuery @ ext)
                               else d4)
                     in filepath_Join [localRoot, hostname u, d5]))"

definition localize_abs :: "string \<Rightarrow> string \<Rightarrow> string" where
  "localize_abs ref pageURL =
     (if has_http ref then ref
      else if isProtocolRelativeURL ref then ''https://'' @ ref
      else if pageURL \<noteq> [] then resolveURL pageURL ref
      else [])"

text \<open>The file a reference is mapped to; the result of \<open>localize\<close> is the path to it from a directory.\<close>

definition mapped_file :: "(string \<Rightarrow> bool) \<Rightarrow> rewriter \<Rightarrow> string \<Rightarrow> string option" where
  "mapped_file isFile r aref =
     (case rw_urlToLocal r aref of
        Some lp \<Rightarrow> Some lp
      | None \<Rightarrow>
          (case (case path_unescape aref of Some d \<Rightarrow> if d \<noteq> aref then rw_urlToLocal r d else None | None \<Rightarrow> None) of
             Some lp \<Rightarrow> Some lp
           | None \<Rightarrow>
               (let lp = pathForURL (rw_localRoot r) aref
                in if lp \<noteq> [] \<and> isFile lp then Some lp else None)))"

definition localize :: "(string \<Rightarrow> bool) \<Rightarrow> rewriter \<Rightarrow> string \<Rightarrow> string \<Rightarrow> string \<Rightarrow> string option" where
  "localize isFile r ref pageURL dir =
     (let aref = localize_abs ref pageURL
      in if aref = [] then None
         else case mapped_file isFile r aref of
             None \<Rightarrow> None
           | Some lp \<Rightarrow> Some (filepath_Clean (relPath dir lp)))"

section \<open>localize.go: the mapping\<close>

definition addURL :: "string \<Rightarrow> string \<Rightarrow> (string \<rightharpoonup> string) \<Rightarrow> (string \<rightharpoonup> string)" where
  "addURL u lp urlToLocal =
     (if u = [] \<or> lp = [] then urlToLocal
      else
        (let m1 = urlToLocal(u \<mapsto> lp);
             m2 = (case path_unescape u of Some d \<Rightarrow> if d \<noteq> u then m1(d \<mapsto> lp) else m1 | None \<Rightarrow> m1)
         in if has_suffix u ''/index.html''
            then (let base = trim_suffix u ''/index.html''
                  in if base \<noteq> [] then m2(base @ ''/'' \<mapsto> lp, base \<mapsto> lp) else m2)
            else m2))"

definition filepath_Abs :: "string \<Rightarrow> string \<Rightarrow> string" where
  "filepath_Abs cwd p = (if has_prefix p ''/'' then filepath_Clean p else filepath_Join [cwd, p])"

definition remapPathOK :: "string \<Rightarrow> string \<Rightarrow> string \<Rightarrow> string \<Rightarrow> string option" where
  "remapPathOK cwd cloneRoot localRoot p =
     (case filepath_Rel cloneRoot (filepath_Abs cwd p) of
        None \<Rightarrow> None
      | Some rel \<Rightarrow> if rel = ''.'' \<or> has_prefix rel ''..'' then None else Some (filepath_Join [localRoot, rel]))"

definition remapPath :: "string \<Rightarrow> string \<Rightarrow> string \<Rightarrow> string \<Rightarrow> string" where
  "remapPath cwd cloneRoot localRoot p = (case remapPathOK cwd cloneRoot localRoot p of Some lp \<Rightarrow> lp | None \<Rightarrow> [])"

type_synonym url_maps = "(string \<rightharpoonup> string) \<times> (string \<rightharpoonup> string)"

text \<open>One entry of a mapping file, both formats, and one file met by the reverse scan.\<close>

definition load_entry :: "(string \<Rightarrow> string) \<Rightarrow> string \<times> string \<Rightarrow> url_maps \<Rightarrow> url_maps" where
  "load_entry toLocal e m =
     (let lp = toLocal (snd e)
      in if lp = [] then m
         else (addURL (fst e) lp (fst m),
               if isHTMLPagePath lp \<or> isCSSPath lp then (snd m)(lp \<mapsto> fst e) else snd m))"

definition loadFile :: "(string \<Rightarrow> string) \<Rightarrow> (string \<times> string) list option \<Rightarrow> url_maps \<Rightarrow> url_maps" where
  "loadFile toLocal entries m = (case entries of None \<Rightarrow> m | Some es \<Rightarrow> fold (load_entry toLocal) es m)"

definition scan_file :: "string \<Rightarrow> string \<Rightarrow> string \<Rightarrow> string \<Rightarrow> url_maps \<Rightarrow> url_maps" where
  "scan_file cwd cloneRoot localRoot p m =
     (case remapPathOK cwd cloneRoot localRoot p of
        None \<Rightarrow> m
      | Some lp \<Rightarrow>
          (let u = urlFromLocalPath cloneRoot p
           in if u = [] then m
              else (if fst m u = None then addURL u lp (fst m) else fst m,
                    if (isHTMLPagePath p \<or> isCSSPath p) \<and> snd m lp = None then (snd m)(lp \<mapsto> u) else snd m)))"

text \<open>The mapping of the crawler and the index, read if they can be, and the files of the clone.\<close>

definition buildMapping :: "string \<Rightarrow> string \<Rightarrow> string \<Rightarrow> (string \<times> string) list option \<Rightarrow> (string \<times> string) list option \<Rightarrow>
    string list \<Rightarrow> url_maps" where
  "buildMapping cwd cloneRoot localRoot mapping index files =
     fold (scan_file cwd cloneRoot localRoot) files
       (loadFile (remapPath cwd cloneRoot localRoot) index
         (loadFile (remapPath cwd cloneRoot localRoot) mapping (Map.empty, Map.empty)))"

definition NewRewriter :: "url_maps \<Rightarrow> string \<Rightarrow> rewriter" where
  "NewRewriter m localRoot = \<lparr>rw_urlToLocal = fst m, rw_pageURLs = snd m, rw_localRoot = localRoot\<rparr>"

section \<open>rewrite.go: attribute values\<close>

definition rewriteAttrValue :: "(string \<Rightarrow> bool) \<Rightarrow> rewriter \<Rightarrow> string \<Rightarrow> string \<Rightarrow> string \<Rightarrow> string option" where
  "rewriteAttrValue isFile r v0 pageURL dir =
     (let v = trim_space v0
      in if v = [] \<or> list_ex (has_prefix v) [''#'', ''javascript:'', ''mailto:'', ''tel:'', ''data:'', ''blob:''] then None
         else localize isFile r v pageURL dir)"

text \<open>An entry of a \<open>srcset\<close>: its new text, if the reference has one.\<close>

definition srcset_part :: "(string \<Rightarrow> string option) \<Rightarrow> string \<Rightarrow> string option" where
  "srcset_part loc part0 =
     (let part = trim_space part0; urlPart = hd (split_byte CHR '' '' part)
      in if part = [] then None
         else if urlPart = [] \<or> has_prefix urlPart ''data:'' then None
         else map_option (\<lambda>rel. rel @ trim_prefix part urlPart) (loc urlPart))"

definition rewriteSrcset :: "(string \<Rightarrow> bool) \<Rightarrow> rewriter \<Rightarrow> string \<Rightarrow> string \<Rightarrow> string \<Rightarrow> string option" where
  "rewriteSrcset isFile r v pageURL dir =
     (let loc = (\<lambda>ref. localize isFile r ref pageURL dir); parts = split_byte CHR '','' v
      in if list_all (\<lambda>p. srcset_part loc p = None) parts then None
         else Some (join '', '' (map (\<lambda>p. case srcset_part loc p of Some t \<Rightarrow> t | None \<Rightarrow> p) parts)))"

definition RewriteCSS :: "(string \<Rightarrow> bool) \<Rightarrow> rewriter \<Rightarrow> string \<Rightarrow> string \<Rightarrow> string outcome" where
  "RewriteCSS isFile r data cssPath =
     (let cssDir = filepath_Dir cssPath; cssURL = (case rw_pageURLs r cssPath of Some u \<Rightarrow> u | None \<Rightarrow> [])
      in rewriteCSSRefs (\<lambda>ref. localize isFile r ref cssURL cssDir) data)"

section \<open>Paths of the copy\<close>

text \<open>The relative path leads back from the directory of the page.\<close>

lemma Join_relPath:
  assumes "has_prefix dir ''/''" "has_prefix lp ''/''"
  shows "filepath_Join [dir, filepath_Clean (relPath dir lp)] = filepath_Clean lp"
  using Rel_total [OF assms] Join_Rel [OF assms] by (auto simp: relPath_def)

lemma rooted_Join: "has_prefix root ''/'' \<Longrightarrow> has_prefix (filepath_Join (root # es)) ''/''"
proof -
  assume r: "has_prefix root ''/''"
  then have "has_prefix (join ''/'' (root # es)) ''/''" by (cases root; cases es) simp_all
  moreover have "root \<noteq> []" using r by auto
  ultimately show ?thesis by (simp add: filepath_Join_Cons)
qed

lemma filepath_Abs_rooted: "has_prefix cwd ''/'' \<Longrightarrow> has_prefix (filepath_Abs cwd p) ''/''"
  by (simp add: filepath_Abs_def rooted_Join)

text \<open>Files of the copy: the root, rooted and clean, and plain components below it.\<close>

definition copy_file :: "string \<Rightarrow> string \<Rightarrow> bool" where
  "copy_file localRoot lp \<longleftrightarrow> has_prefix lp ''/'' \<and> filepath_Clean lp = lp \<and> path_in_dir localRoot lp"

lemma root_comps_ne: "has_prefix root ''/'' \<Longrightarrow> filepath_Clean root \<noteq> ''/'' \<Longrightarrow> filepath_Clean root \<noteq> ''.''"
  by (metis Clean_rooted_iff has_prefix_dot)

lemma copy_file_Join:
  assumes "has_prefix root ''/''" "filepath_Clean root \<noteq> ''/''" "ds \<noteq> []" "\<forall>d\<in>set ds. plain_comp d"
  shows "copy_file root (filepath_Join [root, join ''/'' ds])"
proof -
  have "split_byte CHR ''/'' (join ''/'' ds) = ds"
    by (rule split_join_plain) (use assms plain_no_slash in auto)
  then have "foldl (clean_step (has_prefix root ''/'')) (clean_comps root) (split_byte CHR ''/'' (join ''/'' [join ''/'' ds])) = clean_comps root @ ds"
    using foldl_clean_plain [OF assms(4)] by simp
  from Join_below [OF root_comps_ne [OF assms(1,2)] assms(2) _ this assms(3)]
  have "path_in_dir root (filepath_Join [root, join ''/'' ds])" by simp
  moreover have "root \<noteq> []" using assms(1) by auto
  ultimately show ?thesis using rooted_Join [OF assms(1)] filepath_Clean_Join by (simp add: copy_file_def)
qed

lemma remapPathOK_inside:
  assumes "has_prefix cwd ''/''" "has_prefix cloneRoot ''/''" "has_prefix localRoot ''/''" "filepath_Clean localRoot \<noteq> ''/''"
    and r: "remapPathOK cwd cloneRoot localRoot p = Some lp"
  shows "copy_file localRoot lp"
proof -
  let ?p = "filepath_Abs cwd p"
  note rp = filepath_Abs_rooted [OF assms(1), of p]
  obtain rel where rel: "filepath_Rel cloneRoot ?p = Some rel" "rel \<noteq> ''.''" "\<not> has_prefix rel ''..''" "lp = filepath_Join [localRoot, rel]"
    using r by (auto simp: remapPathOK_def split: option.splits if_splits)
  have ne: "filepath_Clean ?p \<noteq> filepath_Clean cloneRoot" using rel(1,2) Rel_same by auto
  obtain cs bs ts where "clean_comps cloneRoot = cs @ bs" and c: "clean_comps ?p = cs @ ts" "bs \<noteq> [] \<or> ts \<noteq> []"
      and "bs \<noteq> [] \<and> ts \<noteq> [] \<longrightarrow> hd bs \<noteq> hd ts"
      and e: "filepath_Rel cloneRoot ?p = Some (join ''/'' (replicate (length bs) ''..'' @ ts))"
    by (rule Rel_rooted [OF assms(2) rp ne])
  have q: "rel = join ''/'' (replicate (length bs) ''..'' @ ts)" using rel(1) e by simp
  have "bs = []"
  proof (rule ccontr)
    assume "bs \<noteq> []"
    then obtain n where "length bs = Suc n" by (cases bs) auto
    then have "has_prefix rel ''..''" using q by (cases "replicate n ''..'' @ ts") (auto simp: has_prefix_iff)
    then show False using rel(3) by simp
  qed
  then have "rel = join ''/'' ts" "ts \<noteq> []" using q c(2) by auto
  moreover have "\<forall>t\<in>set ts. plain_comp t" using clean_comps_plain [OF rp] c(1) by simp
  ultimately show ?thesis using copy_file_Join [OF assms(3,4)] rel(4) by simp
qed

section \<open>The mapping\<close>

text \<open>What every operation keeps: the values are files of the copy.\<close>

definition maps_inside :: "string \<Rightarrow> url_maps \<Rightarrow> bool" where
  "maps_inside localRoot m \<longleftrightarrow> (\<forall>u lp. fst m u = Some lp \<longrightarrow> copy_file localRoot lp)"

lemma addURL_values: "addURL u lp m v = Some x \<Longrightarrow> x = lp \<or> m v = Some x"
  by (auto simp: addURL_def Let_def split: if_splits option.splits)

lemma maps_inside_load:
  assumes "maps_inside localRoot m" "\<And>p. toLocal p = [] \<or> copy_file localRoot (toLocal p)"
  shows "maps_inside localRoot (loadFile toLocal es m)"
proof -
  have "maps_inside localRoot (fold (load_entry toLocal) xs m)" if "maps_inside localRoot m" for xs m
    using that
  proof (induction xs arbitrary: m)
    case (Cons e xs)
    have "maps_inside localRoot (load_entry toLocal e m)"
      using Cons.prems assms(2) [of "snd e"] addURL_values by (fastforce simp: maps_inside_def load_entry_def Let_def)
    then show ?case using Cons.IH by simp
  qed simp
  then show ?thesis using assms(1) by (simp add: loadFile_def split: option.split)
qed

lemma buildMapping_inside:
  assumes "has_prefix cwd ''/''" "has_prefix cloneRoot ''/''" "has_prefix localRoot ''/''" "filepath_Clean localRoot \<noteq> ''/''"
  shows "maps_inside localRoot (buildMapping cwd cloneRoot localRoot mapping index files)"
proof -
  have t: "remapPath cwd cloneRoot localRoot p = [] \<or> copy_file localRoot (remapPath cwd cloneRoot localRoot p)" for p
    using remapPathOK_inside [OF assms] by (simp add: remapPath_def split: option.split)
  have s: "maps_inside localRoot (scan_file cwd cloneRoot localRoot p m)" if "maps_inside localRoot m" for p m
    using that remapPathOK_inside [OF assms] addURL_values
    by (fastforce simp: maps_inside_def scan_file_def Let_def split: option.split)
  have "maps_inside localRoot (fold (scan_file cwd cloneRoot localRoot) files m)" if "maps_inside localRoot m" for m
    using that s by (induction files arbitrary: m) auto
  moreover have "maps_inside localRoot (Map.empty, Map.empty)" by (simp add: maps_inside_def)
  ultimately show ?thesis unfolding buildMapping_def using maps_inside_load t by metis
qed

section \<open>Names of saved files\<close>

lemma split_byte_append_tail:
  "c \<notin> set t \<Longrightarrow> split_byte c (s @ t) = butlast (split_byte c s) @ [last (split_byte c s) @ t]"
proof (induction s)
  case Nil
  then show ?case by (simp add: split_byte_notin)
next
  case (Cons x s)
  show ?case
  proof (cases "x = c")
    case False
    obtain p ps where "split_byte c s = p # ps" by (cases "split_byte c s") auto
    then show ?thesis using Cons False by (cases ps) auto
  qed (use Cons in simp)
qed

lemma split_byte_infix: "p \<in> set (split_byte c s) \<Longrightarrow> contains s p"
proof -
  assume "p \<in> set (split_byte c s)"
  then obtain xs ys where "split_byte c s = xs @ p # ys" by (meson in_set_conv_decomp)
  then have "s = join [c] (xs @ p # ys)" by (metis join_split_byte)
  then obtain a b where "s = a @ p @ b"
    by (cases "xs = []"; cases "ys = []") (auto simp: join_append join_Cons intro: that [of "[]" "[]"]
        that [of "[]" "c # join [c] ys"] that [of "join [c] xs @ [c]" "[]"] that [of "join [c] xs @ [c]" "c # join [c] ys"])
  then show ?thesis unfolding contains_iff by blast
qed

lemma contains_trans: "contains s p \<Longrightarrow> contains p q \<Longrightarrow> contains s q"
  unfolding contains_iff by (metis append.assoc)

lemma Ext_no_slash: "CHR ''/'' \<notin> set (filepath_Ext p)"
proof -
  let ?b = "case last_index_byte p CHR ''/'' of Some i \<Rightarrow> drop (i + 1) p | None \<Rightarrow> p"
  have "CHR ''/'' \<notin> set ?b"
    using last_index_byte_Some [of p "CHR ''/''"] last_index_byte_None [of p "CHR ''/''"] by (auto split: option.split)
  then have "CHR ''/'' \<notin> set (drop i ?b)" for i using in_set_dropD by fast
  then show ?thesis unfolding filepath_Ext_def Let_def by (simp split: option.split)
qed

text \<open>No component of a name is the parent directory, whatever the query adds to it.\<close>

lemma name_no_up:
  assumes "\<not> contains d ''..''"
  shows "''..'' \<notin> set (split_byte CHR ''/'' d)"
    "CHR ''/'' \<notin> set q \<Longrightarrow> ''..'' \<notin> set (split_byte CHR ''/'' (trim_suffix d (filepath_Ext d) @ ''_'' @ q @ filepath_Ext d))"
proof -
  have no: "''..'' \<notin> set (split_byte CHR ''/'' b)" if "contains d b" for b
    using split_byte_infix [of "''..''" "CHR ''/''" b] contains_trans [OF that] assms by blast
  show "''..'' \<notin> set (split_byte CHR ''/'' d)" by (rule no) (simp add: contains_sublist)
  assume q: "CHR ''/'' \<notin> set q"
  let ?b = "trim_suffix d (filepath_Ext d)" and ?t = "''_'' @ q @ filepath_Ext d"
  have "contains d ?b" by (auto simp: trim_suffix_def contains_sublist intro: prefix_imp_sublist take_is_prefix)
  then have b: "''..'' \<notin> set (split_byte CHR ''/'' ?b)" by (rule no)
  have "split_byte CHR ''/'' (?b @ ?t) = butlast (split_byte CHR ''/'' ?b) @ [last (split_byte CHR ''/'' ?b) @ ?t]"
    by (rule split_byte_append_tail) (use q Ext_no_slash in auto)
  moreover have "last (split_byte CHR ''/'' ?b) @ ?t \<noteq> ''..''"
  proof
    assume "last (split_byte CHR ''/'' ?b) @ ?t = ''..''"
    then have "CHR ''_'' \<in> set ''..''" by (metis append_is_Nil_conv in_set_conv_decomp append_Cons append_Nil)
    then show False by simp
  qed
  ultimately show "''..'' \<notin> set (split_byte CHR ''/'' (?b @ ?t))" using b by (auto dest: in_set_butlastD)
qed

lemma foldl_clean_no_up:
  "''..'' \<notin> set cs \<Longrightarrow> foldl (clean_step r) acc cs = acc @ filter (\<lambda>c. c \<noteq> [] \<and> c \<noteq> ''.'') cs"
  by (induction cs arbitrary: acc) (auto simp: clean_step_def)

text \<open>A host and a name without parent directories make a file of the copy.\<close>

lemma copy_file_name:
  assumes "has_prefix root ''/''" "filepath_Clean root \<noteq> ''/''" "plain_comp h" "''..'' \<notin> set (split_byte CHR ''/'' name)"
  shows "copy_file root (filepath_Join [root, h, name])"
proof -
  let ?ds = "h # filter (\<lambda>c. c \<noteq> [] \<and> c \<noteq> ''.'') (split_byte CHR ''/'' name)"
  have sp: "split_byte CHR ''/'' (join ''/'' [h, name]) = h # split_byte CHR ''/'' name"
    using split_byte_append_sep [OF plain_no_slash [OF assms(3)], of name] by simp
  have up: "''..'' \<notin> set (h # split_byte CHR ''/'' name)" using assms(3,4) by (auto simp: plain_comp_def)
  have f: "filter (\<lambda>c. c \<noteq> [] \<and> c \<noteq> ''.'') (h # split_byte CHR ''/'' name) = ?ds" using assms(3) by (simp add: plain_comp_def)
  have "foldl (clean_step (has_prefix root ''/'')) (clean_comps root) (split_byte CHR ''/'' (join ''/'' [h, name])) = clean_comps root @ ?ds"
    unfolding sp foldl_clean_no_up [OF up] f ..
  from Join_below [OF root_comps_ne [OF assms(1,2)] assms(2) _ this]
  have "path_in_dir root (filepath_Join [root, h, name])" by simp
  moreover have "root \<noteq> []" using assms(1) by auto
  ultimately show ?thesis using rooted_Join [OF assms(1)] filepath_Clean_Join by (simp add: copy_file_def)
qed

section \<open>The storage layer's rule\<close>

text \<open>The five replacements of the storage layer, done at once by the replacer of map.go.\<close>

lemma safe_query:
  "replace_all (replace_all (replace_all (replace_all (replace_all q ''/'' ''_'') [CHR 0x5C] ''_'') '':'' ''_'') ''?'' ''_'') ''&'' ''_''
     = map (\<lambda>c. if c \<in> set ''/:?&'' \<or> c = CHR 0x5C then CHR ''_'' else c) q"
  unfolding replace_all_byte map_map by (rule map_cong) auto

lemma safe_query_no_slash: "CHR ''/'' \<notin> set (map (\<lambda>c. if c \<in> set ''/:?&'' \<or> c = CHR 0x5C then CHR ''_'' else c) q)"
  by auto

text \<open>What \<open>pathForURL\<close> returns is the name the storage layer uses, and has no parent directories.\<close>

lemma pathForURL_name:
  assumes "pathForURL root raw \<noteq> []"
  obtains u where "url_parse raw = Some u" "u_scheme u = ''http'' \<or> u_scheme u = ''https''" "hostname u \<noteq> []"
    "pathForURL root raw = filepath_Join [root, hostname u, storage_name u]" "''..'' \<notin> set (split_byte CHR ''/'' (storage_name u))"
proof -
  obtain u where u: "url_parse raw = Some u" "u_scheme u = ''http'' \<or> u_scheme u = ''https''" "hostname u \<noteq> []"
    using assms by (auto simp: pathForURL_def split: option.splits if_splits)
  define d4 where "d4 =
    (let cleanPath = (if u_path u = [] \<or> u_path u = ''/'' then ''/index.html'' else u_path u);
         d1 = (case path_unescape cleanPath of Some d \<Rightarrow> d | None \<Rightarrow> cleanPath);
         d2 = (if has_suffix d1 ''/'' then d1 @ ''index.html'' else d1);
         d3 = trim_prefix d2 ''/'';
         baseName = (case last_index_byte d3 CHR ''/'' of Some i \<Rightarrow> drop (i + 1) d3 | None \<Rightarrow> d3)
     in (if \<not> contains baseName ''.'' then d3 @ ''/index.html'' else d3))"
  define q where "q = map (\<lambda>c. if c \<in> set ''/:?&'' \<or> c = CHR 0x5C then CHR ''_'' else c) (u_rawquery u)"
  define d5 where "d5 = (if u_rawquery u \<noteq> [] then trim_suffix d4 (filepath_Ext d4) @ ''_'' @ q @ filepath_Ext d4 else d4)"
  have p: "pathForURL root raw = (if contains d4 ''..'' then [] else filepath_Join [root, hostname u, d5])"
    using u unfolding pathForURL_def d4_def d5_def q_def Let_def by auto
  then have nc: "\<not> contains d4 ''..''" using assms by (auto split: if_splits)
  have "storage_name u = (let d = (if contains d4 ''..'' then ''_safe_path'' else d4)
      in if u_rawquery u \<noteq> [] then trim_suffix d (filepath_Ext d) @ ''_'' @ q @ filepath_Ext d else d)"
    unfolding storage_name_def d4_def q_def safe_query [symmetric] Let_def ..
  then have n: "storage_name u = d5" using nc by (simp add: d5_def)
  have "CHR ''/'' \<notin> set q" unfolding q_def by (rule safe_query_no_slash)
  then have "''..'' \<notin> set (split_byte CHR ''/'' d5)" using name_no_up [OF nc] by (simp add: d5_def)
  then show thesis using that u p nc n by simp
qed

lemma hostname_plain: "url_parse raw = Some u \<Longrightarrow> hostname u \<notin> {[], ''.'', ''..''} \<Longrightarrow> plain_comp (hostname u)"
  using hostname_no_slash by (auto simp: plain_comp_def)

lemma pathForURL_inside:
  assumes "has_prefix root ''/''" "filepath_Clean root \<noteq> ''/''" "pathForURL root raw \<noteq> []"
    "\<And>u. url_parse raw = Some u \<Longrightarrow> hostname u \<notin> {''.'', ''..''}"
  shows "copy_file root (pathForURL root raw)"
  using pathForURL_name [OF assms(3)] assms(4) copy_file_name [OF assms(1,2) hostname_plain] by (metis insertE singletonD)

section \<open>Properties\<close>

text \<open>Where the offline copy derives the file of a URL itself, it derives the file the storage layer saved
  it under: for every http URL whose host is not a dot directory and whose name is not refused, the two
  functions agree.\<close>

theorem pathForURL_mirrors_storage:
  assumes "has_prefix root ''/''" "filepath_Clean root \<noteq> ''/''" "pathForURL root raw \<noteq> []"
    "\<And>u. url_parse raw = Some u \<Longrightarrow> hostname u \<notin> {''.'', ''..''}"
  shows "pathForURL root raw = PathForURL (NewFilesystem root) raw"
proof -
  obtain u where u: "url_parse raw = Some u" "hostname u \<noteq> []" "pathForURL root raw = filepath_Join [root, hostname u, storage_name u]"
    by (rule pathForURL_name [OF assms(3)])
  have "path_in_dir root (filepath_Join [root, hostname u, storage_name u])"
    using pathForURL_inside [OF assms] u(3) by (simp add: copy_file_def)
  then show ?thesis using u by (simp add: PathForURL_def NewFilesystem_def storage_host_def Let_def)
qed


section \<open>From the saved page back to its URL\<close>

text \<open>The URL of a page with plain segments, and the segments of the file it is saved in.\<close>

definition page_url :: "string \<Rightarrow> string list \<Rightarrow> string" where
  "page_url h segs = url_String (https_url h (''/'' @ join ''/'' segs))"

definition file_segs :: "string list \<Rightarrow> string list" where
  "file_segs segs = (if contains (last segs) ''.'' then segs else segs @ [''index.html''])"

definition good_page :: "string \<Rightarrow> string list \<Rightarrow> bool" where
  "good_page h segs \<longleftrightarrow> plain_host h \<and> plain_comp h \<and> \<not> contains h ''..'' \<and> segs \<noteq> [] \<and>
     (\<forall>s\<in>set segs. plain_comp s \<and> CHR ''%'' \<notin> set s \<and> \<not> contains s ''..'')"

lemma contains_dots_join: "contains (join ''/'' xs) ''..'' \<Longrightarrow> \<exists>x\<in>set xs. contains x ''..''"
proof (induction xs)
  case (Cons x xs)
  show ?case
  proof (cases "xs = []")
    case False
    then obtain a b where ab: "x @ CHR ''/'' # join ''/'' xs = a @ ''..'' @ b"
      using Cons.prems by (auto simp: join_Cons contains_iff)
    have "contains x ''..'' \<or> contains (join ''/'' xs) ''..''"
      using ab unfolding contains_iff
      by (auto simp: append_eq_append_conv2 Cons_eq_append_conv append_eq_Cons_conv)
    then show ?thesis using Cons.IH by auto
  qed (use Cons.prems in simp)
qed (simp add: contains_def)

lemma file_segs_plain:
  assumes "good_page h segs"
  shows "file_segs segs \<noteq> []" "\<forall>s\<in>set (h # file_segs segs). plain_comp s" "\<not> contains (join ''/'' (file_segs segs)) ''..''"
proof -
  have i: "plain_comp ''index.html''" "\<not> contains ''index.html'' ''..''" by (simp_all add: plain_comp_def contains_def)
  show "file_segs segs \<noteq> []" using assms by (simp add: file_segs_def good_page_def)
  show "\<forall>s\<in>set (h # file_segs segs). plain_comp s" using assms i by (auto simp: file_segs_def good_page_def)
  show "\<not> contains (join ''/'' (file_segs segs)) ''..''"
    using contains_dots_join [of "file_segs segs"] assms i by (auto simp: file_segs_def good_page_def split: if_splits)
qed

lemma last_comp:
  assumes "xs \<noteq> []" "\<And>x. x \<in> set xs \<Longrightarrow> CHR ''/'' \<notin> set x"
  shows "(case last_index_byte (join ''/'' xs) CHR ''/'' of Some i \<Rightarrow> drop (i + 1) (join ''/'' xs) | None \<Rightarrow> join ''/'' xs) = last xs"
proof -
  have tail: "last_index_byte (a @ CHR ''/'' # t) CHR ''/'' = Some (length a)" if "CHR ''/'' \<notin> set t" for a t
  proof (induction a)
    case Nil
    then show ?case using that last_index_byte_None [of t "CHR ''/''"] by simp
  qed simp
  obtain ys x where xs: "xs = ys @ [x]" using assms(1) by (cases xs rule: rev_cases) auto
  have x: "CHR ''/'' \<notin> set x" using assms(2) xs by simp
  show ?thesis
  proof (cases "ys = []")
    case True
    then show ?thesis using xs x last_index_byte_None [of x "CHR ''/''"] by simp
  next
    case False
    then show ?thesis using xs tail [OF x, of "join ''/'' ys"] by (simp add: join_append)
  qed
qed

lemma path_unescape_plain: "CHR ''%'' \<notin> set s \<Longrightarrow> path_unescape s = Some s"
  unfolding path_unescape_def by (induction s) auto

lemma hostname_plain_host: "plain_host h \<Longrightarrow> hostname (https_url h p) = h"
proof -
  assume h: "plain_host h"
  then have "CHR '':'' \<notin> set h" "CHR ''['' \<notin> set h" using plain_hostD [OF h] by fastforce+
  then show ?thesis
    using last_index_byte_None [of h "CHR '':''"] by (auto simp: hostname_def split_host_port_def https_url_def has_prefix_iff)
qed

lemma https_url_simps [simp]: "u_path (https_url h p) = p" "u_rawquery (https_url h p) = []" "u_scheme (https_url h p) = ''https''"
  by (simp_all add: https_url_def empty_url_def)

lemma page_parses:
  assumes "good_page h segs"
  shows "page_url h segs = ''https://'' @ h @ ''/'' @ escape EncodePath (join ''/'' segs)"
    "url_parse (page_url h segs) = Some (https_url h (''/'' @ join ''/'' segs))"
  using String_https_url [of h "join ''/'' segs"] parse_https_url [of h "join ''/'' segs"] assms
  by (simp_all add: good_page_def page_url_def)

lemma page_name:
  assumes "good_page h segs"
  shows "storage_name (https_url h (''/'' @ join ''/'' segs)) = join ''/'' (file_segs segs)"
proof -
  let ?p = "join ''/'' segs"
  have g: "segs \<noteq> []" "\<And>s. s \<in> set segs \<Longrightarrow> plain_comp s \<and> CHR ''%'' \<notin> set s" using assms by (auto simp: good_page_def)
  have last: "last segs \<noteq> []" "CHR ''/'' \<notin> set (last segs)" using g(2) [OF last_in_set [OF g(1)]] by (auto simp: plain_comp_def)
  have pl: "\<exists>a. ?p = a @ last segs"
    using g(1) by (cases segs rule: rev_cases; cases "butlast segs = []") (auto simp: join_append)
  have "last (last segs) \<noteq> CHR ''/''" using last last_in_set by metis
  then have ne: "?p \<noteq> []" and end': "last ?p \<noteq> CHR ''/''" using last(1) pl by auto
  have "set ?p \<subseteq> {CHR ''/''} \<union> (\<Union>x\<in>set segs. set x)" by (rule set_join_byte)
  then have "CHR ''%'' \<notin> set ?p" using g(2) by auto
  then have un: "path_unescape (CHR ''/'' # ?p) = Some (CHR ''/'' # ?p)" by (intro path_unescape_plain) simp
  have lc: "(case last_index_byte ?p CHR ''/'' of Some i \<Rightarrow> drop (i + 1) ?p | None \<Rightarrow> ?p) = last segs"
    by (rule last_comp [OF g(1)]) (use g(2) plain_no_slash in blast)
  have nosuf: "\<not> has_suffix (CHR ''/'' # ?p) ''/''" using ne end' by (simp add: has_suffix_single)
  have f: "join ''/'' (file_segs segs) = (if \<not> contains (last segs) ''.'' then ?p @ ''/index.html'' else ?p)"
    using g(1) by (simp add: file_segs_def join_append)
  have nc: "\<not> contains (join ''/'' (file_segs segs)) ''..''" by (rule file_segs_plain(3) [OF assms])
  show ?thesis
    unfolding storage_name_def Let_def https_url_simps
    using ne un nosuf lc f nc by (cases "contains (last segs) ''.''") (simp_all add: trim_prefix_def cong: option.case_cong)
qed

lemma Join_plain:
  assumes "has_prefix root ''/''" "ds \<noteq> []" "\<forall>d\<in>set ds. plain_comp d"
  shows "filepath_Join [root, join ''/'' ds] = path_of True (clean_comps root @ ds)"
    "filepath_Rel root (filepath_Join [root, join ''/'' ds]) = Some (join ''/'' ds)"
proof -
  have ne: "root \<noteq> []" using assms(1) by auto
  have "split_byte CHR ''/'' (join ''/'' ds) = ds"
    by (rule split_join_plain) (use assms plain_no_slash in auto)
  then have "clean_comps (root @ ''/'' @ join ''/'' ds) = clean_comps root @ ds"
    using clean_comps_append_slash [OF ne, of "join ''/'' ds"] assms(1) foldl_clean_plain [OF assms(3)] by simp
  moreover have "has_prefix (root @ ''/'' @ join ''/'' ds) ''/''" using assms(1) by (auto simp: has_prefix_iff)
  ultimately show j: "filepath_Join [root, join ''/'' ds] = path_of True (clean_comps root @ ds)"
    using ne by (simp add: filepath_Join_Cons Clean_rooted)
  have "path_of True (clean_comps root @ ds) = filepath_Clean root @ (if clean_comps root = [] then [] else ''/'') @ join ''/'' ds"
    using assms by (cases "clean_comps root = []") (simp_all add: Clean_rooted path_of_def join_append)
  then show "filepath_Rel root (filepath_Join [root, join ''/'' ds]) = Some (join ''/'' ds)"
    using Rel_below [OF assms] j by simp
qed

lemma not_up: "plain_comp h \<Longrightarrow> \<not> has_prefix h ''..'' \<Longrightarrow> h @ CHR ''/'' # x \<noteq> ''.'' \<and> \<not> has_prefix (h @ CHR ''/'' # x) ''..''"
  by (cases h; cases "tl h") (auto simp: plain_comp_def)

lemma escape_index: "escape EncodePath (p @ ''/index.html'') = escape EncodePath p @ ''/index.html''"
proof -
  have "escape EncodePath ''/index.html'' = ''/index.html''" by code_simp
  then show ?thesis by (simp add: escape_def)
qed

lemma addURL_index:
  assumes "lp \<noteq> []" "u \<noteq> []" "v = u \<or> v \<noteq> [] \<and> u = v @ ''/index.html''"
  shows "addURL u lp m v = Some lp"
  using assms(3)
proof
  assume "v = u"
  then show ?thesis using assms(1,2) by (simp add: addURL_def Let_def split: option.split)
next
  assume v: "v \<noteq> [] \<and> u = v @ ''/index.html''"
  then have "has_suffix u ''/index.html''" "trim_suffix u ''/index.html'' = v" by (simp_all only: has_suffix_append trim_suffix_snoc)
  then show ?thesis using assms(1,2) v unfolding addURL_def Let_def by (simp only: if_True if_False not_False_eq_True fun_upd_same simp_thms)
qed

text \<open>A saved page is found again. A page with plain segments is saved in some file of the clone; the URL
  that the reverse scan makes of that file is the page's own (or its \<open>index.html\<close> form), the page's URL
  is then in the mapping, and a link to it from any page of the copy leads to the copy of the file.\<close>

theorem saved_page_is_found:
  assumes page: "good_page h segs"
    and roots: "has_prefix cwd ''/''" "has_prefix cloneRoot ''/''" "filepath_Clean cloneRoot \<noteq> ''/''"
      "has_prefix localRoot ''/''" "filepath_Clean localRoot \<noteq> ''/''" "has_prefix dir ''/''"
    and r: "r = NewRewriter (buildMapping cwd cloneRoot localRoot None None [PathForURL (NewFilesystem cloneRoot) (page_url h segs)]) localRoot"
  shows "urlFromLocalPath cloneRoot (PathForURL (NewFilesystem cloneRoot) (page_url h segs)) = page_url h (file_segs segs) \<and>
         (\<exists>rel. localize isFile r (page_url h segs) pageURL dir = Some rel \<and>
            filepath_Join [dir, rel] = filepath_Join [localRoot, join ''/'' (h # file_segs segs)])"
proof -
  let ?fs = "file_segs segs" and ?url = "page_url h segs"
  let ?file = "PathForURL (NewFilesystem cloneRoot) ?url"
  have h: "plain_host h" "plain_comp h" using page by (auto simp: good_page_def)
  note fp = file_segs_plain [OF page]
  have jc: "join ''/'' (h # ?fs) = h @ ''/'' @ join ''/'' ?fs" using fp(1) by (simp add: join_Cons)
  have name: "filepath_Join [cloneRoot, h, join ''/'' ?fs] = filepath_Join [cloneRoot, join ''/'' (h # ?fs)]"
    using roots(2) jc by (cases cloneRoot) (simp_all add: filepath_Join_Cons)
  note jp = Join_plain [OF roots(2) _ fp(2)]
  have inside: "copy_file cloneRoot (filepath_Join [cloneRoot, join ''/'' (h # ?fs)])"
    by (rule copy_file_Join [OF roots(2,3) _ fp(2)]) simp
  have hn: "storage_host (https_url h (''/'' @ join ''/'' segs)) = h"
    using h by (simp add: storage_host_def hostname_plain_host plain_host_def)
  have fl: "?file = filepath_Join [cloneRoot, join ''/'' (h # ?fs)]"
    using inside hn by (simp add: PathForURL_def NewFilesystem_def page_parses(2) [OF page] page_name [OF page, unfolded append_Cons append_Nil] name [unfolded append_Cons append_Nil] copy_file_def Let_def)
  have rel: "filepath_Rel cloneRoot ?file = Some (join ''/'' (h # ?fs))" using jp(2) fl by simp
  have sp: "split_byte CHR ''/'' (join ''/'' (h # ?fs)) = h # ?fs"
    by (rule split_join_plain) (use fp(2) plain_no_slash in auto)
  have jne: "join ''/'' ?fs \<noteq> []" using fp(1,2) by (cases ?fs; cases "tl ?fs") (auto simp: plain_comp_def)
  have u: "urlFromLocalPath cloneRoot ?file = page_url h ?fs"
    using rel sp jne by (simp add: urlFromLocalPath_def page_url_def)
  let ?lp = "filepath_Join [localRoot, join ''/'' (h # ?fs)]"
  have rfile: "has_prefix ?file ''/''" "filepath_Clean ?file = ?file" using inside fl by (auto simp: copy_file_def)
  have lp: "copy_file localRoot ?lp" by (rule copy_file_Join [OF roots(4,5) _ fp(2)]) simp
  then have lpne: "?lp \<noteq> []" by (auto simp: copy_file_def)
  have "\<not> has_prefix h ''..''" using page by (auto simp: good_page_def contains_iff has_prefix_iff)
  note up = not_up [OF h(2) this, of "join ''/'' ?fs"]
  have ok: "remapPathOK cwd cloneRoot localRoot ?file = Some ?lp"
    using rel rfile jc up by (simp add: remapPathOK_def filepath_Abs_def)
  have ust: "page_url h xs = ''https://'' @ h @ ''/'' @ escape EncodePath (join ''/'' xs)" for xs
    using String_https_url [OF h(1)] by (simp add: page_url_def)
  then have une: "page_url h ?fs \<noteq> []" by simp
  have "addURL (page_url h ?fs) ?lp Map.empty ?url = Some ?lp"
    by (rule addURL_index [OF lpne une]) (use page in \<open>auto simp: ust file_segs_def join_append escape_index good_page_def\<close>)
  then have maps: "rw_urlToLocal r ?url = Some ?lp"
    using ok u une by (simp add: r NewRewriter_def buildMapping_def loadFile_def scan_file_def Let_def)
  have "localize_abs ?url pageURL = ?url"
    using page_parses(1) [OF page] by (simp add: localize_abs_def has_http_def)
  moreover have "?url \<noteq> []" using page_parses(1) [OF page] by simp
  ultimately show ?thesis
    using u maps Join_relPath [OF roots(6), of ?lp] lp by (simp add: localize_def mapped_file_def copy_file_def)
qed

text \<open>A file name is taken for a host: a reference to a sibling, such as \<open>style.css\<close>, becomes the URL
  \<open>https://style.css\<close> whatever the page is.\<close>

lemma sibling_is_taken_for_host:
  assumes "list_all (\<lambda>c. is_alnum c \<or> c = CHR ''.'' \<or> c = CHR ''-'') ref" "contains ref ''.''" "is_alnum (hd ref)"
  shows "localize_abs ref pageURL = ''https://'' @ ref"
proof -
  have c: "c \<in> set ref \<Longrightarrow> is_alnum c \<or> c = CHR ''.'' \<or> c = CHR ''-''" for c using assms(1) by (auto simp: list_all_iff)
  have marks: "\<not> is_alnum x" if "x \<in> set ''/?#: ''" for x
  proof -
    have "\<forall>x \<in> set ''/?#: ''. \<not> is_alnum x" by code_simp
    then show ?thesis using that by blast
  qed
  then have no: "CHR ''/'' \<notin> set ref" "CHR ''?'' \<notin> set ref" "CHR ''#'' \<notin> set ref" "CHR '':'' \<notin> set ref" "CHR '' '' \<notin> set ref"
    using c marks by fastforce+
  have ne: "ref \<noteq> []" using assms(2) by (auto simp: contains_def)
  have sp: "\<not> is_space_byte x" if "x \<in> set ref" for x
    using c [OF that] by (auto simp: is_space_byte_def is_alnum_def is_lower_def is_upper_def is_digit_def)
  have trim: "trim_space ref = ref"
    unfolding trim_space_def using ne sp by (intro trim_by_id) simp
  have pre: "\<not> has_prefix ref p" if "set p \<inter> set ''/#:'' \<noteq> {}" for p
    using that no by (auto simp: has_prefix_iff)
  have "\<not> list_ex (has_prefix ref) not_host_prefixes" "\<not> has_http ref"
    by (simp_all add: not_host_prefixes_def has_http_def pre del: has_prefix.simps)
  moreover have "first_segment ref = ref"
    using no by (simp add: first_segment_def index_byte_None [THEN iffD2])
  moreover have "list_all (\<lambda>c. is_alnum c \<or> c \<in> set ''.-:'') ref" using assms(1) by (auto simp: list_all_iff)
  ultimately have "isProtocolRelativeURL ref"
    using ne trim assms(2) no(5) by (simp add: isProtocolRelativeURL_def Let_def contains_single)
  then show ?thesis using \<open>\<not> has_http ref\<close> by (simp add: localize_abs_def)
qed

text \<open>The data URLs of a \<open>srcset\<close> hold commas, so they are cut, and written back with a space after the comma.\<close>

lemma srcset_breaks_data_urls:
  "rewriteSrcset (\<lambda>p. False) \<lparr>rw_urlToLocal = [''https://h/a.png'' \<mapsto> ''/l/h/a.png''], rw_pageURLs = Map.empty, rw_localRoot = ''/l''\<rparr>
     ''data:image/png;base64,iVBO 1x,https://h/a.png 2x'' [] ''/l/h'' = Some ''data:image/png;base64, iVBO 1x, a.png 2x''"
  by code_simp

section \<open>Witnesses\<close>

lemma https_h_a: "url_parse ''https://h.io/a'' = Some (https_url ''h.io'' ''/a'')"
  by code_simp

lemma hostname_https_h: "hostname (https_url ''h.io'' ''/a'') = ''h.io''"
  by code_simp

theorem pathForURL_mirrors_storage_witness:
  "pathForURL ''/l'' ''https://h.io/a'' = PathForURL (NewFilesystem ''/l'') ''https://h.io/a''"
proof (rule pathForURL_mirrors_storage)
  show "filepath_Clean ''/l'' \<noteq> ''/''" "pathForURL ''/l'' ''https://h.io/a'' \<noteq> []" by code_simp+
  show "hostname u \<notin> {''.'', ''..''}" if "url_parse ''https://h.io/a'' = Some u" for u
    using that https_h_a hostname_https_h by auto
qed simp

definition demo_rewriter :: rewriter where
  "demo_rewriter = NewRewriter (buildMapping ''/w'' ''/c'' ''/l'' (Some [(''https://h.io/a'', ''/c/h.io/a/index.html'')]) None []) ''/l''"


theorem saved_page_is_found_witness:
  "urlFromLocalPath ''/c'' (PathForURL (NewFilesystem ''/c'') (page_url ''h.io'' [''a b''])) = page_url ''h.io'' [''a b'', ''index.html'']"
proof -
  have g: "good_page ''h.io'' [''a b'']" by code_simp
  have c: "filepath_Clean ''/c'' \<noteq> ''/''" "filepath_Clean ''/l'' \<noteq> ''/''" by code_simp+
  have "file_segs [''a b''] = [''a b'', ''index.html'']" by code_simp
  then show ?thesis
    using saved_page_is_found [OF g, of "''/w''" "''/c''" "''/l''" "''/l''"] c by simp
qed

end
