(* ===== verification/Dedup.thy ===== *)
theory Dedup
  imports LocalLinks "HOL-Library.Multiset" "HOL-Library.AList" "HOL-Library.Char_ord" "HOL-Library.List_Lexorder"
    "HOL-Library.Code_Target_Nat"
begin

text \<open>
  The deduplicated export, \<open>internal/localize\<close>: canonical.go, copy.go and dedup.go. Pages are grouped by
  the key of the URL their file stands for, one page of each group is kept. The groups are an
  association list in the order of their first page; Go iterates over its map in any order, which
  changes nothing here, as no two groups share a file. A nil dereference is the \<open>Panic\<close> of an outcome.
\<close>

section \<open>canonical.go\<close>

definition queryDropParams :: "string list" where
  "queryDropParams =
     [''paged'', ''page'', ''replytocom'', ''add-to-cart'', ''added-to-cart'', ''remove_item'', ''download_item'', ''wc-ajax'',
      ''preview'', ''no_reply'', ''amp'', ''consumer_key'', ''nonce'', ''utm_source'', ''utm_medium'', ''utm_campaign'', ''utm_term'',
      ''utm_content'', ''gclid'', ''fbclid'', ''msclkid'', ''ref'', ''source'', ''session_id'', ''s_id'']"

definition pathDropSegmentSuffix :: "string list" where
  "pathDropSegmentSuffix = [''page'', ''paged'', ''comment-page'']"

definition noisePathPrefixes :: "string list" where
  "noisePathPrefixes =
     [''/wp-json'', ''/rest/'', ''/wp-admin'', ''/wp-login'', ''/wp-cron'', ''/wp-includes/'', ''/xmlrpc'', ''/feed'', ''/cart'',
      ''/checkout'', ''/my-account'', ''/wc-api'', ''/wc-ajax'', ''/addons'', ''/robots.txt'', ''/sitemap'', ''/wp-sitemap'',
      ''/oembed/'', ''/.well-known'', ''/feed/'']"

record canonicalizer =
  cn_preserveQueryParams :: "string set"
  cn_preservePathSegments :: "string set"

definition clean_names :: "string list \<Rightarrow> string set" where
  "clean_names ks = set (filter (\<lambda>k. k \<noteq> []) (map (to_lower \<circ> trim_space) ks))"

definition newCanonicalizer :: "string list \<Rightarrow> string list \<Rightarrow> canonicalizer" where
  "newCanonicalizer preserveQueryParams preservePathSegments =
     \<lparr>cn_preserveQueryParams = clean_names preserveQueryParams, cn_preservePathSegments = clean_names preservePathSegments\<rparr>"

text \<open>\<open>strconv.ParseInt(s, 10, 64)\<close> succeeds.\<close>

definition is_int64 :: "string \<Rightarrow> bool" where
  "is_int64 s =
     (let neg = has_prefix s ''-'';
          ds = (if neg \<or> has_prefix s ''+'' then tl s else s);
          n = foldl (\<lambda>n c. 10 * n + (byte_of c - 48)) 0 ds
      in ds \<noteq> [] \<and> list_all is_digit ds \<and> (if neg then n \<le> 2 ^ 63 else n < 2 ^ 63))"

definition drop_marker :: "string \<Rightarrow> bool" where
  "drop_marker l \<longleftrightarrow> list_ex (\<lambda>pref. l = pref \<or> has_prefix l (pref @ ''-'') \<or> has_prefix l (pref @ ''_'')) pathDropSegmentSuffix"

definition isDropSegment :: "canonicalizer \<Rightarrow> string \<Rightarrow> string \<Rightarrow> bool" where
  "isDropSegment c s prev =
     (let l = to_lower (trim_space s); pl = to_lower (trim_space prev)
      in if l = [] then False
         else if l \<in> cn_preservePathSegments c \<or> pl \<in> cn_preservePathSegments c then False
         else if l = ''page'' \<or> l = ''paged'' then True
         else if drop_marker l then True
         else if is_int64 l \<and> drop_marker pl then True
         else False)"

definition keep_param :: "canonicalizer \<Rightarrow> string \<Rightarrow> bool" where
  "keep_param c p =
     (let k = (case index_byte p CHR ''='' of Some i \<Rightarrow> take i p | None \<Rightarrow> p);
          key = (case query_unescape k of Some x \<Rightarrow> x | None \<Rightarrow> []);
          lk = to_lower key
      in if lk \<in> cn_preserveQueryParams c then True
         else if lk \<in> set queryDropParams then False
         else \<not> has_prefix lk ''utm_'')"

definition stripDropQuery :: "canonicalizer \<Rightarrow> string \<Rightarrow> string" where
  "stripDropQuery c raw =
     (if raw = [] then [] else join ''&'' (filter (keep_param c) (split_byte CHR ''&'' raw)))"

fun keep_segs :: "canonicalizer \<Rightarrow> string \<Rightarrow> string list \<Rightarrow> string list" where
  "keep_segs c prev [] = []"
| "keep_segs c prev (s # ss) = (if isDropSegment c s prev then keep_segs c s ss else s # keep_segs c s ss)"

definition canonicalKey :: "canonicalizer \<Rightarrow> string \<Rightarrow> string" where
  "canonicalKey c rawURL =
     (case url_parse rawURL of
        None \<Rightarrow> rawURL
      | Some u \<Rightarrow>
          (let segs = split_byte CHR ''/'' (trim_by (\<lambda>x. x = CHR ''/'') (u_path u))
           in url_String (u\<lparr>u_rawquery := stripDropQuery c (u_rawquery u), u_path := ''/'' @ join ''/'' (keep_segs c [] segs)\<rparr>)))"

definition isNoisePath :: "string \<Rightarrow> bool" where
  "isNoisePath rawURL =
     (case url_parse rawURL of
        None \<Rightarrow> False
      | Some u \<Rightarrow> list_ex (has_prefix (to_lower (u_path u))) noisePathPrefixes)"

text \<open>The error of \<open>url.Parse\<close> is dropped, so the URL is nil when there is one.\<close>

definition cleanWeight :: "string \<Rightarrow> nat outcome" where
  "cleanWeight rawURL =
     (case url_parse rawURL of
        None \<Rightarrow> Panic
      | Some u \<Rightarrow> Returns ((if u_rawquery u \<noteq> [] then 10 else 0) +
                            (if contains (u_path u) ''/page/'' \<or> contains (u_path u) ''/comment-page'' then 5 else 0)))"

section \<open>copy.go\<close>

definition relWithin :: "string \<Rightarrow> string \<Rightarrow> string" where
  "relWithin root p = (case filepath_Rel root p of None \<Rightarrow> p | Some r \<Rightarrow> r)"

text \<open>\<open>sortStrings\<close> moves each element to the left past the greater ones; the sorted part is held in reverse.\<close>

fun move_left :: "string \<Rightarrow> string list \<Rightarrow> string list" where
  "move_left x [] = [x]"
| "move_left x (y # ys) = (if x < y then y # move_left x ys else x # y # ys)"

definition sortStrings :: "string list \<Rightarrow> string list" where
  "sortStrings s = rev (fold move_left s [])"

section \<open>dedup.go\<close>

record doc_group =
  dg_repFile :: string
  dg_repWeight :: nat
  dg_collapsed :: "string list"

record dedup_state =
  dd_PagesTotal :: nat
  dd_PagesKept :: nat
  dd_PagesCollapsed :: nat
  dd_groups :: "(string \<times> doc_group) list"

definition new_dedup :: dedup_state where
  "new_dedup = \<lparr>dd_PagesTotal = 0, dd_PagesKept = 0, dd_PagesCollapsed = 0, dd_groups = []\<rparr>"

definition group_page :: "string \<Rightarrow> string \<Rightarrow> nat \<Rightarrow> doc_group \<Rightarrow> doc_group" where
  "group_page root p w g =
     (let g1 = g\<lparr>dg_collapsed := dg_collapsed g @ [relWithin root p]\<rparr>
      in if w < dg_repWeight g \<or> (w = dg_repWeight g \<and> relWithin root p < relWithin root (dg_repFile g))
         then g1\<lparr>dg_repFile := p, dg_repWeight := w\<rparr> else g1)"

definition dedup_page :: "canonicalizer \<Rightarrow> string \<Rightarrow> string \<Rightarrow> dedup_state \<Rightarrow> dedup_state outcome" where
  "dedup_page canon srcRoot p st =
     (if \<not> isHTMLPagePath p then Returns st
      else
        (let st1 = st\<lparr>dd_PagesTotal := dd_PagesTotal st + 1\<rparr>; u = urlFromLocalPath srcRoot p
         in if isNoisePath u then Returns (st1\<lparr>dd_PagesCollapsed := dd_PagesCollapsed st + 1\<rparr>)
            else
              (let key = canonicalKey canon u
               in outcome_bind (cleanWeight u) (\<lambda>w.
                    Returns
                      (case map_of (dd_groups st) key of
                         None \<Rightarrow> st1\<lparr>dd_groups := AList.update key \<lparr>dg_repFile = p, dg_repWeight = w, dg_collapsed = []\<rparr> (dd_groups st),
                                    dd_PagesKept := dd_PagesKept st + 1\<rparr>
                       | Some g \<Rightarrow> st1\<lparr>dd_groups := AList.update key (group_page srcRoot p w g) (dd_groups st),
                                      dd_PagesCollapsed := dd_PagesCollapsed st + 1\<rparr>)))))"

fun dedup_pages :: "canonicalizer \<Rightarrow> string \<Rightarrow> string list \<Rightarrow> dedup_state \<Rightarrow> dedup_state outcome" where
  "dedup_pages canon srcRoot [] st = Returns st"
| "dedup_pages canon srcRoot (p # ps) st = outcome_bind (dedup_page canon srcRoot p st) (dedup_pages canon srcRoot ps)"

definition dedup_manifest :: "string \<Rightarrow> dedup_state \<Rightarrow> (string \<rightharpoonup> string list)" where
  "dedup_manifest srcRoot st =
     fold (\<lambda>(k, g) m. if dg_collapsed g \<noteq> [] then m(relWithin srcRoot (dg_repFile g) \<mapsto> sortStrings (dg_collapsed g)) else m)
       (dd_groups st) Map.empty"

text \<open>
  The copying of what is kept: the destination of a file, if it has one, and the loop, which stops at
  the first error. \<open>io\<close> tells what the operating system does with a copy to a path; the result is the
  number of assets.
\<close>

definition dedup_dest :: "string \<Rightarrow> string \<Rightarrow> string set \<Rightarrow> string \<Rightarrow> string option" where
  "dedup_dest srcRoot dst kept p =
     (if isHTMLPagePath p \<and> p \<notin> kept then None
      else case filepath_Rel srcRoot p of
          None \<Rightarrow> None
        | Some rel \<Rightarrow> if rel = ''.'' \<or> has_prefix rel ''..'' then None else Some (filepath_Join [dst, rel]))"

fun copy_kept :: "(string \<Rightarrow> io_result) \<Rightarrow> string \<Rightarrow> string \<Rightarrow> string set \<Rightarrow> string list \<Rightarrow> nat \<Rightarrow> disk \<Rightarrow> nat option \<times> disk" where
  "copy_kept io srcRoot dst kept [] n d = (Some n, d)"
| "copy_kept io srcRoot dst kept (p # ps) n d =
     (case dedup_dest srcRoot dst kept p of
        None \<Rightarrow> copy_kept io srcRoot dst kept ps n d
      | Some dest \<Rightarrow>
          (case d p of
             None \<Rightarrow> (None, d)
           | Some data \<Rightarrow>
               (case write_below (io dest) dest data d of (ok, d1) \<Rightarrow>
                  if \<not> ok then (None, d1)
                  else copy_kept io srcRoot dst kept ps (if isHTMLPagePath p then n else n + 1) d1)))"

record dedup_report =
  dr_FilesTotal :: nat
  dr_PagesTotal :: nat
  dr_PagesKept :: nat
  dr_PagesCollapsed :: nat
  dr_AssetsCopied :: nat
  dr_Manifest :: "string \<rightharpoonup> string list"

text \<open>
  \<open>Dedup\<close>: the destination is removed first, then the source is walked; \<open>walk\<close> is the order in which
  its files come, of which those below the destination are gone. \<open>left\<close> is what a removal that failed
  left on the disk, \<open>mk\<close> tells whether the destination could be made, \<open>json\<close> prints the report.
\<close>

definition below_dir :: "string \<Rightarrow> string \<Rightarrow> bool" where
  "below_dir dir p \<longleftrightarrow> p = filepath_Clean dir \<or> has_prefix p (filepath_Clean dir @ ''/'')"

definition removed :: "string \<Rightarrow> disk \<Rightarrow> disk" where
  "removed dst d = (\<lambda>p. if below_dir dst p then None else d p)"

definition Dedup :: "disk option \<Rightarrow> bool \<Rightarrow> (string \<Rightarrow> io_result) \<Rightarrow> (dedup_report \<Rightarrow> string) \<Rightarrow> string list \<Rightarrow>
    string \<Rightarrow> string \<Rightarrow> string list \<Rightarrow> string list \<Rightarrow> disk \<Rightarrow> (dedup_report option \<times> disk) outcome" where
  "Dedup left mk io json walk srcRoot dst preserveQueryParams preservePathSegments d0 =
     (case left of
        Some d \<Rightarrow> Returns (None, d)
      | None \<Rightarrow>
          (let d1 = removed dst d0
           in if \<not> mk then Returns (None, d1)
              else
                let files = filter (\<lambda>p. d1 p \<noteq> None) walk;
                    canon = newCanonicalizer preserveQueryParams preservePathSegments
                in outcome_bind (dedup_pages canon srcRoot files new_dedup) (\<lambda>st.
                     let kept = set (map (dg_repFile \<circ> snd) (dd_groups st))
                     in Returns
                         (case copy_kept io srcRoot dst kept files 0 d1 of
                            (None, d2) \<Rightarrow> (None, d2)
                          | (Some n, d2) \<Rightarrow>
                              (let rep = \<lparr>dr_FilesTotal = length files, dr_PagesTotal = dd_PagesTotal st, dr_PagesKept = dd_PagesKept st,
                                          dr_PagesCollapsed = dd_PagesCollapsed st, dr_AssetsCopied = n, dr_Manifest = dedup_manifest srcRoot st\<rparr>;
                                   mf = filepath_Join [dst, ''dedupe-manifest.json'']
                               in (Some rep, snd (write_below (io mf) mf (json rep) d2)))))))"

section \<open>The sort\<close>

lemma sorted_move_left: "sorted (rev ys) \<Longrightarrow> sorted (rev (move_left x ys)) \<and> mset (move_left x ys) = add_mset x (mset ys)"
proof (induction ys)
  case (Cons y ys)
  then have s: "sorted (rev ys)" and m: "\<forall>z\<in>set ys. z \<le> y" by (auto simp: sorted_append)
  have "set (move_left x ys) = insert x (set ys)"
    using Cons.IH [OF s] by (metis set_mset_add_mset_insert set_mset_mset)
  then show ?case using Cons.IH [OF s] Cons.prems m by (auto simp: sorted_append)
qed simp

lemma sortStrings_sort: "sortStrings s = sort s"
proof -
  have "sorted (rev (fold move_left s acc)) \<and> mset (fold move_left s acc) = mset s + mset acc" if "sorted (rev acc)" for acc
    using that
  proof (induction s arbitrary: acc)
    case (Cons x s)
    then show ?case using sorted_move_left [OF Cons.prems, of x] by auto
  qed simp
  from this [of "[]"] show ?thesis
    unfolding sortStrings_def by (intro properties_for_sort [symmetric]) auto
qed

section \<open>Groups\<close>

text \<open>The pages of a document, with the weight each has.\<close>

definition page_key :: "canonicalizer \<Rightarrow> string \<Rightarrow> string \<Rightarrow> string" where
  "page_key canon root p = canonicalKey canon (urlFromLocalPath root p)"

definition real_page :: "string \<Rightarrow> string \<Rightarrow> bool" where
  "real_page root p \<longleftrightarrow> isHTMLPagePath p \<and> \<not> isNoisePath (urlFromLocalPath root p)"

definition page_weight :: "string \<Rightarrow> string \<Rightarrow> nat" where
  "page_weight root p = (case cleanWeight (urlFromLocalPath root p) of Returns w \<Rightarrow> w | Panic \<Rightarrow> 0)"

definition pages_of :: "canonicalizer \<Rightarrow> string \<Rightarrow> string list \<Rightarrow> string \<Rightarrow> string list" where
  "pages_of canon root files key = filter (\<lambda>p. real_page root p \<and> page_key canon root p = key) files"

text \<open>A page is at least as clean as another: less weight, or the same and the path not later in the order.\<close>

definition cleaner :: "string \<Rightarrow> string \<Rightarrow> string \<Rightarrow> bool" where
  "cleaner root p q \<longleftrightarrow> page_weight root p < page_weight root q \<or>
     page_weight root p = page_weight root q \<and> relWithin root p \<le> relWithin root q"

lemma cleaner_refl: "cleaner root p p"
  by (simp add: cleaner_def)

lemma cleaner_trans: "cleaner root p q \<Longrightarrow> cleaner root q r \<Longrightarrow> cleaner root p r"
  by (auto simp: cleaner_def)

lemma cleaner_linear: "cleaner root p q \<or> cleaner root q p"
  by (auto simp: cleaner_def)

text \<open>What the loop keeps after the given files: a group for each document met, held by its first page, with the rest collapsed.\<close>

definition group_ok :: "canonicalizer \<Rightarrow> string \<Rightarrow> string list \<Rightarrow> string \<Rightarrow> doc_group \<Rightarrow> bool" where
  "group_ok canon root files key g \<longleftrightarrow>
     dg_repFile g \<in> set (pages_of canon root files key) \<and> dg_repWeight g = page_weight root (dg_repFile g) \<and>
     (\<forall>p\<in>set (pages_of canon root files key). cleaner root (dg_repFile g) p) \<and>
     dg_collapsed g = map (relWithin root) (tl (pages_of canon root files key))"

definition grouped :: "canonicalizer \<Rightarrow> string \<Rightarrow> string list \<Rightarrow> (string \<times> doc_group) list \<Rightarrow> bool" where
  "grouped canon root files gs \<longleftrightarrow>
     (\<forall>key. case map_of gs key of
        None \<Rightarrow> pages_of canon root files key = []
      | Some g \<Rightarrow> group_ok canon root files key g)"

definition dedup_ok :: "canonicalizer \<Rightarrow> string \<Rightarrow> string list \<Rightarrow> dedup_state \<Rightarrow> bool" where
  "dedup_ok canon root files st \<longleftrightarrow>
     grouped canon root files (dd_groups st) \<and>
     distinct (map fst (dd_groups st)) \<and>
     dd_PagesTotal st = length (filter isHTMLPagePath files) \<and>
     dd_PagesTotal st = dd_PagesKept st + dd_PagesCollapsed st \<and>
     dd_PagesKept st = length (dd_groups st)"

lemma pages_of_snoc:
  "pages_of canon root (files @ [p]) key =
     pages_of canon root files key @ (if real_page root p \<and> page_key canon root p = key then [p] else [])"
  by (simp add: pages_of_def)

lemma length_update: "distinct (map fst al) \<Longrightarrow> length (AList.update k v al) = (if map_of al k = None then length al + 1 else length al)"
proof (induction al)
  case (Cons x al)
  obtain a b where "x = (a, b)" by fastforce
  then show ?case using Cons by auto
qed simp

lemma group_page_ok:
  assumes "group_ok canon root files key g" "real_page root p" "page_key canon root p = key"
  shows "group_ok canon root (files @ [p]) key (group_page root p (page_weight root p) g)"
proof -
  let ?ps = "pages_of canon root files key"
  have ne: "?ps \<noteq> []" using assms(1) by (auto simp: group_ok_def)
  have ps: "pages_of canon root (files @ [p]) key = ?ps @ [p]" using assms by (simp add: pages_of_snoc)
  let ?r = "dg_repFile g"
  have g: "?r \<in> set ?ps" "dg_repWeight g = page_weight root ?r" "\<forall>q\<in>set ?ps. cleaner root ?r q"
    "dg_collapsed g = map (relWithin root) (tl ?ps)" using assms(1) by (auto simp: group_ok_def)
  show ?thesis
  proof (cases "page_weight root p < page_weight root ?r \<or> (page_weight root p = page_weight root ?r \<and> relWithin root p < relWithin root ?r)")
    case True
    then have "cleaner root p ?r" by (auto simp: cleaner_def)
    then have "\<forall>q\<in>set (?ps @ [p]). cleaner root p q" using g(3) cleaner_trans cleaner_refl by auto
    then show ?thesis using True g ps ne by (simp add: group_ok_def group_page_def)
  next
    case False
    then have "cleaner root ?r p" by (auto simp: cleaner_def)
    then show ?thesis using False g ps ne by (auto simp: group_ok_def group_page_def)
  qed
qed

lemma cleanWeight_iff: "cleanWeight u \<noteq> Panic \<longleftrightarrow> url_parse u \<noteq> None"
  by (simp add: cleanWeight_def split: option.split)

lemma group_ok_other:
  "\<not> (real_page root p \<and> page_key canon root p = key) \<Longrightarrow> group_ok canon root (files @ [p]) key g \<longleftrightarrow> group_ok canon root files key g"
  by (auto simp: group_ok_def pages_of_snoc)

lemma grouped_other: "\<not> real_page root p \<Longrightarrow> grouped canon root (files @ [p]) gs \<longleftrightarrow> grouped canon root files gs"
  by (simp add: grouped_def pages_of_snoc group_ok_other cong: option.case_cong)

lemma groupedD: "grouped canon root files gs \<Longrightarrow> case map_of gs key of None \<Rightarrow> pages_of canon root files key = [] | Some g \<Rightarrow> group_ok canon root files key g"
  by (simp add: grouped_def)

lemma grouped_update:
  assumes "grouped canon root files gs" "page_key canon root p = k" "group_ok canon root (files @ [p]) k g"
  shows "grouped canon root (files @ [p]) (AList.update k g gs)"
  unfolding grouped_def
proof
  fix key
  show "case map_of (AList.update k g gs) key of None \<Rightarrow> pages_of canon root (files @ [p]) key = []
      | Some g \<Rightarrow> group_ok canon root (files @ [p]) key g"
    using groupedD [OF assms(1), of key] assms(2,3)
    by (cases "key = k") (auto simp: update_conv' pages_of_snoc group_ok_other split: option.splits)
qed

lemma dedup_page_ok:
  assumes ok: "dedup_ok canon root files st" and s: "dedup_page canon root p st = Returns st'"
  shows "dedup_ok canon root (files @ [p]) st'"
proof -
  let ?u = "urlFromLocalPath root p"
  consider (asset) "\<not> isHTMLPagePath p" "st' = st"
    | (noise) "isHTMLPagePath p" "isNoisePath ?u"
        "st' = st\<lparr>dd_PagesTotal := dd_PagesTotal st + 1, dd_PagesCollapsed := dd_PagesCollapsed st + 1\<rparr>"
    | (first) "real_page root p" "map_of (dd_groups st) (page_key canon root p) = None"
        "st' = st\<lparr>dd_PagesTotal := dd_PagesTotal st + 1, dd_PagesKept := dd_PagesKept st + 1,
           dd_groups := AList.update (page_key canon root p) \<lparr>dg_repFile = p, dg_repWeight = page_weight root p, dg_collapsed = []\<rparr> (dd_groups st)\<rparr>"
    | (more) g where "real_page root p" "map_of (dd_groups st) (page_key canon root p) = Some g"
        "st' = st\<lparr>dd_PagesTotal := dd_PagesTotal st + 1, dd_PagesCollapsed := dd_PagesCollapsed st + 1,
           dd_groups := AList.update (page_key canon root p) (group_page root p (page_weight root p) g) (dd_groups st)\<rparr>"
  proof -
    show thesis
    proof (cases "real_page root p")
      case False
      then show thesis using s asset noise by (auto simp: dedup_page_def real_page_def Let_def split: if_splits)
    next
      case True
      then obtain w where "cleanWeight ?u = Returns w"
        using s by (cases "cleanWeight ?u") (auto simp: dedup_page_def real_page_def Let_def)
      then show thesis
        using True s first more by (cases "map_of (dd_groups st) (page_key canon root p)")
          (auto simp: dedup_page_def real_page_def page_key_def page_weight_def Let_def)
    qed
  qed
  then show ?thesis
  proof cases
    case asset
    then show ?thesis using ok grouped_other [of root p] by (simp add: dedup_ok_def real_page_def)
  next
    case noise
    then show ?thesis using ok grouped_other [of root p] by (simp add: dedup_ok_def real_page_def)
  next
    case first
    let ?k = "page_key canon root p"
    have gr: "grouped canon root files (dd_groups st)" using ok by (simp add: dedup_ok_def)
    have "pages_of canon root files ?k = []" using groupedD [OF gr, of ?k] first(2) by simp
    then have "group_ok canon root (files @ [p]) ?k \<lparr>dg_repFile = p, dg_repWeight = page_weight root p, dg_collapsed = []\<rparr>"
      using first(1) by (simp add: pages_of_snoc group_ok_def cleaner_refl)
    from grouped_update [OF gr refl this] show ?thesis
      using ok first distinct_update by (fastforce simp: dedup_ok_def length_update real_page_def)
  next
    case (more g)
    let ?k = "page_key canon root p"
    have gr: "grouped canon root files (dd_groups st)" using ok by (simp add: dedup_ok_def)
    have "group_ok canon root files ?k g" using groupedD [OF gr, of ?k] more(2) by simp
    from grouped_update [OF gr refl group_page_ok [OF this more(1) refl]] show ?thesis
      using ok more distinct_update by (fastforce simp: dedup_ok_def length_update real_page_def)
  qed
qed

lemma dedup_pages_ok:
  "dedup_ok canon root pre st \<Longrightarrow> dedup_pages canon root files st = Returns st' \<Longrightarrow> dedup_ok canon root (pre @ files) st'"
proof (induction files arbitrary: pre st)
  case (Cons p ps)
  then obtain st1 where "dedup_page canon root p st = Returns st1" "dedup_pages canon root ps st1 = Returns st'"
    by (auto simp: outcome_bind_Returns_iff)
  then show ?case using Cons.IH [OF dedup_page_ok [OF Cons.prems(1)]] by simp
qed simp

lemma dedup_ok_new: "dedup_ok canon root [] new_dedup"
  by (simp add: dedup_ok_def grouped_def new_dedup_def pages_of_def)

text \<open>The loop panics exactly when the URL made of a page does not parse.\<close>

definition pages_parse :: "string \<Rightarrow> string list \<Rightarrow> bool" where
  "pages_parse root files \<longleftrightarrow> (\<forall>p\<in>set files. isHTMLPagePath p \<longrightarrow> url_parse (urlFromLocalPath root p) \<noteq> None)"

lemma dedup_pages_return: "pages_parse root files \<Longrightarrow> \<exists>st'. dedup_pages canon root files st = Returns st'"
proof (induction files arbitrary: st)
  case (Cons p ps)
  have "dedup_page canon root p st \<noteq> Panic"
    using Cons.prems cleanWeight_iff [of "urlFromLocalPath root p"]
    by (auto simp: dedup_page_def pages_parse_def Let_def outcome_bind_Panic_iff)
  then obtain st1 where "dedup_page canon root p st = Returns st1" by (cases "dedup_page canon root p st") auto
  then show ?case using Cons by (auto simp: pages_parse_def)
qed simp

lemma dedup_run:
  assumes "pages_parse root files"
  obtains st where "dedup_pages canon root files new_dedup = Returns st" "dedup_ok canon root files st"
  using dedup_pages_return [OF assms, of canon new_dedup] dedup_pages_ok [OF dedup_ok_new] by (metis append_Nil)

text \<open>The file kept for a document is the least of its pages, so it does not depend on the order of the walk.\<close>

lemma group_key: "dedup_ok canon root files st \<Longrightarrow> map_of (dd_groups st) key = Some g \<Longrightarrow> group_ok canon root files key g"
  using groupedD [of canon root files "dd_groups st" key] by (simp add: dedup_ok_def)

lemma has_group: "dedup_ok canon root files st \<Longrightarrow> pages_of canon root files key \<noteq> [] \<Longrightarrow> \<exists>g. map_of (dd_groups st) key = Some g"
  using groupedD [of canon root files "dd_groups st" key] by (auto simp: dedup_ok_def split: option.splits)

lemma rep_unique:
  assumes "dedup_ok canon root files st" "dedup_ok canon root files' st'" "set files = set files'" "inj_on (relWithin root) (set files)"
    "map_of (dd_groups st) key = Some g"
  shows "\<exists>g'. map_of (dd_groups st') key = Some g' \<and> dg_repFile g' = dg_repFile g"
proof -
  have g: "group_ok canon root files key g" by (rule group_key [OF assms(1,5)])
  have same: "set (pages_of canon root files key) = set (pages_of canon root files' key)" using assms(3) by (auto simp: pages_of_def)
  then have "pages_of canon root files' key \<noteq> []" using g by (auto simp: group_ok_def)
  then obtain g' where g': "map_of (dd_groups st') key = Some g'" using has_group [OF assms(2)] by blast
  have k: "group_ok canon root files' key g'" by (rule group_key [OF assms(2) g'])
  have r: "dg_repFile g \<in> set files" "dg_repFile g' \<in> set files" using g k assms(3) by (auto simp: group_ok_def pages_of_def)
  have "cleaner root (dg_repFile g) (dg_repFile g')" "cleaner root (dg_repFile g') (dg_repFile g)"
    using g k same by (auto simp: group_ok_def)
  then have "relWithin root (dg_repFile g) = relWithin root (dg_repFile g')" by (auto simp: cleaner_def)
  then show ?thesis using g' r assms(4) by (auto dest: inj_onD)
qed

section \<open>Properties\<close>

text \<open>C23: one page is kept of each document, the cleanest. When the URL of every page parses, the pass
  ends; every page is counted as kept or collapsed; the groups are the documents met, and the file kept
  for a document is one of its pages, with the least weight and among those the first path.\<close>

theorem Dedup_keeps_cleanest_page:
  assumes "pages_parse root files"
  shows "\<exists>st. dedup_pages canon root files new_dedup = Returns st \<and>
     dd_PagesTotal st = length (filter isHTMLPagePath files) \<and> dd_PagesTotal st = dd_PagesKept st + dd_PagesCollapsed st \<and>
     dd_PagesKept st = card {page_key canon root p |p. p \<in> set files \<and> real_page root p} \<and>
     (\<forall>p\<in>set files. real_page root p \<longrightarrow>
        (\<exists>g. map_of (dd_groups st) (page_key canon root p) = Some g \<and> dg_repFile g \<in> set files \<and>
             page_key canon root (dg_repFile g) = page_key canon root p \<and> cleaner root (dg_repFile g) p))"
proof -
  obtain st where st: "dedup_pages canon root files new_dedup = Returns st" "dedup_ok canon root files st"
    by (rule dedup_run [OF assms])
  have m: "p \<in> set files \<Longrightarrow> real_page root p \<Longrightarrow> p \<in> set (pages_of canon root files (page_key canon root p))" for p
    by (simp add: pages_of_def)
  have keys: "set (map fst (dd_groups st)) = {page_key canon root p |p. p \<in> set files \<and> real_page root p}"
  proof (intro set_eqI iffI)
    fix k assume "k \<in> set (map fst (dd_groups st))"
    then obtain g where "map_of (dd_groups st) k = Some g" by (metis list.set_map map_of_eq_None_iff not_Some_eq)
    then have "dg_repFile g \<in> set (pages_of canon root files k)" using group_key [OF st(2)] by (simp add: group_ok_def)
    then show "k \<in> {page_key canon root p |p. p \<in> set files \<and> real_page root p}" by (auto simp: pages_of_def)
  next
    fix k assume "k \<in> {page_key canon root p |p. p \<in> set files \<and> real_page root p}"
    then have "pages_of canon root files k \<noteq> []" using m by fastforce
    then obtain g where "map_of (dd_groups st) k = Some g" using has_group [OF st(2)] by blast
    then show "k \<in> set (map fst (dd_groups st))" by (metis list.set_map map_of_eq_None_iff option.distinct(1))
  qed
  have "dd_PagesKept st = card (set (map fst (dd_groups st)))"
    using st(2) distinct_card [of "map fst (dd_groups st)"] by (simp add: dedup_ok_def)
  moreover have "\<exists>g. map_of (dd_groups st) (page_key canon root p) = Some g \<and> dg_repFile g \<in> set files \<and>
      page_key canon root (dg_repFile g) = page_key canon root p \<and> cleaner root (dg_repFile g) p"
    if p: "p \<in> set files" "real_page root p" for p
  proof -
    have "pages_of canon root files (page_key canon root p) \<noteq> []" using m [OF p] by (metis empty_iff empty_set)
    then obtain g where g: "map_of (dd_groups st) (page_key canon root p) = Some g" using has_group [OF st(2)] by blast
    then show ?thesis using group_key [OF st(2) g] m [OF p] by (auto simp: group_ok_def pages_of_def)
  qed
  ultimately show ?thesis using st keys by (auto simp: dedup_ok_def)
qed

text \<open>The export does not depend on the order in which the file system gives the files, as the comment
  of the tie break says: two walks over the same files keep the same file for every document.\<close>

theorem Dedup_ignores_walk_order:
  assumes "pages_parse root files" "mset files = mset files'" "inj_on (relWithin root) (set files)"
  shows "\<exists>st st'. dedup_pages canon root files new_dedup = Returns st \<and> dedup_pages canon root files' new_dedup = Returns st' \<and>
     (\<forall>key. map_option dg_repFile (map_of (dd_groups st) key) = map_option dg_repFile (map_of (dd_groups st') key)) \<and>
     dd_PagesTotal st = dd_PagesTotal st' \<and> dd_PagesKept st = dd_PagesKept st'"
proof -
  have same: "set files = set files'" using assms(2) by (metis set_mset_mset)
  then have pp: "pages_parse root files'" using assms(1) by (simp add: pages_parse_def)
  obtain st where st: "dedup_pages canon root files new_dedup = Returns st" "dedup_ok canon root files st"
    by (rule dedup_run [OF assms(1)])
  obtain st' where st': "dedup_pages canon root files' new_dedup = Returns st'" "dedup_ok canon root files' st'"
    by (rule dedup_run [OF pp])
  have inj': "inj_on (relWithin root) (set files')" using assms(3) same by simp
  have reps: "map_option dg_repFile (map_of (dd_groups st) key) = map_option dg_repFile (map_of (dd_groups st') key)" for key
    using rep_unique [OF st(2) st'(2) same assms(3), of key] rep_unique [OF st'(2) st(2) same [symmetric] inj', of key]
    by (cases "map_of (dd_groups st) key"; cases "map_of (dd_groups st') key") simp_all
  have "set (map fst (dd_groups st)) = set (map fst (dd_groups st'))"
  proof (rule set_eqI)
    fix k
    show "k \<in> set (map fst (dd_groups st)) \<longleftrightarrow> k \<in> set (map fst (dd_groups st'))"
      using reps [of k] map_of_eq_None_iff [of "dd_groups st" k] map_of_eq_None_iff [of "dd_groups st'" k]
      by (metis list.set_map map_option_is_None)
  qed
  then have "length (dd_groups st) = length (dd_groups st')"
    using st(2) st'(2) distinct_card unfolding dedup_ok_def by (metis length_map)
  moreover have "length (filter isHTMLPagePath files) = length (filter isHTMLPagePath files')"
    using assms(2) by (metis mset_filter size_mset)
  ultimately show ?thesis using st st' reps by (auto simp: dedup_ok_def)
qed

section \<open>Queries\<close>

lemma parse_no_query: "CHR ''?'' \<notin> set raw \<Longrightarrow> url_parse raw = Some u \<Longrightarrow> u_rawquery u = []"
proof -
  assume q: "CHR ''?'' \<notin> set raw" and u: "url_parse raw = Some u"
  obtain r frag f where cut: "cut_byte CHR ''#'' raw = (r, frag, f)" by (metis prod_cases3)
  have r: "CHR ''?'' \<notin> set r" using cut_byte_before [OF cut] q by auto
  have set_path: "u_rawquery v = u_rawquery w" if "set_path w p = Some v" for v w p
    using that by (auto simp: set_path_def split: option.splits)
  have nofrag: "u_rawquery v = []" if v: "parse_nofrag r = Some v" for v
  proof -
    show ?thesis
    proof (cases "r = ''*''")
      case True
      then show ?thesis using v by (auto simp: parse_nofrag_def has_ctl_byte_def empty_url_def)
    next
      case False
      then obtain sch rest where g: "get_scheme r = Some (sch, rest)"
        using v by (auto simp: parse_nofrag_def split: if_splits option.splits)
      have "set rest \<subseteq> set r" using g by (auto simp: get_scheme_def split: option.splits dest: in_set_dropD)
      then have "CHR ''?'' \<notin> set rest" using r by blast
      then have "cut_query rest = (rest, [], False)" by (simp add: cut_query_def cut_byte_notin)
      then show ?thesis
        using v False g by (auto simp: parse_nofrag_def empty_url_def Let_def dest!: set_path split: if_splits option.splits prod.splits)
    qed
  qed
  then show ?thesis using u cut by (auto simp: url_parse_def split: option.splits if_splits)
qed

lemma no_query_escape: "CHR ''?'' \<notin> set (escape EncodeHost h)" "CHR ''?'' \<notin> set (escape EncodePath p)"
proof -
  have e: "should_escape (CHR ''?'') EncodeHost" "should_escape (CHR ''?'') EncodePath" "\<not> is_alnum (CHR ''?'')" by code_simp+
  show "CHR ''?'' \<notin> set (escape EncodeHost h)" "CHR ''?'' \<notin> set (escape EncodePath p)"
    using e escape_byte_chars [of "CHR ''?''"] by (auto simp: escape_def)
qed

text \<open>The URL made of a file has no query: a question mark in a name is escaped.\<close>

lemma urlFromLocalPath_no_query: "CHR ''?'' \<notin> set (urlFromLocalPath root p)"
  using no_query_escape
  by (auto simp: urlFromLocalPath_def url_String_def escaped_path_def https_url_def empty_url_def Let_def split: option.splits if_splits)

lemma canonicalKey_no_query:
  assumes "CHR ''?'' \<notin> set raw" "cn_preservePathSegments c = cn_preservePathSegments c'"
  shows "canonicalKey c raw = canonicalKey c' raw"
proof -
  have d: "isDropSegment c s prev = isDropSegment c' s prev" for s prev using assms(2) by (simp add: isDropSegment_def)
  have "keep_segs c prev ss = keep_segs c' prev ss" for prev ss by (induction ss arbitrary: prev) (auto simp: d)
  then show ?thesis
    using parse_no_query [OF assms(1)] by (simp add: canonicalKey_def stripDropQuery_def split: option.split)
qed

text \<open>The option \<open>PreserveQueryParams\<close> has no effect, and queries never make two pages one document: the
  URL that the pass reads from a file name has no query, since \<open>PathForURL\<close> has put the query into the
  name. Whatever names are given, report and files are the same.\<close>

theorem PreserveQueryParams_has_no_effect:
  "Dedup left mk io json walk srcRoot dst qs segs d = Dedup left mk io json walk srcRoot dst qs' segs d"
proof -
  let ?c = "newCanonicalizer qs segs" and ?c' = "newCanonicalizer qs' segs"
  have k: "canonicalKey ?c (urlFromLocalPath srcRoot p) = canonicalKey ?c' (urlFromLocalPath srcRoot p)" for p
    by (rule canonicalKey_no_query [OF urlFromLocalPath_no_query]) (simp add: newCanonicalizer_def)
  have "dedup_page ?c srcRoot p st = dedup_page ?c' srcRoot p st" for p st
    unfolding dedup_page_def Let_def k ..
  then have p: "dedup_pages ?c srcRoot files st = dedup_pages ?c' srcRoot files st" for files st
    by (induction files arbitrary: st) (auto intro: arg_cong2 [where f = outcome_bind])
  show ?thesis unfolding Dedup_def Let_def p ..
qed

section \<open>What the pass gets wrong\<close>

text \<open>
  Saved copies of one page that differ in the query alone are separate documents; pages whose path only
  begins like a noise route are dropped; the manifest of a document can name the kept page and leave
  out a dropped one; a name at the top that is not a host stops the pass.
\<close>

lemma query_copies_are_kept:
  "map (dg_repFile \<circ> snd) (dd_groups (case dedup_pages (newCanonicalizer [] []) ''/c'' [''/c/h.io/a.html'', ''/c/h.io/a_utm_source=x.html''] new_dedup of
      Returns st \<Rightarrow> st | Panic \<Rightarrow> new_dedup)) = [''/c/h.io/a.html'', ''/c/h.io/a_utm_source=x.html'']"
  by code_simp

lemma feedback_is_noise: "isNoisePath ''https://h.io/feedback/index.html''" "isNoisePath ''https://h.io/cartoons.html''"
  by code_simp+

lemma manifest_names_the_kept_page:
  "case dedup_pages (newCanonicalizer [] []) ''/c'' [''/c/h.io/page/2/zoo.html'', ''/c/h.io/zoo.html''] new_dedup of
     Panic \<Rightarrow> False
   | Returns st \<Rightarrow> map (dg_repFile \<circ> snd) (dd_groups st) = [''/c/h.io/zoo.html''] \<and>
       dedup_manifest ''/c'' st ''h.io/zoo.html'' = Some [''h.io/zoo.html'']"
  by code_simp

lemma name_with_space_panics: "dedup_pages (newCanonicalizer [] []) ''/c'' [''/c/my page.html''] new_dedup = Panic"
  by code_simp

section \<open>Witnesses\<close>

definition demo_files :: "string list" where
  "demo_files = [''/c/h.io/news/page/2/index.html'', ''/c/h.io/news/index.html'', ''/c/h.io/logo.png'', ''/c/h.io/cart/index.html'']"

lemma demo_parse: "pages_parse ''/c'' demo_files"
  by code_simp

theorem Dedup_keeps_cleanest_page_witness:
  "\<exists>st. dedup_pages (newCanonicalizer [] []) ''/c'' demo_files new_dedup = Returns st \<and> dd_PagesTotal st = 3"
proof -
  have "length (filter isHTMLPagePath demo_files) = 3" by code_simp
  then show ?thesis using Dedup_keeps_cleanest_page [OF demo_parse, of "newCanonicalizer [] []"] by auto
qed

theorem Dedup_ignores_walk_order_witness:
  "\<exists>st st'. dedup_pages (newCanonicalizer [] []) ''/c'' demo_files new_dedup = Returns st \<and>
     dedup_pages (newCanonicalizer [] []) ''/c'' (rev demo_files) new_dedup = Returns st' \<and> dd_PagesKept st = dd_PagesKept st'"
proof -
  have "distinct (map (relWithin ''/c'') demo_files)" by code_simp
  then have "inj_on (relWithin ''/c'') (set demo_files)" by (simp add: distinct_map)
  then show ?thesis using Dedup_ignores_walk_order [OF demo_parse, of "rev demo_files" "newCanonicalizer [] []"] by auto
qed

end
