(* ===== verification/GoRegexp.thy ===== *)
theory GoRegexp
  imports GoStrings
begin

text \<open>
  The part of Go's package \<open>regexp\<close> the program uses. Go takes the leftmost match and among those the
  one a backtracking matcher meets first; so an expression is read as the list of all its matches at a
  place, in that order, and the first is taken. Repetition is over byte classes, or over escaped
  bytes and a class, which is all the program's expressions need. None of the expressions matches the empty text. Case is
  folded for ASCII letters (Go also folds two other letters, to \<open>k\<close> and \<open>s\<close>).
\<close>

datatype re =
    Eps
  | Bos
  | Cls "char \<Rightarrow> bool"
  | Many "char \<Rightarrow> bool"
  | Few "char \<Rightarrow> bool"
  | Escs "char \<Rightarrow> bool"
  | Seq re re
  | Alt re re
  | Cap nat re

type_synonym captures = "(nat \<times> string) list"

text \<open>What is left after each number of repetitions: the longest first, or the shortest.\<close>

fun many_rests :: "(char \<Rightarrow> bool) \<Rightarrow> string \<Rightarrow> string list" where
  "many_rests P [] = [[]]"
| "many_rests P (c # s) = (if P c then many_rests P s @ [c # s] else [c # s])"

fun few_rests :: "(char \<Rightarrow> bool) \<Rightarrow> string \<Rightarrow> string list" where
  "few_rests P [] = [[]]"
| "few_rests P (c # s) = (c # s) # (if P c then few_rests P s else [])"

text \<open>The same for a greedy repetition of \<open>\\.\<close>, a backslash and a byte that is no newline, or a byte of the class.\<close>

fun esc_rests :: "(char \<Rightarrow> bool) \<Rightarrow> string \<Rightarrow> string list" where
  "esc_rests P [] = [[]]"
| "esc_rests P [c] = (if P c then [[]] else []) @ [[c]]"
| "esc_rests P (c # d # s) =
     (if c = CHR 0x5C \<and> d \<noteq> CHR 0x0A then esc_rests P s else []) @
     (if P c then esc_rests P (d # s) else []) @ [c # d # s]"

text \<open>The matches at the front of a text: what follows each and the groups. \<open>n\<close> is the length of the whole text.\<close>

fun runs :: "re \<Rightarrow> nat \<Rightarrow> string \<Rightarrow> captures \<Rightarrow> (string \<times> captures) list" where
  "runs Eps n s g = [(s, g)]"
| "runs Bos n s g = (if length s = n then [(s, g)] else [])"
| "runs (Cls P) n s g = (case s of [] \<Rightarrow> [] | c # s' \<Rightarrow> if P c then [(s', g)] else [])"
| "runs (Many P) n s g = map (\<lambda>r. (r, g)) (many_rests P s)"
| "runs (Few P) n s g = map (\<lambda>r. (r, g)) (few_rests P s)"
| "runs (Escs P) n s g = map (\<lambda>r. (r, g)) (esc_rests P s)"
| "runs (Seq a b) n s g = concat (map (\<lambda>(s', g'). runs b n s' g') (runs a n s g))"
| "runs (Alt a b) n s g = runs a n s g @ runs b n s g"
| "runs (Cap i a) n s g = map (\<lambda>(s', g'). (s', (i, take (length s - length s') s) # g')) (runs a n s g)"

text \<open>A text as its matches, from left to right, and the bytes between them.\<close>

datatype piece = Plain char | Match string captures

function pieces :: "re \<Rightarrow> nat \<Rightarrow> string \<Rightarrow> piece list" where
  "pieces r n s =
     (case s of
        [] \<Rightarrow> []
      | c # s' \<Rightarrow>
          (case runs r n s [] of
             [] \<Rightarrow> Plain c # pieces r n s'
           | (rest, g) # _ \<Rightarrow>
               if length rest < length s then Match (take (length s - length rest) s) g # pieces r n rest
               else Plain c # pieces r n s'))"
  by pat_completeness auto
termination
  by (relation "measure (\<lambda>(r, n, s). length s)") auto

declare pieces.simps [simp del]

definition group :: "captures \<Rightarrow> nat \<Rightarrow> string" where
  "group g i = (case map_of g i of Some t \<Rightarrow> t | None \<Rightarrow> [])"

fun piece_matches :: "piece list \<Rightarrow> (string \<times> captures) list" where
  "piece_matches [] = []"
| "piece_matches (Plain c # ps) = piece_matches ps"
| "piece_matches (Match m g # ps) = (m, g) # piece_matches ps"

fun piece_text :: "(string \<Rightarrow> captures \<Rightarrow> string) \<Rightarrow> piece \<Rightarrow> string" where
  "piece_text f (Plain c) = [c]"
| "piece_text f (Match m g) = f m g"

text \<open>
  \<open>FindAllStringSubmatch\<close>, \<open>FindStringSubmatch\<close> and \<open>ReplaceAllStringFunc\<close>. The functions given to the last
  match the text again; here they get the groups of the match, which are the same.
\<close>

definition find_all :: "re \<Rightarrow> string \<Rightarrow> (string \<times> captures) list" where
  "find_all r s = piece_matches (pieces r (length s) s)"

definition find_sub :: "re \<Rightarrow> string \<Rightarrow> captures option" where
  "find_sub r s = (case find_all r s of [] \<Rightarrow> None | (m, g) # _ \<Rightarrow> Some g)"

definition replace_fun :: "re \<Rightarrow> (string \<Rightarrow> captures \<Rightarrow> string) \<Rightarrow> string \<Rightarrow> string" where
  "replace_fun r f s = concat (map (piece_text f) (pieces r (length s) s))"

text \<open>Expressions: a text, one whatever its case, and the usual classes.\<close>

fun lit :: "string \<Rightarrow> re" where
  "lit [] = Eps"
| "lit (c # s) = Seq (Cls (\<lambda>x. x = c)) (lit s)"

fun lit_i :: "string \<Rightarrow> re" where
  "lit_i [] = Eps"
| "lit_i (c # s) = Seq (Cls (\<lambda>x. lower_byte x = c)) (lit_i s)"

fun seqs :: "re list \<Rightarrow> re" where
  "seqs [] = Eps"
| "seqs (r # rs) = Seq r (seqs rs)"

fun alts :: "re list \<Rightarrow> re" where
  "alts [] = Cls (\<lambda>c. False)"
| "alts [r] = r"
| "alts (r # rs) = Alt r (alts rs)"

definition some_of :: "(char \<Rightarrow> bool) \<Rightarrow> re" where
  "some_of P = Seq (Cls P) (Many P)"

definition re_space :: "char \<Rightarrow> bool" where
  "re_space c \<longleftrightarrow> (of_char c :: nat) \<in> {9, 10, 12, 13, 32}"

definition quote_mark :: "char \<Rightarrow> bool" where
  "quote_mark c \<longleftrightarrow> c = CHR 0x22 \<or> c = CHR 0x27"

definition newline :: char where
  "newline = CHR 0x0A"

section \<open>Lemmas\<close>

lemma many_rests_suffix: "r \<in> set (many_rests P s) \<Longrightarrow> suffix r s"
  by (induction s) (auto simp: suffix_Cons split: if_splits)

lemma few_rests_suffix: "r \<in> set (few_rests P s) \<Longrightarrow> suffix r s"
  by (induction s) (auto simp: suffix_Cons split: if_splits)

lemma esc_rests_suffix: "r \<in> set (esc_rests P s) \<Longrightarrow> suffix r s"
  by (induction P s rule: esc_rests.induct) (auto simp: suffix_Cons split: if_splits)

lemma runs_suffix: "(s', g') \<in> set (runs r n s g) \<Longrightarrow> suffix s' s"
proof (induction r n s g arbitrary: s' g' rule: runs.induct)
  case (3 P n s g)
  then show ?case by (cases s) (auto simp: suffix_Cons split: if_splits)
next
  case (7 a b n s g)
  then obtain s1 g1 where "(s1, g1) \<in> set (runs a n s g)" "(s', g') \<in> set (runs b n s1 g1)" by auto
  then show ?case using 7(1) 7(2) [of "(s1, g1)" s1 g1] suffix_order.trans by blast
qed (auto dest: many_rests_suffix few_rests_suffix esc_rests_suffix split: if_splits)

lemma runs_lit: "runs (lit p) n s g = (if has_prefix s p then [(drop (length p) s, g)] else [])"
proof (induction p arbitrary: s)
  case (Cons c p)
  then show ?case by (cases s) auto
qed simp

lemma runs_lit_i: "runs (lit_i p) n s g = (if has_prefix (to_lower s) p then [(drop (length p) s, g)] else [])"
proof (induction p arbitrary: s)
  case (Cons c p)
  then show ?case by (cases s) (auto simp: to_lower_def)
qed simp

lemma runs_seqs_Cons: "runs (seqs (r # rs)) n s g = concat (map (\<lambda>(s', g'). runs (seqs rs) n s' g') (runs r n s g))"
  by simp

text \<open>A greedy repetition that must stop at a byte outside its class, and the places where a lazy one stops.\<close>

lemma many_rests_all: "\<forall>c\<in>set a. P c \<Longrightarrow> many_rests P (a @ s) = many_rests P s @ map (\<lambda>i. drop i a @ s) (rev [0..<length a])"
proof (induction a)
  case (Cons c a)
  have "map (\<lambda>i. drop i (c # a) @ s) (rev [0..<length (c # a)]) = map (\<lambda>i. drop i a @ s) (rev [0..<length a]) @ [(c # a) @ s]"
    by (simp add: upt_rec [of 0 "Suc (length a)"] map_Suc_upt [symmetric] rev_map del: upt_Suc)
  then show ?case using Cons by simp
qed simp

lemma pieces_Nil [simp]: "pieces r n [] = []"
  by (subst pieces.simps) simp

lemma pieces_Plain: "runs r n (c # s) [] = [] \<Longrightarrow> pieces r n (c # s) = Plain c # pieces r n s"
  by (subst pieces.simps) simp

lemma pieces_Match:
  assumes "runs r n (m @ s) [] = (s, g) # more" "m \<noteq> []"
  shows "pieces r n (m @ s) = Match m g # pieces r n s"
proof -
  obtain c m' where "m = c # m'" using assms(2) by (cases m) auto
  then show ?thesis using assms(1) by (subst pieces.simps) simp
qed

text \<open>A stretch in which no match begins.\<close>

lemma pieces_plain:
  assumes "\<And>a b. x = a @ b \<Longrightarrow> b \<noteq> [] \<Longrightarrow> runs r n (b @ s) [] = []"
  shows "pieces r n (x @ s) = map Plain x @ pieces r n s"
  using assms
proof (induction x)
  case (Cons c x)
  have "runs r n ((c # x) @ s) [] = []" using Cons.prems [of "[]" "c # x"] by simp
  moreover have "pieces r n (x @ s) = map Plain x @ pieces r n s"
    using Cons.IH Cons.prems [of "c # a" for a] by (metis append_Cons)
  ultimately show ?case by (simp add: pieces_Plain)
qed simp

lemma concat_plain [simp]: "concat (map (piece_text f) (map Plain x)) = x"
  by (induction x) auto

lemma matches_plain [simp]: "piece_matches (map Plain x @ ps) = piece_matches ps"
  by (induction x) auto

end
