(* ===== verification/Markdown.thy ===== *)
theory Markdown
  imports GoRegexp "HOL-Library.Code_Target_Nat"
begin

text \<open>
  The conversion of pages to Markdown, \<open>internal/markdown/markdown.go\<close>, over the expressions of
  \<open>GoRegexp\<close>. Tracing and logging are left out; the time of a conversion is an argument. No operation
  can fail.
\<close>

section \<open>Data\<close>

record md_config =
  mc_IncludeMetadata :: bool
  mc_IncludeLinks :: bool
  mc_IncludeImages :: bool
  mc_IncludeTables :: bool
  mc_IncludeCodeBlocks :: bool
  mc_PreserveFormatting :: bool
  mc_MaxContentLength :: int
  mc_HeadingStyle :: string
  mc_LinkStyle :: string
  mc_ImageStyle :: string

definition DefaultMarkdownConfig :: md_config where
  "DefaultMarkdownConfig =
     \<lparr>mc_IncludeMetadata = True, mc_IncludeLinks = True, mc_IncludeImages = True, mc_IncludeTables = True,
      mc_IncludeCodeBlocks = True, mc_PreserveFormatting = True, mc_MaxContentLength = 0, mc_HeadingStyle = ''atx'',
      mc_LinkStyle = ''reference'', mc_ImageStyle = ''reference''\<rparr>"

record md_link =
  ml_Text :: string
  ml_URL :: string
  ml_Title :: string
  ml_Internal :: bool

record md_image =
  mi_AltText :: string
  mi_URL :: string
  mi_Title :: string

record md_table =
  mt_Headers :: "string list"
  mt_Rows :: "string list list"

record md_code =
  mb_Language :: string
  mb_Code :: string

record md_output =
  mo_URL :: string
  mo_Title :: string
  mo_Content :: string
  mo_Metadata :: "string \<rightharpoonup> string"
  mo_Links :: "md_link list"
  mo_Images :: "md_image list"
  mo_Tables :: "md_table list"
  mo_CodeBlocks :: "md_code list"
  mo_WordCount :: int
  mo_CharCount :: int
  mo_ReadingTime :: int
  mo_ConvertedAt :: int

section \<open>Expressions\<close>

abbreviation any_byte :: "char \<Rightarrow> bool" where
  "any_byte \<equiv> \<lambda>c. True"

abbreviation in_line :: "char \<Rightarrow> bool" where
  "in_line \<equiv> \<lambda>c. c \<noteq> newline"

abbreviation in_tag :: "char \<Rightarrow> bool" where
  "in_tag \<equiv> \<lambda>c. c \<noteq> CHR ''>''"

abbreviation in_quotes :: "char \<Rightarrow> bool" where
  "in_quotes \<equiv> \<lambda>c. \<not> quote_mark c"

text \<open>An opening tag; an element with its content as group 1, which may or may not go over lines.\<close>

definition open_tag :: "string \<Rightarrow> re" where
  "open_tag name = seqs [lit_i (''<'' @ name), Many in_tag, lit ''>'']"

definition element :: "(char \<Rightarrow> bool) \<Rightarrow> string \<Rightarrow> re" where
  "element P name = seqs [open_tag name, Cap 1 (Few P), lit_i (''</'' @ name @ ''>'')]"

definition any_tag :: re where
  "any_tag = seqs [lit ''<'', some_of in_tag, lit ''>'']"

definition strip_tags :: "string \<Rightarrow> string" where
  "strip_tags s = replace_fun any_tag (\<lambda>m g. []) s"

text \<open>An attribute with a quoted value as group 1.\<close>

definition attr_with :: "re \<Rightarrow> re \<Rightarrow> re" where
  "attr_with name val = seqs [name, Many re_space, lit ''='', Many re_space, Cls quote_mark, val, Cls quote_mark]"

definition link_re :: re where
  "link_re =
     seqs [lit_i ''<a'', some_of re_space, Many in_tag, attr_with (lit_i ''href'') (Cap 1 (some_of in_quotes)), Many in_tag, lit ''>'',
           Cap 2 (Few any_byte), lit_i ''</a>'']"

definition image_re :: re where
  "image_re =
     seqs [lit_i ''<img'', some_of re_space, Many in_tag, attr_with (lit_i ''src'') (Cap 1 (some_of in_quotes)), Many in_tag, lit ''>'']"

definition attr_value :: "string \<Rightarrow> string \<Rightarrow> string" where
  "attr_value name m =
     (case find_sub (attr_with (lit name) (Cap 1 (Many in_quotes))) m of Some g \<Rightarrow> group g 1 | None \<Rightarrow> [])"

definition cell_re :: re where
  "cell_re =
     (let kind = Alt (lit_i ''th'') (lit_i ''td'')
      in seqs [lit ''<'', Cap 1 kind, Many in_tag, lit ''>'', Cap 2 (Few any_byte), lit ''</'', Cap 3 kind, lit ''>''])"

definition pre_code_re :: re where
  "pre_code_re = seqs [open_tag ''pre'', open_tag ''code'', Cap 1 (Few any_byte), lit_i ''</code></pre>'']"

definition is_word :: "char \<Rightarrow> bool" where
  "is_word c \<longleftrightarrow> (let b = of_char c :: nat in 48 \<le> b \<and> b \<le> 57 \<or> 65 \<le> b \<and> b \<le> 90 \<or> b = 95 \<or> 97 \<le> b \<and> b \<le> 122)"

definition is_ref_char :: "char \<Rightarrow> bool" where
  "is_ref_char c \<longleftrightarrow> is_word c \<and> c \<noteq> CHR ''_''"

section \<open>Conversion\<close>

fun show_nat :: "nat \<Rightarrow> string" where
  "show_nat n = (if n < 10 then [] else show_nat (n div 10)) @ [char_of (48 + n mod 10)]"

declare show_nat.simps [simp del]

definition nl :: string where
  "nl = [newline]"

definition sanitizeRef :: "string \<Rightarrow> string" where
  "sanitizeRef url0 =
     (let url1 = replace_fun (seqs [Bos, lit ''http'', Alt (lit ''s'') Eps, lit ''://'']) (\<lambda>m g. []) url0;
          url2 = replace_fun (some_of (\<lambda>c. \<not> is_ref_char c)) (\<lambda>m g. ''-'') url1;
          url3 = trim_by (\<lambda>c. c = CHR ''-'') url2
      in if length url3 > 50 then take 50 url3 else url3)"

definition extractTitle :: "string \<Rightarrow> string" where
  "extractTitle html =
     (case find_sub (seqs [open_tag ''title'', Cap 1 (some_of (\<lambda>c. c \<noteq> CHR ''<'')), lit_i ''</title>'']) html of
        Some g \<Rightarrow> trim_space (group g 1)
      | None \<Rightarrow>
          (case find_sub (seqs [open_tag ''h1'', Cap 1 (some_of (\<lambda>c. c \<noteq> CHR ''<'')), lit_i ''</h1>'']) html of
             Some g \<Rightarrow> trim_space (group g 1)
           | None \<Rightarrow> ''Untitled''))"

definition cleanHTML :: "string \<Rightarrow> string" where
  "cleanHTML html =
     (let h1 = replace_fun (element any_byte ''script'') (\<lambda>m g. []) html;
          h2 = replace_fun (element any_byte ''style'') (\<lambda>m g. []) h1;
          h3 = replace_fun (seqs [lit ''<!--'', Few in_line, lit ''-->'']) (\<lambda>m g. []) h2
      in replace_fun (element any_byte ''noscript'') (\<lambda>m g. []) h3)"

definition convertHeadings :: "string \<Rightarrow> string" where
  "convertHeadings html =
     fold (\<lambda>i. replace_fun (element in_line (''h'' @ show_nat i))
                 (\<lambda>m g. replicate i CHR ''#'' @ '' '' @ trim_space (group g 1) @ nl @ nl)) [1..<7] html"

definition convertParagraphs :: "string \<Rightarrow> string" where
  "convertParagraphs html =
     replace_fun (element any_byte ''p'') (\<lambda>m g. strip_tags (trim_space (group g 1)) @ nl @ nl) html"

definition emphasis_re :: "string \<Rightarrow> string \<Rightarrow> re" where
  "emphasis_re a b =
     (let kind = Alt (lit_i a) (lit_i b)
      in seqs [lit ''<'', Cap 1 kind, Many in_tag, lit ''>'', Cap 2 (Few any_byte), lit ''</'', Cap 3 kind, lit ''>''])"

definition convertEmphasis :: "string \<Rightarrow> string" where
  "convertEmphasis html =
     (let h = replace_fun (emphasis_re ''strong'' ''b'') (\<lambda>m g. ''**'' @ group g 2 @ ''**'') html
      in replace_fun (emphasis_re ''em'' ''i'') (\<lambda>m g. ''*'' @ group g 2 @ ''*'') h)"

definition convertLinks :: "md_config \<Rightarrow> string \<Rightarrow> string" where
  "convertLinks cfg html =
     replace_fun link_re (\<lambda>m g.
       let url = group g 1; text = strip_tags (trim_space (group g 2))
       in if mc_LinkStyle cfg = ''reference'' then ''['' @ text @ ''][''  @ sanitizeRef url @ '']''
          else ''['' @ text @ '']('' @ url @ '')'') html"

definition convertImages :: "md_config \<Rightarrow> string \<Rightarrow> string" where
  "convertImages cfg html =
     replace_fun image_re (\<lambda>m g.
       let url = group g 1; alt = attr_value ''alt'' m
       in if mc_ImageStyle cfg = ''reference'' then ''!['' @ alt @ ''][''  @ sanitizeRef url @ '']''
          else ''!['' @ alt @ '']('' @ url @ '')'') html"

definition list_items :: "string \<Rightarrow> string list" where
  "list_items content = map (\<lambda>(m, g). strip_tags (trim_space (group g 1))) (find_all (element any_byte ''li'') content)"

definition convertLists :: "string \<Rightarrow> string" where
  "convertLists html =
     (let h = replace_fun (element any_byte ''ol'') (\<lambda>m g.
                concat (map (\<lambda>(i, text). show_nat (i + 1) @ ''. '' @ text @ nl) (enumerate 0 (list_items (group g 1)))) @ nl) html
      in replace_fun (element any_byte ''ul'') (\<lambda>m g.
                concat (map (\<lambda>text. ''- '' @ text @ nl) (list_items (group g 1))) @ nl) h)"

definition language_of :: "string \<Rightarrow> string" where
  "language_of m =
     (case find_sub (attr_with (lit ''class'') (seqs [lit ''language-'', Cap 1 (some_of is_word)])) m of Some g \<Rightarrow> group g 1 | None \<Rightarrow> [])"

definition convertCode :: "string \<Rightarrow> string" where
  "convertCode html =
     (let h = replace_fun pre_code_re (\<lambda>m g.
                ''```'' @ language_of m @ nl @ trim_space (group g 1) @ nl @ ''```'' @ nl @ nl) html
      in replace_fun (element any_byte ''code'') (\<lambda>m g. ''`'' @ group g 1 @ ''`'') h)"

definition convertBlockquotes :: "string \<Rightarrow> string" where
  "convertBlockquotes html =
     replace_fun (element any_byte ''blockquote'') (\<lambda>m g.
       concat (map (\<lambda>line. if trim_space line \<noteq> [] then ''> '' @ trim_space line @ nl else [])
                 (split_byte newline (strip_tags (trim_space (group g 1))))) @ nl) html"

definition convertHorizontalRules :: "string \<Rightarrow> string" where
  "convertHorizontalRules html =
     replace_fun (seqs [lit_i ''<hr'', Many re_space, Alt (lit ''/'') Eps, lit ''>'']) (\<lambda>m g. ''---'' @ nl @ nl) html"

definition row_cells :: "string \<Rightarrow> string list" where
  "row_cells row = map (\<lambda>(m, g). strip_tags (trim_space (group g 2))) (find_all cell_re row)"

definition table_rows :: "string \<Rightarrow> string list list" where
  "table_rows tableHTML = map (\<lambda>(m, g). row_cells (group g 1)) (find_all (element any_byte ''tr'') tableHTML)"

definition md_row :: "string list \<Rightarrow> string" where
  "md_row cells = ''| '' @ join '' | '' cells @ '' |''"

definition parseTable :: "string \<Rightarrow> string" where
  "parseTable tableHTML =
     (case table_rows tableHTML of
        [] \<Rightarrow> []
      | h # rows \<Rightarrow>
          (let esc = map (\<lambda>text. replace_all text ''|'' [CHR 0x5C, CHR ''|''])
           in join nl (md_row (esc h) # md_row (map (\<lambda>c. ''---'') h) # map (md_row \<circ> esc) rows)))"

definition convertTables :: "string \<Rightarrow> string" where
  "convertTables html = replace_fun (element any_byte ''table'') (\<lambda>m g. parseTable (group g 1) @ nl @ nl) html"

definition cleanupMarkdown :: "string \<Rightarrow> string" where
  "cleanupMarkdown md =
     trim_space (replace_fun (seqs [lit (nl @ nl @ nl), Many (\<lambda>c. c = newline)]) (\<lambda>m g. nl @ nl) md) @ nl"

definition htmlToMarkdown :: "md_config \<Rightarrow> string \<Rightarrow> string" where
  "htmlToMarkdown cfg html =
     cleanupMarkdown (convertTables (convertHorizontalRules (convertBlockquotes (convertCode (convertLists (convertImages cfg
       (convertLinks cfg (convertEmphasis (convertParagraphs (convertHeadings html))))))))))"

section \<open>Extraction\<close>

definition resolve_md :: "string \<Rightarrow> string \<Rightarrow> string" where
  "resolve_md baseURL url = (if has_prefix url ''/'' then baseURL @ url else url)"

definition extractLinks :: "string \<Rightarrow> string \<Rightarrow> md_link list" where
  "extractLinks html baseURL =
     map (\<lambda>(m, g). let url = resolve_md baseURL (group g 1)
                   in \<lparr>ml_Text = strip_tags (trim_space (group g 2)), ml_URL = url, ml_Title = [], ml_Internal = has_prefix url baseURL\<rparr>)
       (find_all link_re html)"

definition extractImages :: "string \<Rightarrow> string \<Rightarrow> md_image list" where
  "extractImages html baseURL =
     map (\<lambda>(m, g). \<lparr>mi_AltText = attr_value ''alt'' m, mi_URL = resolve_md baseURL (group g 1), mi_Title = attr_value ''title'' m\<rparr>)
       (find_all image_re html)"

definition parseTableToStruct :: "string \<Rightarrow> md_table" where
  "parseTableToStruct tableHTML =
     (case table_rows tableHTML of
        [] \<Rightarrow> \<lparr>mt_Headers = [], mt_Rows = []\<rparr>
      | h # rows \<Rightarrow> \<lparr>mt_Headers = h, mt_Rows = rows\<rparr>)"

definition extractTables :: "string \<Rightarrow> md_table list" where
  "extractTables html =
     filter (\<lambda>t. mt_Headers t \<noteq> []) (map (\<lambda>(m, g). parseTableToStruct (group g 1)) (find_all (element any_byte ''table'') html))"

definition lang_code_re :: re where
  "lang_code_re =
     seqs [open_tag ''pre'', lit_i ''<code'', Many in_tag,
           attr_with (lit_i ''class'') (seqs [lit_i ''language-'', Cap 1 (some_of is_word)]), Many in_tag, lit ''>'',
           Cap 2 (Few any_byte), lit_i ''</code></pre>'']"

definition extractCodeBlocks :: "string \<Rightarrow> md_code list" where
  "extractCodeBlocks html =
     (let blocks = map (\<lambda>(m, g). \<lparr>mb_Language = group g 1, mb_Code = trim_space (group g 2)\<rparr>) (find_all lang_code_re html)
      in fold (\<lambda>(m, g) bs. let code = trim_space (group g 1)
                           in if list_ex (\<lambda>b. mb_Code b = code) bs then bs else bs @ [\<lparr>mb_Language = [], mb_Code = code\<rparr>])
           (find_all pre_code_re html) blocks)"

definition countWords :: "string \<Rightarrow> nat" where
  "countWords text = length (find_all (some_of (\<lambda>c. \<not> re_space c)) text)"

definition truncate_content :: "md_config \<Rightarrow> string \<Rightarrow> string" where
  "truncate_content cfg content =
     (if mc_MaxContentLength cfg > 0 \<and> int (length content) > mc_MaxContentLength cfg
      then take (nat (mc_MaxContentLength cfg)) content @ nl @ nl @ ''[Content truncated...]'' else content)"

definition Convert :: "md_config \<Rightarrow> int \<Rightarrow> string \<Rightarrow> string \<Rightarrow> (string \<rightharpoonup> string) \<Rightarrow> md_output" where
  "Convert cfg now url html metadata =
     (let content = truncate_content cfg (htmlToMarkdown cfg (cleanHTML html));
          wordCount = countWords content
      in \<lparr>mo_URL = url, mo_Title = extractTitle html, mo_Content = content, mo_Metadata = metadata,
          mo_Links = (if mc_IncludeLinks cfg then extractLinks html url else []),
          mo_Images = (if mc_IncludeImages cfg then extractImages html url else []),
          mo_Tables = (if mc_IncludeTables cfg then extractTables html else []),
          mo_CodeBlocks = (if mc_IncludeCodeBlocks cfg then extractCodeBlocks html else []),
          mo_WordCount = int wordCount, mo_CharCount = int (length content), mo_ReadingTime = int (wordCount div 200) + 1,
          mo_ConvertedAt = now\<rparr>)"

definition ConvertMultiple :: "md_config \<Rightarrow> (string \<Rightarrow> int) \<Rightarrow> (string \<rightharpoonup> string) \<Rightarrow> (string \<Rightarrow> string \<rightharpoonup> string) \<Rightarrow>
    (string \<rightharpoonup> md_output)" where
  "ConvertMultiple cfg now pages metadata = (\<lambda>url. map_option (\<lambda>html. Convert cfg (now url) url html (metadata url)) (pages url))"

section \<open>Blank lines\<close>

definition blank_re :: re where
  "blank_re = seqs [lit (nl @ nl @ nl), Many (\<lambda>c. c = newline)]"

definition blank_lines :: "nat \<Rightarrow> string \<Rightarrow> string" where
  "blank_lines n s = concat (map (piece_text (\<lambda>m g. nl @ nl)) (pieces blank_re n s))"

lemma many_rests_hd: "\<exists>rs. many_rests P s = dropWhile P s # rs"
  by (induction s) auto

lemma runs_blank:
  "runs blank_re n s g = (if has_prefix s (nl @ nl @ nl) then map (\<lambda>r. (r, g)) (many_rests (\<lambda>c. c = newline) (drop 3 s)) else [])"
  by (auto simp: blank_re_def nl_def runs_lit comp_def numeral_3_eq_3 simp del: lit.simps)

lemma blank_lines_Nil [simp]: "blank_lines n [] = []"
  by (simp add: blank_lines_def)

lemma blank_lines_other: "c \<noteq> newline \<Longrightarrow> blank_lines n (c # s) = c # blank_lines n s"
  by (simp add: blank_lines_def pieces_Plain runs_blank nl_def)

text \<open>A run of newlines: three or more become two.\<close>

lemma not_blank:
  assumes "length b < 3" "set b \<subseteq> {newline}" "t = [] \<or> hd t \<noteq> newline"
  shows "\<not> has_prefix (b @ t) (nl @ nl @ nl)"
  using assms by (cases b; cases "tl b"; cases t) (auto simp: nl_def)

lemma dropWhile_newlines: "t = [] \<or> hd t \<noteq> newline \<Longrightarrow> dropWhile (\<lambda>c. c = newline) (replicate k newline @ t) = t"
  by (induction k) (cases t, auto)+

lemma blank_lines_run:
  assumes t: "t = [] \<or> hd t \<noteq> newline"
  shows "blank_lines n (replicate k newline @ t) = replicate (if k < 3 then k else 2) newline @ blank_lines n t"
proof (cases "k < 3")
  case True
  have "pieces blank_re n (replicate k newline @ t) = map Plain (replicate k newline) @ pieces blank_re n t"
  proof (rule pieces_plain)
    fix a b assume ab: "replicate k newline = a @ b"
    then have "length b < 3" using True by (metis add_lessD1 add.commute length_append length_replicate)
    moreover have "set b \<subseteq> {newline}" using ab by (metis Un_subset_iff set_append set_replicate_conv_if empty_subsetI order_refl)
    ultimately show "runs blank_re n (b @ t) [] = []" using not_blank [OF _ _ t] by (simp add: runs_blank)
  qed
  then show ?thesis using True by (simp add: blank_lines_def)
next
  case False
  then obtain j where k: "k = 3 + j" by (metis le_add_diff_inverse not_less)
  have p: "has_prefix (replicate k newline @ t) (nl @ nl @ nl)" by (simp add: k nl_def eval_nat_numeral)
  have d: "drop 3 (replicate k newline @ t) = replicate j newline @ t" by (simp add: k)
  obtain rs where "many_rests (\<lambda>c. c = newline) (replicate j newline @ t) = t # rs"
    using many_rests_hd [of "\<lambda>c. c = newline" "replicate j newline @ t"] dropWhile_newlines [OF t] by auto
  then have "runs blank_re n (replicate k newline @ t) [] = (t, []) # map (\<lambda>r. (r, [])) rs"
    using p d by (simp add: runs_blank)
  then have "pieces blank_re n (replicate k newline @ t) = Match (replicate k newline) [] # pieces blank_re n t"
    by (rule pieces_Match) (use k in simp)
  then show ?thesis using False by (simp add: blank_lines_def nl_def eval_nat_numeral)
qed

lemma newline_run: "\<exists>k t. s = replicate k newline @ t \<and> (t = [] \<or> hd t \<noteq> newline)"
proof (induction s)
  case (Cons c s)
  then obtain k t where kt: "s = replicate k newline @ t" "t = [] \<or> hd t \<noteq> newline" by blast
  show ?case
  proof (cases "c = newline")
    case True
    then show ?thesis using kt by (intro exI [of _ "Suc k"] exI [of _ t]) simp
  qed (auto intro: exI [of _ 0])
qed simp

definition no_blank :: "string \<Rightarrow> bool" where
  "no_blank s \<longleftrightarrow> \<not> contains s (nl @ nl @ nl)"

lemma no_blank_Cons: "c \<noteq> newline \<Longrightarrow> no_blank (c # s) \<longleftrightarrow> no_blank s"
  by (auto simp: no_blank_def contains_def nl_def split: option.splits)

lemma no_blank_run: "t = [] \<or> hd t \<noteq> newline \<Longrightarrow> no_blank t \<Longrightarrow> k < 3 \<Longrightarrow> no_blank (replicate k newline @ t)"
proof (induction k)
  case (Suc k)
  have "\<not> has_prefix (replicate (Suc k) newline @ t) (nl @ nl @ nl)"
    by (rule not_blank) (use Suc.prems in auto)
  moreover have "no_blank (replicate k newline @ t)" using Suc by simp
  ultimately show ?case by (auto simp: no_blank_def contains_def split: option.splits)
qed simp

text \<open>The expression leaves no blank line but single ones, and changes nothing where there are none to remove.\<close>

lemma blank_lines_head: "hd s \<noteq> newline \<Longrightarrow> blank_lines n s = [] \<or> hd (blank_lines n s) \<noteq> newline"
  by (cases s) (auto simp: blank_lines_other)

lemma no_blank_lines: "no_blank (blank_lines n s)"
proof (induction "length s" arbitrary: s rule: less_induct)
  case less
  obtain k t where kt: "s = replicate k newline @ t" "t = [] \<or> hd t \<noteq> newline" using newline_run by blast
  have "no_blank (blank_lines n t)"
  proof (cases t)
    case Nil
    then show ?thesis by (simp add: no_blank_def contains_def nl_def)
  next
    case (Cons c t')
    then have "c \<noteq> newline" "length t' < length s" using kt by auto
    then show ?thesis using Cons less by (simp add: blank_lines_other no_blank_Cons)
  qed
  moreover have "blank_lines n t = [] \<or> hd (blank_lines n t) \<noteq> newline" using kt(2) blank_lines_head by auto
  ultimately show ?case using blank_lines_run [OF kt(2)] no_blank_run kt(1) by simp
qed

lemma no_blank_infix: "no_blank (a @ s @ b) \<Longrightarrow> no_blank s"
  unfolding no_blank_def contains_iff by (metis append.assoc)

lemma blank_lines_id: "no_blank s \<Longrightarrow> blank_lines n s = s"
proof (induction "length s" arbitrary: s rule: less_induct)
  case less
  obtain k t where kt: "s = replicate k newline @ t" "t = [] \<or> hd t \<noteq> newline" using newline_run by blast
  have "k < 3"
  proof (rule ccontr)
    assume "\<not> k < 3"
    then obtain j where "k = 3 + j" by (metis le_add_diff_inverse not_less)
    then have "s = [] @ (nl @ nl @ nl) @ (replicate j newline @ t)" using kt by (simp add: nl_def eval_nat_numeral)
    then show False using less.prems unfolding no_blank_def contains_iff by blast
  qed
  moreover have "blank_lines n t = t"
  proof (cases t)
    case (Cons c t')
    then have "c \<noteq> newline" "length t' < length s" "no_blank t'"
      using kt less.prems no_blank_infix [of "replicate k newline @ [c]" t' "[]"] by auto
    then show ?thesis using Cons less.hyps by (simp add: blank_lines_other)
  qed simp
  ultimately show ?case using blank_lines_run [OF kt(2)] kt(1) by simp
qed

lemma trim_space_ends: "x = trim_space y \<Longrightarrow> x = [] \<or> \<not> is_space_byte (hd x) \<and> \<not> is_space_byte (last x)"
proof -
  assume x: "x = trim_space y"
  have l: "rev (dropWhile P (rev z)) = [] \<or> \<not> P (last (rev (dropWhile P (rev z))))" for P and z :: string
    using hd_dropWhile [of P "rev z"] by (auto simp: last_rev)
  have f: "rev (dropWhile P (rev (dropWhile P z))) = [] \<or> \<not> P (hd (rev (dropWhile P (rev (dropWhile P z)))))" for P and z :: string
  proof -
    let ?d = "dropWhile P z"
    obtain w where w: "?d = rev (dropWhile P (rev ?d)) @ w"
      by (metis rev_append rev_rev_ident takeWhile_dropWhile_id)
    show ?thesis using w hd_dropWhile [of P z] by (metis append_is_Nil_conv hd_append2)
  qed
  show ?thesis using x l [of is_space_byte "dropWhile is_space_byte y"] f [of is_space_byte y] by (auto simp: trim_space_def trim_by_def)
qed

lemma trim_space_idem: "trim_space (trim_space y) = trim_space y"
  using trim_space_ends [OF refl, of y] trim_by_id [of "trim_space y" is_space_byte] by (auto simp: trim_space_def)

lemma space_newline: "is_space_byte newline"
  by (simp add: is_space_byte_def newline_def)

lemma trim_space_nl: "trim_space (x @ nl) = trim_space x"
proof (cases "dropWhile is_space_byte x = []")
  case True
  then have "\<forall>c\<in>set x. is_space_byte c" by (simp add: dropWhile_eq_Nil_conv)
  then show ?thesis using True space_newline by (auto simp: trim_space_def trim_by_def nl_def dropWhile_append dest: set_dropWhileD)
next
  case False
  then show ?thesis using space_newline by (auto simp: trim_space_def trim_by_def nl_def dropWhile_append)
qed

lemma cleanupMarkdown_alt: "cleanupMarkdown md = trim_space (blank_lines (length md) md) @ nl"
  by (simp add: cleanupMarkdown_def replace_fun_def blank_lines_def blank_re_def)

lemma no_blank_snoc: "no_blank x \<Longrightarrow> x = [] \<or> last x \<noteq> newline \<Longrightarrow> no_blank (x @ nl)"
proof -
  assume a: "no_blank x" "x = [] \<or> last x \<noteq> newline"
  show ?thesis
    unfolding no_blank_def contains_iff
  proof
    assume "\<exists>a b. x @ nl = a @ (nl @ nl @ nl) @ b"
    then obtain p q where e: "x @ nl = p @ (nl @ nl @ nl) @ q" by blast
    show False
    proof (cases q rule: rev_cases)
      case Nil
      then have "x = p @ nl @ nl" using e by (simp add: nl_def)
      then show False using a(2) by (simp add: nl_def)
    next
      case (snoc q' c)
      then have "x = p @ (nl @ nl @ nl) @ q'" using e by (simp add: nl_def)
      then show False using a(1) unfolding no_blank_def contains_iff by blast
    qed
  qed
qed

lemma cleanup_normal:
  "no_blank (cleanupMarkdown md) \<and> (\<exists>x. cleanupMarkdown md = x @ nl \<and> trim_space x = x) \<and> cleanupMarkdown (cleanupMarkdown md) = cleanupMarkdown md"
proof -
  let ?x = "trim_space (blank_lines (length md) md)"
  have "\<exists>a b. blank_lines (length md) md = a @ ?x @ b" unfolding trim_space_def by (rule trim_by_sub)
  then have "no_blank ?x" using no_blank_lines no_blank_infix by metis
  moreover have "?x = [] \<or> last ?x \<noteq> newline" using trim_space_ends [OF refl] space_newline by metis
  ultimately have n: "no_blank (?x @ nl)" by (rule no_blank_snoc)
  then have "cleanupMarkdown (?x @ nl) = ?x @ nl"
    by (simp add: cleanupMarkdown_alt blank_lines_id trim_space_nl trim_space_idem)
  then show ?thesis using n trim_space_idem by (auto simp: cleanupMarkdown_alt)
qed

section \<open>Elements\<close>

text \<open>A text in which no match of a closing tag can begin, not even one that goes on after it.\<close>

definition compat :: "string \<Rightarrow> string \<Rightarrow> bool" where
  "compat u q \<longleftrightarrow> has_prefix u q \<or> has_prefix q u"

definition safe :: "string \<Rightarrow> string \<Rightarrow> bool" where
  "safe q x \<longleftrightarrow> (\<forall>a b. x = a @ b \<and> b \<noteq> [] \<longrightarrow> \<not> compat (to_lower b) q)"

lemma has_prefix_appendD: "has_prefix (u @ v) q \<Longrightarrow> compat u q"
  by (auto simp: compat_def has_prefix_iff append_eq_append_conv2)

lemma safe_no_prefix: "safe q (a @ b) \<Longrightarrow> b \<noteq> [] \<Longrightarrow> \<not> has_prefix (to_lower (b @ y)) q"
  unfolding safe_def to_lower_append using has_prefix_appendD by blast

lemma safe_append: "safe q x \<Longrightarrow> safe q y \<Longrightarrow> safe q (x @ y)"
proof -
  assume xy: "safe q x" "safe q y"
  have c: "compat u q" if "compat (u @ v) q" for u v
    using that has_prefix_appendD [of u v q] unfolding compat_def [of "u @ v"] by (auto simp: compat_def has_prefix_iff)
  show "safe q (x @ y)"
    unfolding safe_def
  proof (intro allI impI)
    fix a b assume ab: "x @ y = a @ b \<and> b \<noteq> []"
    then obtain d where "x = a @ d \<and> b = d @ y \<or> y = d @ b" by (auto simp: append_eq_append_conv2)
    then consider "d \<noteq> []" "x = a @ d" "b = d @ y" | d where "y = d @ b" using ab by (cases "d = []") auto
    then show "\<not> compat (to_lower b) q"
    proof cases
      case 1
      then have "\<not> compat (to_lower d) q" using xy(1) unfolding safe_def by blast
      then show ?thesis unfolding 1(3) to_lower_append using c by blast
    next
      case 2
      then show ?thesis using xy(2) ab unfolding safe_def by blast
    qed
  qed
qed

lemma safe_Nil [simp]: "safe q []"
  by (simp add: safe_def)

lemma safe_concat: "(\<And>x. x \<in> set xs \<Longrightarrow> safe q x) \<Longrightarrow> safe q (concat xs)"
  by (induction xs) (auto intro: safe_append)

lemma lower_bracket: "lower_byte c = CHR ''<'' \<Longrightarrow> c = CHR ''<''"
proof -
  assume l: "lower_byte c = CHR ''<''"
  show ?thesis
  proof (cases "65 \<le> (of_char c :: nat) \<and> (of_char c :: nat) \<le> 90")
    case True
    then have "(of_char (lower_byte c) :: nat) = of_char c + 32" by (simp add: lower_byte_def)
    then show ?thesis using l True by simp
  qed (use l in \<open>auto simp: lower_byte_def\<close>)
qed

lemma safe_plain: "CHR ''<'' \<notin> set x \<Longrightarrow> safe (CHR ''<'' # q) x"
proof -
  assume x: "CHR ''<'' \<notin> set x"
  show ?thesis
    unfolding safe_def
  proof (intro allI impI notI)
    fix a b assume ab: "x = a @ b \<and> b \<noteq> []" and c: "compat (to_lower b) (CHR ''<'' # q)"
    then obtain z b' where b: "b = z # b'" by (cases b) auto
    then have "lower_byte z = CHR ''<''" using c by (auto simp: compat_def to_lower_def)
    then show False using x ab b lower_bracket by auto
  qed
qed

text \<open>The first place where a lazy repetition lets the rest match.\<close>

lemma few_first:
  assumes "\<And>a b. x = a @ b \<Longrightarrow> b \<noteq> [] \<Longrightarrow> F (b @ t) = []" "F t = v # rs"
  shows "\<exists>rs2. concat (map F (few_rests (\<lambda>c. True) (x @ t))) = v # rs2"
  using assms(1)
proof (induction x)
  case Nil
  show ?case using assms(2) by (cases t) auto
next
  case (Cons c x)
  have "F ((c # x) @ t) = []" using Cons.prems [of "[]" "c # x"] by simp
  moreover have "\<exists>rs2. concat (map F (few_rests (\<lambda>c. True) (x @ t))) = v # rs2"
    using Cons.IH Cons.prems [of "c # a" for a] by (metis append_Cons)
  ultimately show ?case by simp
qed

lemma runs_cap_few:
  "runs (Seq (Cap i (Few P)) r) n s g =
     concat (map (\<lambda>t. runs r n t ((i, take (length s - length t) s) # g)) (few_rests P s))"
  by (simp add: comp_def)

lemma runs_seqs_single: "runs (seqs [r]) n s g = runs r n s g"
proof -
  have "concat (map (\<lambda>(x, y). runs Eps n x y) xs) = xs" for xs by (induction xs) auto
  then show ?thesis by (simp only: seqs.simps runs.simps(7))
qed

lemma many_rests_stop: "\<not> P c \<Longrightarrow> many_rests P (c # s) = [c # s]"
  by simp

lemma runs_open_tag:
  assumes "to_lower name = name"
  shows "runs (open_tag name) n (''<'' @ name @ ''>'' @ s) g = [(s, g)]"
proof -
  have "has_prefix (to_lower (name @ CHR ''>'' # s)) name" by (simp add: to_lower_append assms)
  then show ?thesis by (simp add: open_tag_def runs_lit_i lower_byte_def)
qed

text \<open>An element whose content cannot close it.\<close>

lemma runs_element:
  assumes name: "to_lower name = name" and x: "safe (''</'' @ name @ ''>'') x"
  shows "\<exists>rs. runs (element any_byte name) n (''<'' @ name @ ''>'' @ x @ ''</'' @ name @ ''>'' @ s) g = (s, (1, x) # g) # rs"
proof -
  let ?q = "''</'' @ name @ ''>''"
  let ?F = "\<lambda>t. runs (seqs [lit_i ?q]) n t ((1, take (length (x @ ?q @ s) - length t) (x @ ?q @ s)) # g)"
  have q: "to_lower ?q = ?q" using name by (simp add: to_lower_def lower_byte_def)
  have none: "?F (b @ ?q @ s) = []" if "x = a @ b" "b \<noteq> []" for a b
    using safe_no_prefix [of ?q a b "?q @ s"] x that by (simp add: runs_lit_i del: lit_i.simps)
  have "to_lower (?q @ s) = ?q @ to_lower s" using q by (metis to_lower_append)
  then have "has_prefix (to_lower (?q @ s)) ?q" by (metis has_prefix_append)
  then have here: "?F (?q @ s) = [(s, (1, x) # g)]" by (simp add: runs_lit_i del: lit_i.simps)
  obtain rs where "concat (map ?F (few_rests any_byte (x @ ?q @ s))) = (s, (1, x) # g) # rs"
    using few_first [of x ?F "?q @ s"] none here by blast
  then have "runs (seqs [Cap 1 (Few any_byte), lit_i ?q]) n (x @ ?q @ s) g = (s, (1, x) # g) # rs"
    unfolding seqs.simps(2) [of "Cap 1 (Few any_byte)"] runs_cap_few .
  then show ?thesis
    using runs_open_tag [OF name, of n "x @ ?q @ s" g] by (simp add: element_def del: lit_i.simps)
qed

lemma pieces_element:
  assumes "to_lower name = name" "safe (''</'' @ name @ ''>'') x"
  shows "pieces (element any_byte name) n ((''<'' @ name @ ''>'' @ x @ ''</'' @ name @ ''>'') @ s) =
     Match (''<'' @ name @ ''>'' @ x @ ''</'' @ name @ ''>'') [(1, x)] # pieces (element any_byte name) n s"
  using runs_element [OF assms, where n = n and s = s and g = "[]"] pieces_Match [of "element any_byte name" n "''<'' @ name @ ''>'' @ x @ ''</'' @ name @ ''>''" s "[(1, x)]"]
  by auto

section \<open>Tables\<close>

text \<open>A table written as HTML: a header row, then the rows; the cells are trimmed texts without markup.\<close>

definition plain_cell :: "string \<Rightarrow> bool" where
  "plain_cell c \<longleftrightarrow> CHR ''<'' \<notin> set c \<and> trim_space c = c"

definition tag_text :: "string \<Rightarrow> string \<Rightarrow> string" where
  "tag_text name x = ''<'' @ name @ ''>'' @ x @ ''</'' @ name @ ''>''"

definition row_html :: "string \<Rightarrow> string list \<Rightarrow> string" where
  "row_html k cs = tag_text ''tr'' (concat (map (tag_text k) cs))"

definition table_html :: "string list \<Rightarrow> string list list \<Rightarrow> string" where
  "table_html header rows = tag_text ''table'' (row_html ''th'' header @ concat (map (row_html ''td'') rows))"

lemma strip_tags_plain: "CHR ''<'' \<notin> set x \<Longrightarrow> strip_tags x = x"
proof -
  assume x: "CHR ''<'' \<notin> set x"
  have "pieces any_tag n x = map Plain x" if "CHR ''<'' \<notin> set x" for n x
    using that
  proof (induction x)
    case (Cons c x)
    then have "c \<noteq> CHR ''<''" by auto
    then have "runs any_tag n (c # x) [] = []" by (simp add: any_tag_def)
    then show ?case using Cons by (simp add: pieces_Plain)
  qed simp
  then show ?thesis using x concat_plain by (simp add: strip_tags_def replace_fun_def)
qed

definition kind_ok :: "string \<Rightarrow> bool" where
  "kind_ok k \<longleftrightarrow> k = ''th'' \<or> k = ''td''"

text \<open>A cell, as the expression for cells reads it.\<close>

definition cell_end :: re where
  "cell_end = seqs [lit ''</'', Cap 3 (Alt (lit_i ''th'') (lit_i ''td'')), lit ''>'']"

lemma cell_end_none: "CHR ''<'' \<notin> set b \<Longrightarrow> b \<noteq> [] \<Longrightarrow> runs cell_end n (b @ y) g = []"
  by (cases b) (auto simp: cell_end_def)

lemma cell_end_here: "kind_ok k \<Longrightarrow> runs cell_end n (''</'' @ k @ ''>'' @ y) g = [(y, (3, k) # g)]"
  by (auto simp: kind_ok_def cell_end_def lower_byte_def)

lemma cell_start: "kind_ok k \<Longrightarrow>
    runs (seqs [lit ''<'', Cap 1 (Alt (lit_i ''th'') (lit_i ''td'')), Many in_tag, lit ''>'']) n (''<'' @ k @ ''>'' @ y) g = [(y, (1, k) # g)]"
  by (auto simp: kind_ok_def lower_byte_def)

lemma seqs_append: "runs (seqs (as @ bs)) n s g = runs (Seq (seqs as) (seqs bs)) n s g"
proof (induction as arbitrary: s g)
  case (Cons a as)
  have "concat (map (\<lambda>(x, y). runs (seqs (as @ bs)) n x y) xs) =
      concat (map (\<lambda>(x, y). runs (seqs bs) n x y) (concat (map (\<lambda>(x, y). runs (seqs as) n x y) xs)))" for xs
    by (induction xs) (auto simp: Cons.IH)
  then show ?case by simp
qed simp

lemma pieces_cell:
  assumes k: "kind_ok k" and c: "CHR ''<'' \<notin> set c"
  shows "\<exists>g. pieces cell_re n (tag_text k c @ s) = Match (tag_text k c) g # pieces cell_re n s \<and> group g 2 = c"
proof -
  let ?e = "''</'' @ k @ ''>''"
  let ?F = "\<lambda>t. runs cell_end n t ((2, take (length (c @ ?e @ s) - length t) (c @ ?e @ s)) # [(1, k)])"
  have none: "?F (b @ ?e @ s) = []" if "c = a @ b" "b \<noteq> []" for a b
    using cell_end_none [of b n "?e @ s"] that c by auto
  have here: "?F (?e @ s) = [(s, [(3, k), (2, c), (1, k)])]"
    using cell_end_here [OF k, of n s "[(2, c), (1, k)]"] by simp
  obtain rs where "concat (map ?F (few_rests any_byte (c @ ?e @ s))) = (s, [(3, k), (2, c), (1, k)]) # rs"
    using few_first [of c ?F "?e @ s", OF _ here] none by blast
  then have f: "runs (Seq (Cap 2 (Few any_byte)) cell_end) n (c @ ?e @ s) [(1, k)] = (s, [(3, k), (2, c), (1, k)]) # rs"
    unfolding runs_cap_few .
  have "runs cell_re n (''<'' @ k @ ''>'' @ c @ ?e @ s) [] = (s, [(3, k), (2, c), (1, k)]) # rs"
    using seqs_append [of "[lit ''<'', Cap 1 (Alt (lit_i ''th'') (lit_i ''td'')), Many in_tag, lit ''>'']"
        "[Cap 2 (Few any_byte), lit ''</'', Cap 3 (Alt (lit_i ''th'') (lit_i ''td'')), lit ''>'']" n "''<'' @ k @ ''>'' @ c @ ?e @ s" "[]"]
      cell_start [OF k, of n "c @ ?e @ s" "[]"] f
    by (simp add: cell_re_def cell_end_def Let_def del: lit.simps lit_i.simps)
  then have "runs cell_re n (tag_text k c @ s) [] = (s, [(3, k), (2, c), (1, k)]) # rs" by (simp add: tag_text_def)
  then have "pieces cell_re n (tag_text k c @ s) = Match (tag_text k c) [(3, k), (2, c), (1, k)] # pieces cell_re n s"
    by (rule pieces_Match) (simp add: tag_text_def)
  then show ?thesis by (intro exI [of _ "[(3, k), (2, c), (1, k)]"]) (simp add: group_def)
qed

lemma row_cells_html:
  assumes "kind_ok k" "\<forall>c\<in>set cs. plain_cell c"
  shows "row_cells (concat (map (tag_text k) cs)) = cs"
proof -
  have "map (\<lambda>(m, g). strip_tags (trim_space (group g 2))) (piece_matches (pieces cell_re n (concat (map (tag_text k) cs)))) = cs" for n
    using assms(2)
  proof (induction cs)
    case (Cons c cs)
    then obtain g where "pieces cell_re n (tag_text k c @ concat (map (tag_text k) cs)) =
        Match (tag_text k c) g # pieces cell_re n (concat (map (tag_text k) cs))" "group g 2 = c"
      using pieces_cell [OF assms(1), of c n] by (auto simp: plain_cell_def)
    then show ?case using Cons by (simp add: plain_cell_def strip_tags_plain)
  qed simp
  then show ?thesis by (simp add: row_cells_def find_all_def)
qed

lemma safe_tag:
  assumes "safe q (''<'' @ name @ ''>'')" "safe q (''</'' @ name @ ''>'')" "safe q x"
  shows "safe q (tag_text name x)"
  using safe_append [OF safe_append [OF assms(1) assms(3)] assms(2)] by (simp add: tag_text_def)

lemma safe_check: "safe q x \<longleftrightarrow> list_all (\<lambda>i. \<not> compat (to_lower (drop i x)) q) [0..<length x]"
proof
  assume "safe q x"
  then show "list_all (\<lambda>i. \<not> compat (to_lower (drop i x)) q) [0..<length x]"
    unfolding safe_def by (auto simp: list_all_iff) (metis append_take_drop_id drop_eq_Nil linorder_not_less)
next
  assume a: "list_all (\<lambda>i. \<not> compat (to_lower (drop i x)) q) [0..<length x]"
  show "safe q x"
    unfolding safe_def
  proof (intro allI impI)
    fix p b assume "x = p @ b \<and> b \<noteq> []"
    then show "\<not> compat (to_lower b) q" using a by (auto simp: list_all_iff dest: bspec [of _ _ "length p"])
  qed
qed

lemma safe_cells: "kind_ok k \<Longrightarrow> \<forall>c\<in>set cs. plain_cell c \<Longrightarrow> q \<in> {''</tr>'', ''</table>''} \<Longrightarrow> safe q (concat (map (tag_text k) cs))"
proof -
  assume k: "kind_ok k" and cs: "\<forall>c\<in>set cs. plain_cell c" and q: "q \<in> {''</tr>'', ''</table>''}"
  have t: "safe q (''<'' @ k @ ''>'')" "safe q (''</'' @ k @ ''>'')"
  proof -
    have "\<forall>k\<in>set [''th'', ''td'']. \<forall>q\<in>set [''</tr>'', ''</table>'']. \<forall>x\<in>set [''<'' @ k @ ''>'', ''</'' @ k @ ''>''].
        list_all (\<lambda>i. \<not> compat (to_lower (drop i x)) q) [0..<length x]" by code_simp
    then show "safe q (''<'' @ k @ ''>'')" "safe q (''</'' @ k @ ''>'')"
      using k q unfolding safe_check kind_ok_def by auto
  qed
  have "\<exists>q'. q = CHR ''<'' # q'" using q by auto
  then show ?thesis using cs t safe_plain by (auto intro!: safe_concat safe_tag simp: plain_cell_def)
qed

lemma table_rows_html:
  assumes "\<forall>c\<in>set header. plain_cell c" "\<forall>r\<in>set rows. \<forall>c\<in>set r. plain_cell c"
  shows "table_rows (row_html ''th'' header @ concat (map (row_html ''td'') rows)) = header # rows"
proof -
  let ?tr = "element any_byte ''tr''"
  have tr: "to_lower ''tr'' = ''tr''" by (simp add: to_lower_def lower_byte_def)
  have row: "pieces ?tr n (row_html k cs @ s) = Match (row_html k cs) [(1, concat (map (tag_text k) cs))] # pieces ?tr n s"
    if "kind_ok k" "\<forall>c\<in>set cs. plain_cell c" for n k cs s
    using pieces_element [OF tr, of "concat (map (tag_text k) cs)" n s] safe_cells [OF that, of "''</tr>''"]
    by (simp add: row_html_def tag_text_def)
  have all: "map (\<lambda>(m, g). row_cells (group g 1)) (piece_matches (pieces ?tr n (concat (map (row_html ''td'') rows)))) = rows" for n
    using assms(2)
  proof (induction rows)
    case (Cons r rows)
    then show ?case using row [of "''td''" r n] row_cells_html [of "''td''" r] by (simp add: kind_ok_def group_def)
  qed simp
  show ?thesis
    using row [of "''th''" header] row_cells_html [of "''th''" header] assms(1) all
    by (simp add: table_rows_def find_all_def kind_ok_def group_def)
qed

lemma find_table_html:
  assumes "\<forall>c\<in>set header. plain_cell c" "\<forall>r\<in>set rows. \<forall>c\<in>set r. plain_cell c"
  shows "pieces (element any_byte ''table'') n (table_html header rows) =
     [Match (table_html header rows) [(1, row_html ''th'' header @ concat (map (row_html ''td'') rows))]]"
proof -
  let ?q = "''</table>''" and ?x = "row_html ''th'' header @ concat (map (row_html ''td'') rows)"
  have r: "safe ?q (row_html k cs)" if "kind_ok k" "\<forall>c\<in>set cs. plain_cell c" for k cs
  proof -
    have "\<forall>x\<in>set [''<tr>'', ''</tr>'']. list_all (\<lambda>i. \<not> compat (to_lower (drop i x)) ?q) [0..<length x]" by code_simp
    then have "safe ?q ''<tr>''" "safe ?q ''</tr>''" unfolding safe_check by auto
    then show ?thesis unfolding row_html_def by (intro safe_tag safe_cells [OF that]) simp_all
  qed
  have "safe ?q ?x"
    using r [of "''th''" header] r [of "''td''"] assms by (auto intro!: safe_append safe_concat simp: kind_ok_def)
  moreover have "to_lower ''table'' = ''table''" by (simp add: to_lower_def lower_byte_def)
  ultimately show ?thesis
    using pieces_element [of "''table''" ?x n "[]"] by (simp add: table_html_def tag_text_def)
qed

section \<open>Properties\<close>

text \<open>The Markdown of every page is in normal form: no two blank lines follow each other, the text begins and
  ends with something to read, one newline ends it, and cleaning it up again changes nothing.\<close>

theorem htmlToMarkdown_is_clean:
  "\<not> contains (htmlToMarkdown cfg html) (nl @ nl @ nl) \<and>
   (\<exists>x. htmlToMarkdown cfg html = x @ nl \<and> trim_space x = x) \<and>
   cleanupMarkdown (htmlToMarkdown cfg html) = htmlToMarkdown cfg html"
  using cleanup_normal unfolding htmlToMarkdown_def no_blank_def .

text \<open>C24: a table is read back as it was written, and becomes a Markdown table of the same shape. For every
  header and rows of trimmed cells without markup, the HTML table yields that header and those rows,
  and its Markdown has one line for each with the bars in the cells escaped.\<close>

theorem tables_roundtrip:
  assumes "header \<noteq> []" "\<forall>c\<in>set header. plain_cell c" "\<forall>r\<in>set rows. \<forall>c\<in>set r. plain_cell c"
  shows "extractTables (table_html header rows) = [\<lparr>mt_Headers = header, mt_Rows = rows\<rparr>] \<and>
     convertTables (table_html header rows) =
       (let esc = map (\<lambda>text. replace_all text ''|'' [CHR 0x5C, CHR ''|''])
        in join nl (md_row (esc header) # md_row (map (\<lambda>c. ''---'') header) # map (md_row \<circ> esc) rows)) @ nl @ nl"
  using find_table_html [OF assms(2,3)] table_rows_html [OF assms(2,3)] assms(1)
  by (simp add: extractTables_def find_all_def parseTableToStruct_def convertTables_def replace_fun_def parseTable_def group_def)

section \<open>What the conversion gets wrong\<close>

text \<open>
  The expressions read a tag name as a prefix (\<open>p\<close> also opens at \<open>pre\<close>, \<open>i\<close> at \<open>img\<close>), and paragraphs lose all
  their markup before links, images, emphasis and code are looked for. A reference link gets a name
  but no definition, so its URL is gone, and names collide. Links from the root of a host are
  appended to the URL of the page. What is left by removing an element can be such an element.
\<close>

lemma paragraph_loses_links:
  "htmlToMarkdown DefaultMarkdownConfig ''<p>see <a href='u'>t</a> <b>now</b></p>'' = ''see t now'' @ nl"
  by code_simp

lemma paragraph_eats_code:
  "htmlToMarkdown DefaultMarkdownConfig ''<pre><code>x</code></pre><p>y</p>'' = ''xy'' @ nl"
  by code_simp

lemma image_is_italic:
  "htmlToMarkdown DefaultMarkdownConfig ''<img src='u'>a<i>b</i>'' = ''*a<i>b*'' @ nl"
  by code_simp

lemma reference_without_definition:
  "htmlToMarkdown DefaultMarkdownConfig ''<a href='http://h/a?b'>t</a>'' = ''[t][h-a-b]'' @ nl"
  "sanitizeRef ''http://h/a?b'' = sanitizeRef ''https://h/a/b''"
  by code_simp+

lemma root_link_is_appended:
  "map ml_URL (extractLinks ''<a href='/c'>t</a>'' ''https://h/a/b'') = [''https://h/a/b/c'']"
  by code_simp

lemma script_is_put_together:
  "cleanHTML ''<scr<script></script>ipt>x</script>'' = ''<script>x</script>''"
  by code_simp

section \<open>Witnesses\<close>

theorem tables_roundtrip_witness:
  "extractTables (table_html [''A'', ''B|''] [[''1'', ''2''], []]) = [\<lparr>mt_Headers = [''A'', ''B|''], mt_Rows = [[''1'', ''2''], []]\<rparr>]"
proof -
  have "\<forall>c\<in>set [''A'', ''B|'']. plain_cell c" "\<forall>r\<in>set [[''1'', ''2''], []]. \<forall>c\<in>set r. plain_cell c" by code_simp+
  then show ?thesis using tables_roundtrip [of "[''A'', ''B|'']" "[[''1'', ''2''], []]"] by simp
qed

end
