(* ===== verification/JsUrls.thy ===== *)
theory JsUrls
  imports GoRegexp GoPath "HOL-Library.Multiset"
begin

text \<open>
  URLs in scripts, \<open>internal/jsanalyzer/analyzer.go\<close>. The table of expressions is a Go map, iterated in any
  order: the order is an argument of the operations. The package has its own small URL type; its
  \<open>parseURL\<close> never returns an error.
\<close>

section \<open>Expressions\<close>

abbreviation spaces :: re where
  "spaces \<equiv> Many re_space"

abbreviation unquoted :: "char \<Rightarrow> bool" where
  "unquoted \<equiv> \<lambda>c. \<not> quote_mark c"

definition quoted :: "nat \<Rightarrow> re" where
  "quoted i = seqs [Cls quote_mark, Cap i (some_of unquoted), Cls quote_mark]"

text \<open>A name, an opening parenthesis and what follows it, with white space between.\<close>

definition call_re :: "re \<Rightarrow> re \<Rightarrow> re" where
  "call_re name rest = seqs [name, spaces, lit ''('', spaces, rest]"

definition lazy_import :: re where
  "lazy_import = seqs [lit ''('', spaces, lit '')'', spaces, lit ''=>'', spaces, call_re (lit ''import'') (quoted 1)]"

definition js_patterns :: "(string \<times> re) list" where
  "js_patterns =
     [(''dynamic-import'', seqs [call_re (lit ''import'') (quoted 1), spaces, lit '')'']),
      (''require'', seqs [call_re (lit ''require'') (quoted 1), spaces, lit '')'']),
      (''fetch'', call_re (lit ''fetch'') (quoted 1)),
      (''xhr-open'', call_re (lit ''.open'') (seqs [Cls quote_mark, Many unquoted, Cls quote_mark, spaces, lit '','', spaces, quoted 1])),
      (''importScripts'', call_re (lit ''importScripts'') (quoted 1)),
      (''system-import'', call_re (lit ''System.import'') (quoted 1)),
      (''axios'', seqs [lit ''axios'', spaces, lit ''.'', spaces,
          call_re (alts [lit ''get'', lit ''post'', lit ''put'', lit ''patch'', lit ''delete'', lit ''head'', lit ''options'']) (quoted 1)]),
      (''jquery-ajax'', call_re (lit ''$.ajax'') (seqs [lit ''{'', Many (\<lambda>c. c \<noteq> CHR ''}''), lit ''url'', spaces, lit '':'', spaces, quoted 1])),
      (''define-async'', call_re (lit ''defineAsyncComponent'') lazy_import),
      (''react-lazy'', call_re (lit ''React.lazy'') lazy_import),
      (''vue-lazy'', call_re (lit ''Vue.component'')
          (seqs [Cls quote_mark, some_of unquoted, Cls quote_mark, spaces, lit '','', spaces, lazy_import])),
      (''webpack-chunk'', seqs [lit ''webpackChunkName'', spaces, lit '':'', spaces, quoted 1]),
      (''webpack-require'', call_re (lit ''__webpack_require__'') (quoted 1))]"

definition importMapRegex :: re where
  "importMapRegex =
     seqs [lit ''<script'', Many (\<lambda>c. c \<noteq> CHR ''>''), lit ''type='', Cls quote_mark, lit ''importmap'', Cls quote_mark,
           Many (\<lambda>c. c \<noteq> CHR ''>''), lit ''>'', Cap 1 (Few (\<lambda>c. True)), lit ''</script>'']"

definition moduleScriptRegex :: re where
  "moduleScriptRegex =
     seqs [lit ''<script'', Many (\<lambda>c. c \<noteq> CHR ''>''), lit ''type='', Cls quote_mark, lit ''module'', Cls quote_mark,
           Many (\<lambda>c. c \<noteq> CHR ''>''), lit ''src='', quoted 1]"

definition urlInImportMapRegex :: re where
  "urlInImportMapRegex = seqs [quoted 1, spaces, lit '':'', spaces, quoted 2]"

section \<open>URLs\<close>

record js_url =
  ju_Scheme :: string
  ju_Host :: string
  ju_Path :: string

definition js_parseURL :: "string \<Rightarrow> js_url" where
  "js_parseURL raw =
     (if has_prefix raw ''http://'' \<or> has_prefix raw ''https://'' then
        (let protoEnd = (case index_of raw ''://'' of Some i \<Rightarrow> i | None \<Rightarrow> 0);
             rest = drop (protoEnd + 3) raw
         in case index_of rest ''/'' of
              None \<Rightarrow> \<lparr>ju_Scheme = take protoEnd raw, ju_Host = rest, ju_Path = ''/''\<rparr>
            | Some hostEnd \<Rightarrow> \<lparr>ju_Scheme = take protoEnd raw, ju_Host = take hostEnd rest, ju_Path = drop hostEnd rest\<rparr>)
      else \<lparr>ju_Scheme = [], ju_Host = [], ju_Path = raw\<rparr>)"

definition drop_dots :: "string list \<Rightarrow> string list" where
  "drop_dots parts =
     foldl (\<lambda>res p. if p = ''..'' then (if res \<noteq> [] then butlast res else res)
                    else if p \<noteq> [] \<and> p \<noteq> ''.'' then res @ [p] else res) [] parts"

definition js_resolvePath :: "string \<Rightarrow> string \<Rightarrow> string" where
  "js_resolvePath basePath refPath =
     (if has_prefix refPath ''/'' then refPath
      else
        (let baseDir = (case last_index_byte basePath CHR ''/'' of Some i \<Rightarrow> take (i + 1) basePath | None \<Rightarrow> ''/'')
         in ''/'' @ join ''/'' (drop_dots (split_byte CHR ''/'' (baseDir @ refPath)))))"

definition js_ResolveReference :: "js_url \<Rightarrow> js_url \<Rightarrow> js_url" where
  "js_ResolveReference u ref =
     (if ju_Scheme ref \<noteq> [] then ref
      else if ju_Host ref \<noteq> [] then \<lparr>ju_Scheme = ju_Scheme u, ju_Host = ju_Host ref, ju_Path = ju_Path ref\<rparr>
      else \<lparr>ju_Scheme = ju_Scheme u, ju_Host = ju_Host u, ju_Path = js_resolvePath (ju_Path u) (ju_Path ref)\<rparr>)"

definition js_String :: "js_url \<Rightarrow> string" where
  "js_String u = (if ju_Scheme u \<noteq> [] \<and> ju_Host u \<noteq> [] then ju_Scheme u @ ''://'' @ ju_Host u @ ju_Path u else ju_Path u)"

definition js_isValidURL :: "string \<Rightarrow> bool" where
  "js_isValidURL url \<longleftrightarrow> url \<noteq> [] \<and> (has_prefix url ''http://'' \<or> has_prefix url ''https://'')"

definition js_resolveURL :: "string \<Rightarrow> string \<Rightarrow> string" where
  "js_resolveURL baseURL ref =
     (if ref = [] then []
      else if has_prefix ref ''http://'' \<or> has_prefix ref ''https://'' then ref
      else if has_prefix ref ''data:'' \<or> has_prefix ref ''blob:'' then []
      else js_String (js_ResolveReference (js_parseURL baseURL) (js_parseURL ref)))"

section \<open>Extraction\<close>

type_synonym analyzed_url = "string \<times> string"

definition pattern_urls :: "nat \<Rightarrow> string \<Rightarrow> string \<Rightarrow> string \<Rightarrow> re \<Rightarrow> analyzed_url list" where
  "pattern_urls i urlType baseURL text re =
     filter (\<lambda>(url, t). js_isValidURL url) (map (\<lambda>(m, g). (js_resolveURL baseURL (group g i), urlType)) (find_all re text))"

definition extractWithRegex :: "(string \<times> re) list \<Rightarrow> string \<Rightarrow> string \<Rightarrow> analyzed_url list" where
  "extractWithRegex patterns jsContent baseURL =
     concat (map (\<lambda>(urlType, re). pattern_urls 1 urlType baseURL jsContent re) patterns)"

text \<open>The loop with the map of the keys seen.\<close>

fun add_unseen :: "analyzed_url list \<Rightarrow> string set \<Rightarrow> analyzed_url list" where
  "add_unseen [] seen = []"
| "add_unseen (u # us) seen =
     (let key = fst u @ ''|'' @ snd u
      in if key \<in> seen then add_unseen us seen else u # add_unseen us (insert key seen))"

definition ExtractJSURLs :: "(string \<times> re) list \<Rightarrow> string \<Rightarrow> string \<Rightarrow> analyzed_url list" where
  "ExtractJSURLs patterns jsContent baseURL = add_unseen (extractWithRegex patterns jsContent baseURL) {}"

definition extractImportMapURLs :: "string \<Rightarrow> string \<Rightarrow> analyzed_url list" where
  "extractImportMapURLs content baseURL = pattern_urls 2 ''importmap'' baseURL content urlInImportMapRegex"

definition ExtractFromHTML :: "string \<Rightarrow> string \<Rightarrow> analyzed_url list" where
  "ExtractFromHTML htmlContent baseURL =
     add_unseen
       (concat (map (\<lambda>(m, g). extractImportMapURLs (group g 1) baseURL) (find_all importMapRegex htmlContent)) @
        pattern_urls 1 ''module-script'' baseURL htmlContent moduleScriptRegex) {}"

section \<open>Lemmas\<close>

lemma key_inject:
  assumes "CHR ''|'' \<notin> set t" "CHR ''|'' \<notin> set t'" "u @ ''|'' @ t = u' @ ''|'' @ t'"
  shows "u = u' \<and> t = t'"
proof -
  have k: "last_index_byte (u @ CHR ''|'' # t) CHR ''|'' = Some (length u)" if "CHR ''|'' \<notin> set t" for u t
  proof (induction u)
    case Nil
    then show ?case using that last_index_byte_None [of t "CHR ''|''"] by simp
  qed simp
  have "length u = length u'" using k [OF assms(1), of u] k [OF assms(2), of u'] assms(3) by simp
  then show ?thesis using assms(3) by simp
qed

text \<open>Types without a bar make the key unique, so the loop is \<open>remdups\<close> up to order: every URL once, none lost.\<close>

lemma add_unseen_spec:
  assumes "\<forall>u\<in>set us. CHR ''|'' \<notin> set (snd u)"
  shows "distinct (add_unseen us seen) \<and> set (add_unseen us seen) = {u \<in> set us. fst u @ ''|'' @ snd u \<notin> seen}"
  using assms
proof (induction us arbitrary: seen)
  case (Cons u us)
  let ?k = "fst u @ ''|'' @ snd u"
  have same: "v = u" if "v \<in> set us" "fst v @ ''|'' @ snd v = ?k" for v
    using key_inject [of "snd v" "snd u" "fst v" "fst u"] that Cons.prems by (auto simp: prod_eq_iff)
  have ih: "distinct (add_unseen us s) \<and> set (add_unseen us s) = {v \<in> set us. fst v @ ''|'' @ snd v \<notin> s}" for s
    using Cons by simp
  show ?case
  proof (cases "?k \<in> seen")
    case True
    then show ?thesis using ih [of seen] by (auto simp: Let_def)
  next
    case False
    have "set (add_unseen us (insert ?k seen)) = {v \<in> set us. fst v @ ''|'' @ snd v \<notin> seen} - {u}"
      using ih [of "insert ?k seen"] same by auto
    then show ?thesis using False ih [of "insert ?k seen"] by (auto simp: Let_def)
  qed
qed simp

lemma js_types_plain: "(t, re) \<in> set js_patterns \<Longrightarrow> CHR ''|'' \<notin> set t"
  by (auto simp: js_patterns_def)

lemma pattern_urls_iff:
  "(url, t) \<in> set (pattern_urls i urlType baseURL text re) \<longleftrightarrow>
     t = urlType \<and> js_isValidURL url \<and> (\<exists>m g. (m, g) \<in> set (find_all re text) \<and> url = js_resolveURL baseURL (group g i))"
  by (force simp: pattern_urls_def)

lemma drop_dots_plain:
  "\<forall>p\<in>set parts. CHR ''/'' \<notin> set p \<Longrightarrow> \<forall>c\<in>set (drop_dots parts). plain_comp c"
proof (induction parts rule: rev_induct)
  case (snoc p parts)
  let ?r = "drop_dots parts"
  have ih: "\<forall>c\<in>set ?r. plain_comp c" and p: "CHR ''/'' \<notin> set p" using snoc by simp_all
  have step: "drop_dots (parts @ [p]) = (if p = ''..'' then (if ?r \<noteq> [] then butlast ?r else ?r)
      else if p \<noteq> [] \<and> p \<noteq> ''.'' then ?r @ [p] else ?r)" by (simp add: drop_dots_def)
  consider "p = ''..''" | "p = [] \<or> p = ''.''" | "plain_comp p" using p unfolding plain_comp_def by blast
  then show ?case
  proof cases
    case 1
    then show ?thesis using ih unfolding step by (auto dest: in_set_butlastD)
  next
    case 2
    then show ?thesis using ih unfolding step by auto
  next
    case 3
    then show ?thesis using ih unfolding step by (simp add: plain_comp_def [of p])
  qed
qed (simp add: drop_dots_def)

section \<open>Properties\<close>

text \<open>C25: the URLs found in a script are exactly the matches of the table, each once. Whatever the order in which
  Go goes through its map, the result has no duplicates and holds a URL with a type exactly if some
  match of the expression of that type resolves to it and it is an http URL.\<close>

theorem ExtractJSURLs_exact:
  assumes "mset patterns = mset js_patterns"
  shows "distinct (ExtractJSURLs patterns js baseURL) \<and>
     (\<forall>url t. (url, t) \<in> set (ExtractJSURLs patterns js baseURL) \<longleftrightarrow>
        js_isValidURL url \<and> (\<exists>re m g. (t, re) \<in> set js_patterns \<and> (m, g) \<in> set (find_all re js) \<and> url = js_resolveURL baseURL (group g 1)))"
proof -
  have s: "set patterns = set js_patterns" using assms by (metis set_mset_mset)
  have u: "(url, t) \<in> set (extractWithRegex patterns js baseURL) \<longleftrightarrow>
      js_isValidURL url \<and> (\<exists>re m g. (t, re) \<in> set js_patterns \<and> (m, g) \<in> set (find_all re js) \<and> url = js_resolveURL baseURL (group g 1))" for url t
    by (auto simp: extractWithRegex_def s pattern_urls_iff)
  have "CHR ''|'' \<notin> set (snd x)" if "x \<in> set (extractWithRegex patterns js baseURL)" for x
    using that u [of "fst x" "snd x"] js_types_plain by auto
  then show ?thesis using add_unseen_spec [of "extractWithRegex patterns js baseURL" "{}"] u
    by (simp add: ExtractJSURLs_def)
qed

text \<open>C26: a relative reference resolves to a path from the root without empty, dot or parent components, so it
  never leaves the host it is resolved on.\<close>

theorem js_resolvePath_is_clean:
  assumes "\<not> has_prefix refPath ''/''"
  shows "\<exists>cs. js_resolvePath basePath refPath = ''/'' @ join ''/'' cs \<and> (\<forall>c\<in>set cs. plain_comp c)"
proof -
  have "\<exists>cs. js_resolvePath basePath refPath = ''/'' @ join ''/'' (drop_dots (split_byte CHR ''/'' cs))"
    using assms unfolding js_resolvePath_def Let_def if_not_P [OF assms] by blast
  then show ?thesis using drop_dots_plain split_byte_no_sep by blast
qed

section \<open>What the analysis gets wrong\<close>

text \<open>
  A reference that leaves out the scheme is taken for a path of the page's own host; a slash in the
  query of the page counts as one of its path; the expressions look for names, not words; a module
  script that names its source first is missed.
\<close>

lemma scheme_relative_stays_on_host: "js_resolveURL ''https://h/a'' ''//cdn/x.js'' = ''https://h//cdn/x.js''"
  by code_simp

lemma query_counts_as_path: "js_resolveURL ''https://h/a?next=/b/c'' ''x.js'' = ''https://h/a?next=/b/x.js''"
  by code_simp

lemma names_are_not_words: "ExtractJSURLs [(''fetch'', call_re (lit ''fetch'') (quoted 1))] ''prefetch('u')'' ''https://h/'' = [(''https://h/u'', ''fetch'')]"
  by code_simp

lemma module_source_first_is_missed:
  "ExtractFromHTML ''<script src='m.js' type='module'>'' ''https://h/'' = []"
  "ExtractFromHTML ''<script type='module' src='m.js'>'' ''https://h/'' = [(''https://h/m.js'', ''module-script'')]"
  by code_simp+

section \<open>Witnesses\<close>

theorem ExtractJSURLs_exact_witness:
  "distinct (ExtractJSURLs (rev js_patterns) ''import('a.js')'' ''https://h/'')"
  using ExtractJSURLs_exact [of "rev js_patterns"] by simp

theorem js_resolvePath_is_clean_witness:
  "\<exists>cs. js_resolvePath ''/a/b'' ''../../../c'' = ''/'' @ join ''/'' cs \<and> (\<forall>c\<in>set cs. plain_comp c)"
  by (rule js_resolvePath_is_clean) simp

end
