(* ===== verification/JsRewrite.thy ===== *)
theory JsRewrite
  imports GoRegexp LocalLinks
begin

text \<open>
  The rewriting of scripts in the offline copy, \<open>internal/localize/js.go\<close>, and the whole pass \<open>Run\<close> of
  localize.go, which makes a \<open>JSReWriter\<close> in its last step. The expressions are given both as the texts
  that are compiled and, where they compile, as \<open>re\<close>. Slices out of range are the \<open>Panic\<close> of an outcome.
\<close>

section \<open>Compiling the patterns\<close>

text \<open>
  \<open>regexp.MustCompile\<close> panics on a text that is not an expression. What matters here: outside a class
  and in it, a backslash before a digit from 1 to 7 is an error unless an octal digit follows (Go has
  no back references).
\<close>

fun escapes_ok :: "string \<Rightarrow> bool" where
  "escapes_ok [] \<longleftrightarrow> True"
| "escapes_ok (c # s) \<longleftrightarrow>
     (if c = CHR 0x5C then
        (case s of
           [] \<Rightarrow> False
         | d # s' \<Rightarrow>
             if d \<in> set ''1234567'' \<and> (s' = [] \<or> hd s' \<notin> set ''01234567'') then False else escapes_ok s')
      else escapes_ok s)"

abbreviation bsl :: char where "bsl \<equiv> CHR 0x5C"
abbreviation dq :: char where "dq \<equiv> CHR 0x22"
abbreviation sq :: char where "sq \<equiv> CHR 0x27"
abbreviation bq :: char where "bq \<equiv> CHR 0x60"

text \<open>The texts of \<open>compilePatterns\<close>, in order.\<close>

definition quote_class :: string where
  "quote_class = ''['' @ [dq, sq] @ '']''"

definition not_quotes :: string where
  "not_quotes = ''([^'' @ [dq, sq] @ '']+)''"

definition sp_any :: string where
  "sp_any = [bsl] @ ''s*''"

definition publicPath_src :: string where
  "publicPath_src = ''__webpack_require__'' @ [bsl] @ ''.p'' @ sp_any @ ''='' @ sp_any @ quote_class @ not_quotes @ quote_class"

definition dynamicImport_src :: string where
  "dynamicImport_src = ''import'' @ sp_any @ [bsl] @ ''('' @ sp_any @ ''['' @ [dq, sq, bq] @ '']+([^'' @ [dq, sq, bq] @ '']+)['' @
     [dq, sq, bq] @ '']+'' @ sp_any @ [bsl] @ '')''"

definition nextData_src :: string where
  "nextData_src = ''<script[^>]*id='' @ quote_class @ ''__NEXT_DATA__'' @ quote_class @ ''[^>]*>'' @ sp_any @ ''('' @ [bsl] @ ''{.*?'' @
     [bsl] @ ''})'' @ sp_any @ ''</script>''"

definition nextImageLoader_src :: string where
  "nextImageLoader_src = ''__next_image_loader__'' @ sp_any @ ''='' @ sp_any @ quote_class @ not_quotes @ quote_class"

definition chunkLoad_src :: string where
  "chunkLoad_src = ''__webpack_require__'' @ [bsl] @ ''.e'' @ sp_any @ [bsl] @ ''('' @ sp_any @ quote_class @ not_quotes @ quote_class @
     sp_any @ [bsl] @ '')''"

definition back_ref_src :: "string \<Rightarrow> string" where
  "back_ref_src name = ''('' @ quote_class @ '')'' @ name @ [bsl] @ ''1'' @ sp_any @ '':'' @ sp_any @ [bsl] @ ''1'' @ not_quotes @ [bsl] @ ''1''"

definition urlInString_src :: string where
  "urlInString_src = ''['' @ [sq, dq, bq] @ '']+(https?://[^'' @ [sq, dq, bq, bsl] @ ''s]+)['' @ [sq, dq, bq] @ '']+''"

definition js_sources :: "string list" where
  "js_sources = [publicPath_src, dynamicImport_src, nextData_src, nextImageLoader_src, chunkLoad_src, back_ref_src ''assetPrefix'',
     back_ref_src ''buildId'', urlInString_src]"

text \<open>The maps and the root of a \<open>JSReWriter\<close> are those of a \<open>Rewriter\<close>.\<close>

definition NewJSReWriter :: "(string \<rightharpoonup> string) \<Rightarrow> (string \<rightharpoonup> string) \<Rightarrow> string \<Rightarrow> rewriter outcome" where
  "NewJSReWriter urlToLocal pageURLs localRoot =
     (if list_all escapes_ok js_sources
      then Returns \<lparr>rw_urlToLocal = urlToLocal, rw_pageURLs = pageURLs, rw_localRoot = localRoot\<rparr> else Panic)"

section \<open>The expressions\<close>

abbreviation no_quote :: "char \<Rightarrow> bool" where
  "no_quote \<equiv> \<lambda>c. \<not> quote_mark c"

definition any_quote :: "char \<Rightarrow> bool" where
  "any_quote c \<longleftrightarrow> quote_mark c \<or> c = bq"

text \<open>Group 1 is the URL; group 0 is what the match has before it.\<close>

definition url_after :: "re list \<Rightarrow> (char \<Rightarrow> bool) \<Rightarrow> re list \<Rightarrow> re" where
  "url_after pre P post = seqs (Cap 0 (seqs pre) # Cap 1 (some_of P) # post)"

definition publicPathRegex :: re where
  "publicPathRegex =
     url_after [lit ''__webpack_require__.p'', Many re_space, lit ''='', Many re_space, Cls quote_mark] no_quote [Cls quote_mark]"

definition dynamicImportRegex :: re where
  "dynamicImportRegex =
     url_after [lit ''import'', Many re_space, lit ''('', Many re_space, some_of any_quote] (\<lambda>c. \<not> any_quote c)
       [some_of any_quote, Many re_space, lit '')'']"

definition nextImageLoaderRegex :: re where
  "nextImageLoaderRegex =
     url_after [lit ''__next_image_loader__'', Many re_space, lit ''='', Many re_space, Cls quote_mark] no_quote [Cls quote_mark]"

definition webpackChunkLoadRegex :: re where
  "webpackChunkLoadRegex =
     url_after [lit ''__webpack_require__.e'', Many re_space, lit ''('', Many re_space, Cls quote_mark] no_quote
       [Cls quote_mark, Many re_space, lit '')'']"

definition urlInStringRegex :: re where
  "urlInStringRegex =
     (let inside = (\<lambda>c. \<not> any_quote c \<and> \<not> re_space c)
      in seqs [some_of any_quote, Cap 1 (seqs [lit ''http'', Alt (lit ''s'') Eps, lit ''://'', some_of inside]), some_of any_quote])"

section \<open>The rewriting\<close>

text \<open>
  The loop four operations share. For a match it writes the text up to and with the first byte of the
  URL, what is made of the URL without its first and last byte, and that first byte again.
\<close>

fun rewrite_matches :: "(string \<Rightarrow> string) \<Rightarrow> piece list \<Rightarrow> string outcome" where
  "rewrite_matches f [] = Returns []"
| "rewrite_matches f (Plain c # ps) = outcome_bind (rewrite_matches f ps) (\<lambda>out. Returns (c # out))"
| "rewrite_matches f (Match m g # ps) =
     (let url = group g 1
      in if length url < 2 then Panic
         else outcome_bind (rewrite_matches f ps) (\<lambda>out.
                Returns (group g 0 @ [hd url] @ f (butlast (tl url)) @ [hd url] @ out)))"

definition rewrite_with :: "re \<Rightarrow> (string \<Rightarrow> string) \<Rightarrow> string \<Rightarrow> (string \<times> bool) outcome" where
  "rewrite_with r f content =
     (if find_all r content = [] then Returns (content, False)
      else outcome_bind (rewrite_matches f (pieces r (length content) content)) (\<lambda>out. Returns (out, True)))"

definition computeRelativePublicPath :: "string \<Rightarrow> string" where
  "computeRelativePublicPath originalURL =
     (if \<not> has_prefix originalURL ''http://'' \<and> \<not> has_prefix originalURL ''https://'' \<and> \<not> has_prefix originalURL ''//''
      then originalURL else ''./_next/'')"

text \<open>\<open>parseURL\<close> of js.go: the scheme, the host and the path, or an error.\<close>

definition js_parse :: "string \<Rightarrow> (string \<times> string \<times> string) option" where
  "js_parse rawURL =
     (case index_of rawURL ''://'' of
        None \<Rightarrow> None
      | Some schemeEnd \<Rightarrow>
          (let rest = drop (schemeEnd + 3) rawURL
           in case index_of rest ''/'' of
                None \<Rightarrow> Some (take schemeEnd rawURL, rest, ''/'')
              | Some hostEnd \<Rightarrow> Some (take schemeEnd rawURL, take hostEnd rest, drop hostEnd rest)))"

definition resolveDynamicImport :: "(string \<rightharpoonup> string) \<Rightarrow> string \<Rightarrow> string" where
  "resolveDynamicImport urlToLocal originalURL =
     (if has_prefix originalURL ''./'' \<or> has_prefix originalURL ''../'' then originalURL
      else case urlToLocal originalURL of
          Some localPath \<Rightarrow> localPath
        | None \<Rightarrow>
            (case js_parse originalURL of
               None \<Rightarrow> originalURL
             | Some (scheme, host, path) \<Rightarrow>
                 (case urlToLocal (scheme @ ''://'' @ host @ path) of Some localPath \<Rightarrow> localPath | None \<Rightarrow> originalURL)))"

definition rewritePublicPath :: "string \<Rightarrow> (string \<times> bool) outcome" where
  "rewritePublicPath = rewrite_with publicPathRegex computeRelativePublicPath"

definition rewriteDynamicImports :: "(string \<rightharpoonup> string) \<Rightarrow> string \<Rightarrow> (string \<times> bool) outcome" where
  "rewriteDynamicImports urlToLocal = rewrite_with dynamicImportRegex (resolveDynamicImport urlToLocal)"

definition rewriteChunkLoading :: "string \<Rightarrow> (string \<times> bool) outcome" where
  "rewriteChunkLoading = rewrite_with webpackChunkLoadRegex (\<lambda>chunkName. chunkName)"

definition rewriteNextImageLoader :: "(string \<rightharpoonup> string) \<Rightarrow> string \<Rightarrow> (string \<times> bool) outcome" where
  "rewriteNextImageLoader urlToLocal = rewrite_with nextImageLoaderRegex (resolveDynamicImport urlToLocal)"

definition computeRelativePath :: "string \<Rightarrow> string \<Rightarrow> string \<Rightarrow> string" where
  "computeRelativePath localRoot sourcePath targetPath =
     (case (filepath_Rel localRoot sourcePath, filepath_Rel localRoot targetPath) of
        (Some sourceRel, Some targetRel) \<Rightarrow>
          (case filepath_Rel (filepath_Dir sourceRel) targetRel of None \<Rightarrow> targetRel | Some rel \<Rightarrow> rel)
      | _ \<Rightarrow> targetPath)"

text \<open>
  The last operation skips a URL it does not know without writing it: it stays part of the text that
  the next replacement, or the end, writes. The quote is the first byte of the match.
\<close>

definition js_url_text :: "rewriter \<Rightarrow> string \<Rightarrow> string \<Rightarrow> captures \<Rightarrow> string option" where
  "js_url_text rw jsPath m g =
     (let url = group g 1
      in if list_ex (has_prefix url) [''./'', ''../'', ''data:'', ''blob:'', ''javascript:'', ''mailto:'', ''tel:''] then None
         else case rw_urlToLocal rw url of
             None \<Rightarrow> None
           | Some localPath \<Rightarrow> Some (take 1 m @ computeRelativePath (rw_localRoot rw) jsPath localPath @ take 1 m))"

definition rewriteJSStringURLs :: "rewriter \<Rightarrow> string \<Rightarrow> string \<Rightarrow> string \<times> bool" where
  "rewriteJSStringURLs rw content jsPath =
     (replace_fun urlInStringRegex (\<lambda>m g. case js_url_text rw jsPath m g of Some t \<Rightarrow> t | None \<Rightarrow> m) content,
      list_ex (\<lambda>(m, g). js_url_text rw jsPath m g \<noteq> None) (find_all urlInStringRegex content))"

section \<open>The pass\<close>

text \<open>
  \<open>Run\<close> with what the operating system tells it: the two roots made absolute (or an error), whether the
  clone is a directory, the errors of removing, making and copying, and what the rewriting of pages
  and sheets does, \<open>tree\<close>, given the rewriter. The error is a text, the result the number of mappings.
\<close>

definition run_refuses :: "string \<Rightarrow> string \<Rightarrow> bool" where
  "run_refuses cloneRoot localRoot \<longleftrightarrow> localRoot = cloneRoot \<or> has_prefix (cloneRoot @ ''/'') (localRoot @ ''/'')"

definition localize_Run :: "string option \<Rightarrow> string option \<Rightarrow> bool \<Rightarrow> bool \<Rightarrow> bool \<Rightarrow> bool \<Rightarrow>
    (string \<Rightarrow> string \<Rightarrow> url_maps) \<Rightarrow> (rewriter \<Rightarrow> unit outcome) \<Rightarrow> (rewriter \<Rightarrow> unit outcome) \<Rightarrow> (string + url_maps) outcome" where
  "localize_Run clone loc isDir removes makes copies mapping tree js =
     (case (clone, loc) of
        (Some cloneRoot, Some localRoot) \<Rightarrow>
          if \<not> isDir then Returns (Inl ''file does not exist'')
          else if run_refuses cloneRoot localRoot then Returns (Inl ''localized directory must not be the clone directory or an ancestor of it'')
          else if \<not> removes \<or> \<not> makes \<or> \<not> copies then Returns (Inl ''i/o error'')
          else
            (let maps = mapping cloneRoot localRoot; rw = NewRewriter maps localRoot
             in outcome_bind (tree rw) (\<lambda>_.
                  outcome_bind (NewJSReWriter (fst maps) (snd maps) localRoot) (\<lambda>jsrw.
                    outcome_bind (js jsrw) (\<lambda>_. Returns (Inr maps)))))
      | _ \<Rightarrow> Returns (Inl ''no working directory''))"

section \<open>Properties\<close>

lemma back_reference: "\<not> escapes_ok (back_ref_src ''assetPrefix'')" "\<not> escapes_ok (back_ref_src ''buildId'')"
  by code_simp+

lemma other_sources_compile:
  "list_all escapes_ok [publicPath_src, dynamicImport_src, nextData_src, nextImageLoader_src, chunkLoad_src, urlInString_src]"
  by code_simp

lemma NewJSReWriter_panics: "NewJSReWriter urlToLocal pageURLs localRoot = Panic"
  using back_reference by (simp add: NewJSReWriter_def js_sources_def)

text \<open>C27: the localize pass never succeeds. Two of the patterns for scripts use back references, which Go's
  \<open>regexp\<close> does not have, so making the rewriter for scripts panics: with any arguments \<open>Run\<close> either
  reports an error before it has rewritten anything, or panics after the pages have been rewritten.\<close>

theorem localize_Run_never_succeeds:
  "localize_Run clone loc isDir removes makes copies mapping tree js \<noteq> Returns (Inr maps) \<and>
   (clone = Some c \<and> loc = Some l \<and> isDir \<and> \<not> run_refuses c l \<and> removes \<and> makes \<and> copies \<longrightarrow>
      localize_Run clone loc isDir removes makes copies mapping tree js = Panic)"
  by (cases "tree (NewRewriter (mapping c l) l)") (auto simp: localize_Run_def NewJSReWriter_panics Let_def outcome_bind_Panic_iff outcome_bind_Returns_iff split: option.splits)

theorem localize_Run_never_succeeds_witness:
  "localize_Run (Some ''/c'') (Some ''/l'') True True True True (\<lambda>c l. (Map.empty, Map.empty)) (\<lambda>rw. Returns ()) (\<lambda>rw. Returns ()) = Panic"
proof -
  have "\<not> run_refuses ''/c'' ''/l''" by code_simp
  then show ?thesis
    using localize_Run_never_succeeds [where clone = "Some ''/c''" and loc = "Some ''/l''" and isDir = True and removes = True
        and makes = True and copies = True and c = "''/c''" and l = "''/l''"] by blast
qed

text \<open>
  The guard of the pass: for a localized directory other than the root of the file system, what is not
  refused removes no file of the clone; the root itself is not refused.
\<close>

lemma run_guard:
  assumes "\<not> run_refuses cloneRoot localRoot" "has_prefix p (cloneRoot @ ''/'')" "\<not> has_prefix localRoot (cloneRoot @ ''/'')"
  shows "p \<noteq> localRoot \<and> \<not> has_prefix p (localRoot @ ''/'')"
proof -
  obtain q where p: "p = cloneRoot @ CHR ''/'' # q" using assms(2) by (auto simp: has_prefix_iff)
  have "\<not> has_prefix p (localRoot @ ''/'')"
  proof
    assume "has_prefix p (localRoot @ ''/'')"
    then obtain r where r: "cloneRoot @ CHR ''/'' # q = localRoot @ CHR ''/'' # r" using p by (auto simp: has_prefix_iff)
    then show False
      using assms(1,3) by (auto simp: run_refuses_def has_prefix_iff append_eq_append_conv2 Cons_eq_append_conv append_eq_Cons_conv)
  qed
  then show ?thesis using assms(2,3) by auto
qed

lemma root_is_not_refused: "\<not> run_refuses ''/c'' ''/''"
  by code_simp

text \<open>What the loop would do to an import if the patterns compiled: the first byte of the URL is taken for the quote.\<close>

lemma import_is_mangled:
  "rewriteDynamicImports Map.empty ''import('./a.js');'' = Returns (''import('./a.j.;'', True)"
  "rewriteDynamicImports Map.empty ''import('a');'' = Panic"
  by code_simp+

end
