(* ===== verification/Scheduler.thy ===== *)
theory Scheduler
  imports GoNetURL "HOL-Library.Code_Target_Nat" "HOL-Library.Code_Target_Int"
begin

text \<open>
  Scheduled jobs, \<open>internal/scheduler/scheduler.go\<close>. Times are nanoseconds, and whole minutes where the
  code has truncated them; \<open>civil\<close> gives the calendar fields of a minute (they depend on the time
  zone), \<open>duration\<close> is \<open>time.ParseDuration\<close>. The mutex makes each operation one step.
\<close>

section \<open>Matching a field\<close>

text \<open>
  \<open>%d\<close> of \<open>Sscanf\<close>: a sign, digits, a value in the range of \<open>int\<close>. \<open>Sscanf\<close> stops at the first failure and
  leaves the variables it has not reached as they are, which is 0.
\<close>

definition digits_value :: "string \<Rightarrow> int" where
  "digits_value ds = foldl (\<lambda>n c. 10 * n + (int (byte_of c) - 48)) 0 ds"

definition scan_int :: "string \<Rightarrow> (int \<times> string) option" where
  "scan_int s =
     (let neg = has_prefix s ''-''; r = (if neg \<or> has_prefix s ''+'' then tl s else s);
          ds = takeWhile is_digit r; n = (if neg then - digits_value ds else digits_value ds)
      in if ds = [] \<or> n < - (2 ^ 63) \<or> n \<ge> 2 ^ 63 then None else Some (n, dropWhile is_digit r))"

definition scan_range :: "string \<Rightarrow> int \<times> int" where
  "scan_range p =
     (case scan_int p of
        None \<Rightarrow> (0, 0)
      | Some (lo, r) \<Rightarrow>
          if has_prefix r ''-'' then (case scan_int (tl r) of Some (hi, _) \<Rightarrow> (lo, hi) | None \<Rightarrow> (lo, 0))
          else (lo, 0))"

definition scan_step :: "string \<Rightarrow> int" where
  "scan_step p = (if has_prefix p ''*/'' then (case scan_int (drop 2 p) of Some (step, _) \<Rightarrow> step | None \<Rightarrow> 0) else 0)"

fun show_nat :: "nat \<Rightarrow> string" where
  "show_nat n = (if n < 10 then [] else show_nat (n div 10)) @ [char_of (48 + n mod 10)]"

declare show_nat.simps [simp del]

definition match_item :: "int \<Rightarrow> int \<Rightarrow> string \<Rightarrow> bool" where
  "match_item value low p0 =
     (let p = trim_space p0
      in p = show_nat (nat value) \<or>
         (contains p ''-'' \<and> (case scan_range p of (lo, hi) \<Rightarrow> lo \<le> value \<and> value \<le> hi)) \<or>
         (contains p ''/'' \<and> (let step = scan_step p in step > 0 \<and> (value - low) mod step = 0)))"

definition matchField :: "string \<Rightarrow> int \<Rightarrow> int \<Rightarrow> bool" where
  "matchField pattern value low =
     (if pattern = ''*'' then True else list_ex (match_item value low) (split_byte CHR '','' pattern))"

section \<open>Cron expressions\<close>

record cron_time =
  ct_Minute :: int
  ct_Hour :: int
  ct_Day :: int
  ct_Month :: int
  ct_Weekday :: int

definition matchCron :: "string list \<Rightarrow> cron_time \<Rightarrow> bool" where
  "matchCron flds t =
     (let dom = matchField (flds ! 2) (ct_Day t) 1;
          month = matchField (flds ! 3) (ct_Month t) 1;
          dow = matchField (flds ! 4) (ct_Weekday t) 0;
          dayMatch = (if flds ! 2 = ''*'' \<or> flds ! 4 = ''*'' then dom \<and> dow else dom \<or> dow)
      in matchField (flds ! 0) (ct_Minute t) 0 \<and> matchField (flds ! 1) (ct_Hour t) 0 \<and> month \<and> dayMatch)"

definition minute_ns :: int where
  "minute_ns = 60 * 10 ^ 9"

definition day_ns :: int where
  "day_ns = 24 * 60 * minute_ns"

text \<open>The loop over the next minutes.\<close>

fun find_minute :: "(int \<Rightarrow> bool) \<Rightarrow> int \<Rightarrow> nat \<Rightarrow> int option" where
  "find_minute P m 0 = None"
| "find_minute P m (Suc n) = (if P (m + 1) then Some (m + 1) else find_minute P (m + 1) n)"

definition cron_window :: nat where
  "cron_window = 525600"

definition cron_next :: "(int \<Rightarrow> cron_time) \<Rightarrow> string list \<Rightarrow> int \<Rightarrow> int" where
  "cron_next civil flds t =
     (case find_minute (\<lambda>m. matchCron flds (civil m)) (t div minute_ns) cron_window of
        Some m \<Rightarrow> m * minute_ns
      | None \<Rightarrow> t + day_ns)"

text \<open>\<open>strings.Fields\<close>.\<close>

fun words_of :: "string \<Rightarrow> string \<Rightarrow> string list" where
  "words_of w [] = (if w = [] then [] else [w])"
| "words_of w (c # s) = (if is_space_byte c then (if w = [] then words_of [] s else w # words_of [] s) else words_of (w @ [c]) s)"

definition parseCron :: "(string \<Rightarrow> int option) \<Rightarrow> (int \<Rightarrow> cron_time) \<Rightarrow> string \<Rightarrow> (int \<Rightarrow> int) option" where
  "parseCron duration civil expr0 =
     (let expr = trim_space expr0
      in if has_prefix expr ''@every '' \<or> has_prefix expr ''every ''
         then map_option (\<lambda>dur t. t + dur) (duration (trim_prefix (trim_prefix expr ''@every '') ''every ''))
         else let flds = words_of [] expr
              in if length flds \<noteq> 5 then None else Some (cron_next civil flds))"

section \<open>The scheduler\<close>

record sched_job =
  sj_ID :: string
  sj_Name :: string
  sj_CronExpr :: string

text \<open>
  A job of a started scheduler has a goroutine, which waits for its timer or executes the job's function. It
  belongs to a call of \<open>Start\<close>, and ends when the context of that call is cancelled. A timer that was stopped never
  fires: its goroutine waits until the context is cancelled. \<open>running\<close> in \<open>runJob\<close> is false whenever the timer
  fires, because the function is called in the loop itself.
\<close>

datatype job_state = Waiting int | Executing | Blocked

type_synonym job_run = "nat \<times> sched_job \<times> job_state"

record scheduler =
  sc_jobs :: "sched_job list"
  sc_runs :: "job_run list"
  sc_starts :: nat
  sc_cancelled :: "nat list"

definition sched_New :: scheduler where
  "sched_New = \<lparr>sc_jobs = [], sc_runs = [], sc_starts = 0, sc_cancelled = []\<rparr>"

definition sched_Add :: "(string \<Rightarrow> int option) \<Rightarrow> (int \<Rightarrow> cron_time) \<Rightarrow> sched_job \<Rightarrow> scheduler \<Rightarrow> bool \<times> scheduler" where
  "sched_Add duration civil job s =
     (case parseCron duration civil (sj_CronExpr job) of
        None \<Rightarrow> (False, s)
      | Some _ \<Rightarrow> (True, s\<lparr>sc_jobs := sc_jobs s @ [job]\<rparr>))"

text \<open>One round of \<open>runJob\<close> up to its timer: the time the timer fires.\<close>

definition fire_time :: "(int \<Rightarrow> int) \<Rightarrow> int \<Rightarrow> int" where
  "fire_time nxt now =
     (let n0 = nxt now; n1 = (if n0 < now then nxt (now + minute_ns) else n0)
      in if n1 < now then now else n1)"

definition start_job :: "(string \<Rightarrow> int option) \<Rightarrow> (int \<Rightarrow> cron_time) \<Rightarrow> int \<Rightarrow> nat \<Rightarrow> sched_job \<Rightarrow> job_run list" where
  "start_job duration civil now g job =
     (case parseCron duration civil (sj_CronExpr job) of
        None \<Rightarrow> []
      | Some nxt \<Rightarrow> [(g, job, Waiting (fire_time nxt now))])"

definition sched_Start :: "(string \<Rightarrow> int option) \<Rightarrow> (int \<Rightarrow> cron_time) \<Rightarrow> int \<Rightarrow> scheduler \<Rightarrow> scheduler" where
  "sched_Start duration civil now s =
     (let g = Suc (sc_starts s)
      in s\<lparr>sc_starts := g, sc_runs := sc_runs s @ concat (map (start_job duration civil now g) (sc_jobs s))\<rparr>)"

text \<open>\<open>Stop\<close> cancels the context of the last \<open>Start\<close> and stops the timers of all.\<close>

definition cancel_run :: "nat list \<Rightarrow> job_run \<Rightarrow> job_run list" where
  "cancel_run cancelled r =
     (case r of (g, job, st) \<Rightarrow>
        (case st of
           Executing \<Rightarrow> [r]
         | _ \<Rightarrow> if g \<in> set cancelled then [] else [(g, job, Blocked)]))"

definition sched_Stop :: "scheduler \<Rightarrow> scheduler" where
  "sched_Stop s =
     (let cs = (if sc_starts s = 0 then sc_cancelled s else sc_starts s # sc_cancelled s)
      in s\<lparr>sc_cancelled := cs, sc_runs := concat (map (cancel_run cs) (sc_runs s))\<rparr>)"

text \<open>The timer of run \<open>i\<close> fires at \<open>now\<close> and the function is called; the function of run \<open>i\<close> returns at \<open>now\<close>.\<close>

definition sched_fire :: "nat \<Rightarrow> int \<Rightarrow> scheduler \<Rightarrow> scheduler" where
  "sched_fire i now s =
     (if i < length (sc_runs s)
      then case sc_runs s ! i of
             (g, job, Waiting t) \<Rightarrow> if t \<le> now then s\<lparr>sc_runs := (sc_runs s)[i := (g, job, Executing)]\<rparr> else s
           | _ \<Rightarrow> s
      else s)"

definition sched_return :: "(string \<Rightarrow> int option) \<Rightarrow> (int \<Rightarrow> cron_time) \<Rightarrow> nat \<Rightarrow> int \<Rightarrow> scheduler \<Rightarrow> scheduler" where
  "sched_return duration civil i now s =
     (if i < length (sc_runs s)
      then case sc_runs s ! i of
             (g, job, Executing) \<Rightarrow>
               s\<lparr>sc_runs := take i (sc_runs s) @
                  (if g \<in> set (sc_cancelled s) then [] else start_job duration civil now g job) @ drop (Suc i) (sc_runs s)\<rparr>
           | _ \<Rightarrow> s
      else s)"

text \<open>The times a job of a running scheduler is called, given how long each call takes.\<close>

fun run_times :: "(int \<Rightarrow> int) \<Rightarrow> int \<Rightarrow> nat list \<Rightarrow> int list" where
  "run_times nxt now [] = []"
| "run_times nxt now (d # ds) = (let t = fire_time nxt now in t # run_times nxt (t + int d) ds)"

section \<open>Lemmas\<close>

lemma find_minute_Some:
  "find_minute P m n = Some k \<Longrightarrow> m < k \<and> k \<le> m + int n \<and> P k \<and> (\<forall>j. m < j \<and> j < k \<longrightarrow> \<not> P j)"
proof (induction P m n rule: find_minute.induct)
  case (2 P m n)
  show ?case
  proof (cases "P (m + 1)")
    case True
    then show ?thesis using 2 by auto
  next
    case False
    then have i: "m + 1 < k \<and> k \<le> m + 1 + int n \<and> P k \<and> (\<forall>j. m + 1 < j \<and> j < k \<longrightarrow> \<not> P j)" using 2 by auto
    have "\<not> P j" if "m < j" "j < k" for j using False i that by (cases "j = m + 1") auto
    then show ?thesis using i by auto
  qed
qed simp

lemma find_minute_None: "find_minute P m n = None \<Longrightarrow> m < j \<Longrightarrow> j \<le> m + int n \<Longrightarrow> \<not> P j"
proof (induction P m n arbitrary: j rule: find_minute.induct)
  case (2 P m n)
  then show ?case by (cases "j = m + 1") (auto split: if_splits)
qed simp

lemma trim_space_id: "s = [] \<or> \<not> is_space_byte (hd s) \<and> \<not> is_space_byte (last s) \<Longrightarrow> trim_space s = s"
  unfolding trim_space_def by (rule trim_by_id)

lemma digit_of: "n < 10 \<Longrightarrow> is_digit (char_of (48 + n)) \<and> byte_of (char_of (48 + n)) = 48 + n"
  by (simp add: is_digit_def)

lemma show_nat_digits: "show_nat n \<noteq> [] \<and> (\<forall>c\<in>set (show_nat n). is_digit c)"
proof (induction n rule: show_nat.induct)
  case (1 n)
  then show ?case using digit_of [of "n mod 10"] by (subst show_nat.simps) (auto simp: show_nat.simps [of n])
qed

lemma digits_value_snoc: "digits_value (ds @ [c]) = 10 * digits_value ds + (int (byte_of c) - 48)"
  by (simp add: digits_value_def)

lemma show_nat_value: "digits_value (show_nat n) = int n"
proof (induction n rule: show_nat.induct)
  case (1 n)
  have d: "byte_of (char_of (48 + n mod 10)) = 48 + n mod 10" using digit_of [of "n mod 10"] by simp
  show ?case
  proof (cases "n < 10")
    case True
    then show ?thesis using d by (subst show_nat.simps) (simp add: digits_value_def)
  next
    case False
    then have "digits_value (show_nat n) = 10 * int (n div 10) + int (n mod 10)"
      using 1 d by (subst show_nat.simps) (simp add: digits_value_snoc)
    then show ?thesis by (metis div_mult_mod_eq mult.commute of_nat_add of_nat_mult of_nat_numeral)
  qed
qed

lemma show_nat_inject: "show_nat a = show_nat b \<longleftrightarrow> a = b"
  using show_nat_value by (metis of_nat_eq_iff)

lemma digit_plain: "is_digit c \<Longrightarrow> c \<notin> set ''-+*/, '' \<and> \<not> is_space_byte c"
  by (auto simp: is_digit_def is_space_byte_def)

lemma scan_int_show:
  assumes "n < 2 ^ 63" "r = [] \<or> \<not> is_digit (hd r)"
  shows "scan_int (show_nat n @ r) = Some (int n, r)"
proof -
  have d: "\<forall>c\<in>set (show_nat n). is_digit c" "show_nat n \<noteq> []" using show_nat_digits by auto
  then have h: "\<not> has_prefix (show_nat n @ r) ''-''" "\<not> has_prefix (show_nat n @ r) ''+''"
    using digit_plain by (cases "show_nat n"; fastforce)+
  have t: "takeWhile is_digit (show_nat n @ r) = show_nat n" "dropWhile is_digit (show_nat n @ r) = r"
    using d assms(2) by (cases r; simp add: takeWhile_append2 dropWhile_append2)+
  have "int n < 2 ^ 63" using assms(1) by (metis of_nat_less_iff of_nat_numeral of_nat_power)
  then show ?thesis using h t d by (simp add: scan_int_def show_nat_value Let_def)
qed

section \<open>Fields\<close>

text \<open>The forms of a field and the values they stand for.\<close>

datatype cron_item = Only nat | Between nat nat | Every nat

fun show_item :: "cron_item \<Rightarrow> string" where
  "show_item (Only n) = show_nat n"
| "show_item (Between a b) = show_nat a @ ''-'' @ show_nat b"
| "show_item (Every k) = ''*/'' @ show_nat k"

fun item_small :: "cron_item \<Rightarrow> bool" where
  "item_small (Only n) \<longleftrightarrow> True"
| "item_small (Between a b) \<longleftrightarrow> a < 2 ^ 63 \<and> b < 2 ^ 63"
| "item_small (Every k) \<longleftrightarrow> k < 2 ^ 63"

fun item_holds :: "int \<Rightarrow> int \<Rightarrow> cron_item \<Rightarrow> bool" where
  "item_holds v low (Only n) \<longleftrightarrow> v = int n"
| "item_holds v low (Between a b) \<longleftrightarrow> int a \<le> v \<and> v \<le> int b"
| "item_holds v low (Every k) \<longleftrightarrow> k > 0 \<and> int k dvd v - low"

lemma show_nat_plain: "c \<in> set ''-+*/, '' \<or> is_space_byte c \<Longrightarrow> c \<notin> set (show_nat n)"
  using show_nat_digits [of n] digit_plain by blast

lemma show_nat_chars [simp]:
  "CHR ''-'' \<notin> set (show_nat n)" "CHR ''/'' \<notin> set (show_nat n)" "CHR '','' \<notin> set (show_nat n)" "CHR ''*'' \<notin> set (show_nat n)"
  by (rule show_nat_plain, simp)+

lemma show_nat_ne [simp]: "show_nat n \<noteq> []"
  using show_nat_digits by blast

lemma show_item_chars: "CHR '','' \<notin> set (show_item it)"
  by (cases it) simp_all

lemma show_item_trim: "trim_space (show_item it) = show_item it"
proof (rule trim_space_id)
  have h: "\<not> is_space_byte (hd (show_nat n))" "\<not> is_space_byte (last (show_nat n))" for n
    using show_nat_plain [of _ n] hd_in_set [OF show_nat_ne, of n] last_in_set [OF show_nat_ne, of n] by blast+
  have "\<not> is_space_byte (hd (show_item it)) \<and> \<not> is_space_byte (last (show_item it))"
  proof (cases it)
    case (Every k)
    moreover have "\<not> is_space_byte CHR ''*''" by code_simp
    ultimately show ?thesis using h by simp
  qed (use h in simp_all)
  then show "show_item it = [] \<or> \<not> is_space_byte (hd (show_item it)) \<and> \<not> is_space_byte (last (show_item it))" by simp
qed

lemma scan_range_show: "a < 2 ^ 63 \<Longrightarrow> b < 2 ^ 63 \<Longrightarrow> scan_range (show_nat a @ ''-'' @ show_nat b) = (int a, int b)"
proof -
  assume a: "a < 2 ^ 63" and b: "b < 2 ^ 63"
  have "\<not> is_digit CHR ''-''" by code_simp
  then show ?thesis using scan_int_show [OF a, of "''-'' @ show_nat b"] scan_int_show [OF b, of "[]"]
    by (simp add: scan_range_def)
qed

lemma scan_step_show: "k < 2 ^ 63 \<Longrightarrow> scan_step (''*/'' @ show_nat k) = int k"
  using scan_int_show [of k "[]"] by (simp add: scan_step_def)

lemma match_item_show: "item_small it \<Longrightarrow> 0 \<le> v \<Longrightarrow> match_item v low (show_item it) = item_holds v low it"
proof (cases it)
  case (Only n)
  moreover assume "0 \<le> v"
  ultimately show ?thesis unfolding match_item_def Let_def show_item_trim
    by (simp add: contains_single show_nat_inject) auto
next
  case (Between a b)
  moreover assume "item_small it"
  moreover have "show_nat a @ CHR ''-'' # show_nat b \<noteq> show_nat k" for k
    using show_nat_chars(1) [of k] by (metis in_set_conv_decomp)
  ultimately show ?thesis unfolding match_item_def Let_def show_item_trim
    using scan_range_show [of a b] by (simp add: contains_single)
next
  case (Every k)
  moreover assume "item_small it"
  moreover have "CHR ''*'' # CHR ''/'' # show_nat k \<noteq> show_nat j" for j
    using show_nat_chars(4) [of j] by (metis list.set_intros(1))
  ultimately show ?thesis unfolding match_item_def Let_def show_item_trim
    using scan_step_show [of k] by (simp add: contains_single dvd_eq_mod_eq_0)
qed

text \<open>A field written as a list of numbers, ranges and steps holds of exactly the values these items stand for:
  the scanning of the field decides membership in their union.\<close>

theorem matchField_holds:
  assumes "items \<noteq> []" "\<forall>it\<in>set items. item_small it" "0 \<le> v"
  shows "matchField (join '','' (map show_item items)) v low \<longleftrightarrow> (\<exists>it\<in>set items. item_holds v low it)"
proof -
  have sp: "split_byte CHR '','' (join '','' (map show_item items)) = map show_item items"
    by (rule split_byte_join) (use assms(1) show_item_chars in auto)
  have "join '','' (map show_item items) \<noteq> ''*''"
  proof
    assume "join '','' (map show_item items) = ''*''"
    then have "map show_item items = [''*'']" using sp by simp
    then obtain it where "show_item it = ''*''" by auto
    then show False
    proof (cases it)
      case (Only n)
      then show False using \<open>show_item it = ''*''\<close> show_nat_chars(4) [of n] by simp
    next
      case (Between a b)
      then have "CHR ''-'' \<in> set ''*''" using \<open>show_item it = ''*''\<close> by (metis in_set_conv_decomp append.simps show_item.simps(2))
      then show False by simp
    next
      case (Every k)
      then show False using \<open>show_item it = ''*''\<close> by simp
    qed
  qed
  then show ?thesis
    using match_item_show assms by (auto simp: matchField_def sp list_ex_iff)
qed

theorem matchField_holds_witness:
  "matchField (join '','' (map show_item [Only 5, Between 10 20, Every 25])) 12 0 \<longleftrightarrow>
    (\<exists>it\<in>set [Only 5, Between 10 20, Every 25]. item_holds 12 0 it)"
  by (rule matchField_holds) simp_all

lemma matchField_any: "matchField ''*'' v low"
  by (simp add: matchField_def)

text \<open>A range of names is not scanned, so both bounds are 0; the step of a range is not read.\<close>

lemma matchField_names: "matchField ''MON-FRI'' v low \<longleftrightarrow> v = 0"
proof -
  have c: "split_byte CHR '','' ''MON-FRI'' = [''MON-FRI'']" "trim_space ''MON-FRI'' = ''MON-FRI''"
    "contains ''MON-FRI'' ''-''" "\<not> contains ''MON-FRI'' ''/''" "scan_range ''MON-FRI'' = (0, 0)" by code_simp+
  have "show_nat n \<noteq> ''MON-FRI''" for n
  proof
    assume e: "show_nat n = ''MON-FRI''"
    have "CHR ''-'' \<in> set ''MON-FRI''" by simp
    then show False unfolding e [symmetric] by simp
  qed
  then show ?thesis by (auto simp: matchField_def match_item_def c Let_def) metis
qed

lemma matchField_range_with_step: "matchField ''10-20/5'' v low \<longleftrightarrow> 10 \<le> v \<and> v \<le> 20"
proof -
  have c: "split_byte CHR '','' ''10-20/5'' = [''10-20/5'']" "trim_space ''10-20/5'' = ''10-20/5''"
    "contains ''10-20/5'' ''-''" "scan_range ''10-20/5'' = (10, 20)" "scan_step ''10-20/5'' = 0" by code_simp+
  have ne: "''10-20/5'' \<noteq> show_nat n" for n
  proof
    assume e: "''10-20/5'' = show_nat n"
    have "CHR ''-'' \<in> set ''10-20/5''" by simp
    then show False unfolding e by simp
  qed
  show ?thesis unfolding matchField_def match_item_def by (simp add: c Let_def ne)
qed

section \<open>The next run\<close>

lemma minute_ns_pos [simp]: "minute_ns > 0" "day_ns > 0" "minute_ns \<noteq> 0" "0 \<le> minute_ns"
  by (simp_all add: minute_ns_def day_ns_def)

lemma cron_next_spec:
  "let P = \<lambda>m. matchCron flds (civil m); m0 = t div minute_ns; n = cron_next civil flds t
   in (\<exists>m. m0 < m \<and> m \<le> m0 + 525600 \<and> P m \<and> (\<forall>j. m0 < j \<and> j < m \<longrightarrow> \<not> P j) \<and> n = m * minute_ns) \<or>
      ((\<forall>j. m0 < j \<and> j \<le> m0 + 525600 \<longrightarrow> \<not> P j) \<and> n = t + day_ns)"
proof (cases "find_minute (\<lambda>m. matchCron flds (civil m)) (t div minute_ns) cron_window")
  case None
  then show ?thesis using find_minute_None [OF None] by (simp add: cron_next_def Let_def cron_window_def)
next
  case (Some m)
  then show ?thesis using find_minute_Some [OF Some] by (auto simp: cron_next_def Let_def cron_window_def)
qed

lemma cron_next_after: "t < cron_next civil flds t"
proof -
  have "t < m * minute_ns" if "t div minute_ns < m" for m
  proof -
    have "t mod minute_ns < minute_ns" by (rule pos_mod_bound) simp
    moreover have "(t div minute_ns + 1) * minute_ns \<le> m * minute_ns" using that by (intro mult_right_mono) auto
    moreover have "t = (t div minute_ns) * minute_ns + t mod minute_ns" by simp
    ultimately show ?thesis by (simp only: distrib_right)
  qed
  then show ?thesis using cron_next_spec [of flds civil t] by (auto simp: Let_def)
qed

lemma cron_next_is_the_next_match:
  assumes "matchCron flds (civil m)" "t div minute_ns < m" "m \<le> t div minute_ns + 525600"
  shows "cron_next civil flds t \<le> m * minute_ns \<and> cron_next civil flds t mod minute_ns = 0 \<and>
    matchCron flds (civil (cron_next civil flds t div minute_ns))"
proof -
  let ?m0 = "t div minute_ns"
  obtain k where k: "?m0 < k" "matchCron flds (civil k)" "\<forall>j. ?m0 < j \<and> j < k \<longrightarrow> \<not> matchCron flds (civil j)"
    "cron_next civil flds t = k * minute_ns"
    using cron_next_spec [of flds civil t] assms by (auto simp: Let_def)
  then have "k \<le> m" using assms by (meson not_le)
  then show ?thesis using k by simp
qed

text \<open>An expression no minute of the next 365 days matches runs once a day.\<close>

lemma cron_without_a_match_runs_daily:
  assumes "\<forall>j. t div minute_ns < j \<and> j \<le> t div minute_ns + 525600 \<longrightarrow> \<not> matchCron flds (civil j)"
  shows "cron_next civil flds t = t + day_ns"
  using cron_next_spec [of flds civil t] assms by (auto simp: Let_def)

definition calendar :: "(int \<Rightarrow> cron_time) \<Rightarrow> bool" where
  "calendar civil \<longleftrightarrow>
     (\<forall>m. 1 \<le> ct_Month (civil m) \<and> 1 \<le> ct_Day (civil m) \<and> (ct_Month (civil m) = 2 \<longrightarrow> ct_Day (civil m) \<le> 29))"

lemma matchField_number: "0 \<le> v \<Longrightarrow> matchField (show_nat n) v low \<longleftrightarrow> v = int n"
  using matchField_holds [of "[Only n]" v low] by simp

lemma no_such_day_runs_daily:
  assumes "calendar civil"
  shows "cron_next civil [''0'', ''0'', ''30'', ''2'', ''*''] t = t + day_ns"
proof (rule cron_without_a_match_runs_daily, intro allI impI)
  fix j
  have sh: "''30'' = show_nat 30" "''2'' = show_nat 2" by code_simp+
  have c: "1 \<le> ct_Month (civil j)" "1 \<le> ct_Day (civil j)" "ct_Month (civil j) = 2 \<longrightarrow> ct_Day (civil j) \<le> 29"
    using assms by (auto simp: calendar_def)
  have d: "matchField ''30'' (ct_Day (civil j)) 1 \<longleftrightarrow> ct_Day (civil j) = 30"
    unfolding sh using matchField_number [of "ct_Day (civil j)" 30] c by simp
  have m: "matchField ''2'' (ct_Month (civil j)) 1 \<longleftrightarrow> ct_Month (civil j) = 2"
    unfolding sh using matchField_number [of "ct_Month (civil j)" 2] c by simp
  show "\<not> matchCron [''0'', ''0'', ''30'', ''2'', ''*''] (civil j)"
    using c d m by (auto simp: matchCron_def Let_def eval_nat_numeral)
qed

section \<open>Runs of a job\<close>

lemma fire_time_cron: "fire_time (cron_next civil flds) now = cron_next civil flds now"
  using cron_next_after [of now civil flds] by (simp add: fire_time_def Let_def)

text \<open>An interval of less than a minute below zero is made up by the second call of \<open>next\<close>.\<close>

lemma fire_time_every:
  "fire_time (\<lambda>t. t + dur) now = now + (if 0 \<le> dur then dur else if - minute_ns \<le> dur then dur + minute_ns else 0)"
  by (simp add: fire_time_def Let_def)

lemma every_interval_spins_iff:
  "fire_time (\<lambda>t. t + dur) now = now \<longleftrightarrow> dur = 0 \<or> dur \<le> - minute_ns"
proof (cases "0 \<le> dur")
  case True
  then show ?thesis using minute_ns_pos(1) by (simp add: fire_time_every del: minute_ns_pos)
next
  case False
  then show ?thesis by (simp add: fire_time_every del: minute_ns_pos) linarith
qed

lemma run_times_after:
  assumes "\<And>t. t < fire_time nxt t" "u \<in> set (run_times nxt now ds)"
  shows "now < u"
  using assms(2)
proof (induction ds arbitrary: now)
  case (Cons d ds)
  then show ?case using assms(1) [of now] Cons.IH [of "fire_time nxt now + int d"] by (fastforce simp: Let_def)
qed simp



section \<open>Starting and stopping\<close>

text \<open>No run of a context that is still alive.\<close>

definition silenced :: "scheduler \<Rightarrow> bool" where
  "silenced s \<longleftrightarrow> (\<forall>(g, job, st)\<in>set (sc_runs s). st = Blocked \<or> (st = Executing \<and> g \<in> set (sc_cancelled s)))"

datatype sched_op = SAdd sched_job | SStart int | SStop | SFire nat int | SReturn nat int

fun sched_step :: "(string \<Rightarrow> int option) \<Rightarrow> (int \<Rightarrow> cron_time) \<Rightarrow> scheduler \<Rightarrow> sched_op \<Rightarrow> scheduler" where
  "sched_step duration civil s (SAdd job) = snd (sched_Add duration civil job s)"
| "sched_step duration civil s (SStart now) = sched_Start duration civil now s"
| "sched_step duration civil s SStop = sched_Stop s"
| "sched_step duration civil s (SFire i now) = sched_fire i now s"
| "sched_step duration civil s (SReturn i now) = sched_return duration civil i now s"

fun is_start :: "sched_op \<Rightarrow> bool" where
  "is_start (SStart now) = True"
| "is_start _ = False"

lemma silenced_fire: "silenced s \<Longrightarrow> sched_fire i now s = s"
  by (auto simp: silenced_def sched_fire_def split: prod.splits job_state.splits dest!: nth_mem)

lemma silenced_return: "silenced s \<Longrightarrow> silenced (sched_return duration civil i now s)"
proof (cases "i < length (sc_runs s)")
  case True
  assume sil: "silenced s"
  obtain g job st where r: "sc_runs s ! i = (g, job, st)" by (cases "sc_runs s ! i") auto
  have "st = Blocked \<or> (st = Executing \<and> g \<in> set (sc_cancelled s))"
    using sil True r nth_mem [OF True] by (fastforce simp: silenced_def)
  moreover have "silenced (s\<lparr>sc_runs := take i (sc_runs s) @ drop (Suc i) (sc_runs s)\<rparr>)"
    using sil by (auto simp: silenced_def dest: in_set_takeD in_set_dropD)
  ultimately show ?thesis using sil True r by (auto simp: sched_return_def)
next
  case False
  assume "silenced s"
  then show ?thesis using False by (simp add: sched_return_def)
qed

definition gens_ok :: "scheduler \<Rightarrow> bool" where
  "gens_ok s \<longleftrightarrow> (\<forall>(g, job, st)\<in>set (sc_runs s). 0 < g \<and> g \<le> sc_starts s)"

lemma runs_Stop:
  assumes "(g, job, st) \<in> set (sc_runs (sched_Stop s))"
  shows "\<exists>st0. (g, job, st0) \<in> set (sc_runs s) \<and>
    ((st = Executing \<and> st0 = Executing) \<or> (st = Blocked \<and> g \<notin> set (sc_cancelled (sched_Stop s))))"
proof -
  have "(g, job, st) \<in> (\<Union>r\<in>set (sc_runs s). set (cancel_run (sc_cancelled (sched_Stop s)) r))"
    using assms by (simp add: sched_Stop_def Let_def del: split_paired_Ex)
  then obtain r where r: "r \<in> set (sc_runs s)" "(g, job, st) \<in> set (cancel_run (sc_cancelled (sched_Stop s)) r)" by blast
  obtain g' job' st0 where e: "r = (g', job', st0)" by (cases r) auto
  then have "g' = g \<and> job' = job \<and> ((st = Executing \<and> st0 = Executing) \<or> (st = Blocked \<and> g \<notin> set (sc_cancelled (sched_Stop s))))"
    using r(2) by (cases st0) (auto simp: cancel_run_def split: if_splits)
  then show ?thesis using r e by blast
qed

lemma cancelled_Stop: "set (sc_cancelled s) \<subseteq> set (sc_cancelled (sched_Stop s))" "sc_starts (sched_Stop s) = sc_starts s"
  by (auto simp: sched_Stop_def Let_def)

lemma silencedI: "(\<And>g job st. (g, job, st) \<in> set (sc_runs s) \<Longrightarrow> st = Blocked \<or> (st = Executing \<and> g \<in> set (sc_cancelled s))) \<Longrightarrow> silenced s"
  by (auto simp: silenced_def)

lemma stop_silences:
  assumes "gens_ok s" "sc_starts s \<le> 1"
  shows "silenced (sched_Stop s)"
proof (rule silencedI)
  fix g job st assume "(g, job, st) \<in> set (sc_runs (sched_Stop s))"
  note r = runs_Stop [OF this]
  then have "g = 1 \<and> sc_starts s = 1" using assms by (auto simp: gens_ok_def)
  then have "g \<in> set (sc_cancelled (sched_Stop s))" by (simp add: sched_Stop_def Let_def)
  then show "st = Blocked \<or> (st = Executing \<and> g \<in> set (sc_cancelled (sched_Stop s)))" using r by blast
qed

lemma silenced_Stop:
  assumes "silenced s"
  shows "silenced (sched_Stop s)"
proof (rule silencedI)
  fix g job st assume "(g, job, st) \<in> set (sc_runs (sched_Stop s))"
  note r = runs_Stop [OF this]
  then show "st = Blocked \<or> (st = Executing \<and> g \<in> set (sc_cancelled (sched_Stop s)))"
    using assms cancelled_Stop(1) [of s] by (auto simp: silenced_def)
qed

lemma set_start_job: "(g', job', st) \<in> set (start_job duration civil now g job) \<Longrightarrow> g' = g"
  by (auto simp: start_job_def split: option.splits)

lemma gens_step: "gens_ok s \<Longrightarrow> gens_ok (sched_step duration civil s a)"
proof (cases a)
  case (SAdd job)
  assume "gens_ok s"
  then show ?thesis using SAdd by (simp add: gens_ok_def sched_Add_def split: option.splits)
next
  case (SStart now)
  assume "gens_ok s"
  then have "\<And>g job st. (g, job, st) \<in> set (sc_runs s) \<Longrightarrow> 0 < g \<and> g \<le> Suc (sc_starts s)" by (fastforce simp: gens_ok_def)
  then show ?thesis using SStart by (auto simp: gens_ok_def sched_Start_def Let_def dest: set_start_job)
next
  case SStop
  assume "gens_ok s"
  then show ?thesis using SStop runs_Stop [of _ _ _ s] cancelled_Stop(2) [of s] by (fastforce simp: gens_ok_def)
next
  case (SFire i now)
  assume g: "gens_ok s"
  show ?thesis
  proof (cases "i < length (sc_runs s)")
    case True
    obtain g' job st where r: "sc_runs s ! i = (g', job, st)" by (cases "sc_runs s ! i") auto
    have "0 < g' \<and> g' \<le> sc_starts s" using g True r nth_mem [OF True] by (fastforce simp: gens_ok_def)
    then show ?thesis using g SFire True r
      by (auto simp: gens_ok_def sched_fire_def split: job_state.splits dest!: set_update_subset_insert [THEN subsetD])
  qed (use g SFire in \<open>simp add: sched_fire_def\<close>)
next
  case (SReturn i now)
  assume g: "gens_ok s"
  show ?thesis
  proof (cases "i < length (sc_runs s)")
    case True
    obtain g' job st where r: "sc_runs s ! i = (g', job, st)" by (cases "sc_runs s ! i") auto
    have "0 < g' \<and> g' \<le> sc_starts s" using g True r nth_mem [OF True] by (fastforce simp: gens_ok_def)
    then show ?thesis using g SReturn True r
      by (auto simp: gens_ok_def sched_return_def split: job_state.splits dest: set_start_job dest!: in_set_takeD in_set_dropD)
  qed (use g SReturn in \<open>simp add: sched_return_def\<close>)
qed

lemma gens_run: "gens_ok s \<Longrightarrow> gens_ok (foldl (sched_step duration civil) s ops)"
  by (induction ops arbitrary: s) (simp_all add: gens_step)

lemma starts_step: "sc_starts (sched_step duration civil s a) = sc_starts s + (if is_start a then 1 else 0)"
  by (cases a) (auto simp: sched_Add_def sched_Start_def sched_Stop_def sched_fire_def sched_return_def Let_def
      split: option.splits prod.splits job_state.splits)

lemma starts_run: "sc_starts (foldl (sched_step duration civil) s ops) = sc_starts s + length (filter is_start ops)"
  by (induction ops arbitrary: s) (simp_all add: starts_step)

lemma silenced_step: "silenced s \<Longrightarrow> \<not> is_start a \<Longrightarrow> silenced (sched_step duration civil s a)"
  by (cases a) (simp_all add: silenced_fire silenced_return silenced_Stop, simp add: silenced_def sched_Add_def split: option.splits)

lemma silenced_run: "silenced s \<Longrightarrow> \<forall>a\<in>set ops. \<not> is_start a \<Longrightarrow> silenced (foldl (sched_step duration civil) s ops)"
  by (induction ops arbitrary: s) (simp_all add: silenced_step)



text \<open>A second \<open>Start\<close> loses the cancel function of the first: a job of the first one that is executing goes on.\<close>

lemma orphaned_job_goes_on:
  assumes "g \<noteq> sc_starts s" "g \<notin> set (sc_cancelled s)" "sc_runs s = [(g, job, Executing)]"
    "parseCron duration civil (sj_CronExpr job) = Some nxt"
  shows "sc_runs (sched_return duration civil 0 now (sched_Stop s)) = [(g, job, Waiting (fire_time nxt now))]"
  using assms by (simp add: sched_return_def sched_Stop_def cancel_run_def start_job_def Let_def)

end
