(* ===== verification/RedisQueue.thy ===== *)
theory RedisQueue
  imports UrlQueue GoStrings
begin

text \<open>
  The Redis crawl queue, \<open>internal/queue/redis.go\<close>. The store holds a list, a hash and a set under the
  queue's key; the two Lua scripts and every other command are one step each on it. A call is answered, refused
  before it ran, or its answer is lost. A JSON document is kept as its list of members; \<open>raw\<close> is what
  \<open>json.Unmarshal\<close> makes of a string that is not a document the queue wrote. The queue is an interpretation of
  the contract \<open>url_queue\<close>.
\<close>

section \<open>Documents\<close>

text \<open>\<open>URLItem\<close> has no tags: the members have the names of its fields. A lookup of Lua is exact, \<open>Unmarshal\<close>
  ignores case.\<close>

datatype jval = JStr string | JInt int

type_synonym jdoc = "(string \<times> jval) list"

definition marshal_item :: "url_item \<Rightarrow> jdoc" where
  "marshal_item it = [(''URL'', JStr (itemURL it)), (''Depth'', JInt (itemDepth it)), (''Index'', JInt (itemIndex it))]"

definition same_name :: "string \<Rightarrow> string \<Rightarrow> bool" where
  "same_name a b \<longleftrightarrow> to_lower a = to_lower b"

definition set_member :: "url_item \<Rightarrow> string \<times> jval \<Rightarrow> url_item option" where
  "set_member it m =
     (if same_name (fst m) ''URL'' then (case snd m of JStr s \<Rightarrow> Some (it\<lparr>itemURL := s\<rparr>) | _ \<Rightarrow> None)
      else if same_name (fst m) ''Depth'' then (case snd m of JInt n \<Rightarrow> Some (it\<lparr>itemDepth := n\<rparr>) | _ \<Rightarrow> None)
      else if same_name (fst m) ''Index'' then (case snd m of JInt n \<Rightarrow> Some (it\<lparr>itemIndex := n\<rparr>) | _ \<Rightarrow> None)
      else Some it)"

fun unmarshal_from :: "url_item \<Rightarrow> jdoc \<Rightarrow> url_item option" where
  "unmarshal_from it [] = Some it"
| "unmarshal_from it (m # ms) = (case set_member it m of None \<Rightarrow> None | Some it' \<Rightarrow> unmarshal_from it' ms)"

definition zero_item :: url_item where
  "zero_item = \<lparr>itemURL = [], itemDepth = 0, itemIndex = 0\<rparr>"

definition unmarshal_item :: "jdoc \<Rightarrow> url_item option" where
  "unmarshal_item d = unmarshal_from zero_item d"

section \<open>The store\<close>

record redis_store =
  rs_list :: "jdoc list"
  rs_items :: "(string \<times> jdoc) list"
  rs_seen :: "string set"

definition empty_store :: redis_store where
  "empty_store = \<lparr>rs_list = [], rs_items = [], rs_seen = {}\<rparr>"

text \<open>\<open>HSET\<close> and \<open>HDEL\<close>; the order of a hash is the one \<open>HGETALL\<close> happens to return.\<close>

fun hset :: "string \<Rightarrow> jdoc \<Rightarrow> (string \<times> jdoc) list \<Rightarrow> (string \<times> jdoc) list" where
  "hset k v [] = [(k, v)]"
| "hset k v ((k', v') # h) = (if k = k' then (k, v) # h else (k', v') # hset k v h)"

definition hdel :: "string \<Rightarrow> (string \<times> jdoc) list \<Rightarrow> (string \<times> jdoc) list" where
  "hdel k h = filter (\<lambda>e. fst e \<noteq> k) h"

definition pushScript :: "string \<Rightarrow> jdoc \<Rightarrow> int \<Rightarrow> redis_store \<Rightarrow> int \<times> redis_store" where
  "pushScript url data maxSize s =
     (if url \<in> rs_seen s then (0, s)
      else if int (length (rs_list s)) \<ge> maxSize then (0, s)
      else (1, s\<lparr>rs_list := rs_list s @ [data], rs_items := hset url data (rs_items s), rs_seen := insert url (rs_seen s)\<rparr>))"

definition popScript :: "redis_store \<Rightarrow> jdoc option \<times> redis_store" where
  "popScript s =
     (case rs_list s of
        [] \<Rightarrow> (None, s)
      | data # rest \<Rightarrow>
          (Some data, s\<lparr>rs_list := rest,
             rs_items := (case map_of data ''url'' of Some (JStr u) \<Rightarrow> hdel u (rs_items s) | _ \<Rightarrow> rs_items s)\<rparr>))"

section \<open>The queue\<close>

text \<open>A call of the client: answered, never run, or run with its answer lost to the time-out.\<close>

datatype reply = Answered | Refused | AnswerLost

definition store_call :: "reply \<Rightarrow> 'a \<Rightarrow> ('s \<Rightarrow> 'a \<times> 's) \<Rightarrow> 's \<Rightarrow> 'a \<times> 's" where
  "store_call r failed f s =
     (case r of Answered \<Rightarrow> f s | Refused \<Rightarrow> (failed, s) | AnswerLost \<Rightarrow> (failed, snd (f s)))"

definition rq_PushURL :: "int \<Rightarrow> reply \<Rightarrow> string \<Rightarrow> int \<Rightarrow> redis_store \<Rightarrow> bool \<times> redis_store" where
  "rq_PushURL maxSize r url depth =
     store_call r False (\<lambda>s. case pushScript url (marshal_item \<lparr>itemURL = url, itemDepth = depth, itemIndex = 0\<rparr>) maxSize s of
       (n, s') \<Rightarrow> (n = 1, s'))"

definition rq_PopURL :: "reply \<Rightarrow> redis_store \<Rightarrow> (url_item \<times> bool) \<times> redis_store" where
  "rq_PopURL r =
     store_call r (zero_item, False) (\<lambda>s. case popScript s of
         (None, s') \<Rightarrow> ((zero_item, False), s')
       | (Some data, s') \<Rightarrow> ((case unmarshal_item data of None \<Rightarrow> (zero_item, False) | Some it \<Rightarrow> (it, True)), s'))"

definition rq_Size :: "reply \<Rightarrow> redis_store \<Rightarrow> int" where
  "rq_Size r s = fst (store_call r 0 (\<lambda>s. (int (length (rs_list s)), s)) s)"

definition rq_HasSeen :: "reply \<Rightarrow> redis_store \<Rightarrow> string \<Rightarrow> bool" where
  "rq_HasSeen r s url = fst (store_call r False (\<lambda>s. (url \<in> rs_seen s, s)) s)"

definition rq_MarkSeen :: "reply \<Rightarrow> string \<Rightarrow> redis_store \<Rightarrow> redis_store" where
  "rq_MarkSeen r url s = snd (store_call r () (\<lambda>s. ((), s\<lparr>rs_seen := insert url (rs_seen s)\<rparr>)) s)"

definition rq_Items :: "reply \<Rightarrow> redis_store \<Rightarrow> url_item list" where
  "rq_Items r s = fst (store_call r [] (\<lambda>s. (List.map_filter (\<lambda>e. unmarshal_item (snd e)) (rs_items s), s)) s)"

definition rq_AllVisited :: "reply \<Rightarrow> redis_store \<Rightarrow> string set" where
  "rq_AllVisited r s = fst (store_call r {} (\<lambda>s. (rs_seen s, s)) s)"

text \<open>\<open>HGETALL\<close> inside a script returns keys and values in one flat list, and every string of it is unmarshalled.\<close>

definition hgetall_flat :: "(string \<times> jdoc) list \<Rightarrow> (string + jdoc) list" where
  "hgetall_flat h = concat (map (\<lambda>(k, v). [Inl k, Inr v]) h)"

definition rq_Snapshot :: "(string \<Rightarrow> url_item option) \<Rightarrow> reply \<Rightarrow> reply \<Rightarrow> reply \<Rightarrow> redis_store \<Rightarrow> url_item list \<times> string set" where
  "rq_Snapshot raw r r1 r2 s =
     (if r = Answered
      then (List.map_filter (\<lambda>v. case v of Inl k \<Rightarrow> raw k | Inr d \<Rightarrow> unmarshal_item d) (hgetall_flat (rs_items s)), rs_seen s)
      else (rq_Items r1 s, rq_AllVisited r2 s))"

text \<open>The commands of a pipeline are sent together and run one after the other; when the connection breaks, only the
  first \<open>n\<close> have run.\<close>

definition load_commands :: "url_item list \<Rightarrow> string list \<Rightarrow> (redis_store \<Rightarrow> redis_store) list" where
  "load_commands items visited =
     (\<lambda>s. empty_store) #
     concat (map (\<lambda>it. [\<lambda>s. s\<lparr>rs_list := rs_list s @ [marshal_item it]\<rparr>,
                        \<lambda>s. s\<lparr>rs_items := hset (itemURL it) (marshal_item it) (rs_items s)\<rparr>]) items) @
     map (\<lambda>u s. s\<lparr>rs_seen := insert u (rs_seen s)\<rparr>) visited"

definition rq_LoadFromCheckpoint :: "nat option \<Rightarrow> url_item list \<Rightarrow> string list \<Rightarrow> redis_store \<Rightarrow> redis_store" where
  "rq_LoadFromCheckpoint broken items visited s =
     foldl (\<lambda>s f. f s) s
       (case broken of None \<Rightarrow> load_commands items visited | Some n \<Rightarrow> take n (load_commands items visited))"

section \<open>Documents, lemmas\<close>

lemma unmarshal_marshal [simp]: "unmarshal_item (marshal_item it) = Some it"
proof -
  have "same_name ''URL'' ''URL''" "\<not> same_name ''Depth'' ''URL''" "same_name ''Depth'' ''Depth''"
    "\<not> same_name ''Index'' ''URL''" "\<not> same_name ''Index'' ''Depth''" "same_name ''Index'' ''Index''" by code_simp+
  then show ?thesis by (simp add: unmarshal_item_def marshal_item_def set_member_def zero_item_def)
qed

lemma lua_finds_no_url [simp]: "map_of (marshal_item it) ''url'' = None"
  by (simp add: marshal_item_def)

lemma set_hset: "fst ` set (hset k v h) = insert k (fst ` set h)"
  by (induction k v h rule: hset.induct) auto

lemma hset_docs: "\<forall>e\<in>set h. snd e \<in> D \<Longrightarrow> v \<in> D \<Longrightarrow> \<forall>e\<in>set (hset k v h). snd e \<in> D"
  by (induction k v h rule: hset.induct) auto

section \<open>The contract\<close>

definition rq_pending :: "redis_store \<Rightarrow> (string \<times> int) multiset" where
  "rq_pending s = mset (map (payload \<circ> the \<circ> unmarshal_item) (rs_list s))"

definition rq_wf :: "redis_store \<Rightarrow> bool" where
  "rq_wf s \<longleftrightarrow> (\<forall>d\<in>set (rs_list s). \<exists>it. d = marshal_item it) \<and>
     (\<forall>u. count (image_mset fst (rq_pending s)) u \<le> (if u \<in> rs_seen s then 1 else 0))"

definition rq_push :: "int \<Rightarrow> redis_store \<Rightarrow> string \<Rightarrow> int \<Rightarrow> bool \<times> redis_store" where
  "rq_push maxSize s u d = rq_PushURL maxSize Answered u d s"

definition rq_pop :: "redis_store \<Rightarrow> ((url_item \<times> bool) \<times> redis_store) outcome" where
  "rq_pop s = Returns (rq_PopURL Answered s)"

lemmas redis_defs = rq_push_def rq_pop_def rq_PushURL_def rq_PopURL_def store_call_def pushScript_def popScript_def

lemma rq_push_new:
  assumes "rq_wf s" "rq_push m s u d = (True, s')"
  shows "u \<notin> rs_seen s \<and> rs_seen s' = insert u (rs_seen s) \<and> rq_pending s' = add_mset (u, d) (rq_pending s) \<and> rq_wf s'"
proof -
  let ?it = "\<lparr>itemURL = u, itemDepth = d, itemIndex = 0\<rparr>"
  have s': "u \<notin> rs_seen s" "s' = s\<lparr>rs_list := rs_list s @ [marshal_item ?it], rs_items := hset u (marshal_item ?it) (rs_items s), rs_seen := insert u (rs_seen s)\<rparr>"
    using assms(2) by (auto simp: redis_defs split: if_splits)
  have p: "rq_pending s' = add_mset (u, d) (rq_pending s)"
    using s' by (simp add: rq_pending_def payload_def)
  have "count (image_mset fst (rq_pending s')) v \<le> (if v \<in> rs_seen s' then 1 else 0)" for v
  proof -
    have "count (image_mset fst (rq_pending s)) v \<le> (if v \<in> rs_seen s then 1 else 0)"
      using assms(1) unfolding rq_wf_def by blast
    moreover have "count (image_mset fst (rq_pending s')) v = count (image_mset fst (rq_pending s)) v + (if v = u then 1 else 0)"
      unfolding p by simp
    moreover have "v \<in> rs_seen s' \<longleftrightarrow> v = u \<or> v \<in> rs_seen s" using s' by simp
    ultimately show ?thesis using s'(1) by (auto simp del: count_eq_zero_iff split: if_splits)
  qed
  then show ?thesis using s' p assms(1) by (auto simp: rq_wf_def)
qed

lemma rq_pop_cases:
  assumes "rq_wf s"
  obtains (none) "rs_list s = []" "rq_pop s = Returns ((zero_item, False), s)"
  | (some) it rest where "rs_list s = marshal_item it # rest" "rq_pop s = Returns ((it, True), s\<lparr>rs_list := rest\<rparr>)"
      "rq_pending s = add_mset (payload it) (rq_pending (s\<lparr>rs_list := rest\<rparr>))" "rq_wf (s\<lparr>rs_list := rest\<rparr>)"
proof (cases "rs_list s")
  case Nil
  then show ?thesis using none by (simp add: redis_defs)
next
  case (Cons data rest)
  obtain it where it: "data = marshal_item it" using assms Cons by (auto simp: rq_wf_def)
  let ?s = "s\<lparr>rs_list := rest\<rparr>"
  have p: "rq_pending s = add_mset (payload it) (rq_pending ?s)" using Cons it by (simp add: rq_pending_def)
  have "count (image_mset fst (rq_pending ?s)) v \<le> (if v \<in> rs_seen s then 1 else 0)" for v
  proof -
    have "count (image_mset fst (rq_pending s)) v \<le> (if v \<in> rs_seen s then 1 else 0)"
      using assms unfolding rq_wf_def by blast
    then show ?thesis by (auto simp: p split: if_splits)
  qed
  then have "rq_wf ?s" using assms Cons by (simp add: rq_wf_def)
  then show ?thesis using some [of it rest] Cons it p by (simp add: redis_defs)
qed

interpretation rq: url_queue "rq_push m" rq_pop payload rq_pending rs_seen rq_wf for m
proof unfold_locales
  fix s u d s' assume "rq_wf s" "rq_push m s u d = (True, s')"
  then show "u \<notin> rs_seen s \<and> rs_seen s' = insert u (rs_seen s) \<and> rq_pending s' = add_mset (u, d) (rq_pending s) \<and> rq_wf s'"
    by (rule rq_push_new)
next
  fix s u d s' assume "rq_push m s u d = (False, s')"
  then show "s' = s" by (auto simp: redis_defs split: if_splits)
next
  fix s assume "rq_wf s"
  then show "\<exists>i ok s'. rq_pop s = Returns ((i, ok), s')" by (cases rule: rq_pop_cases) auto
next
  fix s i s' assume "rq_wf s" "rq_pop s = Returns ((i, True), s')"
  then show "rq_pending s = add_mset (payload i) (rq_pending s') \<and> rs_seen s' = rs_seen s \<and> rq_wf s'"
    by (cases rule: rq_pop_cases) auto
next
  fix s i s' assume "rq_wf s" "rq_pop s = Returns ((i, False), s')"
  then show "rq_pending s = {#} \<and> s' = s" by (cases rule: rq_pop_cases) (auto simp: rq_pending_def)
next
  fix s assume "rq_wf s"
  then show "\<forall>u. size (filter_mset (\<lambda>p. fst p = u) (rq_pending s)) \<le> (if u \<in> rs_seen s then 1 else 0)"
    by (simp add: rq_wf_def size_filter_fst)
qed

lemma rq_wf_empty: "rq_wf empty_store"
  by (simp add: rq_wf_def empty_store_def rq_pending_def)

section \<open>What the queue serves\<close>


text \<open>The queue is first in, first out: depths do not matter.\<close>

lemma redis_queue_is_fifo:
  "rq_wf s \<Longrightarrow> \<exists>is s'. queue_run (rq_push m) rq_pop s (replicate n OpPop) = Returns (is, s') \<and>
     map marshal_item is = take n (rs_list s) \<and> rs_list s' = drop n (rs_list s)"
proof (induction n arbitrary: s)
  case (Suc n)
  from Suc.prems show ?case
  proof (cases rule: rq_pop_cases)
    case none
    then show ?thesis using Suc.IH [OF Suc.prems] by auto
  next
    case (some it rest)
    then show ?thesis using Suc.IH [OF some(4)] by fastforce
  qed
qed simp

section \<open>The hash\<close>

text \<open>Everything the queue accepted is in the hash, whether it was popped or not.\<close>

definition rq_hash_ok :: "redis_store \<Rightarrow> bool" where
  "rq_hash_ok s \<longleftrightarrow> fst ` set (rs_items s) = rs_seen s \<and> distinct (map fst (rs_items s)) \<and>
     (\<forall>e\<in>set (rs_items s). \<exists>it. snd e = marshal_item it \<and> itemURL it = fst e)"

lemma distinct_hset: "distinct (map fst h) \<Longrightarrow> distinct (map fst (hset k v h))"
proof (induction k v h rule: hset.induct)
  case (2 k v k' v' h)
  have "k' \<in> fst ` set (hset k v h) \<longleftrightarrow> k' = k \<or> k' \<in> fst ` set h" by (simp add: set_hset)
  then show ?case using 2 by (auto simp del: image_iff)
qed simp

lemma hset_entries: "e \<in> set (hset k v h) \<Longrightarrow> e = (k, v) \<or> e \<in> set h"
  by (induction k v h rule: hset.induct) (auto split: if_splits)

lemma hash_push: "rq_hash_ok s \<Longrightarrow> rq_hash_ok (snd (rq_push m s u d))"
proof -
  assume h: "rq_hash_ok s"
  let ?it = "\<lparr>itemURL = u, itemDepth = d, itemIndex = 0\<rparr>"
  let ?h = "hset u (marshal_item ?it) (rs_items s)"
  have "\<exists>it. snd e = marshal_item it \<and> itemURL it = fst e" if "e \<in> set ?h" for e
    using hset_entries [OF that] h by (auto simp: rq_hash_ok_def)
  moreover have "fst ` set ?h = insert u (rs_seen s)" "distinct (map fst ?h)"
    using h by (simp_all add: set_hset distinct_hset rq_hash_ok_def)
  ultimately show ?thesis using h by (simp add: redis_defs rq_hash_ok_def del: image_iff)
qed

lemma hash_pop: "rq_wf s \<Longrightarrow> rq_hash_ok s \<Longrightarrow> rq_pop s = Returns (r, s') \<Longrightarrow> rq_hash_ok s' \<and> rs_items s' = rs_items s \<and> rs_seen s' = rs_seen s"
proof -
  assume a: "rq_wf s" "rq_hash_ok s" "rq_pop s = Returns (r, s')"
  have "rs_items s' = rs_items s \<and> rs_seen s' = rs_seen s" using a(1,3) by (cases rule: rq_pop_cases) auto
  then show ?thesis using a(2) by (simp add: rq_hash_ok_def)
qed

lemma hash_items: "rq_hash_ok s \<Longrightarrow> map itemURL (rq_Items Answered s) = map fst (rs_items s)"
proof -
  have "\<forall>e\<in>set h. \<exists>it. snd e = marshal_item it \<and> itemURL it = fst e \<Longrightarrow>
      map itemURL (List.map_filter (\<lambda>e. unmarshal_item (snd e)) h) = map fst h" for h
    by (induction h) (auto simp: map_filter_simps)
  then show "rq_hash_ok s \<Longrightarrow> ?thesis" by (simp add: rq_hash_ok_def rq_Items_def store_call_def)
qed

lemma pop_url_seen:
  assumes "rq_wf s" "rq_pop s = Returns ((i, True), s')"
  shows "itemURL i \<in> rs_seen s"
  using assms(1)
proof (cases rule: rq_pop_cases)
  case none
  then show ?thesis using assms(2) by simp
next
  case (some it rest)
  have "count (image_mset fst (rq_pending s)) (itemURL it) \<noteq> 0" using some(3) by (simp add: payload_def)
  moreover have "count (image_mset fst (rq_pending s)) (itemURL it) \<le> (if itemURL it \<in> rs_seen s then 1 else 0)"
    using assms(1) unfolding rq_wf_def by blast
  ultimately have "itemURL it \<in> rs_seen s" by (metis le_zero_eq)
  then show ?thesis using some(2) assms(2) by simp
qed

lemma run_hash:
  "rq_wf s \<Longrightarrow> rq_hash_ok s \<Longrightarrow> queue_run (rq_push m) rq_pop s ops = Returns (is, s') \<Longrightarrow>
     rq_hash_ok s' \<and> itemURL ` set is \<subseteq> rs_seen s' \<and> rs_seen s \<subseteq> rs_seen s'"
proof (induction ops arbitrary: s "is")
  case Nil
  then show ?case by simp
next
  case (Cons a ops)
  show ?case
  proof (cases a)
    case (OpPush u d)
    have "rs_seen s \<subseteq> rs_seen (snd (rq_push m s u d))" by (auto simp: redis_defs)
    then show ?thesis
      using Cons.IH [OF rq.push_inv [OF Cons.prems(1), of m u d] hash_push [OF Cons.prems(2)]] Cons.prems(3) OpPush by auto
  next
    case OpPop
    obtain i ok s1 where p: "rq_pop s = Returns ((i, ok), s1)" using rq.pop_returns [OF Cons.prems(1)] by blast
    then obtain is1 where r: "queue_run (rq_push m) rq_pop s1 ops = Returns (is1, s')" "is = (if ok then i # is1 else is1)"
      using Cons.prems(3) OpPop by (auto simp: outcome_bind_Returns_iff)
    note h = hash_pop [OF Cons.prems(1,2) p]
    have "ok \<Longrightarrow> itemURL i \<in> rs_seen s" using pop_url_seen [OF Cons.prems(1)] p by (cases ok) auto
    then show ?thesis using Cons.IH [OF rq.pop_inv [OF Cons.prems(1) p] _ r(1)] h r(2) by auto
  qed
qed

section \<open>Checkpoints\<close>

lemma load_items:
  "foldl (\<lambda>s f. f s) s (concat (map (\<lambda>it. [\<lambda>s. s\<lparr>rs_list := rs_list s @ [marshal_item it]\<rparr>,
      \<lambda>s. s\<lparr>rs_items := hset (itemURL it) (marshal_item it) (rs_items s)\<rparr>]) items)) =
   s\<lparr>rs_list := rs_list s @ map marshal_item items,
     rs_items := foldl (\<lambda>h it. hset (itemURL it) (marshal_item it) h) (rs_items s) items\<rparr>"
  by (induction items arbitrary: s) simp_all

lemma load_visited:
  "foldl (\<lambda>s f. f s) s (map (\<lambda>u s. s\<lparr>rs_seen := insert u (rs_seen s)\<rparr>) vis) = s\<lparr>rs_seen := set vis \<union> rs_seen s\<rparr>"
  by (induction vis arbitrary: s) simp_all

lemma Load_result:
  "rq_LoadFromCheckpoint None items vis s =
     \<lparr>rs_list = map marshal_item items, rs_items = foldl (\<lambda>h it. hset (itemURL it) (marshal_item it) h) [] items,
      rs_seen = set vis\<rparr>"
  by (simp add: rq_LoadFromCheckpoint_def load_commands_def load_items load_visited empty_store_def)

lemma hset_fresh: "k \<notin> fst ` set h \<Longrightarrow> hset k v h = h @ [(k, v)]"
  by (induction k v h rule: hset.induct) auto

lemma load_hash:
  "distinct (map fst h @ map itemURL items) \<Longrightarrow>
     foldl (\<lambda>h it. hset (itemURL it) (marshal_item it) h) h items = h @ map (\<lambda>it. (itemURL it, marshal_item it)) items"
proof (induction items arbitrary: h)
  case (Cons it items)
  then show ?case using hset_fresh [of "itemURL it" h "marshal_item it"] Cons.IH [of "h @ [(itemURL it, marshal_item it)]"] by auto
qed simp

lemma items_of_hash: "List.map_filter (\<lambda>e. unmarshal_item (snd e)) (map (\<lambda>it. (itemURL it, marshal_item it)) items) = items"
  by (induction items) (simp_all add: map_filter_simps)

lemma flat_items:
  "\<forall>k\<in>fst ` set h. raw k = None \<Longrightarrow>
     List.map_filter (\<lambda>v. case v of Inl k \<Rightarrow> raw k | Inr d \<Rightarrow> unmarshal_item d) (hgetall_flat h) =
     List.map_filter (\<lambda>e. unmarshal_item (snd e)) h"
  by (induction h) (auto simp: hgetall_flat_def map_filter_simps split: option.splits)

text \<open>A checkpoint with distinct URLs that is loaded into Redis, whatever the store held before, is what the next
  snapshot returns, in the same order.\<close>

theorem redis_checkpoint_roundtrip:
  assumes "distinct (map itemURL items)" "\<forall>it\<in>set items. raw (itemURL it) = None"
  shows "rq_Snapshot raw Answered r1 r2 (rq_LoadFromCheckpoint None items vis s) = (items, set vis)"
proof -
  have h: "foldl (\<lambda>h it. hset (itemURL it) (marshal_item it) h) [] items = map (\<lambda>it. (itemURL it, marshal_item it)) items"
    using load_hash [of "[]" items] assms(1) by simp
  have "\<forall>k\<in>fst ` set (map (\<lambda>it. (itemURL it, marshal_item it)) items). raw k = None" using assms(2) by auto
  then show ?thesis unfolding Load_result by (simp add: rq_Snapshot_def h flat_items items_of_hash)
qed

theorem redis_checkpoint_roundtrip_witness:
  "let items = [\<lparr>itemURL = ''a'', itemDepth = 2, itemIndex = 0\<rparr>, \<lparr>itemURL = ''b'', itemDepth = 1, itemIndex = 0\<rparr>]
   in rq_Snapshot (\<lambda>_. None) Answered Answered Answered (rq_LoadFromCheckpoint None items [''c''] empty_store) = (items, {''c''})"
  unfolding Let_def by (subst redis_checkpoint_roundtrip) simp_all

text \<open>Popping a URL does not take it out of the hash a snapshot is made of: the script looks for the member
  \<open>url\<close>, the documents have \<open>URL\<close>. Every checkpoint lists all URLs ever accepted, the popped ones included, and a
  queue that loads it has all of them pending again.\<close>

theorem redis_checkpoint_keeps_popped:
  assumes "queue_run (rq_push m) rq_pop empty_store ops = Returns (is, s)"
    "\<forall>u\<in>rs_seen s. raw u = None" "rq_Snapshot raw Answered r1 r2 s = (items, visited)" "set vis = visited"
  shows "set (map itemURL is) \<subseteq> visited \<and>
    set (map itemURL items) = visited \<and> fst ` set_mset (rq_pending (rq_LoadFromCheckpoint None items vis s')) = visited"
proof -
  have "rq_hash_ok empty_store" by (simp add: rq_hash_ok_def empty_store_def)
  note h = run_hash [OF rq_wf_empty this assms(1)]
  have it: "items = rq_Items Answered s" "visited = rs_seen s"
    using assms(2,3) h by (auto simp: rq_Snapshot_def flat_items rq_Items_def store_call_def rq_hash_ok_def)
  have "set (map itemURL items) = rs_seen s"
    using hash_items [of s] h unfolding it rq_hash_ok_def by (metis list.set_map)
  moreover have "fst ` set_mset (rq_pending (rq_LoadFromCheckpoint None items vis s')) = set (map itemURL items)"
    by (simp add: Load_result rq_pending_def payload_def image_comp comp_def)
  ultimately show ?thesis using h it by simp
qed

theorem redis_checkpoint_keeps_popped_witness:
  "let s = snd (rq_push 5 empty_store ''a'' 1); (items, visited) = rq_Snapshot (\<lambda>_. None) Answered Answered Answered (snd (rq_PopURL Answered s))
   in set (map itemURL items) = {''a''} \<and> fst ` set_mset (rq_pending (rq_LoadFromCheckpoint None items [''a''] empty_store)) = {''a''}"
proof -
  let ?it = "\<lparr>itemURL = ''a'', itemDepth = 1, itemIndex = 0\<rparr>"
  let ?s = "empty_store\<lparr>rs_items := [(''a'', marshal_item ?it)], rs_seen := {''a''}\<rparr>"
  have e: "snd (rq_PopURL Answered (snd (rq_push 5 empty_store ''a'' 1))) = ?s"
    by (simp add: redis_defs empty_store_def)
  have "queue_run (rq_push 5) rq_pop empty_store [OpPush ''a'' 1, OpPop] = Returns ([?it], ?s)"
    by (simp add: redis_defs empty_store_def)
  moreover have n: "rq_Snapshot (\<lambda>_. None) Answered Answered Answered ?s = ([?it], {''a''})"
    by (simp add: rq_Snapshot_def hgetall_flat_def map_filter_simps empty_store_def)
  ultimately show ?thesis
    using redis_checkpoint_keeps_popped [of 5 "[OpPush ''a'' 1, OpPop]" "[?it]" ?s "\<lambda>_. None" Answered Answered "[?it]" "{''a''}" "[''a'']" empty_store]
    by (simp add: e)
qed

text \<open>A pop whose answer is lost takes the item with it.\<close>

lemma lost_pop_loses_item:
  assumes "rs_list s = marshal_item it # rest"
  shows "rq_PopURL AnswerLost s = ((zero_item, False), s\<lparr>rs_list := rest\<rparr>)"
  using assms by (simp add: redis_defs)

end
