(* ===== verification/PostgresQueue.thy ===== *)
theory PostgresQueue
  imports RedisQueue
begin

text \<open>
  The PostgreSQL crawl queue, \<open>internal/queue/postgres.go\<close>: two tables, each statement one step on them. A column
  of type \<open>INTEGER\<close> holds 32 bits. The rows of a table are kept in the order they are stored, which decides between
  rows of one depth. Statements are answered, refused or lost as for Redis.
\<close>

section \<open>The tables\<close>

record pg_row =
  pr_url :: string
  pr_depth :: int
  pr_data :: jdoc

record pg_db =
  pg_queue :: "pg_row list"
  pg_visited :: "string set"

definition empty_db :: pg_db where
  "empty_db = \<lparr>pg_queue = [], pg_visited = {}\<rparr>"

definition fits_integer :: "int \<Rightarrow> bool" where
  "fits_integer d \<longleftrightarrow> - (2 ^ 31) \<le> d \<and> d < 2 ^ 31"

text \<open>\<open>ORDER BY depth LIMIT 1\<close> over the rows no other transaction has locked.\<close>

fun least_row :: "pg_row list \<Rightarrow> pg_row option" where
  "least_row [] = None"
| "least_row (r # rs) =
     (case least_row rs of None \<Rightarrow> Some r | Some r' \<Rightarrow> if pr_depth r \<le> pr_depth r' then Some r else Some r')"

section \<open>The queue\<close>

definition pg_PushURL :: "reply \<Rightarrow> string \<Rightarrow> int \<Rightarrow> pg_db \<Rightarrow> bool \<times> pg_db" where
  "pg_PushURL r url depth =
     store_call r False (\<lambda>db.
       if \<not> fits_integer depth \<or> url \<in> pr_url ` set (pg_queue db) then (False, db)
       else (True, db\<lparr>pg_queue := pg_queue db @
         [\<lparr>pr_url = url, pr_depth = depth, pr_data = marshal_item \<lparr>itemURL = url, itemDepth = depth, itemIndex = 0\<rparr>\<rparr>]\<rparr>))"

definition pg_markVisited :: "reply \<Rightarrow> string \<Rightarrow> pg_db \<Rightarrow> pg_db" where
  "pg_markVisited r url db = snd (store_call r () (\<lambda>db. ((), db\<lparr>pg_visited := insert url (pg_visited db)\<rparr>)) db)"

definition pg_delete_least :: "string set \<Rightarrow> pg_db \<Rightarrow> pg_row option \<times> pg_db" where
  "pg_delete_least locked db =
     (case least_row (filter (\<lambda>r. pr_url r \<notin> locked) (pg_queue db)) of
        None \<Rightarrow> (None, db)
      | Some row \<Rightarrow> (Some row, db\<lparr>pg_queue := remove1 row (pg_queue db)\<rparr>))"

definition pg_PopURL :: "reply \<Rightarrow> reply \<Rightarrow> string set \<Rightarrow> pg_db \<Rightarrow> (url_item \<times> bool) \<times> pg_db" where
  "pg_PopURL r r' locked db =
     (case store_call r None (pg_delete_least locked) db of
        (None, db') \<Rightarrow> ((zero_item, False), db')
      | (Some row, db') \<Rightarrow>
          (let it0 = \<lparr>itemURL = pr_url row, itemDepth = pr_depth row, itemIndex = 0\<rparr>;
               it = (case unmarshal_from it0 (pr_data row) of None \<Rightarrow> it0 | Some it \<Rightarrow> it)
           in ((it, True), pg_markVisited r' (itemURL it) db')))"

definition pg_Size :: "reply \<Rightarrow> pg_db \<Rightarrow> int" where
  "pg_Size r db = fst (store_call r 0 (\<lambda>db. (int (length (pg_queue db)), db)) db)"

definition pg_HasSeen :: "reply \<Rightarrow> pg_db \<Rightarrow> string \<Rightarrow> bool" where
  "pg_HasSeen r db url = fst (store_call r False (\<lambda>db. (url \<in> pg_visited db, db)) db)"

definition pg_MarkSeen :: "reply \<Rightarrow> string \<Rightarrow> pg_db \<Rightarrow> pg_db" where
  "pg_MarkSeen r url db = pg_markVisited r url db"

definition pg_Items :: "reply \<Rightarrow> pg_db \<Rightarrow> url_item list" where
  "pg_Items r db =
     fst (store_call r [] (\<lambda>db. (List.map_filter (\<lambda>row. unmarshal_item (pr_data row)) (sort_key pr_depth (pg_queue db)), db)) db)"

definition pg_AllVisited :: "reply \<Rightarrow> pg_db \<Rightarrow> string set" where
  "pg_AllVisited r db = fst (store_call r {} (\<lambda>db. (pg_visited db, db)) db)"

text \<open>The two queries of \<open>Snapshot\<close> see the tables at their own times: a transaction of the default level reads what
  is committed when a statement starts.\<close>

definition pg_Snapshot :: "reply \<Rightarrow> reply \<Rightarrow> pg_db \<Rightarrow> pg_db \<Rightarrow> url_item list \<times> string set" where
  "pg_Snapshot r1 r2 db1 db2 = (pg_Items r1 db1, pg_AllVisited r2 db2)"

fun insert_rows :: "url_item list \<Rightarrow> pg_row list \<Rightarrow> pg_row list option" where
  "insert_rows [] rows = Some rows"
| "insert_rows (it # items) rows =
     (if \<not> fits_integer (itemDepth it) \<or> itemURL it \<in> pr_url ` set rows then None
      else insert_rows items (rows @ [\<lparr>pr_url = itemURL it, pr_depth = itemDepth it, pr_data = marshal_item it\<rparr>]))"

text \<open>One transaction: a statement that fails leaves the tables as they were.\<close>

definition pg_LoadFromCheckpoint :: "reply \<Rightarrow> url_item list \<Rightarrow> string list \<Rightarrow> pg_db \<Rightarrow> pg_db" where
  "pg_LoadFromCheckpoint r items visited db =
     (if r = Refused then db
      else case insert_rows items [] of
             None \<Rightarrow> db
           | Some rows \<Rightarrow> \<lparr>pg_queue = rows, pg_visited = set visited\<rparr>)"

section \<open>Lemmas\<close>

lemma least_row_None: "least_row rs = None \<longleftrightarrow> rs = []"
  by (cases rs) (auto split: option.splits)

lemma least_row_Some: "least_row rs = Some r \<Longrightarrow> r \<in> set rs \<and> (\<forall>r'\<in>set rs. pr_depth r \<le> pr_depth r')"
  by (induction rs arbitrary: r) (fastforce split: option.splits if_splits simp: least_row_None)+

text \<open>The rows the queue writes.\<close>

definition row_ok :: "pg_row \<Rightarrow> bool" where
  "row_ok r \<longleftrightarrow> fits_integer (pr_depth r) \<and>
     (\<exists>it. pr_data r = marshal_item it \<and> itemURL it = pr_url r \<and> itemDepth it = pr_depth r)"

definition pg_wf :: "pg_db \<Rightarrow> bool" where
  "pg_wf db \<longleftrightarrow> distinct (map pr_url (pg_queue db)) \<and> (\<forall>r\<in>set (pg_queue db). row_ok r)"

lemma unmarshal_over [simp]: "unmarshal_from it0 (marshal_item it) = Some it"
proof -
  have "same_name ''URL'' ''URL''" "\<not> same_name ''Depth'' ''URL''" "same_name ''Depth'' ''Depth''"
    "\<not> same_name ''Index'' ''URL''" "\<not> same_name ''Index'' ''Depth''" "same_name ''Index'' ''Index''" by code_simp+
  then show ?thesis by (simp add: marshal_item_def set_member_def)
qed

lemma pg_wf_empty: "pg_wf empty_db"
  by (simp add: pg_wf_def empty_db_def)

lemma pg_push_wf: "pg_wf db \<Longrightarrow> pg_wf (snd (pg_PushURL r u d db))"
  by (cases r) (auto simp: pg_PushURL_def store_call_def pg_wf_def row_ok_def)

lemma distinct_map_remove1: "distinct (map f xs) \<Longrightarrow> distinct (map f (remove1 x xs))"
  by (induction xs) (auto dest: set_remove1_subset [THEN subsetD])

lemma pg_markVisited_queue [simp]: "pg_queue (pg_markVisited r u db) = pg_queue db"
  by (cases r) (simp_all add: pg_markVisited_def store_call_def)

lemma pg_pop_wf: "pg_wf db \<Longrightarrow> pg_wf (snd (pg_PopURL r r' locked db))"
proof -
  assume "pg_wf db"
  then have "pg_wf (snd (pg_delete_least locked db))"
    by (auto simp: pg_delete_least_def pg_wf_def distinct_map_remove1 split: option.splits dest: set_remove1_subset [THEN subsetD])
  then have "pg_wf (snd (store_call r None (pg_delete_least locked) db))"
    using \<open>pg_wf db\<close> by (cases r) (simp_all add: store_call_def)
  then show ?thesis by (auto simp: pg_PopURL_def Let_def pg_wf_def split: prod.splits option.splits)
qed

text \<open>A popped item is one of least depth among those not locked by another worker, and no locked one.\<close>

lemma pg_pop_least:
  assumes "pg_wf db" "pg_PopURL Answered r' locked db = ((it, True), db')"
  shows "itemURL it \<notin> locked \<and> (\<exists>row\<in>set (pg_queue db). pr_url row = itemURL it \<and> pr_depth row = itemDepth it \<and>
      pg_queue db' = remove1 row (pg_queue db)) \<and>
    (\<forall>row\<in>set (pg_queue db). pr_url row \<notin> locked \<longrightarrow> itemDepth it \<le> pr_depth row)"
proof -
  obtain row where row: "least_row (filter (\<lambda>r. pr_url r \<notin> locked) (pg_queue db)) = Some row"
    "it = (case unmarshal_from \<lparr>itemURL = pr_url row, itemDepth = pr_depth row, itemIndex = 0\<rparr> (pr_data row) of
       None \<Rightarrow> \<lparr>itemURL = pr_url row, itemDepth = pr_depth row, itemIndex = 0\<rparr> | Some it \<Rightarrow> it)"
    "db' = pg_markVisited r' (itemURL it) (db\<lparr>pg_queue := remove1 row (pg_queue db)\<rparr>)"
    using assms(2) by (auto simp: pg_PopURL_def store_call_def pg_delete_least_def Let_def split: option.splits)
  note l = least_row_Some [OF row(1)]
  then have "row_ok row" using assms(1) by (auto simp: pg_wf_def)
  then have "itemURL it = pr_url row \<and> itemDepth it = pr_depth row" using row(2) by (auto simp: row_ok_def)
  then show ?thesis using l row(3) by auto
qed

section \<open>Checkpoints\<close>

definition row_of :: "url_item \<Rightarrow> pg_row" where
  "row_of it = \<lparr>pr_url = itemURL it, pr_depth = itemDepth it, pr_data = marshal_item it\<rparr>"

lemma row_of_simps [simp]: "pr_url (row_of it) = itemURL it" "pr_depth (row_of it) = itemDepth it" "pr_data (row_of it) = marshal_item it"
  by (simp_all add: row_of_def)

lemma insert_rows_Some:
  "distinct (map pr_url rows @ map itemURL items) \<Longrightarrow> \<forall>it\<in>set items. fits_integer (itemDepth it) \<Longrightarrow>
     insert_rows items rows = Some (rows @ map row_of items)"
proof (induction items arbitrary: rows)
  case (Cons it items)
  then show ?case using Cons.IH [of "rows @ [row_of it]"] by (simp add: row_of_def [symmetric])
qed simp

lemma insert_rows_duplicate: "\<not> distinct (map pr_url rows @ map itemURL items) \<Longrightarrow> distinct (map pr_url rows) \<Longrightarrow> insert_rows items rows = None"
proof (induction items arbitrary: rows)
  case (Cons it items)
  then show ?case using Cons.IH [of "rows @ [row_of it]"] by (auto simp: row_of_def [symmetric])
qed simp

text \<open>A checkpoint that lists a URL twice is not loaded at all: what was in the tables stays.\<close>

lemma checkpoint_with_duplicate_is_dropped:
  "\<not> distinct (map itemURL items) \<Longrightarrow> pg_LoadFromCheckpoint r items visited db = db"
  using insert_rows_duplicate [of "[]" items] by (simp add: pg_LoadFromCheckpoint_def)

lemma items_of_rows: "List.map_filter (\<lambda>row. unmarshal_item (pr_data row)) (map row_of items) = items"
  by (induction items) (simp_all add: map_filter_simps)

lemma pg_Items_rows:
  assumes "pg_wf db"
  obtains items where "pg_Items Answered db = items" "map pr_url (sort_key pr_depth (pg_queue db)) = map itemURL items"
    "map pr_depth (sort_key pr_depth (pg_queue db)) = map itemDepth items"
proof -
  have "\<forall>row\<in>set rows. row_ok row \<Longrightarrow>
      map pr_url rows = map itemURL (List.map_filter (\<lambda>row. unmarshal_item (pr_data row)) rows) \<and>
      map pr_depth rows = map itemDepth (List.map_filter (\<lambda>row. unmarshal_item (pr_data row)) rows)" for rows
    by (induction rows) (auto simp: map_filter_simps row_ok_def)
  from this [of "sort_key pr_depth (pg_queue db)"] show ?thesis
    using assms that by (simp add: pg_wf_def pg_Items_def store_call_def)
qed

lemma distinct_map_sort_key: "distinct (map f (sort_key k xs)) \<longleftrightarrow> distinct (map f xs)"
  by (metis distinct_map distinct_sort set_sort mset_sort mset_eq_imp_distinct_iff)

text \<open>The snapshot of a Postgres queue, loaded into the tables whatever they held, is what the next snapshot
  returns: the same items in the same order and the same visited URLs.\<close>

theorem postgres_checkpoint_roundtrip:
  assumes "pg_wf db" "pg_Snapshot Answered Answered db db = (items, visited)" "set vis = visited"
  shows "let db' = pg_LoadFromCheckpoint Answered items vis db0 in
    pg_Snapshot Answered Answered db' db' = (items, visited) \<and> pg_wf db'"
proof -
  obtain its where its: "pg_Items Answered db = its" "map pr_url (sort_key pr_depth (pg_queue db)) = map itemURL its"
    "map pr_depth (sort_key pr_depth (pg_queue db)) = map itemDepth its" by (rule pg_Items_rows [OF assms(1)])
  then have e: "its = items" "pg_visited db = visited" using assms(2)
    by (auto simp: pg_Snapshot_def pg_AllVisited_def store_call_def)
  have d: "distinct (map itemURL items)"
    using assms(1) its(2) by (metis distinct_map_sort_key e(1) pg_wf_def)
  have "\<forall>x\<in>set (map itemDepth items). fits_integer x"
    using assms(1) unfolding e(1) [symmetric] its(3) [symmetric] by (auto simp: pg_wf_def row_ok_def)
  then have f: "\<forall>it\<in>set items. fits_integer (itemDepth it)" by simp
  have "sorted (map itemDepth items)" unfolding e(1) [symmetric] its(3) [symmetric] by simp
  then have "sort_key pr_depth (map row_of items) = map row_of items"
    by (intro sort_key_id_if_sorted) (simp add: comp_def)
  moreover have "pg_LoadFromCheckpoint Answered items vis db0 = \<lparr>pg_queue = map row_of items, pg_visited = visited\<rparr>"
    using insert_rows_Some [of "[]" items] d f assms(3) by (simp add: pg_LoadFromCheckpoint_def)
  ultimately show ?thesis using d f
    by (auto simp: Let_def pg_Snapshot_def pg_Items_def pg_AllVisited_def store_call_def items_of_rows pg_wf_def row_ok_def comp_def)
qed

theorem postgres_checkpoint_roundtrip_witness:
  "let db = snd (pg_PushURL Answered ''b'' 1 (snd (pg_PushURL Answered ''a'' 2 empty_db)));
     db' = pg_LoadFromCheckpoint Answered (fst (pg_Snapshot Answered Answered db db)) [] db
   in pg_Snapshot Answered Answered db' db' = pg_Snapshot Answered Answered db db"
proof -
  let ?db = "snd (pg_PushURL Answered ''b'' 1 (snd (pg_PushURL Answered ''a'' 2 empty_db)))"
  have "pg_visited ?db = {}" by (simp add: pg_PushURL_def store_call_def empty_db_def)
  then have s: "pg_Snapshot Answered Answered ?db ?db = (fst (pg_Snapshot Answered Answered ?db ?db), {})"
    by (simp add: pg_Snapshot_def pg_AllVisited_def store_call_def)
  show ?thesis
    using postgres_checkpoint_roundtrip [OF pg_push_wf [OF pg_push_wf [OF pg_wf_empty]] s, of "[]" ?db] s by (simp add: Let_def)
qed

section \<open>What the queue serves\<close>

definition pg_push :: "pg_db \<Rightarrow> string \<Rightarrow> int \<Rightarrow> bool \<times> pg_db" where
  "pg_push db u d = pg_PushURL Answered u d db"

definition pg_pop :: "pg_db \<Rightarrow> ((url_item \<times> bool) \<times> pg_db) outcome" where
  "pg_pop db = Returns (pg_PopURL Answered Answered {} db)"

lemmas pg_defs = pg_push_def pg_pop_def pg_PushURL_def pg_PopURL_def store_call_def pg_delete_least_def

text \<open>A URL that was popped is accepted and served again: pushing consults the queue table only. The size limit the
  queue was made with is not consulted either.\<close>

lemma popped_url_is_served_again:
  assumes "fits_integer d" "pg_queue db = []"
  shows "\<exists>db'. queue_run pg_push pg_pop db [OpPush u d, OpPop, OpPush u d, OpPop] =
    Returns (replicate 2 \<lparr>itemURL = u, itemDepth = d, itemIndex = 0\<rparr>, db')"
  using assms by (simp add: pg_defs Let_def pg_markVisited_def numeral_2_eq_2)

lemma queued_url_is_not_seen: "u \<notin> pg_visited db \<Longrightarrow> \<not> pg_HasSeen Answered (snd (pg_push db u d)) u"
  by (auto simp: pg_defs pg_HasSeen_def)

lemma any_number_is_queued: "fits_integer d \<Longrightarrow> u \<notin> pr_url ` set (pg_queue db) \<Longrightarrow> fst (pg_push db u d)"
  by (simp add: pg_defs)

text \<open>The Postgres queue does not keep the contract of a crawl queue, whatever is taken for its pending and its
  visited URLs: a contract it kept would rule out that it serves a URL twice.\<close>

theorem postgres_breaks_the_contract:
  "\<not> (\<exists>pending visited inv. url_queue pg_push pg_pop payload pending visited inv \<and> inv empty_db)"
proof
  assume "\<exists>pending visited inv. url_queue pg_push pg_pop payload pending visited inv \<and> inv empty_db"
  then obtain pending visited inv where q: "url_queue pg_push pg_pop payload pending visited inv" "inv empty_db" by blast
  have f: "fits_integer 0" by (simp add: fits_integer_def)
  from popped_url_is_served_again [OF f, of empty_db "''a''"] obtain db where
    "queue_run pg_push pg_pop empty_db [OpPush ''a'' 0, OpPop, OpPush ''a'' 0, OpPop] =
      Returns (replicate 2 \<lparr>itemURL = ''a'', itemDepth = 0, itemIndex = 0\<rparr>, db)" by (auto simp: empty_db_def)
  then show False
    using url_queue.run_never_twice [OF q, of "[OpPush ''a'' 0, OpPop, OpPush ''a'' 0, OpPop]"] by (auto simp: numeral_2_eq_2)
qed

text \<open>Draining serves every queued URL once, in order of depth.\<close>

lemma pg_drain:
  "pg_wf db \<Longrightarrow> \<exists>is db'. queue_run pg_push pg_pop db (replicate n OpPop) = Returns (is, db') \<and> pg_wf db' \<and>
     sorted (map itemDepth is) \<and> length is = min n (length (pg_queue db)) \<and>
     mset (map payload is) + image_mset (\<lambda>r. (pr_url r, pr_depth r)) (mset (pg_queue db')) =
       image_mset (\<lambda>r. (pr_url r, pr_depth r)) (mset (pg_queue db))"
proof (induction n arbitrary: db)
  case (Suc n)
  obtain it ok db1 where p: "pg_PopURL Answered Answered {} db = ((it, ok), db1)" by (metis prod.exhaust)
  then have pp: "pg_pop db = Returns ((it, ok), db1)" by (simp add: pg_pop_def)
  have w: "pg_wf db1" using pg_pop_wf [OF Suc.prems, of Answered Answered "{}"] p by simp
  obtain "is" db2 where r: "queue_run pg_push pg_pop db1 (replicate n OpPop) = Returns (is, db2)" "pg_wf db2"
    "sorted (map itemDepth is)" "length is = min n (length (pg_queue db1))"
    "mset (map payload is) + image_mset (\<lambda>r. (pr_url r, pr_depth r)) (mset (pg_queue db2)) =
      image_mset (\<lambda>r. (pr_url r, pr_depth r)) (mset (pg_queue db1))"
    using Suc.IH [OF w] by blast
  show ?case
  proof (cases ok)
    case True
    obtain row where row: "row \<in> set (pg_queue db)" "pr_url row = itemURL it" "pr_depth row = itemDepth it"
      "pg_queue db1 = remove1 row (pg_queue db)" "\<forall>row\<in>set (pg_queue db). itemDepth it \<le> pr_depth row"
      using pg_pop_least [OF Suc.prems, of Answered "{}" it db1] p True by auto
    have "\<forall>j\<in>set is. itemDepth it \<le> itemDepth j"
    proof
      fix j assume "j \<in> set is"
      then have "payload j \<in># image_mset (\<lambda>r. (pr_url r, pr_depth r)) (mset (pg_queue db1))"
        by (subst r(5) [symmetric]) simp
      then obtain r' where "r' \<in> set (pg_queue db)" "pr_depth r' = itemDepth j"
        using row(4) by (auto simp: payload_def dest: in_diffD)
      then show "itemDepth it \<le> itemDepth j" using row(5) by force
    qed
    moreover have "image_mset (\<lambda>r. (pr_url r, pr_depth r)) (mset (pg_queue db)) =
        add_mset (payload it) (image_mset (\<lambda>r. (pr_url r, pr_depth r)) (mset (pg_queue db1)))"
    proof -
      have "mset (pg_queue db) = add_mset row (mset (pg_queue db1))" using row(1,4) by simp
      then show ?thesis using row(2,3) by (simp only: image_mset_add_mset payload_def)
    qed
    moreover have "length (pg_queue db) = Suc (length (pg_queue db1))" using row(1,4) by (simp add: length_remove1) (metis Suc_pred length_pos_if_in_set)
    ultimately show ?thesis using pp r True by (simp flip: r(5))
  next
    case False
    then have "pg_queue db = [] \<and> db1 = db"
      using p by (auto simp: pg_PopURL_def store_call_def pg_delete_least_def Let_def least_row_None split: option.splits)
    then show ?thesis using pp r False by simp
  qed
qed simp

text \<open>The two queries of a snapshot can see different tables: an item popped in between is listed as queued and as
  visited.\<close>

lemma snapshot_between_two_queries:
  assumes "pg_wf db" "pg_PopURL Answered Answered {} db = ((it, True), db')" "pg_Snapshot Answered Answered db db' = (items, visited)"
  shows "itemURL it \<in> set (map itemURL items) \<and> itemURL it \<in> visited"
proof -
  have v: "itemURL it \<in> visited"
    using assms(2,3) by (auto simp: pg_PopURL_def Let_def pg_markVisited_def store_call_def pg_Snapshot_def pg_AllVisited_def split: prod.splits option.splits)
  obtain row where "row \<in> set (pg_queue db)" "pr_url row = itemURL it"
    using pg_pop_least [OF assms(1,2)] by auto
  moreover have "set (map pr_url (sort_key pr_depth (pg_queue db))) = set (map itemURL items)"
    using pg_Items_rows [OF assms(1)] assms(3) by (metis fst_conv pg_Snapshot_def)
  ultimately show ?thesis using v by (metis image_eqI image_set set_sort)
qed

end
