(* ===== verification/KafkaQueue.thy ===== *)
theory KafkaQueue
  imports RedisQueue
begin

text \<open>
  The Kafka crawl queue, \<open>internal/queue/kafka.go\<close>, and the choice of a backend, \<open>factory.go\<close>. The broker's topics
  are lists of messages; which message a reader is given next is an argument, since partitions are not ordered with
  each other. \<open>accepts\<close> is the writer of \<open>kafka-go\<close>: it tells for the topic of the writer and the topic of a message
  whether the message is written. Its documentation asks for exactly one of the two to be set.
\<close>

section \<open>State\<close>

record kafka_queue =
  kq_topic :: "jdoc list"
  kq_seenTopic :: "jdoc list"
  kq_seenSet :: "string set"
  kq_pendingSet :: "string set"
  kq_pending :: int
  kq_maxSize :: int

definition new_kafka :: "jdoc list \<Rightarrow> int \<Rightarrow> kafka_queue" where
  "new_kafka topic maxSize =
     \<lparr>kq_topic = topic, kq_seenTopic = [], kq_seenSet = {}, kq_pendingSet = {}, kq_pending = 0, kq_maxSize = maxSize\<rparr>"

type_synonym writer = "string option \<Rightarrow> string option \<Rightarrow> bool"

definition documented_writer :: writer where
  "documented_writer w m \<longleftrightarrow> (w = None) \<noteq> (m = None)"

text \<open>The writer of the queue has the topic \<open>crawl_queue\<close>.\<close>

definition writer_topic :: "string option" where
  "writer_topic = Some ''crawl_queue''"

section \<open>Operations\<close>

definition kq_markSeenIfNotExists :: "writer \<Rightarrow> reply \<Rightarrow> string \<Rightarrow> kafka_queue \<Rightarrow> bool \<times> kafka_queue" where
  "kq_markSeenIfNotExists accepts r url q =
     (if url \<in> kq_seenSet q then (True, q)
      else let q1 = q\<lparr>kq_seenSet := insert url (kq_seenSet q)\<rparr>;
               it = \<lparr>itemURL = url, itemDepth = 0, itemIndex = 0\<rparr>
           in (False, if accepts writer_topic (Some ''crawl_seen'') \<and> r \<noteq> Refused
                      then q1\<lparr>kq_seenTopic := kq_seenTopic q1 @ [marshal_item it]\<rparr> else q1))"

definition kq_write :: "writer \<Rightarrow> reply \<Rightarrow> jdoc \<Rightarrow> kafka_queue \<Rightarrow> bool \<times> kafka_queue" where
  "kq_write accepts r data q =
     (if accepts writer_topic None
      then store_call r False (\<lambda>q. (True, q\<lparr>kq_topic := kq_topic q @ [data]\<rparr>)) q
      else (False, q))"

definition kq_PushURL :: "writer \<Rightarrow> reply \<Rightarrow> reply \<Rightarrow> string \<Rightarrow> int \<Rightarrow> kafka_queue \<Rightarrow> bool \<times> kafka_queue" where
  "kq_PushURL accepts r1 r2 url depth q =
     (if kq_pending q \<ge> kq_maxSize q then (False, q)
      else case kq_markSeenIfNotExists accepts r1 url q of
             (True, q1) \<Rightarrow> (False, q1)
           | (False, q1) \<Rightarrow>
               (case kq_write accepts r2 (marshal_item \<lparr>itemURL = url, itemDepth = depth, itemIndex = 0\<rparr>) q1 of
                  (False, q2) \<Rightarrow> (False, q2)
                | (True, q2) \<Rightarrow> (True, q2\<lparr>kq_pendingSet := insert url (kq_pendingSet q2), kq_pending := kq_pending q2 + 1\<rparr>)))"

text \<open>A fetched message is not given to this reader again; committing it is a call of its own.\<close>

definition kq_PopURL :: "nat \<Rightarrow> reply \<Rightarrow> reply \<Rightarrow> kafka_queue \<Rightarrow> (url_item \<times> bool) \<times> kafka_queue" where
  "kq_PopURL i r1 r2 q =
     (if r1 = Refused \<or> kq_topic q = [] then ((zero_item, False), q)
      else let n = i mod length (kq_topic q); msg = kq_topic q ! n;
               q1 = q\<lparr>kq_topic := take n (kq_topic q) @ drop (Suc n) (kq_topic q)\<rparr>
           in if r1 = AnswerLost then ((zero_item, False), q1)
              else case unmarshal_item msg of
                     None \<Rightarrow> ((zero_item, False), q1)
                   | Some it \<Rightarrow>
                       if r2 \<noteq> Answered then ((zero_item, False), q1)
                       else ((it, True), q1\<lparr>kq_pendingSet := kq_pendingSet q1 - {itemURL it}, kq_pending := kq_pending q1 - 1\<rparr>))"

text \<open>One round of \<open>consumeSeenTopic\<close>, for the first message of the topic.\<close>

definition kq_consumeSeen :: "kafka_queue \<Rightarrow> kafka_queue" where
  "kq_consumeSeen q =
     (case kq_seenTopic q of
        [] \<Rightarrow> q
      | msg # rest \<Rightarrow>
          (let q1 = q\<lparr>kq_seenTopic := rest\<rparr>
           in case unmarshal_item msg of None \<Rightarrow> q1 | Some it \<Rightarrow> q1\<lparr>kq_seenSet := insert (itemURL it) (kq_seenSet q1)\<rparr>))"

definition kq_Size :: "kafka_queue \<Rightarrow> int" where
  "kq_Size q = (let n = kq_pending q in if n < 0 then 0 else n)"

definition kq_HasSeen :: "kafka_queue \<Rightarrow> string \<Rightarrow> bool" where
  "kq_HasSeen q url \<longleftrightarrow> url \<in> kq_seenSet q"

definition kq_MarkSeen :: "writer \<Rightarrow> reply \<Rightarrow> string \<Rightarrow> kafka_queue \<Rightarrow> kafka_queue" where
  "kq_MarkSeen accepts r url q = snd (kq_markSeenIfNotExists accepts r url q)"

definition kq_Items :: "kafka_queue \<Rightarrow> url_item set" where
  "kq_Items q = (\<lambda>url. \<lparr>itemURL = url, itemDepth = 0, itemIndex = 0\<rparr>) ` kq_pendingSet q"

definition kq_AllVisited :: "kafka_queue \<Rightarrow> string set" where
  "kq_AllVisited q = kq_seenSet q"

definition kq_Snapshot :: "kafka_queue \<Rightarrow> url_item set \<times> string set" where
  "kq_Snapshot q = (kq_Items q, kq_seenSet q)"

definition kq_LoadFromCheckpoint :: "writer \<Rightarrow> reply \<Rightarrow> url_item list \<Rightarrow> string list \<Rightarrow> kafka_queue \<Rightarrow> kafka_queue" where
  "kq_LoadFromCheckpoint accepts r items visited q =
     (let q1 = fold (\<lambda>it q. snd (kq_write accepts r (marshal_item it) q)) items q;
          q2 = q1\<lparr>kq_pendingSet := set (map itemURL items), kq_pending := int (length items)\<rparr>
      in fold (kq_MarkSeen accepts r) visited q2)"

section \<open>Choosing a backend\<close>

datatype backend = InMemory int | OnRedis string int | OnPostgres string int | OnKafka string int | BadBackend string

text \<open>\<open>cfg\<close> has the backend, the Redis URL, the Postgres DSN and the Kafka URL; the default size is used for all.\<close>

definition NewQueueFromConfig :: "(string \<times> string \<times> string \<times> string) option \<Rightarrow> backend" where
  "NewQueueFromConfig cfg =
     (case cfg of
        None \<Rightarrow> InMemory DefaultMaxQueueSize
      | Some (name, redisURL, pgDSN, kafkaURL) \<Rightarrow>
          (let b = to_lower name
           in if b = ''local'' \<or> b = [] then InMemory DefaultMaxQueueSize
              else if b = ''redis'' then (if redisURL = [] then BadBackend ''redis backend requires redis_url'' else OnRedis redisURL DefaultMaxQueueSize)
              else if b = ''postgres'' then (if pgDSN = [] then BadBackend ''postgres backend requires pg_dsn'' else OnPostgres pgDSN DefaultMaxQueueSize)
              else if b = ''kafka'' then (if kafkaURL = [] then BadBackend ''kafka backend requires kafka_url'' else OnKafka kafkaURL DefaultMaxQueueSize)
              else BadBackend (''unknown queue backend: '' @ name)))"

definition NewQueue :: "string \<Rightarrow> string \<Rightarrow> string \<Rightarrow> string \<Rightarrow> int \<Rightarrow> backend" where
  "NewQueue name redisURL pgDSN kafkaURL maxSize =
     (if name = ''local'' then InMemory maxSize
      else if name = ''redis'' then OnRedis redisURL maxSize
      else if name = ''postgres'' then OnPostgres pgDSN maxSize
      else if name = ''kafka'' then OnKafka kafkaURL maxSize
      else InMemory maxSize)"

section \<open>The contract\<close>

definition kq_items :: "kafka_queue \<Rightarrow> (string \<times> int) multiset" where
  "kq_items q = mset (map (payload \<circ> the \<circ> unmarshal_item) (kq_topic q))"

definition kq_wf :: "kafka_queue \<Rightarrow> bool" where
  "kq_wf q \<longleftrightarrow> (\<forall>d\<in>set (kq_topic q). \<exists>it. d = marshal_item it) \<and>
     (\<forall>u. count (image_mset fst (kq_items q)) u \<le> (if u \<in> kq_seenSet q then 1 else 0))"

text \<open>Calls that are answered; the reader gives out the messages in their order.\<close>

definition kq_push :: "writer \<Rightarrow> kafka_queue \<Rightarrow> string \<Rightarrow> int \<Rightarrow> bool \<times> kafka_queue" where
  "kq_push accepts q u d = kq_PushURL accepts Answered Answered u d q"

definition kq_pop :: "kafka_queue \<Rightarrow> ((url_item \<times> bool) \<times> kafka_queue) outcome" where
  "kq_pop q = Returns (kq_PopURL 0 Answered Answered q)"

lemmas kafka_defs = kq_push_def kq_pop_def kq_PushURL_def kq_PopURL_def store_call_def kq_write_def kq_markSeenIfNotExists_def

lemma documented: "\<forall>w m. accepts w m \<longleftrightarrow> (w = None) \<noteq> (m = None) \<Longrightarrow> accepts = documented_writer"
  by (intro ext) (simp add: documented_writer_def)

lemma documented_topics [simp]: "documented_writer writer_topic None" "\<not> documented_writer writer_topic (Some t)"
  by (simp_all add: documented_writer_def writer_topic_def)

lemma kq_push_new:
  assumes "kq_wf q" "kq_push documented_writer q u d = (True, q')"
  shows "u \<notin> kq_seenSet q \<and> kq_seenSet q' = insert u (kq_seenSet q) \<and> kq_items q' = add_mset (u, d) (kq_items q) \<and> kq_wf q'"
proof -
  let ?it = "\<lparr>itemURL = u, itemDepth = d, itemIndex = 0\<rparr>"
  have q': "u \<notin> kq_seenSet q" "kq_topic q' = kq_topic q @ [marshal_item ?it]" "kq_seenSet q' = insert u (kq_seenSet q)"
    using assms(2) by (auto simp: kafka_defs Let_def split: if_splits)
  have p: "kq_items q' = add_mset (u, d) (kq_items q)" using q' by (simp add: kq_items_def payload_def)
  have "count (image_mset fst (kq_items q')) v \<le> (if v \<in> kq_seenSet q' then 1 else 0)" for v
  proof -
    have "count (image_mset fst (kq_items q)) v \<le> (if v \<in> kq_seenSet q then 1 else 0)"
      using assms(1) unfolding kq_wf_def by blast
    moreover have "count (image_mset fst (kq_items q')) v = count (image_mset fst (kq_items q)) v + (if v = u then 1 else 0)"
      unfolding p by simp
    ultimately show ?thesis using q' by (auto simp del: count_eq_zero_iff split: if_splits)
  qed
  then show ?thesis using q' p assms(1) by (auto simp: kq_wf_def)
qed

lemma kq_pop_cases:
  assumes "kq_wf q"
  obtains (none) "kq_topic q = []" "kq_pop q = Returns ((zero_item, False), q)"
  | (some) it q' where "kq_pop q = Returns ((it, True), q')" "kq_topic q = marshal_item it # kq_topic q'"
      "kq_items q = add_mset (payload it) (kq_items q')" "kq_seenSet q' = kq_seenSet q" "kq_wf q'"
proof (cases "kq_topic q")
  case Nil
  then show ?thesis using none by (simp add: kafka_defs)
next
  case (Cons data rest)
  obtain it where it: "data = marshal_item it" using assms Cons by (auto simp: kq_wf_def)
  define q' where "q' = q\<lparr>kq_topic := rest, kq_pendingSet := kq_pendingSet q - {itemURL it}, kq_pending := kq_pending q - 1\<rparr>"
  have p: "kq_items q = add_mset (payload it) (kq_items q')" using Cons it by (simp add: kq_items_def q'_def)
  have "count (image_mset fst (kq_items q')) v \<le> (if v \<in> kq_seenSet q' then 1 else 0)" for v
  proof -
    have "count (image_mset fst (kq_items q)) v \<le> (if v \<in> kq_seenSet q then 1 else 0)"
      using assms unfolding kq_wf_def by blast
    then show ?thesis by (auto simp: p q'_def split: if_splits)
  qed
  then have "kq_wf q'" using assms Cons by (simp add: kq_wf_def q'_def)
  then show ?thesis using some [of it q'] Cons it p by (simp add: kafka_defs q'_def Let_def)
qed

lemma kq_push_refused: "kq_push documented_writer q u d = (False, q') \<Longrightarrow> q' = q"
  by (auto simp: kafka_defs Let_def split: if_splits)

interpretation kq: url_queue "kq_push documented_writer" kq_pop payload kq_items kq_seenSet kq_wf
proof unfold_locales
  fix q u d q' assume "kq_wf q" "kq_push documented_writer q u d = (True, q')"
  then show "u \<notin> kq_seenSet q \<and> kq_seenSet q' = insert u (kq_seenSet q) \<and> kq_items q' = add_mset (u, d) (kq_items q) \<and> kq_wf q'"
    by (rule kq_push_new)
next
  fix q u d q' assume "kq_push documented_writer q u d = (False, q')"
  then show "q' = q" by (rule kq_push_refused)
next
  fix q assume "kq_wf q"
  then show "\<exists>i ok q'. kq_pop q = Returns ((i, ok), q')" by (cases rule: kq_pop_cases) auto
next
  fix q i q' assume "kq_wf q" "kq_pop q = Returns ((i, True), q')"
  then show "kq_items q = add_mset (payload i) (kq_items q') \<and> kq_seenSet q' = kq_seenSet q \<and> kq_wf q'"
    by (cases rule: kq_pop_cases) auto
next
  fix q i q' assume "kq_wf q" "kq_pop q = Returns ((i, False), q')"
  then show "kq_items q = {#} \<and> q' = q" by (cases rule: kq_pop_cases) (auto simp: kq_items_def)
next
  fix q assume "kq_wf q"
  then show "\<forall>u. size (filter_mset (\<lambda>p. fst p = u) (kq_items q)) \<le> (if u \<in> kq_seenSet q then 1 else 0)"
    by (simp add: kq_wf_def size_filter_fst)
qed

section \<open>Failures and restarts\<close>

text \<open>C31: When the write of a pushed URL fails, the URL is lost: it counts as seen, so pushing it again is refused and
  no sequence of pushes and pops ever serves it.\<close>

theorem kafka_failed_push_loses_url:
  assumes "\<forall>w m. accepts w m \<longleftrightarrow> (w = None) \<noteq> (m = None)" "kq_wf q" "u \<notin> kq_seenSet q"
    "kq_pending q < kq_maxSize q" "kq_PushURL accepts r Refused u d q = (ok, q1)"
  shows "\<not> ok \<and> (\<exists>is q2. queue_run (kq_push accepts) kq_pop q1 ops = Returns (is, q2) \<and>
    u \<notin> set (map itemURL is) \<and> \<not> fst (kq_push accepts q2 u d'))"
proof -
  note a = documented [OF assms(1)]
  have q1: "\<not> ok" "q1 = q\<lparr>kq_seenSet := insert u (kq_seenSet q)\<rparr>"
    using assms(3-5) by (auto simp: kq_PushURL_def kq_markSeenIfNotExists_def kq_write_def store_call_def Let_def a split: if_splits)
  have le: "count (image_mset fst (kq_items q)) v \<le> (if v \<in> kq_seenSet q then 1 else 0)" for v
    using assms(2) unfolding kq_wf_def by blast
  have z: "count (image_mset fst (kq_items q)) u = 0" using le [of u] assms(3) by (simp del: count_eq_zero_iff)
  have i: "kq_items q1 = kq_items q" "kq_topic q1 = kq_topic q" by (simp_all add: q1(2) kq_items_def)
  have "count (image_mset fst (kq_items q1)) v \<le> (if v \<in> kq_seenSet q1 then 1 else 0)" for v
    using le [of v] unfolding i by (auto simp: q1(2) simp del: count_eq_zero_iff split: if_splits)
  then have w: "kq_wf q1" using assms(2) by (simp add: kq_wf_def i)
  have b: "kq.budget q1 u = 0"
    using z by (simp add: kq.budget_def size_filter_fst q1(2) kq_items_def del: count_eq_zero_iff)
  obtain "is" q2 where r: "queue_run (kq_push documented_writer) kq_pop q1 ops = Returns (is, q2)" "kq_wf q2"
    "\<And>u. count_list (map (\<lambda>i. fst (payload i)) is) u + kq.budget q2 u = kq.budget q1 u"
    using kq.run_budget [OF w, of ops] by blast
  have "count_list (map itemURL is) u = 0" "kq.budget q2 u = 0" using r(3) [of u] b by (auto simp: payload_def)
  then have "u \<notin> set (map itemURL is)" "u \<in> kq_seenSet q2"
    by (auto simp: count_list_0_iff kq.budget_def split: if_splits)
  moreover have "\<not> fst (kq_push documented_writer q2 u d')" if "u \<in> kq_seenSet q2"
    using that by (simp add: kafka_defs)
  ultimately show ?thesis using q1(1) r(1) unfolding a by blast
qed

theorem kafka_failed_push_loses_url_witness:
  "\<not> fst (kq_PushURL documented_writer Answered Refused ''u'' 1 (new_kafka [] 5)) \<and>
   (\<exists>is q2. queue_run (kq_push documented_writer) kq_pop (snd (kq_PushURL documented_writer Answered Refused ''u'' 1 (new_kafka [] 5)))
      [OpPush ''u'' 1, OpPush ''v'' 1, OpPop, OpPop] = Returns (is, q2) \<and> ''u'' \<notin> set (map itemURL is))"
proof -
  have "kq_wf (new_kafka [] 5)" by (simp add: kq_wf_def new_kafka_def kq_items_def)
  then show ?thesis
    using kafka_failed_push_loses_url [of documented_writer "new_kafka [] 5" "''u''" Answered 1
        "fst (kq_PushURL documented_writer Answered Refused ''u'' 1 (new_kafka [] 5))"
        "snd (kq_PushURL documented_writer Answered Refused ''u'' 1 (new_kafka [] 5))" "[OpPush ''u'' 1, OpPush ''v'' 1, OpPop, OpPop]" 1]
    by (fastforce simp: documented_writer_def new_kafka_def)
qed

lemma kafka_queue_never_dispatches_twice:
  "kq_wf q \<Longrightarrow> \<exists>is q'. queue_run (kq_push documented_writer) kq_pop q ops = Returns (is, q') \<and> distinct (map itemURL is)"
  using kq.run_never_twice [of q ops] by (auto simp: payload_def)

lemma write_documented: "snd (kq_write documented_writer Answered data q) = q\<lparr>kq_topic := kq_topic q @ [data]\<rparr>"
  by (simp add: kq_write_def store_call_def)

lemma load_topic: "fold (\<lambda>it q. snd (kq_write documented_writer Answered (marshal_item it) q)) items q =
    q\<lparr>kq_topic := kq_topic q @ map marshal_item items\<rparr>"
  by (induction items arbitrary: q) (simp_all add: write_documented)

lemma mark_documented: "kq_MarkSeen documented_writer r u q = q\<lparr>kq_seenSet := insert u (kq_seenSet q)\<rparr>"
  by (auto simp: kq_MarkSeen_def kq_markSeenIfNotExists_def insert_absorb)

lemma mark_all: "fold (kq_MarkSeen documented_writer r) vis q = q\<lparr>kq_seenSet := set vis \<union> kq_seenSet q\<rparr>"
  by (induction vis arbitrary: q) (simp_all add: mark_documented)

text \<open>Loading a checkpoint publishes its items after the messages that are still in the topic: a URL that was
  queued when the checkpoint was saved, and whose message nobody has read, is then queued twice, and draining the
  topic serves it twice.\<close>

theorem kafka_resume_doubles_queued_urls:
  assumes "\<forall>w m. accepts w m \<longleftrightarrow> (w = None) \<noteq> (m = None)"
    "kq_topic q = map marshal_item old" "u \<in> set (map itemURL old)" "u \<in> set (map itemURL items)"
  shows "\<exists>is q'. queue_run (kq_push accepts) kq_pop (kq_LoadFromCheckpoint accepts Answered items vis q)
      (replicate (length old + length items) OpPop) = Returns (is, q') \<and> is = old @ items \<and> count_list (map itemURL is) u \<ge> 2"
proof -
  have drain: "\<exists>q'. queue_run (kq_push accepts) kq_pop q (replicate (length its) OpPop) = Returns (its, q')"
    if "kq_topic q = map marshal_item its" for q its
    using that
  proof (induction its arbitrary: q)
    case (Cons it its)
    define q1 where "q1 = q\<lparr>kq_topic := map marshal_item its, kq_pendingSet := kq_pendingSet q - {itemURL it}, kq_pending := kq_pending q - 1\<rparr>"
    have "kq_pop q = Returns ((it, True), q1)" using Cons.prems by (simp add: kafka_defs q1_def Let_def)
    then show ?case using Cons.IH [of q1] by (auto simp: q1_def)
  qed simp
  have t: "kq_topic (kq_LoadFromCheckpoint accepts Answered items vis q) = map marshal_item (old @ items)"
    using assms(2) by (simp add: kq_LoadFromCheckpoint_def documented [OF assms(1)] load_topic mark_all Let_def)
  have "count_list (map itemURL old) u \<noteq> 0" "count_list (map itemURL items) u \<noteq> 0"
    using assms(3,4) by (simp_all add: count_list_0_iff)
  then show ?thesis using drain [OF t] by (auto simp: count_list_append)
qed

theorem kafka_resume_doubles_queued_urls_witness:
  "let it = \<lparr>itemURL = ''u'', itemDepth = 1, itemIndex = 0\<rparr>
   in \<exists>is q'. queue_run (kq_push documented_writer) kq_pop (kq_LoadFromCheckpoint documented_writer Answered [it] [] (new_kafka [marshal_item it] 5))
      (replicate 2 OpPop) = Returns (is, q') \<and> is = [it, it]"
  using kafka_resume_doubles_queued_urls [of documented_writer "new_kafka [marshal_item \<lparr>itemURL = ''u'', itemDepth = 1, itemIndex = 0\<rparr>] 5"
      "[\<lparr>itemURL = ''u'', itemDepth = 1, itemIndex = 0\<rparr>]" "''u''" "[\<lparr>itemURL = ''u'', itemDepth = 1, itemIndex = 0\<rparr>]" "[]"]
  by (simp add: documented_writer_def new_kafka_def Let_def numeral_2_eq_2)

text \<open>The topic of seen URLs is never written: the message names a topic, and so does the writer.\<close>

lemma seen_topic_is_never_written:
  "kq_seenTopic (snd (kq_PushURL documented_writer r1 r2 u d q)) = kq_seenTopic q"
  "kq_seenTopic (kq_MarkSeen documented_writer r u q) = kq_seenTopic q"
  by (auto simp: kafka_defs Let_def mark_documented split: reply.splits)

text \<open>A checkpoint forgets the depths.\<close>

lemma kafka_items_lose_depth: "it \<in> fst (kq_Snapshot q) \<Longrightarrow> itemDepth it = 0"
  by (auto simp: kq_Snapshot_def kq_Items_def)

text \<open>The size of the configuration is not consulted.\<close>

lemma backend_from_config:
  "NewQueueFromConfig cfg \<in> {InMemory 100000} \<union> range (\<lambda>u. OnRedis u 100000) \<union> range (\<lambda>u. OnPostgres u 100000) \<union>
     range (\<lambda>u. OnKafka u 100000) \<union> range BadBackend"
  by (auto simp: NewQueueFromConfig_def DefaultMaxQueueSize_def Let_def split: option.splits prod.splits)

end
