(* ===== verification/Interceptor.thy ===== *)
theory Interceptor
  imports Lru GoNetURL GoPath
begin

text \<open>
  Capture of the network traffic of a page, \<open>internal/network\<close>: the interceptor (\<open>interceptor.go\<close>, \<open>types.go\<close>)
  as a state driven by the browser's events and by the fetches of response bodies it starts, the pool of
  interceptors, and the classification of content types (\<open>assetpath.go\<close>). The set of seen URLs is the LRU set of
  theory \<open>Lru\<close>. The browser's answers, and those of the HTTP client, are arguments. Every operation that holds the
  mutex is one step; timestamps are left out, header values are strings.
\<close>

section \<open>assetpath.go\<close>

definition mime_extensions :: "(string \<times> string) list" where
  "mime_extensions =
     [(''text/html'', ''.html''), (''text/css'', ''.css''), (''javascript'', ''.js''), (''image/png'', ''.png''),
      (''image/jpeg'', ''.jpg''), (''image/gif'', ''.gif''), (''image/svg'', ''.svg''), (''image/webp'', ''.webp''),
      (''image/x-icon'', ''.ico''), (''font/woff2'', ''.woff2''), (''font/woff'', ''.woff''), (''font/ttf'', ''.ttf''),
      (''font/eot'', ''.eot''), (''application/json'', ''.json''), (''application/pdf'', ''.pdf'')]"

definition extensionForMime :: "string \<Rightarrow> string" where
  "extensionForMime mime =
     (case filter (\<lambda>e. contains mime (fst e)) mime_extensions of [] \<Rightarrow> [] | e # _ \<Rightarrow> snd e)"

text \<open>The extension is computed and not used.\<close>

definition AssetPath :: "string \<Rightarrow> string \<Rightarrow> string" where
  "AssetPath urlStr mimeType =
     (case url_parse urlStr of
        None \<Rightarrow> []
      | Some u \<Rightarrow>
          let ext = (let e = filepath_Ext (u_path u) in if e = [] then extensionForMime mimeType else e);
              cleanPath = (if u_path u = [] then ''/index'' else u_path u)
          in filepath_Join [hostname u, cleanPath])"

definition baseMimeType :: "string \<Rightarrow> string" where
  "baseMimeType mime = (case index_byte mime CHR '';'' of Some i \<Rightarrow> trim_space (take i mime) | None \<Rightarrow> trim_space mime)"

definition isJSONContentType :: "string \<Rightarrow> bool" where
  "isJSONContentType mime \<longleftrightarrow>
     baseMimeType mime \<in> set [''application/json'', ''text/json'', ''application/vnd.api+json'', ''application/problem+json'',
       ''application/hal+json'', ''application/ld+json'']"

definition isAPIContentType :: "string \<Rightarrow> string \<Rightarrow> bool" where
  "isAPIContentType urlStr mime \<longleftrightarrow>
     (let base = baseMimeType mime
      in if contains base ''xml'' \<or> contains base ''protobuf'' \<or> contains base ''grpc'' then True
         else case url_parse urlStr of
                None \<Rightarrow> False
              | Some u \<Rightarrow> list_ex (contains (to_lower (u_path u)))
                  [''/api/'', ''/graphql'', ''/gql'', ''/rest/'', ''/v1/'', ''/v2/'', ''/rpc'', ''jsonrpc''])"

section \<open>State\<close>

definition MaxResponseBodySize :: nat where "MaxResponseBodySize = 50 * 1024 * 1024"
definition maxRetries :: nat where "maxRetries = 3"
definition maxSeenURLs :: int where "maxSeenURLs = 200000"
definition maxResources :: nat where "maxResources = 50000"
definition maxAPIResponses :: nat where "maxAPIResponses = 10000"

type_synonym headers = "string \<rightharpoonup> string"

record captured_resource =
  cr_URL :: string
  cr_Body :: string
  cr_MimeType :: string
  cr_StatusCode :: int
  cr_Headers :: headers

record api_request =
  aq_URL :: string
  aq_Method :: string
  aq_Body :: string
  aq_Headers :: headers

record api_response =
  ar_URL :: string
  ar_Method :: string
  ar_Body :: string
  ar_MimeType :: string
  ar_StatusCode :: int
  ar_Headers :: headers
  ar_Size :: nat
  ar_Request :: "api_request option"
  ar_RequestBody :: "string option"

record pending_resource =
  pe_requestID :: string
  pe_url :: string
  pe_mimeType :: string
  pe_status :: int
  pe_headers :: headers
  pe_method :: string
  pe_request :: "api_request option"

text \<open>\<open>ic_fetching\<close> are the goroutines that fetch a body, \<open>ic_fetchCancel\<close> whether the function to cancel is set.\<close>

record interceptor =
  ic_resources :: "(string, captured_resource) mapping"
  ic_apiResponses :: "api_response list"
  ic_seen :: lru_set
  ic_pending :: "string \<rightharpoonup> pending_resource"
  ic_pendingMethods :: "string \<rightharpoonup> string"
  ic_pendingRequests :: "string \<rightharpoonup> api_request"
  ic_baseURL :: string
  ic_workers :: int
  ic_fetching :: "pending_resource list"
  ic_fetchCancel :: bool

definition NewInterceptorWithWorkers :: "int \<Rightarrow> interceptor" where
  "NewInterceptorWithWorkers workerCount =
     \<lparr>ic_resources = Mapping.empty, ic_apiResponses = [], ic_seen = NewLRUSet maxSeenURLs, ic_pending = Map.empty,
      ic_pendingMethods = Map.empty, ic_pendingRequests = Map.empty, ic_baseURL = [],
      ic_workers = (if workerCount < 1 then 1 else workerCount), ic_fetching = [], ic_fetchCancel = False\<rparr>"

definition NewInterceptor :: interceptor where
  "NewInterceptor = NewInterceptorWithWorkers 10"

definition ic_Start :: "string \<Rightarrow> interceptor \<Rightarrow> interceptor" where
  "ic_Start targetURL i = i\<lparr>ic_baseURL := targetURL, ic_fetchCancel := True\<rparr>"

section \<open>The browser's events\<close>

definition onRequest :: "string \<Rightarrow> string \<Rightarrow> string \<Rightarrow> headers \<Rightarrow> interceptor \<Rightarrow> interceptor" where
  "onRequest rid method url h i =
     (let i1 = i\<lparr>ic_pendingMethods := (ic_pendingMethods i)(rid \<mapsto> method)\<rparr>
      in if method \<noteq> ''GET''
         then i1\<lparr>ic_pendingRequests := (ic_pendingRequests i1)(rid \<mapsto> \<lparr>aq_URL = url, aq_Method = method, aq_Body = [], aq_Headers = h\<rparr>)\<rparr>
         else i1)"

definition onResponse :: "string \<Rightarrow> string \<Rightarrow> string \<Rightarrow> int \<Rightarrow> headers \<Rightarrow> interceptor \<Rightarrow> interceptor" where
  "onResponse rid respURL mime status h i =
     (if respURL = [] then i
      else if lruContains (ic_seen i) respURL then i
      else i\<lparr>ic_seen := lruAdd (ic_seen i) respURL,
             ic_pendingMethods := (ic_pendingMethods i)(rid := None),
             ic_pendingRequests := (ic_pendingRequests i)(rid := None),
             ic_pending := (ic_pending i)(rid \<mapsto>
               \<lparr>pe_requestID = rid, pe_url = respURL, pe_mimeType = mime, pe_status = status, pe_headers = h,
                pe_method = (case ic_pendingMethods i rid of Some m \<Rightarrow> m | None \<Rightarrow> []),
                pe_request = ic_pendingRequests i rid\<rparr>)\<rparr>)"

definition onLoadingFinished :: "string \<Rightarrow> interceptor \<Rightarrow> interceptor" where
  "onLoadingFinished rid i =
     (case ic_pending i rid of
        None \<Rightarrow> i
      | Some p \<Rightarrow> i\<lparr>ic_pending := (ic_pending i)(rid := None), ic_fetching := ic_fetching i @ [p]\<rparr>)"

section \<open>Fetching a body\<close>

text \<open>One attempt: the body, an error, or the context cancelled while waiting for the attempt.\<close>

datatype body_try = TryBody string | TryError | TryCancelled

fun fetch_from :: "nat \<Rightarrow> body_try list \<Rightarrow> string option" where
  "fetch_from attempt [] = None"
| "fetch_from attempt (t # ts) =
     (if attempt \<ge> maxRetries then None
      else case t of
             TryBody b \<Rightarrow> Some b
           | TryError \<Rightarrow> fetch_from (Suc attempt) ts
           | TryCancelled \<Rightarrow> None)"

definition fetchWithRetry :: "body_try list \<Rightarrow> string option" where
  "fetchWithRetry tries = fetch_from 0 tries"

definition clip_body :: "string \<Rightarrow> string" where
  "clip_body body = (if length body > MaxResponseBodySize then take MaxResponseBodySize body else body)"

definition is_api :: "pending_resource \<Rightarrow> bool" where
  "is_api p \<longleftrightarrow> isJSONContentType (pe_mimeType p) \<or> isAPIContentType (pe_url p) (pe_mimeType p)"

definition api_of :: "pending_resource \<Rightarrow> string \<Rightarrow> string option \<Rightarrow> api_response" where
  "api_of p body reqBody =
     \<lparr>ar_URL = pe_url p, ar_Method = pe_method p, ar_Body = body, ar_MimeType = pe_mimeType p, ar_StatusCode = pe_status p,
      ar_Headers = pe_headers p, ar_Size = length body, ar_Request = pe_request p, ar_RequestBody = reqBody\<rparr>"

text \<open>Storing a fetched body; the second component is the call of the API callback.\<close>

definition store_fetched :: "pending_resource \<Rightarrow> string \<Rightarrow> string option \<Rightarrow> interceptor \<Rightarrow> interceptor \<times> api_response option" where
  "store_fetched p body0 reqBody i =
     (let body = clip_body body0;
          res = \<lparr>cr_URL = pe_url p, cr_Body = body, cr_MimeType = pe_mimeType p, cr_StatusCode = pe_status p, cr_Headers = pe_headers p\<rparr>;
          i1 = (if Mapping.size (ic_resources i) < maxResources
                then i\<lparr>ic_resources := Mapping.update (pe_url p) res (ic_resources i)\<rparr> else i)
      in if is_api p
         then (if length (ic_apiResponses i1) < maxAPIResponses
               then i1\<lparr>ic_apiResponses := ic_apiResponses i1 @ [api_of p body reqBody]\<rparr> else i1, Some (api_of p body reqBody))
         else (i1, None))"

text \<open>The post data is asked for when the request was recorded, which is for any method but \<open>GET\<close>.\<close>

definition fetchAndProcess :: "body_try list \<Rightarrow> string option \<Rightarrow> pending_resource \<Rightarrow> interceptor \<Rightarrow> interceptor \<times> api_response option" where
  "fetchAndProcess tries postData p i =
     (case fetchWithRetry tries of
        None \<Rightarrow> (i, None)
      | Some body \<Rightarrow>
          let reqBody = (case pe_request p of Some r \<Rightarrow> if aq_Method r \<noteq> ''GET'' then postData else None | None \<Rightarrow> None)
          in store_fetched p body reqBody i)"

text \<open>Goroutine \<open>n\<close> gets its slot and runs to its end; no attempt is made when the context ends before that.\<close>

definition finish_fetch :: "nat \<Rightarrow> body_try list \<Rightarrow> string option \<Rightarrow> interceptor \<Rightarrow> interceptor \<times> api_response option" where
  "finish_fetch n tries postData i =
     (if n < length (ic_fetching i)
      then fetchAndProcess tries postData (ic_fetching i ! n)
             (i\<lparr>ic_fetching := take n (ic_fetching i) @ drop (Suc n) (ic_fetching i)\<rparr>)
      else (i, None))"

text \<open>\<open>FetchBodies\<close> waits for the goroutines, takes all pending responses and fetches them; \<open>order\<close> is the order of the
  map and \<open>tries\<close> what the attempts for a request return, the empty list when the time is over.\<close>

definition FetchBodies :: "(string \<Rightarrow> body_try list) \<Rightarrow> string list \<Rightarrow> interceptor \<Rightarrow> interceptor option" where
  "FetchBodies tries order i =
     (if ic_fetching i \<noteq> [] then None
      else Some (fold (\<lambda>p i. case fetchWithRetry (tries (pe_requestID p)) of
                               None \<Rightarrow> i
                             | Some body \<Rightarrow> fst (store_fetched p body None i))
             (List.map_filter (ic_pending i) order) (i\<lparr>ic_pending := Map.empty\<rparr>)))"

section \<open>Queries, closing and reuse\<close>

definition GetResource :: "interceptor \<Rightarrow> string \<Rightarrow> captured_resource option" where
  "GetResource i url = Mapping.lookup (ic_resources i) url"

definition GetResources :: "interceptor \<Rightarrow> (string, captured_resource) mapping" where
  "GetResources i = ic_resources i"

definition GetAPIResponses :: "interceptor \<Rightarrow> api_response list" where
  "GetAPIResponses i = ic_apiResponses i"

definition IsCaptured :: "interceptor \<Rightarrow> string \<Rightarrow> bool" where
  "IsCaptured i url = lruContains (ic_seen i) url"

definition HasURL :: "interceptor \<Rightarrow> string \<Rightarrow> bool" where
  "HasURL i url \<longleftrightarrow> Mapping.lookup (ic_resources i) url \<noteq> None"

definition GetMissingResources :: "interceptor \<Rightarrow> string set" where
  "GetMissingResources i = Set.filter (\<lambda>u. Mapping.lookup (ic_resources i) u = None) (lruKeys (ic_seen i))"

definition GetAllSeenURLs :: "interceptor \<Rightarrow> string set" where
  "GetAllSeenURLs i = lruKeys (ic_seen i)"

text \<open>The client's answer: an error, or the status, the body unless reading it fails, and the headers.\<close>

definition DownloadResourceViaHTTP ::
  "(string \<Rightarrow> (int \<times> string option \<times> headers) option) \<Rightarrow> interceptor \<Rightarrow> string \<Rightarrow> unit + captured_resource option" where
  "DownloadResourceViaHTTP http i rawURL =
     (if ic_baseURL i = [] then Inr None
      else case http rawURL of
             None \<Rightarrow> Inl ()
           | Some (status, body, h) \<Rightarrow>
               if status \<noteq> 200 then Inr None
               else case body of
                      None \<Rightarrow> Inl ()
                    | Some b0 \<Rightarrow>
                        (let b = clip_body b0
                         in if b = [] then Inr None
                            else Inr (Some \<lparr>cr_URL = rawURL, cr_Body = b,
                                   cr_MimeType = (case h ''Content-Type'' of Some t \<Rightarrow> t | None \<Rightarrow> []),
                                   cr_StatusCode = status, cr_Headers = h\<rparr>)))"

text \<open>\<open>Close\<close> returns when no goroutine is left; the context it cancels is given to none of them.\<close>

definition ic_Close :: "interceptor \<Rightarrow> interceptor option" where
  "ic_Close i = (if ic_fetching i \<noteq> [] then None else Some i)"

definition ic_Reset :: "interceptor \<Rightarrow> interceptor" where
  "ic_Reset i =
     i\<lparr>ic_resources := Mapping.empty, ic_apiResponses := [], ic_seen := lruClear (ic_seen i), ic_pending := Map.empty,
       ic_pendingMethods := Map.empty, ic_pendingRequests := Map.empty, ic_baseURL := [], ic_fetchCancel := False\<rparr>"

section \<open>The pool\<close>

text \<open>Interceptors are the numbers in the order they were made; the map of those in use is \<open>nil\<close> once the pool is
  closed.\<close>

record ic_pool =
  ip_available :: "nat list"
  ip_inUse :: "nat list option"
  ip_maxSize :: int
  ip_made :: nat

definition NewInterceptorPool :: "int \<Rightarrow> ic_pool" where
  "NewInterceptorPool maxSize =
     \<lparr>ip_available = [0], ip_inUse = Some [], ip_maxSize = (if maxSize < 1 then 4 else maxSize), ip_made = 1\<rparr>"

definition ip_used :: "ic_pool \<Rightarrow> nat list" where
  "ip_used p = (case ip_inUse p of None \<Rightarrow> [] | Some us \<Rightarrow> us)"

text \<open>One look at the pool: an interceptor that was made before and is reset, a new one, or none. A \<open>nil\<close> map cannot
  be written.\<close>

datatype acquired = Reused nat | Made nat | NoneYet

definition ip_put :: "nat \<Rightarrow> ic_pool \<Rightarrow> ic_pool outcome" where
  "ip_put i p = (case ip_inUse p of None \<Rightarrow> Panic | Some us \<Rightarrow> Returns (p\<lparr>ip_inUse := Some (List.insert i us)\<rparr>))"

definition ip_take :: "ic_pool \<Rightarrow> (acquired \<times> ic_pool) outcome" where
  "ip_take p =
     (if ip_available p = [] then Returns (NoneYet, p)
      else let i = last (ip_available p)
           in outcome_bind (ip_put i (p\<lparr>ip_available := butlast (ip_available p)\<rparr>)) (\<lambda>p'. Returns (Reused i, p')))"

definition Acquire_first :: "ic_pool \<Rightarrow> (acquired \<times> ic_pool) outcome" where
  "Acquire_first p =
     (if ip_available p \<noteq> [] then ip_take p
      else if int (length (ip_used p)) < ip_maxSize p
           then let i = ip_made p
                in outcome_bind (ip_put i (p\<lparr>ip_made := Suc i\<rparr>)) (\<lambda>p'. Returns (Made i, p'))
           else Returns (NoneYet, p))"

text \<open>\<open>True\<close> when the interceptor is closed instead of kept.\<close>

definition ip_Release :: "nat \<Rightarrow> ic_pool \<Rightarrow> bool \<times> ic_pool" where
  "ip_Release i p =
     (if i \<notin> set (ip_used p) then (True, p)
      else let p1 = p\<lparr>ip_inUse := Some (removeAll i (ip_used p))\<rparr>
           in if int (length (ip_available p1)) < ip_maxSize p1
              then (False, p1\<lparr>ip_available := ip_available p1 @ [i]\<rparr>)
              else (True, p1))"

definition ip_Close :: "ic_pool \<Rightarrow> ic_pool" where
  "ip_Close p = p\<lparr>ip_available := [], ip_inUse := None\<rparr>"

definition ip_Stats :: "ic_pool \<Rightarrow> nat \<times> nat" where
  "ip_Stats p = (length (ip_available p), length (ip_used p))"

datatype pool_op = Acquiring | Waiting | Releasing nat | Closing

fun pool_step :: "ic_pool \<Rightarrow> pool_op \<Rightarrow> (acquired \<times> ic_pool) outcome" where
  "pool_step p Acquiring = Acquire_first p"
| "pool_step p Waiting = ip_take p"
| "pool_step p (Releasing i) = Returns (NoneYet, snd (ip_Release i p))"
| "pool_step p Closing = Returns (NoneYet, ip_Close p)"

fun pool_run :: "ic_pool \<Rightarrow> pool_op list \<Rightarrow> (acquired list \<times> ic_pool) outcome" where
  "pool_run p [] = Returns ([], p)"
| "pool_run p (a # ops) =
     outcome_bind (pool_step p a) (\<lambda>(r, p1). outcome_bind (pool_run p1 ops) (\<lambda>(rs, p2). Returns (r # rs, p2)))"

section \<open>Pool, lemmas\<close>

definition ip_wf :: "ic_pool \<Rightarrow> bool" where
  "ip_wf p \<longleftrightarrow> distinct (ip_available p @ ip_used p) \<and> (\<forall>i\<in>set (ip_available p @ ip_used p). i < ip_made p) \<and>
     int (length (ip_available p @ ip_used p)) \<le> ip_maxSize p \<and> (ip_inUse p = None \<longrightarrow> ip_available p = [])"

lemma ip_wf_New: "ip_wf (NewInterceptorPool n)"
  by (simp add: ip_wf_def NewInterceptorPool_def ip_used_def)

lemma ip_take_wf:
  assumes "ip_wf p" "ip_take p = Returns (r, p')"
  shows "ip_wf p' \<and> ip_maxSize p' = ip_maxSize p \<and> (\<forall>i. r = Reused i \<longrightarrow> i \<notin> set (ip_used p) \<and> ip_used p' = i # ip_used p) \<and>
    (\<forall>i. r \<noteq> Made i) \<and> (r = NoneYet \<longrightarrow> p' = p \<and> ip_available p = []) \<and> (ip_inUse p' = None \<longleftrightarrow> ip_inUse p = None)"
proof (cases "ip_available p = []")
  case True
  then show ?thesis using assms by (simp add: ip_take_def)
next
  case False
  then obtain as i where a: "ip_available p = as @ [i]" by (metis append_butlast_last_id)
  obtain us where u: "ip_inUse p = Some us" using assms False by (cases "ip_inUse p") (auto simp: ip_wf_def)
  have n: "i \<notin> set us" using assms(1) a u by (simp add: ip_wf_def ip_used_def)
  then have "r = Reused i" "p' = p\<lparr>ip_available := as, ip_inUse := Some (i # us)\<rparr>"
    using assms(2) a u by (auto simp: ip_take_def ip_put_def Let_def)
  then show ?thesis using assms(1) a u n by (auto simp: ip_wf_def ip_used_def)
qed

lemma Acquire_wf:
  assumes "ip_wf p" "Acquire_first p = Returns (r, p')"
  shows "ip_wf p' \<and> ip_maxSize p' = ip_maxSize p \<and>
    (\<forall>i. r = Reused i \<or> r = Made i \<longrightarrow> i \<notin> set (ip_used p) \<and> ip_used p' = i # ip_used p) \<and>
    (r = NoneYet \<longrightarrow> p' = p \<and> int (length (ip_used p)) = ip_maxSize p) \<and> (ip_inUse p' = None \<longleftrightarrow> ip_inUse p = None)"
proof (cases "ip_available p = []")
  case False
  then have "ip_take p = Returns (r, p')" using assms(2) by (simp add: Acquire_first_def)
  from ip_take_wf [OF assms(1) this] show ?thesis using False by auto
next
  case True
  show ?thesis
  proof (cases "int (length (ip_used p)) < ip_maxSize p")
    case less: True
    obtain us where u: "ip_inUse p = Some us" using assms(2) True less
      by (cases "ip_inUse p") (auto simp: Acquire_first_def ip_put_def)
    have "ip_made p \<notin> set us" using assms(1) True u by (force simp: ip_wf_def ip_used_def)
    then have "r = Made (ip_made p)" "p' = p\<lparr>ip_made := Suc (ip_made p), ip_inUse := Some (ip_made p # us)\<rparr>" "ip_made p \<notin> set us"
      using assms(2) True less u by (auto simp: Acquire_first_def ip_put_def Let_def)
    then show ?thesis using assms(1) True less u by (auto simp: ip_wf_def ip_used_def)
  next
    case False
    then show ?thesis using assms True by (auto simp: Acquire_first_def ip_wf_def)
  qed
qed

text \<open>A released interceptor is always kept: the branch for a full pool is never taken.\<close>

lemma Release_wf:
  assumes "ip_wf p"
  shows "ip_wf (snd (ip_Release i p)) \<and> ip_maxSize (snd (ip_Release i p)) = ip_maxSize p \<and>
    (fst (ip_Release i p) \<longleftrightarrow> i \<notin> set (ip_used p)) \<and> ip_used (snd (ip_Release i p)) = removeAll i (ip_used p) \<and>
    (ip_inUse (snd (ip_Release i p)) = None \<longleftrightarrow> ip_inUse p = None)"
proof (cases "i \<in> set (ip_used p)")
  case False
  then show ?thesis using assms by (simp add: ip_Release_def)
next
  case True
  then obtain us where u: "ip_inUse p = Some us" "i \<in> set us" by (cases "ip_inUse p") (auto simp: ip_used_def)
  have d: "distinct us" "i \<notin> set (ip_available p)" using assms u by (auto simp: ip_wf_def ip_used_def)
  then have "length (removeAll i us) + 1 = length us"
    using u(2) by (simp add: distinct_remove1_removeAll [symmetric] length_remove1) (metis One_nat_def Suc_pred length_pos_if_in_set)
  then show ?thesis using assms u d by (auto simp: ip_Release_def ip_wf_def ip_used_def Let_def distinct_removeAll)
qed

lemma pool_step_wf:
  assumes "ip_wf p" "a \<noteq> Closing" "ip_inUse p \<noteq> None"
  shows "\<exists>r p'. pool_step p a = Returns (r, p') \<and> ip_wf p' \<and> ip_maxSize p' = ip_maxSize p \<and> ip_inUse p' \<noteq> None"
proof -
  have put: "\<exists>q. ip_put i p0 = Returns q" if "ip_inUse p0 \<noteq> None" for i p0 using that by (auto simp: ip_put_def)
  have t: "\<exists>r p'. ip_take p = Returns (r, p')"
    using put [of "p\<lparr>ip_available := butlast (ip_available p)\<rparr>"] assms(3) by (auto simp: ip_take_def Let_def) (metis outcome_bind.simps(2))
  have f: "\<exists>r p'. Acquire_first p = Returns (r, p')"
    using t put [of "p\<lparr>ip_made := Suc (ip_made p)\<rparr>"] assms(3) by (auto simp: Acquire_first_def Let_def) (metis outcome_bind.simps(2))
  show ?thesis
  proof (cases a)
    case Acquiring
    then show ?thesis using f Acquire_wf [OF assms(1)] assms(3) by fastforce
  next
    case Waiting
    then show ?thesis using t ip_take_wf [OF assms(1)] assms(3) by fastforce
  next
    case (Releasing i)
    then show ?thesis using Release_wf [OF assms(1), of i] assms(3) by simp
  qed (use assms in simp)
qed

lemma pool_run_wf:
  "ip_wf p \<Longrightarrow> ip_inUse p \<noteq> None \<Longrightarrow> Closing \<notin> set ops \<Longrightarrow>
     \<exists>rs p'. pool_run p ops = Returns (rs, p') \<and> ip_wf p' \<and> ip_maxSize p' = ip_maxSize p \<and> ip_inUse p' \<noteq> None"
proof (induction ops arbitrary: p)
  case (Cons a ops)
  obtain r p1 where s: "pool_step p a = Returns (r, p1)" "ip_wf p1" "ip_maxSize p1 = ip_maxSize p" "ip_inUse p1 \<noteq> None"
    using pool_step_wf [OF Cons.prems(1) _ Cons.prems(2), of a] Cons.prems(3) by auto
  then obtain rs p2 where "pool_run p1 ops = Returns (rs, p2)" "ip_wf p2" "ip_maxSize p2 = ip_maxSize p" "ip_inUse p2 \<noteq> None"
    using Cons.IH [OF s(2,4)] Cons.prems(3) by auto
  then show ?case using s(1) by simp
qed simp

text \<open>C33: Until the pool is closed no call panics, and in every state that calls can reach an interceptor that is
  handed out is not in use by anybody else, no more than the configured number is out, and a caller has to wait only
  when that many are out.\<close>

theorem interceptors_are_exclusive:
  assumes "Closing \<notin> set ops"
  shows "\<exists>rs p. pool_run (NewInterceptorPool n) ops = Returns (rs, p) \<and>
    distinct (ip_available p @ ip_used p) \<and> int (length (ip_used p)) \<le> (if n < 1 then 4 else n) \<and>
    (\<exists>r p'. Acquire_first p = Returns (r, p') \<and>
      (case r of NoneYet \<Rightarrow> int (length (ip_used p)) = (if n < 1 then 4 else n)
       | Reused i \<Rightarrow> i \<notin> set (ip_used p) \<and> ip_used p' = i # ip_used p
       | Made i \<Rightarrow> i \<notin> set (ip_used p) \<and> ip_used p' = i # ip_used p))"
proof -
  have "ip_inUse (NewInterceptorPool n) \<noteq> None" by (simp add: NewInterceptorPool_def)
  then obtain rs p where r: "pool_run (NewInterceptorPool n) ops = Returns (rs, p)" "ip_wf p"
    "ip_maxSize p = ip_maxSize (NewInterceptorPool n)" "ip_inUse p \<noteq> None"
    using pool_run_wf [OF ip_wf_New _ assms] by blast
  then have m: "ip_maxSize p = (if n < 1 then 4 else n)" by (simp add: NewInterceptorPool_def)
  obtain r p' where a: "Acquire_first p = Returns (r, p')" using pool_step_wf [OF r(2) _ r(4), of Acquiring] by auto
  have w: "distinct (ip_available p @ ip_used p) \<and> int (length (ip_used p)) \<le> (if n < 1 then 4 else n)"
    using r(2) m by (simp add: ip_wf_def)
  have "case r of NoneYet \<Rightarrow> int (length (ip_used p)) = (if n < 1 then 4 else n)
       | Reused i \<Rightarrow> i \<notin> set (ip_used p) \<and> ip_used p' = i # ip_used p
       | Made i \<Rightarrow> i \<notin> set (ip_used p) \<and> ip_used p' = i # ip_used p"
    using Acquire_wf [OF r(2) a] m by (cases r) auto
  then show ?thesis using r(1) w a by blast
qed

theorem interceptors_are_exclusive_witness:
  "\<exists>rs p. pool_run (NewInterceptorPool 1) [Acquiring, Acquiring, Releasing 0, Waiting] = Returns (rs, p) \<and> distinct (ip_available p @ ip_used p)"
  using interceptors_are_exclusive [of "[Acquiring, Acquiring, Releasing 0, Waiting]" 1] by auto

text \<open>Whoever asks a closed pool panics, and does so with the mutex held.\<close>

lemma closed_pool_panics:
  assumes "ip_inUse p = None" "ip_available p = []" "0 < ip_maxSize p"
  shows "Acquire_first p = Panic"
  using assms by (simp add: Acquire_first_def ip_used_def ip_put_def Let_def)

lemma Acquire_after_Close: "0 < ip_maxSize p \<Longrightarrow> Acquire_first (ip_Close p) = Panic"
  by (rule closed_pool_panics) (simp_all add: ip_Close_def)

section \<open>Events\<close>

datatype net_event =
    Requested string string string headers
  | Responded string string string int headers
  | Finished string
  | Fetched nat "body_try list" "string option"

fun net_step :: "interceptor \<Rightarrow> net_event \<Rightarrow> interceptor" where
  "net_step i (Requested rid m u h) = onRequest rid m u h i"
| "net_step i (Responded rid u mime st h) = onResponse rid u mime st h i"
| "net_step i (Finished rid) = onLoadingFinished rid i"
| "net_step i (Fetched n tries post) = fst (finish_fetch n tries post i)"

text \<open>The URL of a fetch that ends without a body.\<close>

fun failed_fetch :: "interceptor \<Rightarrow> net_event \<Rightarrow> string list" where
  "failed_fetch i (Fetched n tries post) =
     (if n < length (ic_fetching i) \<and> fetchWithRetry tries = None then [pe_url (ic_fetching i ! n)] else [])"
| "failed_fetch i _ = []"

fun net_run :: "interceptor \<Rightarrow> net_event list \<Rightarrow> interceptor \<times> string list" where
  "net_run i [] = (i, [])"
| "net_run i (e # es) = (case net_run (net_step i e) es of (i', fs) \<Rightarrow> (i', failed_fetch i e @ fs))"

fun response_ids :: "net_event list \<Rightarrow> string list" where
  "response_ids [] = []"
| "response_ids (Responded rid u mime st h # es) = rid # response_ids es"
| "response_ids (_ # es) = response_ids es"

fun response_urls :: "net_event list \<Rightarrow> string set" where
  "response_urls [] = {}"
| "response_urls (Responded rid u mime st h # es) = (if u = [] then {} else {u}) \<union> response_urls es"
| "response_urls (_ # es) = response_urls es"

text \<open>What is known of an interceptor that has captured the URLs \<open>us\<close> with the requests \<open>ids\<close>, where the fetches of
  \<open>fs\<close> failed.\<close>

definition net_inv :: "string list \<Rightarrow> string set \<Rightarrow> string set \<Rightarrow> interceptor \<Rightarrow> bool" where
  "net_inv us ids fs i \<longleftrightarrow>
     ic_seen i = foldl lruAdd (NewLRUSet maxSeenURLs) us \<and> distinct us \<and>
     (\<forall>rid p. ic_pending i rid = Some p \<longrightarrow> rid \<in> ids \<and> pe_requestID p = rid) \<and>
     set us = Mapping.keys (ic_resources i) \<union> pe_url ` ran (ic_pending i) \<union> pe_url ` set (ic_fetching i) \<union> fs"

lemma lruKeys_Contains: "lruKeys s = {k. lruContains s k}"
  by (auto simp: lruKeys_def lruContains_def keys_dom_lookup)

lemma net_inv_length: "net_inv us ids fs i \<Longrightarrow> length us = card (set us)"
  by (metis distinct_card net_inv_def)

lemma net_inv_seen:
  assumes "net_inv us ids fs i" "length us \<le> maxResources"
  shows "lruContains (ic_seen i) u \<longleftrightarrow> u \<in> set us"
proof -
  have r: "remdups us = us" using assms(1) by (simp add: net_inv_def distinct_remdups_id)
  have t: "take (nat maxSeenURLs) (rev us) = rev us" using assms(2) by (simp add: maxSeenURLs_def maxResources_def)
  have "set (take (nat maxSeenURLs) (rev (remdups us))) = set us" unfolding r t by simp
  then show ?thesis
    using set_repr_Contains [OF conjunct1 [OF set_repr_adds [of maxSeenURLs us]], of u] assms(1)
    by (simp add: net_inv_def maxSeenURLs_def)
qed

lemma store_keys:
  assumes "Mapping.keys (ic_resources i) \<subseteq> set us" "pe_url p \<in> set us" "length us \<le> maxResources"
  shows "Mapping.keys (ic_resources (fst (store_fetched p b post i))) = insert (pe_url p) (Mapping.keys (ic_resources i))"
proof (cases "pe_url p \<in> Mapping.keys (ic_resources i)")
  case True
  then show ?thesis by (auto simp: store_fetched_def Let_def)
next
  case False
  have "card (Mapping.keys (ic_resources i)) < card (set us)"
    using assms False by (intro psubset_card_mono) auto
  then have "Mapping.size (ic_resources i) < maxResources"
    using assms(3) card_length [of us] by (simp add: Mapping.size_def)
  then show ?thesis by (auto simp: store_fetched_def Let_def)
qed

lemma store_rest [simp]:
  "ic_seen (fst (store_fetched p b post i)) = ic_seen i" "ic_pending (fst (store_fetched p b post i)) = ic_pending i"
  "ic_fetching (fst (store_fetched p b post i)) = ic_fetching i"
  by (simp_all add: store_fetched_def Let_def)

lemma ran_upd_none: "m k = Some v \<Longrightarrow> ran m = insert v (ran (m(k := None)))"
  by (auto simp: ran_def) (metis option.inject)

lemma net_inv_step:
  assumes "net_inv us ids fs i" "length us \<le> maxResources" "set (response_ids [e]) \<inter> ids = {}"
  shows "\<exists>us'. net_inv us' (ids \<union> set (response_ids [e])) (fs \<union> set (failed_fetch i e)) (net_step i e) \<and>
    set us' = set us \<union> response_urls [e]"
proof (cases e)
  case (Requested rid m u h)
  then show ?thesis using assms(1) by (intro exI [of _ us]) (simp add: net_inv_def onRequest_def Let_def)
next
  case (Responded rid u mime st h)
  note c = net_inv_seen [OF assms(1) assms(2), of u]
  show ?thesis
  proof (cases "u = [] \<or> u \<in> set us")
    case True
    then show ?thesis using assms(1) c Responded by (intro exI [of _ us]) (auto simp: net_inv_def onResponse_def)
  next
    case False
    have n: "ic_pending i rid = None" using assms(1,3) Responded by (cases "ic_pending i rid") (auto simp: net_inv_def)
    have "net_inv (us @ [u]) (ids \<union> {rid}) fs (onResponse rid u mime st h i)"
      using assms(1) False c n by (auto simp: net_inv_def onResponse_def)
    then show ?thesis using False Responded by (intro exI [of _ "us @ [u]"]) simp
  qed
next
  case (Finished rid)
  show ?thesis
  proof (cases "ic_pending i rid")
    case None
    then show ?thesis using assms(1) Finished by (intro exI [of _ us]) (simp add: onLoadingFinished_def)
  next
    case (Some p)
    then show ?thesis using assms(1) Finished ran_upd_none [of "ic_pending i" rid p, OF Some]
      by (intro exI [of _ us]) (auto simp: net_inv_def onLoadingFinished_def)
  qed
next
  case (Fetched n tries post)
  show ?thesis
  proof (cases "n < length (ic_fetching i)")
    case False
    then show ?thesis using assms(1) Fetched by (intro exI [of _ us]) (simp add: finish_fetch_def)
  next
    case True
    let ?p = "ic_fetching i ! n" and ?fs = "take n (ic_fetching i) @ drop (Suc n) (ic_fetching i)"
    let ?i = "i\<lparr>ic_fetching := ?fs\<rparr>"
    have f: "set (ic_fetching i) = insert ?p (set ?fs)" by (subst id_take_nth_drop [OF True]) auto
    have k: "Mapping.keys (ic_resources ?i) \<subseteq> set us" "pe_url ?p \<in> set us" using assms(1) f by (auto simp: net_inv_def)
    show ?thesis
    proof (cases "fetchWithRetry tries")
      case None
      then show ?thesis using assms(1) Fetched True f
        by (intro exI [of _ us]) (auto simp: net_inv_def finish_fetch_def fetchAndProcess_def)
    next
      case (Some b)
      note s = store_keys [OF k assms(2), of b]
      show ?thesis using assms(1) Fetched True f Some s
        by (intro exI [of _ us]) (auto simp: net_inv_def finish_fetch_def fetchAndProcess_def Let_def)
    qed
  qed
qed

lemma response_Cons:
  "response_ids (e # es) = response_ids [e] @ response_ids es" "response_urls (e # es) = response_urls [e] \<union> response_urls es"
  by (cases e; simp)+

lemma finite_response_urls [simp]: "finite (response_urls es)"
  by (induction es rule: response_urls.induct) auto

lemma net_run_inv:
  "net_inv us ids fs i \<Longrightarrow> card (set us \<union> response_urls es) \<le> maxResources \<Longrightarrow> distinct (response_ids es) \<Longrightarrow>
     set (response_ids es) \<inter> ids = {} \<Longrightarrow> net_run i es = (i', fs') \<Longrightarrow>
     \<exists>us'. net_inv us' (ids \<union> set (response_ids es)) (fs \<union> set fs') i' \<and> set us' = set us \<union> response_urls es"
proof (induction es arbitrary: i us ids fs fs')
  case Nil
  then show ?case by auto
next
  case (Cons e es)
  obtain fs1 where r: "net_run (net_step i e) es = (i', fs1)" "fs' = failed_fetch i e @ fs1"
    using Cons.prems(5) by (auto split: prod.splits)
  have "card (set us) \<le> card (set us \<union> response_urls (e # es))" by (rule card_mono) auto
  then have l: "length us \<le> maxResources"
    using net_inv_length [OF Cons.prems(1)] Cons.prems(2) by simp
  have d: "set (response_ids [e]) \<inter> ids = {}" "distinct (response_ids es)"
    "set (response_ids es) \<inter> (ids \<union> set (response_ids [e])) = {}"
    using Cons.prems(3,4) unfolding response_Cons(1) [of e es] by auto
  obtain us1 where u: "net_inv us1 (ids \<union> set (response_ids [e])) (fs \<union> set (failed_fetch i e)) (net_step i e)"
    "set us1 = set us \<union> response_urls [e]"
    using net_inv_step [OF Cons.prems(1) l d(1)] by blast
  have "card (set us1 \<union> response_urls es) \<le> maxResources"
    using Cons.prems(2) unfolding u(2) response_Cons(2) [of e es] by (simp only: Un_assoc)
  from Cons.IH [OF u(1) this d(2,3) r(1)] obtain us' where
    v: "net_inv us' (ids \<union> set (response_ids [e]) \<union> set (response_ids es)) (fs \<union> set (failed_fetch i e) \<union> set fs1) i'"
    "set us' = set us1 \<union> response_urls es" by blast
  have "ids \<union> set (response_ids [e]) \<union> set (response_ids es) = ids \<union> set (response_ids (e # es))"
    "fs \<union> set (failed_fetch i e) \<union> set fs1 = fs \<union> set fs'" "set us' = set us \<union> response_urls (e # es)"
    using v(2) u(2) r(2) unfolding response_Cons [of e es] by auto
  then show ?case using v(1) by (intro exI [of _ us']) simp
qed

lemma net_inv_New: "net_inv [] {} {} (NewInterceptorWithWorkers w)"
  by (simp add: net_inv_def NewInterceptorWithWorkers_def)

definition fetch_pending :: "(string \<Rightarrow> body_try list) \<Rightarrow> pending_resource \<Rightarrow> interceptor \<Rightarrow> interceptor" where
  "fetch_pending tries p i =
     (case fetchWithRetry (tries (pe_requestID p)) of None \<Rightarrow> i | Some body \<Rightarrow> fst (store_fetched p body None i))"

lemma FetchBodies_fold:
  "ic_fetching i = [] \<Longrightarrow> FetchBodies tries order i =
     Some (fold (fetch_pending tries) (List.map_filter (ic_pending i) order) (i\<lparr>ic_pending := Map.empty\<rparr>))"
  by (simp add: FetchBodies_def fetch_pending_def [abs_def])

lemma fetch_all:
  "Mapping.keys (ic_resources i) \<subseteq> set us \<Longrightarrow> pe_url ` set ps \<subseteq> set us \<Longrightarrow> length us \<le> maxResources \<Longrightarrow>
     ic_seen (fold (fetch_pending tries) ps i) = ic_seen i \<and>
     Mapping.keys (ic_resources (fold (fetch_pending tries) ps i)) =
       Mapping.keys (ic_resources i) \<union> {pe_url p |p. p \<in> set ps \<and> fetchWithRetry (tries (pe_requestID p)) \<noteq> None}"
proof (induction ps arbitrary: i)
  case (Cons p ps)
  let ?i = "fetch_pending tries p i"
  have k: "Mapping.keys (ic_resources ?i) = Mapping.keys (ic_resources i) \<union>
      (if fetchWithRetry (tries (pe_requestID p)) = None then {} else {pe_url p})" "ic_seen ?i = ic_seen i"
    using store_keys [OF Cons.prems(1) _ Cons.prems(3), of p] Cons.prems(2)
    by (auto simp: fetch_pending_def split: option.splits)
  then have "Mapping.keys (ic_resources ?i) \<subseteq> set us" using Cons.prems by auto
  from Cons.IH [OF this] k Cons.prems show ?case by (auto split: if_splits)
qed simp

text \<open>C32: Take any sequence of browser events and finished fetches in which the responses have distinct request
  identifiers and at most 50000 URLs, whatever else happens in it: unknown identifiers, URLs that come back, fetches
  in any order. Then exactly the URLs of the responses are seen, and once the remaining bodies are fetched, a URL has
  no resource only if its own fetch failed.\<close>

theorem every_response_gets_its_body:
  assumes "distinct (response_ids es)" "card (response_urls es) \<le> maxResources"
    "net_run (NewInterceptorWithWorkers w) es = (i, fs)" "ic_fetching i = []" "set order = dom (ic_pending i)"
  shows "\<exists>i'. FetchBodies tries order i = Some i' \<and> GetAllSeenURLs i' = response_urls es \<and>
    (\<forall>u\<in>GetMissingResources i'. u \<in> set fs \<or>
       (\<exists>rid p. ic_pending i rid = Some p \<and> pe_url p = u \<and> fetchWithRetry (tries rid) = None))"
proof -
  obtain us where u: "net_inv us (set (response_ids es)) (set fs) i" "set us = response_urls es"
    using net_run_inv [OF net_inv_New _ assms(1) _ assms(3)] assms(2) by auto
  have l: "length us \<le> maxResources" using assms(2) u(2) net_inv_length [OF u(1)] by simp
  define ps where "ps = List.map_filter (ic_pending i) order"
  have ps: "set ps = ran (ic_pending i)"
    using assms(5) unfolding ps_def List.map_filter_def by (force simp: ran_def)
  let ?i = "i\<lparr>ic_pending := Map.empty\<rparr>" and ?i' = "fold (fetch_pending tries) ps (i\<lparr>ic_pending := Map.empty\<rparr>)"
  have a: "Mapping.keys (ic_resources ?i) \<subseteq> set us" "pe_url ` set ps \<subseteq> set us" using u(1) ps by (auto simp: net_inv_def)
  note f = fetch_all [OF a l, of tries]
  have f: "ic_seen ?i' = ic_seen i" "Mapping.keys (ic_resources ?i') =
       Mapping.keys (ic_resources i) \<union> {pe_url p |p. p \<in> set ps \<and> fetchWithRetry (tries (pe_requestID p)) \<noteq> None}"
    using f by simp_all
  have s: "GetAllSeenURLs ?i' = response_urls es"
    using net_inv_seen [OF u(1) l] u(2) f(1) by (simp add: GetAllSeenURLs_def lruKeys_Contains)
  have m: "x \<in> set fs \<or> (\<exists>rid p. ic_pending i rid = Some p \<and> pe_url p = x \<and> fetchWithRetry (tries rid) = None)"
    if "x \<in> GetMissingResources ?i'" for x
  proof -
    have x: "x \<in> set us" "x \<notin> Mapping.keys (ic_resources ?i')"
      using that s u(2) by (auto simp: GetMissingResources_def GetAllSeenURLs_def keys_dom_lookup)
    then have "x \<in> set fs \<or> x \<in> pe_url ` ran (ic_pending i)"
      using u(1) assms(4) f(2) by (auto simp: net_inv_def)
    then show ?thesis
    proof
      assume "x \<in> pe_url ` ran (ic_pending i)"
      then obtain rid p where p: "ic_pending i rid = Some p" "x = pe_url p" by (auto simp: ran_def)
      have "pe_requestID p = rid" using u(1) p(1) by (auto simp: net_inv_def)
      moreover have "p \<in> set ps" using p(1) ps by (auto simp: ran_def)
      ultimately have "fetchWithRetry (tries rid) = None"
        using x(2) p(2) unfolding f(2) by (cases "fetchWithRetry (tries rid)") auto
      then show ?thesis using p by blast
    qed simp
  qed
  have "FetchBodies tries order i = Some ?i'" using FetchBodies_fold [OF assms(4)] by (simp add: ps_def)
  then show ?thesis using s m by blast
qed

theorem every_response_gets_its_body_witness:
  "let es = [Requested ''1'' ''GET'' ''u'' Map.empty, Responded ''1'' ''u'' ''text/css'' 200 Map.empty, Finished ''9'',
       Responded ''2'' ''u'' ''text/css'' 200 Map.empty]; i = fst (net_run NewInterceptor es)
   in \<exists>i'. FetchBodies (\<lambda>_. [TryError, TryBody ''b'']) [''1''] i = Some i' \<and> GetAllSeenURLs i' = {''u''} \<and> GetMissingResources i' = {}"
proof -
  let ?es = "[Requested ''1'' ''GET'' ''u'' Map.empty, Responded ''1'' ''u'' ''text/css'' 200 Map.empty, Finished ''9'',
       Responded ''2'' ''u'' ''text/css'' 200 Map.empty]"
  let ?new = "onRequest ''1'' ''GET'' ''u'' Map.empty NewInterceptor"
  let ?i = "onResponse ''1'' ''u'' ''text/css'' 200 Map.empty ?new"
  have n: "\<not> lruContains (ic_seen ?new) ''u''" "lruContains (ic_seen ?i) ''u''"
  proof -
    have s0: "ic_seen ?new = NewLRUSet maxSeenURLs" by (simp add: onRequest_def NewInterceptor_def NewInterceptorWithWorkers_def)
    show n0: "\<not> lruContains (ic_seen ?new) ''u''" unfolding s0 using set_repr_Contains [OF set_repr_New] by simp
    have s1: "ic_seen ?i = lruAdd (NewLRUSet maxSeenURLs) ''u''" unfolding onResponse_def if_not_P [OF n0] using s0 by simp
    show "lruContains (ic_seen ?i) ''u''" unfolding s1
      using set_repr_Contains [OF conjunct1 [OF set_repr_adds [of maxSeenURLs "[''u'']"]], of "''u''"] by (simp add: maxSeenURLs_def)
  qed
  have e: "ic_pending ?new = Map.empty" "ic_fetching ?new = []"
    by (simp_all add: onRequest_def NewInterceptor_def NewInterceptorWithWorkers_def)
  have p: "dom (ic_pending ?i) = {''1''}" "ic_fetching ?i = []" "ic_pending ?i ''9'' = None" using n e by (simp_all add: onResponse_def)
  have "onResponse ''2'' ''u'' ''text/css'' 200 Map.empty ?i = ?i" using n by (simp add: onResponse_def [of "''2''"])
  then have r: "net_run NewInterceptor ?es = (?i, [])" using p by (simp add: onLoadingFinished_def)
  have f: "fetchWithRetry [TryError, TryBody ''b''] = Some ''b''" by (simp add: fetchWithRetry_def maxRetries_def)
  have c: "distinct (response_ids ?es)" "card (response_urls ?es) \<le> maxResources" "set [''1''] = dom (ic_pending ?i)"
    using p by (simp_all add: maxResources_def)
  show ?thesis
    using every_response_gets_its_body [OF c(1,2) r [unfolded NewInterceptor_def] p(2) [unfolded NewInterceptor_def] c(3) [unfolded NewInterceptor_def], of "\<lambda>_. [TryError, TryBody ''b'']"]
    unfolding Let_def r [unfolded NewInterceptor_def] NewInterceptor_def by (auto simp: f)
qed

section \<open>Limits and leftovers\<close>

definition net_bounded :: "interceptor \<Rightarrow> bool" where
  "net_bounded i \<longleftrightarrow> card (Mapping.keys (ic_resources i)) \<le> maxResources \<and> finite (Mapping.keys (ic_resources i)) \<and>
     length (ic_apiResponses i) \<le> maxAPIResponses \<and>
     (\<forall>u r. Mapping.lookup (ic_resources i) u = Some r \<longrightarrow> cr_URL r = u \<and> length (cr_Body r) \<le> MaxResponseBodySize)"

lemma clip_body_length: "length (clip_body b) \<le> MaxResponseBodySize"
  by (simp add: clip_body_def)

lemma store_bounded: "net_bounded i \<Longrightarrow> net_bounded (fst (store_fetched p b post i))"
  using clip_body_length [of b]
  by (auto simp: net_bounded_def store_fetched_def Let_def Mapping.size_def lookup_update' card_insert_if split: if_splits)

lemma net_step_bounded: "net_bounded i \<Longrightarrow> net_bounded (net_step i e)"
proof (cases e)
  case (Fetched n tries post)
  assume b: "net_bounded i"
  then have "net_bounded (i\<lparr>ic_fetching := take n (ic_fetching i) @ drop (Suc n) (ic_fetching i)\<rparr>)" by (simp add: net_bounded_def)
  then show ?thesis using b Fetched
    by (auto simp: finish_fetch_def fetchAndProcess_def Let_def split: option.splits intro!: store_bounded)
qed (simp_all add: net_bounded_def onRequest_def onResponse_def onLoadingFinished_def Let_def split: option.splits)

text \<open>A URL that answers again leaves the entries of its request behind: \<open>onResponse\<close> returns before it deletes
  them. A second call of an endpoint, with another method or body, is not captured.\<close>

lemma repeated_response_is_dropped:
  "lruContains (ic_seen i) u \<Longrightarrow> onResponse rid u mime st h i = i"
  by (simp add: onResponse_def)

lemma repeated_response_leaks_request:
  "lruContains (ic_seen i) u \<Longrightarrow> ic_pendingMethods (onResponse rid u mime st h (onRequest rid m u h' i)) rid = Some m"
  by (simp add: onResponse_def onRequest_def Let_def)

text \<open>A fetch that is running when the interceptor is reset stores the body of the old page in the new one.\<close>

lemma stale_body_enters_next_page:
  assumes "ic_fetching i = [p]"
  shows "HasURL (fst (finish_fetch 0 [TryBody b] post (ic_Reset i))) (pe_url p)"
  using assms by (simp add: finish_fetch_def fetchAndProcess_def fetchWithRetry_def maxRetries_def Let_def ic_Reset_def
      HasURL_def store_fetched_def maxResources_def lookup_update)

text \<open>The type of a resource has no influence on its path.\<close>

lemma AssetPath_ignores_type: "AssetPath u m = AssetPath u m'"
  unfolding AssetPath_def Let_def ..

end
