(* ===== verification/Repair.thy ===== *)
theory Repair
  imports LocalLinks "HOL-Library.Multiset"
begin

text \<open>
  The repair of a finished crawl, \<open>internal/repair\<close>: repair.go, scan.go, extract.go, download.go, rewrite.go, with
  \<open>ResolveURL\<close> of \<open>internal/rewrite/extract.go\<close>. The tokens of the HTML tokenizer, the answers of the HTTP client, what
  the operating system does with a write and the order of map iterations and of finishing goroutines are arguments;
  the disk is a map of files. \<open>extractCSSURLs\<close> is in theory \<open>CssRefs\<close>, where a reference that is not closed panics.
\<close>

section \<open>extract.go\<close>

datatype html_token =
    StartTag string "(string \<times> string) list"
  | SelfClosingTag string "(string \<times> string) list"
  | EndTag string
  | TextToken string
  | OtherToken

definition ResolveURL :: "string \<Rightarrow> string \<Rightarrow> string" where
  "ResolveURL base href =
     (if href = [] then []
      else if has_http href then href
      else case url_parse base of None \<Rightarrow> [] | Some b \<Rightarrow>
        (case url_parse href of None \<Rightarrow> [] | Some r \<Rightarrow> url_String (resolve_reference b r)))"

definition resolveAbsolute :: "string \<Rightarrow> string \<Rightarrow> string" where
  "resolveAbsolute pageURL cssURL =
     (if cssURL = [] \<or> has_prefix cssURL ''data:'' then []
      else let u = ResolveURL pageURL cssURL in if has_http u then u else [])"

definition isHTMLPageURL :: "string \<Rightarrow> bool" where
  "isHTMLPageURL rawURL =
     (if rawURL = [] then True
      else case url_parse rawURL of
             None \<Rightarrow> True
           | Some u \<Rightarrow>
               (let ext = to_lower (filepath_Ext (u_path u))
                in ext \<in> set [''.html'', ''.htm'', ''.php'', ''.asp'', ''.aspx'', ''.jsp'', ''.jspx'', ''.cfm''] \<or> ext = []))"

text \<open>The URLs found so far are a list without repetition.\<close>

definition add_css_url :: "string \<Rightarrow> string list \<Rightarrow> string \<Rightarrow> string list" where
  "add_css_url pageURL urls cssURL =
     (if \<not> has_http cssURL then urls
      else let u = resolveAbsolute pageURL cssURL in if u \<noteq> [] then List.insert u urls else urls)"

definition add_css :: "string \<Rightarrow> string \<Rightarrow> string list \<Rightarrow> string list outcome" where
  "add_css pageURL css urls = outcome_bind (extractCSSURLs css) (\<lambda>us. Returns (foldl (add_css_url pageURL) urls us))"

definition skipped_value :: "string \<Rightarrow> bool" where
  "skipped_value av \<longleftrightarrow> av = [] \<or> list_ex (has_prefix av) [''#'', ''javascript:'', ''mailto:'', ''tel:'', ''data:'']"

definition attr_candidates :: "string \<Rightarrow> string \<Rightarrow> string \<Rightarrow> string list" where
  "attr_candidates pageURL ak av =
     (if ak \<in> set [''src'', ''poster'', ''data''] then [av]
      else if ak = ''srcset'' then map (\<lambda>part. trim_space (hd (split_byte CHR '' '' (trim_space part)))) (split_byte CHR '','' av)
      else if ak \<in> set [''href'', ''action''] then (if isHTMLPageURL (ResolveURL pageURL av) then [] else [av])
      else if has_prefix ak ''data-'' \<and> list_ex (contains ak) [''src'', ''url'', ''bg'', ''image'', ''lazy''] then [av]
      else [])"

definition add_candidate :: "string \<Rightarrow> string list \<Rightarrow> string \<Rightarrow> string list" where
  "add_candidate pageURL urls c =
     (if c = [] \<or> \<not> has_http c then urls
      else let u = ResolveURL pageURL c in if has_http u then List.insert u urls else urls)"

definition add_attr :: "string \<Rightarrow> string \<times> string \<Rightarrow> string list \<Rightarrow> string list outcome" where
  "add_attr pageURL kv urls =
     (case kv of (ak, av) \<Rightarrow>
        if skipped_value av then Returns urls
        else if ak = ''style'' then add_css pageURL av urls
        else Returns (foldl (add_candidate pageURL) urls (attr_candidates pageURL ak av)))"

fun add_attrs :: "string \<Rightarrow> (string \<times> string) list \<Rightarrow> string list \<Rightarrow> string list outcome" where
  "add_attrs pageURL [] urls = Returns urls"
| "add_attrs pageURL (kv # kvs) urls = outcome_bind (add_attr pageURL kv urls) (add_attrs pageURL kvs)"

definition add_meta :: "(string \<times> string) list \<Rightarrow> string list \<Rightarrow> string list" where
  "add_meta attrs urls =
     (let prop = foldl (\<lambda>p (k, v). if k = ''property'' \<or> k = ''name'' then to_lower v else p) [] attrs;
          val = foldl (\<lambda>p (k, v). if k = ''content'' then v else p) [] attrs
      in if (prop = ''og:image'' \<or> prop = ''twitter:image'') \<and> val \<noteq> [] \<and> has_http val then List.insert val urls else urls)"

definition add_tag :: "string \<Rightarrow> string \<Rightarrow> (string \<times> string) list \<Rightarrow> string list \<Rightarrow> string list outcome" where
  "add_tag pageURL name attrs urls = add_attrs pageURL attrs (if to_lower name = ''meta'' then add_meta attrs urls else urls)"

fun token_urls :: "string \<Rightarrow> html_token list \<Rightarrow> bool \<Rightarrow> string list \<Rightarrow> string list outcome" where
  "token_urls pageURL [] inStyle urls = Returns urls"
| "token_urls pageURL (StartTag name attrs # ts) inStyle urls =
     outcome_bind (add_tag pageURL name attrs urls) (token_urls pageURL ts (inStyle \<or> to_lower name = ''style''))"
| "token_urls pageURL (SelfClosingTag name attrs # ts) inStyle urls =
     outcome_bind (add_tag pageURL name attrs urls) (token_urls pageURL ts inStyle)"
| "token_urls pageURL (TextToken text # ts) inStyle urls =
     outcome_bind (if inStyle then add_css pageURL text urls else Returns urls) (token_urls pageURL ts inStyle)"
| "token_urls pageURL (EndTag name # ts) inStyle urls = token_urls pageURL ts (inStyle \<and> to_lower name \<noteq> ''style'') urls"
| "token_urls pageURL (OtherToken # ts) inStyle urls = token_urls pageURL ts inStyle urls"

definition extractAssetURLs :: "(string \<Rightarrow> html_token list) \<Rightarrow> string \<Rightarrow> string \<Rightarrow> string list outcome" where
  "extractAssetURLs tokens pageHTML pageURL = token_urls pageURL (tokens pageHTML) False []"

section \<open>scan.go\<close>

definition isBinaryHTML :: "disk \<Rightarrow> string \<Rightarrow> bool" where
  "isBinaryHTML d path =
     (case d path of
        None \<Rightarrow> True
      | Some data \<Rightarrow>
          (let buf = take 512 data; head = to_lower buf
           in if contains head ''<html'' \<or> has_prefix head ''<!doctype'' then False
              else index_byte buf (CHR 0x00) \<noteq> None))"

text \<open>\<open>files\<close> are the files below the root in the order of \<open>Walk\<close>.\<close>

definition is_page :: "disk \<Rightarrow> string \<Rightarrow> string \<Rightarrow> bool" where
  "is_page d root p =
     (case filepath_Rel root p of
        None \<Rightarrow> False
      | Some rel \<Rightarrow>
          (let segments = split_byte CHR ''/'' rel
           in rel \<noteq> ''.'' \<and> length segments \<ge> 2 \<and> last segments = ''index.html'' \<and> \<not> isBinaryHTML d p))"

definition findPages :: "disk \<Rightarrow> string \<Rightarrow> string list \<Rightarrow> string list" where
  "findPages d root files = filter (is_page d root) files"

definition findStylesheets :: "string list \<Rightarrow> string list" where
  "findStylesheets files = filter (\<lambda>p. to_lower (filepath_Ext p) = ''.css'') files"

definition repair_urlFromLocalPath :: "string \<Rightarrow> string \<Rightarrow> string" where
  "repair_urlFromLocalPath root localPath =
     (case filepath_Rel root localPath of
        None \<Rightarrow> []
      | Some rel \<Rightarrow>
          (let segments = split_byte CHR ''/'' rel;
               rest0 = join ''/'' (tl segments);
               rest = (if rest0 = [] then ''/'' else rest0)
           in url_String (https_url (hd segments) (''/'' @ rest))))"

definition fileExists :: "filesystem \<Rightarrow> disk \<Rightarrow> string \<Rightarrow> bool" where
  "fileExists fs d rawURL \<longleftrightarrow> (let p = PathForURL fs rawURL in p \<noteq> [] \<and> d p \<noteq> None)"

section \<open>rewrite.go\<close>

definition cssEscapeURL :: "string \<Rightarrow> string" where
  "cssEscapeURL s =
     concat (map (\<lambda>c. if c \<in> set [CHR ''('', CHR '')'', CHR '','', CHR 0x27, CHR 0x22, CHR 0x5C] then [CHR 0x5C, c] else [c]) s)"

text \<open>One round of the loop over the URLs.\<close>

definition replace_url :: "string \<Rightarrow> string \<Rightarrow> string \<times> string \<Rightarrow> string" where
  "replace_url htmlDir page up =
     (case up of (u, p) \<Rightarrow>
        let rel = filepath_Clean (relPath htmlDir p);
            page1 = replace_all page u rel
        in if cssEscapeURL u \<noteq> u then replace_all page1 (cssEscapeURL u) (cssEscapeURL rel) else page1)"

text \<open>\<open>mapping\<close> lists the entries in the order the map is iterated; the longest URL comes first.\<close>

definition rewriteRepairedURLs :: "string \<Rightarrow> string \<Rightarrow> (string \<times> string) list \<Rightarrow> string" where
  "rewriteRepairedURLs pageHTML pagePath mapping =
     foldl (replace_url (filepath_Dir pagePath)) pageHTML (sort_key (\<lambda>up. - int (length (fst up))) mapping)"

section \<open>download.go\<close>

text \<open>The client's answer to a \<open>GET\<close>: an error, or the status, the body unless reading it fails, and its type.\<close>

type_synonym http_get = "string \<Rightarrow> (int \<times> string option \<times> string) option"

definition downloadOne :: "http_get \<Rightarrow> (string \<Rightarrow> string) \<Rightarrow> (string \<Rightarrow> io_result) \<Rightarrow> string \<Rightarrow> filesystem \<times> disk \<Rightarrow> bool \<times> filesystem \<times> disk" where
  "downloadOne http sha io rawURL st =
     (case http rawURL of
        None \<Rightarrow> (False, st)
      | Some (status, body, mime) \<Rightarrow>
          if status \<noteq> 200 then (False, st)
          else case body of
                 None \<Rightarrow> (False, st)
               | Some b \<Rightarrow>
                   if b = [] then (False, st)
                   else (case SaveFile sha (io rawURL) rawURL b mime st of (r, st') \<Rightarrow> (r \<noteq> None, st')))"

record repair_report =
  rp_PagesScanned :: nat
  rp_AssetsReferenced :: nat
  rp_AssetsMissing :: nat
  rp_AssetsDownloaded :: nat
  rp_AssetsFailed :: nat
  rp_AssetsRewritten :: nat
  rp_FailureURLs :: "string list"

definition empty_report :: repair_report where
  "empty_report = \<lparr>rp_PagesScanned = 0, rp_AssetsReferenced = 0, rp_AssetsMissing = 0, rp_AssetsDownloaded = 0,
     rp_AssetsFailed = 0, rp_AssetsRewritten = 0, rp_FailureURLs = []\<rparr>"

text \<open>The downloads in the order they finish; the saves of the workers hold the mutex of the file system.\<close>

fun downloadMissing :: "http_get \<Rightarrow> (string \<Rightarrow> string) \<Rightarrow> (string \<Rightarrow> io_result) \<Rightarrow> string list \<Rightarrow> repair_report \<times> filesystem \<times> disk \<Rightarrow>
    repair_report \<times> filesystem \<times> disk" where
  "downloadMissing http sha io [] st = st"
| "downloadMissing http sha io (u # us) (rep, st) =
     (case downloadOne http sha io u st of (ok, st') \<Rightarrow>
        downloadMissing http sha io us
          (if ok then rep\<lparr>rp_AssetsDownloaded := rp_AssetsDownloaded rep + 1\<rparr>
           else rep\<lparr>rp_AssetsFailed := rp_AssetsFailed rep + 1, rp_FailureURLs := rp_FailureURLs rep @ [u]\<rparr>, st'))"

section \<open>repair.go\<close>

text \<open>The URLs one file refers to, and the files that could be read.\<close>

fun scan_files :: "(string \<Rightarrow> string \<Rightarrow> string list outcome) \<Rightarrow> disk \<Rightarrow> string list \<Rightarrow> (string list \<times> string list) outcome" where
  "scan_files extract d [] = Returns ([], [])"
| "scan_files extract d (p # ps) =
     (case d p of
        None \<Rightarrow> scan_files extract d ps
      | Some data \<Rightarrow>
          outcome_bind (extract data p) (\<lambda>us.
            outcome_bind (scan_files extract d ps) (\<lambda>(read, rest). Returns (p # read, us @ rest))))"

definition page_refs :: "(string \<Rightarrow> html_token list) \<Rightarrow> string \<Rightarrow> string \<Rightarrow> string \<Rightarrow> string list outcome" where
  "page_refs tokens root data p = extractAssetURLs tokens data (repair_urlFromLocalPath root p)"

definition sheet_refs :: "string \<Rightarrow> string \<Rightarrow> string list outcome" where
  "sheet_refs data p = outcome_bind (extractCSSURLs data) (\<lambda>us. Returns (filter has_http us))"

definition classify :: "filesystem \<Rightarrow> disk \<Rightarrow> string \<Rightarrow> (string \<times> string) list \<times> string list \<Rightarrow> (string \<times> string) list \<times> string list" where
  "classify fs d u mm =
     (case mm of (mapping, missing) \<Rightarrow>
        if fileExists fs d u then (List.insert (u, PathForURL fs u) mapping, missing) else (mapping, List.insert u missing))"

definition write_pages :: "(string \<Rightarrow> io_result) \<Rightarrow> (string \<times> string) list \<Rightarrow> string list \<Rightarrow> disk \<Rightarrow> disk" where
  "write_pages io mapping pages d =
     foldl (\<lambda>d p. case d p of None \<Rightarrow> d | Some data \<Rightarrow> snd (write_below (io p) p (rewriteRepairedURLs data p mapping) d)) d pages"

record repair_env =
  re_tokens :: "string \<Rightarrow> html_token list"
  re_http :: http_get
  re_sha :: "string \<Rightarrow> string"
  re_io :: "string \<Rightarrow> io_result"
  re_isDir :: "string \<Rightarrow> bool"
  re_walk :: "string \<Rightarrow> string list"
  re_finish :: "string list \<Rightarrow> string list"
  re_iterate :: "(string \<times> string) list \<Rightarrow> (string \<times> string) list"

definition repair_scan :: "repair_env \<Rightarrow> string \<Rightarrow> disk \<Rightarrow> (string list \<times> string list) outcome" where
  "repair_scan e root d =
     outcome_bind (scan_files (page_refs (re_tokens e) root) d (findPages d root (re_walk e root))) (\<lambda>(readPages, refs1).
       outcome_bind (scan_files sheet_refs d (findStylesheets (re_walk e root))) (\<lambda>(readSheets, refs2).
         Returns (readPages @ readSheets, refs1 @ refs2)))"

definition repair_Run :: "repair_env \<Rightarrow> string \<Rightarrow> string \<Rightarrow> disk \<Rightarrow> ((bool \<times> repair_report) \<times> disk) outcome" where
  "repair_Run e cwd outputDir d =
     (let root = filepath_Abs cwd outputDir; fs = NewFilesystem root
      in if \<not> re_isDir e root then Returns ((False, empty_report), d)
         else outcome_bind (repair_scan e root d) (\<lambda>(read, refs).
           let (mapping, missing) = fold (classify fs d) refs ([], []);
               rep = empty_report\<lparr>rp_PagesScanned := length (findPages d root (re_walk e root)),
                 rp_AssetsReferenced := length refs, rp_AssetsMissing := length missing\<rparr>;
               (rep1, fs1, d1) = downloadMissing (re_http e) (re_sha e) (re_io e) (re_finish e missing) (rep, fs, d);
               mapping1 = mapping @ map (\<lambda>u. (u, PathForURL fs1 u)) (filter (fileExists fs1 d1) missing);
               rep2 = rep1\<lparr>rp_AssetsRewritten := length mapping1\<rparr>
           in Returns ((True, rep2), if mapping1 = [] then d1 else write_pages (re_io e) (re_iterate e mapping1) read d1)))"

section \<open>The mapping and the downloads\<close>

lemma PathForURL_outputDir_cong: "fs_outputDir fs = fs_outputDir fs' \<Longrightarrow> PathForURL fs u = PathForURL fs' u"
  by (simp add: PathForURL_def Let_def split: option.split)

lemma fold_classify:
  "fold (classify fs d) refs (mapping, missing) = (mapping', missing') \<Longrightarrow> distinct mapping \<Longrightarrow> distinct missing \<Longrightarrow>
     distinct mapping' \<and> distinct missing' \<and>
     set mapping' = set mapping \<union> (\<lambda>u. (u, PathForURL fs u)) ` {u \<in> set refs. fileExists fs d u} \<and>
     set missing' = set missing \<union> {u \<in> set refs. \<not> fileExists fs d u}"
proof (induction refs arbitrary: mapping missing)
  case (Cons u refs)
  show ?case
  proof (cases "fileExists fs d u")
    case True
    then have "fold (classify fs d) refs (List.insert (u, PathForURL fs u) mapping, missing) = (mapping', missing')"
      using Cons.prems(1) by (simp add: classify_def [of fs d u])
    from Cons.IH [OF this] show ?thesis using Cons.prems(2,3) True by auto
  next
    case False
    then have "fold (classify fs d) refs (mapping, List.insert u missing) = (mapping', missing')"
      using Cons.prems(1) by (simp add: classify_def [of fs d u])
    from Cons.IH [OF this] show ?thesis using Cons.prems(2,3) False by auto
  qed
qed simp

lemma filepath_Clean_nonempty: "filepath_Clean p \<noteq> []"
proof (cases "has_prefix p ''/'' \<or> clean_comps p = []")
  case True
  then show ?thesis by (auto simp: filepath_Clean_def path_of_def)
next
  case False
  then obtain c cs where c: "clean_comps p = c # cs" by (cases "clean_comps p") auto
  then have "c \<noteq> []" using norm_comps_elem [OF clean_comps_norm [of p], of c] by simp
  then show ?thesis using False c by (cases cs) (auto simp: filepath_Clean_def path_of_def)
qed

lemma filepath_Join_nonempty: "\<exists>e\<in>set es. e \<noteq> [] \<Longrightarrow> filepath_Join es \<noteq> []"
  by (auto simp: filepath_Join_def filepath_Clean_nonempty split: list.split)

lemma PathForURL_nonempty: "PathForURL fs u \<noteq> []"
proof -
  have "storage_host v \<noteq> []" for v by (simp add: storage_host_def)
  then have "filepath_Join [fs_outputDir fs, storage_host v, x] \<noteq> []" "filepath_Join [fs_outputDir fs, ''unknown''] \<noteq> []" for v x
    by (rule_tac [!] filepath_Join_nonempty) auto
  then show ?thesis by (simp add: PathForURL_def Let_def split: option.split)
qed

lemma downloadOne_disk:
  assumes "downloadOne http sha io u (fs, d) = (ok, fs', d')"
  shows "fs_outputDir fs' = fs_outputDir fs \<and> dom d \<subseteq> dom d' \<and> (ok \<longrightarrow> PathForURL fs u \<in> dom d') \<and>
    (\<forall>p. p \<noteq> PathForURL fs u \<longrightarrow> d' p = d p)"
  using assms by (auto simp: downloadOne_def SaveFile_def write_below_def Let_def split: option.splits io_result.splits if_splits prod.splits)

lemma downloadMissing_accounts:
  "downloadMissing http sha io us (rep, fs, d) = (rep', fs', d') \<Longrightarrow>
     \<exists>fl. subseq fl us \<and> rp_FailureURLs rep' = rp_FailureURLs rep @ fl \<and>
       rp_AssetsFailed rep' = rp_AssetsFailed rep + length fl \<and>
       rp_AssetsDownloaded rep' = rp_AssetsDownloaded rep + (length us - length fl) \<and>
       rp_AssetsMissing rep' = rp_AssetsMissing rep \<and> rp_AssetsReferenced rep' = rp_AssetsReferenced rep \<and>
       fs_outputDir fs' = fs_outputDir fs \<and> dom d \<subseteq> dom d' \<and>
       (\<forall>u\<in>set us. u \<in> set fl \<or> PathForURL fs u \<in> dom d') \<and>
       (\<forall>p. p \<notin> PathForURL fs ` set us \<longrightarrow> d' p = d p)"
proof (induction us arbitrary: rep fs d)
  case (Cons u us)
  obtain ok fs1 d1 where o: "downloadOne http sha io u (fs, d) = (ok, fs1, d1)" by (metis prod.exhaust)
  note k = downloadOne_disk [OF o]
  let ?rep = "if ok then rep\<lparr>rp_AssetsDownloaded := rp_AssetsDownloaded rep + 1\<rparr>
     else rep\<lparr>rp_AssetsFailed := rp_AssetsFailed rep + 1, rp_FailureURLs := rp_FailureURLs rep @ [u]\<rparr>"
  have "downloadMissing http sha io us (?rep, fs1, d1) = (rep', fs', d')" using Cons.prems o by simp
  from Cons.IH [OF this] obtain fl where fl: "subseq fl us" "rp_FailureURLs rep' = rp_FailureURLs ?rep @ fl"
    "rp_AssetsFailed rep' = rp_AssetsFailed ?rep + length fl"
    "rp_AssetsDownloaded rep' = rp_AssetsDownloaded ?rep + (length us - length fl)"
    "rp_AssetsMissing rep' = rp_AssetsMissing ?rep" "rp_AssetsReferenced rep' = rp_AssetsReferenced ?rep"
    "fs_outputDir fs' = fs_outputDir fs1" "dom d1 \<subseteq> dom d'" "\<forall>u\<in>set us. u \<in> set fl \<or> PathForURL fs1 u \<in> dom d'"
    "\<forall>p. p \<notin> PathForURL fs1 ` set us \<longrightarrow> d' p = d1 p" by blast
  have P: "PathForURL fs1 = PathForURL fs" using k PathForURL_outputDir_cong by blast
  have l: "length fl \<le> length us" using fl(1) by (rule list_emb_length)
  have f: "fs_outputDir fs' = fs_outputDir fs" "dom d \<subseteq> dom d'" using fl(7,8) k by (simp, blast)
  have g: "d' p = d p" if "p \<notin> PathForURL fs ` set (u # us)" for p using that fl(10) k P by auto
  show ?case
  proof (cases ok)
    case True
    have "PathForURL fs u \<in> dom d'" using True k fl(8) by blast
    then show ?thesis using fl f g True l P by (intro exI [of _ fl]) (auto simp: Suc_diff_le)
  next
    case False
    then show ?thesis using fl f g l P by (intro exI [of _ "u # fl"]) auto
  qed
qed auto

lemma write_below_existing:
  "d p \<noteq> None \<Longrightarrow> dom (snd (write_below io p data d)) = dom d \<and> (\<forall>q. q \<noteq> p \<longrightarrow> snd (write_below io p data d) q = d q)"
  by (auto simp: write_below_def split: io_result.splits option.splits)

lemma write_pages_frame:
  "dom (write_pages io mapping pages d) = dom d \<and> (\<forall>p. p \<notin> set pages \<longrightarrow> write_pages io mapping pages d p = d p)"
proof (induction pages arbitrary: d)
  case Nil
  then show ?case by (simp add: write_pages_def)
next
  case (Cons p pages)
  let ?d = "case d p of None \<Rightarrow> d | Some data \<Rightarrow> snd (write_below (io p) p (rewriteRepairedURLs data p mapping) d)"
  have w: "write_pages io mapping (p # pages) d = write_pages io mapping pages ?d" by (simp add: write_pages_def)
  have "dom ?d = dom d \<and> (\<forall>q. q \<noteq> p \<longrightarrow> ?d q = d q)"
    using write_below_existing [of d p] by (cases "d p") auto
  then show ?case using Cons.IH [of ?d] unfolding w by auto
qed

lemma subseq_set: "subseq xs ys \<Longrightarrow> set xs \<subseteq> set ys"
  by (induction rule: list_emb.induct) auto

text \<open>C34: Whenever the pages and style sheets can be scanned, a repair runs to its end, in whatever order downloads
  finish and maps are iterated. Each missing asset counts as downloaded or failed, an asset that did not fail is on
  the disk, the assets whose references are rewritten are exactly those on the disk, and no file changes but the
  scanned ones and those of the missing assets.\<close>

theorem repair_accounts_for_every_asset:
  assumes "root = filepath_Abs cwd outputDir" "fs = NewFilesystem root" "re_isDir e root"
    "repair_scan e root d = Returns (read, refs)" "\<forall>xs. mset (re_finish e xs) = mset xs"
  shows "\<exists>rep d'. repair_Run e cwd outputDir d = Returns ((True, rep), d') \<and>
    rp_AssetsMissing rep = card {u \<in> set refs. \<not> fileExists fs d u} \<and>
    rp_AssetsDownloaded rep + rp_AssetsFailed rep = rp_AssetsMissing rep \<and>
    length (rp_FailureURLs rep) = rp_AssetsFailed rep \<and>
    (\<forall>u\<in>set refs. u \<in> set (rp_FailureURLs rep) \<or> fileExists fs d' u) \<and>
    rp_AssetsRewritten rep = card {u \<in> set refs. fileExists fs d' u} \<and>
    (\<forall>p. p \<notin> set read \<and> p \<notin> PathForURL fs ` {u \<in> set refs. \<not> fileExists fs d u} \<longrightarrow> d' p = d p)"
proof -
  obtain mapping missing where m: "fold (classify fs d) refs ([], []) = (mapping, missing)" by fastforce
  note c = fold_classify [OF m]
  have mp: "distinct mapping" "set mapping = (\<lambda>u. (u, PathForURL fs u)) ` {u \<in> set refs. fileExists fs d u}"
    and ms: "distinct missing" "set missing = {u \<in> set refs. \<not> fileExists fs d u}" using c by simp_all
  define rep0 where "rep0 = empty_report\<lparr>rp_PagesScanned := length (findPages d root (re_walk e root)),
    rp_AssetsReferenced := length refs, rp_AssetsMissing := length missing\<rparr>"
  obtain rep1 fs1 d1 where dl: "downloadMissing (re_http e) (re_sha e) (re_io e) (re_finish e missing) (rep0, fs, d) = (rep1, fs1, d1)"
    by (metis prod.exhaust)
  from downloadMissing_accounts [OF this] obtain fl where fl: "subseq fl (re_finish e missing)"
    "rp_FailureURLs rep1 = rp_FailureURLs rep0 @ fl" "rp_AssetsFailed rep1 = rp_AssetsFailed rep0 + length fl"
    "rp_AssetsDownloaded rep1 = rp_AssetsDownloaded rep0 + (length (re_finish e missing) - length fl)"
    "rp_AssetsMissing rep1 = rp_AssetsMissing rep0" "fs_outputDir fs1 = fs_outputDir fs" "dom d \<subseteq> dom d1"
    "\<forall>u\<in>set (re_finish e missing). u \<in> set fl \<or> PathForURL fs u \<in> dom d1"
    "\<forall>p. p \<notin> PathForURL fs ` set (re_finish e missing) \<longrightarrow> d1 p = d p" by blast
  have perm: "set (re_finish e missing) = set missing" "length (re_finish e missing) = length missing"
    using assms(5) by (metis set_mset_mset, metis size_mset)
  have l: "length fl \<le> length missing" using fl(1) perm(2) by (metis list_emb_length)
  define mapping1 where "mapping1 = mapping @ map (\<lambda>u. (u, PathForURL fs1 u)) (filter (fileExists fs1 d1) missing)"
  define d' where "d' = (if mapping1 = [] then d1 else write_pages (re_io e) (re_iterate e mapping1) read d1)"
  have run: "repair_Run e cwd outputDir d = Returns ((True, rep1\<lparr>rp_AssetsRewritten := length mapping1\<rparr>), d')"
    using assms(3,4) m dl unfolding repair_Run_def Let_def assms(1) [symmetric] assms(2) [symmetric]
    by (simp add: rep0_def mapping1_def d'_def)
  have dd: "dom d' = dom d1" "\<And>p. p \<notin> set read \<Longrightarrow> d' p = d1 p"
    using write_pages_frame [of "re_io e" "re_iterate e mapping1" read d1] by (auto simp: d'_def)
  have P: "PathForURL fs1 = PathForURL fs" using fl(6) PathForURL_outputDir_cong by blast
  have ex: "fileExists fs x u \<longleftrightarrow> PathForURL fs u \<in> dom x" for x u by (auto simp: fileExists_def Let_def PathForURL_nonempty)
  have ex1: "fileExists fs1 d1 u \<longleftrightarrow> fileExists fs d' u" for u
    using P dd(1) by (auto simp: fileExists_def Let_def)
  have old: "fileExists fs d u \<Longrightarrow> fileExists fs d' u" for u using fl(7) dd(1) by (auto simp: ex)
  have "length mapping = card {u \<in> set refs. fileExists fs d u}"
    using mp by (simp add: distinct_card [symmetric] card_image inj_on_def)
  moreover have "length (filter (fileExists fs d') missing) = card {u \<in> set refs. \<not> fileExists fs d u \<and> fileExists fs d' u}"
    using ms by (subst distinct_card [symmetric]) (auto intro: arg_cong [of _ _ card])
  moreover have "card {u \<in> set refs. fileExists fs d u} + card {u \<in> set refs. \<not> fileExists fs d u \<and> fileExists fs d' u} =
      card {u \<in> set refs. fileExists fs d' u}"
    using old by (subst card_Un_disjoint [symmetric]) (auto intro!: arg_cong [of _ _ card])
  ultimately have "length mapping1 = card {u \<in> set refs. fileExists fs d' u}" using ex1 by (simp add: mapping1_def ext [of "fileExists fs1 d1" "fileExists fs d'"])
  moreover have "length missing = card {u \<in> set refs. \<not> fileExists fs d u}"
    using ms by (metis distinct_card)
  moreover have "u \<in> set fl \<or> fileExists fs d' u" if "u \<in> set refs" for u
    using that fl(8) old ms(2) perm(1) dd(1) by (cases "fileExists fs d u") (auto simp: ex)
  moreover have "d' p = d p" if "p \<notin> set read" "p \<notin> PathForURL fs ` {u \<in> set refs. \<not> fileExists fs d u}" for p
    using that dd(2) [of p] fl(9) perm(1) ms(2) by simp
  ultimately show ?thesis using run fl(2-5) l perm(2) by (simp add: rep0_def empty_report_def)
qed

theorem repair_accounts_for_every_asset_witness:
  "let page = ''/o/h/index.html''; d = [page \<mapsto> ''<html''];
     e = \<lparr>re_tokens = \<lambda>_. [SelfClosingTag ''img'' [(''src'', ''https://h/a.png'')]], re_http = \<lambda>_. Some (200, Some ''x'', ''image/png''),
       re_sha = id, re_io = \<lambda>_. IoOk, re_isDir = \<lambda>_. True, re_walk = \<lambda>_. [page], re_finish = id, re_iterate = id\<rparr>
   in \<exists>rep d'. repair_Run e ''/'' ''/o'' d = Returns ((True, rep), d') \<and>
    rp_AssetsDownloaded rep + rp_AssetsFailed rep = rp_AssetsMissing rep"
proof -
  let ?page = "''/o/h/index.html''" and ?d = "[''/o/h/index.html'' \<mapsto> ''<html'']"
  let ?e = "\<lparr>re_tokens = \<lambda>_. [SelfClosingTag ''img'' [(''src'', ''https://h/a.png'')]], re_http = \<lambda>_. Some (200, Some ''x'', ''image/png''),
       re_sha = id, re_io = \<lambda>_. IoOk, re_isDir = \<lambda>_. True, re_walk = \<lambda>_. [''/o/h/index.html''], re_finish = id, re_iterate = id\<rparr>"
  have f: "findStylesheets [?page] = []" by code_simp
  have t: "\<exists>us. token_urls u [SelfClosingTag ''img'' [(''src'', ''https://h/a.png'')]] False [] = Returns us" for u
  proof -
    have "\<not> skipped_value ''https://h/a.png''" by code_simp
    then show ?thesis by (simp add: add_tag_def add_attr_def)
  qed
  have "\<exists>rr. scan_files (page_refs (re_tokens ?e) (filepath_Abs ''/'' ''/o'')) ?d ps = Returns rr" for ps
  proof (induction ps)
    case (Cons p ps)
    then show ?case using t [of "repair_urlFromLocalPath (filepath_Abs ''/'' ''/o'') p"]
      by (auto simp: page_refs_def extractAssetURLs_def split: option.split)
  qed simp
  then obtain read1 refs1 where s: "scan_files (page_refs (re_tokens ?e) (filepath_Abs ''/'' ''/o'')) ?d
      (findPages ?d (filepath_Abs ''/'' ''/o'') (re_walk ?e (filepath_Abs ''/'' ''/o''))) = Returns (read1, refs1)"
    by (metis prod.exhaust)
  have "repair_scan ?e (filepath_Abs ''/'' ''/o'') ?d = Returns (read1 @ [], refs1 @ [])"
    unfolding repair_scan_def s using f by simp
  from repair_accounts_for_every_asset [OF refl refl _ this] show ?thesis unfolding Let_def by simp blast
qed

section \<open>Panics and mangled references\<close>

lemma repair_Run_panics_iff:
  "repair_Run e cwd outputDir d = Panic \<longleftrightarrow>
     re_isDir e (filepath_Abs cwd outputDir) \<and> repair_scan e (filepath_Abs cwd outputDir) d = Panic"
proof (cases "repair_scan e (filepath_Abs cwd outputDir) d")
  case Panic
  then show ?thesis by (simp add: repair_Run_def Let_def)
next
  case (Returns r)
  obtain read refs where r: "r = (read, refs)" by fastforce
  obtain mapping missing where m: "fold (classify (NewFilesystem (filepath_Abs cwd outputDir)) d) refs ([], []) = (mapping, missing)" by fastforce
  show ?thesis using Returns r m by (simp add: repair_Run_def Let_def case_prod_unfold)
qed

text \<open>A URL that was not repaired, but begins with one that was, loses that beginning to a relative path.\<close>

lemma prefix_of_other_url_is_replaced:
  assumes "u \<noteq> []" "cssEscapeURL u = u"
  shows "rewriteRepairedURLs (u @ t) page [(u, p)] =
    filepath_Clean (relPath (filepath_Dir page) p) @ replace_all t u (filepath_Clean (relPath (filepath_Dir page) p))"
proof -
  obtain c s where u: "u = c # s" using assms(1) by (cases u) auto
  have "replace_all (u @ t) u rel = rel @ replace_all t u rel" for rel
    using has_prefix_append [of u t] unfolding u by (simp del: has_prefix_append)
  then show ?thesis using assms by (simp add: rewriteRepairedURLs_def replace_url_def Let_def)
qed

end
