(* ===== verification/Plugin.thy ===== *)
theory Plugin
  imports GoPath GoNetURL
begin

text \<open>
  The plugins, \<open>internal/plugin\<close>: plugin.go and examples.go. A plugin is a value of a datatype with a constructor for
  each implementation of the interface \<open>Plugin\<close>; \<open>NativePlugin\<close> stands for an implementation outside this program, which
  may also write to the \<open>PluginContext\<close> it is given. The WASM runtime, the files, \<open>encoding/json\<close> and the native plugins
  are the functions of a record \<open>host\<close>, over a state \<open>'w\<close> of the outside world. The order in which Go iterates over
  the map of plugins is an argument, a list of names. Tracing spans have no effect on the results and are left out.
\<close>

section \<open>Ranging over a string\<close>

text \<open>
  \<open>for _, c := range s\<close> decodes UTF-8; a byte that starts no valid encoding counts as one U+FFFD. \<open>runes\<close> gives
  \<open>string(c)\<close> for every \<open>c\<close> in turn; \<open>decode_len\<close> is the length of the encoding at the head, 0 if there is none.
\<close>

fun bytes_within :: "string \<Rightarrow> (nat \<times> nat) list \<Rightarrow> bool" where
  "bytes_within s [] \<longleftrightarrow> True"
| "bytes_within [] (r # rs) \<longleftrightarrow> False"
| "bytes_within (b # s) ((lo, hi) # rs) \<longleftrightarrow> lo \<le> byte_of b \<and> byte_of b < hi \<and> bytes_within s rs"

fun tail_ranges :: "nat \<Rightarrow> (nat \<times> nat) list option" where
  "tail_ranges x =
     (if x < 128 then Some []
      else if x < 194 then None
      else if x < 224 then Some [(128, 192)]
      else if x < 240 then
        Some [(if x = 224 then 160 else 128, if x = 237 then 160 else 192), (128, 192)]
      else if x < 245 then
        Some [(if x = 240 then 144 else 128, if x = 244 then 144 else 192), (128, 192), (128, 192)]
      else None)"

fun decode_len :: "string \<Rightarrow> nat" where
  "decode_len [] = 0"
| "decode_len (a # s) =
     (case tail_ranges (byte_of a) of
        None \<Rightarrow> 0
      | Some rs \<Rightarrow> if bytes_within s rs then Suc (length rs) else 0)"

definition rune_error :: string where
  "rune_error = [char_of (239 :: nat), char_of (191 :: nat), char_of (189 :: nat)]"

function runes :: "string \<Rightarrow> string list" where
  "runes [] = []"
| "runes (a # s) =
     (let n = decode_len (a # s)
      in if n = 0 then rune_error # runes s else take n (a # s) # runes (drop (n - 1) s))"
  by pat_completeness auto
termination by (relation "measure length") auto

definition to_valid :: "string \<Rightarrow> string" where
  "to_valid s = concat (runes s)"

lemma bytes_within_append:
  "byte_of c < (128 :: nat) \<Longrightarrow> (\<And>r. r \<in> set rs \<Longrightarrow> 128 \<le> fst r) \<Longrightarrow> bytes_within (s @ c # b) rs = bytes_within s rs"
proof (induction s rs rule: bytes_within.induct)
  case (2 r rs)
  have "128 \<le> fst r" using 2(2) by simp
  then show ?case using 2(1) by (cases r) simp
qed auto

lemma bytes_within_length: "bytes_within s rs \<Longrightarrow> length rs \<le> length s"
  by (induction s rs rule: bytes_within.induct) auto

lemma tail_ranges_high: "tail_ranges x = Some rs \<Longrightarrow> r \<in> set rs \<Longrightarrow> 128 \<le> fst r"
  by (auto split: if_splits)

lemma decode_len_append: "a \<noteq> [] \<Longrightarrow> byte_of c < (128 :: nat) \<Longrightarrow> decode_len (a @ c # b) = decode_len a"
  using bytes_within_append [OF _ tail_ranges_high]
  by (cases a) (auto split: option.splits simp del: tail_ranges.simps)

lemma decode_len_bound: "decode_len s \<le> length s"
  by (cases s) (auto split: option.splits dest!: bytes_within_length simp del: tail_ranges.simps)

lemma decode_len_ascii: "byte_of c < (128 :: nat) \<Longrightarrow> decode_len (c # b) = 1"
  by simp

declare decode_len.simps [simp del]

lemma runes_append: "byte_of c < (128 :: nat) \<Longrightarrow> runes (a @ c # b) = runes a @ [c] # runes b"
proof (induction a rule: runes.induct)
  case 1
  then show ?case by (simp add: decode_len_ascii)
next
  case (2 a s)
  define n where "n = decode_len (a # s)"
  have n: "decode_len (a # s @ c # b) = n" using decode_len_append [of "a # s" c b] 2 by (simp add: n_def)
  have le: "n \<le> length (a # s)" unfolding n_def by (rule decode_len_bound)
  show ?case
  proof (cases "n = 0")
    case True
    with 2 n show ?thesis by (simp add: n_def [symmetric] del: decode_len.simps)
  next
    case False
    have IH: "runes (drop (n - 1) s @ c # b) = runes (drop (n - 1) s) @ [c] # runes b"
      using 2(2) [OF n_def] False 2(3) by blast
    have "drop (n - 1) (s @ c # b) = drop (n - 1) s @ c # b" "take n (a # s @ c # b) = take n (a # s)"
      using le False by (auto simp: take_Cons' not_less split: nat.splits)
    with False n IH show ?thesis by (simp add: n_def [symmetric] Let_def del: decode_len.simps)
  qed
qed

lemma runes_nonempty: "r \<in> set (runes s) \<Longrightarrow> r \<noteq> []"
  by (induction s rule: runes.induct) (auto simp: Let_def rune_error_def split: if_splits simp del: decode_len.simps)

lemma runes_Nil_iff [simp]: "runes s = [] \<longleftrightarrow> s = []"
  by (cases s) (auto simp: Let_def)

lemma to_valid_Nil_iff [simp]: "to_valid s = [] \<longleftrightarrow> s = []"
  using runes_nonempty [of _ s] by (cases "runes s") (auto simp: to_valid_def)

section \<open>Plugins\<close>

text \<open>A value of type \<open>interface{}\<close>; \<open>AnyOther\<close> stands for the values of all other types.\<close>

datatype any = AnyNil | AnyBool bool | AnyInt int | AnyString string | AnyOther nat

definition PluginTypeExtractor :: string where "PluginTypeExtractor = ''extractor''"
definition PluginTypeTransformer :: string where "PluginTypeTransformer = ''transformer''"
definition PluginTypeEnricher :: string where "PluginTypeEnricher = ''enricher''"
definition PluginTypeFilter :: string where "PluginTypeFilter = ''filter''"

lemmas plugin_types = PluginTypeExtractor_def PluginTypeTransformer_def PluginTypeEnricher_def PluginTypeFilter_def

record PluginManifest =
  mf_Name :: string
  mf_Version :: string
  mf_Type :: string
  mf_Description :: string
  mf_Author :: string
  mf_EntryPoint :: string
  mf_Config :: "string \<rightharpoonup> string"

record PluginContext =
  pc_URL :: string
  pc_Depth :: int
  pc_HTML :: string
  pc_Metadata :: "string \<rightharpoonup> any"
  pc_Config :: "string \<rightharpoonup> string"

record PluginResult =
  pr_Success :: bool
  pr_Data :: "string \<rightharpoonup> any"
  pr_Error :: string
  pr_TransformedHTML :: string
  pr_FilteredURLs :: "string list"

definition zero_result :: PluginResult where
  "zero_result = \<lparr>pr_Success = False, pr_Data = Map.empty, pr_Error = [], pr_TransformedHTML = [], pr_FilteredURLs = []\<rparr>"

definition zero_context :: PluginContext where
  "zero_context = \<lparr>pc_URL = [], pc_Depth = 0, pc_HTML = [], pc_Metadata = Map.empty, pc_Config = Map.empty\<rparr>"

record wasm_plugin =
  wp_name :: string
  wp_pluginType :: string
  wp_manifest :: PluginManifest
  wp_module :: nat
  wp_instance :: nat
  wp_config :: "string \<rightharpoonup> string"

datatype plugin =
    WASMPlugin wasm_plugin
  | BuiltinExtractorPlugin string
  | ExampleEnricherPlugin string
  | ExampleFilterPlugin string
  | NativePlugin string string nat
  | GoPlugin plugin

text \<open>What the plugins need of the outside. An \<open>Execute\<close> of a native plugin may return a nil result without an error.\<close>

type_synonym 'w answer = "(string + PluginResult option) \<times> PluginContext \<times> 'w"

record 'w host =
  h_marshal :: "PluginContext \<Rightarrow> string option"
  h_exported :: "nat \<Rightarrow> string \<Rightarrow> 'w \<Rightarrow> bool"
  h_execute :: "nat \<Rightarrow> PluginContext \<Rightarrow> 'w \<Rightarrow> 'w answer"
  h_init :: "nat \<Rightarrow> (string \<rightharpoonup> string) \<Rightarrow> 'w \<Rightarrow> string option \<times> 'w"
  h_cleanup :: "nat \<Rightarrow> 'w \<Rightarrow> 'w"
  h_close_instance :: "nat \<Rightarrow> 'w \<Rightarrow> 'w"
  h_close_runtime :: "'w \<Rightarrow> string option \<times> 'w"
  h_read_file :: "string \<Rightarrow> 'w \<Rightarrow> string + string"
  h_read_dir :: "string \<Rightarrow> 'w \<Rightarrow> string + (string \<times> bool) list"
  h_unmarshal :: "string \<Rightarrow> string + PluginManifest"
  h_compile :: "string \<Rightarrow> 'w \<Rightarrow> (string + nat) \<times> 'w"
  h_instantiate :: "nat \<Rightarrow> string \<Rightarrow> 'w \<Rightarrow> (string + nat) \<times> 'w"

subsection \<open>The methods of the interface\<close>

fun plugin_Name :: "plugin \<Rightarrow> string" where
  "plugin_Name (WASMPlugin wp) = wp_name wp"
| "plugin_Name (BuiltinExtractorPlugin n) = n"
| "plugin_Name (ExampleEnricherPlugin n) = n"
| "plugin_Name (ExampleFilterPlugin n) = n"
| "plugin_Name (NativePlugin n t i) = n"
| "plugin_Name (GoPlugin p) = plugin_Name p"

fun plugin_Type :: "plugin \<Rightarrow> string" where
  "plugin_Type (WASMPlugin wp) = wp_pluginType wp"
| "plugin_Type (BuiltinExtractorPlugin n) = PluginTypeExtractor"
| "plugin_Type (ExampleEnricherPlugin n) = PluginTypeEnricher"
| "plugin_Type (ExampleFilterPlugin n) = PluginTypeFilter"
| "plugin_Type (NativePlugin n t i) = t"
| "plugin_Type (GoPlugin p) = plugin_Type p"

text \<open>The method has a pointer receiver: the plugin it leaves is the second component.\<close>

fun plugin_Init :: "'w host \<Rightarrow> (string \<rightharpoonup> string) \<Rightarrow> plugin \<Rightarrow> 'w \<Rightarrow> string option \<times> plugin \<times> 'w" where
  "plugin_Init H config (WASMPlugin wp) w = (None, WASMPlugin (wp\<lparr>wp_config := config\<rparr>), w)"
| "plugin_Init H config (BuiltinExtractorPlugin n) w = (None, BuiltinExtractorPlugin n, w)"
| "plugin_Init H config (ExampleEnricherPlugin n) w = (None, ExampleEnricherPlugin n, w)"
| "plugin_Init H config (ExampleFilterPlugin n) w = (None, ExampleFilterPlugin n, w)"
| "plugin_Init H config (NativePlugin n t i) w =
     (case h_init H i config w of (e, v) \<Rightarrow> (e, NativePlugin n t i, v))"
| "plugin_Init H config (GoPlugin p) w = (case plugin_Init H config p w of (e, q, v) \<Rightarrow> (e, GoPlugin q, v))"

fun plugin_Cleanup :: "'w host \<Rightarrow> plugin \<Rightarrow> 'w \<Rightarrow> 'w" where
  "plugin_Cleanup H (WASMPlugin wp) w = h_close_instance H (wp_instance wp) w"
| "plugin_Cleanup H (BuiltinExtractorPlugin n) w = w"
| "plugin_Cleanup H (ExampleEnricherPlugin n) w = w"
| "plugin_Cleanup H (ExampleFilterPlugin n) w = w"
| "plugin_Cleanup H (NativePlugin n t i) w = h_cleanup H i w"
| "plugin_Cleanup H (GoPlugin p) w = plugin_Cleanup H p w"

subsection \<open>What the plugins compute\<close>

text \<open>The word count of the built-in extractor.\<close>

definition word_step :: "nat \<times> bool \<Rightarrow> string \<Rightarrow> nat \<times> bool" where
  "word_step st r =
     (case st of (wordCount, inWord) \<Rightarrow>
        if r = '' '' \<or> r = [CHR 0x0A] \<or> r = [CHR 0x09] then (wordCount, False)
        else if \<not> inWord then (wordCount + 1, True)
        else (wordCount, inWord))"

definition count_words :: "string \<Rightarrow> nat" where
  "count_words s = fst (foldl word_step (0, False) (runes s))"

definition extractor_Execute :: "PluginContext \<Rightarrow> PluginResult" where
  "extractor_Execute input =
     zero_result\<lparr>pr_Success := True,
       pr_Data := [''word_count'' \<mapsto> AnyInt (int (count_words (pc_HTML input))),
                   ''char_count'' \<mapsto> AnyInt (int (length (pc_HTML input)))]\<rparr>"

definition enricher_Execute :: "string \<Rightarrow> PluginResult" where
  "enricher_Execute name =
     zero_result\<lparr>pr_Success := True,
       pr_Data := [''enriched_by'' \<mapsto> AnyString name, ''enrichment_time'' \<mapsto> AnyString ''now'']\<rparr>"

definition split_step :: "string list \<times> string \<Rightarrow> string \<Rightarrow> string list \<times> string" where
  "split_step st c =
     (case st of (result, current) \<Rightarrow>
        if c = '','' then (if current \<noteq> [] then (result @ [current], []) else (result, current))
        else (result, current @ c))"

definition splitURLs :: "string \<Rightarrow> string list" where
  "splitURLs s =
     (case foldl split_step ([], []) (runes s) of (result, current) \<Rightarrow>
        if current \<noteq> [] then result @ [current] else result)"

definition plugin_contains :: "string \<Rightarrow> string \<Rightarrow> bool" where
  "plugin_contains s substr \<longleftrightarrow>
     list_ex (\<lambda>i. take (length substr) (drop i s) = substr) [0..<length s + 1 - length substr]"

definition filter_Execute :: "PluginContext \<Rightarrow> PluginResult" where
  "filter_Execute input =
     zero_result\<lparr>pr_Success := True,
       pr_FilteredURLs :=
         (case pc_Config input ''urls'' of
            None \<Rightarrow> []
          | Some u \<Rightarrow> filter (\<lambda>url. \<not> plugin_contains url ''admin'' \<and> \<not> plugin_contains url ''login'') (splitURLs u))\<rparr>"

text \<open>A WASM module is never called: the result is the same for every input.\<close>

definition wasm_Execute :: "'w host \<Rightarrow> wasm_plugin \<Rightarrow> PluginContext \<Rightarrow> 'w \<Rightarrow> PluginResult" where
  "wasm_Execute H wp input w =
     (case h_marshal H input of
        Some e \<Rightarrow> zero_result\<lparr>pr_Error := e\<rparr>
      | None \<Rightarrow>
          if \<not> h_exported H (wp_instance wp) (mf_EntryPoint (wp_manifest wp)) w
          then zero_result\<lparr>pr_Error := ''entry point not found''\<rparr>
          else zero_result\<lparr>pr_Success := True, pr_Data := [''processed'' \<mapsto> AnyBool True]\<rparr>)"

fun plugin_Execute :: "'w host \<Rightarrow> plugin \<Rightarrow> PluginContext \<Rightarrow> 'w \<Rightarrow> 'w answer" where
  "plugin_Execute H (WASMPlugin wp) input w = (Inr (Some (wasm_Execute H wp input w)), input, w)"
| "plugin_Execute H (BuiltinExtractorPlugin n) input w = (Inr (Some (extractor_Execute input)), input, w)"
| "plugin_Execute H (ExampleEnricherPlugin n) input w = (Inr (Some (enricher_Execute n)), input, w)"
| "plugin_Execute H (ExampleFilterPlugin n) input w = (Inr (Some (filter_Execute input)), input, w)"
| "plugin_Execute H (NativePlugin n t i) input w = h_execute H i input w"
| "plugin_Execute H (GoPlugin p) input w = plugin_Execute H p input w"

definition NewBuiltinExtractorPlugin :: "string \<Rightarrow> plugin" where
  "NewBuiltinExtractorPlugin name = BuiltinExtractorPlugin name"

definition NewExampleEnricherPlugin :: plugin where
  "NewExampleEnricherPlugin = ExampleEnricherPlugin ''example-enricher''"

definition NewExampleFilterPlugin :: plugin where
  "NewExampleFilterPlugin = ExampleFilterPlugin ''example-filter''"

section \<open>The manager\<close>

record plugin_manager =
  pm_plugins :: "string \<rightharpoonup> plugin"
  pm_pluginDir :: string

definition NewPluginManager :: "string \<Rightarrow> plugin_manager" where
  "NewPluginManager pluginDir = \<lparr>pm_plugins = Map.empty, pm_pluginDir = pluginDir\<rparr>"

definition put_plugin :: "plugin \<Rightarrow> plugin_manager \<Rightarrow> plugin_manager" where
  "put_plugin p pm = pm\<lparr>pm_plugins := (pm_plugins pm)(plugin_Name p \<mapsto> p)\<rparr>"

text \<open>The error, if any, the manager and the world. Cutting five bytes off a shorter path panics.\<close>

definition instantiate_plugin ::
    "'w host \<Rightarrow> PluginManifest \<Rightarrow> string \<Rightarrow> plugin_manager \<Rightarrow> 'w \<Rightarrow> string option \<times> plugin_manager \<times> 'w" where
  "instantiate_plugin H mf wasmData pm w =
     (case h_compile H wasmData w of
        (Inl e, w') \<Rightarrow> (Some (''failed to compile WASM: '' @ e), pm, w')
      | (Inr compiled, w') \<Rightarrow>
          (case h_instantiate H compiled (mf_EntryPoint mf) w' of
             (Inl e, w'') \<Rightarrow> (Some (''failed to instantiate WASM: '' @ e), pm, w'')
           | (Inr inst, w'') \<Rightarrow>
               (case plugin_Init H (mf_Config mf)
                       (WASMPlugin \<lparr>wp_name = mf_Name mf, wp_pluginType = mf_Type mf, wp_manifest = mf, wp_module = compiled,
                                    wp_instance = inst, wp_config = mf_Config mf\<rparr>) w'' of
                  (err, p, w''') \<Rightarrow> (err, put_plugin p pm, w'''))))"

definition LoadPlugin :: "'w host \<Rightarrow> string \<Rightarrow> plugin_manager \<Rightarrow> 'w \<Rightarrow> (string option \<times> plugin_manager \<times> 'w) outcome" where
  "LoadPlugin H wasmPath pm w =
     (if length wasmPath < 5 then Panic
      else Returns
        (case h_read_file H (take (length wasmPath - 5) wasmPath @ ''.json'') w of
           Inl e \<Rightarrow> (Some (''failed to read manifest: '' @ e), pm, w)
         | Inr manifestData \<Rightarrow>
             (case h_unmarshal H manifestData of
                Inl e \<Rightarrow> (Some (''failed to parse manifest: '' @ e), pm, w)
              | Inr mf \<Rightarrow>
                  (case h_read_file H wasmPath w of
                     Inl e \<Rightarrow> (Some (''failed to read WASM: '' @ e), pm, w)
                   | Inr wasmData \<Rightarrow> instantiate_plugin H mf wasmData pm w))))"

fun load_entries ::
    "'w host \<Rightarrow> (string \<times> bool) list \<Rightarrow> plugin_manager \<Rightarrow> 'w \<Rightarrow> (string option \<times> plugin_manager \<times> 'w) outcome" where
  "load_entries H [] pm w = Returns (None, pm, w)"
| "load_entries H ((name, isDir) # es) pm w =
     (if isDir \<or> filepath_Ext name \<noteq> ''.wasm'' then load_entries H es pm w
      else outcome_bind (LoadPlugin H (filepath_Join [pm_pluginDir pm, name]) pm w)
        (\<lambda>(err, pm', w').
           case err of
             Some e \<Rightarrow> Returns (Some (''failed to load plugin '' @ name @ '': '' @ e), pm', w')
           | None \<Rightarrow> load_entries H es pm' w'))"

definition LoadPluginsFromDir :: "'w host \<Rightarrow> plugin_manager \<Rightarrow> 'w \<Rightarrow> (string option \<times> plugin_manager \<times> 'w) outcome" where
  "LoadPluginsFromDir H pm w =
     (case h_read_dir H (pm_pluginDir pm) w of
        Inl e \<Rightarrow> Returns (Some (''failed to read plugin dir: '' @ e), pm, w)
      | Inr entries \<Rightarrow> load_entries H entries pm w)"

definition GetPlugin :: "plugin_manager \<Rightarrow> string \<Rightarrow> plugin option" where
  "GetPlugin pm name = pm_plugins pm name"

definition ranged_plugins :: "string list \<Rightarrow> plugin_manager \<Rightarrow> plugin list" where
  "ranged_plugins ord pm = List.map_filter (pm_plugins pm) ord"

definition GetPluginsByType :: "string list \<Rightarrow> plugin_manager \<Rightarrow> string \<Rightarrow> plugin list" where
  "GetPluginsByType ord pm t = filter (\<lambda>p. plugin_Type p = t) (ranged_plugins ord pm)"

definition RegisterGoPlugin :: "'w host \<Rightarrow> plugin \<Rightarrow> plugin_manager \<Rightarrow> 'w \<Rightarrow> string option \<times> plugin_manager \<times> 'w" where
  "RegisterGoPlugin H p pm w =
     (if pm_plugins pm (plugin_Name p) \<noteq> None then (Some (''plugin '' @ plugin_Name p @ '' already registered''), pm, w)
      else case plugin_Init H Map.empty p w of (err, q, w') \<Rightarrow> (err, put_plugin q pm, w'))"

text \<open>Closing leaves the plugins registered.\<close>

definition plugins_Close :: "'w host \<Rightarrow> string list \<Rightarrow> plugin_manager \<Rightarrow> 'w \<Rightarrow> string option \<times> plugin_manager \<times> 'w" where
  "plugins_Close H ord pm w =
     (case h_close_runtime H (fold (plugin_Cleanup H) (ranged_plugins ord pm) w) of (err, w') \<Rightarrow> (err, pm, w'))"

subsection \<open>Running the plugins of a type\<close>

text \<open>All extractors get the same \<open>PluginContext\<close>; a failure becomes a result.\<close>

fun run_extractors ::
    "'w host \<Rightarrow> plugin list \<Rightarrow> PluginContext \<Rightarrow> 'w \<Rightarrow> PluginResult option list \<times> PluginContext \<times> 'w" where
  "run_extractors H [] input w = ([], input, w)"
| "run_extractors H (p # ps) input w =
     (case plugin_Execute H p input w of (r, input', w') \<Rightarrow>
        (case run_extractors H ps input' w' of (rs, input'', w'') \<Rightarrow>
           ((case r of Inl e \<Rightarrow> Some (zero_result\<lparr>pr_Error := e\<rparr>) | Inr x \<Rightarrow> x) # rs, input'', w'')))"

definition ExecuteExtractorPlugins where
  "ExecuteExtractorPlugins H ord pm input w = run_extractors H (GetPluginsByType ord pm PluginTypeExtractor) input w"

text \<open>A nil result without an error is dereferenced.\<close>

fun run_transformers ::
    "'w host \<Rightarrow> plugin list \<Rightarrow> string \<Rightarrow> PluginContext \<Rightarrow> 'w \<Rightarrow> ((string + string) \<times> PluginContext \<times> 'w) outcome" where
  "run_transformers H [] html input w = Returns (Inr html, input, w)"
| "run_transformers H (p # ps) html input w =
     (case plugin_Execute H p (input\<lparr>pc_HTML := html\<rparr>) w of (r, input', w') \<Rightarrow>
        (case r of
           Inl e \<Rightarrow> Returns (Inl e, input', w')
         | Inr None \<Rightarrow> Panic
         | Inr (Some x) \<Rightarrow>
             run_transformers H ps (if pr_TransformedHTML x \<noteq> [] then pr_TransformedHTML x else html) input' w'))"

definition ExecuteTransformerPlugins where
  "ExecuteTransformerPlugins H ord pm input w =
     run_transformers H (GetPluginsByType ord pm PluginTypeTransformer) (pc_HTML input) input w"

definition joinURLs :: "string list \<Rightarrow> string" where
  "joinURLs urls = snd (foldl (\<lambda>(i, result) u. (i + 1, (if 0 < i then result @ '','' else result) @ u)) (0 :: nat, []) urls)"

text \<open>\<open>filtered[0]\<close> panics when no URL is given.\<close>

fun run_filters :: "'w host \<Rightarrow> plugin list \<Rightarrow> string list \<Rightarrow> 'w \<Rightarrow> ((string + string list) \<times> 'w) outcome" where
  "run_filters H [] filtered w = Returns (Inr filtered, w)"
| "run_filters H (p # ps) filtered w =
     (if filtered = [] then Panic
      else case plugin_Execute H p
             (zero_context\<lparr>pc_URL := hd filtered, pc_Config := [''urls'' \<mapsto> joinURLs filtered]\<rparr>) w of (r, input', w') \<Rightarrow>
        (case r of
           Inl e \<Rightarrow> Returns (Inl e, w')
         | Inr None \<Rightarrow> Panic
         | Inr (Some x) \<Rightarrow>
             run_filters H ps (if pr_FilteredURLs x \<noteq> [] then pr_FilteredURLs x else filtered) w'))"

definition ExecuteFilterPlugins where
  "ExecuteFilterPlugins H ord pm urls w = run_filters H (GetPluginsByType ord pm PluginTypeFilter) urls w"

fun run_enrichers ::
    "'w host \<Rightarrow> plugin list \<Rightarrow> (string \<rightharpoonup> any) \<Rightarrow> PluginContext \<Rightarrow> 'w
     \<Rightarrow> ((string \<rightharpoonup> any) \<times> PluginContext \<times> 'w) outcome" where
  "run_enrichers H [] enriched input w = Returns (enriched, input, w)"
| "run_enrichers H (p # ps) enriched input w =
     (case plugin_Execute H p input w of (r, input', w') \<Rightarrow>
        (case r of
           Inl e \<Rightarrow> run_enrichers H ps enriched input' w'
         | Inr None \<Rightarrow> Panic
         | Inr (Some x) \<Rightarrow> run_enrichers H ps (enriched ++ pr_Data x) input' w'))"

definition ExecuteEnricherPlugins where
  "ExecuteEnricherPlugins H ord pm input w =
     run_enrichers H (GetPluginsByType ord pm PluginTypeEnricher) Map.empty input w"

section \<open>The URL filter\<close>

lemma plugin_contains_iff [simp]: "plugin_contains s p = contains s p"
proof -
  have "(\<exists>i < length s + 1 - length p. take (length p) (drop i s) = p) \<longleftrightarrow> (\<exists>a b. s = a @ p @ b)"
  proof
    assume "\<exists>i < length s + 1 - length p. take (length p) (drop i s) = p"
    then obtain i where i: "take (length p) (drop i s) = p" by blast
    then have "s = take i s @ p @ drop (length p) (drop i s)" by (metis append_take_drop_id)
    then show "\<exists>a b. s = a @ p @ b" by blast
  next
    assume "\<exists>a b. s = a @ p @ b"
    then obtain a b where "s = a @ p @ b" by blast
    then show "\<exists>i < length s + 1 - length p. take (length p) (drop i s) = p"
      by (intro exI [of _ "length a"]) simp
  qed
  then show ?thesis by (auto simp: plugin_contains_def list_ex_iff contains_iff)
qed

lemma joinURLs_join: "joinURLs urls = join '','' urls"
proof -
  have "foldl (\<lambda>(i, result) u. (i + 1, (if 0 < i then result @ '','' else result) @ u)) (0 :: nat, []) us =
        (length us, join '','' us)" for us :: "string list"
    by (induction us rule: rev_induct) (auto simp: join_append)
  then show ?thesis by (simp add: joinURLs_def)
qed

lemma rune_bytes: "r \<in> set (runes s) \<Longrightarrow> r = rune_error \<or> set r \<subseteq> set s"
proof (induction s rule: runes.induct)
  case (2 a s)
  define n where "n = decode_len (a # s)"
  have "runes (a # s) = (if n = 0 then rune_error # runes s else take n (a # s) # runes (drop (n - 1) s))"
    by (simp add: n_def Let_def)
  with 2 n_def show ?case
    by (auto split: if_splits dest: in_set_takeD in_set_dropD)
qed simp

lemma split_no_comma: "CHR '','' \<notin> set s \<Longrightarrow> foldl split_step (result, current) (runes s) = (result, current @ to_valid s)"
proof -
  assume no: "CHR '','' \<notin> set s"
  have ne: "r \<noteq> '',''" if "r \<in> set (runes s)" for r
    using rune_bytes [OF that] no by (auto simp: rune_error_def char_of_def)
  have "\<forall>r \<in> set rs. r \<noteq> '','' \<Longrightarrow> foldl split_step (result, c) rs = (result, c @ concat rs)" for rs c
    by (induction rs arbitrary: c) (auto simp: split_step_def)
  with ne show ?thesis by (simp add: to_valid_def)
qed

text \<open>The pieces between the commas that are not empty, with bytes that are no UTF-8 replaced.\<close>

lemma splitURLs_pieces: "splitURLs s = filter (\<lambda>u. u \<noteq> []) (map to_valid (split_byte CHR '','' s))"
proof -
  let ?finish = "\<lambda>(result, current). if current \<noteq> [] then result @ [current] else (result :: string list)"
  have "?finish (foldl split_step (result, []) (runes s)) = result @ filter (\<lambda>u. u \<noteq> []) (map to_valid (split_byte CHR '','' s))"
    for result
  proof (induction s arbitrary: result rule: length_induct)
    case (1 s)
    show ?case
    proof (cases "CHR '','' \<in> set s")
      case False
      then show ?thesis by (simp add: split_no_comma split_byte_notin)
    next
      case True
      then obtain a b where s: "s = a @ CHR '','' # b" and a: "CHR '','' \<notin> set a" by (meson split_list_first)
      have "runes s = runes a @ '','' # runes b" unfolding s by (subst runes_append) simp_all
      moreover have "split_step (result, to_valid a) '','' = (if a = [] then result else result @ [to_valid a], [])"
        by (simp add: split_step_def)
      ultimately show ?thesis
        using 1 s split_no_comma [OF a] split_byte_append_sep [OF a, of b] by simp
    qed
  qed
  from this [of "[]"] show ?thesis by (simp add: splitURLs_def)
qed

definition plain_url :: "string \<Rightarrow> bool" where
  "plain_url u \<longleftrightarrow> u \<noteq> [] \<and> CHR '','' \<notin> set u \<and> to_valid u = u"

lemma splitURLs_joinURLs: "list_all plain_url urls \<Longrightarrow> splitURLs (joinURLs urls) = urls"
proof (cases "urls = []")
  case False
  assume "list_all plain_url urls"
  then have u: "u \<in> set urls \<Longrightarrow> plain_url u" for u by (simp add: list_all_iff)
  then have "split_byte CHR '','' (joinURLs urls) = urls"
    using False by (simp add: joinURLs_join split_byte_join plain_url_def)
  moreover have "map to_valid urls = urls" "filter (\<lambda>u. u \<noteq> []) urls = urls"
    using u by (simp_all add: plain_url_def map_idI filter_id_conv)
  ultimately show ?thesis by (simp add: splitURLs_pieces)
qed (simp add: splitURLs_pieces joinURLs_def)

text \<open>Whatever the plugins are: a filter cannot reject every URL.\<close>

lemma run_filters_nonempty: "run_filters H ps urls w = Returns (Inr us, w') \<Longrightarrow> urls \<noteq> [] \<Longrightarrow> us \<noteq> []"
  by (induction H ps urls w rule: run_filters.induct)
     (auto split: prod.splits sum.splits option.splits if_splits)

text \<open>The example filter drops the URLs that contain "admin" or "login" and keeps the others in their order, unless it
  would drop all of them: then it keeps them all, those it is meant to reject included.
\<close>

theorem url_filter_cannot_reject_all:
  assumes only: "GetPluginsByType ord pm PluginTypeFilter = [ExampleFilterPlugin n]"
    and urls: "urls \<noteq> []" "list_all plain_url urls"
  shows "ExecuteFilterPlugins H ord pm urls w =
           (let kept = filter (\<lambda>u. \<not> contains u ''admin'' \<and> \<not> contains u ''login'') urls
            in Returns (Inr (if kept = [] then urls else kept), w))"
  using urls only by (simp add: ExecuteFilterPlugins_def filter_Execute_def splitURLs_joinURLs zero_result_def Let_def)

theorem ExecuteFilterPlugins_keeps_one:
  "ExecuteFilterPlugins H ord pm urls w = Returns (Inr us, w') \<Longrightarrow> urls \<noteq> [] \<Longrightarrow> us \<noteq> []"
  unfolding ExecuteFilterPlugins_def by (rule run_filters_nonempty)

theorem no_url_panics:
  "GetPluginsByType ord pm PluginTypeFilter \<noteq> [] \<Longrightarrow> ExecuteFilterPlugins H ord pm [] w = Panic"
  by (cases "GetPluginsByType ord pm PluginTypeFilter") (simp_all add: ExecuteFilterPlugins_def)

theorem comma_splits_url:
  "splitURLs (joinURLs [''https://h/a,b'']) = [''https://h/a'', ''b'']"
  by (simp add: splitURLs_pieces joinURLs_def to_valid_def decode_len.simps)

section \<open>The word count\<close>

definition blank_byte :: "char \<Rightarrow> bool" where
  "blank_byte c \<longleftrightarrow> c = CHR '' '' \<or> c = CHR 0x0A \<or> c = CHR 0x09"

definition byte_step :: "nat \<times> bool \<Rightarrow> char \<Rightarrow> nat \<times> bool" where
  "byte_step st c = word_step st [c]"

lemma byte_step_pair:
  "byte_step (k, b) c = (if blank_byte c then (k, False) else (if b then k else k + 1, True))"
  by (auto simp: byte_step_def word_step_def blank_byte_def)

definition word_starts :: "string \<Rightarrow> nat set" where
  "word_starts s = {i. i < length s \<and> \<not> blank_byte (s ! i) \<and> (i = 0 \<or> blank_byte (s ! (i - 1)))}"

lemma high_not_blank: "128 \<le> (byte_of c :: nat) \<Longrightarrow> \<not> blank_byte c"
  by (auto simp: blank_byte_def)

lemma byte_steps_high:
  "bs \<noteq> [] \<Longrightarrow> \<forall>c \<in> set bs. \<not> blank_byte c \<Longrightarrow> foldl byte_step (k, b) bs = (if b then k else k + 1, True)"
  proof (induction bs arbitrary: k b)
  case (Cons c bs)
  then show ?case by (cases "bs = []") (simp_all add: byte_step_pair)
qed simp

lemma bytes_within_high: "bytes_within s rs \<Longrightarrow> \<forall>r \<in> set rs. 128 \<le> fst r \<Longrightarrow> c \<in> set (take (length rs) s) \<Longrightarrow> 128 \<le> (byte_of c :: nat)"
  by (induction s rs rule: bytes_within.induct) auto

lemma decode_len_cases:
  obtains "decode_len (a # s) = 0" "128 \<le> (byte_of a :: nat)"
  | "decode_len (a # s) = 1" "(byte_of a :: nat) < 128"
  | n where "decode_len (a # s) = Suc (Suc n)" "\<forall>c \<in> set (take (Suc (Suc n)) (a # s)). 128 \<le> (byte_of c :: nat)"
proof (cases "(byte_of a :: nat) < 128")
  case True
  with that(2) show ?thesis using decode_len_ascii by blast
next
  case False
  then have a: "128 \<le> (byte_of a :: nat)" by simp
  show ?thesis
  proof (cases "decode_len (a # s)")
    case 0
    with a that(1) show ?thesis by blast
  next
    case (Suc n)
    then obtain rs where rs: "tail_ranges (byte_of a) = Some rs" "bytes_within s rs" "n = length rs"
      by (auto simp: decode_len.simps split: option.splits if_splits simp del: tail_ranges.simps)
    have "rs \<noteq> []" using rs(1) a by (auto split: if_splits)
    then obtain m where m: "n = Suc m" using rs(3) by (metis length_0_conv not0_implies_Suc)
    have "\<forall>c \<in> set (take n s). 128 \<le> (byte_of c :: nat)"
      using bytes_within_high [OF rs(2)] tail_ranges_high [OF rs(1)] rs(3) by blast
    with a m Suc that(3) [of m] show ?thesis by simp
  qed
qed

lemma word_step_high:
  assumes nb: "\<forall>c \<in> set bs. \<not> blank_byte c" and ne: "bs \<noteq> []"
  shows "word_step (k, b) bs = foldl byte_step (k, b) bs"
proof -
  have "bs \<noteq> [c]" if "blank_byte c" for c using nb that by (metis list.set_intros(1))
  then have "bs \<noteq> '' ''" "bs \<noteq> [CHR 0x0A]" "bs \<noteq> [CHR 0x09]" by (simp_all add: blank_byte_def)
  then have "word_step (k, b) bs = (if b then k else k + 1, True)" by (simp add: word_step_def)
  then show ?thesis using byte_steps_high [OF ne nb] by metis
qed

lemma word_steps_bytes: "foldl word_step st (runes s) = foldl byte_step st s"
proof (induction s arbitrary: st rule: runes.induct)
  case (2 a s)
  obtain k b where st: "st = (k, b)" by (cases st)
  show ?case
  proof (rule decode_len_cases [of a s])
    assume 1: "decode_len (a # s) = 0" "128 \<le> (byte_of a :: nat)"
    have "word_step st rune_error = byte_step st a"
      using high_not_blank [OF 1(2)] unfolding st byte_step_pair by (simp add: word_step_def rune_error_def)
    with 1 2 show ?thesis by simp
  next
    assume 1: "decode_len (a # s) = 1"
    then show ?thesis using \<open>\<And>st. _ \<Longrightarrow> _ \<Longrightarrow> foldl word_step st (runes (drop _ s)) = _\<close> [OF refl]
      by (simp add: byte_step_def)
  next
    fix n
    assume 3: "decode_len (a # s) = Suc (Suc n)" "\<forall>c \<in> set (take (Suc (Suc n)) (a # s)). 128 \<le> (byte_of c :: nat)"
    have nb: "\<forall>c \<in> set (take (Suc (Suc n)) (a # s)). \<not> blank_byte c" using 3(2) high_not_blank by blast
    have "word_step st (take (Suc (Suc n)) (a # s)) = foldl byte_step st (take (Suc (Suc n)) (a # s))"
      unfolding st by (rule word_step_high [OF nb]) simp
    moreover have "foldl word_step x (runes (drop (Suc n) s)) = foldl byte_step x (drop (Suc n) s)" for x
      using 2(2) [OF refl, of x] 3(1) by simp
    moreover have "runes (a # s) = take (Suc (Suc n)) (a # s) # runes (drop (Suc n) s)"
      using 3(1) by (simp add: Let_def)
    moreover have "foldl byte_step st (a # s) = foldl byte_step (foldl byte_step st (take (Suc (Suc n)) (a # s))) (drop (Suc n) s)"
      by (metis append_take_drop_id drop_Suc_Cons foldl_append)
    ultimately show ?thesis by simp
  qed
qed simp

lemma word_starts_snoc:
  "s \<noteq> [] \<Longrightarrow> word_starts (s @ [c]) =
     word_starts s \<union> (if \<not> blank_byte c \<and> blank_byte (last s) then {length s} else {})"
  unfolding last_conv_nth by (auto simp: word_starts_def nth_append less_Suc_eq last_conv_nth)

lemma word_starts_single: "word_starts [c] = (if blank_byte c then {} else {0})"
  by (auto simp: word_starts_def)

lemma finite_word_starts: "finite (word_starts s)" "length s \<notin> word_starts s"
  by (auto simp: word_starts_def)

lemma byte_steps_count:
  "foldl byte_step (0, False) s = (card (word_starts s), s \<noteq> [] \<and> \<not> blank_byte (last s))"
proof (induction s rule: rev_induct)
  case Nil
  then show ?case by (simp add: word_starts_def)
next
  case (snoc c s)
  have "card (word_starts []) = 0" by (simp add: word_starts_def)
  with snoc show ?case
    by (cases "s = []") (auto simp: word_starts_snoc word_starts_single finite_word_starts byte_step_pair)
qed

text \<open>The built-in extractor counts the words of a page: one for each byte that is not a space, a newline or a tab and
  is the first of the page or follows one of these, whatever the encoding of the page.
\<close>

theorem word_count_counts_words: "pr_Data (extractor_Execute input) ''word_count'' = Some (AnyInt (int (card (word_starts (pc_HTML input)))))"
  by (simp add: extractor_Execute_def count_words_def word_steps_bytes byte_steps_count)

section \<open>Running plugins\<close>

text \<open>The plugins of this program: they leave their input alone and always answer.\<close>

fun in_tree :: "plugin \<Rightarrow> bool" where
  "in_tree (NativePlugin n t i) = False"
| "in_tree (GoPlugin p) = in_tree p"
| "in_tree _ = True"

lemma in_tree_Execute:
  "in_tree p \<Longrightarrow> \<exists>r. plugin_Execute H p input w = (Inr (Some r), input, w) \<and> pr_TransformedHTML r = []"
  by (induction p)
     (auto simp: wasm_Execute_def extractor_Execute_def enricher_Execute_def filter_Execute_def zero_result_def
       split: option.splits)

theorem in_tree_plugins_transform_nothing:
  "list_all in_tree ps \<Longrightarrow> \<exists>input'. run_transformers H ps html input w = Returns (Inr html, input', w)"
proof (induction ps arbitrary: input)
  case (Cons p ps)
  then obtain r where "plugin_Execute H p (input\<lparr>pc_HTML := html\<rparr>) w = (Inr (Some r), input\<lparr>pc_HTML := html\<rparr>, w)"
      "pr_TransformedHTML r = []"
    using in_tree_Execute [of p H "input\<lparr>pc_HTML := html\<rparr>" w] by auto
  with Cons show ?case by simp
qed simp

lemma length_run_extractors: "length (fst (run_extractors H ps input w)) = length ps"
  by (induction H ps input w rule: run_extractors.induct) (auto split: prod.splits)

theorem one_result_per_extractor:
  "length (fst (ExecuteExtractorPlugins H ord pm input w)) = length (GetPluginsByType ord pm PluginTypeExtractor)"
  by (simp add: ExecuteExtractorPlugins_def length_run_extractors)

section \<open>The registry\<close>

datatype pm_op = OpLoad string | OpLoadDir | OpRegister plugin | OpClose "string list"

fun pm_step :: "'w host \<Rightarrow> pm_op \<Rightarrow> plugin_manager \<times> 'w \<Rightarrow> (plugin_manager \<times> 'w) outcome" where
  "pm_step H (OpLoad path) (pm, w) = outcome_bind (LoadPlugin H path pm w) (\<lambda>x. Returns (snd x))"
| "pm_step H OpLoadDir (pm, w) = outcome_bind (LoadPluginsFromDir H pm w) (\<lambda>x. Returns (snd x))"
| "pm_step H (OpRegister p) (pm, w) = Returns (snd (RegisterGoPlugin H p pm w))"
| "pm_step H (OpClose ord) (pm, w) = Returns (snd (plugins_Close H ord pm w))"

fun pm_run :: "'w host \<Rightarrow> pm_op list \<Rightarrow> plugin_manager \<times> 'w \<Rightarrow> (plugin_manager \<times> 'w) outcome" where
  "pm_run H [] st = Returns st"
| "pm_run H (op # ops) st = outcome_bind (pm_step H op st) (pm_run H ops)"

text \<open>What an operation does to the registry: it keeps every name, and every plugin stands under its own name.\<close>

definition pm_grows :: "plugin_manager \<Rightarrow> plugin_manager \<Rightarrow> bool" where
  "pm_grows pm pm' \<longleftrightarrow> dom (pm_plugins pm) \<subseteq> dom (pm_plugins pm') \<and>
     ((\<forall>k p. pm_plugins pm k = Some p \<longrightarrow> plugin_Name p = k) \<longrightarrow>
      (\<forall>k p. pm_plugins pm' k = Some p \<longrightarrow> plugin_Name p = k))"

lemma pm_grows_refl [simp]: "pm_grows pm pm"
  by (simp add: pm_grows_def)

lemma pm_grows_trans: "pm_grows pm pm' \<Longrightarrow> pm_grows pm' pm'' \<Longrightarrow> pm_grows pm pm''"
  unfolding pm_grows_def by (elim conjE, intro conjI) (erule (1) subset_trans, blast)

lemma pm_grows_put [simp]: "pm_grows pm (put_plugin p pm)"
  by (auto simp: pm_grows_def put_plugin_def)

lemma plugin_Name_Init: "plugin_Init H c p w = (e, q, v) \<Longrightarrow> plugin_Name q = plugin_Name p"
  by (induction p arbitrary: e q v) (auto split: prod.splits)

lemma instantiate_grows: "pm_grows pm (fst (snd (instantiate_plugin H mf wasmData pm w)))"
  by (auto simp: instantiate_plugin_def split: prod.splits sum.splits)

lemma instantiate_growsD: "instantiate_plugin H mf wasmData pm w = (e, pm', w') \<Longrightarrow> pm_grows pm pm'"
  using instantiate_grows [of pm H mf wasmData w] by simp

lemma LoadPlugin_grows: "LoadPlugin H path pm w = Returns (e, pm', w') \<Longrightarrow> pm_grows pm pm'"
  by (auto simp: LoadPlugin_def dest: instantiate_growsD split: if_splits sum.splits)

lemma load_entries_grows: "load_entries H es pm w = Returns (e, pm', w') \<Longrightarrow> pm_grows pm pm'"
proof (induction H es pm w rule: load_entries.induct)
  case (2 H name isDir es pm w)
  show ?case
  proof (cases "isDir \<or> filepath_Ext name \<noteq> ''.wasm''")
    case True
    with 2 show ?thesis by simp
  next
    case False
    with 2(3) obtain err pm1 w1 where l: "LoadPlugin H (filepath_Join [pm_pluginDir pm, name]) pm w = Returns (err, pm1, w1)"
      and r: "(case err of Some e \<Rightarrow> Returns (Some (''failed to load plugin '' @ name @ '': '' @ e), pm1, w1)
         | None \<Rightarrow> load_entries H es pm1 w1) = Returns (e, pm', w')"
      by (auto simp: outcome_bind_Returns_iff)
    have "pm_grows pm1 pm'" using r 2(2) [OF False] by (cases err) auto
    with LoadPlugin_grows [OF l] show ?thesis by (rule pm_grows_trans)
  qed
qed simp

lemma LoadPluginsFromDir_grows: "LoadPluginsFromDir H pm w = Returns (e, pm', w') \<Longrightarrow> pm_grows pm pm'"
  by (auto simp: LoadPluginsFromDir_def dest: load_entries_grows split: sum.splits)

lemma RegisterGoPlugin_grows: "RegisterGoPlugin H p pm w = (e, pm', w') \<Longrightarrow> pm_grows pm pm'"
  by (auto simp: RegisterGoPlugin_def split: if_splits prod.splits)

lemma pm_step_grows:
  assumes step: "pm_step H op (pm, w) = Returns (pm', w')"
  shows "pm_grows pm pm'"
proof (cases op)
  case (OpLoad path)
  then obtain e where "LoadPlugin H path pm w = Returns (e, pm', w')"
    using step by (auto simp: outcome_bind_Returns_iff)
  then show ?thesis by (rule LoadPlugin_grows)
next
  case OpLoadDir
  then obtain e where "LoadPluginsFromDir H pm w = Returns (e, pm', w')"
    using step by (auto simp: outcome_bind_Returns_iff)
  then show ?thesis by (rule LoadPluginsFromDir_grows)
next
  case (OpRegister p)
  then obtain e where "RegisterGoPlugin H p pm w = (e, pm', w')"
    using step by (cases "RegisterGoPlugin H p pm w") simp
  then show ?thesis by (rule RegisterGoPlugin_grows)
next
  case (OpClose ord)
  then have "pm' = pm" using step by (simp add: plugins_Close_def split: prod.splits)
  then show ?thesis by simp
qed

lemma pm_run_grows: "pm_run H ops (pm, w) = Returns (pm', w') \<Longrightarrow> pm_grows pm pm'"
proof (induction ops arbitrary: pm w)
  case (Cons op ops)
  from Cons.prems obtain st where st: "pm_step H op (pm, w) = Returns st" "pm_run H ops st = Returns (pm', w')"
    unfolding pm_run.simps outcome_bind_Returns_iff by blast
  obtain pm1 w1 where "st = (pm1, w1)" by (cases st)
  with st pm_step_grows [of H op pm w pm1 w1] Cons.IH [of pm1 w1] show ?case by (simp add: pm_grows_trans)
qed simp

text \<open>The registry of plugins only grows: whatever is loaded, registered or closed, a name that was found is found
  later, and what is found under a name is a plugin with that name. So a plugin registered once blocks its name for
  ever, closed or not.
\<close>

theorem plugin_names_are_taken_for_ever:
  assumes before: "pm_run H ops (NewPluginManager dir, w) = Returns (pm, v)" and later: "pm_run H more_ops (pm, v) = Returns (pm', v')"
    and found: "GetPlugin pm name = Some p"
  shows "(\<exists>q. GetPlugin pm' name = Some q \<and> plugin_Name q = name) \<and>
         RegisterGoPlugin H p pm' v' = (Some (''plugin '' @ name @ '' already registered''), pm', v')"
proof -
  have g: "pm_grows (NewPluginManager dir) pm" "pm_grows pm pm'"
    by (rule pm_run_grows [OF before], rule pm_run_grows [OF later])
  then have n: "plugin_Name p = name" using found by (auto simp: pm_grows_def NewPluginManager_def GetPlugin_def)
  from g have q: "\<exists>q. GetPlugin pm' name = Some q \<and> plugin_Name q = name"
    using found by (auto simp: pm_grows_def NewPluginManager_def GetPlugin_def dom_def)
  then show ?thesis using n by (auto simp: RegisterGoPlugin_def GetPlugin_def)
qed

text \<open>A plugin whose \<open>Init\<close> fails is registered all the same.\<close>

theorem failed_Init_stays_registered:
  "pm_plugins pm (plugin_Name p) = None \<Longrightarrow> plugin_Init H Map.empty p w = (Some e, q, v) \<Longrightarrow>
   RegisterGoPlugin H p pm w = (Some e, put_plugin q pm, v) \<and> GetPlugin (put_plugin q pm) (plugin_Name p) = Some q"
  using plugin_Name_Init [of H Map.empty p w] by (simp add: RegisterGoPlugin_def put_plugin_def GetPlugin_def)

lemma length_join_last: "length x \<le> length (join sep (xs @ [x]))"
  by (cases "xs = []") (simp_all add: join_append)

lemma length_Clean_last: "plain_comp name \<Longrightarrow> length name \<le> length (filepath_Clean (dir @ CHR ''/'' # name))"
  by (simp add: filepath_Clean_def path_of_def clean_comps_def split_byte_append split_byte_notin plain_comp_def
        clean_step_def length_join_last le_SucI)

lemma length_Join_last: "plain_comp name \<Longrightarrow> length name \<le> length (filepath_Join [dir, name])"
proof (cases "dir = []")
  case True
  assume p: "plain_comp name"
  then have "filepath_Clean name = name"
    by (auto simp: filepath_Clean_def path_of_def clean_comps_def split_byte_notin plain_comp_def clean_step_def has_prefix_Cons1
        split: if_splits)
  then show ?thesis using p True by (simp add: filepath_Join_def plain_comp_def)
next
  case False
  assume "plain_comp name"
  then show ?thesis using False length_Clean_last [of name dir] by (simp add: filepath_Join_def)
qed

lemma Ext_length: "length (filepath_Ext p) \<le> length p"
proof -
  have "length (drop i b) \<le> length p" if "length b \<le> length p" for i :: nat and b :: string using that by simp
  then show ?thesis by (auto simp: filepath_Ext_def Let_def split: option.splits)
qed

theorem LoadPluginsFromDir_returns:
  assumes names: "\<And>entries. h_read_dir H (pm_pluginDir pm) w = Inr entries \<Longrightarrow> \<forall>(n, d) \<in> set entries. plain_comp n"
  shows "LoadPluginsFromDir H pm w \<noteq> Panic"
proof -
  have "load_entries H es pm0 w0 \<noteq> Panic" if "\<forall>(n, d) \<in> set es. plain_comp n" for es pm0 w0
    using that
  proof (induction H es pm0 w0 rule: load_entries.induct)
    case (2 H name isDir es pm w)
    have "LoadPlugin H (filepath_Join [pm_pluginDir pm, name]) pm w \<noteq> Panic" if "filepath_Ext name = ''.wasm''"
      using length_Join_last [of name "pm_pluginDir pm"] Ext_length [of name] that 2(3)
      by (auto simp: LoadPlugin_def)
    with 2 show ?case by (auto simp: outcome_bind_Panic_iff split: option.splits)
  qed simp
  with names show ?thesis by (auto simp: LoadPluginsFromDir_def split: sum.splits)
qed

theorem short_path_panics: "LoadPlugin H ''wasm'' pm w = Panic"
  by (simp add: LoadPlugin_def)

section \<open>Instances\<close>

definition demo_host :: "unit host" where
  "demo_host = \<lparr>h_marshal = (\<lambda>_. None), h_exported = (\<lambda>_ _ _. True), h_execute = (\<lambda>_ c _. (Inl [], c, ())),
     h_init = (\<lambda>_ _ _. (None, ())), h_cleanup = (\<lambda>_ _. ()), h_close_instance = (\<lambda>_ _. ()), h_close_runtime = (\<lambda>_. (None, ())),
     h_read_file = (\<lambda>_ _. Inl []), h_read_dir = (\<lambda>_ _. Inr []), h_unmarshal = (\<lambda>_. Inl []), h_compile = (\<lambda>_ _. (Inl [], ())),
     h_instantiate = (\<lambda>_ _ _. (Inl [], ()))\<rparr>"

definition demo_manager :: plugin_manager where
  "demo_manager = put_plugin NewExampleFilterPlugin (NewPluginManager ''plugins'')"

lemma demo_filters: "GetPluginsByType [''example-filter''] demo_manager PluginTypeFilter = [ExampleFilterPlugin ''example-filter'']"
  by (simp add: GetPluginsByType_def ranged_plugins_def map_filter_simps demo_manager_def put_plugin_def NewExampleFilterPlugin_def NewPluginManager_def)

theorem url_filter_cannot_reject_all_witness:
  "ExecuteFilterPlugins demo_host [''example-filter''] demo_manager [''/admin'', ''/login''] () = Returns (Inr [''/admin'', ''/login''], ())"
proof -
  have u: "list_all plain_url [''/admin'', ''/login'']" by (simp add: plain_url_def to_valid_def decode_len.simps)
  have c: "contains ''/admin'' ''admin''" "contains ''/login'' ''login''" by (simp_all add: contains_def)
  show ?thesis using url_filter_cannot_reject_all [OF demo_filters _ u, of demo_host "()"] c by simp
qed

theorem plugin_names_are_taken_for_ever_witness:
  "RegisterGoPlugin demo_host (ExampleFilterPlugin ''example-filter'') demo_manager () =
     (Some ''plugin example-filter already registered'', demo_manager, ())"
proof -
  have b: "pm_run demo_host [OpRegister NewExampleFilterPlugin] (NewPluginManager ''plugins'', ()) = Returns (demo_manager, ())"
    by (simp add: RegisterGoPlugin_def NewPluginManager_def NewExampleFilterPlugin_def demo_manager_def)
  have l: "pm_run demo_host [OpClose [''example-filter'']] (demo_manager, ()) = Returns (demo_manager, ())"
    by (simp add: plugins_Close_def demo_host_def)
  have f: "GetPlugin demo_manager ''example-filter'' = Some (ExampleFilterPlugin ''example-filter'')"
    by (simp add: GetPlugin_def demo_manager_def put_plugin_def NewExampleFilterPlugin_def)
  show ?thesis using plugin_names_are_taken_for_ever [OF b l f] by simp
qed

end
