(* ===== verification/PageRewriter.thy ===== *)
theory PageRewriter
  imports Repair GoRegexp "HOL-Library.AList"
begin

text \<open>
  Rewriting the pages and style sheets of a crawl, \<open>internal/rewrite\<close>: rewriter.go, html.go, attr_rewrite.go, attrs.go,
  css.go, extract.go and \<open>batchReplace\<close> of singlefile.go. \<open>ResolveURL\<close> is in theory \<open>Repair\<close>, the walk over imported
  sheets in \<open>CssRefs\<close>. The tokens of the HTML tokenizer are an argument, each with the bytes it was read from. A map is
  the list of its entries; the order in which Go ranges over it may be another each time, so it is an argument as well,
  a function of the entries. Expressions and \<open>EqualFold\<close> are read on bytes; logging is left out.
\<close>

section \<open>Replacing many texts at once\<close>

text \<open>
  \<open>strings.NewReplacer\<close>: at each place the first pair whose old text stands there is taken; an empty old text is not
  taken twice in a row.
\<close>

type_synonym url_map = "(string \<times> string) list"

definition replacer_lookup :: "url_map \<Rightarrow> bool \<Rightarrow> string \<Rightarrow> (string \<times> string) option" where
  "replacer_lookup pairs prevEmpty s = find (\<lambda>(old, new). has_prefix s old \<and> \<not> (prevEmpty \<and> old = [])) pairs"

lemma replacer_lookup_Some:
  "replacer_lookup pairs prevEmpty s = Some (old, new) \<Longrightarrow> (old, new) \<in> set pairs \<and> has_prefix s old \<and> \<not> (prevEmpty \<and> old = [])"
  unfolding replacer_lookup_def by (auto simp: find_Some_iff dest: nth_mem)

function replacer_go :: "url_map \<Rightarrow> bool \<Rightarrow> string \<Rightarrow> string" where
  "replacer_go pairs prevEmpty s =
     (case replacer_lookup pairs prevEmpty s of
        Some (old, new) \<Rightarrow>
          if old = [] then new @ replacer_go pairs True s
          else new @ replacer_go pairs False (drop (length old) s)
      | None \<Rightarrow> (case s of [] \<Rightarrow> [] | c # s' \<Rightarrow> c # replacer_go pairs False s'))"
  by pat_completeness auto
termination
  by (relation "measure (\<lambda>(pairs, prevEmpty, s). 2 * length s + (if prevEmpty then 0 else 1))")
     (auto dest!: replacer_lookup_Some simp: has_prefix_iff neq_Nil_conv)

declare replacer_go.simps [simp del]

definition batchReplace :: "string \<Rightarrow> url_map \<Rightarrow> string" where
  "batchReplace input pairs = replacer_go pairs False input"

section \<open>Expressions and attributes\<close>

definition dq :: char where "dq = CHR 0x22"

definition opt :: "re \<Rightarrow> re" where
  "opt r = Alt r Eps"

definition url_byte :: "char \<Rightarrow> bool" where
  "url_byte c \<longleftrightarrow> \<not> quote_mark c \<and> c \<noteq> CHR '')''"

definition url_body :: re where
  "url_body = Seq (Alt (Seq (Cls (\<lambda>c. c = CHR 0x5C)) (Cls (\<lambda>c. c \<noteq> newline))) (Cls url_byte)) (Escs url_byte)"

definition cssURLPattern :: re where
  "cssURLPattern =
     seqs [lit ''url('', Many re_space, opt (Cls quote_mark), Cap 1 url_body, opt (Cls quote_mark), Many re_space, lit '')'']"

definition cssImportPattern :: re where
  "cssImportPattern =
     seqs [lit ''@import'', some_of re_space, opt (lit ''url(''), Many re_space, opt (Cls quote_mark), Cap 1 url_body,
           opt (Cls quote_mark), Many re_space, opt (lit '')''), lit '';'']"

definition fontFaceBlock :: re where
  "fontFaceBlock = seqs [lit ''@font-face'', Many re_space, lit ''{'', Many (\<lambda>c. c \<noteq> CHR ''}''), lit ''}'']"

definition srcValuePattern :: re where
  "srcValuePattern = seqs [lit ''src:'', Many re_space, Cap 1 (some_of (\<lambda>c. c \<noteq> CHR '';'')), lit '';'']"

text \<open>The dot of \<open>./\<close> is not escaped in the expression: it stands for any byte but a newline.\<close>

definition quoted_url :: "char \<Rightarrow> nat \<Rightarrow> re" where
  "quoted_url q i =
     seqs [Cls (\<lambda>c. c = q),
           Cap i (alts [seqs [opt (seqs [lit ''http'', opt (lit ''s''), lit '':'']), lit ''//'', some_of (\<lambda>c. c \<noteq> q)],
                        seqs [lit ''/'', some_of (\<lambda>c. c \<noteq> q)],
                        seqs [alts [lit ''../'', seqs [Cls (\<lambda>c. c \<noteq> newline), lit ''/'']], some_of (\<lambda>c. c \<noteq> q)]]),
           Cls (\<lambda>c. c = q)]"

definition scriptURLPattern :: re where
  "scriptURLPattern = alts [quoted_url dq 1, quoted_url CHR 0x27 2]"

definition urlAttrs :: "string list" where
  "urlAttrs = [''href'', ''src'', ''action'', ''poster'']"

definition dataURLAttrs :: "string list" where
  "dataURLAttrs =
     [''data-src'', ''data-srcset'', ''data-lazy-src'', ''data-original'', ''data-image'', ''data-bg'', ''data-background'',
      ''data-href'', ''data-url'', ''data-srcpath'', ''data-request'', ''data-endpoint'', ''data-lazy'', ''data-delayed-url'',
      ''data-settings'']"

definition isURLAttr :: "string \<Rightarrow> bool" where
  "isURLAttr key \<longleftrightarrow> key \<in> set urlAttrs \<or> key \<in> set dataURLAttrs"

definition trim_quotes :: "string \<Rightarrow> string" where
  "trim_quotes = trim_by (\<lambda>c. quote_mark c \<or> c = CHR '' '')"

definition replace_first :: "string \<Rightarrow> string \<Rightarrow> string \<Rightarrow> string" where
  "replace_first s old new = (case index_of s old of None \<Rightarrow> s | Some i \<Rightarrow> take i s @ new @ drop (i + length old) s)"

section \<open>The rewriter\<close>

record site_rewriter =
  sr_urlToLocal :: url_map
  sr_absoluteToRel :: url_map
  sr_cssFiles :: "string list"
  sr_baseURL :: string

definition NewSiteRewriter :: site_rewriter where
  "NewSiteRewriter = \<lparr>sr_urlToLocal = [], sr_absoluteToRel = [], sr_cssFiles = [], sr_baseURL = []\<rparr>"

definition SetBaseURL :: "string \<Rightarrow> site_rewriter \<Rightarrow> site_rewriter" where
  "SetBaseURL baseURL r = r\<lparr>sr_baseURL := baseURL\<rparr>"

definition AddMapping :: "string \<Rightarrow> string \<Rightarrow> site_rewriter \<Rightarrow> site_rewriter" where
  "AddMapping originalURL localPath r =
     (let r1 = r\<lparr>sr_urlToLocal := AList.update originalURL localPath (sr_urlToLocal r)\<rparr>
      in if has_suffix localPath ''.css'' then r1\<lparr>sr_cssFiles := List.insert localPath (sr_cssFiles r1)\<rparr> else r1)"

definition AddAbsoluteToRelMapping :: "string \<Rightarrow> string \<Rightarrow> site_rewriter \<Rightarrow> site_rewriter" where
  "AddAbsoluteToRelMapping absoluteURL relativePath r =
     r\<lparr>sr_absoluteToRel := AList.update absoluteURL relativePath (sr_absoluteToRel r)\<rparr>"

definition GetCSSFiles :: "site_rewriter \<Rightarrow> string list" where
  "GetCSSFiles r = sr_cssFiles r"

definition GetMappings :: "site_rewriter \<Rightarrow> url_map" where
  "GetMappings r = sr_urlToLocal r"

definition GetAbsoluteToRel :: "site_rewriter \<Rightarrow> url_map" where
  "GetAbsoluteToRel r = sr_absoluteToRel r"

text \<open>What the functions that rewrite one page are given.\<close>

record page_env =
  pe_htmlDir :: string
  pe_baseURL :: string
  pe_mappings :: url_map
  pe_pathCache :: url_map
  pe_absRelCache :: url_map

definition rel_or_local :: "string \<Rightarrow> string \<Rightarrow> string" where
  "rel_or_local dir localPath = (case filepath_Rel dir localPath of Some rel \<Rightarrow> rel | None \<Rightarrow> localPath)"

definition cache_lookup :: "page_env \<Rightarrow> string \<Rightarrow> string option" where
  "cache_lookup e u = (case map_of (pe_pathCache e) u of Some r \<Rightarrow> Some r | None \<Rightarrow> map_of (pe_absRelCache e) u)"

text \<open>The second attempt: the reference is resolved first, unless it is absolute.\<close>

definition resolved_lookup :: "page_env \<Rightarrow> string \<Rightarrow> string option" where
  "resolved_lookup e u =
     (if pe_baseURL e \<noteq> [] \<and> \<not> has_http u \<and> \<not> has_prefix u ''data:'' then
        let resolved = ResolveURL (pe_baseURL e) u
        in if resolved \<noteq> [] \<and> resolved \<noteq> u then cache_lookup e resolved else None
      else None)"

definition ref_lookup :: "page_env \<Rightarrow> string \<Rightarrow> string option" where
  "ref_lookup e u = (case cache_lookup e u of Some r \<Rightarrow> Some r | None \<Rightarrow> resolved_lookup e u)"

subsection \<open>attr_rewrite.go\<close>

definition script_match :: "page_env \<Rightarrow> string \<Rightarrow> captures \<Rightarrow> string" where
  "script_match e m g =
     (let urlStr = (if group g 1 \<noteq> [] then group g 1 else group g 2); quote = take 1 urlStr;
          found = (if urlStr = [] then None
                   else if has_http urlStr then cache_lookup e urlStr
                   else if pe_baseURL e \<noteq> [] then cache_lookup e (ResolveURL (pe_baseURL e) urlStr)
                   else None)
      in case found of Some rel \<Rightarrow> quote @ rel @ quote | None \<Rightarrow> m)"

definition css_match :: "page_env \<Rightarrow> string \<Rightarrow> captures \<Rightarrow> string" where
  "css_match e m g =
     (case ref_lookup e (trim_quotes (trim_space (group g 1))) of
        Some rel \<Rightarrow> replace_first m (group g 1) rel
      | None \<Rightarrow> m)"

definition rewriteScriptStyleURLs :: "(url_map \<Rightarrow> url_map) \<Rightarrow> page_env \<Rightarrow> string \<Rightarrow> string" where
  "rewriteScriptStyleURLs rng e text =
     (let pairs = rng (pe_absRelCache e) @ rng (pe_pathCache e);
          result = (if pairs \<noteq> [] then batchReplace text pairs else text)
      in replace_fun cssURLPattern (css_match e) (replace_fun scriptURLPattern (script_match e) result))"

definition containsURL :: "url_map \<Rightarrow> string \<Rightarrow> bool" where
  "containsURL mappings val \<longleftrightarrow> list_ex (\<lambda>(u, p). contains val u) mappings"

definition srcset_entry :: "page_env \<Rightarrow> string \<Rightarrow> string option" where
  "srcset_entry e p =
     (let part = trim_space p; urlPart = hd (split_byte CHR '' '' part)
      in if urlPart = [] then None else map_option (\<lambda>rel. rel @ trim_prefix part urlPart) (ref_lookup e urlPart))"

definition rewriteSrcsetVal :: "page_env \<Rightarrow> string \<Rightarrow> string option" where
  "rewriteSrcsetVal e val =
     (let parts = split_byte CHR '','' val
      in if list_all (\<lambda>p. srcset_entry e p = None) parts then None
         else Some (join '', '' (map (\<lambda>p. case srcset_entry e p of Some t \<Rightarrow> t | None \<Rightarrow> p) parts)))"

definition rewriteAttrVal :: "page_env \<Rightarrow> string \<Rightarrow> string option" where
  "rewriteAttrVal e val =
     (if val = [] \<or> list_ex (has_prefix val) [''#'', ''javascript:'', ''mailto:'', ''tel:'', ''data:''] then None
      else if contains val '','' \<and> (containsURL (pe_mappings e) val \<or> containsURL (pe_absRelCache e) val)
      then rewriteSrcsetVal e val
      else case (if has_http val then cache_lookup e val else None) of
             Some rel \<Rightarrow> Some rel
           | None \<Rightarrow>
               if pe_baseURL e \<noteq> [] then
                 let resolved = ResolveURL (pe_baseURL e) val
                 in if resolved \<noteq> [] \<and> resolved \<noteq> val then cache_lookup e resolved else None
               else None)"

text \<open>A reference in a style attribute; the local path of a mapping comes first.\<close>

definition style_lookup :: "page_env \<Rightarrow> string \<Rightarrow> string option" where
  "style_lookup e u =
     (case map_of (pe_mappings e) u of
        Some localPath \<Rightarrow> Some (rel_or_local (pe_htmlDir e) localPath)
      | None \<Rightarrow> ref_lookup e u)"

definition inline_match :: "page_env \<Rightarrow> (string \<Rightarrow> string) \<Rightarrow> string \<Rightarrow> captures \<Rightarrow> string" where
  "inline_match e trim m g =
     (case style_lookup e (trim (group g 1)) of Some rel \<Rightarrow> replace_first m (group g 1) rel | None \<Rightarrow> m)"

definition rewriteInlineCSSURLs :: "page_env \<Rightarrow> string \<Rightarrow> string" where
  "rewriteInlineCSSURLs e styleVal =
     replace_fun cssImportPattern (inline_match e trim_quotes)
       (replace_fun cssURLPattern (inline_match e (\<lambda>s. trim_quotes (trim_space s))) styleVal)"

text \<open>\<open>sortedURLs\<close> are keys of the cache.\<close>

definition replaceQuotedURLs :: "string \<Rightarrow> string list \<Rightarrow> url_map \<Rightarrow> string" where
  "replaceQuotedURLs input sortedURLs pathCache =
     batchReplace input
       (concat (map (\<lambda>u. let rel = (case map_of pathCache u of Some r \<Rightarrow> r | None \<Rightarrow> [])
                         in map (\<lambda>q. (q # u @ [q], q # rel @ [q])) [dq, CHR 0x27, CHR 0x60]) sortedURLs))"

definition replaceAbsoluteURLs :: "(url_map \<Rightarrow> url_map) \<Rightarrow> string \<Rightarrow> url_map \<Rightarrow> string" where
  "replaceAbsoluteURLs rng input absRelCache = batchReplace input (rng absRelCache)"

subsection \<open>html.go\<close>

text \<open>A token with the bytes it was read from; names and keys in lower case, values and text with entities replaced.\<close>

datatype raw_token =
    StartTok string string "(string \<times> string) list"
  | SelfTok string string "(string \<times> string) list"
  | EndTok string string
  | TextTok string string
  | OtherTok string

fun token_raw :: "raw_token \<Rightarrow> string" where
  "token_raw (StartTok raw name attrs) = raw"
| "token_raw (SelfTok raw name attrs) = raw"
| "token_raw (EndTok raw name) = raw"
| "token_raw (TextTok raw text) = raw"
| "token_raw (OtherTok raw) = raw"

definition EscapeString :: "string \<Rightarrow> string" where
  "EscapeString s =
     concat (map (\<lambda>c. if c = CHR ''&'' then ''&amp;'' else if c = CHR 0x27 then ''&#39;'' else if c = CHR ''<'' then ''&lt;''
                      else if c = CHR ''>'' then ''&gt;'' else if c = dq then ''&#34;'' else [c]) s)"

definition writeAttr :: "string \<times> string \<Rightarrow> string" where
  "writeAttr kv = '' '' @ fst kv @ [CHR ''='', dq] @ EscapeString (snd kv) @ [dq]"

text \<open>The last rewrite of a key counts, for all attributes with that key.\<close>

definition writeTag :: "string \<Rightarrow> (string \<times> string) list \<Rightarrow> (string \<times> string) list \<Rightarrow> bool \<Rightarrow> string" where
  "writeTag tagName attrs rewrites selfClosing =
     ''<'' @ tagName @
     concat (map (\<lambda>(k, v). writeAttr (k, case map_of (rev rewrites) k of Some newVal \<Rightarrow> newVal | None \<Rightarrow> v)) attrs) @
     (if selfClosing then ''/>'' else ''>'')"

definition csp_name :: "string \<Rightarrow> bool" where
  "csp_name v \<longleftrightarrow> to_lower v = ''content-security-policy''"

definition open_policy :: string where
  "open_policy = ''default-src * 'unsafe-inline' 'unsafe-eval' data: blob:;''"

definition attr_rewrites :: "page_env \<Rightarrow> string \<Rightarrow> bool \<Rightarrow> string \<times> string \<Rightarrow> (string \<times> string) list" where
  "attr_rewrites e name isCSPMeta kv =
     (case kv of (key, val) \<Rightarrow>
        (if key = ''integrity'' then [(key, [])]
         else if isCSPMeta \<and> key = ''content'' \<and> to_lower name = ''meta'' then [(key, open_policy)]
         else if key = ''http-equiv'' \<and> csp_name val then [(key, ''Content-Security-Policy'')]
         else if isURLAttr key then (case rewriteAttrVal e val of Some newVal \<Rightarrow> [(key, newVal)] | None \<Rightarrow> [])
         else []) @
        (if key = ''style'' \<and> rewriteInlineCSSURLs e val \<noteq> val then [(key, rewriteInlineCSSURLs e val)] else []))"

definition tag_rewrites :: "page_env \<Rightarrow> string \<Rightarrow> (string \<times> string) list \<Rightarrow> (string \<times> string) list" where
  "tag_rewrites e name attrs =
     concat (map (attr_rewrites e name (list_ex (\<lambda>(key, val). key = ''http-equiv'' \<and> csp_name val) attrs)) attrs)"

text \<open>\<open>n\<close> counts the texts, for the order in which the maps are ranged over.\<close>

fun rewriteHTMLTokens :: "(nat \<Rightarrow> url_map \<Rightarrow> url_map) \<Rightarrow> page_env \<Rightarrow> nat \<Rightarrow> bool \<Rightarrow> raw_token list \<Rightarrow> string" where
  "rewriteHTMLTokens rng e n inScriptOrStyle [] = []"
| "rewriteHTMLTokens rng e n inScriptOrStyle (StartTok raw name attrs # ts) =
     writeTag name attrs (tag_rewrites e name attrs) False @
     rewriteHTMLTokens rng e n (inScriptOrStyle \<or> name = ''script'' \<or> name = ''style'') ts"
| "rewriteHTMLTokens rng e n inScriptOrStyle (SelfTok raw name attrs # ts) =
     (if tag_rewrites e name attrs = [] then raw else writeTag name attrs (tag_rewrites e name attrs) True) @
     rewriteHTMLTokens rng e n inScriptOrStyle ts"
| "rewriteHTMLTokens rng e n inScriptOrStyle (EndTok raw name # ts) =
     raw @ rewriteHTMLTokens rng e n (inScriptOrStyle \<and> \<not> (name = ''script'' \<or> name = ''style'')) ts"
| "rewriteHTMLTokens rng e n inScriptOrStyle (TextTok raw text # ts) =
     (if inScriptOrStyle then raw else rewriteScriptStyleURLs (rng n) e text) @
     rewriteHTMLTokens rng e (Suc n) inScriptOrStyle ts"
| "rewriteHTMLTokens rng e n inScriptOrStyle (OtherTok raw # ts) =
     raw @ rewriteHTMLTokens rng e n inScriptOrStyle ts"

fun base_token :: "raw_token \<Rightarrow> string" where
  "base_token (StartTok raw name attrs) = (if name = ''base'' then writeTag name attrs [(''href'', ''.'')] False else raw)"
| "base_token (SelfTok raw name attrs) = (if name = ''base'' then writeTag name attrs [(''href'', ''.'')] True else raw)"
| "base_token t = token_raw t"

definition rewriteBaseTag :: "(string \<Rightarrow> raw_token list) \<Rightarrow> string \<Rightarrow> string" where
  "rewriteBaseTag tokenize htmlContent =
     (let buf = concat (map base_token (tokenize htmlContent)) in if buf = [] then htmlContent else buf)"

text \<open>\<open>bytes.LastIndex\<close> as the text before and from the last occurrence on.\<close>

fun split_last :: "string \<Rightarrow> string \<Rightarrow> (string \<times> string) option" where
  "split_last [] p = (if p = [] then Some ([], []) else None)"
| "split_last (c # s) p =
     (case split_last s p of
        Some (a, b) \<Rightarrow> Some (c # a, b)
      | None \<Rightarrow> if has_prefix (c # s) p then Some ([], c # s) else None)"

definition replay_src :: string where
  "replay_src = ''src='' @ [dq] @ ''ws-replay.js'' @ [dq]"

definition replay_script :: string where
  "replay_script = ''<script '' @ replay_src @ ''></script>''"

definition injectWSReplayScript :: "string \<Rightarrow> string" where
  "injectWSReplayScript html =
     (if contains html replay_src then html
      else case split_last html ''</body>'' of
             Some (a, b) \<Rightarrow> a @ replay_script @ b
           | None \<Rightarrow> (case split_last html ''</html>'' of Some (a, b) \<Rightarrow> a @ replay_script @ b | None \<Rightarrow> html))"

definition page_env_of :: "site_rewriter \<Rightarrow> string \<Rightarrow> page_env" where
  "page_env_of r htmlDir =
     \<lparr>pe_htmlDir = htmlDir, pe_baseURL = sr_baseURL r, pe_mappings = sr_urlToLocal r,
      pe_pathCache = map (\<lambda>(origURL, localPath). (origURL, rel_or_local htmlDir localPath)) (sr_urlToLocal r),
      pe_absRelCache = sr_absoluteToRel r\<rparr>"

definition longest_first :: "url_map \<Rightarrow> string list" where
  "longest_first mappings = sort_key (\<lambda>u. - int (length u)) (map fst mappings)"

definition RewriteHTML :: "(nat \<Rightarrow> url_map \<Rightarrow> url_map) \<Rightarrow> (string \<Rightarrow> raw_token list) \<Rightarrow> site_rewriter \<Rightarrow> string \<Rightarrow> string \<Rightarrow> string" where
  "RewriteHTML rng tokenize r htmlContent htmlLocalPath =
     (if sr_urlToLocal r = [] \<and> sr_absoluteToRel r = [] then injectWSReplayScript (rewriteBaseTag tokenize htmlContent)
      else
        let e = page_env_of r (filepath_Dir htmlLocalPath);
            sortedURLs = longest_first (rng 0 (sr_urlToLocal r));
            tokens = rewriteHTMLTokens rng e 2 False (tokenize htmlContent);
            quoted = replaceQuotedURLs tokens sortedURLs (pe_pathCache e);
            absolute = replaceAbsoluteURLs (rng 1) quoted (pe_absRelCache e)
        in injectWSReplayScript (rewriteBaseTag tokenize absolute))"

subsection \<open>css.go\<close>

definition sheet_match :: "site_rewriter \<Rightarrow> string \<Rightarrow> string \<Rightarrow> captures \<Rightarrow> string" where
  "sheet_match r cssDir m g =
     (case (index_byte m CHR ''('', index_byte m CHR '')'') of
        (Some start, Some end) \<Rightarrow>
          (let urlStr = trim_quotes (trim_space (take (end - (start + 1)) (drop (start + 1) m)));
               q = (if contains m [CHR 0x27] then CHR 0x27 else dq);
               found = (case map_of (sr_urlToLocal r) urlStr of
                          Some localPath \<Rightarrow> Some (rel_or_local cssDir localPath)
                        | None \<Rightarrow> map_of (sr_absoluteToRel r) urlStr)
           in case found of Some rel \<Rightarrow> ''url('' @ [q] @ rel @ [q] @ '')'' | None \<Rightarrow> m)
      | _ \<Rightarrow> m)"

definition import_match :: "site_rewriter \<Rightarrow> string \<Rightarrow> string \<Rightarrow> captures \<Rightarrow> string" where
  "import_match r cssDir m g =
     (let urlStr = trim_quotes (group g 1);
          found = (case map_of (sr_urlToLocal r) urlStr of
                     Some localPath \<Rightarrow> Some (rel_or_local cssDir localPath)
                   | None \<Rightarrow> map_of (sr_absoluteToRel r) urlStr)
      in case found of Some rel \<Rightarrow> replace_first m (group g 1) rel | None \<Rightarrow> m)"

text \<open>The walk over the imports at the end only reads files.\<close>

definition RewriteSheet :: "(url_map \<Rightarrow> url_map) \<Rightarrow> site_rewriter \<Rightarrow> string \<Rightarrow> string \<Rightarrow> string" where
  "RewriteSheet rng r css cssLocalPath =
     (let cssDir = filepath_Dir cssLocalPath;
          pairs = concat (map (\<lambda>u. let rel = rel_or_local cssDir (case map_of (sr_urlToLocal r) u of Some p \<Rightarrow> p | None \<Rightarrow> [])
                                   in map (\<lambda>q. (q # u @ [q], q # rel @ [q])) [dq, CHR 0x27]) (longest_first (rng (sr_urlToLocal r))));
          quoted = (if pairs \<noteq> [] then batchReplace css pairs else css)
      in replace_fun cssImportPattern (import_match r cssDir) (replace_fun cssURLPattern (sheet_match r cssDir) quoted))"

definition process_file ::
    "(string \<Rightarrow> nat \<Rightarrow> url_map \<Rightarrow> url_map) \<Rightarrow> (string \<Rightarrow> raw_token list) \<Rightarrow> (string \<Rightarrow> io_result) \<Rightarrow> site_rewriter \<Rightarrow> disk \<Rightarrow>
     string \<times> string \<Rightarrow> disk" where
  "process_file rng tokenize io r d pt =
     (case pt of (filePath, fileType) \<Rightarrow>
        (case d filePath of
           None \<Rightarrow> d
         | Some data \<Rightarrow>
             if fileType = ''html'' then snd (write_below (io filePath) filePath (RewriteHTML (rng filePath) tokenize r data filePath) d)
             else if fileType = ''css'' then snd (write_below (io filePath) filePath (RewriteSheet (rng filePath 0) r data filePath) d)
             else d))"

definition ProcessFiles where
  "ProcessFiles rng tokenize io r files d = foldl (process_file rng tokenize io r) d files"

subsection \<open>extract.go\<close>

definition isSameHost :: "go_url option \<Rightarrow> string \<Rightarrow> bool" where
  "isSameHost base rawURL =
     (case base of
        None \<Rightarrow> True
      | Some b \<Rightarrow> (case url_parse rawURL of None \<Rightarrow> False | Some p \<Rightarrow> hostname p = [] \<or> hostname p = hostname b))"

definition same_host_link :: "string \<Rightarrow> string \<Rightarrow> string list" where
  "same_host_link baseURL href =
     (let absURL = ResolveURL baseURL href in if absURL \<noteq> [] \<and> isSameHost (url_parse baseURL) absURL then [absURL] else [])"

definition srcset_links :: "string \<Rightarrow> string \<Rightarrow> string list" where
  "srcset_links baseURL val =
     concat (map (\<lambda>p. let urlPart = hd (split_byte CHR '' '' (trim_space p)) in if urlPart \<noteq> [] then same_host_link baseURL urlPart else [])
       (split_byte CHR '','' val))"

definition attr_links :: "string \<Rightarrow> string \<Rightarrow> string \<times> string \<Rightarrow> string list" where
  "attr_links baseURL tag kv =
     (case kv of (key, val) \<Rightarrow>
        let direct = (isURLAttr key \<and> \<not> has_prefix key ''data-srcset'');
            image = (tag \<in> set [''source'', ''img''] \<and> key \<in> set [''src'', ''data-src'', ''data-lazy-src'']);
            link = (if direct then val else if key \<in> set [''srcset'', ''data-srcset''] then [] else if image then val else [])
        in (if \<not> direct \<and> key \<in> set [''srcset'', ''data-srcset''] then srcset_links baseURL val else []) @
           (if link = [] \<or> list_ex (has_prefix link) [''#'', ''javascript:'', ''mailto:''] then [] else same_host_link baseURL link))"

fun token_links :: "string \<Rightarrow> raw_token \<Rightarrow> string list" where
  "token_links baseURL (StartTok raw name attrs) =
     (if name \<in> set [''script'', ''style''] then [] else concat (map (attr_links baseURL name) attrs))"
| "token_links baseURL (SelfTok raw name attrs) =
     (if name \<in> set [''script'', ''style''] then [] else concat (map (attr_links baseURL name) attrs))"
| "token_links baseURL t = []"

definition ExtractLinks :: "(string \<Rightarrow> raw_token list) \<Rightarrow> string \<Rightarrow> string \<Rightarrow> string list" where
  "ExtractLinks tokenize baseURL htmlContent = concat (map (token_links baseURL) (tokenize htmlContent))"

definition add_new :: "string list \<Rightarrow> string \<Rightarrow> string list" where
  "add_new urls u = (if u \<in> set urls then urls else urls @ [u])"

definition ExtractFontURLs :: "string \<Rightarrow> string list" where
  "ExtractFontURLs cssContent =
     foldl add_new []
       (concat (map (\<lambda>(block, g). case find_sub srcValuePattern block of
                        None \<Rightarrow> []
                      | Some sg \<Rightarrow> map (\<lambda>(m, ug). group ug 1) (find_all cssURLPattern (group sg 1)))
          (find_all fontFaceBlock cssContent)))"

definition ExtractAllCSSURLs :: "string \<Rightarrow> string list" where
  "ExtractAllCSSURLs cssContent =
     foldl (\<lambda>urls u. if has_prefix u ''data:'' then urls else add_new urls u) []
       (map (\<lambda>(m, g). group g 1) (find_all cssURLPattern cssContent))"

section \<open>Lemmas on replacing\<close>

lemma replacer_go_none:
  "(\<And>old new. (old, new) \<in> set pairs \<Longrightarrow> \<not> contains s old) \<Longrightarrow> replacer_go pairs prevEmpty s = s"
proof (induction s arbitrary: prevEmpty)
  case Nil
  then have "replacer_lookup pairs prevEmpty [] = None"
    by (auto simp: replacer_lookup_def find_None_iff contains_sublist has_prefix_iff)
  then show ?case by (simp add: replacer_go.simps)
next
  case (Cons c s)
  have "\<not> has_prefix (c # s) old" if "(old, new) \<in> set pairs" for old new
    using Cons.prems [OF that] by (auto simp: contains_def)
  then have "replacer_lookup pairs prevEmpty (c # s) = None"
    by (auto simp: replacer_lookup_def find_None_iff)
  moreover have "\<not> contains s old" if "(old, new) \<in> set pairs" for old new
    using Cons.prems [OF that] by (auto simp: contains_def split: if_splits)
  ultimately show ?case using Cons.IH by (subst replacer_go.simps) simp
qed

lemma batchReplace_none:
  "(\<And>old new. (old, new) \<in> set pairs \<Longrightarrow> \<not> contains s old) \<Longrightarrow> batchReplace s pairs = s"
  unfolding batchReplace_def by (rule replacer_go_none)

lemma replacer_go_single: "old \<noteq> [] \<Longrightarrow> replacer_go [(old, new)] prevEmpty s = replace_all s old new"
proof (induction s old new arbitrary: prevEmpty rule: replace_all.induct)
  case (1 old new)
  then show ?case by (simp add: replacer_go.simps replacer_lookup_def has_prefix_iff)
next
  case (2 c s old new)
  show ?case
  proof (cases "has_prefix (c # s) old")
    case True
    then show ?thesis using 2 by (subst replacer_go.simps) (simp add: replacer_lookup_def)
  next
    case False
    then show ?thesis using 2 by (subst replacer_go.simps) (simp add: replacer_lookup_def)
  qed
qed

theorem batchReplace_single: "old \<noteq> [] \<Longrightarrow> batchReplace s [(old, new)] = replace_all s old new"
  unfolding batchReplace_def by (rule replacer_go_single)

text \<open>When one URL begins another, the page depends on the order in which the map is ranged over.\<close>

theorem absolute_URLs_depend_on_order:
  defines "m \<equiv> [(''/a'', ''X''), (''/ab'', ''Y'')]"
  shows "replaceAbsoluteURLs (\<lambda>m. m) ''/ab'' m = ''Xb'' \<and> replaceAbsoluteURLs rev ''/ab'' m = ''Y''"
  by (simp add: m_def replaceAbsoluteURLs_def batchReplace_def replacer_go.simps replacer_lookup_def)

section \<open>Written tags\<close>

lemma EscapeString_simps [simp]: "EscapeString [] = []"
  "EscapeString (c # s) =
     (if c = CHR ''&'' then ''&amp;'' else if c = CHR 0x27 then ''&#39;'' else if c = CHR ''<'' then ''&lt;''
      else if c = CHR ''>'' then ''&gt;'' else if c = dq then ''&#34;'' else [c]) @ EscapeString s"
  by (simp_all add: EscapeString_def)

lemma EscapeString_bytes: "c \<in> set (EscapeString s) \<Longrightarrow> c \<notin> {dq, CHR 0x27, CHR ''<'', CHR ''>''}"
  by (induction s) (auto simp: dq_def split: if_splits)

lemma EscapeString_inject: "EscapeString s @ dq # r = EscapeString t @ dq # r' \<Longrightarrow> s = t \<and> r = r'"
proof (induction s arbitrary: t)
  case Nil
  then show ?case by (cases t) (auto simp: dq_def split: if_splits)
next
  case (Cons c s)
  then show ?case by (cases t) (auto simp: dq_def split: if_splits)
qed

lemma key_end: "CHR ''='' \<notin> set k \<Longrightarrow> CHR ''='' \<notin> set k' \<Longrightarrow> k @ CHR ''='' # r = k' @ CHR ''='' # r' \<Longrightarrow> k = k' \<and> r = r'"
  by (induction k arbitrary: k') (auto simp: Cons_eq_append_conv)

text \<open>
  What is written for a list of attributes determines the list, with the values as they were given: a value, whatever
  it is, does not end its attribute and does not start another one.
\<close>

theorem written_attributes_are_unambiguous:
  assumes keys: "\<And>k v. (k, v) \<in> set xs \<union> set ys \<Longrightarrow> CHR ''='' \<notin> set k"
    and eq: "concat (map writeAttr xs) @ ''>'' @ r = concat (map writeAttr ys) @ ''>'' @ r'"
  shows "xs = ys \<and> r = r'"
  using assms
proof (induction xs arbitrary: ys)
  case Nil
  then show ?case by (cases ys) (auto simp: writeAttr_def)
next
  case (Cons a xs)
  obtain k v where a: "a = (k, v)" by (cases a)
  show ?case
  proof (cases ys)
    case Nil
    then show ?thesis using Cons.prems by (simp add: writeAttr_def)
  next
    case (Cons b ys')
    obtain k' v' where b: "b = (k', v')" by (cases b)
    have "CHR ''='' \<notin> set k" "CHR ''='' \<notin> set k'" using Cons.prems(1) a b Cons by auto
    moreover have "k @ CHR ''='' # dq # EscapeString v @ dq # concat (map writeAttr xs) @ ''>'' @ r =
        k' @ CHR ''='' # dq # EscapeString v' @ dq # concat (map writeAttr ys') @ ''>'' @ r'"
      using Cons.prems(2) a b Cons by (simp add: writeAttr_def [of "(k, v)"] writeAttr_def [of "(k', v')"])
    ultimately have k: "k = k'" and "EscapeString v @ dq # concat (map writeAttr xs) @ ''>'' @ r =
        EscapeString v' @ dq # concat (map writeAttr ys') @ ''>'' @ r'" using key_end by blast+
    then have "v = v' \<and> concat (map writeAttr xs) @ ''>'' @ r = concat (map writeAttr ys') @ ''>'' @ r'"
      using EscapeString_inject by blast
    moreover have "\<And>k v. (k, v) \<in> set xs \<union> set ys' \<Longrightarrow> CHR ''='' \<notin> set k" using Cons.prems(1) Cons by auto
    ultimately show ?thesis using Cons.IH [of ys'] k a b Cons by simp
  qed
qed

section \<open>Where references lead\<close>

lemma page_env_of_simps [simp]:
  "pe_htmlDir (page_env_of r d) = d" "pe_baseURL (page_env_of r d) = sr_baseURL r" "pe_mappings (page_env_of r d) = sr_urlToLocal r"
  "pe_absRelCache (page_env_of r d) = sr_absoluteToRel r"
  by (simp_all add: page_env_of_def)

lemma pathCache_lookup: "map_of (pe_pathCache (page_env_of r d)) u = map_option (rel_or_local d) (map_of (sr_urlToLocal r) u)"
  by (simp add: page_env_of_def map_of_map)

lemma cache_lookup_page:
  "sr_absoluteToRel r = [] \<Longrightarrow> cache_lookup (page_env_of r d) u = map_option (rel_or_local d) (map_of (sr_urlToLocal r) u)"
  by (simp add: cache_lookup_def pathCache_lookup split: option.splits)

lemma Join_rel_or_local:
  "has_prefix d ''/'' \<Longrightarrow> has_prefix lp ''/'' \<Longrightarrow> filepath_Join [d, rel_or_local d lp] = filepath_Clean lp"
  using Rel_total [of d lp] Join_Rel [of d lp] by (auto simp: rel_or_local_def)

lemma Dir_rooted: "has_prefix p ''/'' \<Longrightarrow> has_prefix (filepath_Dir p) ''/''"
  by (cases p) (auto simp: filepath_Dir_def split: option.splits)


section \<open>Pages\<close>

text \<open>What is documented of the tokenizer: the bytes of its tokens are the page.\<close>

definition documented_tokenizer :: "(string \<Rightarrow> raw_token list) \<Rightarrow> bool" where
  "documented_tokenizer tokenize \<longleftrightarrow> (\<forall>html. concat (map token_raw (tokenize html)) = html)"

definition has_base_tag :: "raw_token list \<Rightarrow> bool" where
  "has_base_tag ts \<longleftrightarrow> list_ex (\<lambda>t. case t of StartTok raw name attrs \<Rightarrow> name = ''base'' | SelfTok raw name attrs \<Rightarrow> name = ''base'' | _ \<Rightarrow> False) ts"

lemma base_token_raw: "\<not> has_base_tag [t] \<Longrightarrow> base_token t = token_raw t"
  by (cases t) (auto simp: has_base_tag_def)

lemma rewriteBaseTag_none:
  "documented_tokenizer tokenize \<Longrightarrow> \<not> has_base_tag (tokenize html) \<Longrightarrow> rewriteBaseTag tokenize html = html"
proof -
  assume d: "documented_tokenizer tokenize" and n: "\<not> has_base_tag (tokenize html)"
  have "map base_token (tokenize html) = map token_raw (tokenize html)"
    using n base_token_raw by (intro map_cong) (auto simp: has_base_tag_def list_ex_iff)
  then show ?thesis using d by (simp only: rewriteBaseTag_def documented_tokenizer_def Let_def) simp
qed

lemma split_last_Some: "split_last s p = Some (a, b) \<Longrightarrow> s = a @ b \<and> has_prefix b p"
proof (induction s arbitrary: a b)
  case (Cons c s)
  then show ?case by (cases "split_last s p") (auto split: if_splits)
qed (auto split: if_splits)

lemma inject_cases: "injectWSReplayScript html = html \<or> contains (injectWSReplayScript html) replay_src"
proof -
  have "contains (a @ replay_script @ b) replay_src" for a b
    unfolding contains_iff replay_script_def
    by (intro exI [of _ "a @ ''<script ''"] exI [of _ "''></script>'' @ b"]) simp
  then show ?thesis by (auto simp: injectWSReplayScript_def split: option.splits)
qed

lemma inject_idem: "injectWSReplayScript (injectWSReplayScript html) = injectWSReplayScript html"
  using inject_cases [of html]
proof
  assume "contains (injectWSReplayScript html) replay_src"
  then show ?thesis by (simp add: injectWSReplayScript_def [of "injectWSReplayScript html"])
qed simp

text \<open>Without mappings, and if it has no \<open>base\<close> tag, a page only gets the script that replays web sockets, once.\<close>

theorem unmapped_page_gets_the_replay_script:
  assumes doc: "documented_tokenizer tokenize" and base: "\<not> has_base_tag (tokenize html)"
    and none: "sr_urlToLocal r = []" "sr_absoluteToRel r = []"
  shows "RewriteHTML rng tokenize r html path = injectWSReplayScript html \<and>
         injectWSReplayScript (injectWSReplayScript html) = injectWSReplayScript html"
  by (simp add: RewriteHTML_def none rewriteBaseTag_none [OF doc base] inject_idem)

text \<open>A text in which none of the expressions finds anything.\<close>

definition plain_text :: "string \<Rightarrow> bool" where
  "plain_text s \<longleftrightarrow> dq \<notin> set s \<and> CHR 0x27 \<notin> set s \<and> \<not> contains s ''url(''"

lemma runs_seqs_none: "runs r n s [] = [] \<Longrightarrow> runs (seqs (r # rs)) n s [] = []"
  by (simp add: runs_seqs_Cons)

lemma runs_scriptURL: "dq \<notin> set s \<Longrightarrow> CHR 0x27 \<notin> set s \<Longrightarrow> runs scriptURLPattern n s [] = []"
  by (cases s) (auto simp: scriptURLPattern_def quoted_url_def runs_seqs_Cons simp del: seqs.simps)

lemma runs_cssURL: "\<not> has_prefix s ''url('' \<Longrightarrow> runs cssURLPattern n s [] = []"
  unfolding cssURLPattern_def by (rule runs_seqs_none, subst runs_lit) simp

lemma replace_fun_none: "(\<And>a b. s = a @ b \<Longrightarrow> b \<noteq> [] \<Longrightarrow> runs r (length s) b [] = []) \<Longrightarrow> replace_fun r f s = s"
  using pieces_plain [of s r "length s" "[]"] concat_plain [of f s] by (simp add: replace_fun_def)

lemma replace_script_plain: "plain_text s \<Longrightarrow> replace_fun scriptURLPattern f s = s"
  by (rule replace_fun_none, rule runs_scriptURL) (auto simp: plain_text_def)

lemma replace_css_plain: "plain_text s \<Longrightarrow> replace_fun cssURLPattern f s = s"
  by (rule replace_fun_none, rule runs_cssURL) (auto simp: plain_text_def contains_iff has_prefix_iff)

text \<open>C36: The text of a page outside scripts and styles is written with its entities replaced: in place of the bytes of
  the page stands the text they mean, so what was escaped becomes markup.\<close>

theorem text_is_written_unescaped:
  assumes plain: "plain_text text"
    and none: "\<And>u p. (u, p) \<in> set (rng n (pe_absRelCache e)) \<union> set (rng n (pe_pathCache e)) \<Longrightarrow> \<not> contains text u"
  shows "rewriteHTMLTokens rng e n False [TextTok raw text] = text"
proof -
  have "batchReplace text (rng n (pe_absRelCache e) @ rng n (pe_pathCache e)) = text"
    by (rule batchReplace_none) (use none in auto)
  then show ?thesis by (simp add: rewriteScriptStyleURLs_def Let_def replace_script_plain replace_css_plain plain)
qed

theorem text_is_written_unescaped_witness:
  "rewriteHTMLTokens (\<lambda>n m. m) (page_env_of (AddMapping ''https://h/a'' ''/o/h/a'' NewSiteRewriter) ''/o/h'') 0 False
     [TextTok ''&lt;script&gt;'' ''<script>''] = ''<script>''"
proof (rule text_is_written_unescaped)
  show "plain_text ''<script>''" by (simp add: plain_text_def dq_def contains_def)
  fix u p
  assume "(u, p) \<in> set ((\<lambda>m. m) (pe_absRelCache (page_env_of (AddMapping ''https://h/a'' ''/o/h/a'' NewSiteRewriter) ''/o/h''))) \<union>
    set ((\<lambda>m. m) (pe_pathCache (page_env_of (AddMapping ''https://h/a'' ''/o/h/a'' NewSiteRewriter) ''/o/h'')))"
  then have "u = ''https://h/a''"
    by (simp add: page_env_of_def AddMapping_def NewSiteRewriter_def Let_def has_suffix_def)
  then show "\<not> contains ''<script>'' u" by (simp add: contains_def)
qed

text \<open>Scripts and styles keep their bytes.\<close>

theorem script_text_is_kept: "rewriteHTMLTokens rng e n True [TextTok raw text] = raw"
  by simp

section \<open>Attributes that would block a copy\<close>

lemma map_of_rev_all:
  "kv \<in> set xs \<Longrightarrow> fst kv = k \<Longrightarrow> (\<And>v. (k, v) \<in> set xs \<Longrightarrow> v = w) \<Longrightarrow> map_of (rev xs) k = Some w"
proof -
  assume kv: "kv \<in> set xs" "fst kv = k" and all: "\<And>v. (k, v) \<in> set xs \<Longrightarrow> v = w"
  have "map_of (rev xs) k \<noteq> None" using kv by (auto simp: map_of_eq_None_iff)
  then obtain v where v: "map_of (rev xs) k = Some v" by blast
  then have "(k, v) \<in> set xs" using map_of_SomeD by fastforce
  with all v show ?thesis by blast
qed

lemma key_of_branches:
  "(k, w) \<in> set ((if a then [(key, x)] else if b then [(key, y)] else if c then [(key, z)]
      else if d then (case r of Some n \<Rightarrow> [(key, n)] | None \<Rightarrow> []) else []) @ (if f then [(key, u)] else [])) \<Longrightarrow> k = key"
  by (cases a; cases b; cases c; cases d; cases r; cases f) auto

lemma attr_rewrites_key: "(k, w) \<in> set (attr_rewrites e name csp (key, v)) \<Longrightarrow> k = key"
  unfolding attr_rewrites_def prod.case by (erule key_of_branches)

lemma tag_rewrites_key:
  assumes "(k, w) \<in> set (tag_rewrites e name attrs)"
  obtains v where "(k, v) \<in> set attrs"
    "(k, w) \<in> set (attr_rewrites e name (list_ex (\<lambda>(key, val). key = ''http-equiv'' \<and> csp_name val) attrs) (k, v))"
proof -
  from assms obtain kv where kv: "kv \<in> set attrs"
      "(k, w) \<in> set (attr_rewrites e name (list_ex (\<lambda>(key, val). key = ''http-equiv'' \<and> csp_name val) attrs) kv)"
    unfolding tag_rewrites_def by auto
  obtain key v where "kv = (key, v)" by (cases kv)
  with kv attr_rewrites_key that show ?thesis by metis
qed

lemma tag_rewrites_mem:
  "(k, v) \<in> set attrs \<Longrightarrow>
   x \<in> set (attr_rewrites e name (list_ex (\<lambda>(key, val). key = ''http-equiv'' \<and> csp_name val) attrs) (k, v)) \<Longrightarrow>
   x \<in> set (tag_rewrites e name attrs)"
  unfolding tag_rewrites_def by auto

lemma attr_rewrites_integrity: "attr_rewrites e name csp (''integrity'', v) = [(''integrity'', [])]"
  by (simp add: attr_rewrites_def)

lemma attr_rewrites_policy: "to_lower name = ''meta'' \<Longrightarrow> attr_rewrites e name True (''content'', v) = [(''content'', open_policy)]"
  by (simp add: attr_rewrites_def)

text \<open>In a tag that is written, a checksum of the resource is emptied and the policy of a \<open>meta\<close> tag that sets a
  content security policy is replaced by one that allows everything; so neither keeps the browser from loading the
  rewritten files.\<close>

theorem checksums_and_policies_are_lifted:
  assumes attr: "(key, v) \<in> set attrs"
    and kind: "key = ''integrity'' \<or>
      key = ''content'' \<and> to_lower name = ''meta'' \<and> (\<exists>p. (''http-equiv'', p) \<in> set attrs \<and> csp_name p)"
  shows "map_of (rev (tag_rewrites e name attrs)) key = Some (if key = ''integrity'' then [] else open_policy)"
proof -
  let ?csp = "list_ex (\<lambda>(key, val). key = ''http-equiv'' \<and> csp_name val) attrs"
  let ?new = "if key = ''integrity'' then [] else open_policy"
  have csp: "key = ''integrity'' \<or> key = ''content'' \<and> to_lower name = ''meta'' \<and> ?csp"
    using kind by (auto simp: list_ex_iff)
  have one: "attr_rewrites e name ?csp (key, w) = [(key, ?new)]" for w
    using csp
  proof
    assume "key = ''content'' \<and> to_lower name = ''meta'' \<and> ?csp"
    then have k: "key = ''content''" "to_lower name = ''meta''" and c: "?csp = True" by simp_all
    show ?thesis unfolding c unfolding k(1) by (simp add: attr_rewrites_policy [OF k(2)])
  qed (simp add: attr_rewrites_integrity)
  show ?thesis
  proof (rule map_of_rev_all [of "(key, ?new)"])
    show "(key, ?new) \<in> set (tag_rewrites e name attrs)" using tag_rewrites_mem [OF attr] one by simp
    fix w assume "(key, w) \<in> set (tag_rewrites e name attrs)"
    then show "w = ?new" by (rule tag_rewrites_key) (simp add: one)
  qed simp
qed

text \<open>A \<open>srcset\<close> attribute is not among those whose URLs are rewritten.\<close>

theorem srcset_is_not_rewritten: "attr_rewrites e name csp (''srcset'', v) = []"
  by (simp add: attr_rewrites_def isURLAttr_def urlAttrs_def dataURLAttrs_def)

text \<open>What stands for the quotes around a URL in a text is the first byte of the URL.\<close>

theorem quoted_URL_loses_its_quotes:
  "script_match e m [(1, u)] = (if u = [] then m else if has_http u then
      (case cache_lookup e u of Some rel \<Rightarrow> hd u # rel @ [hd u] | None \<Rightarrow> m)
    else if pe_baseURL e \<noteq> [] then
      (case cache_lookup e (ResolveURL (pe_baseURL e) u) of Some rel \<Rightarrow> hd u # rel @ [hd u] | None \<Rightarrow> m)
    else m)"
  by (cases u) (auto simp: script_match_def group_def Let_def split: option.splits)

section \<open>Links and files\<close>

lemma same_host_link_iff: "l \<in> set (same_host_link baseURL href) \<Longrightarrow> l \<noteq> [] \<and> isSameHost (url_parse baseURL) l"
  by (auto simp: same_host_link_def Let_def split: if_splits)

lemma attr_links_same_host: "l \<in> set (attr_links baseURL tag kv) \<Longrightarrow> l \<noteq> [] \<and> isSameHost (url_parse baseURL) l"
  by (cases kv) (auto simp: attr_links_def srcset_links_def Let_def dest!: same_host_link_iff split: if_splits)

text \<open>Every extracted link is a URL on the host of the base, or has no host of its own.\<close>

theorem extracted_links_stay_on_host:
  assumes base: "url_parse baseURL = Some b" and l: "l \<in> set (ExtractLinks tokenize baseURL html)"
  shows "\<exists>p. url_parse l = Some p \<and> (hostname p = [] \<or> hostname p = hostname b)"
proof -
  have "\<exists>t. l \<in> set (token_links baseURL t)" using l by (auto simp: ExtractLinks_def)
  then obtain t where "l \<in> set (token_links baseURL t)" by blast
  then have "isSameHost (Some b) l" using attr_links_same_host [of l baseURL] base
    by (cases t) (fastforce split: if_splits)+
  then show ?thesis by (auto simp: isSameHost_def split: option.splits)
qed

lemma process_file_frame: "p \<noteq> fst pt \<or> snd pt \<notin> {''html'', ''css''} \<or> d p = None \<Longrightarrow> process_file rng tokenize io r d pt p = d p"
  by (cases pt) (auto simp: process_file_def write_below_def split: option.splits io_result.splits)

theorem ProcessFiles_frame:
  "p \<notin> fst ` {pt \<in> set files. snd pt \<in> {''html'', ''css''}} \<or> d p = None \<Longrightarrow> ProcessFiles rng tokenize io r files d p = d p"
proof (induction files arbitrary: d)
  case (Cons pt files)
  have h: "p \<noteq> fst pt \<or> snd pt \<notin> {''html'', ''css''} \<or> d p = None" using Cons.prems by auto
  have e: "process_file rng tokenize io r d pt p = d p" by (rule process_file_frame) (rule h)
  have "p \<notin> fst ` {pt \<in> set files. snd pt \<in> {''html'', ''css''}} \<or> process_file rng tokenize io r d pt p = None"
    using Cons.prems e by auto
  then have "ProcessFiles rng tokenize io r files (process_file rng tokenize io r d pt) p = process_file rng tokenize io r d pt p"
    by (rule Cons.IH)
  with e show ?case by (simp add: ProcessFiles_def)
qed (simp add: ProcessFiles_def)

text \<open>The style sheets the rewriter lists are files it was given.\<close>

definition css_listed :: "site_rewriter \<Rightarrow> bool" where
  "css_listed r \<longleftrightarrow> list_all (\<lambda>p. has_suffix p ''.css'') (sr_cssFiles r) \<and>
     (\<forall>u p. map_of (sr_urlToLocal r) u = Some p \<and> has_suffix p ''.css'' \<longrightarrow> p \<in> set (sr_cssFiles r))"

theorem AddMapping_lists_sheets [op_preserves]: "css_listed r \<Longrightarrow> css_listed (AddMapping u p r)"
  by (auto simp: css_listed_def AddMapping_def Let_def list_all_iff update_conv' split: if_splits)

section \<open>Instances\<close>

definition demo_site :: site_rewriter where
  "demo_site = AddMapping ''https://h/a'' ''/o/h/a/index.html'' NewSiteRewriter"

lemma demo_site_simps: "sr_urlToLocal demo_site = [(''https://h/a'', ''/o/h/a/index.html'')]" "sr_absoluteToRel demo_site = []"
  by (simp_all add: demo_site_def AddMapping_def NewSiteRewriter_def Let_def has_suffix_def)


theorem checksums_and_policies_are_lifted_witness:
  "map_of (rev (tag_rewrites e ''script'' [(''src'', ''a.js''), (''integrity'', ''sha256-x'')])) ''integrity'' = Some []"
  using checksums_and_policies_are_lifted [of "''integrity''" "''sha256-x''" "[(''src'', ''a.js''), (''integrity'', ''sha256-x'')]" "''script''" e] by simp

end
