(* ===== verification/ExchangeSort.thy ===== *)
theory ExchangeSort
  imports Main "HOL-Library.Multiset"
begin

text \<open>
  The sort the program writes out in several places: two nested loops over the indices that exchange two elements when
  the later one has the larger key. It sorts, the largest key first.
\<close>

definition exchange :: "('a \<Rightarrow> int) \<Rightarrow> nat \<Rightarrow> 'a list \<Rightarrow> nat \<Rightarrow> 'a list" where
  "exchange key i xs j = (if key (xs ! i) < key (xs ! j) then xs[i := xs ! j, j := xs ! i] else xs)"

definition exchange_sort :: "('a \<Rightarrow> int) \<Rightarrow> 'a list \<Rightarrow> 'a list" where
  "exchange_sort key xs = foldl (\<lambda>xs i. foldl (exchange key i) xs [i + 1..<length xs]) xs [0..<length xs]"

definition dominates :: "('a \<Rightarrow> int) \<Rightarrow> 'a list \<Rightarrow> nat \<Rightarrow> nat \<Rightarrow> bool" where
  "dominates key xs i m \<longleftrightarrow>
     (\<forall>a b. a < i \<longrightarrow> a < b \<longrightarrow> b < length xs \<longrightarrow> key (xs ! b) \<le> key (xs ! a)) \<and>
     (\<forall>b. i < b \<longrightarrow> b < m \<longrightarrow> key (xs ! b) \<le> key (xs ! i))"

lemma exchange_mset: "i < length xs \<Longrightarrow> j < length xs \<Longrightarrow> mset (exchange key i xs j) = mset xs"
  by (simp add: exchange_def mset_swap)

lemma length_exchange [simp]: "length (exchange key i xs j) = length xs"
  by (simp add: exchange_def)

lemma exchange_dominates:
  assumes d: "dominates key xs i j" and ij: "i < j" "j < length xs"
  shows "dominates key (exchange key i xs j) i (Suc j)"
proof (cases "key (xs ! i) < key (xs ! j)")
  case False
  have "key (xs ! b) \<le> key (xs ! i)" if "i < b" "b < Suc j" for b
    using d that False by (cases "b = j") (simp_all add: dominates_def)
  with d False show ?thesis by (simp add: exchange_def dominates_def)
next
  case True
  define ys where "ys = xs[i := xs ! j, j := xs ! i]"
  have ys: "ys ! b = (if b = j then xs ! i else if b = i then xs ! j else xs ! b)" if "b < length xs" for b
    using that ij by (simp add: ys_def nth_list_update)
  have above: "key (xs ! b) \<le> key (xs ! a)" if "a < i" "a < b" "b < length xs" for a b
    using d that by (simp add: dominates_def)
  have "key (ys ! b) \<le> key (ys ! a)" if "a < i" "a < b" "b < length xs" for a b
  proof -
    have "a < length xs" "a \<noteq> i" "a \<noteq> j" "i < length xs" using that ij by simp_all
    then show ?thesis using that ij above [of a b] above [of a i] above [of a j] by (simp add: ys)
  qed
  moreover have "key (ys ! b) \<le> key (ys ! i)" if "i < b" "b < Suc j" for b
  proof (cases "b = j")
    case False
    then have "key (xs ! b) \<le> key (xs ! i)" using d that by (simp add: dominates_def)
    then show ?thesis using that ij False True by (simp add: ys)
  qed (use ij True in \<open>simp add: ys\<close>)
  ultimately have "dominates key ys i (Suc j)" by (simp add: dominates_def ys_def)
  with True show ?thesis by (simp add: exchange_def ys_def)
qed

lemma inner_loop:
  "dominates key xs i (Suc i) \<Longrightarrow> i < length xs \<Longrightarrow> Suc i + k \<le> length xs \<Longrightarrow>
   mset (foldl (exchange key i) xs [Suc i..<Suc i + k]) = mset xs \<and>
   length (foldl (exchange key i) xs [Suc i..<Suc i + k]) = length xs \<and>
   dominates key (foldl (exchange key i) xs [Suc i..<Suc i + k]) i (Suc i + k)"
proof (induction k)
  case (Suc k)
  then have "mset (foldl (exchange key i) xs [Suc i..<Suc i + k]) = mset xs" "length (foldl (exchange key i) xs [Suc i..<Suc i + k]) = length xs"
      "dominates key (foldl (exchange key i) xs [Suc i..<Suc i + k]) i (Suc i + k)" by simp_all
  with Suc.prems show ?case by (simp add: exchange_mset exchange_dominates)
qed simp

lemma dominates_next: "dominates key xs i (length xs) \<Longrightarrow> i < length xs \<Longrightarrow> dominates key xs (Suc i) (Suc (Suc i))"
  unfolding dominates_def by (auto simp: less_Suc_eq)

lemma outer_loop:
  "k \<le> length xs \<Longrightarrow>
   let ys = foldl (\<lambda>xs i. foldl (exchange key i) xs [i + 1..<length xs]) xs [0..<k]
   in mset ys = mset xs \<and> length ys = length xs \<and> dominates key ys k (Suc k)"
proof (induction k)
  case 0
  then show ?case by (simp add: dominates_def)
next
  case (Suc k)
  define ys where "ys = foldl (\<lambda>xs i. foldl (exchange key i) xs [i + 1..<length xs]) xs [0..<k]"
  have ys: "mset ys = mset xs" "length ys = length xs" "dominates key ys k (Suc k)" using Suc by (simp_all add: ys_def Let_def)
  obtain j where j: "length ys = Suc k + j" using Suc.prems ys(2) by (metis le_Suc_ex)
  define zs where "zs = foldl (exchange key k) ys [k + 1..<length ys]"
  have "mset zs = mset ys \<and> length zs = length ys \<and> dominates key zs k (length ys)"
    using inner_loop [OF ys(3), of j] j by (simp add: zs_def)
  then have "mset zs = mset xs \<and> length zs = length xs \<and> dominates key zs (Suc k) (Suc (Suc k))"
    using ys j dominates_next [of key zs k] by simp
  moreover have "foldl (\<lambda>xs i. foldl (exchange key i) xs [i + 1..<length xs]) xs [0..<Suc k] = zs"
    by (simp add: zs_def ys_def)
  ultimately show ?case by (simp add: Let_def)
qed

lemma exchange_sort_sorts:
  "mset (exchange_sort key xs) = mset xs \<and> sorted_wrt (\<lambda>u v. key v \<le> key u) (exchange_sort key xs)"
proof -
  have "mset (exchange_sort key xs) = mset xs \<and> length (exchange_sort key xs) = length xs \<and> dominates key (exchange_sort key xs) (length xs) (Suc (length xs))"
    using outer_loop [of "length xs" xs key] by (simp add: exchange_sort_def Let_def)
  then show ?thesis by (auto simp: sorted_wrt_iff_nth_less dominates_def)
qed

end
