(* ===== verification/SingleFile.thy ===== *)
theory SingleFile
  imports PageRewriter ExchangeSort
begin

text \<open>
  Pages as single files, and the rewriter with caches: singlefile.go and optimized.go of \<open>internal/rewrite\<close>. A node of
  \<open>golang.org/x/net/html\<close> is a tree; parsing and rendering are arguments, the disk is a map of files. The walks over the
  tree go along the links between siblings, which a node loses when it is taken out.
\<close>

section \<open>Base64\<close>

definition b64_digit :: "nat \<Rightarrow> char" where
  "b64_digit n =
     (if n < 26 then char_of (65 + n) else if n < 52 then char_of (71 + n) else if n < 62 then char_of (n - 4)
      else if n = 62 then CHR ''+'' else CHR ''/'')"

fun base64 :: "string \<Rightarrow> string" where
  "base64 [] = []"
| "base64 [a] = [b64_digit (byte_of a div 4), b64_digit (byte_of a mod 4 * 16), CHR ''='', CHR ''='']"
| "base64 [a, b] =
     [b64_digit (byte_of a div 4), b64_digit (byte_of a mod 4 * 16 + byte_of b div 16), b64_digit (byte_of b mod 16 * 4), CHR ''='']"
| "base64 (a # b # c # s) =
     [b64_digit (byte_of a div 4), b64_digit (byte_of a mod 4 * 16 + byte_of b div 16),
      b64_digit (byte_of b mod 16 * 4 + byte_of c div 64), b64_digit (byte_of c mod 64)] @ base64 s"

section \<open>singlefile.go\<close>

datatype dom = Elem string "(string \<times> string) list" "dom list" | Txt string | Other "dom list"

text \<open>The value of an attribute: the last one with the key, empty if there is none.\<close>

definition attr_val :: "string \<Rightarrow> (string \<times> string) list \<Rightarrow> string" where
  "attr_val key attrs = (case map_of (rev attrs) key of Some v \<Rightarrow> v | None \<Rightarrow> [])"

definition last_index :: "string \<Rightarrow> (string \<times> string) list \<Rightarrow> nat" where
  "last_index key attrs = foldl (\<lambda>i j. if fst (attrs ! j) = key then j else i) 0 [0..<length attrs]"

text \<open>The sheet that is inlined in place of a node.\<close>

definition linked_sheet :: "disk \<Rightarrow> string \<Rightarrow> dom \<Rightarrow> string option" where
  "linked_sheet d htmlDir n =
     (case n of
        Elem tag attrs cs \<Rightarrow>
          if tag = ''link'' \<and> attr_val ''rel'' attrs = ''stylesheet'' \<and> attr_val ''href'' attrs \<noteq> []
          then d (filepath_Join [htmlDir, attr_val ''href'' attrs]) else None
      | _ \<Rightarrow> None)"

text \<open>A node that is replaced has no next sibling any more, so the walk over its siblings ends there.\<close>

fun inlineCSS_children :: "disk \<Rightarrow> string \<Rightarrow> dom list \<Rightarrow> dom list" where
  "inlineCSS_children d htmlDir [] = []"
| "inlineCSS_children d htmlDir (Elem tag attrs ns # cs) =
     (case linked_sheet d htmlDir (Elem tag attrs ns) of
        Some cssData \<Rightarrow> Elem ''style'' [] [Txt cssData] # cs
      | None \<Rightarrow> Elem tag attrs (inlineCSS_children d htmlDir ns) # inlineCSS_children d htmlDir cs)"
| "inlineCSS_children d htmlDir (Txt s # cs) = Txt s # inlineCSS_children d htmlDir cs"
| "inlineCSS_children d htmlDir (Other ns # cs) = Other (inlineCSS_children d htmlDir ns) # inlineCSS_children d htmlDir cs"

fun inlineCSS :: "disk \<Rightarrow> string \<Rightarrow> dom \<Rightarrow> dom" where
  "inlineCSS d htmlDir (Elem tag attrs ns) = Elem tag attrs (inlineCSS_children d htmlDir ns)"
| "inlineCSS d htmlDir (Txt s) = Txt s"
| "inlineCSS d htmlDir (Other ns) = Other (inlineCSS_children d htmlDir ns)"

lemma inlineCSS_children_Cons:
  "inlineCSS_children d htmlDir (c # cs) =
     (case linked_sheet d htmlDir c of
        Some cssData \<Rightarrow> Elem ''style'' [] [Txt cssData] # cs
      | None \<Rightarrow> inlineCSS d htmlDir c # inlineCSS_children d htmlDir cs)"
  by (cases c) (auto simp: linked_sheet_def split: option.splits)

definition script_source :: "disk \<Rightarrow> string \<Rightarrow> string \<Rightarrow> (string \<times> string) list \<Rightarrow> string option" where
  "script_source d htmlDir tag attrs =
     (let src = attr_val ''src'' attrs
      in if tag = ''script'' \<and> src \<noteq> [] \<and> \<not> has_prefix src ''data:'' then d (filepath_Join [htmlDir, src]) else None)"

definition without_attr :: "nat \<Rightarrow> (string \<times> string) list \<Rightarrow> (string \<times> string) list" where
  "without_attr i attrs = take i attrs @ drop (i + 1) attrs"

fun inlineJS :: "disk \<Rightarrow> string \<Rightarrow> dom \<Rightarrow> dom" where
  "inlineJS d htmlDir (Elem tag attrs cs) =
     (case script_source d htmlDir tag attrs of
        Some jsData \<Rightarrow> Elem tag (without_attr (last_index ''src'' attrs) attrs) (map (inlineJS d htmlDir) cs @ [Txt jsData])
      | None \<Rightarrow> Elem tag attrs (map (inlineJS d htmlDir) cs))"
| "inlineJS d htmlDir (Txt s) = Txt s"
| "inlineJS d htmlDir (Other cs) = Other (map (inlineJS d htmlDir) cs)"

definition image_type :: "string \<Rightarrow> string option" where
  "image_type ext =
     map_of [(''png'', ''png''), (''jpg'', ''jpeg''), (''jpeg'', ''jpeg''), (''gif'', ''gif''), (''svg'', ''svg+xml''),
             (''webp'', ''webp''), (''ico'', ''x-icon'')] ext"

definition image_source :: "disk \<Rightarrow> string \<Rightarrow> string \<Rightarrow> (string \<times> string) list \<Rightarrow> string option" where
  "image_source d htmlDir tag attrs =
     (let src = attr_val ''src'' attrs
      in if tag = ''img'' \<and> src \<noteq> [] \<and> \<not> has_prefix src ''data:'' \<and> \<not> has_prefix src ''http'' then
           (case d (filepath_Join [htmlDir, src]) of
              None \<Rightarrow> None
            | Some imgData \<Rightarrow>
                map_option (\<lambda>t. ''data:image/'' @ t @ '';base64,'' @ base64 imgData) (image_type (trim_prefix (filepath_Ext src) ''.'')))
         else None)"

fun inlineImages :: "disk \<Rightarrow> string \<Rightarrow> dom \<Rightarrow> dom" where
  "inlineImages d htmlDir (Elem tag attrs cs) =
     Elem tag
       (case image_source d htmlDir tag attrs of
          Some uri \<Rightarrow> attrs[last_index ''src'' attrs := (''src'', uri)]
        | None \<Rightarrow> attrs)
       (map (inlineImages d htmlDir) cs)"
| "inlineImages d htmlDir (Txt s) = Txt s"
| "inlineImages d htmlDir (Other cs) = Other (map (inlineImages d htmlDir) cs)"

definition GenerateSingleFileHTML ::
    "(nat \<Rightarrow> url_map \<Rightarrow> url_map) \<Rightarrow> (string \<Rightarrow> raw_token list) \<Rightarrow> (string \<Rightarrow> dom option) \<Rightarrow> (dom \<Rightarrow> string option) \<Rightarrow> disk \<Rightarrow>
     site_rewriter \<Rightarrow> string \<Rightarrow> string \<Rightarrow> string" where
  "GenerateSingleFileHTML rng tokenize parse render d r htmlContent htmlLocalPath =
     (let rewritten = RewriteHTML rng tokenize r htmlContent htmlLocalPath; htmlDir = filepath_Dir htmlLocalPath
      in case parse rewritten of
           None \<Rightarrow> rewritten
         | Some doc \<Rightarrow>
             (case render (inlineImages d htmlDir (inlineJS d htmlDir (inlineCSS d htmlDir doc))) of
                None \<Rightarrow> rewritten
              | Some out \<Rightarrow> out))"

section \<open>optimized.go\<close>

record url_matcher =
  um_pathCache :: url_map
  um_absRelCache :: url_map

definition NewURLMatcher :: url_matcher where
  "NewURLMatcher = \<lparr>um_pathCache = [], um_absRelCache = []\<rparr>"

definition SetMappings :: "url_map \<Rightarrow> url_map \<Rightarrow> url_matcher \<Rightarrow> url_matcher" where
  "SetMappings pathCache absRelCache m = m\<lparr>um_pathCache := pathCache, um_absRelCache := absRelCache\<rparr>"

definition RewriteHTMLFast :: "url_matcher \<Rightarrow> string \<Rightarrow> string \<Rightarrow> string \<Rightarrow> string" where
  "RewriteHTMLFast m htmlContent htmlDir baseURL = htmlContent"

definition RewriteCSSFast :: "url_matcher \<Rightarrow> string \<Rightarrow> string \<Rightarrow> string \<Rightarrow> string" where
  "RewriteCSSFast m cssContent htmlDir baseURL = cssContent"

record incremental_matcher =
  im_matcher :: url_matcher
  im_buffer :: string
  im_chunkSize :: int

definition NewIncrementalMatcher :: "url_matcher \<Rightarrow> int \<Rightarrow> incremental_matcher" where
  "NewIncrementalMatcher m chunkSize = \<lparr>im_matcher = m, im_buffer = [], im_chunkSize = chunkSize\<rparr>"

definition im_Reset :: "incremental_matcher \<Rightarrow> incremental_matcher" where
  "im_Reset im = im\<lparr>im_buffer := []\<rparr>"

definition im_Flush :: "incremental_matcher \<Rightarrow> incremental_matcher" where
  "im_Flush im = (if im_buffer im = [] then im else im\<lparr>im_buffer := RewriteHTMLFast (im_matcher im) (im_buffer im) [] []\<rparr>)"

definition im_Write :: "string \<Rightarrow> incremental_matcher \<Rightarrow> nat \<times> incremental_matcher" where
  "im_Write p im =
     (let im1 = im\<lparr>im_buffer := im_buffer im @ p\<rparr>
      in (length p, if im_chunkSize im1 \<le> int (length (im_buffer im1)) then im_Flush im1 else im1))"

definition im_Bytes :: "incremental_matcher \<Rightarrow> string \<times> incremental_matcher" where
  "im_Bytes im = (let im1 = (if im_buffer im \<noteq> [] then im_Flush im else im) in (im_buffer im1, im1))"

record precomputed =
  pr_Rewriter :: site_rewriter
  pr_matcher :: url_matcher
  pr_sortedURLs :: "string list"
  pr_pathCache :: url_map
  pr_absRelCache :: url_map
  pr_scriptsCached :: bool
  pr_stylesCached :: bool

definition NewPrecomputedRewriter :: "site_rewriter \<Rightarrow> precomputed" where
  "NewPrecomputedRewriter r =
     \<lparr>pr_Rewriter = r, pr_matcher = NewURLMatcher, pr_sortedURLs = [], pr_pathCache = [], pr_absRelCache = [],
      pr_scriptsCached = False, pr_stylesCached = False\<rparr>"

text \<open>The two loops that sort the URLs, the longest first.\<close>

definition sort_longest_first :: "string list \<Rightarrow> string list" where
  "sort_longest_first = exchange_sort (\<lambda>u. int (length u))"

definition precomputeScriptStyle :: "precomputed \<Rightarrow> precomputed" where
  "precomputeScriptStyle pr =
     (let n = length (pr_absRelCache pr) + length (pr_pathCache pr)
      in pr\<lparr>pr_scriptsCached := (0 < n), pr_stylesCached := (0 < n)\<rparr>)"

definition Precompute :: "(url_map \<Rightarrow> url_map) \<Rightarrow> string \<Rightarrow> string \<Rightarrow> precomputed \<Rightarrow> precomputed" where
  "Precompute rng htmlDir baseURL pr =
     (let mappings = sr_urlToLocal (pr_Rewriter pr);
          pathCache = map (\<lambda>(origURL, localPath). (origURL, rel_or_local htmlDir localPath)) mappings;
          absRelCache = sr_absoluteToRel (pr_Rewriter pr);
          pr1 = pr\<lparr>pr_pathCache := pathCache, pr_absRelCache := absRelCache,
                   pr_sortedURLs := sort_longest_first (map fst (rng mappings)),
                   pr_matcher := SetMappings pathCache absRelCache (pr_matcher pr)\<rparr>
      in precomputeScriptStyle pr1)"

definition RewriteHTMLOptimized where
  "RewriteHTMLOptimized rng tokenize pr htmlContent htmlLocalPath = RewriteHTML rng tokenize (pr_Rewriter pr) htmlContent htmlLocalPath"

definition RewriteCSSOptimized where
  "RewriteCSSOptimized rng pr cssContent cssLocalPath = RewriteSheet rng (pr_Rewriter pr) cssContent cssLocalPath"

record optimized_rewriter =
  or_precomputed :: precomputed
  or_streaming :: incremental_matcher

definition NewOptimizedRewriter :: "site_rewriter \<Rightarrow> optimized_rewriter" where
  "NewOptimizedRewriter r =
     (let pre = NewPrecomputedRewriter r
      in \<lparr>or_precomputed = pre, or_streaming = NewIncrementalMatcher (pr_matcher pre) (64 * 1024)\<rparr>)"

definition Initialize :: "(url_map \<Rightarrow> url_map) \<Rightarrow> string \<Rightarrow> string \<Rightarrow> optimized_rewriter \<Rightarrow> optimized_rewriter" where
  "Initialize rng htmlDir baseURL orw = orw\<lparr>or_precomputed := Precompute rng htmlDir baseURL (or_precomputed orw)\<rparr>"

definition StreamingRewrite :: "string \<Rightarrow> string \<Rightarrow> optimized_rewriter \<Rightarrow> string \<times> optimized_rewriter" where
  "StreamingRewrite htmlContent htmlLocalPath orw =
     (let (n, im) = im_Write htmlContent (im_Reset (or_streaming orw));
          (out, im1) = im_Bytes (im_Flush im)
      in (out, orw\<lparr>or_streaming := im1\<rparr>))"

section \<open>Style sheets\<close>

lemma inlineCSS_none: "list_all (\<lambda>c. linked_sheet d dir c = None) cs \<Longrightarrow> inlineCSS_children d dir (cs @ ds) = map (inlineCSS d dir) cs @ inlineCSS_children d dir ds"
  by (induction cs) (simp_all add: inlineCSS_children_Cons del: inlineCSS_children.simps(2-4))

text \<open>C37: Of the style sheets among the children of a node only the first that can be read is inlined: it becomes a
  \<open>style\<close> node, and what follows it stays as it is, the other links to style sheets and everything below included.\<close>

theorem only_first_sheet_is_inlined:
  assumes before: "list_all (\<lambda>c. linked_sheet d dir c = None) cs" and first: "linked_sheet d dir l = Some cssData"
  shows "inlineCSS_children d dir (cs @ l # ds) = map (inlineCSS d dir) cs @ Elem ''style'' [] [Txt cssData] # ds"
  by (simp add: inlineCSS_none [OF before] inlineCSS_children_Cons first del: inlineCSS_children.simps(2-4))

theorem only_first_sheet_is_inlined_witness:
  "inlineCSS_children [''/o/a.css'' \<mapsto> ''a'', ''/o/b.css'' \<mapsto> ''b''] ''/o''
     [Elem ''link'' [(''rel'', ''stylesheet''), (''href'', ''a.css'')] [], Elem ''link'' [(''rel'', ''stylesheet''), (''href'', ''b.css'')] []] =
   [Elem ''style'' [] [Txt ''a''], Elem ''link'' [(''rel'', ''stylesheet''), (''href'', ''b.css'')] []]"
proof -
  let ?d = "[''/o/a.css'' \<mapsto> ''a'', ''/o/b.css'' \<mapsto> ''b'']"
  have j: "filepath_Join [''/o'', ''a.css''] = ''/o/a.css''"
    by (simp add: filepath_Join_def filepath_Clean_def path_of_def clean_comps_def clean_step_def)
  have "linked_sheet ?d ''/o'' (Elem ''link'' [(''rel'', ''stylesheet''), (''href'', ''a.css'')] []) = Some ''a''"
    by (simp add: linked_sheet_def attr_val_def j)
  then show ?thesis using only_first_sheet_is_inlined [of ?d "''/o''" "[]"] by simp
qed

section \<open>Scripts and images\<close>

fun dom_all :: "(string \<Rightarrow> (string \<times> string) list \<Rightarrow> bool) \<Rightarrow> dom \<Rightarrow> bool" where
  "dom_all P (Elem tag attrs cs) \<longleftrightarrow> P tag attrs \<and> list_all (dom_all P) cs"
| "dom_all P (Txt s) \<longleftrightarrow> True"
| "dom_all P (Other cs) \<longleftrightarrow> list_all (dom_all P) cs"

lemma last_index_upto:
  "(\<exists>j < n. fst (attrs ! j) = key) \<Longrightarrow>
   fst (attrs ! foldl (\<lambda>i j. if fst (attrs ! j) = key then j else i) 0 [0..<n]) = key \<and>
   foldl (\<lambda>i j. if fst (attrs ! j) = key then j else i) 0 [0..<n] < n"
  by (induction n) (auto simp: less_Suc_eq)

lemma last_index_split:
  assumes "key \<in> fst ` set attrs" "distinct (map fst attrs)"
  obtains xs v ys where "attrs = xs @ (key, v) # ys" "last_index key attrs = length xs" "key \<notin> fst ` set xs" "key \<notin> fst ` set ys"
proof -
  let ?i = "last_index key attrs"
  have "\<exists>j < length attrs. fst (attrs ! j) = key" using assms(1) by (auto simp: in_set_conv_nth) (metis fst_conv)
  then have i: "fst (attrs ! ?i) = key" "?i < length attrs" using last_index_upto [of "length attrs" attrs key] by (auto simp: last_index_def)
  obtain v where v: "attrs ! ?i = (key, v)" using i(1) by (cases "attrs ! ?i") simp
  have sp: "attrs = take ?i attrs @ (key, v) # drop (Suc ?i) attrs" using i(2) v id_take_nth_drop by metis
  then have "distinct (map fst (take ?i attrs) @ key # map fst (drop (Suc ?i) attrs))"
    using assms(2) by (metis fst_conv list.simps(9) map_append)
  then have "key \<notin> fst ` set (take ?i attrs)" "key \<notin> fst ` set (drop (Suc ?i) attrs)" by auto
  with sp i(2) that [of "take ?i attrs" v "drop (Suc ?i) attrs"] show ?thesis by simp
qed

lemma attr_val_none: "key \<notin> fst ` set attrs \<Longrightarrow> attr_val key attrs = []"
proof -
  assume "key \<notin> fst ` set attrs"
  then have "map_of (rev attrs) key = None" by (simp add: map_of_eq_None_iff)
  then show ?thesis by (simp add: attr_val_def)
qed

lemma attr_val_some: "attr_val key attrs \<noteq> [] \<Longrightarrow> key \<in> fst ` set attrs"
  using attr_val_none by blast

lemma attr_val_last: "key \<notin> fst ` set ys \<Longrightarrow> attr_val key (xs @ (key, v) # ys) = v"
proof -
  assume "key \<notin> fst ` set ys"
  then have "map_of (rev ys) key = None" by (simp add: map_of_eq_None_iff)
  then show ?thesis by (simp add: attr_val_def map_add_def)
qed

lemma script_without_source:
  assumes "script_source d dir tag attrs = Some data" "distinct (map fst attrs)"
  shows "script_source d dir tag (without_attr (last_index ''src'' attrs) attrs) = None"
proof -
  have "''src'' \<in> fst ` set attrs" using assms(1) attr_val_some by (auto simp: script_source_def Let_def split: if_splits)
  then obtain xs v ys where "attrs = xs @ (''src'', v) # ys" "last_index ''src'' attrs = length xs"
      "''src'' \<notin> fst ` set xs" "''src'' \<notin> fst ` set ys"
    using last_index_split assms(2) by blast
  then have "attr_val ''src'' (without_attr (last_index ''src'' attrs) attrs) = []"
    by (intro attr_val_none) (simp add: without_attr_def image_Un)
  then show ?thesis by (simp add: script_source_def)
qed

lemma image_with_data:
  assumes "image_source d dir tag attrs = Some uri" "distinct (map fst attrs)"
  shows "image_source d dir tag (attrs[last_index ''src'' attrs := (''src'', uri)]) = None"
proof -
  have u: "has_prefix uri ''data:''" using assms(1) by (auto simp: image_source_def Let_def split: if_splits option.splits)
  have "''src'' \<in> fst ` set attrs" using assms(1) attr_val_some by (auto simp: image_source_def Let_def split: if_splits)
  then obtain xs v ys where "attrs = xs @ (''src'', v) # ys" "last_index ''src'' attrs = length xs" "''src'' \<notin> fst ` set ys"
    using last_index_split assms(2) by blast
  then have "attr_val ''src'' (attrs[last_index ''src'' attrs := (''src'', uri)]) = uri"
    by (simp add: attr_val_last)
  then show ?thesis using u by (simp add: image_source_def)
qed

lemma distinct_without: "distinct (map fst attrs) \<Longrightarrow> distinct (map fst (without_attr i attrs))"
proof -
  assume d: "distinct (map fst attrs)"
  have "set (drop (Suc i) (map fst attrs)) \<subseteq> set (drop i (map fst attrs))" by (rule set_drop_subset_set_drop) simp
  moreover have "distinct (take i (map fst attrs) @ drop i (map fst attrs))" using d by simp
  ultimately have "distinct (take i (map fst attrs) @ drop (Suc i) (map fst attrs))"
    using d by (auto simp: distinct_append simp del: append_take_drop_id)
  then show ?thesis by (simp add: without_attr_def take_map drop_map)
qed

lemma dom_all_map: "(\<And>c. c \<in> set cs \<Longrightarrow> dom_all P c \<Longrightarrow> dom_all Q (f c)) \<Longrightarrow> list_all (dom_all P) cs \<Longrightarrow> list_all (dom_all Q) (map f cs)"
  by (simp add: list_all_iff)

definition plain_attrs :: "string \<Rightarrow> (string \<times> string) list \<Rightarrow> bool" where
  "plain_attrs tag attrs \<longleftrightarrow> distinct (map fst attrs)"

lemma inlineJS_done:
  "dom_all plain_attrs n \<Longrightarrow> dom_all (\<lambda>t a. script_source d dir t a = None \<and> distinct (map fst a)) (inlineJS d dir n)"
proof (induction n)
  case (Elem tag attrs cs)
  have kids: "list_all (dom_all (\<lambda>t a. script_source d dir t a = None \<and> distinct (map fst a))) (map (inlineJS d dir) cs)"
    by (rule dom_all_map [where P = plain_attrs]) (use Elem in auto)
  have dist: "distinct (map fst attrs)" using Elem.prems by (simp add: plain_attrs_def)
  show ?case
  proof (cases "script_source d dir tag attrs")
    case None
    with kids dist show ?thesis by simp
  next
    case (Some data)
    with kids dist script_without_source [OF Some dist] distinct_without [OF dist] show ?thesis by simp
  qed
next
  case (Other cs)
  have "list_all (dom_all (\<lambda>t a. script_source d dir t a = None \<and> distinct (map fst a))) (map (inlineJS d dir) cs)"
    by (rule dom_all_map [where P = plain_attrs]) (use Other in auto)
  then show ?case by simp
qed simp

lemma inlineImages_done:
  "dom_all (\<lambda>t a. script_source d dir t a = None \<and> distinct (map fst a)) n \<Longrightarrow>
   dom_all (\<lambda>t a. script_source d dir t a = None \<and> image_source d dir t a = None) (inlineImages d dir n)"
proof (induction n)
  case (Elem tag attrs cs)
  have kids: "list_all (dom_all (\<lambda>t a. script_source d dir t a = None \<and> image_source d dir t a = None)) (map (inlineImages d dir) cs)"
    by (rule dom_all_map [where P = "\<lambda>t a. script_source d dir t a = None \<and> distinct (map fst a)"]) (use Elem in auto)
  have this_one: "distinct (map fst attrs)" "script_source d dir tag attrs = None" using Elem.prems by simp_all
  show ?case
  proof (cases "image_source d dir tag attrs")
    case None
    with kids this_one show ?thesis by simp
  next
    case (Some uri)
    then have "tag = ''img''" by (auto simp: image_source_def Let_def split: if_splits)
    then have "script_source d dir tag a = None" for a by (simp add: script_source_def)
    with kids Some image_with_data [OF Some this_one(1)] show ?thesis by simp
  qed
next
  case (Other cs)
  have "list_all (dom_all (\<lambda>t a. script_source d dir t a = None \<and> image_source d dir t a = None)) (map (inlineImages d dir) cs)"
    by (rule dom_all_map [where P = "\<lambda>t a. script_source d dir t a = None \<and> distinct (map fst a)"]) (use Other in auto)
  then show ?case by simp
qed simp

text \<open>In a tree whose nodes have no attribute twice, no script and no image with a known extension is left whose file
  can be read: all of them are inlined, wherever they are.\<close>

theorem scripts_and_images_are_inlined:
  "dom_all plain_attrs n \<Longrightarrow>
   dom_all (\<lambda>t a. script_source d dir t a = None \<and> image_source d dir t a = None) (inlineImages d dir (inlineJS d dir n))"
  by (rule inlineImages_done) (rule inlineJS_done)

section \<open>The rewriter with caches\<close>

theorem precomputed_URLs_are_sorted:
  "mset (pr_sortedURLs (Precompute rng dir base pr)) = mset (map fst (rng (sr_urlToLocal (pr_Rewriter pr)))) \<and>
   sorted_wrt (\<lambda>u v. length v \<le> length u) (pr_sortedURLs (Precompute rng dir base pr))"
  using exchange_sort_sorts [of "\<lambda>u :: string. int (length u)"]
  by (simp add: Precompute_def precomputeScriptStyle_def sort_longest_first_def Let_def)

text \<open>The caches are not used: the optimised rewriter gives what the plain one gives, and the streaming one gives its input.\<close>

theorem optimized_rewriter_is_the_plain_one:
  "RewriteHTMLOptimized rng tokenize (Precompute rng' dir base (NewPrecomputedRewriter r)) html path = RewriteHTML rng tokenize r html path"
  by (simp add: RewriteHTMLOptimized_def Precompute_def precomputeScriptStyle_def NewPrecomputedRewriter_def Let_def)

lemma im_Flush_id [simp]: "im_Flush im = im"
  by (simp add: im_Flush_def RewriteHTMLFast_def)

theorem streaming_rewrites_nothing: "fst (StreamingRewrite html path orw) = html"
  by (simp add: StreamingRewrite_def im_Write_def im_Bytes_def im_Reset_def Let_def split_beta)

end
