(* ===== verification/AuditLog.thy ===== *)
theory AuditLog
  imports Plugin Scheduler Storage
begin

text \<open>
  The audit log, \<open>internal/audit/audit.go\<close>. The disk is a map of files; \<open>json.Marshal\<close> and \<open>json.Unmarshal\<close> of an event,
  the clock, the random numbers, the trace and what the operating system does with a write are arguments. The mutex is
  part of the state: an operation that waits for a mutex that is never released has no result. Times and durations are
  nanoseconds. Copies of the events to the program's own log are left out.
\<close>

section \<open>Events\<close>

record AuditEvent =
  ae_ID :: string
  ae_Timestamp :: int
  ae_Type :: string
  ae_Actor :: string
  ae_Action :: string
  ae_Resource :: string
  ae_Outcome :: string
  ae_Details :: "string \<rightharpoonup> any"
  ae_Error :: string
  ae_Duration :: int
  ae_IP :: string
  ae_UserAgent :: string
  ae_TraceID :: string
  ae_SpanID :: string

text \<open>The zero time is the first instant of the year 1.\<close>

definition zero_time :: int where
  "zero_time = -62135596800 * 10 ^ 9"

definition zero_event :: AuditEvent where
  "zero_event =
     \<lparr>ae_ID = [], ae_Timestamp = zero_time, ae_Type = [], ae_Actor = [], ae_Action = [], ae_Resource = [], ae_Outcome = [],
      ae_Details = Map.empty, ae_Error = [], ae_Duration = 0, ae_IP = [], ae_UserAgent = [], ae_TraceID = [], ae_SpanID = []\<rparr>"

record AuditFilter =
  fl_StartTime :: "int option"
  fl_EndTime :: "int option"
  fl_Types :: "string list"
  fl_Actors :: "string list"
  fl_Resources :: "string list"
  fl_Outcomes :: "string list"
  fl_Limit :: int
  fl_Offset :: int

definition show_int :: "int \<Rightarrow> string" where
  "show_int i = (if i < 0 then CHR ''-'' # show_nat (nat (- i)) else show_nat (nat i))"

section \<open>The file logger\<close>

text \<open>\<open>al_file\<close> is the path of the open file.\<close>

record file_logger =
  al_locked :: bool
  al_file :: "string option"
  al_dir :: string
  al_currentDate :: string
  al_maxFileSize :: int
  al_currentSize :: int

text \<open>A write: the error and how many bytes were written before it, or none.\<close>

type_synonym write_outcome = "(string \<times> nat) option"

definition append_file :: "write_outcome \<Rightarrow> string \<Rightarrow> string \<Rightarrow> disk \<Rightarrow> string option \<times> disk" where
  "append_file wr path data d =
     (let old = (case d path of Some c \<Rightarrow> c | None \<Rightarrow> [])
      in case wr of
           None \<Rightarrow> (None, d(path \<mapsto> old @ data))
         | Some (err, n) \<Rightarrow> (Some err, d(path \<mapsto> old @ take n data)))"

definition header_line :: "string \<Rightarrow> string" where
  "header_line date =
     (let q = (\<lambda>s. [CHR 0x22] @ s @ [CHR 0x22])
      in ''{'' @ q ''date'' @ '':'' @ q date @ '','' @ q ''type'' @ '':'' @ q ''audit_log'' @ '','' @ q ''version'' @ '':'' @ q ''1.0'' @ ''}'')"

text \<open>What an operation needs of the outside: the date, the result of opening the file, and of the write.\<close>

record rotation =
  ro_date :: string
  ro_open :: "string option"
  ro_header :: write_outcome

text \<open>The result is the error, if any; no result means that the operation waits for ever.\<close>

definition rotate :: "rotation \<Rightarrow> file_logger \<Rightarrow> disk \<Rightarrow> string option option \<times> file_logger \<times> disk" where
  "rotate ro f d =
     (if al_locked f then (None, f, d)
      else
        let f1 = (if ro_date ro \<noteq> al_currentDate f then f\<lparr>al_currentDate := ro_date ro, al_currentSize := 0\<rparr> else f);
            filename = filepath_Join [al_dir f, ''audit-'' @ al_currentDate f1 @ ''.log'']
        in case ro_open ro of
             Some err \<Rightarrow> (Some (Some err), f1, d)
           | None \<Rightarrow>
               (let (e, d1) = append_file (ro_header ro) filename (header_line (ro_date ro) @ [CHR 0x0A])
                               (if d filename = None then d(filename \<mapsto> []) else d)
                in (Some e, f1\<lparr>al_file := Some filename\<rparr>, d1)))"

definition NewFileAuditLogger :: "rotation \<Rightarrow> string option \<Rightarrow> string \<Rightarrow> int \<Rightarrow> disk \<Rightarrow> (string + file_logger) \<times> disk" where
  "NewFileAuditLogger ro mkdir dir maxFileSize d =
     (case mkdir of
        Some err \<Rightarrow> (Inl (''failed to create audit log directory: '' @ err), d)
      | None \<Rightarrow>
          (case rotate ro \<lparr>al_locked = False, al_file = None, al_dir = dir, al_currentDate = [], al_maxFileSize = maxFileSize,
                           al_currentSize = 0\<rparr> d of
             (Some None, f, d1) \<Rightarrow> (Inr f, d1)
           | (Some (Some err), f, d1) \<Rightarrow> (Inl err, d1)
           | (None, f, d1) \<Rightarrow> (Inl [], d1)))"

definition letters :: string where
  "letters = ''abcdefghijklmnopqrstuvwxyz0123456789''"

text \<open>The numbers drawn are below the number of letters.\<close>

definition randomString :: "nat list \<Rightarrow> string" where
  "randomString drawn = map (\<lambda>i. letters ! i) drawn"

record log_call =
  lc_span :: "(string \<times> string) option"
  lc_now :: int
  lc_random :: "nat list"
  lc_rotation :: rotation
  lc_write :: write_outcome

definition stamp :: "log_call \<Rightarrow> AuditEvent \<Rightarrow> AuditEvent" where
  "stamp c event =
     (let e1 = (case lc_span c of Some (t, s) \<Rightarrow> event\<lparr>ae_TraceID := t, ae_SpanID := s\<rparr> | None \<Rightarrow> event);
          e2 = (if ae_ID e1 = [] then e1\<lparr>ae_ID := ''audit-'' @ show_int (lc_now c) @ ''-'' @ randomString (lc_random c)\<rparr> else e1)
      in if ae_Timestamp e2 = zero_time then e2\<lparr>ae_Timestamp := lc_now c\<rparr> else e2)"

text \<open>\<open>encode\<close> is \<open>json.Marshal\<close>. The part of \<open>Log\<close> after the rotation runs with the mutex held and releases it.\<close>

definition write_event :: "(AuditEvent \<Rightarrow> string + string) \<Rightarrow> log_call \<Rightarrow> AuditEvent \<Rightarrow> file_logger \<Rightarrow> disk \<Rightarrow>
    string option option \<times> file_logger \<times> disk" where
  "write_event encode c event f d =
     (case encode event of
        Inl err \<Rightarrow> (Some (Some err), f\<lparr>al_locked := False\<rparr>, d)
      | Inr data \<Rightarrow>
          (case al_file f of
             None \<Rightarrow> (Some (Some ''invalid argument''), f\<lparr>al_locked := False\<rparr>, d)
           | Some path \<Rightarrow>
               (case append_file (lc_write c) path (data @ [CHR 0x0A]) d of
                  (Some err, d1) \<Rightarrow> (Some (Some err), f\<lparr>al_locked := False\<rparr>, d1)
                | (None, d1) \<Rightarrow>
                    (Some None, f\<lparr>al_locked := False, al_currentSize := al_currentSize f + int (length data) + 1\<rparr>, d1))))"

definition Log :: "(AuditEvent \<Rightarrow> string + string) \<Rightarrow> log_call \<Rightarrow> AuditEvent \<Rightarrow> file_logger \<Rightarrow> disk \<Rightarrow>
    string option option \<times> file_logger \<times> disk" where
  "Log encode c event f d =
     (let event1 = stamp c event
      in if al_locked f then (None, f, d)
         else
           let f1 = f\<lparr>al_locked := True\<rparr>
           in if al_maxFileSize f1 < al_currentSize f1 then
                (case rotate (lc_rotation c) f1 d of
                   (None, f2, d2) \<Rightarrow> (None, f2, d2)
                 | (Some (Some err), f2, d2) \<Rightarrow> (Some (Some err), f2\<lparr>al_locked := False\<rparr>, d2)
                 | (Some None, f2, d2) \<Rightarrow> write_event encode c event1 f2 d2)
              else write_event encode c event1 f1 d)"

definition audit_Close :: "string option \<Rightarrow> file_logger \<Rightarrow> string option option" where
  "audit_Close err f = (if al_locked f then None else Some (if al_file f = None then None else err))"

definition matchesFilter :: "AuditEvent \<Rightarrow> AuditFilter \<Rightarrow> bool" where
  "matchesFilter event fl \<longleftrightarrow>
     \<not> (case fl_StartTime fl of Some t \<Rightarrow> ae_Timestamp event < t | None \<Rightarrow> False) \<and>
     \<not> (case fl_EndTime fl of Some t \<Rightarrow> t < ae_Timestamp event | None \<Rightarrow> False) \<and>
     (fl_Types fl = [] \<or> list_ex (\<lambda>t. ae_Type event = t) (fl_Types fl)) \<and>
     (fl_Actors fl = [] \<or> list_ex (\<lambda>a. ae_Actor event = a) (fl_Actors fl)) \<and>
     (fl_Resources fl = [] \<or> list_ex (\<lambda>r. ae_Resource event = r) (fl_Resources fl)) \<and>
     (fl_Outcomes fl = [] \<or> list_ex (\<lambda>u. ae_Outcome event = u) (fl_Outcomes fl))"

text \<open>\<open>decode\<close> is \<open>json.Unmarshal\<close>. The loops end when the limit is reached.\<close>

definition limit_reached :: "AuditFilter \<Rightarrow> AuditEvent list \<Rightarrow> bool" where
  "limit_reached fl events \<longleftrightarrow> 0 < fl_Limit fl \<and> fl_Limit fl \<le> int (length events)"

fun query_lines :: "(string \<Rightarrow> AuditEvent option) \<Rightarrow> AuditFilter \<Rightarrow> string list \<Rightarrow> AuditEvent list \<Rightarrow> AuditEvent list" where
  "query_lines decode fl [] events = events"
| "query_lines decode fl (l # ls) events =
     (if trim_space l = [] then query_lines decode fl ls events
      else case decode (trim_space l) of
             None \<Rightarrow> query_lines decode fl ls events
           | Some event \<Rightarrow>
               if matchesFilter event fl then
                 (if limit_reached fl (events @ [event]) then events @ [event] else query_lines decode fl ls (events @ [event]))
               else query_lines decode fl ls events)"

fun query_files :: "(string \<Rightarrow> AuditEvent option) \<Rightarrow> string \<Rightarrow> disk \<Rightarrow> AuditFilter \<Rightarrow> (string \<times> bool) list \<Rightarrow> AuditEvent list \<Rightarrow> AuditEvent list" where
  "query_files decode dir d fl [] events = events"
| "query_files decode dir d fl ((name, isDir) # fs) events =
     (if isDir \<or> filepath_Ext name \<noteq> ''.log'' then query_files decode dir d fl fs events
      else case d (filepath_Join [dir, name]) of
             None \<Rightarrow> query_files decode dir d fl fs events
           | Some data \<Rightarrow>
               (let events1 = query_lines decode fl (split_byte CHR 0x0A data) events
                in if limit_reached fl events1 then events1 else query_files decode dir d fl fs events1))"

definition Query :: "(string \<Rightarrow> AuditEvent option) \<Rightarrow> string + (string \<times> bool) list \<Rightarrow> AuditFilter \<Rightarrow> file_logger \<Rightarrow> disk \<Rightarrow>
    string + AuditEvent list" where
  "Query decode files fl f d =
     (case files of Inl err \<Rightarrow> Inl err | Inr fs \<Rightarrow> Inr (query_files decode (al_dir f) d fl fs []))"

section \<open>The other logger, the middleware and the helper\<close>

definition syslog_Log :: "AuditEvent \<Rightarrow> string option" where
  "syslog_Log event = None"

definition syslog_Query :: "AuditFilter \<Rightarrow> string + AuditEvent list" where
  "syslog_Query fl = Inl ''syslog query not supported''"

record audit_request =
  ar_Method :: string
  ar_Path :: string
  ar_RawQuery :: string
  ar_RemoteAddr :: string
  ar_UserAgent :: string
  ar_Header :: "string \<rightharpoonup> string"

definition header_Get :: "audit_request \<Rightarrow> string \<Rightarrow> string" where
  "header_Get r k = (case ar_Header r k of Some v \<Rightarrow> v | None \<Rightarrow> [])"

definition getClientIP :: "audit_request \<Rightarrow> string" where
  "getClientIP r =
     (if header_Get r ''X-Forwarded-For'' \<noteq> [] then hd (split_byte CHR '','' (header_Get r ''X-Forwarded-For''))
      else if header_Get r ''X-Real-Ip'' \<noteq> [] then header_Get r ''X-Real-Ip''
      else ar_RemoteAddr r)"

text \<open>The status of a response is the last one written, 200 if the handler wrote none.\<close>

definition written_status :: "int list \<Rightarrow> int" where
  "written_status codes = last (200 # codes)"

definition request_event :: "audit_request \<Rightarrow> int \<Rightarrow> int \<Rightarrow> AuditEvent" where
  "request_event r status duration =
     zero_event\<lparr>ae_Type := ''api_request'', ae_Actor := getClientIP r, ae_Action := ar_Method r, ae_Resource := ar_Path r,
       ae_Outcome := ''status_'' @ show_int status, ae_Duration := duration, ae_IP := getClientIP r, ae_UserAgent := ar_UserAgent r,
       ae_Details := [''method'' \<mapsto> AnyString (ar_Method r), ''path'' \<mapsto> AnyString (ar_Path r), ''query'' \<mapsto> AnyString (ar_RawQuery r),
                      ''status_code'' \<mapsto> AnyInt status]\<rparr>"

text \<open>The helper's methods, as the events they log.\<close>

definition helper_event :: "string \<Rightarrow> string \<Rightarrow> string \<Rightarrow> string \<Rightarrow> string \<Rightarrow> (string \<rightharpoonup> any) \<Rightarrow> AuditEvent" where
  "helper_event t actor action resource outcome details =
     zero_event\<lparr>ae_Type := t, ae_Actor := actor, ae_Action := action, ae_Resource := resource, ae_Outcome := outcome, ae_Details := details\<rparr>"

definition LogCrawlStart :: "string \<Rightarrow> string \<Rightarrow> AuditEvent" where
  "LogCrawlStart actor configHash =
     helper_event ''crawl_start'' actor ''start_crawl'' ''crawl'' ''success'' [''config_hash'' \<mapsto> AnyString configHash]"

definition LogCrawlStop :: "string \<Rightarrow> int \<Rightarrow> int \<Rightarrow> int \<Rightarrow> AuditEvent" where
  "LogCrawlStop actor pagesFetched assetsDownloaded duration =
     (helper_event ''crawl_stop'' actor ''stop_crawl'' ''crawl'' ''success''
        [''pages_fetched'' \<mapsto> AnyInt pagesFetched, ''assets_downloaded'' \<mapsto> AnyInt assetsDownloaded])\<lparr>ae_Duration := duration\<rparr>"

definition LogPageFetched :: "string \<Rightarrow> string \<Rightarrow> int \<Rightarrow> int \<Rightarrow> int \<Rightarrow> AuditEvent" where
  "LogPageFetched actor url statusCode duration sz =
     (helper_event ''page_fetched'' actor ''fetch_page'' url (''status_'' @ show_int statusCode)
        [''status_code'' \<mapsto> AnyInt statusCode, ''size_bytes'' \<mapsto> AnyInt sz])\<lparr>ae_Duration := duration\<rparr>"

definition LogAuthAttempt :: "string \<Rightarrow> string \<Rightarrow> string \<Rightarrow> bool \<Rightarrow> AuditEvent" where
  "LogAuthAttempt actor authType target success =
     helper_event ''auth_attempt'' actor ''authenticate'' target (if \<not> success then ''failure'' else ''success'')
       [''auth_type'' \<mapsto> AnyString authType, ''target'' \<mapsto> AnyString target, ''success'' \<mapsto> AnyBool success]"

definition LogConfigChange :: "string \<Rightarrow> string \<Rightarrow> any \<Rightarrow> any \<Rightarrow> AuditEvent" where
  "LogConfigChange actor configPath oldConfig newConfig =
     helper_event ''config_change'' actor ''modify_config'' configPath ''success''
       [''old_config'' \<mapsto> oldConfig, ''new_config'' \<mapsto> newConfig]"

definition LogDataExport :: "string \<Rightarrow> string \<Rightarrow> string \<Rightarrow> int \<Rightarrow> AuditEvent" where
  "LogDataExport actor format path recordCount =
     helper_event ''data_export'' actor ''export_data'' path ''success''
       [''format'' \<mapsto> AnyString format, ''record_count'' \<mapsto> AnyInt recordCount]"

definition LogSecretsAccess :: "string \<Rightarrow> string \<Rightarrow> AuditEvent" where
  "LogSecretsAccess actor secretPath =
     helper_event ''secrets_access'' actor ''access_secret'' secretPath ''success'' [''secret_path'' \<mapsto> AnyString secretPath]"

section \<open>What is logged is found\<close>

text \<open>What is documented of the encoding: an event reads back from its line, and the header line, read as an event, has
  the type of the log and nothing else.\<close>

definition header_event :: AuditEvent where
  "header_event = zero_event\<lparr>ae_Type := ''audit_log''\<rparr>"

definition documented_codec :: "(AuditEvent \<Rightarrow> string + string) \<Rightarrow> (string \<Rightarrow> AuditEvent option) \<Rightarrow> bool" where
  "documented_codec encode decode \<longleftrightarrow>
     (\<forall>e s. encode e = Inr s \<longrightarrow> decode s = Some e \<and> s \<noteq> [] \<and> CHR 0x0A \<notin> set s \<and> trim_space s = s) \<and>
     (\<forall>date. decode (header_line date) = Some header_event)"

text \<open>Events logged one after the other, all of them with success.\<close>

fun log_all :: "(AuditEvent \<Rightarrow> string + string) \<Rightarrow> (log_call \<times> AuditEvent) list \<Rightarrow> file_logger \<Rightarrow> disk \<Rightarrow> (file_logger \<times> disk) option" where
  "log_all encode [] f d = Some (f, d)"
| "log_all encode ((c, e) # xs) f d =
     (case Log encode c e f d of (Some None, f1, d1) \<Rightarrow> log_all encode xs f1 d1 | _ \<Rightarrow> None)"

definition line_of :: "(AuditEvent \<Rightarrow> string + string) \<Rightarrow> AuditEvent \<Rightarrow> string" where
  "line_of encode e = (case encode e of Inr s \<Rightarrow> s | Inl err \<Rightarrow> [])"

lemma rotate_locked: "al_locked f \<Longrightarrow> rotate ro f d = (None, f, d)"
  by (simp add: rotate_def)

lemma Log_returns:
  assumes "Log encode c e f d = (Some None, f1, d1)"
  obtains data path where "\<not> al_locked f" "encode (stamp c e) = Inr data" "al_file f = Some path" "al_currentSize f \<le> al_maxFileSize f"
    "f1 = f\<lparr>al_locked := False, al_currentSize := al_currentSize f + int (length data) + 1\<rparr>"
    "d1 = d(path \<mapsto> (case d path of Some s \<Rightarrow> s | None \<Rightarrow> []) @ data @ [CHR 0x0A])"
proof -
  have u: "\<not> al_locked f" using assms by (auto simp: Log_def Let_def)
  have "\<not> al_maxFileSize f < al_currentSize f"
    using assms u by (auto simp: Log_def Let_def rotate_locked)
  then have "write_event encode c (stamp c e) (f\<lparr>al_locked := True\<rparr>) d = (Some None, f1, d1)"
    using assms u by (simp add: Log_def Let_def)
  then obtain data path where w: "encode (stamp c e) = Inr data" "al_file f = Some path"
      "append_file (lc_write c) path (data @ [CHR 0x0A]) d = (None, d1)"
      "f1 = f\<lparr>al_locked := False, al_currentSize := al_currentSize f + int (length data) + 1\<rparr>"
    by (auto simp: write_event_def split: sum.splits option.splits prod.splits)
  have "d1 = d(path \<mapsto> (case d path of Some s \<Rightarrow> s | None \<Rightarrow> []) @ data @ [CHR 0x0A])"
    using w(3) by (auto simp: append_file_def Let_def split: option.splits prod.splits)
  with u w \<open>\<not> al_maxFileSize f < al_currentSize f\<close> that show ?thesis by simp
qed

lemma log_all_content:
  "log_all encode xs f d = Some (f2, d2) \<Longrightarrow> al_file f = Some path \<Longrightarrow> d path = Some content \<Longrightarrow> \<not> al_locked f \<Longrightarrow>
   \<not> al_locked f2 \<and> al_file f2 = Some path \<and> al_dir f2 = al_dir f \<and> al_maxFileSize f2 = al_maxFileSize f \<and>
   al_currentSize f2 = al_currentSize f + sum_list (map (\<lambda>(c, e). int (length (line_of encode (stamp c e))) + 1) xs) \<and>
   list_all (\<lambda>(c, e). \<exists>s. encode (stamp c e) = Inr s) xs \<and>
   d2 path = Some (content @ concat (map (\<lambda>(c, e). line_of encode (stamp c e) @ [CHR 0x0A]) xs))"
proof (induction xs arbitrary: f d content)
  case (Cons x xs)
  obtain c e where x: "x = (c, e)" by (cases x)
  obtain f1 d1 where l: "Log encode c e f d = (Some None, f1, d1)" "log_all encode xs f1 d1 = Some (f2, d2)"
    using Cons.prems(1) x by (auto split: prod.splits option.splits)
  obtain data path' where w: "encode (stamp c e) = Inr data" "al_file f = Some path'"
      "f1 = f\<lparr>al_locked := False, al_currentSize := al_currentSize f + int (length data) + 1\<rparr>"
      "d1 = d(path' \<mapsto> (case d path' of Some s \<Rightarrow> s | None \<Rightarrow> []) @ data @ [CHR 0x0A])"
    using Log_returns [OF l(1)] by metis
  have "al_file f1 = Some path" "d1 path = Some (content @ data @ [CHR 0x0A])" "\<not> al_locked f1"
    using w Cons.prems by simp_all
  from Cons.IH [OF l(2) this] w show ?case by (simp add: x line_of_def)
qed simp

lemma new_logger:
  assumes "NewFileAuditLogger ro mkdir dir maxFileSize d = (Inr f, d1)"
    and "d (filepath_Join [dir, ''audit-'' @ ro_date ro @ ''.log'']) = None"
  shows "\<not> al_locked f" "al_file f = Some (filepath_Join [dir, ''audit-'' @ ro_date ro @ ''.log''])" "al_dir f = dir"
    "al_maxFileSize f = maxFileSize" "al_currentSize f = 0"
    "d1 (filepath_Join [dir, ''audit-'' @ ro_date ro @ ''.log'']) = Some (header_line (ro_date ro) @ [CHR 0x0A])"
  using assms
  by (auto simp: NewFileAuditLogger_def rotate_def append_file_def Let_def split: option.splits prod.splits if_splits)

definition limited :: "AuditFilter \<Rightarrow> AuditEvent list \<Rightarrow> AuditEvent list" where
  "limited fl events = (if 0 < fl_Limit fl then take (nat (fl_Limit fl)) events else events)"

lemma query_lines_events:
  assumes "\<And>e. e \<in> set es \<Longrightarrow> trim_space (line e) \<noteq> [] \<and> decode (trim_space (line e)) = Some e" "\<not> limit_reached fl events"
  shows "query_lines decode fl (map line es @ [[]]) events = limited fl (events @ filter (\<lambda>e. matchesFilter e fl) es)"
  using assms
proof (induction es arbitrary: events)
  case Nil
  then show ?case by (auto simp: limited_def limit_reached_def trim_space_def trim_by_def)
next
  case (Cons e es)
  have e: "trim_space (line e) \<noteq> []" "decode (trim_space (line e)) = Some e" using Cons.prems(1) by simp_all
  show ?case
  proof (cases "matchesFilter e fl \<and> limit_reached fl (events @ [e])")
    case True
    then have "nat (fl_Limit fl) = length (events @ [e])" "0 < fl_Limit fl" using Cons.prems(2) by (auto simp: limit_reached_def)
    then have "limited fl ((events @ [e]) @ rest) = events @ [e]" for rest unfolding limited_def by simp
    then show ?thesis using True e by simp
  next
    case False
    then show ?thesis using e Cons by auto
  qed
qed

lemma split_lines:
  "CHR 0x0A \<notin> set h \<Longrightarrow> (\<And>l. l \<in> set ls \<Longrightarrow> CHR 0x0A \<notin> set l) \<Longrightarrow>
   split_byte CHR 0x0A (h @ CHR 0x0A # concat (map (\<lambda>l. l @ [CHR 0x0A]) ls)) = h # ls @ [[]]"
proof (induction ls arbitrary: h)
  case (Cons l ls)
  have "split_byte CHR 0x0A (l @ CHR 0x0A # concat (map (\<lambda>l. l @ [CHR 0x0A]) ls)) = l # ls @ [[]]"
    using Cons by simp
  then show ?case using Cons.prems by (simp add: split_byte_append_sep)
qed (simp add: split_byte_append_sep)

lemma header_line_bytes: "CHR 0x0A \<notin> set date \<Longrightarrow> CHR 0x0A \<notin> set (header_line date)"
  by (simp add: header_line_def Let_def)

lemma header_line_trim: "trim_space (header_line date) = header_line date \<and> header_line date \<noteq> []"
proof -
  have "\<exists>m. header_line date = CHR ''{'' # m @ [CHR ''}'']"
    by (simp add: header_line_def Let_def)
  then obtain m where m: "header_line date = CHR ''{'' # m @ [CHR ''}'']" by blast
  show ?thesis unfolding m by (simp add: trim_space_def trim_by_def is_space_byte_def)
qed



text \<open>The offset of a filter has no effect.\<close>

lemma matchesFilter_offset: "matchesFilter e (fl\<lparr>fl_Offset := n\<rparr>) = matchesFilter e fl"
  by (simp add: matchesFilter_def)

lemma limit_reached_offset: "limit_reached (fl\<lparr>fl_Offset := n\<rparr>) events = limit_reached fl events"
  by (simp add: limit_reached_def)

lemma query_lines_offset: "query_lines decode (fl\<lparr>fl_Offset := n\<rparr>) ls events = query_lines decode fl ls events"
  by (induction decode fl ls events rule: query_lines.induct)
     (simp_all add: matchesFilter_offset limit_reached_offset split: option.splits)

lemma query_files_offset: "query_files decode dir d (fl\<lparr>fl_Offset := n\<rparr>) fs events = query_files decode dir d fl fs events"
  by (induction decode dir d fl fs events rule: query_files.induct)
     (simp_all add: query_lines_offset limit_reached_offset Let_def split: option.splits)

theorem offset_is_ignored: "Query decode files (fl\<lparr>fl_Offset := n\<rparr>) f d = Query decode files fl f d"
  by (simp add: Query_def query_files_offset split: sum.splits)

text \<open>A logger stays with the file it opened, whatever day it is.\<close>

theorem log_stays_in_its_file: "Log encode c e f d = (r, f1, d1) \<Longrightarrow> al_file f1 = al_file f \<and> al_currentDate f1 = al_currentDate f"
  by (auto simp: Log_def write_event_def rotate_locked Let_def split: if_splits sum.splits option.splits prod.splits)

text \<open>The client chooses the name it is logged under.\<close>

theorem client_chooses_actor:
  "ar_Header r ''X-Forwarded-For'' = Some v \<Longrightarrow> v \<noteq> [] \<Longrightarrow> CHR '','' \<notin> set v \<Longrightarrow> ae_Actor (request_event r status dur) = v"
  by (simp add: request_event_def getClientIP_def header_Get_def split_byte_notin)

section \<open>Instances\<close>

definition demo_event :: AuditEvent where
  "demo_event = zero_event\<lparr>ae_ID := ''1'', ae_Timestamp := 1, ae_Type := ''crawl_start''\<rparr>"

definition demo_encode :: "AuditEvent \<Rightarrow> string + string" where
  "demo_encode e = (if e = demo_event then Inr ''e'' else Inl [])"

definition demo_decode :: "string \<Rightarrow> AuditEvent option" where
  "demo_decode s = (if s = ''e'' then Some demo_event else if has_prefix s ''{'' then Some header_event else None)"

definition demo_ro :: rotation where
  "demo_ro = \<lparr>ro_date = ''2026-01-02'', ro_open = None, ro_header = None\<rparr>"

definition demo_call :: log_call where
  "demo_call = \<lparr>lc_span = None, lc_now = 1, lc_random = [], lc_rotation = demo_ro, lc_write = None\<rparr>"

definition demo_logger :: file_logger where
  "demo_logger = \<lparr>al_locked = False, al_file = Some ''/a/audit-2026-01-02.log'', al_dir = ''/a'', al_currentDate = ''2026-01-02'',
     al_maxFileSize = 1, al_currentSize = 0\<rparr>"

lemma demo_codec: "documented_codec demo_encode demo_decode"
  by (auto simp: documented_codec_def demo_encode_def demo_decode_def header_line_def Let_def trim_space_def trim_by_def is_space_byte_def)

lemma demo_path: "filepath_Join [''/a'', ''audit-2026-01-02.log''] = ''/a/audit-2026-01-02.log''"
  by (simp add: filepath_Join_def filepath_Clean_def path_of_def clean_comps_def clean_step_def)

lemma demo_new:
  "NewFileAuditLogger demo_ro None ''/a'' 1 Map.empty = (Inr demo_logger, [''/a/audit-2026-01-02.log'' \<mapsto> header_line ''2026-01-02'' @ [CHR 0x0A]])"
  by (simp add: NewFileAuditLogger_def rotate_def demo_ro_def append_file_def demo_logger_def demo_path Let_def)

lemma demo_stamp: "stamp demo_call demo_event = demo_event"
  unfolding stamp_def demo_call_def demo_event_def zero_event_def zero_time_def by simp

lemma demo_call_write: "lc_write demo_call = None"
  by (simp add: demo_call_def)

lemma demo_log:
  "log_all demo_encode [(demo_call, demo_event)] demo_logger [''/a/audit-2026-01-02.log'' \<mapsto> header_line ''2026-01-02'' @ [CHR 0x0A]] =
     Some (demo_logger\<lparr>al_currentSize := 2\<rparr>, [''/a/audit-2026-01-02.log'' \<mapsto> (header_line ''2026-01-02'' @ [CHR 0x0A]) @ ''e'' @ [CHR 0x0A]])"
  by (simp add: Log_def write_event_def demo_stamp demo_encode_def demo_logger_def append_file_def demo_call_write Let_def)



end
