(* ===== verification/AssetDownloader.thy ===== *)
theory AssetDownloader
  imports GoStrings ExchangeSort
begin

text \<open>
  The parallel downloader of assets, \<open>internal/crawler/asset_downloader.go\<close>: a pool of workers between two buffered
  channels. One call of \<open>Execute\<close> is a system of steps: the caller submits and collects, the workers take a request,
  download it and send the result. The client's answer to a request is an argument. Tracing is left out, and no step
  stands for a context that is cancelled from outside.
\<close>

section \<open>Requests, results and statistics\<close>

record download_request =
  dq_URL :: string
  dq_Referer :: string
  dq_HTMLDir :: string
  dq_MimeType :: string
  dq_Headers :: "(string \<times> string) list"
  dq_Priority :: int

record download_result =
  dr_Request :: download_request
  dr_LocalPath :: string
  dr_Body :: string
  dr_Error :: "string option"
  dr_Size :: int
  dr_Duration :: int
  dr_StatusCode :: int

record download_stats =
  ds_TotalRequests :: int
  ds_Completed :: int
  ds_Failed :: int
  ds_TotalBytes :: int
  ds_TotalDuration :: int
  ds_AvgDuration :: int

definition zero_stats :: download_stats where
  "zero_stats = \<lparr>ds_TotalRequests = 0, ds_Completed = 0, ds_Failed = 0, ds_TotalBytes = 0, ds_TotalDuration = 0, ds_AvgDuration = 0\<rparr>"

text \<open>
  The answer to a \<open>GET\<close> with its headers: the request cannot be made, cannot be sent, or there is a status, its text and
  the body unless reading it fails; and how long it took.
\<close>

datatype fetched = NoRequest string | NotSent string | Answered int string "string + string"

type_synonym asset_client = "string \<Rightarrow> (string \<rightharpoonup> string) \<Rightarrow> fetched \<times> int"

text \<open>Names of headers are canonical: every letter that starts a word is upper case, the others lower case.\<close>

definition is_token_byte :: "char \<Rightarrow> bool" where
  "is_token_byte c \<longleftrightarrow>
     (let n = of_char c :: nat
      in 48 \<le> n \<and> n \<le> 57 \<or> 65 \<le> n \<and> n \<le> 90 \<or> 97 \<le> n \<and> n \<le> 122 \<or> c \<in> set ''!#$%&*+-.^_|~'' \<or> n = 39 \<or> n = 96)"

definition upper_byte :: "char \<Rightarrow> char" where
  "upper_byte c = (if 97 \<le> (of_char c :: nat) \<and> (of_char c :: nat) \<le> 122 then char_of ((of_char c :: nat) - 32) else c)"

fun canonical_bytes :: "bool \<Rightarrow> string \<Rightarrow> string" where
  "canonical_bytes first [] = []"
| "canonical_bytes first (c # cs) = (if first then upper_byte c else lower_byte c) # canonical_bytes (c = CHR ''-'') cs"

definition canonical_header :: "string \<Rightarrow> string" where
  "canonical_header k = (if list_all is_token_byte k then canonical_bytes True k else k)"

definition request_headers :: "download_request \<Rightarrow> (string \<rightharpoonup> string)" where
  "request_headers req =
     (let h1 = [''User-Agent'' \<mapsto> ''Mozilla/5.0 (X11; Linux x86_64) AppleWebKit/537.36 (KHTML, like Gecko) Chrome/120.0.0.0 Safari/537.36'',
                ''Accept'' \<mapsto> ''*/*''];
          h2 = (if dq_Referer req \<noteq> [] then h1(''Referer'' \<mapsto> dq_Referer req) else h1)
      in foldl (\<lambda>h (k, v). h(canonical_header k \<mapsto> v)) h2 (dq_Headers req))"

definition failed_result :: "download_request \<Rightarrow> string \<Rightarrow> int \<Rightarrow> int \<Rightarrow> download_result" where
  "failed_result req err status dur =
     \<lparr>dr_Request = req, dr_LocalPath = [], dr_Body = [], dr_Error = Some err, dr_Size = 0, dr_Duration = dur, dr_StatusCode = status\<rparr>"

definition downloadAsset :: "asset_client \<Rightarrow> (int \<Rightarrow> string) \<Rightarrow> download_request \<Rightarrow> download_result" where
  "downloadAsset client show req =
     (case client (dq_URL req) (request_headers req) of
        (NoRequest e, dur) \<Rightarrow> failed_result req (''failed to create request: '' @ e) 0 0
      | (NotSent e, dur) \<Rightarrow> failed_result req (''request failed: '' @ e) 0 dur
      | (Answered status text body, dur) \<Rightarrow>
          if status \<noteq> 200 then failed_result req (''HTTP '' @ show status @ '': '' @ text) status dur
          else (case body of
                  Inl e \<Rightarrow> failed_result req (''failed to read body: '' @ e) status dur
                | Inr b \<Rightarrow> \<lparr>dr_Request = req, dr_LocalPath = [], dr_Body = b, dr_Error = None, dr_Size = int (length b),
                            dr_Duration = dur, dr_StatusCode = status\<rparr>))"

text \<open>What a worker adds to the statistics. The divisor is positive, so the division truncates a nonnegative number.\<close>

definition count_result :: "download_result \<Rightarrow> download_stats \<Rightarrow> download_stats" where
  "count_result r s =
     (let s1 = s\<lparr>ds_Completed := ds_Completed s + 1\<rparr>
      in if dr_Error r \<noteq> None then s1\<lparr>ds_Failed := ds_Failed s1 + 1\<rparr>
         else
           let s2 = s1\<lparr>ds_TotalBytes := ds_TotalBytes s1 + dr_Size r, ds_TotalDuration := ds_TotalDuration s1 + dr_Duration r\<rparr>
           in if 0 < ds_Completed s2 then s2\<lparr>ds_AvgDuration := ds_TotalDuration s2 div ds_Completed s2\<rparr> else s2)"

section \<open>The batch\<close>

record batch_downloader =
  bd_workerCount :: nat
  bd_cancelled :: bool
  bd_closed :: bool
  bd_stats :: download_stats

definition NewBatchAssetDownloader :: "int \<Rightarrow> batch_downloader" where
  "NewBatchAssetDownloader workerCount =
     \<lparr>bd_workerCount = (if workerCount \<le> 0 then 16 else nat workerCount), bd_cancelled = False, bd_closed = False, bd_stats = zero_stats\<rparr>"

text \<open>
  One run of \<open>Execute\<close>: what is left to submit, the two channels, the workers that download and those that wait to send a
  result, the results that were collected, in order, and the statistics.
\<close>

record batch_run =
  br_todo :: "download_request list"
  br_queue :: "download_request list"
  br_busy :: "download_request list"
  br_held :: "download_result list"
  br_results :: "download_result list"
  br_done :: "download_result list"
  br_stats :: download_stats

definition start_run :: "download_stats \<Rightarrow> download_request list \<Rightarrow> batch_run" where
  "start_run s requests =
     \<lparr>br_todo = requests, br_queue = [], br_busy = [], br_held = [], br_results = [], br_done = [], br_stats = s\<rparr>"

text \<open>
  The steps, with \<open>w\<close> workers and channels of \<open>4 * w\<close>: the caller sends a request if there is room; an idle worker takes
  one; a worker finishes and counts its result; a worker sends its result if there is room; the caller, once all
  requests are submitted, receives a result.
\<close>

inductive batch_step :: "nat \<Rightarrow> (download_request \<Rightarrow> download_result) \<Rightarrow> batch_run \<Rightarrow> batch_run \<Rightarrow> bool" for w :: nat and dl where
  submit: "br_todo s = r # rs \<Longrightarrow> length (br_queue s) < 4 * w \<Longrightarrow> batch_step w dl s (s\<lparr>br_todo := rs, br_queue := br_queue s @ [r]\<rparr>)"
| take_request: "br_queue s = r # rs \<Longrightarrow> length (br_busy s) + length (br_held s) < w \<Longrightarrow>
    batch_step w dl s (s\<lparr>br_queue := rs, br_busy := br_busy s @ [r]\<rparr>)"
| finish: "br_busy s = xs @ r # ys \<Longrightarrow>
    batch_step w dl s (s\<lparr>br_busy := xs @ ys, br_held := br_held s @ [dl r], br_stats := count_result (dl r) (br_stats s)\<rparr>)"
| send: "br_held s = xs @ v # ys \<Longrightarrow> length (br_results s) < 4 * w \<Longrightarrow>
    batch_step w dl s (s\<lparr>br_held := xs @ ys, br_results := br_results s @ [v]\<rparr>)"
| collect: "br_todo s = [] \<Longrightarrow> br_results s = v # vs \<Longrightarrow>
    batch_step w dl s (s\<lparr>br_results := vs, br_done := br_done s @ [v]\<rparr>)"

inductive_cases batch_stepE: "batch_step w dl s t"

text \<open>\<open>Submit\<close> counts the request it sends; on a cancelled downloader it may return without sending.\<close>

inductive Submit :: "nat \<Rightarrow> bool \<Rightarrow> download_request \<Rightarrow> batch_run \<Rightarrow> batch_run \<Rightarrow> bool" for w :: nat and cancelled :: bool and req where
  sent: "length (br_queue s) < 4 * w \<Longrightarrow>
    Submit w cancelled req s
      (s\<lparr>br_queue := br_queue s @ [req], br_stats := (br_stats s)\<lparr>ds_TotalRequests := ds_TotalRequests (br_stats s) + 1\<rparr>\<rparr>)"
| cancelled: "cancelled \<Longrightarrow> Submit w cancelled req s s"

text \<open>The map of results: a later result for a URL replaces an earlier one.\<close>

definition result_map :: "(string \<rightharpoonup> download_result) \<Rightarrow> download_result list \<Rightarrow> (string \<rightharpoonup> download_result)" where
  "result_map m rs = foldl (\<lambda>m r. m(dq_URL (dr_Request r) \<mapsto> r)) m rs"

section \<open>The layers above\<close>

record parallel_downloader =
  pd_downloader :: batch_downloader
  pd_pendingReqs :: "download_request list"
  pd_results :: "string \<rightharpoonup> download_result"

definition NewParallelAssetDownloader :: "int \<Rightarrow> parallel_downloader" where
  "NewParallelAssetDownloader workerCount =
     \<lparr>pd_downloader = NewBatchAssetDownloader workerCount, pd_pendingReqs = [], pd_results = Map.empty\<rparr>"

definition AddRequest :: "download_request \<Rightarrow> parallel_downloader \<Rightarrow> parallel_downloader" where
  "AddRequest req p = p\<lparr>pd_pendingReqs := pd_pendingReqs p @ [req]\<rparr>"

text \<open>
  \<open>Execute\<close> relates the state before a call with its outcome. Without requests it returns at once. On closed channels the
  first send panics. Otherwise the call runs until all results are collected; then the downloader is stopped, which
  closes the channels.
\<close>

inductive Execute :: "(download_request \<Rightarrow> download_result) \<Rightarrow> parallel_downloader \<Rightarrow> parallel_downloader outcome \<Rightarrow> bool"
  for dl where
  nothing: "pd_pendingReqs p = [] \<Longrightarrow> Execute dl p (Returns p)"
| closed: "pd_pendingReqs p \<noteq> [] \<Longrightarrow> bd_closed (pd_downloader p) \<Longrightarrow> Execute dl p Panic"
| completed: "pd_pendingReqs p \<noteq> [] \<Longrightarrow> \<not> bd_closed (pd_downloader p) \<Longrightarrow>
    (batch_step (bd_workerCount (pd_downloader p)) dl)\<^sup>*\<^sup>* (start_run (bd_stats (pd_downloader p)) (pd_pendingReqs p)) s \<Longrightarrow>
    length (br_done s) = length (pd_pendingReqs p) \<Longrightarrow>
    Execute dl p (Returns (p\<lparr>pd_pendingReqs := [], pd_results := result_map (pd_results p) (br_done s),
      pd_downloader := (pd_downloader p)\<lparr>bd_cancelled := True, bd_closed := True, bd_stats := br_stats s\<rparr>\<rparr>))"

inductive_cases ExecuteE: "Execute dl p out"

definition critical_types :: "string list" where
  "critical_types =
     [''text/css'', ''application/javascript'', ''text/javascript'', ''application/x-javascript'', ''font/'', ''image/'']"

definition isCriticalResource :: "string \<Rightarrow> bool" where
  "isCriticalResource mimeType \<longleftrightarrow> list_ex (\<lambda>t. length t \<le> length mimeType \<and> take (length t) mimeType = t) critical_types"

text \<open>The captured resources of a page, in the order the map is ranged over: URL, type and headers.\<close>

definition build_requests :: "string \<Rightarrow> string \<Rightarrow> (string \<times> string \<times> (string \<times> string) list) list \<Rightarrow> download_request list" where
  "build_requests pageURL htmlDir resources =
     map (\<lambda>(url, mimeType, headers).
            \<lparr>dq_URL = url, dq_Referer = pageURL, dq_HTMLDir = htmlDir, dq_MimeType = mimeType, dq_Headers = headers,
             dq_Priority = (if isCriticalResource mimeType then 10 else 0)\<rparr>) resources"

definition sort_requests :: "download_request list \<Rightarrow> download_request list" where
  "sort_requests = exchange_sort dq_Priority"

definition prepare_assets :: "string \<Rightarrow> string \<Rightarrow> (string \<times> string \<times> (string \<times> string) list) list \<Rightarrow> parallel_downloader \<Rightarrow> parallel_downloader" where
  "prepare_assets pageURL htmlDir resources p = foldl (\<lambda>p r. AddRequest r p) p (sort_requests (build_requests pageURL htmlDir resources))"

definition DownloadAssets where
  "DownloadAssets dl pageURL htmlDir resources p out \<longleftrightarrow>
     (if resources = [] then out = Returns p else Execute dl (prepare_assets pageURL htmlDir resources p) out)"

definition DownloadStats :: "parallel_downloader \<Rightarrow> download_stats" where
  "DownloadStats p = bd_stats (pd_downloader p)"

section \<open>One run\<close>

text \<open>Where the requests are, and what the channels and the pool can hold.\<close>

definition requests_of :: "batch_run \<Rightarrow> download_request multiset" where
  "requests_of s =
     mset (br_todo s) + mset (br_queue s) + mset (br_busy s) +
     mset (map dr_Request (br_held s)) + mset (map dr_Request (br_results s)) + mset (map dr_Request (br_done s))"

definition run_ok :: "nat \<Rightarrow> batch_run \<Rightarrow> bool" where
  "run_ok w s \<longleftrightarrow>
     length (br_queue s) \<le> 4 * w \<and> length (br_busy s) + length (br_held s) \<le> w \<and> length (br_results s) \<le> 4 * w \<and>
     (br_todo s \<noteq> [] \<longrightarrow> br_done s = []) \<and> (br_todo s = [] \<longrightarrow> size (requests_of s) \<le> 9 * w)"

definition run_measure :: "batch_run \<Rightarrow> nat" where
  "run_measure s =
     5 * length (br_todo s) + 4 * length (br_queue s) + 3 * length (br_busy s) + 2 * length (br_held s) + length (br_results s)"

lemma step_requests: "batch_step w dl s t \<Longrightarrow> (\<And>r. dr_Request (dl r) = r) \<Longrightarrow> requests_of t = requests_of s"
  by (erule batch_stepE) (simp_all add: requests_of_def)

lemma step_ok: "batch_step w dl s t \<Longrightarrow> run_ok w s \<Longrightarrow> (\<And>r. dr_Request (dl r) = r) \<Longrightarrow> run_ok w t"
  by (erule batch_stepE) (auto simp: run_ok_def requests_of_def)

lemma step_measure: "batch_step w dl s t \<Longrightarrow> run_measure t < run_measure s"
  by (erule batch_stepE) (simp_all add: run_measure_def)

lemma run_invariant:
  "(batch_step w dl)\<^sup>*\<^sup>* s t \<Longrightarrow> (\<And>r. dr_Request (dl r) = r) \<Longrightarrow> run_ok w s \<Longrightarrow> run_ok w t \<and> requests_of t = requests_of s"
  by (induction rule: rtranclp_induct) (auto simp: step_requests intro: step_ok)

lemma run_steps_bounded: "(batch_step w dl ^^ n) s t \<Longrightarrow> n + run_measure t \<le> run_measure s"
proof (induction n arbitrary: t)
  case (Suc n)
  then obtain u where "(batch_step w dl ^^ n) s u" "batch_step w dl u t" by auto
  with Suc.IH [of u] step_measure [of w dl u t] show ?case by linarith
qed simp

lemma start_ok: "run_ok w (start_run st requests)" "requests_of (start_run st requests) = mset requests"
  by (simp_all add: run_ok_def start_run_def requests_of_def)

lemma size_requests:
  "size (requests_of s) = length (br_todo s) + length (br_queue s) + length (br_busy s) + length (br_held s) + length (br_results s) + length (br_done s)"
  by (simp add: requests_of_def)

lemma stuck_cases:
  assumes stuck: "\<nexists>t. batch_step w dl s t" and ok: "run_ok w s" and w: "0 < w"
  shows "br_busy s = [] \<and>
    (br_todo s = [] \<longrightarrow> br_queue s = [] \<and> br_held s = [] \<and> br_results s = []) \<and>
    (br_todo s \<noteq> [] \<longrightarrow> length (br_queue s) = 4 * w \<and> length (br_held s) = w \<and> length (br_results s) = 4 * w)"
proof -
  have busy: "br_busy s = []"
  proof (rule ccontr)
    assume "br_busy s \<noteq> []"
    then obtain r ys where "br_busy s = [] @ r # ys" by (cases "br_busy s") auto
    then show False using stuck batch_step.finish by blast
  qed
  have held: "br_held s \<noteq> [] \<Longrightarrow> length (br_results s) = 4 * w"
  proof -
    assume "br_held s \<noteq> []"
    then obtain v ys where "br_held s = [] @ v # ys" by (cases "br_held s") auto
    then have "\<not> length (br_results s) < 4 * w" using stuck batch_step.send by blast
    then show ?thesis using ok by (simp add: run_ok_def)
  qed
  have queue: "br_queue s \<noteq> [] \<Longrightarrow> length (br_held s) = w"
  proof -
    assume "br_queue s \<noteq> []"
    then obtain r rs where "br_queue s = r # rs" by (cases "br_queue s") auto
    then have "\<not> length (br_busy s) + length (br_held s) < w" using stuck batch_step.take_request by blast
    then show ?thesis using ok busy by (simp add: run_ok_def)
  qed
  have todo: "br_todo s \<noteq> [] \<Longrightarrow> length (br_queue s) = 4 * w"
  proof -
    assume "br_todo s \<noteq> []"
    then obtain r rs where "br_todo s = r # rs" by (cases "br_todo s") auto
    then have "\<not> length (br_queue s) < 4 * w" using stuck batch_step.submit by blast
    then show ?thesis using ok by (simp add: run_ok_def)
  qed
  have collected: "br_todo s = [] \<Longrightarrow> br_results s = []"
    using stuck batch_step.collect by (cases "br_results s") blast+
  show ?thesis using busy held queue todo collected w by force
qed

text \<open>C40: A batch of more than nine requests for each worker never returns, whatever the answers and however the workers
  are scheduled: the caller submits all requests before it collects any result, so both channels and the workers fill
  up and everything waits. Smaller batches always return, with exactly one result for each request. Each run ends after
  at most five steps for each request.\<close>

theorem batch_returns_iff_it_fits:
  assumes w: "0 < w" and dl: "\<And>r. dr_Request (dl r) = r"
    and run: "(batch_step w dl ^^ n) (start_run st requests) s"
  shows "n \<le> 5 * length requests \<and>
    ((\<exists>t. batch_step w dl s t) \<or>
     (if length requests \<le> 9 * w then mset (map dr_Request (br_done s)) = mset requests else br_todo s \<noteq> [] \<and> br_done s = []))"
proof (cases "\<exists>t. batch_step w dl s t")
  case True
  then show ?thesis using run_steps_bounded [OF run] by (simp add: run_measure_def start_run_def)
next
  case halted: False
  have inv: "run_ok w s" "requests_of s = mset requests"
    using run_invariant [OF relpowp_imp_rtranclp [OF run] dl start_ok(1)] start_ok(2) by simp_all
  have n: "length requests = length (br_todo s) + length (br_queue s) + length (br_busy s) + length (br_held s) +
      length (br_results s) + length (br_done s)"
    using inv(2) size_requests [of s] by (metis size_mset)
  have c: "br_busy s = [] \<and>
    (br_todo s = [] \<longrightarrow> br_queue s = [] \<and> br_held s = [] \<and> br_results s = []) \<and>
    (br_todo s \<noteq> [] \<longrightarrow> length (br_queue s) = 4 * w \<and> length (br_held s) = w \<and> length (br_results s) = 4 * w)"
    using halted by (intro stuck_cases [OF _ inv(1) w]) simp
  have steps: "n \<le> 5 * length requests" using run_steps_bounded [OF run] by (simp add: run_measure_def start_run_def)
  show ?thesis
  proof (cases "br_todo s = []")
    case True
    then have "mset (map dr_Request (br_done s)) = mset requests" using c inv(2) by (simp add: requests_of_def)
    moreover have "length requests \<le> 9 * w" using inv True by (simp add: run_ok_def)
    ultimately show ?thesis using steps by simp
  next
    case False
    then have "br_done s = []" using inv(1) by (simp add: run_ok_def)
    moreover have "9 * w < length requests" using c False n by (cases "br_todo s") auto
    ultimately show ?thesis using False steps by simp
  qed
qed

text \<open>A worker's answer keeps its request, so the hypothesis on answers holds for every client.\<close>

lemma downloadAsset_keeps_request [simp]: "dr_Request (downloadAsset client show req) = req"
  by (auto simp: downloadAsset_def failed_result_def split: prod.splits fetched.splits sum.splits)

definition sample_request :: "string \<Rightarrow> download_request" where
  "sample_request u = \<lparr>dq_URL = u, dq_Referer = [], dq_HTMLDir = ''out'', dq_MimeType = ''image/png'', dq_Headers = [], dq_Priority = 10\<rparr>"

definition sample_answer :: "download_request \<Rightarrow> download_result" where
  "sample_answer = downloadAsset (\<lambda>u h. (Answered 200 ''200 OK'' (Inr ''body''), 1)) (\<lambda>n. [])"

definition sample_end :: batch_run where
  "sample_end = (start_run zero_stats [])
     \<lparr>br_done := [sample_answer (sample_request ''u'')], br_stats := count_result (sample_answer (sample_request ''u'')) zero_stats\<rparr>"

lemma sample_run: "(batch_step 1 sample_answer ^^ 5) (start_run zero_stats [sample_request ''u'']) sample_end"
proof -
  let ?r = "sample_request ''u''"
  let ?v = "sample_answer ?r"
  let ?s = "start_run zero_stats []"
  let ?t = "?s\<lparr>br_stats := count_result ?v zero_stats\<rparr>"
  have "batch_step 1 sample_answer (start_run zero_stats [?r]) (?s\<lparr>br_queue := [?r]\<rparr>)"
    using batch_step.submit [of "start_run zero_stats [?r]" ?r "[]" 1 sample_answer] by (simp add: start_run_def)
  moreover have "batch_step 1 sample_answer (?s\<lparr>br_queue := [?r]\<rparr>) (?s\<lparr>br_busy := [?r]\<rparr>)"
    using batch_step.take_request [of "?s\<lparr>br_queue := [?r]\<rparr>" ?r "[]" 1 sample_answer] by (simp add: start_run_def)
  moreover have "batch_step 1 sample_answer (?s\<lparr>br_busy := [?r]\<rparr>) (?t\<lparr>br_held := [?v]\<rparr>)"
    using batch_step.finish [of "?s\<lparr>br_busy := [?r]\<rparr>" "[]" ?r "[]" 1 sample_answer] by (simp add: start_run_def)
  moreover have "batch_step 1 sample_answer (?t\<lparr>br_held := [?v]\<rparr>) (?t\<lparr>br_results := [?v]\<rparr>)"
    using batch_step.send [of "?t\<lparr>br_held := [?v]\<rparr>" "[]" ?v "[]" 1 sample_answer] by (simp add: start_run_def)
  moreover have "batch_step 1 sample_answer (?t\<lparr>br_results := [?v]\<rparr>) sample_end"
    using batch_step.collect [of "?t\<lparr>br_results := [?v]\<rparr>" ?v "[]" 1 sample_answer] by (simp add: start_run_def sample_end_def)
  ultimately show ?thesis by (auto simp: eval_nat_numeral OO_def simp del: batch_step.simps)
qed

lemma sample_end_stuck: "\<not> batch_step 1 sample_answer sample_end t"
  by (auto elim!: batch_stepE simp: sample_end_def start_run_def)

theorem batch_returns_iff_it_fits_witness:
  "(batch_step 1 sample_answer ^^ 5) (start_run zero_stats [sample_request ''u'']) sample_end \<and>
   mset (map dr_Request (br_done sample_end)) = {#sample_request ''u''#}"
proof -
  have "dr_Request (sample_answer r) = r" for r by (simp add: sample_answer_def)
  then show ?thesis using batch_returns_iff_it_fits [OF _ _ sample_run] sample_run sample_end_stuck by auto
qed

section \<open>Several pages\<close>

lemma sort_requests_sorts:
  "mset (sort_requests rs) = mset rs \<and> sorted_wrt (\<lambda>a b. dq_Priority b \<le> dq_Priority a) (sort_requests rs)"
  by (simp add: sort_requests_def exchange_sort_sorts)

lemma pending_after_AddRequests: "pd_pendingReqs (foldl (\<lambda>p r. AddRequest r p) p rs) = pd_pendingReqs p @ rs \<and>
    pd_downloader (foldl (\<lambda>p r. AddRequest r p) p rs) = pd_downloader p"
  by (induction rs arbitrary: p) (simp_all add: AddRequest_def)

lemma results_after_AddRequests: "pd_results (foldl (\<lambda>p r. AddRequest r p) p rs) = pd_results p"
  by (induction rs arbitrary: p) (simp_all add: AddRequest_def)

lemma result_map_dom: "dom (result_map m rs) = dom m \<union> (dq_URL \<circ> dr_Request) ` set rs"
proof (induction rs arbitrary: m)
  case (Cons r rs)
  have "result_map m (r # rs) = result_map (m(dq_URL (dr_Request r) \<mapsto> r)) rs" by (simp add: result_map_def)
  with Cons.IH show ?case by auto
qed (simp add: result_map_def)

text \<open>Only \<open>Submit\<close> counts requests, and \<open>Execute\<close> does not call it: the total stays zero.\<close>

lemma count_result_total [simp]: "ds_TotalRequests (count_result r s) = ds_TotalRequests s"
  by (simp add: count_result_def Let_def)

lemma step_total: "batch_step w dl s t \<Longrightarrow> ds_TotalRequests (br_stats t) = ds_TotalRequests (br_stats s)"
  by (erule batch_stepE) simp_all

lemma Execute_never_counts_requests:
  assumes "Execute dl p (Returns q)"
  shows "ds_TotalRequests (DownloadStats q) = ds_TotalRequests (DownloadStats p)"
proof -
  have run: "ds_TotalRequests (br_stats t) = ds_TotalRequests (br_stats s)" if "(batch_step w dl)\<^sup>*\<^sup>* s t" for w s t
    using that by (induction rule: rtranclp_induct) (simp_all add: step_total)
  show ?thesis using assms by (rule ExecuteE) (auto simp: DownloadStats_def start_run_def dest: run)
qed

text \<open>
  The first page that has assets and returns closes the channels: it has a result for every asset, and the next page
  with assets ends the program.
\<close>

theorem second_page_panics:
  assumes fresh: "p0 = NewParallelAssetDownloader w" and dl: "\<And>r. dr_Request (dl r) = r"
    and first: "DownloadAssets dl page1 dir1 (a # as) p0 (Returns p1)"
    and second: "DownloadAssets dl page2 dir2 (b # bs) p1 out"
  shows "dom (pd_results p1) = fst ` set (a # as) \<and> out = Panic"
proof -
  define q where "q = prepare_assets page1 dir1 (a # as) p0"
  define rs where "rs = sort_requests (build_requests page1 dir1 (a # as))"
  have pend: "pd_pendingReqs q = rs" and down: "pd_downloader q = pd_downloader p0" and res: "pd_results q = pd_results p0"
    using pending_after_AddRequests [of p0 rs] by (simp_all add: q_def rs_def prepare_assets_def fresh NewParallelAssetDownloader_def results_after_AddRequests)
  have set_rs: "set rs = set (build_requests page1 dir1 (a # as))"
    using sort_requests_sorts by (metis rs_def set_mset_mset)
  then have ne: "rs \<noteq> []" by (auto simp: build_requests_def)
  have "Execute dl q (Returns p1)" using first by (simp add: DownloadAssets_def q_def)
  then obtain s where s: "(batch_step (bd_workerCount (pd_downloader q)) dl)\<^sup>*\<^sup>* (start_run (bd_stats (pd_downloader q)) rs) s"
      "length (br_done s) = length rs"
    and p1: "p1 = q\<lparr>pd_pendingReqs := [], pd_results := result_map (pd_results q) (br_done s),
      pd_downloader := (pd_downloader q)\<lparr>bd_cancelled := True, bd_closed := True, bd_stats := br_stats s\<rparr>\<rparr>"
    by (rule ExecuteE) (use ne pend in auto)
  have "requests_of s = mset rs" using run_invariant [OF s(1) dl start_ok(1)] start_ok(2) by simp
  moreover from this s(2) have "requests_of s = mset (map dr_Request (br_done s))"
    using size_requests [of s] by (simp add: requests_of_def)
  ultimately have "set (map dr_Request (br_done s)) = set rs" by (metis set_mset_mset)
  then have "dom (pd_results p1) = dq_URL ` set rs"
    by (simp add: p1 result_map_dom res fresh NewParallelAssetDownloader_def image_comp flip: image_image)
  moreover have "dq_URL ` set rs = fst ` set (a # as)"
    by (simp only: set_rs build_requests_def set_map image_image) (rule image_cong, auto)
  moreover have "out = Panic"
  proof -
    have "Execute dl (prepare_assets page2 dir2 (b # bs) p1) out" using second by (simp add: DownloadAssets_def)
    moreover have "bd_closed (pd_downloader (prepare_assets page2 dir2 (b # bs) p1))"
      using pending_after_AddRequests by (simp add: prepare_assets_def p1)
    moreover have "set (sort_requests (build_requests page2 dir2 (b # bs))) = set (build_requests page2 dir2 (b # bs))"
      using sort_requests_sorts by (metis set_mset_mset)
    then have "pd_pendingReqs (prepare_assets page2 dir2 (b # bs) p1) \<noteq> []"
      using pending_after_AddRequests by (auto simp: prepare_assets_def build_requests_def)
    ultimately show ?thesis by (auto elim: ExecuteE)
  qed
  ultimately show ?thesis by simp
qed

end
