(* ===== verification/Spec2Isabelle.thy ===== *)
theory Spec2Isabelle
  imports UrlQueue UrlNormalize Glob BoundedQueue Lru ShardedMap CircuitBreaker Errors Robots Config
    ChangeDetection Storage CrawlRuns FileLocks RedisLocks ApiServer Dedup Markdown JsUrls JsRewrite
    Scheduler PostgresQueue KafkaQueue Interceptor Repair Plugin PageRewriter SingleFile AuditLog AssetDownloader
begin

text \<open>
  A verification library for the crawler, a program in Go that visits a web site with a headless browser, stores its
  pages and assets, and makes a copy of the site that can be read offline.

  The parts and how they meet. The crawl loop (\<open>internal/crawler\<close>) takes URLs from a queue (\<open>internal/queue\<close>, in
  memory or on Redis, Postgres or Kafka), spawns a goroutine for each page and asset within limits on concurrency,
  depth, hosts and the total, asks the robots rules (\<open>internal/robots\<close>) and the breaker of the host
  (\<open>internal/resilience\<close>), records what the browser loads (\<open>internal/network\<close>), stores what it captured
  (\<open>internal/storage\<close>), pushes the links it found after normalising and filtering them, and saves checkpoints. Several
  processes share a crawl through locks and a leader (\<open>internal/coordinator\<close>). A control server (\<open>internal/api\<close>)
  starts, stops and pauses the crawl, a scheduler (\<open>internal/scheduler\<close>) starts jobs at given times, and a
  detector (\<open>internal/changedetection\<close>) compares pages between visits. A finished crawl is repaired
  (\<open>internal/repair\<close>), made into an offline copy or exported without duplicates (\<open>internal/localize\<close>), and converted
  to Markdown (\<open>internal/markdown\<close>).

  Conventions. A Go struct is a record, a method a function from state to result and state, a function that returns
  an error a sum with the error on the left or an option, one that can panic an \<open>outcome\<close> (theory \<open>Prelude\<close>). A method
  that holds its mutex is one step; goroutines are interleavings of such steps. Strings are lists of bytes. Machine
  integers that can wrap or do not fit are bounded explicitly; the others are \<open>int\<close>. What is not under the source
  tree, the browser, HTTP, Redis, Postgres, Kafka, the clock, the operating system, is an argument of the
  definitions that use it, and a property that relies on its documented behaviour says so in a hypothesis.

  Theories and the code they model.

  \<^item> \<open>Prelude\<close>: shared collections, \<open>outcome\<close>, lemmas on lists and maps.
  \<^item> \<open>GoStrings\<close>, \<open>GoPath\<close>, \<open>GoRel\<close>, \<open>GoNetURL\<close>, \<open>GoURLString\<close>, \<open>GoRegexp\<close>: the parts of the packages \<open>strings\<close>, \<open>bytes\<close>,
    \<open>path/filepath\<close>, \<open>net/url\<close> and \<open>regexp\<close> the program uses. \<open>GoURLString\<close> shows that printing a parsed URL and
    parsing it again gives the URL, \<open>GoRel\<close> that joining a relative path to its base gives its target.
  \<^item> \<open>UrlQueue\<close> (\<open>internal/queue\<close> types.go, heap.go, ops.go): the priority queue on \<open>container/heap\<close>. The locale
    \<open>url_queue\<close> is the contract of the interface \<open>Queue\<close>, \<open>depth_first_queue\<close> adds the order; the queue interprets both.
  \<^item> \<open>RedisQueue\<close>, \<open>PostgresQueue\<close>, \<open>KafkaQueue\<close> (redis.go, postgres.go, kafka.go, factory.go): the backends with their
    stores, and calls that are refused or whose answer is lost. Redis and Kafka interpret \<open>url_queue\<close> as long as their
    calls are answered; Postgres cannot. Checkpoints are taken and loaded in all three.
  \<^item> \<open>UrlNormalize\<close> (params.go, strip.go), \<open>Glob\<close> (glob.go), \<open>CrawlUrls\<close> (\<open>internal/crawler/urls.go\<close>): what counts as one
    URL and which URLs are wanted.
  \<^item> \<open>BoundedQueue\<close>, \<open>Lru\<close> (\<open>internal/util\<close>), \<open>ShardedMap\<close> (\<open>internal/sync\<close>): containers, each refined by a list or
    a map; the locale \<open>kv_store\<close> is the contract of the sharded map.
  \<^item> \<open>CircuitBreaker\<close> (\<open>internal/resilience\<close>), \<open>Errors\<close> (\<open>internal/errors\<close>, \<open>internal/crawler/retry.go\<close>): the breaker as a
    state machine per host, the classification of errors and the loop that retries a page.
  \<^item> \<open>Robots\<close> (\<open>internal/robots\<close>): parsing, rule matching and the cache.
  \<^item> \<open>Config\<close> (\<open>internal/config\<close>): the structs, defaults and validation.
  \<^item> \<open>ChangeDetection\<close>, \<open>Storage\<close>: snapshots, diffs and history; the paths and files of a crawl.
  \<^item> \<open>Crawler\<close>, \<open>CrawlRuns\<close> (\<open>internal/crawler\<close>): the dispatcher, the goroutines, pausing, stopping, checkpoints as steps of
    one state; what holds in every run. The work of a page in the browser is an argument.
  \<^item> \<open>Interceptor\<close> (\<open>internal/network\<close>): capture of responses and the pool of interceptors.
  \<^item> \<open>Coordinator\<close>, \<open>FileLocks\<close>, \<open>RedisLocks\<close> (\<open>internal/coordinator\<close>): the registry, locks and leader election, as
    interleavings of the steps of several processes.
  \<^item> \<open>ApiServer\<close> (\<open>internal/api\<close>, \<open>internal/crawler/status.go\<close>): handlers, rate limit, the jobs they start. The locale
    \<open>crawl_control\<close> is what the server needs of a crawler; the crawler interprets it.
  \<^item> \<open>Scheduler\<close> (\<open>internal/scheduler\<close>): cron expressions, timers, starting and stopping.
  \<^item> \<open>CssRefs\<close> (\<open>internal/repair/extract.go\<close>, \<open>internal/localize/css.go\<close>, \<open>internal/rewrite/css.go\<close>), \<open>LocalLinks\<close>, \<open>Dedup\<close>,
    \<open>JsRewrite\<close> (\<open>internal/localize\<close>), \<open>JsUrls\<close> (\<open>internal/jsanalyzer\<close>), \<open>Markdown\<close> (\<open>internal/markdown\<close>): what is made of a
    stored site.
  \<^item> \<open>Repair\<close> (\<open>internal/repair\<close>): the scan of a stored site, the downloads, the rewriting and the report.
  \<^item> \<open>Plugin\<close> (\<open>internal/plugin\<close>): the registry of plugins, their execution, and the plugins of the program.
  \<^item> \<open>PageRewriter\<close>, \<open>SingleFile\<close> (\<open>internal/rewrite\<close>): rewriting the stored pages and sheets, links, pages as single files, the
    rewriter with caches.
  \<^item> \<open>AuditLog\<close> (\<open>internal/audit\<close>): the audit log with its mutex, queries, the events of the helper.
  \<^item> \<open>AssetDownloader\<close> (\<open>internal/crawler/asset_downloader.go\<close>): the pool of download workers as a system of steps.
    \<open>ExchangeSort\<close>: the sort that is written out there and in \<open>internal/rewrite\<close>.
  What the lemmas show. Containers and parsers: refinement of a plain list or map, round trips. The crawl: no URL is
  dispatched twice, limits hold in every reachable state, a crawl can always end, a checkpoint that is resumed loses
  exactly the pages in work. Locks: exclusion in every interleaving. Capture: every response gets its body. The
  offline copy: links stay inside it and lead to the mapped file. Where the code does not do what it means to, the
  theorem states what it does instead, and the manifest lists it as a finding.

  Bounds. Loops are structural, or terminate by a measure. \<open>processCSSImports\<close> recurses over files and is a
  \<open>partial_function\<close> into options; it is proved to return on every sheet. The search for the next run of a cron job
  is bounded by the 525600 minutes of the code. \<open>run_job\<close> of \<open>ApiServer\<close> needs five steps, the number of statements of
  the longest job. Retries have the bounds of the code. No other fuel is used.

  Not modelled. What drives the browser: \<open>internal/browserpool\<close>, \<open>internal/jsengine\<close>, \<open>internal/captcha\<close>, and most of
  \<open>do_crawl.go\<close>, \<open>capture.go\<close>, \<open>interaction.go\<close>, \<open>cookies.go\<close>; these are sequences of calls to the DevTools protocol and
  scripts for the page. What formats a file with a library or an encoder: HAR, WARC, WACZ, sitemaps, the service
  worker. Clients of other services: notifications, tracing, OAuth, metrics, logging. The token bucket of the
  rate limiter and its floating-point delays. Command line, web interface, loading the configuration.
\<close>

end
